(* ===== verification/Prelude.thy ===== *)
theory Prelude
  imports Main "HOL-Library.Word" "HOL-Library.Sublist"
begin

text \<open>
  The vocabulary that every component of the development shares.

  \<^item> Machine types: \<open>u8\<close> bytes, \<open>u32\<close> and \<open>u64\<close> words. Sizes (\<open>usize\<close>) and counters that only ever
    grow by one are natural numbers; where the code checks for an overflow, the bound \<open>usize_max\<close> is
    written out (\<open>checked_add_usize\<close>).
  \<^item> Text: a Rust \<open>String\<close> is its list of UTF-8 bytes, a HOL \<open>string\<close>, so \<open>length\<close> is \<open>len()\<close>.
  \<^item> Results: \<open>'e + 'a\<close> with \<open>Inl\<close> for \<open>Err\<close> and \<open>Inr\<close> for \<open>Ok\<close>.
  \<^item> The list operations of the standard library that the sources use: \<open>position\<close>, \<open>rposition\<close>,
    \<open>strip_prefix\<close>, \<open>join\<close>, \<open>filter_map\<close>.
  \<^item> The hint collections: \<open>yuke_simps\<close> for the equations of a component that its proofs always
    want, \<open>replay_simps\<close> for the facts on the replay of commits.
\<close>

named_theorems yuke_simps \<open>defining equations that the component proofs unfold\<close>
named_theorems replay_simps \<open>how commits change a replayed context\<close>

type_synonym u8 = "8 word"
type_synonym u32 = "32 word"
type_synonym u64 = "64 word"
type_synonym f64 = "64 word" \<comment> \<open>the bits of a float that the model only copies\<close>

section \<open>Sizes\<close>

definition usize_max :: nat where
  "usize_max = 2 ^ 64 - 1"

definition checked_add_usize :: "nat \<Rightarrow> nat \<Rightarrow> nat option" where
  "checked_add_usize a b = (if a + b \<le> usize_max then Some (a + b) else None)"

lemma checked_add_usize_Some [simp]:
  "checked_add_usize a b = Some c \<longleftrightarrow> a + b = c \<and> a + b \<le> usize_max"
  by (auto simp: checked_add_usize_def)

text \<open>\<open>iter().try_fold(0, checked_add)\<close>: the sum, or \<open>None\<close> once a prefix overflows.\<close>

fun checked_sum_from :: "nat \<Rightarrow> nat list \<Rightarrow> nat option" where
  "checked_sum_from s [] = Some s"
| "checked_sum_from s (n # ns) =
     (case checked_add_usize s n of None \<Rightarrow> None | Some s' \<Rightarrow> checked_sum_from s' ns)"

lemma checked_sum_from_Some:
  "checked_sum_from s ns = Some t \<Longrightarrow> t = s + sum_list ns"
  by (induction ns arbitrary: s) (fastforce split: option.splits)+

lemma checked_sum_from_le:
  "s + sum_list ns \<le> usize_max \<Longrightarrow> checked_sum_from s ns = Some (s + sum_list ns)"
  by (induction ns arbitrary: s) (auto simp: checked_add_usize_def)

section \<open>Results\<close>

definition is_ok :: "'e + 'a \<Rightarrow> bool" where
  "is_ok r = (case r of Inl _ \<Rightarrow> False | Inr _ \<Rightarrow> True)"

lemma is_ok_simps [simp]: "is_ok (Inr x)" "\<not> is_ok (Inl e)"
  by (simp_all add: is_ok_def)

definition bind_ok :: "'e + 'a \<Rightarrow> ('a \<Rightarrow> 'e + 'b) \<Rightarrow> 'e + 'b" where
  "bind_ok r f = (case r of Inl e \<Rightarrow> Inl e | Inr x \<Rightarrow> f x)"

lemma bind_ok_simps [simp]:
  "bind_ok (Inl e) f = Inl e"
  "bind_ok (Inr x) f = f x"
  by (simp_all add: bind_ok_def)

lemma bind_ok_InrE:
  assumes "bind_ok r f = Inr y"
  obtains x where "r = Inr x" "f x = Inr y"
  using assms by (cases r) auto

section \<open>Lists as the standard library reads them\<close>

fun position :: "('a \<Rightarrow> bool) \<Rightarrow> 'a list \<Rightarrow> nat option" where
  "position P [] = None"
| "position P (x # xs) = (if P x then Some 0 else map_option Suc (position P xs))"

fun rposition :: "('a \<Rightarrow> bool) \<Rightarrow> 'a list \<Rightarrow> nat option" where
  "rposition P [] = None"
| "rposition P (x # xs) =
     (case rposition P xs of Some i \<Rightarrow> Some (Suc i) | None \<Rightarrow> if P x then Some 0 else None)"

lemma position_None: "position P xs = None \<longleftrightarrow> (\<forall>x\<in>set xs. \<not> P x)"
  by (induction xs) auto

lemma position_Some:
  "position P xs = Some i \<Longrightarrow> i < length xs \<and> P (xs ! i) \<and> (\<forall>j<i. \<not> P (xs ! j))"
proof (induction xs arbitrary: i)
  case (Cons x xs)
  then show ?case by (auto simp: nth_Cons split: if_splits nat.splits)
qed simp

lemma rposition_None: "rposition P xs = None \<longleftrightarrow> (\<forall>x\<in>set xs. \<not> P x)"
  by (induction xs) (auto split: option.splits)

lemma rposition_Some:
  "rposition P xs = Some i \<Longrightarrow>
     i < length xs \<and> P (xs ! i) \<and> (\<forall>j. i < j \<and> j < length xs \<longrightarrow> \<not> P (xs ! j))"
proof (induction xs arbitrary: i)
  case (Cons x xs)
  show ?case
  proof (cases "rposition P xs")
    case None
    with Cons.prems show ?thesis by (auto simp: nth_Cons rposition_None split: if_splits nat.splits)
  next
    case (Some k)
    with Cons show ?thesis by (auto simp: nth_Cons split: nat.splits)
  qed
qed simp

lemma rposition_append:
  "rposition P (xs @ ys) =
     (case rposition P ys of Some i \<Rightarrow> Some (length xs + i) | None \<Rightarrow> rposition P xs)"
  by (induction xs) (auto split: option.splits)

text \<open>\<open>filter_map\<close>: the values of the elements that have one, in order.\<close>

fun filter_map :: "('a \<Rightarrow> 'b option) \<Rightarrow> 'a list \<Rightarrow> 'b list" where
  "filter_map f [] = []"
| "filter_map f (x # xs) = (case f x of None \<Rightarrow> filter_map f xs | Some y \<Rightarrow> y # filter_map f xs)"

lemma filter_map_append [simp]: "filter_map f (xs @ ys) = filter_map f xs @ filter_map f ys"
  by (induction xs) (auto split: option.splits)

lemma filter_map_eq_Nil [simp]: "filter_map f xs = [] \<longleftrightarrow> (\<forall>x\<in>set xs. f x = None)"
  by (induction xs) (auto split: option.splits)

lemma set_filter_map: "set (filter_map f xs) = {y. \<exists>x\<in>set xs. f x = Some y}"
  by (induction xs) (auto split: option.splits)

lemma length_filter_map_le: "length (filter_map f xs) \<le> length xs"
  by (induction xs) (auto split: option.splits)

lemma filter_map_map: "filter_map f (map g xs) = filter_map (f \<circ> g) xs"
  by (induction xs) (auto split: option.splits)

lemma filter_map_Some_map [simp]: "filter_map (\<lambda>x. Some (g x)) xs = map g xs"
  by (induction xs) auto

text \<open>\<open>find_map\<close>: the value of the first element that has one.\<close>

fun find_map :: "('a \<Rightarrow> 'b option) \<Rightarrow> 'a list \<Rightarrow> 'b option" where
  "find_map f [] = None"
| "find_map f (x # xs) = (case f x of None \<Rightarrow> find_map f xs | Some y \<Rightarrow> Some y)"

lemma find_map_None: "find_map f xs = None \<longleftrightarrow> (\<forall>x\<in>set xs. f x = None)"
  by (induction xs) (auto split: option.splits)

lemma find_map_append:
  "find_map f (xs @ ys) = (case find_map f xs of None \<Rightarrow> find_map f ys | Some y \<Rightarrow> Some y)"
  by (induction xs) (auto split: option.splits)

text \<open>\<open>strip_prefix\<close> and \<open>join\<close>.\<close>

fun strip_prefix :: "'a list \<Rightarrow> 'a list \<Rightarrow> 'a list option" where
  "strip_prefix [] ys = Some ys"
| "strip_prefix (x # xs) [] = None"
| "strip_prefix (x # xs) (y # ys) = (if x = y then strip_prefix xs ys else None)"

lemma strip_prefix_Some [simp]: "strip_prefix xs ys = Some zs \<longleftrightarrow> ys = xs @ zs"
  by (induction xs ys rule: strip_prefix.induct) auto

lemma strip_prefix_append [simp]: "strip_prefix xs (xs @ ys) = Some ys"
  by simp

lemma strip_prefix_None: "strip_prefix xs ys = None \<longleftrightarrow> \<not> prefix xs ys"
  by (induction xs ys rule: strip_prefix.induct) auto

definition starts_with :: "'a list \<Rightarrow> 'a list \<Rightarrow> bool" where
  "starts_with pre xs = (strip_prefix pre xs \<noteq> None)"

lemma starts_with_prefix [simp]: "starts_with pre xs \<longleftrightarrow> prefix pre xs"
  by (simp add: starts_with_def strip_prefix_None)

definition ends_with :: "'a list \<Rightarrow> 'a list \<Rightarrow> bool" where
  "ends_with suf xs = starts_with (rev suf) (rev xs)"

lemma ends_with_suffix [simp]: "ends_with suf xs \<longleftrightarrow> suffix suf xs"
  by (simp add: ends_with_def suffix_to_prefix)

fun join :: "'a list \<Rightarrow> 'a list list \<Rightarrow> 'a list" where
  "join sep [] = []"
| "join sep [x] = x"
| "join sep (x # y # ys) = x @ sep @ join sep (y # ys)"

text \<open>The trailing elements that satisfy a predicate, as \<open>trim_end_matches\<close> drops them.\<close>

definition trim_end :: "('a \<Rightarrow> bool) \<Rightarrow> 'a list \<Rightarrow> 'a list" where
  "trim_end P xs = rev (dropWhile P (rev xs))"

lemma trim_end_idem [simp]: "trim_end P (trim_end P xs) = trim_end P xs"
  by (simp add: trim_end_def)

section \<open>Numbers as text\<close>

text \<open>The decimal text of an integer, as \<open>Display\<close> writes it.\<close>

fun show_nat :: "nat \<Rightarrow> string" where
  "show_nat n = (if n < 10 then [char_of (48 + n)] else show_nat (n div 10) @ [char_of (48 + n mod 10)])"

declare show_nat.simps [simp del]

definition show_int :: "int \<Rightarrow> string" where
  "show_int i = (if i < 0 then CHR ''-'' # show_nat (nat (- i)) else show_nat (nat i))"

section \<open>Errors as the sources print them\<close>

text \<open>A \<open>dyn Error\<close>: its text and the error that caused it.\<close>

datatype dyn_error = DynError (error_text: string) (error_source: "dyn_error option")

fun error_chain :: "dyn_error \<Rightarrow> string list" where
  "error_chain (DynError t None) = [t]"
| "error_chain (DynError t (Some e)) = t # error_chain e"

definition chain_text :: "dyn_error \<Rightarrow> string" where
  "chain_text e = join '': '' (error_chain e)"

end
