(* ===== verification/Ai_Types.thy ===== *)
theory Ai_Types
  imports Prelude
begin

text \<open>
  The data of a model call, from \<open>crates/ai/src/request.rs\<close>, \<open>response.rs\<close>, \<open>route.rs\<close>, \<open>failure.rs\<close>
  and \<open>transport.rs\<close>: the blocks of a context with their roles, the provider state of a reasoning
  block and the origin that may receive it again, attachments, tool calls, tool results and tool
  definitions, what a reply holds (contents, partial contents, completions), the settings of a
  request, and why an attempt failed. Record fields carry a prefix where two structs of the source
  share a field name.
\<close>

section \<open>The blocks of a context\<close>

datatype protocol = AnthropicMessages | OpenaiChat | OpenaiResponses

datatype replay_kind =
    AnthropicSignature
  | AnthropicRedacted
  | ResponsesEncrypted
  | OpenrouterDetails

fun replay_protocol :: "replay_kind \<Rightarrow> protocol" where
  "replay_protocol AnthropicSignature = AnthropicMessages"
| "replay_protocol AnthropicRedacted = AnthropicMessages"
| "replay_protocol ResponsesEncrypted = OpenaiResponses"
| "replay_protocol OpenrouterDetails = OpenaiChat"

record origin =
  origin_model :: string
  origin_base_url :: string

record reasoning_replay =
  replay_origin :: origin
  replay_kind_of :: replay_kind
  replay_data :: string

datatype modality = ModText | ModImage | ModAudio | ModVideo | ModPdf | ModOther

type_synonym digest = "u8 list" \<comment> \<open>32 bytes\<close>

record blob =
  blob_digest :: digest
  blob_len :: nat

record media =
  media_blob :: blob
  media_mime :: string
  media_filename :: string

record reasoning =
  reasoning_text :: string
  reasoning_state :: "reasoning_replay option"

record tool_call =
  call_id :: string
  call_name :: string
  call_arguments :: string

record tool_definition =
  def_name :: string
  def_description :: string
  def_input_schema :: string
  def_defer_loading :: bool

record tool_result =
  result_call_id :: string
  result_content :: string
  result_is_error :: bool
  result_media :: "media list"
  result_loaded :: "tool_definition list"

datatype role = User | Assistant

datatype block =
    UserText string
  | Media media
  | ToolResult tool_result
  | AssistantText string
  | Reasoning reasoning
  | ToolCall tool_call

fun block_role :: "block \<Rightarrow> role" where
  "block_role (UserText _) = User"
| "block_role (Media _) = User"
| "block_role (ToolResult _) = User"
| "block_role (AssistantText _) = Assistant"
| "block_role (Reasoning _) = Assistant"
| "block_role (ToolCall _) = Assistant"

definition result_success :: "string \<Rightarrow> string \<Rightarrow> tool_result" where
  "result_success i content =
     \<lparr>result_call_id = i, result_content = content, result_is_error = False,
      result_media = [], result_loaded = []\<rparr>"

definition result_error :: "string \<Rightarrow> string \<Rightarrow> tool_result" where
  "result_error i content = (result_success i content)\<lparr>result_is_error := True\<rparr>"

definition with_media :: "media list \<Rightarrow> tool_result \<Rightarrow> tool_result" where
  "with_media ms r = r\<lparr>result_media := ms\<rparr>"

definition with_loaded :: "tool_definition list \<Rightarrow> tool_result \<Rightarrow> tool_result" where
  "with_loaded ds r = r\<lparr>result_loaded := ds\<rparr>"

lemma result_fields [simp]:
  "result_call_id (result_success i c) = i" "result_content (result_success i c) = c"
  "result_is_error (result_success i c) = False"
  "result_call_id (result_error i c) = i" "result_content (result_error i c) = c"
  "result_is_error (result_error i c) = True"
  "result_call_id (with_media ms r) = result_call_id r"
  "result_call_id (with_loaded ds r) = result_call_id r"
  by (simp_all add: result_success_def result_error_def with_media_def with_loaded_def)

text \<open>The kind of an attachment, from its media type in any letter case.\<close>

definition to_ascii_lowercase :: "char \<Rightarrow> char" where
  "to_ascii_lowercase c =
     (if 65 \<le> (of_char c :: nat) \<and> (of_char c :: nat) \<le> 90 then char_of ((of_char c :: nat) + 32) else c)"

definition media_kind :: "media \<Rightarrow> modality" where
  "media_kind m =
     (let mime = map to_ascii_lowercase (media_mime m)
      in if starts_with ''image/'' mime then ModImage
         else if starts_with ''audio/'' mime then ModAudio
         else if starts_with ''video/'' mime then ModVideo
         else if starts_with ''text/'' mime then ModText
         else if mime = ''application/pdf'' then ModPdf
         else ModOther)"

definition hex_digit :: "nat \<Rightarrow> char" where
  "hex_digit n = ''0123456789abcdef'' ! n"

definition hex :: "u8 list \<Rightarrow> string" where
  "hex bytes = concat (map (\<lambda>b. [hex_digit (unat (drop_bit 4 b)), hex_digit (unat (and b 15))]) bytes)"

text \<open>The text of the last answer of a context (\<open>answer_text\<close>).\<close>

definition is_tool_result :: "block \<Rightarrow> bool" where
  "is_tool_result b = (case b of ToolResult _ \<Rightarrow> True | _ \<Rightarrow> False)"

definition answer_text :: "block list \<Rightarrow> string" where
  "answer_text context =
     (let end = (case rposition (\<lambda>b. \<not> is_tool_result b) context of None \<Rightarrow> 0 | Some i \<Rightarrow> i + 1);
          start = (case rposition (\<lambda>b. block_role b \<noteq> Assistant) (take end context) of
                     None \<Rightarrow> 0 | Some i \<Rightarrow> i + 1)
      in join [CHR 0x0A]
           (filter_map (\<lambda>b. case b of AssistantText t \<Rightarrow> Some t | _ \<Rightarrow> None)
             (drop start (take end context))))"

section \<open>Targets\<close>

datatype credential_header = XApiKey | AuthorizationBearer | ApiKeyHeader

datatype session_header = NoSessionHeader | SessionIdHeader | XOpencodeSession

record header =
  header_name :: string
  header_value :: string

record route =
  base_url :: string
  route_credential_header :: "credential_header option"
  route_headers :: "header list"
  route_session_header :: session_header

record oauth_grant =
  access_token :: string
  grant_headers :: "header list"

datatype credential = NoCredential | ApiKey string | OAuth oauth_grant

datatype responses_dialect = ResponsesStandard | ResponsesCodex
datatype chat_dialect = ChatStandard | ChatMistral
datatype max_tokens_field = MaxTokens | MaxCompletionTokens
datatype reasoning_replay_mode = ReplayNone | ReasoningContent | ReasoningDetails
datatype thinking_format =
  FormatNone | FormatOpenai | FormatOpenrouter | FormatDeepseek | FormatZai | FormatQwen

record anthropic_wire =
  anthropic_max_tokens :: u32
  anthropic_cache :: bool

record chat_wire =
  chat_dialect_of :: chat_dialect
  chat_thinking_format :: thinking_format
  chat_reasoning_replay :: reasoning_replay_mode
  chat_max_tokens_field :: max_tokens_field

record responses_wire =
  responses_dialect_of :: responses_dialect
  responses_cache :: bool

datatype wire =
    WireAnthropic anthropic_wire
  | WireChat chat_wire
  | WireResponses responses_wire

fun wire_protocol :: "wire \<Rightarrow> protocol" where
  "wire_protocol (WireAnthropic _) = AnthropicMessages"
| "wire_protocol (WireChat _) = OpenaiChat"
| "wire_protocol (WireResponses _) = OpenaiResponses"

record target =
  target_model :: string
  target_route :: route
  target_wire :: wire
  tool_search :: bool

definition origin_of :: "target \<Rightarrow> origin" where
  "origin_of t =
     \<lparr>origin_model = target_model t,
      origin_base_url = trim_end (\<lambda>c. c = CHR ''/'') (base_url (target_route t))\<rparr>"

definition origin_matches :: "origin \<Rightarrow> target \<Rightarrow> bool" where
  "origin_matches og t = (og = origin_of t)"

text \<open>The state that a request to a target may carry (\<open>Reasoning::replay_to\<close>).\<close>

definition replay_to :: "reasoning \<Rightarrow> target \<Rightarrow> (replay_kind \<times> string) option" where
  "replay_to r t =
     (case reasoning_state r of
        None \<Rightarrow> None
      | Some rp \<Rightarrow>
          let empty = (replay_kind_of rp = ResponsesEncrypted \<and> replay_data rp = [])
          in if origin_matches (replay_origin rp) t
                \<and> replay_protocol (replay_kind_of rp) = wire_protocol (target_wire t) \<and> \<not> empty
             then Some (replay_kind_of rp, replay_data rp) else None)"

section \<open>The settings of a request\<close>

datatype effort = EffMinimal | EffLow | EffMedium | EffHigh | EffXhigh | EffMax

fun effort_as_str :: "effort \<Rightarrow> string" where
  "effort_as_str EffMinimal = ''minimal''"
| "effort_as_str EffLow = ''low''"
| "effort_as_str EffMedium = ''medium''"
| "effort_as_str EffHigh = ''high''"
| "effort_as_str EffXhigh = ''xhigh''"
| "effort_as_str EffMax = ''max''"

datatype thinking_display = Summarized | Omitted
datatype thinking = ThinkingOff | Adaptive "thinking_display option" | Budget u64

record reasoning_settings =
  rs_thinking :: "thinking option"
  rs_effort :: "effort option"

definition reasoning_off :: "reasoning_settings \<Rightarrow> bool" where
  "reasoning_off rs = (rs_thinking rs = Some ThinkingOff)"

record output_schema =
  schema_name :: string
  schema_text :: string
  schema_strict :: bool

datatype tool_choice = ChoiceAuto | ChoiceNone

record settings =
  max_output_tokens :: "u32 option"
  set_reasoning :: reasoning_settings
  temperature :: "f64 option"
  top_p :: "f64 option"
  set_tool_choice :: tool_choice
  set_output_schema :: "output_schema option"

definition new_settings :: settings where
  "new_settings =
     \<lparr>max_output_tokens = None, set_reasoning = \<lparr>rs_thinking = None, rs_effort = None\<rparr>,
      temperature = None, top_p = None, set_tool_choice = ChoiceAuto, set_output_schema = None\<rparr>"

section \<open>Requests\<close>

text \<open>A blob store reads the bytes of a digest, or says that it has none, or fails.\<close>

type_synonym blob_store = "digest \<Rightarrow> dyn_error + u8 list option"

record request =
  rq_blocks :: "block list"
  rq_tools :: "tool_definition list"
  rq_blobs :: "blob_store option"
  rq_system :: string
  rq_settings :: settings
  rq_session_id :: "string option"
  rq_cached :: "nat option"

definition new_request :: "block list \<Rightarrow> request" where
  "new_request bs =
     \<lparr>rq_blocks = bs, rq_tools = [], rq_blobs = None, rq_system = [], rq_settings = new_settings,
      rq_session_id = None, rq_cached = None\<rparr>"

definition cacheable_blocks :: "request \<Rightarrow> block list" where
  "cacheable_blocks r =
     take (min (case rq_cached r of None \<Rightarrow> length (rq_blocks r) | Some n \<Rightarrow> n) (length (rq_blocks r)))
       (rq_blocks r)"

section \<open>What a reply holds\<close>

datatype finish_reason =
  FinStop | FinLength | FinContentFilter | FinRefusal | FinToolCalls | FinPause | FinUnknown

fun finish_as_str :: "finish_reason \<Rightarrow> string" where
  "finish_as_str FinStop = ''stop''"
| "finish_as_str FinLength = ''length''"
| "finish_as_str FinContentFilter = ''content_filter''"
| "finish_as_str FinRefusal = ''refusal''"
| "finish_as_str FinToolCalls = ''tool_calls''"
| "finish_as_str FinPause = ''pause''"
| "finish_as_str FinUnknown = ''unknown''"

definition finish_from_name :: "string \<Rightarrow> finish_reason option" where
  "finish_from_name n =
     (if n = ''stop'' then Some FinStop
      else if n = ''length'' then Some FinLength
      else if n = ''content_filter'' then Some FinContentFilter
      else if n = ''refusal'' then Some FinRefusal
      else if n = ''tool_calls'' then Some FinToolCalls
      else if n = ''pause'' then Some FinPause
      else if n = ''unknown'' then Some FinUnknown
      else None)"

record usage =
  usage_input :: "u64 option"
  usage_output :: "u64 option"
  usage_reasoning :: "u64 option"
  usage_cache_read :: "u64 option"
  usage_cache_write :: "u64 option"

definition no_usage :: usage where
  "no_usage = \<lparr>usage_input = None, usage_output = None, usage_reasoning = None,
               usage_cache_read = None, usage_cache_write = None\<rparr>"

record response_limits =
  max_response_bytes :: nat
  max_event_bytes :: nat
  max_tool_arg_bytes :: nat
  max_blocks :: nat
  max_error_body_bytes :: nat

definition default_limits :: response_limits where
  "default_limits =
     \<lparr>max_response_bytes = push_bit 20 64, max_event_bytes = push_bit 20 4,
      max_tool_arg_bytes = push_bit 20 1, max_blocks = 1024, max_error_body_bytes = 4096\<rparr>"

record attempt_info =
  retry_after_ms :: "nat option"
  should_retry :: "bool option"
  info_status :: "nat option"
  request_id :: "string option"
  error_body :: "u8 list option"
  output_seen :: bool

definition no_info :: attempt_info where
  "no_info = \<lparr>retry_after_ms = None, should_retry = None, info_status = None, request_id = None,
              error_body = None, output_seen = False\<rparr>"

datatype block_kind = KText | KRefusal | KReasoning | KToolCall

type_synonym block_id = nat \<comment> \<open>a \<open>u32\<close>: the bound is checked where an id is made\<close>

datatype block_result =
    ResText
  | ResRefusal
  | ResReasoning "reasoning_replay option"
  | ResToolCall tool_call

record done_event =
  done_finish_reason :: finish_reason
  done_raw :: string
  done_usage :: usage

datatype event =
    BlockStarted block_id block_kind
  | TextDelta block_id string
  | RefusalDelta block_id string
  | ReasoningDelta block_id string
  | ReasoningSectionStarted block_id
  | ToolInputDelta block_id string
  | BlockStopped block_id block_result
  | EvDone done_event

datatype content =
    ContentText string
  | ContentRefusal string
  | ContentReasoning reasoning
  | ContentToolCall tool_call

fun block_of_content :: "content \<Rightarrow> block" where
  "block_of_content (ContentText t) = AssistantText t"
| "block_of_content (ContentRefusal t) = AssistantText t"
| "block_of_content (ContentReasoning r) = Reasoning r"
| "block_of_content (ContentToolCall c) = ToolCall c"

datatype partial =
    PartialText string
  | PartialRefusal string
  | PartialReasoning string
  | PartialToolCall tool_call

record partial_block =
  pb_block :: block_id
  pb_content :: partial

fun block_of_partial :: "partial \<Rightarrow> block" where
  "block_of_partial (PartialText t) = AssistantText t"
| "block_of_partial (PartialRefusal t) = AssistantText t"
| "block_of_partial (PartialReasoning t) = Reasoning \<lparr>reasoning_text = t, reasoning_state = None\<rparr>"
| "block_of_partial (PartialToolCall c) = ToolCall c"

record completion =
  comp_content :: "content list"
  comp_finish_reason :: finish_reason
  comp_raw :: string
  comp_usage :: usage

definition completion_text :: "completion \<Rightarrow> string" where
  "completion_text c =
     concat (filter_map (\<lambda>p. case p of ContentText t \<Rightarrow> Some t | _ \<Rightarrow> None) (comp_content c))"

definition tool_calls :: "completion \<Rightarrow> tool_call list" where
  "tool_calls c = filter_map (\<lambda>p. case p of ContentToolCall t \<Rightarrow> Some t | _ \<Rightarrow> None) (comp_content c)"

definition into_blocks :: "completion \<Rightarrow> block list" where
  "into_blocks c = map block_of_content (comp_content c)"

record response =
  resp_info :: attempt_info
  resp_completion :: completion

section \<open>Why an attempt failed\<close>

datatype provider_kind =
    AuthFailed | PermissionDenied | RateLimited | QuotaExhausted | RateLimitUnknown | ServerError
  | BadStatus | PkTimeout | Conflict | ContextOverflow | ProviderFailed

datatype fault =
    InvalidRequest | BadUrl | DnsFailed | ConnectFailed | ConnectTimeout | CertificateRejected
  | TlsSetupFailed | IdleTimeout | RequestTimeout | RedirectRefused | ConnectionLost
  | MalformedResponse | AnswerTooLarge

datatype failure =
    ProviderFailure provider_kind
  | TransportFailure fault
  | ProtocolFailure
  | ResponseTooLarge
  | IncompleteStream

record attempt_error =
  ae_cause :: failure
  ae_info :: attempt_info
  ae_partial :: "partial list"

section \<open>Facts on blocks\<close>

definition call_of :: "block \<Rightarrow> tool_call option" where
  "call_of b = (case b of ToolCall c \<Rightarrow> Some c | _ \<Rightarrow> None)"

definition calls_in :: "block list \<Rightarrow> tool_call list" where
  "calls_in bs = filter_map call_of bs"

lemma call_of_simps [simp]:
  "call_of (ToolCall c) = Some c" "call_of (UserText t) = None" "call_of (Media m) = None"
  "call_of (ToolResult r) = None" "call_of (AssistantText t) = None" "call_of (Reasoning g) = None"
  by (simp_all add: call_of_def)

lemma is_tool_result_simps [simp]:
  "is_tool_result (ToolResult r)" "\<not> is_tool_result (ToolCall c)" "\<not> is_tool_result (UserText t)"
  "\<not> is_tool_result (Media m)" "\<not> is_tool_result (AssistantText t)" "\<not> is_tool_result (Reasoning g)"
  by (simp_all add: is_tool_result_def)

lemma calls_in_simps [simp]:
  "calls_in [] = []" "calls_in (bs @ cs) = calls_in bs @ calls_in cs"
  "calls_in (b # bs) = (case call_of b of None \<Rightarrow> calls_in bs | Some c \<Rightarrow> c # calls_in bs)"
  by (simp_all add: calls_in_def split: option.split)

lemma calls_in_results [simp]: "calls_in (map (\<lambda>x. ToolResult (f x)) xs) = []"
  by (induction xs) (simp_all add: calls_in_def)

lemma call_of_content:
  "call_of (block_of_content p) = (case p of ContentToolCall t \<Rightarrow> Some t | _ \<Rightarrow> None)"
  by (cases p) simp_all

lemma calls_in_into_blocks [simp]: "calls_in (into_blocks c) = tool_calls c"
  by (simp add: calls_in_def into_blocks_def tool_calls_def filter_map_map comp_def call_of_content)

lemma content_role [simp]: "block_role (block_of_content p) = Assistant"
  by (cases p) simp_all

lemma partial_role [simp]: "block_role (block_of_partial p) = Assistant"
  by (cases p) simp_all

lemma into_blocks_role: "b \<in> set (into_blocks c) \<Longrightarrow> block_role b = Assistant"
  by (auto simp: into_blocks_def)

end
