(* ===== verification/Tool.thy ===== *)
theory Tool
  imports Ai_Types
begin

text \<open>
  The client tools of \<open>crates/engine/src/tool.rs\<close>: names, hints, the outcome of a call, and the
  toolset that keeps each definition beside its handler. A handler is what the toolset stores of a
  \<open>dyn Tool\<close>: its concurrency, its hints and its call. A call of a handler is an effect, so it takes
  the moment of the call (the clock of \<open>Drive\<close>) beside the arguments, and gives the live output, the
  time it took and what it returned.
\<close>

section \<open>Hints and outcomes\<close>

datatype concurrency = Serial | Parallel

datatype subject_kind = SubjText | SubjFile | SubjUri

record subject =
  subj_argument :: string
  subj_kind :: subject_kind

datatype preview = PreHead | PreTail | PreNone

record tool_hints =
  hint_title :: "string option"
  hint_subject :: "subject option"
  hint_preview :: preview

definition default_hints :: tool_hints where
  "default_hints = \<lparr>hint_title = None, hint_subject = None, hint_preview = PreHead\<rparr>"

datatype display_block = Markdown string | Diff string string

record tool_content =
  tc_text :: string
  tc_media :: "media list"
  tc_is_error :: bool
  tc_display :: "display_block list"

record tool_outcome =
  out_result :: tool_result
  out_display :: "display_block list"

definition outcome_of_result :: "tool_result \<Rightarrow> tool_outcome" where
  "outcome_of_result r = \<lparr>out_result = r, out_display = []\<rparr>"

type_synonym duration = nat \<comment> \<open>nanoseconds\<close>

record finished =
  fin_outcome :: tool_outcome
  fin_duration :: "duration option"

definition finished_of_result :: "tool_result \<Rightarrow> finished" where
  "finished_of_result r = \<lparr>fin_outcome = outcome_of_result r, fin_duration = None\<rparr>"

text \<open>The id of the call that a finished call answers.\<close>

definition fin_call_id :: "finished \<Rightarrow> string" where
  "fin_call_id f = result_call_id (out_result (fin_outcome f))"

lemma fin_call_id_result [simp]: "fin_call_id (finished_of_result r) = result_call_id r"
  by (simp add: fin_call_id_def finished_of_result_def outcome_of_result_def)

text \<open>Whole milliseconds as a \<open>u64\<close>, saturated: \<open>u64::try_from(d.as_millis()).unwrap_or(u64::MAX)\<close>.\<close>

definition duration_ms :: "duration \<Rightarrow> nat" where
  "duration_ms d = min (d div 1000000) (2 ^ 64 - 1)"

section \<open>Names\<close>

definition tool_name_max :: nat where
  "tool_name_max = 64"

definition is_ascii_alphanumeric :: "char \<Rightarrow> bool" where
  "is_ascii_alphanumeric c =
     (let n = (of_char c :: nat)
      in (48 \<le> n \<and> n \<le> 57) \<or> (65 \<le> n \<and> n \<le> 90) \<or> (97 \<le> n \<and> n \<le> 122))"

definition tool_name_character :: "char \<Rightarrow> bool" where
  "tool_name_character c = (is_ascii_alphanumeric c \<or> c = CHR ''_'' \<or> c = CHR ''-'')"

definition search_tool_name :: string where
  "search_tool_name = ''tool_search''"

definition tool_call_name :: string where
  "tool_call_name = ''tool_call''"

datatype tool_name_error = Duplicate string | Reserved string | Invalid string

definition check_tool_name :: "string \<Rightarrow> tool_name_error + unit" where
  "check_tool_name name =
     (let valid = 1 \<le> length name \<and> length name \<le> tool_name_max \<and> list_all tool_name_character name
      in if \<not> valid then Inl (Invalid name)
         else if name = search_tool_name \<or> name = tool_call_name then Inl (Reserved name)
         else Inr ())"

section \<open>The toolset\<close>

text \<open>
  What a call sees of the turn: its index in the answer commit, its id, and the moment of its start.
  The cancellation token is part of the moment: a handler is any function of it. A run shows its live
  output at moments counted from the start.
\<close>

record tool_context =
  tx_block_index :: nat
  tx_call_id :: string
  tx_now :: nat

record tool_run =
  run_output :: "(duration \<times> string) list"
  run_elapsed :: duration
  run_returned :: "dyn_error + tool_content"

record handler =
  h_concurrency :: concurrency
  h_hints :: tool_hints
  h_call :: "tool_context \<Rightarrow> string \<Rightarrow> tool_run"

record toolset =
  definitions :: "tool_definition list"
  handlers :: "handler list"
  set_hints :: "tool_hints list"
  set_folder :: "string option"

definition new_toolset :: toolset where
  "new_toolset = \<lparr>definitions = [], handlers = [], set_hints = [], set_folder = None\<rparr>"

definition with_folder :: "string \<Rightarrow> toolset \<Rightarrow> toolset" where
  "with_folder f ts = ts\<lparr>set_folder := Some f\<rparr>"

definition tool_index :: "toolset \<Rightarrow> string \<Rightarrow> nat option" where
  "tool_index ts name = position (\<lambda>d. def_name d = name) (definitions ts)"

definition hints_of :: "toolset \<Rightarrow> string \<Rightarrow> tool_hints" where
  "hints_of ts name = (case tool_index ts name of Some i \<Rightarrow> set_hints ts ! i | None \<Rightarrow> default_hints)"

definition add_tool :: "tool_definition \<Rightarrow> handler \<Rightarrow> toolset \<Rightarrow> tool_name_error + toolset" where
  "add_tool d h ts =
     (case check_tool_name (def_name d) of
        Inl e \<Rightarrow> Inl e
      | Inr _ \<Rightarrow>
          if list_ex (\<lambda>held. def_name held = def_name d) (definitions ts)
          then Inl (Duplicate (def_name d))
          else Inr (ts\<lparr>definitions := definitions ts @ [d], set_hints := set_hints ts @ [h_hints h],
                       handlers := handlers ts @ [h]\<rparr>))"

definition deferred :: "toolset \<Rightarrow> tool_definition list" where
  "deferred ts = filter def_defer_loading (definitions ts)"

definition has_deferred :: "toolset \<Rightarrow> bool" where
  "has_deferred ts = (deferred ts \<noteq> [])"

definition toolset_concurrency :: "toolset \<Rightarrow> string \<Rightarrow> concurrency" where
  "toolset_concurrency ts name =
     (case tool_index ts name of Some i \<Rightarrow> h_concurrency (handlers ts ! i) | None \<Rightarrow> Parallel)"

text \<open>The result of the handler as an outcome (the end of \<open>Toolset::call\<close>).\<close>

definition outcome_of_return :: "tool_call \<Rightarrow> dyn_error + tool_content \<Rightarrow> tool_outcome" where
  "outcome_of_return c ret =
     (case ret of
        Inr content \<Rightarrow>
          \<lparr>out_result = with_media (tc_media content)
             ((result_success (call_id c) (tc_text content))\<lparr>result_is_error := tc_is_error content\<rparr>),
           out_display = tc_display content\<rparr>
      | Inl e \<Rightarrow> outcome_of_result (result_error (call_id c) (chain_text e)))"

definition toolset_call :: "toolset \<Rightarrow> tool_call \<Rightarrow> tool_context \<Rightarrow> finished \<times> (duration \<times> string) list" where
  "toolset_call ts c tx =
     (case tool_index ts (call_name c) of
        None \<Rightarrow> (finished_of_result (result_error (call_id c) (''Unknown tool: '' @ call_name c)), [])
      | Some i \<Rightarrow>
          let r = h_call (handlers ts ! i) tx (call_arguments c)
          in (\<lparr>fin_outcome = outcome_of_return c (run_returned r), fin_duration = Some (run_elapsed r)\<rparr>,
              run_output r))"

section \<open>The toolset stays well formed\<close>

text \<open>
  One handler and one entry of hints for each definition, no two definitions of one name, and only
  names that every provider accepts and the engine does not own.
\<close>

definition toolset_ok :: "toolset \<Rightarrow> bool" where
  "toolset_ok ts \<longleftrightarrow>
     length (handlers ts) = length (definitions ts) \<and>
     length (set_hints ts) = length (definitions ts) \<and>
     (\<forall>i < length (handlers ts). set_hints ts ! i = h_hints (handlers ts ! i)) \<and>
     distinct (map def_name (definitions ts)) \<and>
     (\<forall>d \<in> set (definitions ts). check_tool_name (def_name d) = Inr ())"

lemma toolset_ok_new: "toolset_ok new_toolset"
  by (simp add: toolset_ok_def new_toolset_def)

lemma add_tool_cases:
  "add_tool d h ts = Inr ts' \<longleftrightarrow>
     check_tool_name (def_name d) = Inr () \<and> def_name d \<notin> def_name ` set (definitions ts) \<and>
     ts' = ts\<lparr>definitions := definitions ts @ [d], set_hints := set_hints ts @ [h_hints h],
              handlers := handlers ts @ [h]\<rparr>"
proof -
  have "list_ex (\<lambda>held. def_name held = def_name d) (definitions ts) \<longleftrightarrow>
      def_name d \<in> def_name ` set (definitions ts)"
    by (auto simp: list_ex_iff intro: rev_image_eqI)
  then show ?thesis
    unfolding add_tool_def by (auto split: sum.splits if_splits)
qed

lemma add_tool_ok: "add_tool d h ts = Inr ts' \<Longrightarrow> toolset_ok ts \<Longrightarrow> toolset_ok ts'"
  by (auto simp: add_tool_cases toolset_ok_def nth_append less_Suc_eq)

lemma tool_index_bound:
  "tool_index ts n = Some i \<Longrightarrow> i < length (definitions ts) \<and> def_name (definitions ts ! i) = n"
  unfolding tool_index_def by (drule position_Some) simp

lemma tool_index_nth:
  assumes "toolset_ok ts" "i < length (definitions ts)"
  shows "tool_index ts (def_name (definitions ts ! i)) = Some i"
proof -
  have d: "distinct (map def_name (definitions ts))" using assms(1) by (simp add: toolset_ok_def)
  obtain j where j: "tool_index ts (def_name (definitions ts ! i)) = Some j"
    using assms(2) by (cases "tool_index ts (def_name (definitions ts ! i))")
      (auto simp: tool_index_def position_None)
  from tool_index_bound [OF j] assms(2) d have "j = i"
    by (auto simp: distinct_conv_nth)
  with j show ?thesis by simp
qed

lemma tool_index_append:
  "tool_index ts n = Some i \<Longrightarrow> tool_index (ts\<lparr>definitions := definitions ts @ ds, set_hints := hs, handlers := ks\<rparr>) n = Some i"
  unfolding tool_index_def
proof (simp, induction "definitions ts" arbitrary: i ts)
  case (Cons d rest)
  show ?case
  proof (cases "def_name d = n")
    case True
    with Cons.prems Cons.hyps(2) [symmetric] show ?thesis by simp
  next
    case False
    with Cons.prems Cons.hyps(2) [symmetric] obtain k
      where k: "position (\<lambda>d. def_name d = n) rest = Some k" "i = Suc k" by auto
    from Cons.hyps(1) [of "ts\<lparr>definitions := rest\<rparr>" k] k(1) Cons.hyps(2) [symmetric] k(2) False
    show ?thesis by simp
  qed
qed simp

text \<open>A finished call answers its call, whatever the handler returned.\<close>

lemma outcome_of_return_id [simp]:
  "result_call_id (out_result (outcome_of_return c r)) = call_id c"
  by (cases r) (simp_all add: outcome_of_return_def outcome_of_result_def)

lemma toolset_call_id: "fin_call_id (fst (toolset_call ts c tx)) = call_id c"
  by (auto simp: toolset_call_def fin_call_id_def finished_of_result_def outcome_of_result_def Let_def
      split: option.split)

end
