(* ===== verification/Commit.thy ===== *)
theory Commit
  imports Tool
begin

text \<open>
  What a turn saves: the commits of \<open>crates/engine/src/turn_state.rs\<close> with their replay on a copy of
  the context, the end of a turn, and the errors of a round (\<open>crates/engine/src/model.rs\<close>).

  The locale \<open>ledger\<close> is the contract between a producer of commits and everything that keeps a copy
  of the context by replaying them: the driver and its journal, a store that opens a session again.
\<close>

section \<open>Commits\<close>

record call_display =
  cd_block_index :: nat
  cd_hints :: tool_hints
  cd_folder :: "string option"

record result_display =
  rd_block_index :: nat
  rd_blocks :: "display_block list"
  rd_duration_ms :: "nat option"

record commit_display =
  disp_calls :: "call_display list"
  disp_results :: "result_display list"

definition no_display :: commit_display where
  "no_display = \<lparr>disp_calls = [], disp_results = []\<rparr>"

definition display_is_empty :: "commit_display \<Rightarrow> bool" where
  "display_is_empty d = (disp_calls d = [] \<and> disp_results d = [])"

datatype outcome = Completed finish_reason | Stopped | Cancelled

datatype turn_end = EndOutcome outcome | EndFailed string

record replaced =
  rep_head :: "block list"
  rep_keep :: nat

record answer =
  ans_origin :: origin
  ans_usage :: usage
  ans_finish_reason :: finish_reason

record commit =
  commit_replaced :: "replaced option"
  commit_blocks :: "block list"
  commit_answer :: "answer option"
  commit_end :: "turn_end option"
  commit_display :: commit_display

definition blocks_commit :: "block list \<Rightarrow> commit" where
  "blocks_commit bs =
     \<lparr>commit_replaced = None, commit_blocks = bs, commit_answer = None, commit_end = None,
      commit_display = no_display\<rparr>"

text \<open>\<open>Commit::apply\<close>: apply the replacement, then append the blocks.\<close>

definition replace_blocks :: "replaced \<Rightarrow> block list \<Rightarrow> block list" where
  "replace_blocks r context = rep_head r @ drop (length context - rep_keep r) context"

definition apply_commit :: "commit \<Rightarrow> block list \<Rightarrow> block list" where
  "apply_commit c context =
     (case commit_replaced c of None \<Rightarrow> context | Some r \<Rightarrow> replace_blocks r context) @ commit_blocks c"

definition replay :: "commit list \<Rightarrow> block list \<Rightarrow> block list" where
  "replay cs context = fold apply_commit cs context"

lemma blocks_commit_fields [simp]:
  "commit_replaced (blocks_commit bs) = None" "commit_blocks (blocks_commit bs) = bs"
  "commit_answer (blocks_commit bs) = None" "commit_end (blocks_commit bs) = None"
  "commit_display (blocks_commit bs) = no_display"
  by (simp_all add: blocks_commit_def)

lemma apply_appends [replay_simps]:
  "commit_replaced c = None \<Longrightarrow> apply_commit c context = context @ commit_blocks c"
  by (simp add: apply_commit_def)

lemma replay_simps' [replay_simps, simp]:
  "replay [] context = context"
  "replay (c # cs) context = replay cs (apply_commit c context)"
  "replay (cs @ ds) context = replay ds (replay cs context)"
  by (simp_all add: replay_def)

section \<open>Errors of a round\<close>

text \<open>
  A model error beside the text and the causes that it prints: an \<open>EncodeError\<close>, or the error of an
  attempt.
\<close>

datatype ai_error = AiEncode dyn_error | AiAttempt attempt_error dyn_error

datatype round_error =
    RoundCredential dyn_error
  | RoundModel ai_error
  | RoundHook dyn_error "round_error option"
  | RoundInbox dyn_error

fun ai_dyn :: "ai_error \<Rightarrow> dyn_error" where
  "ai_dyn (AiEncode e) = e"
| "ai_dyn (AiAttempt _ e) = e"

fun round_dyn :: "round_error \<Rightarrow> dyn_error" where
  "round_dyn (RoundCredential e) = e"
| "round_dyn (RoundInbox e) = e"
| "round_dyn (RoundModel e) = ai_dyn e"
| "round_dyn (RoundHook e None) = e"
| "round_dyn (RoundHook e (Some after)) =
     DynError (error_text e @ '' (after: '' @ chain_text (round_dyn after) @ '')'') (error_source e)"

definition end_from_result :: "round_error + outcome \<Rightarrow> turn_end" where
  "end_from_result r =
     (case r of Inr o' \<Rightarrow> EndOutcome o' | Inl e \<Rightarrow> EndFailed (chain_text (round_dyn e)))"

section \<open>The contract of a producer of commits\<close>

definition commit_list :: "commit option \<Rightarrow> commit list" where
  "commit_list c = (case c of None \<Rightarrow> [] | Some c' \<Rightarrow> [c'])"

lemma commit_list_simps [simp]: "commit_list None = []" "commit_list (Some c) = [c]"
  by (simp_all add: commit_list_def)

text \<open>The commits of a sequence of calls, in order, and the state after them.\<close>

fun run_ops :: "('op \<Rightarrow> 's \<Rightarrow> commit option \<times> 's) \<Rightarrow> 'op list \<Rightarrow> 's \<Rightarrow> commit list \<times> 's" where
  "run_ops step [] s = ([], s)"
| "run_ops step (op # ops) s =
     (let (c, s') = step op s; (cs, s'') = run_ops step ops s' in (commit_list c @ cs, s''))"

fun run_pre :: "('op \<Rightarrow> 's \<Rightarrow> bool) \<Rightarrow> ('op \<Rightarrow> 's \<Rightarrow> commit option \<times> 's) \<Rightarrow> 'op list \<Rightarrow> 's \<Rightarrow> bool" where
  "run_pre pre step [] s = True"
| "run_pre pre step (op # ops) s = (pre op s \<and> run_pre pre step ops (snd (step op s)))"

text \<open>
  \<open>view\<close> is the part of the context that the commits so far hold, \<open>ok\<close> the invariant of the producer,
  and \<open>pre\<close> what the caller of a step owes. Whoever replays the commits in order has the view.
\<close>

locale ledger =
  fixes view :: "'s \<Rightarrow> block list"
    and step :: "'op \<Rightarrow> 's \<Rightarrow> commit option \<times> 's"
    and ok :: "'s \<Rightarrow> bool"
    and pre :: "'op \<Rightarrow> 's \<Rightarrow> bool"
  assumes step_ok: "ok s \<Longrightarrow> pre op s \<Longrightarrow> ok (snd (step op s))"
    and step_replay: "ok s \<Longrightarrow> pre op s \<Longrightarrow>
      replay (commit_list (fst (step op s))) (view s) = view (snd (step op s))"
begin

lemma run_ok: "ok s \<Longrightarrow> run_pre pre step ops s \<Longrightarrow> ok (snd (run_ops step ops s))"
  by (induction ops arbitrary: s) (auto simp: case_prod_beta Let_def step_ok)

lemma run_replay:
  "ok s \<Longrightarrow> run_pre pre step ops s \<Longrightarrow>
     replay (fst (run_ops step ops s)) (view s) = view (snd (run_ops step ops s))"
  by (induction ops arbitrary: s) (simp_all add: case_prod_beta Let_def step_ok step_replay)

lemma extend_copy:
  assumes "ok s" "pre op s" "replay log start = view s"
  shows "replay (log @ commit_list (fst (step op s))) start = view (snd (step op s))"
  using assms step_replay by simp

end

end
