(* ===== verification/Pairing.thy ===== *)
theory Pairing
  imports Tool
begin

text \<open>
  Which contexts a provider accepts: every tool call of an answer gets its result, in call order,
  right after the answer, before the user or the model says anything else. The code never checks this
  in one place; the turn, its cancel paths and the repair of an open turn each do their part, so the
  predicate is the specification that their proofs share.

  \<open>scan\<close> reads a context from left to right. Its state is the list of the call ids that wait for a
  result, and whether the results of the answer have begun.
\<close>

fun scan_block :: "bool \<times> string list \<Rightarrow> block \<Rightarrow> (bool \<times> string list) option" where
  "scan_block (answering, q) (ToolResult r) =
     (case q of
        [] \<Rightarrow> None
      | i # is \<Rightarrow> if i = result_call_id r then Some (is \<noteq> [], is) else None)"
| "scan_block (answering, q) (ToolCall c) =
     (if answering then None else Some (False, q @ [call_id c]))"
| "scan_block (answering, q) b =
     (if q \<noteq> [] \<and> (answering \<or> block_role b = User) then None else Some (answering, q))"

fun scan :: "bool \<times> string list \<Rightarrow> block list \<Rightarrow> (bool \<times> string list) option" where
  "scan st [] = Some st"
| "scan st (b # bs) = (case scan_block st b of None \<Rightarrow> None | Some st' \<Rightarrow> scan st' bs)"

text \<open>The calls of the context that wait for their results, and a context where none waits.\<close>

definition waiting :: "block list \<Rightarrow> string list \<Rightarrow> bool" where
  "waiting context ids \<longleftrightarrow> scan (False, []) context = Some (False, ids)"

definition paired :: "block list \<Rightarrow> bool" where
  "paired context \<longleftrightarrow> waiting context []"

lemma scan_append: "scan st (xs @ ys) = (case scan st xs of None \<Rightarrow> None | Some st' \<Rightarrow> scan st' ys)"
  by (induction xs arbitrary: st) (auto split: option.split)

lemma scan_assistant:
  "\<forall>b\<in>set bs. block_role b = Assistant \<Longrightarrow>
     scan (False, q) bs = Some (False, q @ map call_id (calls_in bs))"
proof (induction bs arbitrary: q)
  case (Cons b bs)
  then show ?case by (cases b) (auto simp: calls_in_def)
qed simp

lemma scan_results:
  "scan (a, map result_call_id rs) (map ToolResult rs) = Some (if rs = [] then a else False, [])"
  by (induction rs arbitrary: a) auto

lemma waiting_append:
  "waiting xs ids \<Longrightarrow> waiting (xs @ ys) ids' \<longleftrightarrow> scan (False, ids) ys = Some (False, ids')"
  by (simp add: waiting_def scan_append)

lemma paired_Nil [simp]: "paired []"
  by (simp add: paired_def waiting_def)

lemma paired_append: "paired xs \<Longrightarrow> paired ys \<Longrightarrow> paired (xs @ ys)"
  by (simp add: paired_def waiting_def scan_append)

lemma waiting_assistant:
  assumes "paired xs" "\<forall>b\<in>set bs. block_role b = Assistant"
  shows "waiting (xs @ bs) (map call_id (calls_in bs))"
  using assms scan_assistant [of bs "[]"] by (simp add: paired_def waiting_append)

lemma paired_results:
  assumes "waiting xs (map result_call_id rs)"
  shows "paired (xs @ map ToolResult rs)"
  using assms scan_results [of False rs] by (simp add: paired_def waiting_append)

lemma paired_answer:
  assumes "paired xs" "\<forall>b\<in>set bs. block_role b = Assistant"
    and "map result_call_id rs = map call_id (calls_in bs)"
  shows "paired (xs @ bs @ map ToolResult rs)"
  using paired_results [of "xs @ bs" rs] waiting_assistant [OF assms(1,2)] assms(3) by simp

lemma paired_user:
  assumes "\<forall>b\<in>set bs. block_role b = User \<and> \<not> is_tool_result b"
  shows "paired bs"
proof -
  have "scan (False, []) bs = Some (False, [])"
    using assms
  proof (induction bs)
    case (Cons b bs)
    then show ?case by (cases b) auto
  qed simp
  then show ?thesis by (simp add: paired_def waiting_def)
qed

text \<open>The results of a scanned context answer its calls one for one, in order.\<close>

definition answered_id :: "block \<Rightarrow> string option" where
  "answered_id b = (case b of ToolResult r \<Rightarrow> Some (result_call_id r) | _ \<Rightarrow> None)"

lemma answered_id_simps [simp]:
  "answered_id (ToolResult r) = Some (result_call_id r)" "answered_id (ToolCall c) = None"
  "answered_id (UserText t) = None" "answered_id (Media m) = None"
  "answered_id (AssistantText t) = None" "answered_id (Reasoning g) = None"
  by (simp_all add: answered_id_def)

lemma scan_balance:
  "scan (a, q) bs = Some (a', q') \<Longrightarrow>
     q @ map call_id (calls_in bs) = filter_map answered_id bs @ q'"
proof (induction bs arbitrary: a q)
  case (Cons b bs)
  then show ?case
    by (cases b) (fastforce simp: calls_in_def split: if_splits list.splits)+
qed simp

lemma paired_balance: "paired bs \<Longrightarrow> filter_map answered_id bs = map call_id (calls_in bs)"
  using scan_balance [of False "[]" bs False "[]"] by (simp add: paired_def waiting_def)

end
