(* ===== verification/Turn_State.thy ===== *)
theory Turn_State
  imports Commit Pairing
begin

text \<open>
  The decisions of one turn, \<open>crates/engine/src/turn_state.rs\<close>. The state is the context, how much of
  it a commit holds already, the finish reason of an answer that needs no other request, the input
  tokens of the newest answer and the displays that wait for the next commit. Each call of the source
  is a function that returns the next action beside the new state.

  Proved here: the commits of any sequence of calls replay to the context (an interpretation of
  \<open>ledger\<close>), every tool call gets its result in call order before the next request and before the end
  of the turn, and every display of a commit points at a tool result of that commit.
\<close>

section \<open>The state and its calls\<close>

record turn_state =
  ts_context :: "block list"
  ts_saved :: nat
  ts_turn_end :: "finish_reason option"
  ts_input_tokens :: "u64 option"
  ts_results :: "result_display list"

datatype action =
    ActSend "commit option"
  | ActCallTools commit
  | ActAfterRound "block list" "finish_reason option" commit
  | ActDone commit "round_error + outcome"

definition new_turn :: "block list \<Rightarrow> u64 option \<Rightarrow> turn_state" where
  "new_turn context tokens =
     \<lparr>ts_context = context, ts_saved = length context, ts_turn_end = None,
      ts_input_tokens = tokens, ts_results = []\<rparr>"

definition cancelled_reason :: string where
  "cancelled_reason = ''the user cancelled the turn.''"

definition output_limit_reason :: string where
  "output_limit_reason =
     ''the response hit the output token limit, so its arguments may be truncated.''"

definition not_executed :: "tool_call \<Rightarrow> string \<Rightarrow> tool_result" where
  "not_executed c reason =
     result_error (call_id c)
       (''Tool call '' @ [CHR 0x22] @ call_name c @ [CHR 0x22] @ '' was not executed: '' @ reason)"

text \<open>\<open>take_unsaved\<close> marks the whole context saved and gives the index of the first unsaved block.\<close>

definition take_unsaved :: "turn_state \<Rightarrow> nat \<times> turn_state" where
  "take_unsaved s = (ts_saved s, s\<lparr>ts_saved := length (ts_context s)\<rparr>)"

definition extend_context :: "block list \<Rightarrow> turn_state \<Rightarrow> turn_state" where
  "extend_context bs s = s\<lparr>ts_context := ts_context s @ bs\<rparr>"

definition after_round :: "answer option \<Rightarrow> turn_state \<Rightarrow> action \<times> turn_state" where
  "after_round ans s =
     (let (start, s1) = take_unsaved s;
          s2 = s1\<lparr>ts_results := []\<rparr>
      in (ActAfterRound (ts_context s2) (ts_turn_end s2)
            ((blocks_commit (drop start (ts_context s2)))
               \<lparr>commit_answer := ans,
                commit_display := \<lparr>disp_calls = [], disp_results = ts_results s\<rparr>\<rparr>),
          s2))"

definition done_turn :: "round_error + outcome \<Rightarrow> turn_state \<Rightarrow> action \<times> turn_state" where
  "done_turn result s =
     (let (start, s1) = take_unsaved s;
          s2 = s1\<lparr>ts_results := []\<rparr>
      in (ActDone
            ((blocks_commit (drop start (ts_context s2)))
               \<lparr>commit_end := Some (end_from_result result),
                commit_display := \<lparr>disp_calls = [], disp_results = ts_results s\<rparr>\<rparr>)
            result,
          s2))"

definition unsaved_commit :: "turn_state \<Rightarrow> commit option \<times> turn_state" where
  "unsaved_commit s =
     (let (start, s1) = take_unsaved s
      in (if start < length (ts_context s1) then Some (blocks_commit (drop start (ts_context s1))) else None,
          s1))"

definition replace_turn :: "replaced \<Rightarrow> turn_state \<Rightarrow> commit \<times> turn_state" where
  "replace_turn r s =
     (let context = rep_head r @ drop (length (ts_context s) - rep_keep r) (ts_context s);
          s1 = s\<lparr>ts_context := context, ts_saved := length context, ts_input_tokens := None\<rparr>
      in ((blocks_commit [])
            \<lparr>commit_replaced := Some \<lparr>rep_head = take (length (rep_head r)) context,
                                      rep_keep = length context - length (rep_head r)\<rparr>\<rparr>,
          s1))"

definition model_finished :: "completion \<Rightarrow> origin \<Rightarrow> turn_state \<Rightarrow> action \<times> turn_state" where
  "model_finished cpl og s =
     (let reason = comp_finish_reason cpl;
          s1 = s\<lparr>ts_input_tokens := usage_input (comp_usage cpl)\<rparr>;
          ans = \<lparr>ans_origin = og, ans_usage = comp_usage cpl, ans_finish_reason = reason\<rparr>
      in if tool_calls cpl = [] then
           after_round (Some ans) ((extend_context (into_blocks cpl) s1)\<lparr>ts_turn_end := Some reason\<rparr>)
         else if reason = FinToolCalls \<or> reason = FinStop then
           (let (start, s2) = take_unsaved (extend_context (into_blocks cpl) s1)
            in (ActCallTools ((blocks_commit (drop start (ts_context s2)))\<lparr>commit_answer := Some ans\<rparr>), s2))
         else
           (let text = (if reason = FinLength then output_limit_reason
                        else ''the response ended with finish reason '' @ finish_as_str reason @ ''.'');
                results = map (\<lambda>c. ToolResult (not_executed c text)) (tool_calls cpl);
                s2 = extend_context results (extend_context (into_blocks cpl) s1);
                s3 = (if reason \<noteq> FinLength then s2\<lparr>ts_turn_end := Some reason\<rparr> else s2)
            in after_round (Some ans) s3))"

text \<open>Keep the display of an outcome for the next commit, and its result in the context.\<close>

definition add_outcome :: "finished \<Rightarrow> turn_state \<Rightarrow> turn_state" where
  "add_outcome f s =
     (let o' = fin_outcome f;
          s1 = (if out_display o' \<noteq> [] \<or> fin_duration f \<noteq> None
                then s\<lparr>ts_results := ts_results s @
                        [\<lparr>rd_block_index = length (ts_context s) - ts_saved s, rd_blocks = out_display o',
                          rd_duration_ms = map_option duration_ms (fin_duration f)\<rparr>]\<rparr>
                else s)
      in extend_context [ToolResult (out_result o')] s1)"

definition add_outcomes :: "finished list \<Rightarrow> turn_state \<Rightarrow> turn_state" where
  "add_outcomes fs s = fold add_outcome fs s"

definition tools_finished :: "finished list \<Rightarrow> turn_state \<Rightarrow> action \<times> turn_state" where
  "tools_finished fs s = after_round None (add_outcomes fs s)"

definition send_turn :: "block list \<Rightarrow> turn_state \<Rightarrow> action \<times> turn_state" where
  "send_turn input s =
     (let (c, s1) = unsaved_commit (extend_context input (s\<lparr>ts_turn_end := None\<rparr>)) in (ActSend c, s1))"

definition stop_turn :: "turn_state \<Rightarrow> action \<times> turn_state" where
  "stop_turn s =
     done_turn (Inr (case ts_turn_end s of Some r \<Rightarrow> Completed r | None \<Rightarrow> Stopped)) s"

definition proceed_turn :: "block list \<Rightarrow> turn_state \<Rightarrow> action \<times> turn_state" where
  "proceed_turn input s =
     (if ts_turn_end s \<noteq> None \<and> input = [] then stop_turn s else send_turn input s)"

definition cancel_turn :: "turn_state \<Rightarrow> action \<times> turn_state" where
  "cancel_turn s = done_turn (Inr Cancelled) s"

definition model_cancelled :: "partial list \<Rightarrow> turn_state \<Rightarrow> action \<times> turn_state" where
  "model_cancelled ps s =
     (let bs = map block_of_partial ps;
          not_run = filter_map
            (\<lambda>b. case b of ToolCall c \<Rightarrow> Some (ToolResult (not_executed c cancelled_reason)) | _ \<Rightarrow> None) bs
      in cancel_turn (extend_context not_run (extend_context bs s)))"

definition tools_cancelled :: "finished list \<Rightarrow> turn_state \<Rightarrow> action \<times> turn_state" where
  "tools_cancelled fs s = cancel_turn (add_outcomes fs s)"

definition fail_turn :: "round_error \<Rightarrow> turn_state \<Rightarrow> action \<times> turn_state" where
  "fail_turn e s = done_turn (Inl e) s"

section \<open>Every commit replays\<close>

text \<open>The calls of the driver as data, and the commit that the action of each call carries.\<close>

datatype turn_op =
    OpSend "block list"
  | OpReplace replaced
  | OpModelFinished completion origin
  | OpModelCancelled "partial list"
  | OpToolsFinished "finished list"
  | OpToolsCancelled "finished list"
  | OpProceed "block list"
  | OpStop
  | OpCancel
  | OpFail round_error

fun action_commit :: "action \<Rightarrow> commit option" where
  "action_commit (ActSend c) = c"
| "action_commit (ActCallTools c) = Some c"
| "action_commit (ActAfterRound _ _ c) = Some c"
| "action_commit (ActDone c _) = Some c"

definition with_commit :: "action \<times> turn_state \<Rightarrow> commit option \<times> turn_state" where
  "with_commit r = (action_commit (fst r), snd r)"

fun turn_step :: "turn_op \<Rightarrow> turn_state \<Rightarrow> commit option \<times> turn_state" where
  "turn_step (OpSend input) s = with_commit (send_turn input s)"
| "turn_step (OpReplace r) s = (let (c, s') = replace_turn r s in (Some c, s'))"
| "turn_step (OpModelFinished cpl og) s = with_commit (model_finished cpl og s)"
| "turn_step (OpModelCancelled ps) s = with_commit (model_cancelled ps s)"
| "turn_step (OpToolsFinished fs) s = with_commit (tools_finished fs s)"
| "turn_step (OpToolsCancelled fs) s = with_commit (tools_cancelled fs s)"
| "turn_step (OpProceed input) s = with_commit (proceed_turn input s)"
| "turn_step OpStop s = with_commit (stop_turn s)"
| "turn_step OpCancel s = with_commit (cancel_turn s)"
| "turn_step (OpFail e) s = with_commit (fail_turn e s)"

definition saved_view :: "turn_state \<Rightarrow> block list" where
  "saved_view s = take (ts_saved s) (ts_context s)"

definition turn_ok :: "turn_state \<Rightarrow> bool" where
  "turn_ok s \<longleftrightarrow> ts_saved s \<le> length (ts_context s)"

text \<open>A replacement comes after the input commit, so every block is saved by then.\<close>

fun turn_pre :: "turn_op \<Rightarrow> turn_state \<Rightarrow> bool" where
  "turn_pre (OpReplace r) s = (ts_saved s = length (ts_context s))"
| "turn_pre _ s = True"

text \<open>
  What every call but a replacement does: it extends the context and commits all that was unsaved.
\<close>

definition commits_extension :: "turn_state \<Rightarrow> commit option \<times> turn_state \<Rightarrow> bool" where
  "commits_extension s r \<longleftrightarrow>
     (\<exists>ext. ts_context (snd r) = ts_context s @ ext) \<and>
     ts_saved (snd r) = length (ts_context (snd r)) \<and>
     (case fst r of
        None \<Rightarrow> ts_saved s \<ge> length (ts_context (snd r))
      | Some c \<Rightarrow> commit_replaced c = None \<and> commit_blocks c = drop (ts_saved s) (ts_context (snd r)))"

lemma extend_context_fields [simp]:
  "ts_context (extend_context bs s) = ts_context s @ bs"
  "ts_saved (extend_context bs s) = ts_saved s"
  "ts_turn_end (extend_context bs s) = ts_turn_end s"
  "ts_input_tokens (extend_context bs s) = ts_input_tokens s"
  "ts_results (extend_context bs s) = ts_results s"
  by (simp_all add: extend_context_def)

lemma add_outcome_fields [simp]:
  "ts_context (add_outcome f s) = ts_context s @ [ToolResult (out_result (fin_outcome f))]"
  "ts_saved (add_outcome f s) = ts_saved s"
  "ts_turn_end (add_outcome f s) = ts_turn_end s"
  "ts_input_tokens (add_outcome f s) = ts_input_tokens s"
  by (simp_all add: add_outcome_def Let_def)

lemma add_outcomes_fields [simp]:
  "ts_context (add_outcomes fs s) = ts_context s @ map (\<lambda>f. ToolResult (out_result (fin_outcome f))) fs"
  "ts_saved (add_outcomes fs s) = ts_saved s"
  "ts_turn_end (add_outcomes fs s) = ts_turn_end s"
  "ts_input_tokens (add_outcomes fs s) = ts_input_tokens s"
  by (induction fs arbitrary: s) (simp_all add: add_outcomes_def)

lemma after_round_ext:
  "ts_context s = ts_context s0 @ ext \<Longrightarrow> ts_saved s = ts_saved s0 \<Longrightarrow>
     commits_extension s0 (with_commit (after_round a s))"
  by (simp add: commits_extension_def with_commit_def after_round_def take_unsaved_def)

lemma done_turn_ext:
  "ts_context s = ts_context s0 @ ext \<Longrightarrow> ts_saved s = ts_saved s0 \<Longrightarrow>
     commits_extension s0 (with_commit (done_turn r s))"
  by (simp add: commits_extension_def with_commit_def done_turn_def take_unsaved_def)

lemma send_turn_ext: "commits_extension s (with_commit (send_turn input s))"
  by (simp add: commits_extension_def with_commit_def send_turn_def unsaved_commit_def take_unsaved_def)

lemma model_finished_ext: "commits_extension s (with_commit (model_finished cpl og s))"
proof (cases "tool_calls cpl = [] \<or>
    comp_finish_reason cpl \<noteq> FinToolCalls \<and> comp_finish_reason cpl \<noteq> FinStop")
  case True
  then show ?thesis
    unfolding model_finished_def Let_def by (auto intro!: after_round_ext)
next
  case False
  then show ?thesis
    by (auto simp: model_finished_def Let_def commits_extension_def with_commit_def take_unsaved_def)
qed

lemma turn_step_ext:
  assumes "\<And>r. op \<noteq> OpReplace r"
  shows "commits_extension s (turn_step op s)"
  using assms
  by (cases op)
    (auto simp: send_turn_ext model_finished_ext model_cancelled_def cancel_turn_def Let_def
       tools_finished_def tools_cancelled_def proceed_turn_def stop_turn_def fail_turn_def
       intro!: after_round_ext done_turn_ext)

lemma commits_extension_replay:
  assumes "commits_extension s r" "turn_ok s"
  shows "turn_ok (snd r)" "replay (commit_list (fst r)) (saved_view s) = saved_view (snd r)"
proof -
  show "turn_ok (snd r)" using assms(1) by (simp add: commits_extension_def turn_ok_def)
  from assms(1) obtain ext where ext: "ts_context (snd r) = ts_context s @ ext"
    "ts_saved (snd r) = length (ts_context (snd r))"
    and c: "case fst r of None \<Rightarrow> ts_saved s \<ge> length (ts_context (snd r))
      | Some c \<Rightarrow> commit_replaced c = None \<and> commit_blocks c = drop (ts_saved s) (ts_context (snd r))"
    by (auto simp: commits_extension_def)
  have "take (ts_saved s) (ts_context s) = take (ts_saved s) (ts_context (snd r))"
    using ext(1) assms(2) by (simp add: turn_ok_def)
  moreover have "ext = []" if "ts_saved s \<ge> length (ts_context (snd r))"
    using that ext(1) assms(2) by (simp add: turn_ok_def flip: length_0_conv)
  ultimately show "replay (commit_list (fst r)) (saved_view s) = saved_view (snd r)"
    using ext c by (auto simp: saved_view_def replay_simps split: option.splits)
qed

lemma replace_turn_replay:
  "apply_commit (fst (replace_turn r s)) (ts_context s) = ts_context (snd (replace_turn r s))"
  "ts_saved (snd (replace_turn r s)) = length (ts_context (snd (replace_turn r s)))"
  by (simp_all add: replace_turn_def Let_def apply_commit_def replace_blocks_def)

interpretation turn_ledger: ledger saved_view turn_step turn_ok turn_pre
proof (unfold_locales, goal_cases)
  case (1 s op)
  show ?case
  proof (cases "\<exists>r. op = OpReplace r")
    case True
    then show ?thesis by (auto simp: turn_ok_def replace_turn_def Let_def)
  next
    case False
    then show ?thesis using 1 turn_step_ext commits_extension_replay(1) by blast
  qed
next
  case (2 s op)
  show ?case
  proof (cases "\<exists>r. op = OpReplace r")
    case True
    with 2 show ?thesis
      by (auto simp: saved_view_def case_prod_beta Let_def replace_turn_replay)
  next
    case False
    then show ?thesis using 2 turn_step_ext commits_extension_replay(2) by blast
  qed
qed

section \<open>Every call is answered\<close>

lemma into_blocks_assistant: "\<forall>b\<in>set (into_blocks c). block_role b = Assistant"
  using into_blocks_role by blast

lemma after_round_context [simp]: "ts_context (snd (after_round a s)) = ts_context s"
  by (simp add: after_round_def take_unsaved_def)

lemma done_turn_context [simp]: "ts_context (snd (done_turn r s)) = ts_context s"
  by (simp add: done_turn_def take_unsaved_def)

lemma send_turn_context [simp]: "ts_context (snd (send_turn input s)) = ts_context s @ input"
  by (simp add: send_turn_def unsaved_commit_def take_unsaved_def)

lemma end_turn_context [simp]:
  "ts_context (snd (stop_turn s)) = ts_context s"
  "ts_context (snd (cancel_turn s)) = ts_context s"
  "ts_context (snd (fail_turn e s)) = ts_context s"
  by (simp_all add: stop_turn_def cancel_turn_def fail_turn_def)

lemma model_finished_context:
  "ts_context (snd (model_finished cpl og s)) =
     (if tool_calls cpl \<noteq> [] \<and> comp_finish_reason cpl \<noteq> FinToolCalls \<and> comp_finish_reason cpl \<noteq> FinStop
      then ts_context s @ into_blocks cpl @ map (\<lambda>c. ToolResult (not_executed c
             (if comp_finish_reason cpl = FinLength then output_limit_reason
              else ''the response ended with finish reason '' @ finish_as_str (comp_finish_reason cpl) @ ''.'')))
             (tool_calls cpl)
      else ts_context s @ into_blocks cpl)"
  by (simp add: model_finished_def Let_def take_unsaved_def)

lemma model_finished_action:
  "(\<exists>c. fst (model_finished cpl og s) = ActCallTools c) \<longleftrightarrow>
     tool_calls cpl \<noteq> [] \<and> comp_finish_reason cpl \<in> {FinToolCalls, FinStop}"
  by (auto simp: model_finished_def Let_def take_unsaved_def after_round_def)

lemma not_executed_id [simp]: "result_call_id (not_executed c t) = call_id c"
  by (simp add: not_executed_def)

lemma model_finished_calls:
  assumes "paired (ts_context s)" "fst (model_finished cpl og s) = ActCallTools c"
  shows "waiting (ts_context (snd (model_finished cpl og s))) (map call_id (tool_calls cpl))"
    "calls_in (commit_blocks c) = calls_in (drop (ts_saved s) (ts_context s)) @ tool_calls cpl \<or>
     \<not> turn_ok s"
proof -
  have k: "tool_calls cpl \<noteq> []" "comp_finish_reason cpl \<in> {FinToolCalls, FinStop}"
    using assms(2) model_finished_action by blast+
  then have ctx: "ts_context (snd (model_finished cpl og s)) = ts_context s @ into_blocks cpl"
    by (auto simp: model_finished_context)
  show "waiting (ts_context (snd (model_finished cpl og s))) (map call_id (tool_calls cpl))"
    using waiting_assistant [OF assms(1) into_blocks_assistant [of cpl]] ctx by simp
  show "calls_in (commit_blocks c) = calls_in (drop (ts_saved s) (ts_context s)) @ tool_calls cpl \<or>
     \<not> turn_ok s"
    using k assms(2) by (auto simp: model_finished_def Let_def take_unsaved_def turn_ok_def)
qed

lemma model_finished_paired:
  assumes "paired (ts_context s)" "\<And>c. fst (model_finished cpl og s) \<noteq> ActCallTools c"
  shows "paired (ts_context (snd (model_finished cpl og s)))"
proof -
  have k: "tool_calls cpl = [] \<or> comp_finish_reason cpl \<noteq> FinToolCalls \<and> comp_finish_reason cpl \<noteq> FinStop"
    using assms(2) model_finished_action [of cpl og s] by blast
  show ?thesis
  proof (cases "tool_calls cpl = []")
    case True
    then show ?thesis
      using waiting_assistant [OF assms(1) into_blocks_assistant [of cpl]]
      by (simp add: model_finished_context paired_def)
  next
    case False
    with k have "comp_finish_reason cpl \<noteq> FinToolCalls" "comp_finish_reason cpl \<noteq> FinStop" by auto
    with False show ?thesis
      using paired_answer [OF assms(1) into_blocks_assistant [of cpl],
          of "map (\<lambda>c. not_executed c _) (tool_calls cpl)"]
      by (simp add: model_finished_context comp_def)
  qed
qed

lemma outcomes_paired:
  assumes "waiting (ts_context s) (map fin_call_id fs)"
  shows "paired (ts_context (add_outcomes fs s))"
  using paired_results [of "ts_context s" "map (\<lambda>f. out_result (fin_outcome f)) fs"] assms
  by (simp add: fin_call_id_def [abs_def] comp_def)

lemma tools_paired:
  assumes "waiting (ts_context s) (map fin_call_id fs)"
  shows "paired (ts_context (snd (tools_finished fs s)))"
    "paired (ts_context (snd (tools_cancelled fs s)))"
  using outcomes_paired [OF assms] by (simp_all add: tools_finished_def tools_cancelled_def)

lemma partial_calls:
  "filter_map (\<lambda>b. case b of ToolCall c \<Rightarrow> Some (ToolResult (f c)) | _ \<Rightarrow> None) bs =
     map (\<lambda>c. ToolResult (f c)) (calls_in bs)"
proof (induction bs)
  case (Cons b bs)
  then show ?case by (cases b) (simp_all add: calls_in_def)
qed simp

lemma model_cancelled_paired:
  assumes "paired (ts_context s)"
  shows "paired (ts_context (snd (model_cancelled ps s)))"
  using paired_answer [OF assms, of "map block_of_partial ps"
      "map (\<lambda>c. not_executed c cancelled_reason) (calls_in (map block_of_partial ps))"]
  by (simp add: model_cancelled_def Let_def partial_calls comp_def)

section \<open>Every display points at its result\<close>

definition displays_ok :: "nat \<Rightarrow> block list \<Rightarrow> result_display list \<Rightarrow> bool" where
  "displays_ok start context ds \<longleftrightarrow>
     (\<forall>d\<in>set ds. start + rd_block_index d < length context \<and>
        is_tool_result (context ! (start + rd_block_index d)))"

definition results_ok :: "turn_state \<Rightarrow> bool" where
  "results_ok s \<longleftrightarrow> displays_ok (ts_saved s) (ts_context s) (ts_results s)"

lemma displays_ok_mono:
  "displays_ok start context ds \<Longrightarrow> displays_ok start (context @ bs) ds"
  by (auto simp: displays_ok_def nth_append)

lemma displays_ok_snoc:
  "displays_ok start context (ds @ [d]) \<longleftrightarrow>
     displays_ok start context ds \<and> start + rd_block_index d < length context \<and>
     is_tool_result (context ! (start + rd_block_index d))"
  by (auto simp: displays_ok_def)

lemma results_ok_add_outcome:
  assumes "turn_ok s" "results_ok s"
  shows "turn_ok (add_outcome f s) \<and> results_ok (add_outcome f s)"
  using assms displays_ok_mono [of "ts_saved s" "ts_context s" "ts_results s"]
  by (simp add: turn_ok_def results_ok_def displays_ok_snoc add_outcome_def Let_def)

lemma results_ok_add_outcomes:
  "turn_ok s \<Longrightarrow> results_ok s \<Longrightarrow> turn_ok (add_outcomes fs s) \<and> results_ok (add_outcomes fs s)"
  by (induction fs arbitrary: s) (simp_all add: add_outcomes_def results_ok_add_outcome)

lemma commit_displays_ok:
  assumes "turn_ok s" "results_ok s"
  shows "displays_ok 0 (drop (ts_saved s) (ts_context s)) (ts_results s)"
  using assms by (auto simp: results_ok_def displays_ok_def turn_ok_def)

section \<open>The protocol of a turn\<close>

text \<open>
  Which call may answer which action, as the \<open>match\<close> of \<open>Turn::run\<close> has it. The input of the user and
  the replacement of a hook keep the context paired, and the outcomes of the tools answer the calls of
  the commit in call order; everything else is free.
\<close>

inductive turn_trans :: "action \<times> turn_state \<Rightarrow> action \<times> turn_state \<Rightarrow> bool" where
  answered: "turn_trans (ActSend c, s) (model_finished cpl og s)"
| send_failed: "turn_trans (ActSend c, s) (fail_turn e s)"
| send_cancelled: "turn_trans (ActSend c, s) (model_cancelled ps s)"
| send_replaced: "paired (replace_blocks r (ts_context s)) \<Longrightarrow>
     turn_trans (ActSend c, s) (ActSend None, snd (replace_turn r s))"
| called: "map fin_call_id fs = map call_id (calls_in (commit_blocks c)) \<Longrightarrow>
     turn_trans (ActCallTools c, s) (tools_finished fs s)"
| calls_cancelled: "map fin_call_id fs = map call_id (calls_in (commit_blocks c)) \<Longrightarrow>
     turn_trans (ActCallTools c, s) (tools_cancelled fs s)"
| proceeded: "paired input \<Longrightarrow> turn_trans (ActAfterRound ctx r c, s) (proceed_turn input s)"
| stopped: "turn_trans (ActAfterRound ctx r c, s) (stop_turn s)"
| after_cancelled: "turn_trans (ActAfterRound ctx r c, s) (cancel_turn s)"
| after_failed: "turn_trans (ActAfterRound ctx r c, s) (fail_turn e s)"

inductive_cases turn_trans_sendE: "turn_trans (ActSend c, s) p"
inductive_cases turn_trans_callE: "turn_trans (ActCallTools c, s) p"
inductive_cases turn_trans_roundE: "turn_trans (ActAfterRound ctx r c, s) p"
inductive_cases turn_trans_doneE: "turn_trans (ActDone c res, s) p"

text \<open>At rest, everything is saved and no display waits.\<close>

definition at_rest :: "turn_state \<Rightarrow> bool" where
  "at_rest s \<longleftrightarrow> ts_saved s = length (ts_context s) \<and> ts_results s = []"

definition commit_ok :: "action \<Rightarrow> bool" where
  "commit_ok a \<longleftrightarrow>
     (case action_commit a of None \<Rightarrow> True
      | Some c \<Rightarrow> displays_ok 0 (commit_blocks c) (disp_results (commit_display c)))"

definition phase_ok :: "action \<times> turn_state \<Rightarrow> bool" where
  "phase_ok p \<longleftrightarrow>
     at_rest (snd p) \<and> commit_ok (fst p) \<and>
     (case fst p of
        ActCallTools c \<Rightarrow> waiting (ts_context (snd p)) (map call_id (calls_in (commit_blocks c)))
      | ActAfterRound ctx r c \<Rightarrow>
          paired (ts_context (snd p)) \<and> ctx = ts_context (snd p) \<and> r = ts_turn_end (snd p)
      | _ \<Rightarrow> paired (ts_context (snd p)))"

lemma displays_ok_Nil [simp]: "displays_ok n context []"
  by (simp add: displays_ok_def)

lemma at_rest_ok: "at_rest s \<Longrightarrow> turn_ok s \<and> results_ok s"
  by (simp add: at_rest_def turn_ok_def results_ok_def)

lemma after_round_phase:
  assumes "turn_ok s" "results_ok s" "paired (ts_context s)"
  shows "phase_ok (after_round a s)"
  using assms commit_displays_ok [OF assms(1,2)]
  by (simp add: phase_ok_def at_rest_def commit_ok_def after_round_def take_unsaved_def Let_def)

lemma done_turn_phase:
  assumes "turn_ok s" "results_ok s" "paired (ts_context s)"
  shows "phase_ok (done_turn r s)"
  using assms commit_displays_ok [OF assms(1,2)]
  by (simp add: phase_ok_def at_rest_def commit_ok_def done_turn_def take_unsaved_def Let_def)

lemma send_turn_phase:
  assumes "at_rest s" "paired (ts_context s)" "paired input"
  shows "phase_ok (send_turn input s)"
  using assms
  by (simp add: phase_ok_def at_rest_def commit_ok_def send_turn_def unsaved_commit_def take_unsaved_def
      no_display_def paired_append)

lemma end_turn_phase:
  assumes "at_rest s" "paired (ts_context s)"
  shows "phase_ok (stop_turn s)" "phase_ok (cancel_turn s)" "phase_ok (fail_turn e s)"
  using assms at_rest_ok done_turn_phase by (auto simp: stop_turn_def cancel_turn_def fail_turn_def)

lemma extend_rest:
  "at_rest s \<Longrightarrow> turn_ok (extend_context bs s) \<and> results_ok (extend_context bs s)"
  by (simp add: at_rest_def turn_ok_def results_ok_def)

lemma model_cancelled_phase:
  assumes "at_rest s" "paired (ts_context s)"
  shows "phase_ok (model_cancelled ps s)"
  using assms extend_rest [OF assms(1)] model_cancelled_paired [OF assms(2), of ps]
  by (auto simp: model_cancelled_def Let_def cancel_turn_def at_rest_def turn_ok_def results_ok_def
      intro!: done_turn_phase)

lemma model_finished_phase:
  assumes "at_rest s" "paired (ts_context s)"
  shows "phase_ok (model_finished cpl og s)"
proof (cases "\<exists>c. fst (model_finished cpl og s) = ActCallTools c")
  case True
  then have k: "tool_calls cpl \<noteq> []" "comp_finish_reason cpl \<in> {FinToolCalls, FinStop}"
    using model_finished_action by blast+
  have "waiting (ts_context s @ into_blocks cpl) (map call_id (tool_calls cpl))"
    using waiting_assistant [OF assms(2) into_blocks_assistant [of cpl]] by simp
  with k assms(1) show ?thesis
    by (auto simp: model_finished_def Let_def take_unsaved_def phase_ok_def at_rest_def commit_ok_def
        no_display_def)
next
  case False
  then have p: "paired (ts_context (snd (model_finished cpl og s)))"
    using model_finished_paired [OF assms(2)] by blast
  have k: "tool_calls cpl = [] \<or> comp_finish_reason cpl \<noteq> FinToolCalls \<and> comp_finish_reason cpl \<noteq> FinStop"
    using False model_finished_action [of cpl og s] by blast
  with p assms(1) show ?thesis
    unfolding model_finished_def Let_def
    by (auto simp: at_rest_def turn_ok_def results_ok_def intro!: after_round_phase)
qed

lemma tools_phase:
  assumes "at_rest s" "waiting (ts_context s) (map fin_call_id fs)"
  shows "phase_ok (tools_finished fs s)" "phase_ok (tools_cancelled fs s)"
  using results_ok_add_outcomes [of s fs] at_rest_ok [OF assms(1)] outcomes_paired [OF assms(2)]
  by (auto simp: tools_finished_def tools_cancelled_def cancel_turn_def
      intro!: after_round_phase done_turn_phase)

lemma proceed_phase:
  assumes "at_rest s" "paired (ts_context s)" "paired input"
  shows "phase_ok (proceed_turn input s)"
  using assms by (simp add: proceed_turn_def send_turn_phase end_turn_phase)

lemma turn_trans_phase: "turn_trans p p' \<Longrightarrow> phase_ok p \<Longrightarrow> phase_ok p'"
proof (induction rule: turn_trans.induct)
  case (send_replaced r s c)
  then show ?case
    by (simp add: phase_ok_def at_rest_def commit_ok_def replace_turn_def Let_def replace_blocks_def)
next
  case (called fs c s)
  then show ?case using tools_phase(1) by (auto simp: phase_ok_def)
next
  case (calls_cancelled fs c s)
  then show ?case using tools_phase(2) by (auto simp: phase_ok_def)
qed (simp_all add: phase_ok_def [of "(ActSend c, s)" for c s] phase_ok_def [of "(ActAfterRound x r c, s)" for x r c s]
      model_finished_phase end_turn_phase model_cancelled_phase proceed_phase)

lemma turn_reach_phase:
  assumes "rtranclp turn_trans (send_turn input (new_turn context tokens)) p"
    and "paired context" "paired input"
  shows "phase_ok p"
  using assms(1)
proof (induction rule: rtranclp_induct)
  case base
  show ?case
    using send_turn_phase [of "new_turn context tokens" input] assms(2,3)
    by (simp add: at_rest_def new_turn_def)
next
  case (step p p')
  then show ?case using turn_trans_phase by blast
qed

section \<open>Properties\<close>

lemma turn_step_saved:
  "ts_saved (snd (turn_step op s)) = length (ts_context (snd (turn_step op s)))"
proof (cases "\<exists>r. op = OpReplace r")
  case True
  then show ?thesis by (auto simp: replace_turn_def Let_def)
next
  case False
  then show ?thesis using turn_step_ext [of op s] by (auto simp: commits_extension_def)
qed

lemma run_ops_saved:
  "ops \<noteq> [] \<Longrightarrow> saved_view (snd (run_ops turn_step ops s)) = ts_context (snd (run_ops turn_step ops s))"
proof (induction ops arbitrary: s)
  case (Cons op ops)
  then show ?case
    by (cases ops) (auto simp: case_prod_beta Let_def saved_view_def turn_step_saved)
qed simp

text \<open>A turn with one tool call, for the witnesses.\<close>

definition example_call :: tool_call where
  "example_call = \<lparr>call_id = ''c1'', call_name = ''read'', call_arguments = ''{}''\<rparr>"

definition example_completion :: completion where
  "example_completion =
     \<lparr>comp_content = [ContentText ''ok'', ContentToolCall example_call], comp_finish_reason = FinToolCalls,
      comp_raw = ''tool_use'', comp_usage = no_usage\<rparr>"

definition example_origin :: origin where
  "example_origin = \<lparr>origin_model = ''m'', origin_base_url = ''https://h''\<rparr>"

definition example_finished :: finished where
  "example_finished = \<lparr>fin_outcome = outcome_of_result (result_success ''c1'' ''done''), fin_duration = Some 5\<rparr>"

lemmas turn_call_defs =
  send_turn_def unsaved_commit_def take_unsaved_def after_round_def done_turn_def model_finished_def
  add_outcome_def add_outcomes_def tools_finished_def tools_cancelled_def cancel_turn_def replace_turn_def
  new_turn_def extend_context_def tool_calls_def into_blocks_def with_commit_def

lemmas example_defs = example_call_def example_completion_def example_origin_def example_finished_def

text \<open>
  C1: whoever replays the commits of a turn in order, from the context that the turn started with, has
  exactly the context of the turn after any sequence of its calls. A replacement is the one call with
  a demand on its caller: everything must be saved before it.
\<close>

theorem turn_commits_replay:
  assumes "run_pre turn_pre turn_step ops (new_turn context tokens)" and "ops \<noteq> []"
  shows "replay (fst (run_ops turn_step ops (new_turn context tokens))) context =
     ts_context (snd (run_ops turn_step ops (new_turn context tokens)))"
proof -
  have "turn_ok (new_turn context tokens)" "saved_view (new_turn context tokens) = context"
    by (simp_all add: turn_ok_def new_turn_def saved_view_def)
  then show ?thesis
    using turn_ledger.run_replay [OF _ assms(1)] run_ops_saved [OF assms(2)] by simp
qed

theorem turn_commits_replay_witness:
  "replay (fst (run_ops turn_step
       [OpSend [UserText ''hi''], OpModelFinished example_completion example_origin,
        OpToolsFinished [example_finished], OpReplace \<lparr>rep_head = [UserText ''summary''], rep_keep = 1\<rparr>]
       (new_turn [] None))) [] =
     [UserText ''summary'', ToolResult (result_success ''c1'' ''done'')]"
proof -
  let ?ops = "[OpSend [UserText ''hi''], OpModelFinished example_completion example_origin,
        OpToolsFinished [example_finished], OpReplace \<lparr>rep_head = [UserText ''summary''], rep_keep = 1\<rparr>]"
  have pre: "run_pre turn_pre turn_step ?ops (new_turn [] None)"
    by (simp add: turn_call_defs example_defs Let_def)
  have "ts_context (snd (run_ops turn_step ?ops (new_turn [] None))) =
      [UserText ''summary'', ToolResult (result_success ''c1'' ''done'')]"
    by (simp add: turn_call_defs example_defs Let_def outcome_of_result_def)
  then show ?thesis using turn_commits_replay [OF pre] by simp
qed

text \<open>
  C2: through every turn that follows the protocol of the driver, each tool call of the model is
  answered: when a request goes out, after each round and at the end of the turn no call waits, and
  when the driver runs tools exactly the calls of the answer commit wait, in call order. This holds
  for refused, truncated, filtered and cancelled answers too.
\<close>

theorem turn_calls_answered:
  assumes "paired context" and "paired input"
    and "rtranclp turn_trans (send_turn input (new_turn context tokens)) (a, s)"
  shows "case a of
      ActCallTools c \<Rightarrow> waiting (ts_context s) (map call_id (calls_in (commit_blocks c)))
    | _ \<Rightarrow> paired (ts_context s)"
  using turn_reach_phase [OF assms(3,1,2)] by (auto simp: phase_ok_def split: action.splits)

lemma example_reaches:
  "rtranclp turn_trans (send_turn [UserText ''hi''] (new_turn [] None))
     (tools_cancelled [example_finished]
       (snd (model_finished example_completion example_origin
         (snd (send_turn [UserText ''hi''] (new_turn [] None))))))"
proof -
  let ?s = "send_turn [UserText ''hi''] (new_turn [] None)"
  let ?m = "model_finished example_completion example_origin (snd ?s)"
  obtain c where c: "fst ?s = ActSend c" by (simp add: send_turn_def case_prod_beta)
  obtain d where d: "fst ?m = ActCallTools d"
    using model_finished_action [of example_completion example_origin "snd ?s"]
    by (auto simp: example_completion_def tool_calls_def)
  have ids: "map fin_call_id [example_finished] = map call_id (calls_in (commit_blocks d))"
    using d by (auto simp: example_defs turn_call_defs fin_call_id_def outcome_of_result_def)
  have "turn_trans ?s ?m" using turn_trans.answered [of c "snd ?s"] c by (metis prod.collapse)
  moreover have "turn_trans ?m (tools_cancelled [example_finished] (snd ?m))"
    using turn_trans.calls_cancelled [OF ids, of "snd ?m"] d by (metis prod.collapse)
  ultimately show ?thesis by (meson rtranclp.rtrancl_into_rtrancl rtranclp.rtrancl_refl)
qed

theorem turn_calls_answered_witness:
  "paired [UserText ''hi'', AssistantText ''ok'', ToolCall example_call,
     ToolResult (result_success ''c1'' ''done'')]"
proof -
  let ?p = "tools_cancelled [example_finished]
       (snd (model_finished example_completion example_origin
         (snd (send_turn [UserText ''hi''] (new_turn [] None)))))"
  obtain c r where a: "fst ?p = ActDone c r"
    by (simp add: tools_cancelled_def cancel_turn_def done_turn_def case_prod_beta Let_def)
  have r: "rtranclp turn_trans (send_turn [UserText ''hi''] (new_turn [] None)) (fst ?p, snd ?p)"
    using example_reaches by simp
  have u: "paired [UserText ''hi'']" by (simp add: paired_user)
  have "paired (ts_context (snd ?p))"
    using turn_calls_answered [OF paired_Nil u r] by (simp only: a action.case)
  moreover have "ts_context (snd ?p) = [UserText ''hi'', AssistantText ''ok'', ToolCall example_call,
     ToolResult (result_success ''c1'' ''done'')]"
    by (simp add: turn_call_defs example_defs Let_def outcome_of_result_def)
  ultimately show ?thesis by simp
qed

text \<open>
  In every commit of a turn, each display of a tool result names the index of a tool result of
  that same commit.
\<close>

theorem turn_displays_fit:
  assumes "paired context" and "paired input"
    and "rtranclp turn_trans (send_turn input (new_turn context tokens)) (a, s)"
    and "action_commit a = Some c" and "d \<in> set (disp_results (commit_display c))"
  shows "rd_block_index d < length (commit_blocks c) \<and>
     is_tool_result (commit_blocks c ! rd_block_index d)"
  using turn_reach_phase [OF assms(3,1,2)] assms(4,5)
  by (simp add: phase_ok_def commit_ok_def displays_ok_def)

theorem turn_displays_fit_witness:
  "is_tool_result ([ToolResult (result_success ''c1'' ''done'')] ! 0)"
proof -
  let ?p = "tools_cancelled [example_finished]
       (snd (model_finished example_completion example_origin
         (snd (send_turn [UserText ''hi''] (new_turn [] None)))))"
  let ?d = "\<lparr>rd_block_index = 0, rd_blocks = [], rd_duration_ms = Some (duration_ms 5)\<rparr>"
  obtain c where c: "action_commit (fst ?p) = Some c"
    by (simp add: tools_cancelled_def cancel_turn_def done_turn_def case_prod_beta Let_def)
  have k: "map_option commit_blocks (action_commit (fst ?p)) = Some [ToolResult (result_success ''c1'' ''done'')]"
    "map_option (\<lambda>c. disp_results (commit_display c)) (action_commit (fst ?p)) = Some [?d]"
    by (simp_all add: turn_call_defs example_defs Let_def outcome_of_result_def)
  with c have "commit_blocks c = [ToolResult (result_success ''c1'' ''done'')]"
    "?d \<in> set (disp_results (commit_display c))" by auto
  moreover have r: "rtranclp turn_trans (send_turn [UserText ''hi''] (new_turn [] None)) (fst ?p, snd ?p)"
    using example_reaches by simp
  moreover have u: "paired [UserText ''hi'']" by (simp add: paired_user)
  ultimately show ?thesis using turn_displays_fit [OF paired_Nil u r c, of ?d] by simp
qed

end
