(* ===== verification/Utf8.thy ===== *)
theory Utf8
  imports Prelude
begin

text \<open>
  UTF-8 as Rust's \<open>str\<close> and \<open>[u8]::utf8_chunks\<close> read it: bytes are natural numbers below 256, a
  character is its Unicode scalar value. \<open>utf8_next\<close> reads one character or the bytes of one maximal
  invalid part, \<open>utf8_chars\<close> the whole text, and \<open>encode_char\<close> writes one character. The round trip
  is \<open>utf8_chars_encode\<close>.
\<close>

section \<open>Reading\<close>

definition seq_len :: "nat \<Rightarrow> nat" where
  "seq_len b =
     (if b < 128 then 1 else if 194 \<le> b \<and> b \<le> 223 then 2 else if 224 \<le> b \<and> b \<le> 239 then 3
      else if 240 \<le> b \<and> b \<le> 244 then 4 else 0)"

definition is_cont :: "nat \<Rightarrow> bool" where
  "is_cont b = (128 \<le> b \<and> b \<le> 191)"

text \<open>The second byte of a sequence: no overlong form, no surrogate, nothing above U+10FFFF.\<close>

definition second_ok :: "nat \<Rightarrow> nat \<Rightarrow> bool" where
  "second_ok a b =
     (if a = 224 then 160 \<le> b \<and> b \<le> 191
      else if a = 237 then 128 \<le> b \<and> b \<le> 159
      else if a = 240 then 144 \<le> b \<and> b \<le> 191
      else if a = 244 then 128 \<le> b \<and> b \<le> 143
      else is_cont b)"

text \<open>A character or \<open>None\<close> for an invalid part, and the count of bytes read.\<close>

fun utf8_next :: "nat list \<Rightarrow> nat option \<times> nat" where
  "utf8_next [] = (None, 0)"
| "utf8_next [a] = (if seq_len a = 1 then (Some a, 1) else (None, 1))"
| "utf8_next [a, b] =
     (if seq_len a = 1 then (Some a, 1)
      else if seq_len a = 0 \<or> \<not> second_ok a b then (None, 1)
      else if seq_len a = 2 then (Some ((a - 192) * 64 + (b - 128)), 2)
      else (None, 2))"
| "utf8_next [a, b, c] =
     (if seq_len a = 1 then (Some a, 1)
      else if seq_len a = 0 \<or> \<not> second_ok a b then (None, 1)
      else if seq_len a = 2 then (Some ((a - 192) * 64 + (b - 128)), 2)
      else if \<not> is_cont c then (None, 2)
      else if seq_len a = 3 then (Some ((a - 224) * 4096 + (b - 128) * 64 + (c - 128)), 3)
      else (None, 3))"
| "utf8_next (a # b # c # d # _) =
     (if seq_len a = 1 then (Some a, 1)
      else if seq_len a = 0 \<or> \<not> second_ok a b then (None, 1)
      else if seq_len a = 2 then (Some ((a - 192) * 64 + (b - 128)), 2)
      else if \<not> is_cont c then (None, 2)
      else if seq_len a = 3 then (Some ((a - 224) * 4096 + (b - 128) * 64 + (c - 128)), 3)
      else if \<not> is_cont d then (None, 3)
      else (Some ((a - 240) * 262144 + (b - 128) * 4096 + (c - 128) * 64 + (d - 128)), 4))"

lemma utf8_next_bounds: "bs \<noteq> [] \<Longrightarrow> 0 < snd (utf8_next bs) \<and> snd (utf8_next bs) \<le> length bs"
  by (cases bs rule: utf8_next.cases) auto

text \<open>The characters of a text, with the bytes of each invalid part.\<close>

datatype utf8_item = Scalar nat | InvalidPart "nat list"

function utf8_items :: "nat list \<Rightarrow> utf8_item list" where
  "utf8_items [] = []"
| "bs = b # bs' \<Longrightarrow> utf8_items bs =
     (let (c, n) = utf8_next bs
      in (case c of Some ch \<Rightarrow> Scalar ch | None \<Rightarrow> InvalidPart (take n bs)) # utf8_items (drop n bs))"
  by (metis list.exhaust) auto
termination
proof (relation "measure length")
  fix bs :: "nat list" and b bs' x c n
  assume bs: "bs = b # bs'" and x: "x = utf8_next bs" "(c, n) = x"
  then have "0 < n" using utf8_next_bounds [of bs] by (metis list.distinct(1) snd_conv)
  with bs show "(drop n bs, bs) \<in> measure length" by simp
qed simp

lemma utf8_items_Cons [simp]:
  "utf8_items (b # bs) =
     (let (c, n) = utf8_next (b # bs)
      in (case c of Some ch \<Rightarrow> Scalar ch | None \<Rightarrow> InvalidPart (take n (b # bs))) # utf8_items (drop n (b # bs)))"
  using utf8_items.simps(2) [OF refl] .

declare utf8_items.simps(1) [code] utf8_items_Cons [code]

definition utf8_chars :: "nat list \<Rightarrow> nat list option" where
  "utf8_chars bs =
     (if list_ex (\<lambda>i. case i of InvalidPart _ \<Rightarrow> True | Scalar _ \<Rightarrow> False) (utf8_items bs) then None
      else Some (filter_map (\<lambda>i. case i of Scalar c \<Rightarrow> Some c | InvalidPart _ \<Rightarrow> None) (utf8_items bs)))"

section \<open>Writing\<close>

definition is_scalar :: "nat \<Rightarrow> bool" where
  "is_scalar c = (c < 55296 \<or> (57344 \<le> c \<and> c < 1114112))"

definition encode_char :: "nat \<Rightarrow> nat list" where
  "encode_char c =
     (if c < 128 then [c]
      else if c < 2048 then [192 + c div 64, 128 + c mod 64]
      else if c < 65536 then [224 + c div 4096, 128 + c div 64 mod 64, 128 + c mod 64]
      else [240 + c div 262144, 128 + c div 4096 mod 64, 128 + c div 64 mod 64, 128 + c mod 64])"

definition utf8_encode :: "nat list \<Rightarrow> nat list" where
  "utf8_encode cs = concat (map encode_char cs)"

lemma div_64_64: "(c::nat) div 4096 = c div 64 div 64" "(c::nat) div 262144 = c div 64 div 64 div 64"
  by (simp_all flip: div_mult2_eq)

lemma split_64: "(q::nat) = 64 * (q div 64) + q mod 64" "q mod 64 < 64"
  by simp_all

lemma second_ok_3:
  assumes "2048 \<le> c" "c < 65536" "is_scalar c"
  shows "second_ok (224 + c div 4096) (128 + c div 64 mod 64)"
proof -
  define q where "q = c div 64"
  define p where "p = q div 64"
  define m where "m = q mod 64"
  have c: "c = 64 * q + c mod 64" "c mod 64 < 64" unfolding q_def by (rule split_64)+
  have q: "q = 64 * p + m" "m < 64" unfolding p_def m_def by (rule split_64)+
  have "p = 0 \<Longrightarrow> 32 \<le> m" "p < 16" using assms(1,2) c q by linarith+
  moreover have "p = 13 \<Longrightarrow> m \<le> 31" using assms(3) c q unfolding is_scalar_def by linarith
  ultimately have "second_ok (224 + p) (128 + m)"
    using q(2) by (auto simp: second_ok_def is_cont_def)
  then show ?thesis by (simp add: div_64_64 p_def m_def q_def)
qed

lemma second_ok_4:
  assumes "65536 \<le> c" "c < 1114112"
  shows "second_ok (240 + c div 262144) (128 + c div 4096 mod 64)"
proof -
  define r where "r = c div 64"
  define q where "q = r div 64"
  define p where "p = q div 64"
  define m where "m = q mod 64"
  have c: "c = 64 * r + c mod 64" "c mod 64 < 64" unfolding r_def by (rule split_64)+
  have r: "r = 64 * q + r mod 64" "r mod 64 < 64" unfolding q_def by (rule split_64)+
  have q: "q = 64 * p + m" "m < 64" unfolding p_def m_def by (rule split_64)+
  have "p = 0 \<Longrightarrow> 16 \<le> m" "p = 4 \<Longrightarrow> m \<le> 15" "p \<le> 4" using assms c r q by linarith+
  then have "second_ok (240 + p) (128 + m)"
    using q(2) by (auto simp: second_ok_def is_cont_def)
  then show ?thesis by (simp add: div_64_64 p_def m_def q_def r_def)
qed

lemma second_ok_2: "194 \<le> a \<Longrightarrow> a \<le> 223 \<Longrightarrow> second_ok a b = is_cont b"
  by (simp add: second_ok_def)

lemma is_cont_mod [simp]: "is_cont (128 + c mod 64)"
proof -
  have "c mod 64 < 64" by simp
  then show ?thesis by (simp add: is_cont_def)
qed

lemma utf8_next_encode:
  assumes "is_scalar c"
  shows "utf8_next (encode_char c @ bs) = (Some c, length (encode_char c))"
proof -
  consider (one) "c < 128" | (two) "128 \<le> c" "c < 2048" | (three) "2048 \<le> c" "c < 65536"
    | (four) "65536 \<le> c" "c < 1114112"
    using assms unfolding is_scalar_def by linarith
  then show ?thesis
  proof cases
    case one
    then show ?thesis
      by (cases "c # bs" rule: utf8_next.cases) (auto simp: encode_char_def seq_len_def)
  next
    case two
    have l: "192 + c div 64 \<le> 223" "194 \<le> 192 + c div 64"
      using two split_64 [of c] by linarith+
    have s: "seq_len (192 + c div 64) = 2" using l by (simp add: seq_len_def)
    have v: "c div 64 * 64 + c mod 64 = c" by simp
    show ?thesis using two l s v
      by (cases "(192 + c div 64) # (128 + c mod 64) # bs" rule: utf8_next.cases)
        (auto simp: encode_char_def second_ok_2)
  next
    case three
    have "c div 4096 < 16" using three split_64 [of c] split_64 [of "c div 64"]
      unfolding div_64_64 by linarith
    then have s: "seq_len (224 + c div 4096) = 3" by (simp add: seq_len_def)
    have v: "c div 4096 * 4096 + c div 64 mod 64 * 64 + c mod 64 = c"
      using split_64(1) [of c] split_64(1) [of "c div 64"] unfolding div_64_64 by linarith
    show ?thesis using three s v second_ok_3 [OF three assms]
      by (cases "(224 + c div 4096) # (128 + c div 64 mod 64) # (128 + c mod 64) # bs" rule: utf8_next.cases)
        (auto simp: encode_char_def)
  next
    case four
    have "c div 262144 \<le> 4" using four split_64 [of c] split_64 [of "c div 64"]
        split_64 [of "c div 64 div 64"] unfolding div_64_64 by linarith
    then have s: "seq_len (240 + c div 262144) = 4" by (simp add: seq_len_def)
    have v: "c div 262144 * 262144 + c div 4096 mod 64 * 4096 + c div 64 mod 64 * 64 + c mod 64 = c"
      using split_64(1) [of c] split_64(1) [of "c div 64"] split_64(1) [of "c div 64 div 64"]
      unfolding div_64_64 by linarith
    show ?thesis using four s v second_ok_4 [OF four] by (auto simp: encode_char_def)
  qed
qed

lemma encode_char_nonempty [simp]: "encode_char c \<noteq> []"
  by (simp add: encode_char_def)

lemma utf8_items_step:
  "bs \<noteq> [] \<Longrightarrow> utf8_next bs = (Some c, n) \<Longrightarrow> utf8_items bs = Scalar c # utf8_items (drop n bs)"
  by (cases bs) auto

lemma utf8_items_encode:
  "\<forall>c\<in>set cs. is_scalar c \<Longrightarrow> utf8_items (utf8_encode cs) = map Scalar cs"
proof (induction cs)
  case (Cons c cs)
  then have "utf8_next (encode_char c @ utf8_encode cs) = (Some c, length (encode_char c))"
    by (simp add: utf8_next_encode)
  from utf8_items_step [OF _ this]
  have "utf8_items (encode_char c @ utf8_encode cs) = Scalar c # utf8_items (utf8_encode cs)"
    by simp
  with Cons show ?case by (simp add: utf8_encode_def)
qed (simp add: utf8_encode_def)

lemma utf8_chars_encode:
  assumes "\<forall>c\<in>set cs. is_scalar c"
  shows "utf8_chars (utf8_encode cs) = Some cs"
  using utf8_items_encode [OF assms]
  by (simp add: utf8_chars_def filter_map_map comp_def list_ex_iff)

text \<open>Every character that a reader gets is a scalar value.\<close>

lemma scalar_3:
  assumes "seq_len a = 3" "second_ok a b" "is_cont c"
  shows "is_scalar ((a - 224) * 4096 + (b - 128) * 64 + (c - 128))"
proof -
  obtain i j k where ijk: "a = 224 + i" "b = 128 + j" "c = 128 + k"
    using assms by (auto simp: seq_len_def second_ok_def is_cont_def le_iff_add split: if_splits)
  have b: "i \<le> 15" "j < 64" "k < 64" "i = 13 \<Longrightarrow> j < 32"
    using assms ijk by (auto simp: seq_len_def second_ok_def is_cont_def split: if_splits)
  consider "i \<le> 12" | "i = 13" | "i \<ge> 14" by linarith
  then show ?thesis using b ijk by cases (simp_all add: is_scalar_def)
qed

lemma scalar_4:
  assumes "seq_len a \<notin> {0, 1, 2, 3}" "second_ok a b" "is_cont c" "is_cont d"
  shows "is_scalar ((a - 240) * 262144 + (b - 128) * 4096 + (c - 128) * 64 + (d - 128))"
proof -
  obtain i j k l where ijk: "a = 240 + i" "b = 128 + j" "c = 128 + k" "d = 128 + l"
    using assms by (auto simp: seq_len_def second_ok_def is_cont_def le_iff_add split: if_splits)
  have b: "i \<le> 4" "j < 64" "k < 64" "l < 64" "i = 4 \<Longrightarrow> j < 16" "i = 0 \<Longrightarrow> j \<ge> 16"
    using assms ijk by (auto simp: seq_len_def second_ok_def is_cont_def split: if_splits)
  consider "i = 0" | "0 < i" "i \<le> 3" | "i = 4" using b(1) by linarith
  then show ?thesis using b ijk by cases (simp_all add: is_scalar_def)
qed

lemma scalar_2: "seq_len a = 2 \<Longrightarrow> second_ok a b \<Longrightarrow> is_scalar ((a - 192) * 64 + (b - 128))"
  by (auto simp: seq_len_def second_ok_def is_cont_def is_scalar_def split: if_splits)

lemma scalar_1: "Suc 0 = seq_len a \<Longrightarrow> is_scalar a"
  by (auto simp: seq_len_def is_scalar_def split: if_splits)

lemma seq_len_set: "seq_len a \<in> {0, 1, 2, 3, 4}"
  by (simp add: seq_len_def)

lemma utf8_next_scalar: "utf8_next bs = (Some c, n) \<Longrightarrow> is_scalar c"
  by (cases bs rule: utf8_next.cases)
    (auto split: if_splits dest: scalar_1 scalar_2 intro!: scalar_3 scalar_4)

lemma utf8_items_scalar: "Scalar c \<in> set (utf8_items bs) \<Longrightarrow> is_scalar c"
proof (induction "length bs" arbitrary: bs rule: less_induct)
  case less
  show ?case
  proof (cases bs)
    case (Cons b bs')
    obtain r n where rn: "utf8_next (b # bs') = (r, n)" by fastforce
    then have n: "0 < n" using utf8_next_bounds [of "b # bs'"] by simp
    have "Scalar c \<in> set (utf8_items (drop n (b # bs'))) \<Longrightarrow> is_scalar c"
      using less.hyps [of "drop n (b # bs')"] n Cons by simp
    with less.prems rn Cons utf8_next_scalar show ?thesis by (auto split: option.splits)
  qed (use less.prems in simp)
qed

section \<open>Texts\<close>

definition bytes_of :: "string \<Rightarrow> nat list" where
  "bytes_of s = map of_char s"

definition text_of :: "nat list \<Rightarrow> string" where
  "text_of bs = map char_of bs"

lemma text_of_bytes [simp]: "text_of (bytes_of s) = s"
  by (simp add: text_of_def bytes_of_def comp_def)

lemma bytes_of_text: "\<forall>b\<in>set bs. b < 256 \<Longrightarrow> bytes_of (text_of bs) = bs"
  by (simp add: text_of_def bytes_of_def map_idI)

lemma encode_char_bytes: "is_scalar c \<Longrightarrow> b \<in> set (encode_char c) \<Longrightarrow> b < 256"
proof -
  assume "is_scalar c" "b \<in> set (encode_char c)"
  moreover have "c mod 64 < 64" "c div 64 mod 64 < 64" "c div 4096 mod 64 < 64" by simp_all
  moreover have "c < 2048 \<Longrightarrow> c div 64 < 32" "c < 65536 \<Longrightarrow> c div 4096 < 16"
    "c < 1114112 \<Longrightarrow> c div 262144 < 5"
    by (simp_all add: less_mult_imp_div_less)
  ultimately show ?thesis by (auto simp: encode_char_def is_scalar_def split: if_splits)
qed

lemma bytes_of_encode:
  "\<forall>c\<in>set cs. is_scalar c \<Longrightarrow> bytes_of (text_of (utf8_encode cs)) = utf8_encode cs"
  by (rule bytes_of_text) (use encode_char_bytes in \<open>auto simp: utf8_encode_def\<close>)

definition chars_of :: "string \<Rightarrow> nat list option" where
  "chars_of s = utf8_chars (bytes_of s)"

text \<open>\<open>char::is_whitespace\<close>: the Unicode property \<open>White_Space\<close>.\<close>

definition is_whitespace :: "nat \<Rightarrow> bool" where
  "is_whitespace c =
     ((9 \<le> c \<and> c \<le> 13) \<or> c = 32 \<or> c = 133 \<or> c = 160 \<or> c = 5760 \<or> (8192 \<le> c \<and> c \<le> 8202) \<or>
      c = 8232 \<or> c = 8233 \<or> c = 8239 \<or> c = 8287 \<or> c = 12288)"

text \<open>\<open>char::is_control\<close>: the Unicode category \<open>Cc\<close>.\<close>

definition is_control :: "nat \<Rightarrow> bool" where
  "is_control c = (c < 32 \<or> c = 127 \<or> (128 \<le> c \<and> c < 160))"

end
