(* ===== verification/Json.thy ===== *)
theory Json
  imports Utf8
begin

text \<open>
  The JSON tree of \<open>crates/ai/src/json.rs\<close> and its lenient field readers. The parser is a library
  (\<open>serde_json\<close>), so it is a parameter wherever a definition parses a text; what the visitor makes of
  a number is \<open>json_of_u64\<close>.
\<close>

datatype json =
    JNull
  | JBool bool
  | JInteger int \<comment> \<open>fits \<open>i64\<close>\<close>
  | JUnsigned nat \<comment> \<open>above \<open>i64::MAX\<close>, fits \<open>u64\<close>\<close>
  | JFloat f64
  | JString string
  | JArray "json list"
  | JObject "(string \<times> json) list"

type_synonym json_parser = "string \<Rightarrow> json option"

text \<open>\<open>Malformed\<close> holds nothing, so it is the unit value.\<close>

type_synonym 'a frame = "unit + 'a"

definition json_of_u64 :: "nat \<Rightarrow> json" where
  "json_of_u64 n = (if n < 2 ^ 63 then JInteger (int n) else JUnsigned n)"

text \<open>Text that is not UTF-8 is no JSON document.\<close>

definition parse_bytes :: "json_parser \<Rightarrow> string \<Rightarrow> json option" where
  "parse_bytes parse bs = (case chars_of bs of None \<Rightarrow> None | Some _ \<Rightarrow> parse bs)"

fun json_get :: "json \<Rightarrow> string \<Rightarrow> json option" where
  "json_get (JObject members) key =
     map_option snd (find (\<lambda>m. fst m = key) members)"
| "json_get _ key = None"

definition get_str :: "json \<Rightarrow> string \<Rightarrow> string option" where
  "get_str v key = (case json_get v key of Some (JString t) \<Rightarrow> Some t | _ \<Rightarrow> None)"

definition get_int :: "json \<Rightarrow> string \<Rightarrow> int option" where
  "get_int v key = (case json_get v key of Some (JInteger n) \<Rightarrow> Some n | _ \<Rightarrow> None)"

definition get_index :: "json \<Rightarrow> string \<Rightarrow> nat frame" where
  "get_index v key =
     (case get_int v key of
        None \<Rightarrow> Inl ()
      | Some n \<Rightarrow> if 0 \<le> n \<and> n \<le> int usize_max then Inr (nat n) else Inl ())"

definition get_object :: "json \<Rightarrow> string \<Rightarrow> json option" where
  "get_object v key = (case json_get v key of Some (JObject ms) \<Rightarrow> Some (JObject ms) | _ \<Rightarrow> None)"

definition require_str :: "json \<Rightarrow> string \<Rightarrow> string frame" where
  "require_str v key = (case get_str v key of None \<Rightarrow> Inl () | Some t \<Rightarrow> Inr t)"

definition optional_str :: "json \<Rightarrow> string \<Rightarrow> string option frame" where
  "optional_str v key =
     (case json_get v key of
        None \<Rightarrow> Inr None
      | Some JNull \<Rightarrow> Inr None
      | Some (JString t) \<Rightarrow> Inr (Some t)
      | Some _ \<Rightarrow> Inl ())"

definition json_count :: "json \<Rightarrow> string \<Rightarrow> nat option" where
  "json_count v key =
     (case json_get v key of
        Some (JInteger n) \<Rightarrow> if 0 \<le> n then Some (nat n) else None
      | Some (JUnsigned n) \<Rightarrow> Some n
      | _ \<Rightarrow> None)"

text \<open>The first member of a key wins.\<close>

lemma json_get_Cons:
  "json_get (JObject ((k, v) # ms)) key = (if k = key then Some v else json_get (JObject ms) key)"
  by simp

text \<open>A token count reads back from either form of a number, whole.\<close>

lemma json_count_u64:
  "json_get v key = Some (json_of_u64 n) \<Longrightarrow> json_count v key = Some n"
  by (simp add: json_count_def json_of_u64_def)

end
