(* ===== verification/Retry.thy ===== *)
theory Retry
  imports Tool
begin

text \<open>
  Whether a failed provider attempt repeats, and after which delay: \<open>crates/ai/src/retry.rs\<close>. A
  duration is a natural number of nanoseconds up to \<open>duration_max\<close>. The float product of the jitter
  is a parameter: \<open>scale d x\<close> stands for \<open>Duration::mul_f64(d, x * 0.25)\<close>.
\<close>

definition duration_max :: duration where
  "duration_max = (2 ^ 64 - 1) * 1000000000 + 999999999"

definition from_millis :: "nat \<Rightarrow> duration" where
  "from_millis ms = ms * 1000000"

definition saturating_mul :: "duration \<Rightarrow> nat \<Rightarrow> duration" where
  "saturating_mul d n = min (d * n) duration_max"

record policy =
  max_attempts :: nat
  pol_base :: duration
  pol_cap :: duration
  retry_after_cap :: duration

definition default_policy :: policy where
  "default_policy =
     \<lparr>max_attempts = 5, pol_base = from_millis 500, pol_cap = from_millis 8000,
      retry_after_cap = from_millis 120000\<rparr>"

fun repeatable_kind :: "provider_kind \<Rightarrow> attempt_info \<Rightarrow> bool" where
  "repeatable_kind RateLimited _ = True"
| "repeatable_kind ServerError _ = True"
| "repeatable_kind Conflict _ = True"
| "repeatable_kind PkTimeout info = (info_status info = Some 408)"
| "repeatable_kind RateLimitUnknown info = (retry_after_ms info \<noteq> None)"
| "repeatable_kind AuthFailed _ = False"
| "repeatable_kind PermissionDenied _ = False"
| "repeatable_kind QuotaExhausted _ = False"
| "repeatable_kind BadStatus _ = False"
| "repeatable_kind ContextOverflow _ = False"
| "repeatable_kind ProviderFailed _ = False"

fun repeatable_fault :: "fault \<Rightarrow> bool" where
  "repeatable_fault IdleTimeout = True"
| "repeatable_fault RequestTimeout = True"
| "repeatable_fault ConnectFailed = True"
| "repeatable_fault ConnectTimeout = True"
| "repeatable_fault ConnectionLost = True"
| "repeatable_fault DnsFailed = True"
| "repeatable_fault InvalidRequest = False"
| "repeatable_fault RedirectRefused = False"
| "repeatable_fault BadUrl = False"
| "repeatable_fault MalformedResponse = False"
| "repeatable_fault AnswerTooLarge = False"
| "repeatable_fault TlsSetupFailed = False"
| "repeatable_fault CertificateRejected = False"

fun repeatable :: "failure \<Rightarrow> attempt_info \<Rightarrow> bool" where
  "repeatable (ProviderFailure kind) info = repeatable_kind kind info"
| "repeatable (TransportFailure f) _ = repeatable_fault f"
| "repeatable IncompleteStream _ = True"
| "repeatable ProtocolFailure _ = False"
| "repeatable ResponseTooLarge _ = False"

definition backoff :: "(duration \<Rightarrow> f64 \<Rightarrow> duration) \<Rightarrow> policy \<Rightarrow> nat \<Rightarrow> f64 \<Rightarrow> duration" where
  "backoff scale p number jitter =
     (let shift = min (number - 1) 16;
          capped = min (saturating_mul (pol_base p) (push_bit shift 1)) (pol_cap p)
      in capped - scale capped jitter)"

definition decide ::
  "(duration \<Rightarrow> f64 \<Rightarrow> duration) \<Rightarrow> policy \<Rightarrow> attempt_error \<Rightarrow> nat \<Rightarrow> f64 \<Rightarrow> duration option" where
  "decide scale p e number jitter =
     (let info = ae_info e in
      if output_seen info then None
      else if ae_cause e = ProviderFailure ContextOverflow then None
      else if should_retry info = Some False then None
      else if should_retry info \<noteq> Some True \<and> \<not> repeatable (ae_cause e) info then None
      else if number \<ge> max_attempts p then None
      else
        let computed = backoff scale p number jitter in
        case map_option from_millis (retry_after_ms info) of
          None \<Rightarrow> Some computed
        | Some asked \<Rightarrow> if asked > retry_after_cap p then None else Some (max asked computed))"

lemma backoff_le_cap: "backoff scale p number jitter \<le> pol_cap p"
  by (simp add: backoff_def Let_def le_diff_conv trans_le_add1)

lemma backoff_first:
  "number = 1 \<Longrightarrow> backoff scale p number jitter =
     (let d = min (min (pol_base p) duration_max) (pol_cap p) in d - scale d jitter)"
  by (simp add: backoff_def saturating_mul_def)

text \<open>The delay before the jitter never shrinks from one attempt to the next.\<close>

definition delay_cap :: "policy \<Rightarrow> nat \<Rightarrow> duration" where
  "delay_cap p number = min (saturating_mul (pol_base p) (push_bit (min (number - 1) 16) 1)) (pol_cap p)"

lemma delay_cap_mono: "m \<le> n \<Longrightarrow> delay_cap p m \<le> delay_cap p n"
proof -
  assume "m \<le> n"
  then have "(2::nat) ^ min (m - 1) 16 \<le> 2 ^ min (n - 1) 16"
    by (intro power_increasing) auto
  then have "pol_base p * 2 ^ min (m - 1) 16 \<le> pol_base p * 2 ^ min (n - 1) 16" by simp
  then show ?thesis
    by (simp add: delay_cap_def saturating_mul_def push_bit_eq_mult min.coboundedI1 min_le_iff_disj)
qed

lemma backoff_delay_cap:
  "backoff scale p n jitter = delay_cap p n - scale (delay_cap p n) jitter"
  by (simp add: backoff_def delay_cap_def Let_def)

lemma backoff_lower:
  assumes "scale (delay_cap p n) jitter \<le> delay_cap p n div 4 + 1"
  shows "3 * delay_cap p n \<le> 4 * backoff scale p n jitter + 4"
  using assms unfolding backoff_delay_cap by linarith

lemma decide_Some:
  "decide scale p e number jitter = Some delay \<longleftrightarrow>
     \<not> output_seen (ae_info e) \<and> ae_cause e \<noteq> ProviderFailure ContextOverflow \<and>
     (should_retry (ae_info e) = Some True \<or>
        should_retry (ae_info e) = None \<and> repeatable (ae_cause e) (ae_info e)) \<and>
     number < max_attempts p \<and>
     (case retry_after_ms (ae_info e) of
        None \<Rightarrow> delay = backoff scale p number jitter
      | Some ms \<Rightarrow> from_millis ms \<le> retry_after_cap p \<and>
          delay = max (from_millis ms) (backoff scale p number jitter))"
  by (cases "should_retry (ae_info e)") (auto simp: decide_def Let_def split: option.split)

text \<open>
  C7: a failed attempt repeats only when the caller saw nothing of it, the failure is not an overflow
  of the context window, the provider asks for a retry or the failure can pass and the provider does
  not forbid it, and attempts are left. The delay is at least what the provider asked for, and never
  above the caps of the policy.
\<close>

theorem decide_sound:
  assumes "decide scale p e number jitter = Some delay"
  shows "\<not> output_seen (ae_info e) \<and> ae_cause e \<noteq> ProviderFailure ContextOverflow \<and>
      should_retry (ae_info e) \<noteq> Some False \<and>
      (repeatable (ae_cause e) (ae_info e) \<or> should_retry (ae_info e) = Some True) \<and>
      number < max_attempts p \<and>
      delay \<le> max (pol_cap p) (retry_after_cap p) \<and>
      (case retry_after_ms (ae_info e) of
         None \<Rightarrow> delay \<le> pol_cap p
       | Some ms \<Rightarrow> from_millis ms \<le> delay)"
  using assms backoff_le_cap [of scale p number jitter]
  by (auto simp: decide_Some split: option.splits)

theorem decide_sound_witness:
  "decide (\<lambda>d j. d div 4) default_policy
     \<lparr>ae_cause = ProviderFailure PkTimeout, ae_info = no_info\<lparr>info_status := Some 408, retry_after_ms := Some 2500\<rparr>,
      ae_partial = []\<rparr> 2 0 = Some (from_millis 2500) \<and> from_millis 2500 \<le> max (from_millis 8000) (from_millis 120000)"
proof -
  let ?e = "\<lparr>ae_cause = ProviderFailure PkTimeout, ae_info = no_info\<lparr>info_status := Some 408, retry_after_ms := Some 2500\<rparr>,
      ae_partial = []\<rparr>"
  have d: "decide (\<lambda>d j. d div 4) default_policy ?e 2 0 = Some (from_millis 2500)"
    by (simp add: decide_Some no_info_def default_policy_def from_millis_def backoff_def
        saturating_mul_def duration_max_def push_bit_eq_mult)
  show ?thesis using d decide_sound [OF d] by (simp add: default_policy_def)
qed

end
