(* ===== verification/Failures.thy ===== *)
theory Failures
  imports Json Retry
begin

text \<open>
  What a failed answer means: \<open>crates/ai/src/failure.rs\<close>. The kind of an error comes from the names in
  the body (\<open>fields_of\<close>, \<open>read_fields\<close>, \<open>classify\<close>) and from the status (\<open>by_status\<close>); the detail of
  an error is one clean line (\<open>detail_text\<close>). The JSON parser is a parameter.
\<close>

section \<open>Names and statuses\<close>

definition by_name :: "string \<Rightarrow> provider_kind option" where
  "by_name name =
     (if name = ''context_length_exceeded'' then Some ContextOverflow
      else if name \<in> set [''rate_limit_exceeded'', ''slow_down'', ''rate_limit_error''] then Some RateLimited
      else if name \<in> set [''server_error'', ''server_is_overloaded'', ''api_error'', ''overloaded_error'',
          ''provider_overloaded'', ''provider_unavailable'', ''server''] then Some ServerError
      else if name \<in> set [''timeout'', ''timeout_error''] then Some PkTimeout
      else if name \<in> set [''conflict'', ''conflict_error''] then Some Conflict
      else if name \<in> set [''authentication'', ''authentication_error''] then Some AuthFailed
      else if name \<in> set [''permission_denied'', ''permission_error''] then Some PermissionDenied
      else None)"

definition by_status :: "nat \<Rightarrow> provider_kind" where
  "by_status s =
     (if s = 401 then AuthFailed
      else if s = 402 then QuotaExhausted
      else if s = 403 then PermissionDenied
      else if s = 408 \<or> s = 504 then PkTimeout
      else if s = 409 then Conflict
      else if s = 429 then RateLimitUnknown
      else if 500 \<le> s \<and> s \<le> 599 then ServerError
      else BadStatus)"

definition is_quota_code :: "string \<Rightarrow> bool" where
  "is_quota_code code =
     (code \<in> set [''insufficient_quota'', ''payment_required'', ''billing_error'',
        ''enforced_spend_limit_reached'', ''credit_balance_exhausted'',
        ''organization_usage_limit_exceeded'', ''usage_limit_reached'', ''usage_not_included'',
        ''subscription_sharing_usage_limit_exceeded'', ''FreeUsageLimitError'', ''GoUsageLimitError'',
        ''CreditsError'', ''MonthlyLimitError'', ''UserLimitError'']
      \<or> ends_with ''_spend_limit_exceeded'' code)"

section \<open>The fields of an error answer\<close>

record fields =
  fld_kind :: "string option"
  fld_code :: "string option"
  fld_error_type :: "string option"
  fld_status :: "int option"
  fld_message :: "string option"
  fld_detail_code :: "string option"

definition no_fields :: fields where
  "no_fields = \<lparr>fld_kind = None, fld_code = None, fld_error_type = None, fld_status = None,
                fld_message = None, fld_detail_code = None\<rparr>"

definition or_else :: "'a option \<Rightarrow> 'a option \<Rightarrow> 'a option" where
  "or_else a b = (case a of Some _ \<Rightarrow> a | None \<Rightarrow> b)"

definition fields_of :: "json \<Rightarrow> fields" where
  "fields_of v =
     \<lparr>fld_kind = get_str v ''type'',
      fld_code = get_str v ''code'',
      fld_error_type = or_else (get_str v ''error_type'')
        (case json_get v ''metadata'' of None \<Rightarrow> None | Some m \<Rightarrow> get_str m ''error_type''),
      fld_status = get_int v ''code'',
      fld_message = get_str v ''message'',
      fld_detail_code = (case json_get v ''details'' of None \<Rightarrow> None | Some d \<Rightarrow> get_str d ''error_code'')\<rparr>"

definition read_response :: "json \<Rightarrow> fields option" where
  "read_response root =
     (case json_get root ''response'' of
        Some response \<Rightarrow>
          let f = (case json_get response ''error'' of None \<Rightarrow> no_fields | Some e \<Rightarrow> fields_of e)
          in Some (f\<lparr>fld_error_type := or_else (get_str response ''error_type'') (fld_error_type f)\<rparr>)
      | None \<Rightarrow> if get_str root ''type'' = Some ''error'' then Some (fields_of root) else None)"

definition read_fields :: "json \<Rightarrow> fields option" where
  "read_fields root =
     (case json_get root ''error'' of
        Some (JString t) \<Rightarrow> Some (no_fields\<lparr>fld_message := Some t\<rparr>)
      | Some (JObject ms) \<Rightarrow> Some (fields_of (JObject ms))
      | _ \<Rightarrow> read_response root)"

definition field_names :: "fields \<Rightarrow> string list" where
  "field_names f =
     filter_map (\<lambda>x. x) [fld_code f, fld_error_type f, fld_kind f, fld_detail_code f]"

definition classify :: "fields \<Rightarrow> provider_kind option" where
  "classify f =
     (if list_ex is_quota_code (field_names f) then Some QuotaExhausted
      else case find_map by_name (field_names f) of
        Some k \<Rightarrow> Some k
      | None \<Rightarrow>
          if fld_kind f = Some ''invalid_request_error'' \<and>
             (case fld_message f of None \<Rightarrow> False | Some m \<Rightarrow> starts_with ''prompt is too long'' m)
          then Some ContextOverflow
          else case fld_status f of
            None \<Rightarrow> None
          | Some s \<Rightarrow>
              if s < 0 \<or> s > 65535 then None
              else if s < 400 then None
              else if by_status (nat s) \<noteq> BadStatus then Some (by_status (nat s)) else None)"

text \<open>
  The kind of an answer other than 200, from its status and its body, and of an error event of a
  stream.
\<close>

definition status_kind :: "json_parser \<Rightarrow> nat \<Rightarrow> string option \<Rightarrow> provider_kind" where
  "status_kind parse status body =
     (let named = (case parse_bytes parse (case body of None \<Rightarrow> [] | Some b \<Rightarrow> b) of
                     None \<Rightarrow> None
                   | Some root \<Rightarrow> (case read_fields root of None \<Rightarrow> None | Some f \<Rightarrow> classify f))
      in if named = Some QuotaExhausted then QuotaExhausted
         else if status = 429 then (if named = Some RateLimited then RateLimited else RateLimitUnknown)
         else if by_status status = BadStatus \<and> named = Some ContextOverflow then ContextOverflow
         else by_status status)"

definition event_kind :: "json \<Rightarrow> provider_kind" where
  "event_kind root =
     (case read_fields root of
        None \<Rightarrow> ProviderFailed
      | Some f \<Rightarrow> (case classify f of None \<Rightarrow> ProviderFailed | Some k \<Rightarrow> k))"

section \<open>The detail of an error\<close>

definition describe :: "json \<Rightarrow> string option" where
  "describe root =
     (case read_fields root of
        None \<Rightarrow> None
      | Some f \<Rightarrow>
          (case fld_message f of
             None \<Rightarrow> None
           | Some message \<Rightarrow>
               Some ((case fld_kind f of
                        Some k \<Rightarrow> if k \<noteq> ''error'' then k @ '': '' else []
                      | None \<Rightarrow> []) @ message @
                     (case fld_code f of
                        Some c \<Rightarrow> '' ('' @ c @ '')''
                      | None \<Rightarrow> (case fld_status f of
                                  Some s \<Rightarrow> '' ('' @ show_int s @ '')''
                                | None \<Rightarrow> [])))))"

definition sanitize_chars :: "utf8_item \<Rightarrow> nat list" where
  "sanitize_chars i =
     (case i of Scalar c \<Rightarrow> [if is_control c then 32 else c] | InvalidPart bs \<Rightarrow> map (\<lambda>_. 63) bs)"

definition sanitize :: "string \<Rightarrow> string" where
  "sanitize t = text_of (utf8_encode (concat (map sanitize_chars (utf8_items (bytes_of t)))))"

definition trim_matches :: "('a \<Rightarrow> bool) \<Rightarrow> 'a list \<Rightarrow> 'a list" where
  "trim_matches P xs = trim_end P (dropWhile P xs)"

definition detail_text :: "json_parser \<Rightarrow> string \<Rightarrow> string option" where
  "detail_text parse bs =
     (let described = (case parse_bytes parse bs of None \<Rightarrow> None | Some root \<Rightarrow> describe root);
          clean = trim_matches (\<lambda>c. c = CHR 0x20)
            (sanitize (case described of None \<Rightarrow> bs | Some l \<Rightarrow> l))
      in if clean = [] then None else Some clean)"

section \<open>The text of an error\<close>

fun provider_text :: "provider_kind \<Rightarrow> string" where
  "provider_text AuthFailed = ''the provider rejected the credential''"
| "provider_text PermissionDenied = ''the provider denied permission for this request''"
| "provider_text RateLimited = ''the provider rate limit stopped the request''"
| "provider_text QuotaExhausted = ''the provider account has no quota left''"
| "provider_text RateLimitUnknown = ''the provider returned a 429 response with no known cause''"
| "provider_text ServerError = ''the provider returned a server error''"
| "provider_text BadStatus = ''the provider returned an unexpected status''"
| "provider_text PkTimeout = ''the provider reported a timeout''"
| "provider_text Conflict = ''the provider reported a conflict''"
| "provider_text ContextOverflow = ''the provider reports that the input exceeds the model context window''"
| "provider_text ProviderFailed = ''the provider reported an error''"

fun fault_text :: "fault \<Rightarrow> string" where
  "fault_text IdleTimeout = ''the provider exchange exceeded the idle timeout''"
| "fault_text RequestTimeout = ''the provider exchange exceeded the request timeout''"
| "fault_text ConnectFailed = ''the provider connection failed''"
| "fault_text ConnectTimeout = ''the provider connection did not open in time''"
| "fault_text CertificateRejected = ''the client rejected the TLS certificate of the provider''"
| "fault_text DnsFailed = ''the provider host did not resolve''"
| "fault_text ConnectionLost = ''the provider connection ended''"
| "fault_text RedirectRefused = ''the provider attempted a redirect''"
| "fault_text BadUrl = ''the provider endpoint URL is invalid''"
| "fault_text MalformedResponse = ''the provider sent a malformed response''"
| "fault_text InvalidRequest = ''the request holds an invalid header or too many headers''"
| "fault_text TlsSetupFailed = ''the client could not build its TLS configuration''"
| "fault_text AnswerTooLarge = ''the provider answer exceeds the size limit''"

fun failure_text :: "failure \<Rightarrow> string" where
  "failure_text (ProviderFailure kind) = provider_text kind"
| "failure_text (TransportFailure fault) = fault_text fault"
| "failure_text ProtocolFailure = ''the provider sent a malformed stream''"
| "failure_text ResponseTooLarge = ''the provider response exceeds a configured limit''"
| "failure_text IncompleteStream = ''the provider stream ended early''"

definition attempt_text :: "json_parser \<Rightarrow> attempt_error \<Rightarrow> string" where
  "attempt_text parse e =
     (let info = ae_info e;
          status = (case info_status info of Some s \<Rightarrow> if s \<noteq> 200 then Some s else None | None \<Rightarrow> None)
      in failure_text (ae_cause e) @
         (case (status, request_id info) of
            (Some s, Some r) \<Rightarrow> '' (status '' @ show_nat s @ '', request '' @ r @ '')''
          | (Some s, None) \<Rightarrow> '' (status '' @ show_nat s @ '')''
          | (None, Some r) \<Rightarrow> '' (request '' @ r @ '')''
          | (None, None) \<Rightarrow> []) @
         (case error_body info of
            None \<Rightarrow> []
          | Some body \<Rightarrow>
              (case detail_text parse (map (\<lambda>b. char_of (unat b)) body) of
                 None \<Rightarrow> []
               | Some detail \<Rightarrow> '': '' @ detail)))"

text \<open>No failure has a cause of its own, so the error chain is one text.\<close>

definition attempt_dyn :: "json_parser \<Rightarrow> attempt_error \<Rightarrow> dyn_error" where
  "attempt_dyn parse e = DynError (attempt_text parse e) None"

section \<open>Facts\<close>

lemma classify_quota:
  "n \<in> set (field_names f) \<Longrightarrow> is_quota_code n \<Longrightarrow> classify f = Some QuotaExhausted"
  by (auto simp: classify_def list_ex_iff)

lemma by_name_not_quota: "by_name n \<noteq> Some QuotaExhausted"
  by (simp add: by_name_def)

lemma sanitize_scalar: "c \<in> set (sanitize_chars i) \<Longrightarrow> i \<in> set (utf8_items bs) \<Longrightarrow> is_scalar c"
  using utf8_items_scalar
  by (cases i) (auto simp: sanitize_chars_def is_scalar_def split: if_splits)

lemma sanitize_clean: "c \<in> set (sanitize_chars i) \<Longrightarrow> \<not> is_control c"
  by (cases i) (auto simp: sanitize_chars_def is_control_def split: if_splits)

lemma chars_of_sanitize:
  "chars_of (sanitize t) = Some (concat (map sanitize_chars (utf8_items (bytes_of t))))"
proof -
  have "\<forall>c\<in>set (concat (map sanitize_chars (utf8_items (bytes_of t)))). is_scalar c"
    using sanitize_scalar by fastforce
  then show ?thesis
    unfolding chars_of_def sanitize_def by (simp only: bytes_of_encode utf8_chars_encode)
qed

text \<open>Trimming the spaces of a text trims the characters.\<close>

lemma encode_space_hd: "is_scalar c \<Longrightarrow> hd (encode_char c) = 32 \<longleftrightarrow> c = 32"
  by (auto simp: encode_char_def)

lemma encode_space_last: "is_scalar c \<Longrightarrow> last (encode_char c) = 32 \<longleftrightarrow> c = 32"
  by (auto simp: encode_char_def)

lemma encode_32 [simp]: "encode_char 32 = [32]"
  by (simp add: encode_char_def)

lemma dropWhile_hd: "xs \<noteq> [] \<Longrightarrow> \<not> P (hd xs) \<Longrightarrow> dropWhile P (xs @ ys) = xs @ ys"
  by (cases xs) simp_all

lemma trim_start_encode:
  "\<forall>c\<in>set cs. is_scalar c \<Longrightarrow>
     dropWhile (\<lambda>b. b = 32) (utf8_encode cs) = utf8_encode (dropWhile (\<lambda>c. c = 32) cs)"
proof (induction cs)
  case (Cons c cs)
  show ?case
  proof (cases "c = 32")
    case False
    with Cons.prems have "\<not> hd (encode_char c) = 32" using encode_space_hd by simp
    with False show ?thesis by (simp add: utf8_encode_def dropWhile_hd)
  qed (use Cons in \<open>simp add: utf8_encode_def\<close>)
qed (simp add: utf8_encode_def)

lemma trim_end_encode:
  "\<forall>c\<in>set cs. is_scalar c \<Longrightarrow>
     trim_end (\<lambda>b. b = 32) (utf8_encode cs) = utf8_encode (trim_end (\<lambda>c. c = 32) cs)"
proof (induction cs rule: rev_induct)
  case (snoc c cs)
  show ?case
  proof (cases "c = 32")
    case False
    with snoc.prems have "\<not> hd (rev (encode_char c)) = 32" using encode_space_last by (simp add: hd_rev)
    then have "dropWhile (\<lambda>b. b = 32) (rev (encode_char c) @ rev (utf8_encode cs)) =
        rev (encode_char c) @ rev (utf8_encode cs)"
      by (intro dropWhile_hd) simp_all
    with False show ?thesis by (simp add: utf8_encode_def trim_end_def)
  qed (use snoc in \<open>simp add: utf8_encode_def trim_end_def\<close>)
qed (simp add: utf8_encode_def trim_end_def)

lemma char_of_space: "b < 256 \<Longrightarrow> char_of b = CHR 0x20 \<longleftrightarrow> b = (32::nat)"
  by (simp add: char_of_eq_iff take_bit_eq_mod)

lemma trim_start_text:
  "\<forall>b\<in>set bs. b < 256 \<Longrightarrow>
     dropWhile (\<lambda>c. c = CHR 0x20) (text_of bs) = text_of (dropWhile (\<lambda>b. b = 32) bs)"
  by (induction bs) (simp_all add: text_of_def char_of_space)

lemma trim_end_text:
  assumes "\<forall>b\<in>set bs. b < 256"
  shows "trim_end (\<lambda>c. c = CHR 0x20) (text_of bs) = text_of (trim_end (\<lambda>b. b = 32) bs)"
  using assms trim_start_text [of "rev bs"] by (simp add: trim_end_def text_of_def flip: rev_map)

definition trim_chars :: "nat list \<Rightarrow> nat list" where
  "trim_chars cs = trim_end (\<lambda>c. c = 32) (dropWhile (\<lambda>c. c = 32) cs)"

lemma set_trim_end: "set (trim_end P xs) \<subseteq> set xs"
  using set_dropWhileD [of _ P "rev xs"] by (auto simp: trim_end_def)

lemma set_trim_chars: "set (trim_chars cs) \<subseteq> set cs"
  using set_trim_end [of "\<lambda>c. c = 32"] set_dropWhileD [of _ "\<lambda>c. c = 32" cs]
  by (fastforce simp: trim_chars_def)

lemma encode_bytes: "\<forall>c\<in>set cs. is_scalar c \<Longrightarrow> \<forall>b\<in>set (utf8_encode cs). b < 256"
  using encode_char_bytes by (auto simp: utf8_encode_def)

lemma trim_matches_text:
  assumes "\<forall>c\<in>set cs. is_scalar c"
  shows "trim_matches (\<lambda>c. c = CHR 0x20) (text_of (utf8_encode cs)) = text_of (utf8_encode (trim_chars cs))"
proof -
  have s: "\<forall>c\<in>set (dropWhile (\<lambda>c. c = 32) cs). is_scalar c"
    using assms set_dropWhileD by fastforce
  show ?thesis
    unfolding trim_matches_def trim_chars_def trim_start_text [OF encode_bytes [OF assms]]
      trim_start_encode [OF assms] trim_end_text [OF encode_bytes [OF s]] trim_end_encode [OF s] ..
qed

lemma trim_chars_ends:
  assumes "trim_chars cs \<noteq> []"
  shows "hd (trim_chars cs) \<noteq> 32" "last (trim_chars cs) \<noteq> 32"
proof -
  let ?d = "dropWhile (\<lambda>c. c = 32) cs"
  have r: "rev (trim_chars cs) = dropWhile (\<lambda>c. c = 32) (rev ?d)"
    by (simp add: trim_chars_def trim_end_def)
  then have "hd (rev (trim_chars cs)) \<noteq> 32"
    using assms hd_dropWhile [of "\<lambda>c. c = 32" "rev ?d"] by (metis rev_is_Nil_conv)
  then show "last (trim_chars cs) \<noteq> 32" using assms by (simp add: hd_rev)
  have "suffix (rev (trim_chars cs)) (rev ?d)" unfolding r by (rule suffix_dropWhile)
  then have p: "prefix (trim_chars cs) ?d" by (simp add: suffix_to_prefix)
  then obtain zs where "?d = trim_chars cs @ zs" by (auto simp only: prefix_def)
  then have "hd (trim_chars cs) = hd ?d" "?d \<noteq> []" using assms by (metis hd_append2, metis append_is_Nil_conv)
  then show "hd (trim_chars cs) \<noteq> 32" using hd_dropWhile [of "\<lambda>c. c = 32" cs] by metis
qed

section \<open>Properties\<close>

text \<open>
  whatever bytes a provider sends as an error, the detail of the error is one clean line: valid
  UTF-8 with at least one character, no control character, and no space at either end.
\<close>

theorem detail_text_clean:
  assumes "detail_text parse bs = Some line"
  shows "\<exists>cs. chars_of line = Some cs \<and> cs \<noteq> [] \<and> (\<forall>c\<in>set cs. \<not> is_control c) \<and>
     hd cs \<noteq> 32 \<and> last cs \<noteq> 32"
proof -
  obtain t where t: "line = trim_matches (\<lambda>c. c = CHR 0x20) (sanitize t)" "line \<noteq> []"
    using assms by (auto simp: detail_text_def Let_def split: if_splits)
  define cs where "cs = concat (map sanitize_chars (utf8_items (bytes_of t)))"
  have s: "\<forall>c\<in>set cs. is_scalar c" using sanitize_scalar unfolding cs_def by fastforce
  have l: "line = text_of (utf8_encode (trim_chars cs))"
    unfolding t(1) sanitize_def cs_def [symmetric] by (rule trim_matches_text [OF s])
  have s': "\<forall>c\<in>set (trim_chars cs). is_scalar c" using s set_trim_chars by blast
  have "chars_of line = Some (trim_chars cs)"
    unfolding chars_of_def l by (simp only: bytes_of_encode [OF s'] utf8_chars_encode [OF s'])
  moreover have n: "trim_chars cs \<noteq> []" using t(2) l by (auto simp: utf8_encode_def text_of_def)
  moreover have "\<forall>c\<in>set (trim_chars cs). \<not> is_control c"
    using set_trim_chars [of cs] sanitize_clean unfolding cs_def by fastforce
  ultimately show ?thesis using trim_chars_ends [OF n] by blast
qed

theorem detail_text_clean_witness:
  "detail_text (\<lambda>_. None) [CHR 0x0A, CHR ''n'', CHR ''o''] = Some ''no'' \<and>
   (\<exists>cs. chars_of ''no'' = Some cs \<and> cs \<noteq> [] \<and> (\<forall>c\<in>set cs. \<not> is_control c) \<and> hd cs \<noteq> 32 \<and> last cs \<noteq> 32)"
proof -
  have d: "detail_text (\<lambda>_. None) [CHR 0x0A, CHR ''n'', CHR ''o''] = Some ''no''"
    by (simp add: detail_text_def parse_bytes_def chars_of_def utf8_chars_def bytes_of_def seq_len_def
        sanitize_def sanitize_chars_def is_control_def utf8_encode_def encode_char_def text_of_def
        trim_matches_def trim_end_def char_of_def of_char_def Let_def bit_0)
  show ?thesis using d detail_text_clean [OF d] by simp
qed

text \<open>
  A 429 answer is taken for a passing rate limit exactly when the names in its body prove it, and
  otherwise it is a spent quota or of unknown cause, which only repeats on the advice of the provider.
\<close>

theorem status_kind_429:
  "status_kind parse 429 body \<in> {QuotaExhausted, RateLimited, RateLimitUnknown} \<and>
   (status_kind parse 429 body = RateLimited \<longleftrightarrow>
      (\<exists>root f. parse_bytes parse (case body of None \<Rightarrow> [] | Some b \<Rightarrow> b) = Some root \<and>
         read_fields root = Some f \<and> classify f = Some RateLimited))"
proof -
  define p where "p = parse_bytes parse (case body of None \<Rightarrow> [] | Some b \<Rightarrow> b)"
  have "status_kind parse 429 body \<in> {QuotaExhausted, RateLimited, RateLimitUnknown}"
    by (simp add: status_kind_def Let_def)
  moreover have "status_kind parse 429 body = RateLimited \<longleftrightarrow>
      (\<exists>root f. p = Some root \<and> read_fields root = Some f \<and> classify f = Some RateLimited)"
    unfolding status_kind_def p_def [symmetric] Let_def by (auto split: option.splits)
  ultimately show ?thesis unfolding p_def by blast
qed

text \<open>
  an error whose body names a spent quota anywhere is a spent quota, whatever its status and
  whatever its other names, in an answer as in a stream, and it never repeats unless the provider
  asks for it.
\<close>

theorem quota_wins:
  assumes "parse_bytes parse body = Some root" and "read_fields root = Some f"
    and "n \<in> set (field_names f)" and "is_quota_code n" and "should_retry info \<noteq> Some True"
  shows "status_kind parse status (Some body) = QuotaExhausted \<and> event_kind root = QuotaExhausted \<and>
     decide scale p \<lparr>ae_cause = ProviderFailure (status_kind parse status (Some body)), ae_info = info,
        ae_partial = ps\<rparr> number jitter = None"
proof -
  have c: "classify f = Some QuotaExhausted" using classify_quota assms(3,4) by blast
  have s: "status_kind parse status (Some body) = QuotaExhausted"
    using assms(1,2) c by (simp add: status_kind_def)
  moreover have "event_kind root = QuotaExhausted" using assms(2) c by (simp add: event_kind_def)
  ultimately show ?thesis using assms(5) by (simp add: decide_def Let_def)
qed

theorem quota_wins_witness:
  "status_kind (\<lambda>_. Some (JObject [(''error'', JObject [(''type'', JString ''rate_limit_error''),
       (''code'', JString ''insufficient_quota'')])])) 429 (Some ''{}'') = QuotaExhausted"
proof -
  let ?e = "JObject [(''type'', JString ''rate_limit_error''), (''code'', JString ''insufficient_quota'')]"
  let ?root = "JObject [(''error'', ?e)]"
  have p: "parse_bytes (\<lambda>_. Some ?root) ''{}'' = Some ?root"
    by (simp add: parse_bytes_def chars_of_def utf8_chars_def bytes_of_def seq_len_def)
  have r: "read_fields ?root = Some (fields_of ?e)" by (simp add: read_fields_def)
  have n: "''insufficient_quota'' \<in> set (field_names (fields_of ?e))"
    by (simp add: field_names_def fields_of_def get_str_def)
  have q: "is_quota_code ''insufficient_quota''" by (simp add: is_quota_code_def)
  have i: "should_retry no_info \<noteq> Some True" by (simp add: no_info_def)
  show ?thesis using quota_wins [OF p r n q i] by blast
qed

end
