(* ===== verification/Search.thy ===== *)
theory Search
  imports Json Tool "HOL-Library.Multiset"
begin

text \<open>
  The search of deferred tools, \<open>crates/engine/src/search.rs\<close>: the words of a text with their naive
  singular forms, the BM25 ranking, the tool definitions that a request declares, the search tool and
  the bridge that unwraps a call. What belongs to the standard library and to \<open>serde_json\<close> is a field
  of \<open>search_lib\<close>: the Unicode classes of a character, the float operations, and the three parsers.
  A word is the list of its characters.
\<close>

section \<open>The library\<close>

record search_arguments =
  sa_query :: string
  sa_limit :: "nat option"

record search_lib =
  is_alphanumeric :: "nat \<Rightarrow> bool"
  is_uppercase :: "nat \<Rightarrow> bool"
  is_lowercase :: "nat \<Rightarrow> bool"
  is_numeric :: "nat \<Rightarrow> bool"
  to_lowercase :: "nat \<Rightarrow> nat list"
  fl_of_nat :: "nat \<Rightarrow> f64"
  fl_add :: "f64 \<Rightarrow> f64 \<Rightarrow> f64"
  fl_sub :: "f64 \<Rightarrow> f64 \<Rightarrow> f64"
  fl_mul :: "f64 \<Rightarrow> f64 \<Rightarrow> f64"
  fl_div :: "f64 \<Rightarrow> f64 \<Rightarrow> f64"
  fl_ln :: "f64 \<Rightarrow> f64"
  fl_half :: f64
  fl_k1 :: f64 \<comment> \<open>the literal 1.2\<close>
  fl_b :: f64 \<comment> \<open>the literal 0.75\<close>
  fl_positive :: "f64 \<Rightarrow> bool"
  fl_total_le :: "f64 \<Rightarrow> f64 \<Rightarrow> bool"
  parse_schema :: "string \<Rightarrow> json option"
  parse_search :: "string \<Rightarrow> string + search_arguments"
  parse_call :: "string \<Rightarrow> string + (string \<times> string)"

section \<open>Words\<close>

type_synonym word_chars = "nat list"

definition codes :: "string \<Rightarrow> nat list" where
  "codes t = map of_char t"

definition singular :: "word_chars \<Rightarrow> word_chars" where
  "singular w =
     (if length w > 4 \<and> ends_with (codes ''ies'') w then take (length w - 3) w @ codes ''y''
      else if length w > 4 \<and>
        list_ex (\<lambda>s. ends_with (codes s) w) [''ches'', ''shes'', ''sses'', ''xes'', ''zes'']
        then take (length w - 2) w
      else if length w > 3 \<and> ends_with (codes ''s'') w \<and> \<not> ends_with (codes ''ss'') w
        then take (length w - 1) w
      else w)"

definition push_word :: "word_chars \<Rightarrow> word_chars list \<Rightarrow> word_chars list" where
  "push_word w out = (if length w \<ge> 2 then out @ [singular w] else out)"

fun words_from ::
  "search_lib \<Rightarrow> word_chars \<Rightarrow> bool \<Rightarrow> nat list \<Rightarrow> word_chars list \<Rightarrow> word_chars list" where
  "words_from lib w after_lower [] out = push_word w out"
| "words_from lib w after_lower (c # cs) out =
     (if \<not> is_alphanumeric lib c then words_from lib [] False cs (push_word w out)
      else
        let (w1, out1) = (if is_uppercase lib c \<and> after_lower then ([], push_word w out) else (w, out))
        in words_from lib (w1 @ to_lowercase lib c) (is_lowercase lib c \<or> is_numeric lib c) cs out1)"

text \<open>A \<open>String\<close> is valid UTF-8, so its characters always exist.\<close>

definition text_words :: "search_lib \<Rightarrow> string \<Rightarrow> word_chars list" where
  "text_words lib t = (case chars_of t of None \<Rightarrow> [] | Some cs \<Rightarrow> words_from lib [] False cs [])"

definition property_words :: "search_lib \<Rightarrow> string \<times> json \<Rightarrow> word_chars list" where
  "property_words lib p =
     text_words lib (fst p) @
     (case get_str (snd p) ''description'' of None \<Rightarrow> [] | Some d \<Rightarrow> text_words lib d)"

lemma size_snd_member: "v \<in> snd ` set ms \<Longrightarrow> size v < size (JObject ms)"
proof -
  assume "v \<in> snd ` set ms"
  then obtain k where "(k, v) \<in> set ms" by auto
  then have "size_prod (\<lambda>x. 0) size (k, v) \<le> size_list (size_prod (\<lambda>x. 0) size) ms"
    by (rule size_list_estimation') simp
  then show ?thesis by simp
qed

lemma size_member: "v \<in> set vs \<Longrightarrow> size v < size (JArray vs)"
  using size_list_estimation' [of v vs "size v" size] by simp

function schema_words :: "search_lib \<Rightarrow> json \<Rightarrow> word_chars list" where
  "schema_words lib (JObject ms) =
     (case json_get (JObject ms) ''properties'' of
        Some (JObject ps) \<Rightarrow> concat (map (property_words lib) ps)
      | _ \<Rightarrow> []) @ concat (map (schema_words lib) (map snd ms))"
| "schema_words lib (JArray vs) = concat (map (schema_words lib) vs)"
| "schema_words lib JNull = []"
| "schema_words lib (JBool b) = []"
| "schema_words lib (JInteger i) = []"
| "schema_words lib (JUnsigned n) = []"
| "schema_words lib (JFloat x) = []"
| "schema_words lib (JString t) = []"
  by pat_completeness auto

termination
  by (relation "measure (size \<circ> snd)") (simp_all add: size_snd_member size_member del: json.size)

definition tool_words :: "search_lib \<Rightarrow> tool_definition \<Rightarrow> word_chars list" where
  "tool_words lib d =
     text_words lib (def_name d) @ text_words lib (def_name d) @ text_words lib (def_description d) @
     (case parse_schema lib (def_input_schema d) of None \<Rightarrow> [] | Some s \<Rightarrow> schema_words lib s)"

section \<open>Sorting\<close>

text \<open>\<open>sort_by\<close>: a stable sort by a comparison.\<close>

fun insert_by :: "('a \<Rightarrow> 'a \<Rightarrow> bool) \<Rightarrow> 'a \<Rightarrow> 'a list \<Rightarrow> 'a list" where
  "insert_by le x [] = [x]"
| "insert_by le x (y # ys) = (if le x y then x # y # ys else y # insert_by le x ys)"

definition sort_by :: "('a \<Rightarrow> 'a \<Rightarrow> bool) \<Rightarrow> 'a list \<Rightarrow> 'a list" where
  "sort_by le xs = foldr (insert_by le) xs []"

fun lex_le :: "nat list \<Rightarrow> nat list \<Rightarrow> bool" where
  "lex_le [] ys = True"
| "lex_le (x # xs) [] = False"
| "lex_le (x # xs) (y # ys) = (x < y \<or> x = y \<and> lex_le xs ys)"

section \<open>The ranking\<close>

definition rarity :: "search_lib \<Rightarrow> word_chars list list \<Rightarrow> word_chars \<Rightarrow> f64" where
  "rarity lib documents term =
     (let count = fl_of_nat lib (length documents);
          containing = fl_of_nat lib (length (filter (\<lambda>d. term \<in> set d) documents))
      in fl_ln lib (fl_add lib (fl_of_nat lib 1)
           (fl_div lib (fl_add lib (fl_sub lib count containing) (fl_half lib))
              (fl_add lib containing (fl_half lib)))))"

definition term_score :: "search_lib \<Rightarrow> f64 \<Rightarrow> f64 \<Rightarrow> nat \<Rightarrow> f64 \<Rightarrow> f64" where
  "term_score lib average len n rar =
     (let occurrences = fl_of_nat lib n
      in fl_div lib
           (fl_mul lib (fl_mul lib rar occurrences) (fl_add lib (fl_k1 lib) (fl_of_nat lib 1)))
           (fl_add lib occurrences
              (fl_mul lib (fl_k1 lib)
                 (fl_add lib (fl_sub lib (fl_of_nat lib 1) (fl_b lib))
                    (fl_div lib (fl_mul lib (fl_b lib) len) average)))))"

definition document_score ::
  "search_lib \<Rightarrow> word_chars list list \<Rightarrow> word_chars list \<Rightarrow> word_chars list \<Rightarrow> f64" where
  "document_score lib documents terms d =
     (let average = fl_div lib (fl_of_nat lib (sum_list (map length documents)))
            (fl_of_nat lib (length documents))
      in fold (\<lambda>t score. if t \<in> set d
             then fl_add lib score
               (term_score lib average (fl_of_nat lib (length d)) (count_list d t) (rarity lib documents t))
             else score) terms (fl_of_nat lib 0))"

text \<open>Best score first; equal scores by name.\<close>

definition ranks_before :: "search_lib \<Rightarrow> tool_definition \<times> f64 \<Rightarrow> tool_definition \<times> f64 \<Rightarrow> bool" where
  "ranks_before lib l r =
     (if fl_total_le lib (snd r) (snd l) \<and> fl_total_le lib (snd l) (snd r)
      then lex_le (codes (def_name (fst l))) (codes (def_name (fst r)))
      else fl_total_le lib (snd r) (snd l))"

definition query_terms :: "search_lib \<Rightarrow> string \<Rightarrow> word_chars list" where
  "query_terms lib query = remdups_adj (sort_by lex_le (text_words lib query))"

definition scored_tools ::
  "search_lib \<Rightarrow> word_chars list \<Rightarrow> tool_definition list \<Rightarrow> (tool_definition \<times> f64) list" where
  "scored_tools lib terms tools =
     filter (\<lambda>s. fl_positive lib (snd s))
       (map (\<lambda>t. (t, document_score lib (map (tool_words lib) tools) terms (tool_words lib t))) tools)"

definition bm25 :: "search_lib \<Rightarrow> string \<Rightarrow> tool_definition list \<Rightarrow> nat \<Rightarrow> tool_definition list" where
  "bm25 lib query tools limit =
     (let terms = query_terms lib query
      in if tools = [] \<or> terms = [] then []
         else map fst (take limit (sort_by (ranks_before lib) (scored_tools lib terms tools))))"

section \<open>The declared tools\<close>

definition default_limit :: nat where "default_limit = 5"
definition max_limit :: nat where "max_limit = 20"

definition quote :: "string \<Rightarrow> string" where
  "quote t = [CHR 0x22] @ t @ [CHR 0x22]"

definition json_member :: "string \<Rightarrow> string \<Rightarrow> string" where
  "json_member k v = quote k @ '':'' @ v"

definition json_object :: "string list \<Rightarrow> string" where
  "json_object ms = ''{'' @ join '','' ms @ ''}''"

definition search_schema :: string where
  "search_schema =
     json_object [json_member ''type'' (quote ''object''),
       json_member ''properties'' (json_object
         [json_member ''query'' (json_object [json_member ''type'' (quote ''string''),
            json_member ''description'' (quote ''Keywords that describe the tool.'')]),
          json_member ''limit'' (json_object [json_member ''type'' (quote ''integer''),
            json_member ''minimum'' ''1'', json_member ''maximum'' (show_nat max_limit),
            json_member ''description''
              (quote (''The most matches. The default is '' @ show_nat default_limit @ ''.''))])]),
       json_member ''required'' (''['' @ quote ''query'' @ '']''),
       json_member ''additionalProperties'' ''false'']"

definition call_schema :: string where
  "call_schema =
     json_object [json_member ''type'' (quote ''object''),
       json_member ''properties'' (json_object
         [json_member ''name'' (json_object [json_member ''type'' (quote ''string''),
            json_member ''description'' (quote ''The name of the tool.'')]),
          json_member ''arguments'' (json_object [json_member ''type'' (quote ''object''),
            json_member ''description''
              (quote ''The arguments of the tool, as its input schema says.'')])]),
       json_member ''required'' (''['' @ quote ''name'' @ '','' @ quote ''arguments'' @ '']''),
       json_member ''additionalProperties'' ''false'']"

definition native_search_tool :: tool_definition where
  "native_search_tool =
     \<lparr>def_name = search_tool_name,
      def_description = ''Load deferred tools. The deferred_tools section of the system prompt names them. Search by keywords or by a tool name. Each match becomes callable by its name.'',
      def_input_schema = search_schema, def_defer_loading = False\<rparr>"

definition bridge_search_tool :: tool_definition where
  "bridge_search_tool =
     \<lparr>def_name = search_tool_name,
      def_description = ''Find deferred tools. The deferred_tools section of the system prompt names them. Search by keywords or by a tool name. The result shows each match with its input schema. Call a match with tool_call.'',
      def_input_schema = search_schema, def_defer_loading = False\<rparr>"

definition bridge_call_tool :: tool_definition where
  "bridge_call_tool =
     \<lparr>def_name = tool_call_name,
      def_description = ''Call a deferred tool that tool_search found. Pass its name and its arguments.'',
      def_input_schema = call_schema, def_defer_loading = False\<rparr>"

text \<open>\<open>Declared::tools\<close>; its cells only cache the two lists.\<close>

definition declared_tools :: "toolset \<Rightarrow> bool \<Rightarrow> tool_definition list" where
  "declared_tools ts native =
     (if \<not> has_deferred ts then definitions ts
      else if native then definitions ts @ [native_search_tool]
      else filter (\<lambda>d. \<not> def_defer_loading d) (definitions ts) @ [bridge_search_tool, bridge_call_tool])"

section \<open>The search and the bridge\<close>

definition newline :: string where "newline = [CHR 0x0A]"

text \<open>The error of \<open>parse_arguments\<close>.\<close>

definition invalid_arguments :: "string \<Rightarrow> string" where
  "invalid_arguments e = ''The arguments are not valid: '' @ e"

definition search :: "search_lib \<Rightarrow> toolset \<Rightarrow> tool_call \<Rightarrow> bool \<Rightarrow> tool_result" where
  "search lib ts c native =
     (case parse_search lib (call_arguments c) of
        Inl e \<Rightarrow> result_error (call_id c) (invalid_arguments e)
      | Inr a \<Rightarrow>
          let limit = (case sa_limit a of None \<Rightarrow> default_limit | Some l \<Rightarrow> l) in
          if \<not> (1 \<le> limit \<and> limit \<le> max_limit)
          then result_error (call_id c) (''The limit must be 1 to '' @ show_nat max_limit @ ''.'')
          else
            let found = bm25 lib (sa_query a) (deferred ts) limit in
            if found = [] then
              result_success (call_id c)
                (''No deferred tool matches '' @ quote (sa_query a) @ ''.'')
            else if native then
              with_loaded found
                (result_success (call_id c)
                  (''Loaded '' @ show_nat (length found) @ '' tools. Call each one by its name:'' @ newline @
                   join newline (map (\<lambda>d. ''- '' @ def_name d @ '': '' @ def_description d) found)))
            else
              result_success (call_id c)
                (join (newline @ newline)
                  ((''Found '' @ show_nat (length found) @ '' tools. Call one with tool_call.'') #
                   map (\<lambda>d. ''## '' @ def_name d @ newline @ def_description d @ newline @
                     ''Input schema: '' @ def_input_schema d) found)))"

definition unwrap_call :: "search_lib \<Rightarrow> tool_call \<Rightarrow> tool_result + tool_call" where
  "unwrap_call lib c =
     (case parse_call lib (call_arguments c) of
        Inl e \<Rightarrow> Inl (result_error (call_id c) (invalid_arguments e))
      | Inr (name, arguments) \<Rightarrow>
          Inr \<lparr>call_id = call_id c, call_name = name, call_arguments = arguments\<rparr>)"

section \<open>Facts\<close>

lemma mset_insert_by [simp]: "mset (insert_by le x ys) = add_mset x (mset ys)"
  by (induction ys) simp_all

lemma mset_sort_by [simp]: "mset (sort_by le xs) = mset xs"
  by (induction xs) (simp_all add: sort_by_def)

lemma length_sort_by [simp]: "length (sort_by le xs) = length xs"
  using mset_sort_by [of le xs] by (metis size_mset)

lemma set_sort_by [simp]: "set (sort_by le xs) = set xs"
  using mset_sort_by [of le xs] by (metis set_mset_mset)

lemma sorted_insert_by:
  assumes "transp le" "totalp le" "reflp le" "sorted_wrt le ys"
  shows "sorted_wrt le (insert_by le x ys)"
  using assms(4)
proof (induction ys)
  case (Cons y ys)
  show ?case
  proof (cases "le x y")
    case True
    with Cons.prems show ?thesis by (auto dest: transpD [OF assms(1)])
  next
    case False
    then have "le y x" using assms(2,3) by (metis reflpD totalpD)
    moreover have "set (insert_by le x ys) = insert x (set ys)"
      using mset_insert_by [of le x ys] by (metis set_mset_mset set_mset_add_mset_insert)
    ultimately show ?thesis using Cons False by simp
  qed
qed simp

lemma sorted_sort_by:
  assumes "transp le" "totalp le" "reflp le"
  shows "sorted_wrt le (sort_by le xs)"
  by (induction xs) (simp_all add: sort_by_def sorted_insert_by [OF assms])

lemma search_id: "result_call_id (search lib ts c native) = call_id c"
  by (simp add: search_def Let_def split: sum.split)

lemma unwrap_call_id:
  "unwrap_call lib c = Inl r \<Longrightarrow> result_call_id r = call_id c"
  "unwrap_call lib c = Inr c' \<Longrightarrow> call_id c' = call_id c"
  by (auto simp: unwrap_call_def split: sum.splits prod.splits)

lemma reserved_not_in_toolset:
  assumes "toolset_ok ts" "d \<in> set (definitions ts)"
  shows "def_name d \<noteq> search_tool_name" "def_name d \<noteq> tool_call_name"
  using assms by (force simp: toolset_ok_def check_tool_name_def Let_def split: if_splits)+

lemma bm25_ranked:
  assumes "\<not> fl_positive lib (fl_of_nat lib 0)"
  shows "bm25 lib q tools limit =
     map fst (take limit (sort_by (ranks_before lib) (scored_tools lib (query_terms lib q) tools)))"
  using assms
  by (auto simp: bm25_def Let_def scored_tools_def document_score_def sort_by_def)

lemma bm25_members: "set (bm25 lib q tools limit) \<subseteq> set tools"
proof
  fix t assume "t \<in> set (bm25 lib q tools limit)"
  then obtain s where s: "s \<in> set (take limit (sort_by (ranks_before lib)
      (scored_tools lib (query_terms lib q) tools)))" "t = fst s"
    by (auto simp: bm25_def Let_def split: if_splits)
  then have "s \<in> set (scored_tools lib (query_terms lib q) tools)"
    using in_set_takeD by fastforce
  then show "t \<in> set tools" using s(2) by (auto simp: scored_tools_def)
qed

lemma length_bm25: "length (bm25 lib q tools limit) \<le> limit"
  by (simp add: bm25_def Let_def)

lemma search_loaded:
  "result_loaded (search lib ts c native) =
     (case parse_search lib (call_arguments c) of
        Inl e \<Rightarrow> []
      | Inr a \<Rightarrow>
          let limit = (case sa_limit a of None \<Rightarrow> default_limit | Some l \<Rightarrow> l)
          in if native \<and> 1 \<le> limit \<and> limit \<le> max_limit then bm25 lib (sa_query a) (deferred ts) limit else [])"
  by (simp add: search_def Let_def result_success_def result_error_def with_loaded_def split: sum.split)

lemma lex_le_refl: "lex_le xs xs"
  by (induction xs) simp_all

lemma lex_le_total: "lex_le xs ys \<or> lex_le ys xs"
  by (induction xs ys rule: lex_le.induct) auto

lemma lex_le_trans: "lex_le xs ys \<Longrightarrow> lex_le ys zs \<Longrightarrow> lex_le xs zs"
proof (induction xs ys arbitrary: zs rule: lex_le.induct)
  case (3 x xs y ys)
  then show ?case by (cases zs) auto
qed simp_all

text \<open>A total order of the scores gives a total order of the ranking.\<close>

lemma ranks_before_order:
  assumes "transp (fl_total_le lib)" "totalp (fl_total_le lib)" "reflp (fl_total_le lib)"
  shows "transp (ranks_before lib)" "totalp (ranks_before lib)" "reflp (ranks_before lib)"
proof -
  show "reflp (ranks_before lib)"
    using assms(3) by (auto intro!: reflpI simp: ranks_before_def lex_le_refl dest: reflpD)
  have t: "fl_total_le lib a b \<or> fl_total_le lib b a" for a b
    using totalpD [OF assms(2), of a b] reflpD [OF assms(3), of a] by (cases "a = b") auto
  show "totalp (ranks_before lib)"
  proof (rule totalpI)
    fix l r :: "tool_definition \<times> f64"
    show "ranks_before lib l r \<or> ranks_before lib r l"
      using t [of "snd l" "snd r"] lex_le_total [of "codes (def_name (fst l))" "codes (def_name (fst r))"]
      by (simp add: ranks_before_def) blast
  qed
  show "transp (ranks_before lib)"
  proof (rule transpI)
    fix l m r assume "ranks_before lib l m" "ranks_before lib m r"
    then show "ranks_before lib l r"
      unfolding ranks_before_def
      by (auto split: if_splits intro: transpD [OF assms(1)] lex_le_trans)
  qed
qed

section \<open>Properties\<close>

text \<open>
  no request declares two tools of one name, whatever the tools of the set: the engine adds its
  search tools only under the names that it reserves. A target without a native search never sees a
  deferred tool, and one with a native search sees every tool.
\<close>

theorem declared_tools_distinct:
  assumes "toolset_ok ts"
  shows "distinct (map def_name (declared_tools ts native)) \<and>
     filter def_defer_loading (declared_tools ts False) = [] \<and>
     set (definitions ts) \<subseteq> set (declared_tools ts True)"
proof -
  have d: "distinct (map def_name (definitions ts))" using assms by (simp add: toolset_ok_def)
  have f: "distinct (map def_name (filter P (definitions ts)))" for P
    using d by (simp add: distinct_map_filter)
  have r: "search_tool_name \<notin> def_name ` set (definitions ts)" "tool_call_name \<notin> def_name ` set (definitions ts)"
    using reserved_not_in_toolset [OF assms] by force+
  have n: "def_name native_search_tool = search_tool_name" "def_name bridge_search_tool = search_tool_name"
    "def_name bridge_call_tool = tool_call_name" "search_tool_name \<noteq> tool_call_name"
    "\<not> def_defer_loading bridge_search_tool" "\<not> def_defer_loading bridge_call_tool"
    by (simp_all add: native_search_tool_def bridge_search_tool_def bridge_call_tool_def
        search_tool_name_def tool_call_name_def)
  have "distinct (map def_name (declared_tools ts native))"
    using d f [of "\<lambda>d. \<not> def_defer_loading d"] r n by (auto simp: declared_tools_def image_iff)
  moreover have "filter def_defer_loading (declared_tools ts False) = []"
    using n by (auto simp: declared_tools_def has_deferred_def deferred_def filter_empty_conv)
  moreover have "set (definitions ts) \<subseteq> set (declared_tools ts True)"
    by (auto simp: declared_tools_def)
  ultimately show ?thesis by blast
qed

definition example_tool :: "string \<Rightarrow> bool \<Rightarrow> tool_definition" where
  "example_tool n lazy = \<lparr>def_name = n, def_description = ''reads'', def_input_schema = ''{}'', def_defer_loading = lazy\<rparr>"

definition example_handler :: handler where
  "example_handler =
     \<lparr>h_concurrency = Serial, h_hints = default_hints,
      h_call = (\<lambda>_ _. \<lparr>run_output = [], run_elapsed = 1,
        run_returned = Inr \<lparr>tc_text = ''ok'', tc_media = [], tc_is_error = False, tc_display = []\<rparr>\<rparr>)\<rparr>"

definition example_toolset :: toolset where
  "example_toolset =
     \<lparr>definitions = [example_tool ''read'' False, example_tool ''issue'' True],
      handlers = [example_handler, example_handler], set_hints = [default_hints, default_hints],
      set_folder = None\<rparr>"

lemma example_toolset_ok: "toolset_ok example_toolset"
proof -
  have h: "h_hints example_handler = default_hints" by (simp add: example_handler_def)
  have "check_tool_name ''read'' = Inr ()" "check_tool_name ''issue'' = Inr ()"
    by (simp_all add: check_tool_name_def tool_name_max_def tool_name_character_def is_ascii_alphanumeric_def
        search_tool_name_def tool_call_name_def)
  with h show ?thesis
    by (simp add: toolset_ok_def example_toolset_def example_tool_def less_Suc_eq_0_disj numeral_2_eq_2)
qed

theorem declared_tools_distinct_witness:
  "map def_name (declared_tools example_toolset False) = [''read'', search_tool_name, tool_call_name] \<and>
   distinct (map def_name (declared_tools example_toolset False))"
  using declared_tools_distinct [OF example_toolset_ok, of False]
  by (simp add: declared_tools_def has_deferred_def deferred_def example_toolset_def example_tool_def
      bridge_search_tool_def bridge_call_tool_def)

text \<open>
  a search answers its call, finds only deferred tools, at most as many as the limit and never
  more than twenty, and a result loads tools only on a target with a native search.
\<close>

theorem search_loads_deferred:
  "result_call_id (search lib ts c native) = call_id c \<and>
   set (result_loaded (search lib ts c native)) \<subseteq> set (deferred ts) \<and>
   length (result_loaded (search lib ts c native)) \<le> max_limit \<and>
   result_loaded (search lib ts c False) = []"
proof -
  have m: "\<forall>x\<in>set (bm25 lib q (deferred ts) limit). x \<in> set (deferred ts)" for q limit
    using bm25_members by blast
  have "set (result_loaded (search lib ts c native)) \<subseteq> set (deferred ts)"
    using m by (auto simp: search_loaded Let_def split: sum.splits if_splits)
  moreover have "length (result_loaded (search lib ts c native)) \<le> max_limit"
    by (simp add: search_loaded Let_def order_trans [OF length_bm25] split: sum.split)
  moreover have "result_loaded (search lib ts c False) = []"
    by (simp add: search_loaded split: sum.split)
  ultimately show ?thesis using search_id by blast
qed

text \<open>
  the ranking returns the best matches: with a total order of the scores, the result is a prefix,
  as long as the limit allows, of the tools of positive score sorted by score and then by name, so no
  match that it leaves out ranks before one that it returns.
\<close>

theorem bm25_best:
  assumes "transp (fl_total_le lib)" and "totalp (fl_total_le lib)" and "reflp (fl_total_le lib)"
    and "\<not> fl_positive lib (fl_of_nat lib 0)"
  shows "\<exists>ranked rest. bm25 lib q tools limit = map fst ranked \<and>
     sorted_wrt (ranks_before lib) (ranked @ rest) \<and>
     mset (ranked @ rest) = mset (scored_tools lib (query_terms lib q) tools) \<and>
     length ranked = min limit (length (ranked @ rest))"
proof -
  define sorted where
    "sorted = sort_by (ranks_before lib) (scored_tools lib (query_terms lib q) tools)"
  have "sorted_wrt (ranks_before lib) (take limit sorted @ drop limit sorted)"
    unfolding sorted_def append_take_drop_id
    by (rule sorted_sort_by [OF ranks_before_order [OF assms(1-3)]])
  moreover have "mset (take limit sorted @ drop limit sorted) =
      mset (scored_tools lib (query_terms lib q) tools)"
    unfolding sorted_def append_take_drop_id by (rule mset_sort_by)
  moreover have "bm25 lib q tools limit = map fst (take limit sorted)"
    unfolding sorted_def by (rule bm25_ranked [OF assms(4)])
  ultimately show ?thesis by (intro exI [of _ "take limit sorted"] exI [of _ "drop limit sorted"]) simp
qed

text \<open>A library whose floats are machine words, for the witness.\<close>

definition example_lib :: search_lib where
  "example_lib =
     \<lparr>is_alphanumeric = (\<lambda>c. 97 \<le> c \<and> c \<le> 122), is_uppercase = (\<lambda>_. False), is_lowercase = (\<lambda>_. True),
      is_numeric = (\<lambda>_. False), to_lowercase = (\<lambda>c. [c]), fl_of_nat = of_nat, fl_add = (+), fl_sub = (-),
      fl_mul = (*), fl_div = (div), fl_ln = (\<lambda>x. x), fl_half = 1, fl_k1 = 1, fl_b = 1,
      fl_positive = (\<lambda>x. 0 < x), fl_total_le = (\<le>), parse_schema = (\<lambda>_. None),
      parse_search = (\<lambda>a. Inr \<lparr>sa_query = a, sa_limit = None\<rparr>), parse_call = (\<lambda>a. Inr (''issue'', a))\<rparr>"

theorem bm25_best_witness:
  "\<exists>ranked rest. bm25 example_lib ''issues'' (definitions example_toolset) 1 = map fst ranked \<and>
     sorted_wrt (ranks_before example_lib) (ranked @ rest) \<and>
     mset (ranked @ rest) = mset (scored_tools example_lib (query_terms example_lib ''issues'')
       (definitions example_toolset)) \<and>
     length ranked = min 1 (length (ranked @ rest))"
  by (rule bm25_best)
    (simp_all add: example_lib_def transp_on_le totalp_on_le reflp_on_le)

end
