(* ===== verification/Drive.thy ===== *)
theory Drive
  imports Turn_State Failures Search
begin

text \<open>
  The driver of a turn, \<open>crates/engine/src/drive.rs\<close>, with the hooks of \<open>hooks.rs\<close> and the model of
  \<open>model.rs\<close>. Everything outside the driver is an environment \<open>env\<close>: functions of the moment at which
  the driver asks, so it may answer differently each time. Each question moves the clock on by
  \<open>Suc (env_wait ...)\<close>, so no two questions share a moment. The inbox and the journal also read and
  change a state of their own, of any type. The token is the moment of the cancel:
  \<open>race\<close> gives up a wait that the cancel comes before.

  The calls of one parallel group run side by side: each has its own time line from the common start,
  and the observer sees the events of all lines in the order of their moments.
\<close>

section \<open>The parts of a turn\<close>

record ai_model =
  model_target :: target
  model_source :: "nat \<Rightarrow> dyn_error + credential"
  model_context_window :: "u64 option"

record round_start =
  rs_context :: "block list"
  rs_model :: ai_model
  rs_settings :: settings
  rs_system :: string
  rs_tools :: "tool_definition list"
  rs_input_tokens :: "u64 option"

record round_plan =
  plan_replace :: "replaced option"
  plan_model :: "ai_model option"
  plan_settings :: "settings option"

datatype tool_decision = RunTool | BlockTool string
datatype round_decision = Proceed | StopRound

datatype turn_event =
    ResponseStarted
  | ResponseFailed attempt_error
  | ResponseCancelled "partial_block list"
  | ModelEvent event
  | ToolStarted nat tool_call
  | ToolOutput nat string
  | ToolFinished nat tool_result "display_block list" "duration option"
  | RoundFailed round_error
  | RetryScheduled duration attempt_error

text \<open>
  One reply of the transport: its events in order, how it ends, and the partial blocks that a cancel
  after some of the events keeps.
\<close>

record reply_run =
  rr_events :: "event list"
  rr_finish :: "attempt_error + response"
  rr_cancel :: "nat \<Rightarrow> partial_block list"

record 'w env =
  env_cancel :: "nat option"
  env_wait :: "nat \<Rightarrow> nat"
  env_encode :: "target \<Rightarrow> credential \<Rightarrow> request \<Rightarrow> dyn_error option"
  env_reply :: "nat \<Rightarrow> target \<Rightarrow> credential \<Rightarrow> request \<Rightarrow> reply_run"
  env_random :: "nat \<Rightarrow> f64"
  env_scale :: "duration \<Rightarrow> f64 \<Rightarrow> duration"
  env_before_round :: "nat \<Rightarrow> round_start \<Rightarrow> dyn_error + round_plan"
  env_retry_round :: "nat \<Rightarrow> round_start \<Rightarrow> round_error \<Rightarrow> dyn_error + round_plan option"
  env_before_tool :: "nat \<Rightarrow> tool_call \<Rightarrow> tool_decision"
  env_after_tool :: "nat \<Rightarrow> nat \<Rightarrow> tool_call \<Rightarrow> tool_outcome \<Rightarrow> nat \<times> tool_outcome option"
  env_after_round :: "nat \<Rightarrow> block list \<Rightarrow> finish_reason option \<Rightarrow> dyn_error + round_decision"
  env_inbox :: "nat \<Rightarrow> 'w \<Rightarrow> (dyn_error + block list) \<times> 'w"
  env_commit :: "nat \<Rightarrow> commit \<Rightarrow> 'w \<Rightarrow> dyn_error option \<times> 'w"

record turn_parts =
  tp_model :: ai_model
  tp_toolset :: "toolset option"
  tp_policy :: policy
  tp_has_journal :: bool
  tp_system :: string
  tp_settings :: settings
  tp_session_id :: "string option"
  tp_blobs :: "blob_store option"
  tp_lib :: search_lib
  tp_json :: json_parser

text \<open>
  What the driver did so far: the clock, a log of the events for the observer and of the confirmed
  commits in their order, and the state of the inbox and the journal, which only they read or change.
\<close>

record 'w io =
  io_now :: nat
  io_log :: "(turn_event + commit) list"
  io_world :: 'w

definition io_events :: "'w io \<Rightarrow> turn_event list" where
  "io_events io = filter_map (\<lambda>x. case x of Inl ev \<Rightarrow> Some ev | Inr _ \<Rightarrow> None) (io_log io)"

definition io_journal :: "'w io \<Rightarrow> commit list" where
  "io_journal io = filter_map (\<lambda>x. case x of Inl _ \<Rightarrow> None | Inr c \<Rightarrow> Some c) (io_log io)"

datatype turn_error = TurnRound round_error | TurnCommit dyn_error

text \<open>The text of the error of a turn and its cause.\<close>

fun turn_error_dyn :: "turn_error \<Rightarrow> dyn_error" where
  "turn_error_dyn (TurnRound e) = round_dyn e"
| "turn_error_dyn (TurnCommit e) = DynError ''the journal failed to save the turn'' (Some e)"

text \<open>The hooks of a driver without hooks, and a turn without an inbox.\<close>

definition empty_plan :: round_plan where
  "empty_plan = \<lparr>plan_replace = None, plan_model = None, plan_settings = None\<rparr>"

definition no_hooks :: "'w env \<Rightarrow> 'w env" where
  "no_hooks e =
     e\<lparr>env_before_round := (\<lambda>_ _. Inr empty_plan), env_retry_round := (\<lambda>_ _ _. Inr None),
       env_before_tool := (\<lambda>_ _. RunTool), env_after_tool := (\<lambda>_ _ _ _. (0, None)),
       env_after_round := (\<lambda>_ _ _. Inr Proceed)\<rparr>"

definition no_input :: "'w env \<Rightarrow> 'w env" where
  "no_input e = e\<lparr>env_inbox := (\<lambda>_ w. (Inr [], w))\<rparr>"

definition new_io :: "'w \<Rightarrow> 'w io" where
  "new_io w = \<lparr>io_now = 0, io_log = [], io_world = w\<rparr>"

definition emit :: "turn_event \<Rightarrow> 'w io \<Rightarrow> 'w io" where
  "emit ev io = io\<lparr>io_log := io_log io @ [Inl ev]\<rparr>"

definition emit_all :: "turn_event list \<Rightarrow> 'w io \<Rightarrow> 'w io" where
  "emit_all evs io = io\<lparr>io_log := io_log io @ map Inl evs\<rparr>"

definition confirm :: "commit \<Rightarrow> 'w io \<Rightarrow> 'w io" where
  "confirm c io = io\<lparr>io_log := io_log io @ [Inr c]\<rparr>"

section \<open>Waiting\<close>

datatype 'a raced = RaceDone 'a | RaceCancelled

definition is_cancelled :: "'w env \<Rightarrow> nat \<Rightarrow> bool" where
  "is_cancelled e t = (case env_cancel e of None \<Rightarrow> False | Some c \<Rightarrow> c \<le> t)"

definition done_at :: "'w env \<Rightarrow> nat \<Rightarrow> nat" where
  "done_at e t = Suc (t + env_wait e t)"

text \<open>The moment of a cancel that ends a wait from \<open>t\<close> to \<open>t'\<close>: each poll checks the cancel first.\<close>

definition cancel_by :: "'w env \<Rightarrow> nat \<Rightarrow> nat \<Rightarrow> nat option" where
  "cancel_by e t t' =
     (case env_cancel e of None \<Rightarrow> None | Some c \<Rightarrow> if c \<le> t' then Some (max t c) else None)"

definition race :: "'w env \<Rightarrow> (nat \<Rightarrow> 'a) \<Rightarrow> 'w io \<Rightarrow> 'a raced \<times> 'w io" where
  "race e work io =
     (let t = io_now io; t' = done_at e t in
      case cancel_by e t t' of
        Some c \<Rightarrow> (RaceCancelled, io\<lparr>io_now := c\<rparr>)
      | None \<Rightarrow> (RaceDone (work t), io\<lparr>io_now := t'\<rparr>))"

text \<open>A wait that no cancel ends.\<close>

definition await :: "'w env \<Rightarrow> (nat \<Rightarrow> 'a) \<Rightarrow> 'w io \<Rightarrow> 'a \<times> 'w io" where
  "await e work io = (work (io_now io), io\<lparr>io_now := done_at e (io_now io)\<rparr>)"

text \<open>A call of the inbox or the journal, which no cancel ends either.\<close>

definition await_world :: "'w env \<Rightarrow> (nat \<Rightarrow> 'w \<Rightarrow> 'a \<times> 'w) \<Rightarrow> 'w io \<Rightarrow> 'a \<times> 'w io" where
  "await_world e work io =
     (let (x, w) = work (io_now io) (io_world io)
      in (x, io\<lparr>io_now := done_at e (io_now io), io_world := w\<rparr>))"

section \<open>Calls after the bridge\<close>

record resolved =
  rv_block_index :: nat
  rv_call :: tool_call
  rv_result :: "tool_result option"

definition parts_toolset :: "turn_parts \<Rightarrow> toolset" where
  "parts_toolset p = (case tp_toolset p of None \<Rightarrow> new_toolset | Some ts \<Rightarrow> ts)"

definition searches :: "turn_parts \<Rightarrow> bool" where
  "searches p = (case tp_toolset p of None \<Rightarrow> False | Some ts \<Rightarrow> has_deferred ts)"

definition resolve :: "turn_parts \<Rightarrow> nat \<Rightarrow> tool_call \<Rightarrow> resolved" where
  "resolve p i c =
     (if call_name c = tool_call_name \<and> searches p then
        (case unwrap_call (tp_lib p) c of
           Inr real \<Rightarrow> \<lparr>rv_block_index = i, rv_call = real, rv_result = None\<rparr>
         | Inl refused \<Rightarrow> \<lparr>rv_block_index = i, rv_call = c, rv_result = Some refused\<rparr>)
      else \<lparr>rv_block_index = i, rv_call = c, rv_result = None\<rparr>)"

definition is_search :: "turn_parts \<Rightarrow> tool_call \<Rightarrow> bool" where
  "is_search p c = (call_name c = search_tool_name \<and> searches p)"

definition call_concurrency :: "turn_parts \<Rightarrow> resolved \<Rightarrow> concurrency" where
  "call_concurrency p r =
     (if rv_result r \<noteq> None \<or> is_search p (rv_call r) then Parallel
      else case tp_toolset p of None \<Rightarrow> Parallel | Some ts \<Rightarrow> toolset_concurrency ts (call_name (rv_call r)))"

text \<open>The tool calls of a commit with their block indexes.\<close>

definition indexed_calls :: "block list \<Rightarrow> (nat \<times> tool_call) list" where
  "indexed_calls bs =
     filter_map (\<lambda>(i, b). case b of ToolCall c \<Rightarrow> Some (i, c) | _ \<Rightarrow> None) (enumerate 0 bs)"

definition call_display :: "turn_parts \<Rightarrow> block list \<Rightarrow> call_display list" where
  "call_display p bs =
     map (\<lambda>(i, c). \<lparr>cd_block_index = i,
         cd_hints = hints_of (parts_toolset p) (call_name (rv_call (resolve p i c))),
         cd_folder = set_folder (parts_toolset p)\<rparr>) (indexed_calls bs)"

section \<open>Saving\<close>

definition saved_commit :: "turn_parts \<Rightarrow> commit \<Rightarrow> commit" where
  "saved_commit p c =
     (let calls = call_display p (commit_blocks c)
      in if calls = [] then c
         else c\<lparr>commit_display := \<lparr>disp_calls = calls, disp_results = disp_results (commit_display c)\<rparr>\<rparr>)"

definition save :: "turn_parts \<Rightarrow> 'w env \<Rightarrow> commit \<Rightarrow> 'w io \<Rightarrow> (dyn_error + unit) \<times> 'w io" where
  "save p e c io =
     (if \<not> tp_has_journal p then (Inr (), io)
      else
        let c' = saved_commit p c;
            (err, io1) = await_world e (\<lambda>t. env_commit e t c') io
        in case err of
             Some x \<Rightarrow> (Inl x, io1)
           | None \<Rightarrow> (Inr (), confirm c' io1))"

definition save_opt :: "turn_parts \<Rightarrow> 'w env \<Rightarrow> commit option \<Rightarrow> 'w io \<Rightarrow> (dyn_error + unit) \<times> 'w io" where
  "save_opt p e c io = (case c of None \<Rightarrow> (Inr (), io) | Some c' \<Rightarrow> save p e c' io)"

section \<open>A request\<close>

datatype sent =
    Answered response origin bool
  | SentFailed round_error
  | SentCancelled "partial list"

definition request_of :: "turn_parts \<Rightarrow> block list \<Rightarrow> tool_definition list \<Rightarrow> settings \<Rightarrow> request" where
  "request_of p context tools st =
     (let r = (new_request context)\<lparr>rq_system := tp_system p, rq_tools := tools, rq_settings := st\<rparr>;
          r1 = (case tp_session_id p of None \<Rightarrow> r | Some i \<Rightarrow> r\<lparr>rq_session_id := Some i\<rparr>)
      in case tp_blobs p of None \<Rightarrow> r1 | Some b \<Rightarrow> r1\<lparr>rq_blobs := Some b\<rparr>)"

text \<open>The events of a reply up to its end, or the count of events before the cancel.\<close>

fun reply_events :: "'w env \<Rightarrow> event list \<Rightarrow> nat \<Rightarrow> 'w io \<Rightarrow> nat option \<times> 'w io" where
  "reply_events e [] n io =
     (case race e (\<lambda>_. ()) io of
        (RaceDone _, io1) \<Rightarrow> (None, io1)
      | (RaceCancelled, io1) \<Rightarrow> (Some n, io1))"
| "reply_events e (ev # evs) n io =
     (case race e (\<lambda>_. ()) io of
        (RaceDone _, io1) \<Rightarrow> reply_events e evs (Suc n) (emit (ModelEvent ev) io1)
      | (RaceCancelled, io1) \<Rightarrow> (Some n, io1))"

definition kept_partials :: "partial_block list \<Rightarrow> partial_block list" where
  "kept_partials bs = filter (\<lambda>b. case pb_content b of PartialReasoning _ \<Rightarrow> False | _ \<Rightarrow> True) bs"

text \<open>What one attempt leads to: the end of the request, or the wait before the next attempt.\<close>

datatype attempted = Ended sent | Again

definition attempt :: "turn_parts \<Rightarrow> 'w env \<Rightarrow> ai_model \<Rightarrow> request \<Rightarrow> nat \<Rightarrow> 'w io \<Rightarrow> attempted \<times> 'w io" where
  "attempt p e m rq number io =
     (case race e (model_source m) io of
        (RaceCancelled, io1) \<Rightarrow> (Ended (SentCancelled []), io1)
      | (RaceDone (Inl err), io1) \<Rightarrow> (Ended (SentFailed (RoundCredential err)), io1)
      | (RaceDone (Inr cred), io1) \<Rightarrow>
          (case env_encode e (model_target m) cred rq of
             Some err \<Rightarrow> (Ended (SentFailed (RoundModel (AiEncode err))), io1)
           | None \<Rightarrow>
               (case race e (\<lambda>t. env_reply e t (model_target m) cred rq) (emit ResponseStarted io1) of
                  (RaceCancelled, io2) \<Rightarrow> (Ended (SentCancelled []), emit (ResponseCancelled []) io2)
                | (RaceDone rr, io2) \<Rightarrow>
                    (case reply_events e (rr_events rr) 0 io2 of
                       (Some n, io3) \<Rightarrow>
                         (let blocks = kept_partials (rr_cancel rr n)
                          in (Ended (SentCancelled (map pb_content blocks)), emit (ResponseCancelled blocks) io3))
                     | (None, io3) \<Rightarrow>
                         (case await e (\<lambda>_. rr_finish rr) io3 of
                            (Inr resp, io4) \<Rightarrow>
                              (Ended (Answered resp (origin_of (model_target m)) (tool_search (model_target m))), io4)
                          | (Inl err, io4) \<Rightarrow>
                              (let io5 = emit (ResponseFailed err) io4 in
                               case decide (env_scale e) (tp_policy p) err number (env_random e (io_now io5)) of
                                 None \<Rightarrow>
                                   (Ended (SentFailed (RoundModel (AiAttempt err (attempt_dyn (tp_json p) err)))), io5)
                               | Some delay \<Rightarrow>
                                   (case race e (\<lambda>_. ()) (emit (RetryScheduled delay err) io5) of
                                      (RaceCancelled, io6) \<Rightarrow> (Ended (SentCancelled []), io6)
                                    | (RaceDone _, io6) \<Rightarrow> (Again, io6))))))))"

lemma attempt_again: "attempt p e m rq number io = (Again, io') \<Longrightarrow> number < max_attempts (tp_policy p)"
  by (auto simp: attempt_def decide_Some Let_def split: raced.splits prod.splits sum.splits option.splits)

text \<open>The loop ends because \<open>decide\<close> counts the attempts.\<close>

function send :: "turn_parts \<Rightarrow> 'w env \<Rightarrow> ai_model \<Rightarrow> request \<Rightarrow> nat \<Rightarrow> 'w io \<Rightarrow> sent \<times> 'w io" where
  "send p e m rq number io =
     (case attempt p e m rq number io of
        (Ended s, io1) \<Rightarrow> (s, io1)
      | (Again, io1) \<Rightarrow> send p e m rq (number + 1) io1)"
  by pat_completeness auto
termination
  by (relation "measure (\<lambda>(p, e, m, rq, number, io). max_attempts (tp_policy p) - number)")
    (auto dest: sym [THEN attempt_again])

declare send.simps [simp del]

text \<open>\<open>Driver::request\<close>: one request without hooks, journal or observer.\<close>

definition driver_request ::
  "turn_parts \<Rightarrow> 'w env \<Rightarrow> request \<Rightarrow> 'w io \<Rightarrow> (round_error + response option) \<times> 'w io" where
  "driver_request p e rq io =
     (let (sent, io1) = send p e (tp_model p) rq 1 io;
          io2 = io1\<lparr>io_log := io_log io\<rparr>
      in case sent of
           Answered resp _ _ \<Rightarrow> (Inr (Some resp), io2)
         | SentFailed err \<Rightarrow> (Inl err, io2)
         | SentCancelled _ \<Rightarrow> (Inr None, io2))"

section \<open>A round\<close>

definition round_start_of ::
  "turn_parts \<Rightarrow> turn_state \<Rightarrow> ai_model \<Rightarrow> settings \<Rightarrow> tool_definition list \<Rightarrow> round_start" where
  "round_start_of p s m st tools =
     \<lparr>rs_context = ts_context s, rs_model = m, rs_settings = st, rs_system = tp_system p,
      rs_tools = tools, rs_input_tokens = ts_input_tokens s\<rparr>"

text \<open>A replacement with no head that keeps every block changes nothing.\<close>

definition replacement_changes :: "turn_state \<Rightarrow> replaced \<Rightarrow> bool" where
  "replacement_changes s r = (rep_head r \<noteq> [] \<or> rep_keep r < length (ts_context s))"

definition apply_plan ::
  "turn_parts \<Rightarrow> 'w env \<Rightarrow> round_plan \<Rightarrow> turn_state \<Rightarrow> 'w io \<Rightarrow> (dyn_error + unit) \<times> turn_state \<times> 'w io" where
  "apply_plan p e plan s io =
     (case plan_replace plan of
        None \<Rightarrow> (Inr (), s, io)
      | Some r \<Rightarrow>
          if replacement_changes s r then
            (let (c, s1) = replace_turn r s; (saved, io1) = save p e c io in (saved, s1, io1))
          else (Inr (), s, io))"

definition or_default :: "'a option \<Rightarrow> 'a \<Rightarrow> 'a" where
  "or_default a d = (case a of None \<Rightarrow> d | Some x \<Rightarrow> x)"

text \<open>
  One pass of the loop of \<open>send_round\<close>: the end of the round, or the plan of the hook that sends it
  again. A failed save ends the turn, so it is an error of its own.
\<close>

datatype round_pass = RoundSaveFailed dyn_error | RoundSent sent | RoundAgain round_plan

definition round_pass ::
  "turn_parts \<Rightarrow> 'w env \<Rightarrow> round_plan \<Rightarrow> turn_state \<Rightarrow> 'w io \<Rightarrow> round_pass \<times> turn_state \<times> 'w io" where
  "round_pass p e plan s io =
     (case apply_plan p e plan s io of
        (Inl err, s1, io1) \<Rightarrow> (RoundSaveFailed err, s1, io1)
      | (Inr _, s1, io1) \<Rightarrow>
          (let m = or_default (plan_model plan) (tp_model p);
               st = or_default (plan_settings plan) (tp_settings p);
               tools = declared_tools (parts_toolset p) (tool_search (model_target m));
               (sent, io2) = send p e m (request_of p (ts_context s1) tools st) 1 io1
           in case sent of
                SentFailed err \<Rightarrow>
                  (case race e (\<lambda>t. env_retry_round e t (round_start_of p s1 m st tools) err)
                      (emit (RoundFailed err) io2) of
                     (RaceDone (Inr (Some plan')), io3) \<Rightarrow> (RoundAgain plan', s1, io3)
                   | (RaceDone (Inr None), io3) \<Rightarrow> (RoundSent (SentFailed err), s1, io3)
                   | (RaceDone (Inl hook), io3) \<Rightarrow>
                       (RoundSent (SentFailed (RoundHook hook (Some err))), s1, io3)
                   | (RaceCancelled, io3) \<Rightarrow> (RoundSent (SentCancelled []), s1, io3))
              | _ \<Rightarrow> (RoundSent sent, s1, io2)))"

text \<open>The hook may send the round again without end, so the loop takes fuel.\<close>

fun round_loop ::
  "nat \<Rightarrow> turn_parts \<Rightarrow> 'w env \<Rightarrow> round_plan \<Rightarrow> turn_state \<Rightarrow> 'w io \<Rightarrow>
     ((dyn_error + sent) \<times> turn_state \<times> 'w io) option" where
  "round_loop 0 p e plan s io = None"
| "round_loop (Suc n) p e plan s io =
     (case round_pass p e plan s io of
        (RoundSaveFailed err, s1, io1) \<Rightarrow> Some (Inl err, s1, io1)
      | (RoundSent sent, s1, io1) \<Rightarrow> Some (Inr sent, s1, io1)
      | (RoundAgain plan', s1, io1) \<Rightarrow> round_loop n p e plan' s1 io1)"

definition send_round ::
  "nat \<Rightarrow> turn_parts \<Rightarrow> 'w env \<Rightarrow> turn_state \<Rightarrow> 'w io \<Rightarrow> ((dyn_error + sent) \<times> turn_state \<times> 'w io) option" where
  "send_round fuel p e s io =
     (let tools = declared_tools (parts_toolset p) (tool_search (model_target (tp_model p)));
          start = round_start_of p s (tp_model p) (tp_settings p) tools
      in case race e (\<lambda>t. env_before_round e t start) io of
           (RaceDone (Inr plan), io1) \<Rightarrow> round_loop fuel p e plan s io1
         | (RaceDone (Inl err), io1) \<Rightarrow> Some (Inr (SentFailed (RoundHook err None)), s, io1)
         | (RaceCancelled, io1) \<Rightarrow> Some (Inr (SentCancelled []), s, io1))"

section \<open>The tools of an answer\<close>

function call_groups :: "(resolved \<Rightarrow> bool) \<Rightarrow> resolved list \<Rightarrow> resolved list list" where
  "call_groups par [] = []"
| "call_groups par (r # rs) =
     (if par r then (r # takeWhile par rs) # call_groups par (dropWhile par rs)
      else [r] # call_groups par rs)"
  by pat_completeness auto
termination
  by (relation "measure (\<lambda>(par, rs). length rs)") (auto simp: length_dropWhile_le less_Suc_eq_le)

text \<open>The hooks of a group, in call order, before any call starts.\<close>

definition ask_hook :: "'w env \<Rightarrow> resolved \<Rightarrow> 'w io \<Rightarrow> resolved \<times> 'w io" where
  "ask_hook e r io =
     (let io1 = emit (ToolStarted (rv_block_index r) (rv_call r)) io;
          (result, io2) =
            (case rv_result r of
               Some x \<Rightarrow> (Some x, io1)
             | None \<Rightarrow>
                 (case race e (\<lambda>t. env_before_tool e t (rv_call r)) io1 of
                    (RaceDone RunTool, io2) \<Rightarrow> (None, io2)
                  | (RaceDone (BlockTool reason), io2) \<Rightarrow> (Some (result_error (call_id (rv_call r)) reason), io2)
                  | (RaceCancelled, io2) \<Rightarrow> (Some (not_executed (rv_call r) cancelled_reason), io2)));
          io3 = (case result of
                   Some x \<Rightarrow> emit (ToolFinished (rv_block_index r) x [] None) io2
                 | None \<Rightarrow> io2)
      in (r\<lparr>rv_result := result\<rparr>, io3))"

fun ask_hooks :: "'w env \<Rightarrow> resolved list \<Rightarrow> 'w io \<Rightarrow> resolved list \<times> 'w io" where
  "ask_hooks e [] io = ([], io)"
| "ask_hooks e (r # rs) io =
     (let (r', io1) = ask_hook e r io; (rs', io2) = ask_hooks e rs io1 in (r' # rs', io2))"

text \<open>
  The time line of one call of a group: its outcome, the moment of its end, and its events with their
  moments.
\<close>

record lane =
  lane_finished :: finished
  lane_end :: nat
  lane_events :: "(nat \<times> turn_event) list"

definition after_tool :: "'w env \<Rightarrow> nat \<Rightarrow> nat \<Rightarrow> tool_call \<Rightarrow> tool_outcome \<Rightarrow> tool_outcome \<times> nat" where
  "after_tool e t i c o' =
     (let (wait, answer) = env_after_tool e t i c o'; t' = Suc (t + wait) in
      case cancel_by e t t' of
        Some d \<Rightarrow> (o', d)
      | None \<Rightarrow> ((case answer of Some replacement \<Rightarrow> replacement | None \<Rightarrow> o'), t'))"

definition run_call :: "turn_parts \<Rightarrow> 'w env \<Rightarrow> bool \<Rightarrow> nat \<Rightarrow> nat \<Rightarrow> tool_call \<Rightarrow> lane" where
  "run_call p e native t i c =
     (let (f, t', outputs) =
        (if is_cancelled e t then (finished_of_result (not_executed c cancelled_reason), t, [])
         else
           let (f0, output) =
             (if is_search p c
              then (finished_of_result (search (tp_lib p) (parts_toolset p) c native), [])
              else toolset_call (parts_toolset p) c
                     \<lparr>tx_block_index = i, tx_call_id = call_id c, tx_now = t\<rparr>);
             t1 = t + (case fin_duration f0 of None \<Rightarrow> 0 | Some d \<Rightarrow> d);
             (o', t2) = after_tool e t1 i c (fin_outcome f0)
           in (\<lparr>fin_outcome = o', fin_duration = fin_duration f0\<rparr>, t2,
               map (\<lambda>(d, text). (min (t + d) t1, ToolOutput i text)) output))
      in \<lparr>lane_finished = f, lane_end = t',
          lane_events = outputs @ [(t', ToolFinished i (out_result (fin_outcome f)) (out_display (fin_outcome f))
            (fin_duration f))]\<rparr>)"

definition lane_of :: "turn_parts \<Rightarrow> 'w env \<Rightarrow> bool \<Rightarrow> nat \<Rightarrow> resolved \<Rightarrow> lane" where
  "lane_of p e native t r =
     (case rv_result r of
        Some x \<Rightarrow> \<lparr>lane_finished = finished_of_result x, lane_end = t, lane_events = []\<rparr>
      | None \<Rightarrow> run_call p e native t (rv_block_index r) (rv_call r))"

definition call_group :: "turn_parts \<Rightarrow> 'w env \<Rightarrow> bool \<Rightarrow> resolved list \<Rightarrow> 'w io \<Rightarrow> finished list \<times> 'w io" where
  "call_group p e native calls io =
     (let (asked, io1) = ask_hooks e calls io;
          lanes = map (lane_of p e native (io_now io1)) asked;
          events = map snd (sort_key fst (concat (map lane_events lanes)))
      in (map lane_finished lanes,
          (emit_all events io1)\<lparr>io_now := fold max (map lane_end lanes) (io_now io1)\<rparr>))"

fun call_all :: "turn_parts \<Rightarrow> 'w env \<Rightarrow> bool \<Rightarrow> resolved list list \<Rightarrow> 'w io \<Rightarrow> finished list \<times> 'w io" where
  "call_all p e native [] io = ([], io)"
| "call_all p e native (g # gs) io =
     (let (fs, io1) = call_group p e native g io; (fs', io2) = call_all p e native gs io1 in (fs @ fs', io2))"

definition call_tools :: "turn_parts \<Rightarrow> 'w env \<Rightarrow> block list \<Rightarrow> bool \<Rightarrow> 'w io \<Rightarrow> finished list \<times> 'w io" where
  "call_tools p e bs native io =
     call_all p e native
       (call_groups (\<lambda>r. call_concurrency p r = Parallel) (map (\<lambda>(i, c). resolve p i c) (indexed_calls bs))) io"

section \<open>The turn\<close>

text \<open>
  One pass of the loop of \<open>Turn::run\<close> without the save of the commit: the next action, the new state
  and whether the target that answered searches natively. \<open>None\<close> only when the fuel of a round ends.
\<close>

definition answer_sent :: "sent \<Rightarrow> bool \<Rightarrow> turn_state \<Rightarrow> (action \<times> turn_state) \<times> bool" where
  "answer_sent sent native s =
     (case sent of
        Answered resp og native' \<Rightarrow> (model_finished (resp_completion resp) og s, native')
      | SentFailed err \<Rightarrow> (fail_turn err s, native)
      | SentCancelled ps \<Rightarrow> (model_cancelled ps s, native))"

definition after_answer ::
  "'w env \<Rightarrow> block list \<Rightarrow> finish_reason option \<Rightarrow> turn_state \<Rightarrow> 'w io \<Rightarrow> (action \<times> turn_state) \<times> 'w io" where
  "after_answer e context reason s io =
     (case race e (\<lambda>t. env_after_round e t context reason) io of
        (RaceDone (Inr Proceed), io1) \<Rightarrow>
          (case await_world e (env_inbox e) io1 of
             (Inr input, io2) \<Rightarrow> (proceed_turn input s, io2)
           | (Inl err, io2) \<Rightarrow> (fail_turn (RoundInbox err) s, io2))
      | (RaceDone (Inr StopRound), io1) \<Rightarrow> (stop_turn s, io1)
      | (RaceDone (Inl err), io1) \<Rightarrow> (fail_turn (RoundHook err None) s, io1)
      | (RaceCancelled, io1) \<Rightarrow> (cancel_turn s, io1))"

definition finish_tools :: "'w env \<Rightarrow> finished list \<Rightarrow> turn_state \<Rightarrow> 'w io \<Rightarrow> action \<times> turn_state" where
  "finish_tools e fs s io =
     (if is_cancelled e (io_now io) then tools_cancelled fs s else tools_finished fs s)"

datatype 'w turn_pass =
    PassError turn_error turn_state "'w io"
  | PassNext action turn_state bool "'w io"
  | PassEnd "round_error + outcome" turn_state "'w io"

definition turn_pass ::
  "nat \<Rightarrow> turn_parts \<Rightarrow> 'w env \<Rightarrow> bool \<Rightarrow> action \<Rightarrow> turn_state \<Rightarrow> 'w io \<Rightarrow> 'w turn_pass option" where
  "turn_pass fuel p e native a s io =
     (case save_opt p e (action_commit a) io of
        (Inl err, io1) \<Rightarrow> Some (PassError (TurnCommit err) s io1)
      | (Inr _, io1) \<Rightarrow>
          (case a of
             ActSend c \<Rightarrow>
               (case send_round fuel p e s io1 of
                  None \<Rightarrow> None
                | Some (Inl err, s1, io2) \<Rightarrow> Some (PassError (TurnCommit err) s1 io2)
                | Some (Inr sent, s1, io2) \<Rightarrow>
                    (let ((a', s'), native') = answer_sent sent native s1 in Some (PassNext a' s' native' io2)))
           | ActCallTools c \<Rightarrow>
               (let (fs, io2) = call_tools p e (commit_blocks c) native io1;
                    (a', s') = finish_tools e fs s io2
                in Some (PassNext a' s' native io2))
           | ActAfterRound context reason c \<Rightarrow>
               (let ((a', s'), io2) = after_answer e context reason s io1 in Some (PassNext a' s' native io2))
           | ActDone c result \<Rightarrow> Some (PassEnd result s io1)))"

fun turn_loop ::
  "nat \<Rightarrow> turn_parts \<Rightarrow> 'w env \<Rightarrow> bool \<Rightarrow> action \<Rightarrow> turn_state \<Rightarrow> 'w io \<Rightarrow>
     ((turn_error + outcome) \<times> turn_state \<times> 'w io) option" where
  "turn_loop 0 p e native a s io = None"
| "turn_loop (Suc n) p e native a s io =
     (case turn_pass n p e native a s io of
        None \<Rightarrow> None
      | Some (PassError err s1 io1) \<Rightarrow> Some (Inl err, s1, io1)
      | Some (PassEnd (Inl err) s1 io1) \<Rightarrow> Some (Inl (TurnRound err), s1, io1)
      | Some (PassEnd (Inr oc) s1 io1) \<Rightarrow> Some (Inr oc, s1, io1)
      | Some (PassNext a' s' native' io1) \<Rightarrow> turn_loop n p e native' a' s' io1)"

definition run_turn ::
  "nat \<Rightarrow> turn_parts \<Rightarrow> 'w env \<Rightarrow> block list \<Rightarrow> block list \<Rightarrow> u64 option \<Rightarrow> 'w io \<Rightarrow>
     ((turn_error + outcome) \<times> turn_state \<times> 'w io) option" where
  "run_turn fuel p e context input tokens io =
     (let (a, s) = send_turn input (new_turn context tokens) in turn_loop fuel p e False a s io)"

end
