(* ===== verification/Drive_Facts.thy ===== *)
theory Drive_Facts
  imports Drive
begin

text \<open>
  What holds of the driver: its clock only moves on, a finite cancel ends every turn, each pass of its
  loop is a step of the protocol of \<open>Turn_State\<close>, the journal replays to the context, and the calls of
  an answer run in groups and come back in call order.
\<close>

section \<open>The clock and the journal\<close>

lemma emit_fields [simp]:
  "io_now (emit ev io) = io_now io" "io_journal (emit ev io) = io_journal io"
  "io_events (emit ev io) = io_events io @ [ev]" "io_world (emit ev io) = io_world io"
  "io_now (emit_all evs io) = io_now io" "io_journal (emit_all evs io) = io_journal io"
  "io_events (emit_all evs io) = io_events io @ evs" "io_world (emit_all evs io) = io_world io"
  "io_now (confirm c io) = io_now io" "io_journal (confirm c io) = io_journal io @ [c]"
  "io_events (confirm c io) = io_events io" "io_world (confirm c io) = io_world io"
  by (simp_all add: emit_def emit_all_def confirm_def io_events_def io_journal_def filter_map_map comp_def)

lemma io_view_fields [simp]:
  "io_events (io\<lparr>io_now := t\<rparr>) = io_events io" "io_journal (io\<lparr>io_now := t\<rparr>) = io_journal io"
  "io_events (io\<lparr>io_world := w\<rparr>) = io_events io" "io_journal (io\<lparr>io_world := w\<rparr>) = io_journal io"
  by (simp_all add: io_events_def io_journal_def)

lemma race_cases:
  assumes "race e work io = (r, io')"
  obtains (finished) "r = RaceDone (work (io_now io))" "io_now io < io_now io'"
      "\<not> is_cancelled e (io_now io')" "io_journal io' = io_journal io" "io_events io' = io_events io"
      "io_world io' = io_world io"
    | (cancelled) "r = RaceCancelled" "io_now io \<le> io_now io'" "is_cancelled e (io_now io')"
      "io_journal io' = io_journal io" "io_events io' = io_events io" "io_world io' = io_world io"
  using assms
  by (auto simp: race_def cancel_by_def is_cancelled_def done_at_def Let_def split: option.splits if_splits)

lemma race_Done:
  "race e work io = (RaceDone x, io') \<Longrightarrow>
     x = work (io_now io) \<and> io_now io < io_now io' \<and> \<not> is_cancelled e (io_now io') \<and>
     io_journal io' = io_journal io \<and> io_events io' = io_events io \<and> io_world io' = io_world io"
  by (erule race_cases) auto

lemma race_Cancelled:
  "race e work io = (RaceCancelled, io') \<Longrightarrow>
     io_now io \<le> io_now io' \<and> is_cancelled e (io_now io') \<and>
     io_journal io' = io_journal io \<and> io_events io' = io_events io \<and> io_world io' = io_world io"
  by (erule race_cases) auto

lemma await_eq:
  "await e work io = (x, io') \<Longrightarrow>
     x = work (io_now io) \<and> io_now io < io_now io' \<and> io_journal io' = io_journal io \<and>
     io_events io' = io_events io \<and> io_world io' = io_world io"
  by (auto simp: await_def done_at_def)

lemma await_world_eq:
  "await_world e work io = (x, io') \<Longrightarrow>
     work (io_now io) (io_world io) = (x, io_world io') \<and> io_now io < io_now io' \<and>
     io_journal io' = io_journal io \<and> io_events io' = io_events io"
  by (auto simp: await_world_def done_at_def split: prod.splits)

lemma is_cancelled_mono: "is_cancelled e t \<Longrightarrow> t \<le> t' \<Longrightarrow> is_cancelled e t'"
  by (auto simp: is_cancelled_def split: option.splits)

lemma race_when_cancelled:
  "is_cancelled e (io_now io) \<Longrightarrow> race e work io = (RaceCancelled, io)"
  by (auto simp: race_def cancel_by_def is_cancelled_def done_at_def Let_def split: option.splits)

text \<open>Whatever a part of the driver does, the clock does not go back and the journal stays.\<close>

definition io_step :: "'w io \<Rightarrow> 'w io \<Rightarrow> bool" where
  "io_step io io' \<longleftrightarrow>
     io_now io \<le> io_now io' \<and> io_journal io' = io_journal io \<and> io_world io' = io_world io"

lemma io_step_refl [simp]: "io_step io io"
  by (simp add: io_step_def)

lemma io_step_trans: "io_step a b \<Longrightarrow> io_step b c \<Longrightarrow> io_step a c"
  by (simp add: io_step_def)

lemma io_step_emit [simp]: "io_step io (emit ev io') \<longleftrightarrow> io_step io io'"
  "io_step (emit ev io) io' \<longleftrightarrow> io_step io io'"
  by (simp_all add: io_step_def)

lemma io_step_race: "race e work io = (r, io') \<Longrightarrow> io_step io io'"
  by (erule race_cases) (simp_all add: io_step_def)

lemma io_step_await: "await e work io = (r, io') \<Longrightarrow> io_step io io'"
  by (simp add: io_step_def await_eq less_imp_le)

lemma io_step_reply: "reply_events e evs n io = (r, io') \<Longrightarrow> io_step io io'"
proof (induction e evs n io arbitrary: r io' rule: reply_events.induct)
  case (1 e n io)
  then show ?case by (auto split: prod.splits raced.splits dest: io_step_race)
next
  case (2 e ev evs n io)
  then show ?case
    by (auto split: prod.splits raced.splits dest!: io_step_race intro: io_step_trans)
qed

lemma io_step_attempt: "attempt p e m rq number io = (r, io') \<Longrightarrow> io_step io io'"
  unfolding attempt_def
  by (auto simp: Let_def split: prod.splits raced.splits sum.splits option.splits
      dest!: io_step_race io_step_await io_step_reply) (meson io_step_trans)+

lemma io_step_send: "send p e m rq number io = (r, io') \<Longrightarrow> io_step io io'"
proof (induction p e m rq number io arbitrary: r io' rule: send.induct)
  case (1 p e m rq number io)
  obtain a io1 where a: "attempt p e m rq number io = (a, io1)" by fastforce
  note s = io_step_attempt [OF a]
  show ?case
  proof (cases a)
    case (Ended x)
    then show ?thesis using 1(2) a s by (simp add: send.simps [of p e m rq number io])
  next
    case Again
    then have "send p e m rq (number + 1) io1 = (r, io')"
      using 1(2) a by (simp add: send.simps [of p e m rq number io])
    from 1(1) [OF a [symmetric] Again this] s show ?thesis by (rule io_step_trans [rotated])
  qed
qed

lemma io_step_ask_hook: "ask_hook e r io = (r', io') \<Longrightarrow> io_step io io'"
  unfolding ask_hook_def
  by (auto simp: Let_def split: prod.splits raced.splits option.splits tool_decision.splits
      dest!: io_step_race)

lemma io_step_ask_hooks: "ask_hooks e rs io = (rs', io') \<Longrightarrow> io_step io io'"
  by (induction rs arbitrary: io rs' io')
    (auto split: prod.splits dest!: io_step_ask_hook intro: io_step_trans)

lemma fold_max_ge: "(n::nat) \<le> fold max ns n"
proof (induction ns arbitrary: n)
  case (Cons a ns)
  show ?case using Cons [of "max a n"] by simp
qed simp

lemma io_step_call_group: "call_group p e native rs io = (fs, io') \<Longrightarrow> io_step io io'"
  unfolding call_group_def
  by (auto simp: Let_def io_step_def split: prod.splits dest!: io_step_ask_hooks
      intro: order_trans [OF _ fold_max_ge])

lemma io_step_call_all: "call_all p e native gs io = (fs, io') \<Longrightarrow> io_step io io'"
  by (induction gs arbitrary: io fs io')
    (auto split: prod.splits dest!: io_step_call_group intro: io_step_trans)

lemma io_step_call_tools: "call_tools p e bs native io = (fs, io') \<Longrightarrow> io_step io io'"
  unfolding call_tools_def by (rule io_step_call_all)

section \<open>Saving\<close>

lemma saved_commit_fields [simp]:
  "commit_blocks (saved_commit p c) = commit_blocks c"
  "commit_replaced (saved_commit p c) = commit_replaced c"
  "commit_answer (saved_commit p c) = commit_answer c"
  "commit_end (saved_commit p c) = commit_end c"
  by (simp_all add: saved_commit_def Let_def)

lemma apply_saved_commit [replay_simps, simp]: "apply_commit (saved_commit p c) context = apply_commit c context"
  by (simp add: apply_commit_def)

lemma save_opt_ok:
  assumes "save_opt p e c io = (Inr u, io')"
  shows "io_now io \<le> io_now io'"
    "tp_has_journal p \<Longrightarrow> io_journal io' = io_journal io @ map (saved_commit p) (commit_list c)"
    "io_events io' = io_events io"
  using assms
  by (auto simp: save_opt_def save_def Let_def await_world_def done_at_def split: option.splits if_splits prod.splits)

lemma save_opt_fails:
  assumes "save_opt p e c io = (Inl err, io')"
  shows "io_journal io' = io_journal io" "c \<noteq> None" "tp_has_journal p" "io_events io' = io_events io"
  using assms
  by (auto simp: save_opt_def save_def Let_def await_world_def split: option.splits if_splits prod.splits)

lemma replay_saved [simp]: "replay (map (saved_commit p) cs) ctx = replay cs ctx"
  by (induction cs arbitrary: ctx) simp_all

section \<open>The calls of an answer\<close>

lemma concat_call_groups [simp]: "concat (call_groups par rs) = rs"
  by (induction par rs rule: call_groups.induct) simp_all

lemma call_groups_shape:
  "g \<in> set (call_groups par rs) \<Longrightarrow> g \<noteq> [] \<and> ((\<forall>r\<in>set g. par r) \<or> (\<exists>r. g = [r] \<and> \<not> par r))"
  by (induction par rs rule: call_groups.induct) (auto split: if_splits dest: set_takeWhileD)

lemma hd_dropWhile_stops: "dropWhile P xs \<noteq> [] \<Longrightarrow> \<not> P (hd (dropWhile P xs))"
  by (rule hd_dropWhile)

text \<open>Groups are as large as they can be: two parallel calls side by side share a group.\<close>

lemma call_groups_maximal:
  "call_groups par rs = gs \<Longrightarrow> Suc i < length gs \<Longrightarrow>
     \<not> ((\<forall>r\<in>set (gs ! i). par r) \<and> (\<forall>r\<in>set (gs ! Suc i). par r))"
proof (induction par rs arbitrary: gs i rule: call_groups.induct)
  case (2 par r rs)
  have hd_next: "\<exists>q qs gs'. call_groups par rs' = ((q # qs) # gs') \<and> q = hd rs'" if "rs' \<noteq> []" for rs'
    using that by (cases rs') auto
  show ?case
  proof (cases "par r")
    case True
    then have gs: "gs = (r # takeWhile par rs) # call_groups par (dropWhile par rs)" using 2 by simp
    show ?thesis
    proof (cases i)
      case 0
      then have ne: "dropWhile par rs \<noteq> []" using 2(4) gs by (cases "dropWhile par rs") auto
      from hd_next [OF this] obtain q qs gs' where
        q: "call_groups par (dropWhile par rs) = (q # qs) # gs'" "q = hd (dropWhile par rs)" by blast
      then have "\<not> par q" using hd_dropWhile_stops [OF ne] by simp
      then show ?thesis using 0 gs q(1) by simp
    next
      case (Suc j)
      then show ?thesis using 2(1) [OF True refl, of j] 2(4) gs by simp
    qed
  next
    case False
    then have gs: "gs = [r] # call_groups par rs" using 2 by simp
    show ?thesis
    proof (cases i)
      case 0
      then show ?thesis using False gs by simp
    next
      case (Suc j)
      then show ?thesis using 2(2) [OF False refl, of j] 2(4) gs by simp
    qed
  qed
qed simp

text \<open>What the hooks must keep: the call id of a replaced outcome.\<close>

definition keeps_call_ids :: "'w env \<Rightarrow> bool" where
  "keeps_call_ids e \<longleftrightarrow>
     (\<forall>t i c o' w r. env_after_tool e t i c o' = (w, Some r) \<longrightarrow>
        result_call_id (out_result r) = result_call_id (out_result o'))"

definition resolved_ok :: "resolved \<Rightarrow> bool" where
  "resolved_ok r \<longleftrightarrow> (case rv_result r of None \<Rightarrow> True | Some x \<Rightarrow> result_call_id x = call_id (rv_call r))"

definition rv_call_id :: "resolved \<Rightarrow> string" where
  "rv_call_id r = call_id (rv_call r)"

lemma resolve_ok: "resolved_ok (resolve p i c)" "rv_call_id (resolve p i c) = call_id c"
  by (auto simp: resolve_def resolved_ok_def rv_call_id_def unwrap_call_id split: sum.split)

lemma ask_hook_ok:
  "ask_hook e r io = (r', io') \<Longrightarrow> resolved_ok r \<Longrightarrow> resolved_ok r' \<and> rv_call_id r' = rv_call_id r"
  unfolding ask_hook_def
  by (auto simp: Let_def resolved_ok_def rv_call_id_def
      split: prod.splits raced.splits option.splits tool_decision.splits)

lemma ask_hooks_ok:
  "ask_hooks e rs io = (rs', io') \<Longrightarrow> \<forall>r\<in>set rs. resolved_ok r \<Longrightarrow>
     (\<forall>r\<in>set rs'. resolved_ok r) \<and> map rv_call_id rs' = map rv_call_id rs"
  by (induction rs arbitrary: io rs' io') (auto split: prod.splits dest!: ask_hook_ok)

lemma after_tool_id:
  "keeps_call_ids e \<Longrightarrow> after_tool e t i c o' = (o'', t') \<Longrightarrow>
     result_call_id (out_result o'') = result_call_id (out_result o')"
  unfolding after_tool_def keeps_call_ids_def
  by (auto simp: Let_def split: prod.splits option.splits)

lemma toolset_call_outcome_id:
  "toolset_call ts c tx = (f, output) \<Longrightarrow> result_call_id (out_result (fin_outcome f)) = call_id c"
  using toolset_call_id [of ts c tx] by (simp add: fin_call_id_def)

lemma run_call_id:
  assumes "keeps_call_ids e"
  shows "fin_call_id (lane_finished (run_call p e native t i c)) = call_id c"
  unfolding run_call_def
  by (auto simp: Let_def fin_call_id_def finished_of_result_def outcome_of_result_def search_id
      dest!: after_tool_id [OF assms] toolset_call_outcome_id split: prod.splits)

lemma lane_of_id:
  "keeps_call_ids e \<Longrightarrow> resolved_ok r \<Longrightarrow>
     fin_call_id (lane_finished (lane_of p e native t r)) = rv_call_id r"
  by (simp add: lane_of_def resolved_ok_def rv_call_id_def run_call_id split: option.splits)

lemma call_group_ids:
  assumes "keeps_call_ids e" "\<forall>r\<in>set rs. resolved_ok r" "call_group p e native rs io = (fs, io')"
  shows "map fin_call_id fs = map rv_call_id rs"
proof -
  obtain asked io1 where a: "ask_hooks e rs io = (asked, io1)" by fastforce
  then have fs: "fs = map (lane_finished \<circ> lane_of p e native (io_now io1)) asked"
    using assms(3) by (auto simp: call_group_def Let_def comp_def)
  have "\<forall>r\<in>set asked. fin_call_id (lane_finished (lane_of p e native (io_now io1) r)) = rv_call_id r"
    using ask_hooks_ok [OF a assms(2)] lane_of_id [OF assms(1)] by blast
  then have "map fin_call_id fs = map rv_call_id asked" by (simp add: fs)
  then show ?thesis using ask_hooks_ok [OF a assms(2)] by simp
qed

lemma call_all_ids:
  "keeps_call_ids e \<Longrightarrow> \<forall>r\<in>set (concat gs). resolved_ok r \<Longrightarrow> call_all p e native gs io = (fs, io') \<Longrightarrow>
     map fin_call_id fs = map rv_call_id (concat gs)"
  by (induction gs arbitrary: io fs io') (auto split: prod.splits dest!: call_group_ids)

lemma indexed_calls_eq: "map snd (indexed_calls bs) = calls_in bs"
proof -
  have "map snd (filter_map (\<lambda>(i, b). case b of ToolCall c \<Rightarrow> Some (i, c) | _ \<Rightarrow> None) (enumerate n bs)) =
      calls_in bs" for n
    by (induction bs arbitrary: n) (auto split: block.splits)
  then show ?thesis by (simp add: indexed_calls_def)
qed

lemma call_tools_ids:
  assumes "keeps_call_ids e" "call_tools p e bs native io = (fs, io')"
  shows "map fin_call_id fs = map call_id (calls_in bs)"
proof -
  let ?rs = "map (\<lambda>(i, c). resolve p i c) (indexed_calls bs)"
  have "\<forall>r\<in>set ?rs. resolved_ok r" by (auto simp: resolve_ok)
  then have "map fin_call_id fs = map rv_call_id ?rs"
    using call_all_ids [OF assms(1) _ assms(2) [unfolded call_tools_def]] by simp
  also have "\<dots> = map call_id (map snd (indexed_calls bs))"
    by (simp add: resolve_ok case_prod_beta)
  finally show ?thesis by (simp only: indexed_calls_eq)
qed

section \<open>A cancel ends every loop\<close>

lemma round_pass_again:
  assumes "round_pass p e plan s io = (RoundAgain plan', s', io')"
  shows "io_now io < io_now io' \<and> \<not> is_cancelled e (io_now io')"
proof -
  obtain ap s1 io1 where a: "apply_plan p e plan s io = (ap, s1, io1)" by (metis prod_cases3)
  have le: "io_now io \<le> io_now io1"
    using a by (auto simp: apply_plan_def save_def Let_def await_world_def done_at_def
        split: option.splits if_splits prod.splits)
  show ?thesis
    using assms a le
    by (auto simp: round_pass_def Let_def io_step_def
        split: prod.splits sum.splits sent.splits raced.splits option.splits
        dest!: race_Done io_step_send)
qed

lemma round_loop_ends:
  "env_cancel e = Some c \<Longrightarrow> c - io_now io < n \<Longrightarrow> \<exists>r. round_loop n p e plan s io = Some r"
proof (induction n arbitrary: plan s io)
  case (Suc n)
  obtain r s1 io1 where r: "round_pass p e plan s io = (r, s1, io1)" by (metis prod_cases3)
  show ?case
  proof (cases r)
    case (RoundAgain plan')
    have "io_now io < io_now io1" "io_now io1 < c"
      using round_pass_again [OF r [unfolded RoundAgain]] Suc.prems(1) by (auto simp: is_cancelled_def)
    then have "c - io_now io1 < n" using Suc.prems(2) by linarith
    from Suc.IH [OF Suc.prems(1) this] show ?thesis using r RoundAgain by simp
  qed (use r in auto)
qed simp

lemma round_loop_step:
  "round_loop n p e plan s io = Some (r, s', io') \<Longrightarrow> io_now io \<le> io_now io'"
proof (induction n arbitrary: plan s io)
  case (Suc n)
  obtain q s1 io1 where q: "round_pass p e plan s io = (q, s1, io1)" by (metis prod_cases3)
  have "io_now io \<le> io_now io1"
  proof -
    obtain ap s2 io2 where a: "apply_plan p e plan s io = (ap, s2, io2)" by (metis prod_cases3)
    have "io_now io \<le> io_now io2"
      using a by (auto simp: apply_plan_def save_def Let_def await_world_def done_at_def
          split: option.splits if_splits prod.splits)
    then show ?thesis using q a
      by (auto simp: round_pass_def Let_def io_step_def
          split: prod.splits sum.splits sent.splits raced.splits option.splits
          dest!: io_step_race io_step_send)
  qed
  then show ?case using Suc q by (fastforce split: round_pass.splits)
qed simp

text \<open>The fuel that a pass of the turn needs, from its action and the time up to the cancel.\<close>

fun pass_fuel :: "nat \<Rightarrow> action \<Rightarrow> nat \<Rightarrow> nat" where
  "pass_fuel c (ActDone _ _) t = 1"
| "pass_fuel c (ActAfterRound _ _ _) t = 2 * (c - t) + 2"
| "pass_fuel c (ActSend _) t = 2 * (c - t) + 2"
| "pass_fuel c (ActCallTools _) t = 2 * (c - t) + 3"

lemma pass_fuel_bounds: "0 < pass_fuel c a t" "pass_fuel c a t \<le> 2 * (c - t) + 3"
  by (cases a; simp)+

lemma pass_fuel_later:
  "t < u \<Longrightarrow> u < c \<Longrightarrow> u \<le> t' \<Longrightarrow> pass_fuel c a t' < 2 * (c - t) + 2"
  using pass_fuel_bounds(2) [of c a t'] by linarith

lemma done_turn_action: "fst (done_turn r s) = ActDone c res \<longleftrightarrow> res = r \<and> fst (done_turn r s) = ActDone c r"
  by (auto simp: done_turn_def take_unsaved_def Let_def)

lemma done_fuel [simp]:
  "pass_fuel c (fst (done_turn r s)) t = 1" "pass_fuel c (fst (fail_turn err s)) t = 1"
  "pass_fuel c (fst (cancel_turn s)) t = 1" "pass_fuel c (fst (stop_turn s)) t = 1"
  "pass_fuel c (fst (model_cancelled ps s)) t = 1" "pass_fuel c (fst (tools_cancelled fs s)) t = 1"
  by (simp_all add: done_turn_def take_unsaved_def Let_def fail_turn_def cancel_turn_def stop_turn_def
      model_cancelled_def tools_cancelled_def)

lemma round_fuel [simp]: "pass_fuel c (fst (tools_finished fs s)) t = 2 * (c - t) + 2"
  by (simp add: tools_finished_def after_round_def take_unsaved_def Let_def)

lemma proceed_fuel: "pass_fuel c (fst (proceed_turn input s)) t \<le> 2 * (c - t) + 2"
  by (simp add: proceed_turn_def send_turn_def unsaved_commit_def take_unsaved_def Let_def)

lemma send_round_cases:
  assumes "send_round fuel p e s io = Some (r, s', io')" "env_cancel e = Some c"
  obtains (waited) u where "io_now io < u" "u < c" "u \<le> io_now io'"
    | (failed) err where "r = Inr (SentFailed err)" "s' = s" "io_now io \<le> io_now io'"
    | (stopped) "r = Inr (SentCancelled [])" "s' = s" "io_now io \<le> io_now io'"
  using assms
  by (auto simp: send_round_def Let_def is_cancelled_def split: prod.splits raced.splits sum.splits
      dest!: race_Done race_Cancelled round_loop_step)

lemma send_pass_fuel:
  assumes "send_round fuel p e s io = Some (Inr sent, s', io')" "env_cancel e = Some c"
  shows "pass_fuel c (fst (fst (answer_sent sent native s'))) (io_now io') < 2 * (c - io_now io) + 2"
  using assms
proof (cases rule: send_round_cases)
  case (waited u)
  then show ?thesis using pass_fuel_later by blast
qed (simp_all add: answer_sent_def)

lemma after_answer_fuel:
  assumes "after_answer e ctx reason s io = (r, io')" "env_cancel e = Some c"
  shows "pass_fuel c (fst r) (io_now io') < 2 * (c - io_now io) + 2"
proof -
  obtain d io1 where d: "race e (\<lambda>t. env_after_round e t ctx reason) io = (d, io1)" by fastforce
  show ?thesis
  proof (cases "\<exists>x. d = RaceDone (Inr Proceed)")
    case True
    then have t: "io_now io < io_now io1" "io_now io1 < c"
      using d race_Done assms(2) by (fastforce simp: is_cancelled_def)+
    obtain i io2 where i: "await_world e (env_inbox e) io1 = (i, io2)" by fastforce
    then have "io_now io1 < io_now io2" by (simp add: await_world_eq)
    moreover have "pass_fuel c (fst r) (io_now io') \<le> 2 * (c - io_now io2) + 2"
      using assms(1) d True i proceed_fuel
      by (auto simp: after_answer_def split: sum.splits)
    ultimately show ?thesis using t by linarith
  next
    case False
    then have "pass_fuel c (fst r) (io_now io') = 1"
      using assms(1) d
      by (auto simp: after_answer_def split: raced.splits sum.splits round_decision.splits)
    then show ?thesis by simp
  qed
qed

lemma turn_pass_fuel:
  assumes "turn_pass fuel p e native a s io = Some (PassNext a' s' native' io')" "env_cancel e = Some c"
  shows "pass_fuel c a' (io_now io') < pass_fuel c a (io_now io)"
proof -
  obtain u io1 where sv: "save_opt p e (action_commit a) io = (Inr u, io1)"
    using assms(1) by (auto simp: turn_pass_def split: prod.splits sum.splits)
  note le = save_opt_ok(1) [OF sv]
  show ?thesis
  proof (cases a)
    case (ActSend cm)
    then obtain sent s1 io2 where r: "send_round fuel p e s io1 = Some (Inr sent, s1, io2)"
      "fst (fst (answer_sent sent native s1)) = a'" "io' = io2"
      using assms(1) sv by (auto simp: turn_pass_def Let_def split: option.splits prod.splits sum.splits)
    from send_pass_fuel [OF r(1) assms(2), of native] r le ActSend show ?thesis by simp
  next
    case (ActCallTools cm)
    then obtain fs io2 where t: "call_tools p e (commit_blocks cm) native io1 = (fs, io2)"
      "fst (finish_tools e fs s io2) = a'" "io' = io2"
      using assms(1) sv by (auto simp: turn_pass_def Let_def split: prod.splits)
    have "io_now io1 \<le> io_now io2" using io_step_call_tools [OF t(1)] by (simp add: io_step_def)
    moreover have "pass_fuel c a' (io_now io2) \<le> 2 * (c - io_now io2) + 2"
      using t(2) by (auto simp: finish_tools_def split: if_splits)
    ultimately show ?thesis using le ActCallTools t(3) by simp
  next
    case (ActAfterRound ctx reason cm)
    then obtain r where r: "after_answer e ctx reason s io1 = (r, io')" "fst r = a'"
      using assms(1) sv by (auto simp: turn_pass_def Let_def split: prod.splits)
    from after_answer_fuel [OF r(1) assms(2)] r(2) le ActAfterRound show ?thesis by simp
  next
    case (ActDone cm res)
    then show ?thesis using assms(1) sv by (simp add: turn_pass_def)
  qed
qed

lemma turn_pass_returns:
  assumes "env_cancel e = Some c" "c - io_now io < fuel"
  shows "\<exists>r. turn_pass fuel p e native a s io = Some r"
proof -
  obtain sv io1 where sv: "save_opt p e (action_commit a) io = (sv, io1)" by fastforce
  show ?thesis
  proof (cases sv)
    case (Inr u)
    with sv have le: "io_now io \<le> io_now io1" using save_opt_ok(1) by blast
    have "\<exists>r. send_round fuel p e s io1 = Some r"
    proof -
      obtain q io2 where q: "race e (\<lambda>t. env_before_round e t (round_start_of p s (tp_model p) (tp_settings p)
          (declared_tools (parts_toolset p) (tool_search (model_target (tp_model p)))))) io1 = (q, io2)"
        by fastforce
      have "c - io_now io2 < fuel" using io_step_race [OF q] le assms(2) unfolding io_step_def by linarith
      then show ?thesis using q round_loop_ends [OF assms(1), of io2 fuel]
        by (auto simp: send_round_def Let_def split: raced.splits sum.splits)
    qed
    then show ?thesis using sv Inr
      by (cases a) (fastforce simp: turn_pass_def Let_def split: sum.splits prod.splits)+
  qed (use sv in \<open>simp add: turn_pass_def\<close>)
qed

lemma turn_loop_ends:
  "env_cancel e = Some c \<Longrightarrow> pass_fuel c a (io_now io) \<le> n \<Longrightarrow>
     \<exists>r. turn_loop n p e native a s io = Some r"
proof (induction n arbitrary: native a s io)
  case 0
  then show ?case using pass_fuel_bounds(1) [of c a "io_now io"] by simp
next
  case (Suc n)
  obtain r where r: "turn_pass n p e native a s io = Some r"
  proof (cases "c - io_now io < n")
    case True
    then show ?thesis using turn_pass_returns [OF Suc.prems(1)] that by blast
  next
    case False
    then obtain cm res where "a = ActDone cm res" using Suc.prems(2) by (cases a) auto
    then show ?thesis using that by (fastforce simp: turn_pass_def split: prod.splits sum.splits)
  qed
  show ?case
  proof (cases r)
    case (PassNext a' s' native' io')
    have "pass_fuel c a' (io_now io') \<le> n"
      using turn_pass_fuel [OF r [unfolded PassNext] Suc.prems(1)] Suc.prems(2) by linarith
    from Suc.IH [OF Suc.prems(1) this] show ?thesis using r PassNext by simp
  next
    case (PassEnd res s1 io1)
    then show ?thesis using r by (cases res) auto
  qed (use r in auto)
qed

section \<open>The state of the journal\<close>

text \<open>
  A relation between the state of the journal and its confirmed commits that the inbox and the journal
  keep: a failed commit confirms nothing.
\<close>

lemma apply_plan_cases:
  assumes "apply_plan p e plan s io = (r, s', io')"
  obtains (unchanged) "r = Inr ()" "s' = s" "io' = io"
    | (replaced) rp where "plan_replace plan = Some rp" "s' = snd (replace_turn rp s)"
        "save p e (fst (replace_turn rp s)) io = (r, io')"
  using assms by (auto simp: apply_plan_def Let_def split: option.splits if_splits prod.splits)

lemma round_pass_state:
  "round_pass p e plan s io = (q, s', io') \<Longrightarrow> \<exists>r io1. apply_plan p e plan s io = (r, s', io1)"
  by (auto simp: round_pass_def Let_def split: prod.splits sum.splits sent.splits raced.splits option.splits)

definition world_keeps :: "'w env \<Rightarrow> ('w \<Rightarrow> commit list \<Rightarrow> bool) \<Rightarrow> bool" where
  "world_keeps e R \<longleftrightarrow>
     (\<forall>t w j r w'. R w j \<longrightarrow> env_inbox e t w = (r, w') \<longrightarrow> R w' j) \<and>
     (\<forall>t c w j r w'. R w j \<longrightarrow> env_commit e t c w = (r, w') \<longrightarrow>
        R w' (case r of None \<Rightarrow> j @ [c] | Some _ \<Rightarrow> j))"

definition io_ok :: "('w \<Rightarrow> commit list \<Rightarrow> bool) \<Rightarrow> 'w io \<Rightarrow> bool" where
  "io_ok R io \<longleftrightarrow> R (io_world io) (io_journal io)"

lemma io_ok_step: "io_ok R io \<Longrightarrow> io_step io io' \<Longrightarrow> io_ok R io'"
  by (simp add: io_ok_def io_step_def)

lemma io_ok_emit [simp]: "io_ok R (emit ev io) = io_ok R io"
  by (simp add: io_ok_def)

lemma save_world:
  assumes "world_keeps e R" "save p e c io = (r, io')" "io_ok R io"
  shows "io_ok R io'"
proof (cases "tp_has_journal p")
  case True
  obtain x io1 where a: "await_world e (\<lambda>t. env_commit e t (saved_commit p c)) io = (x, io1)" by fastforce
  from await_world_eq [OF a] assms(1,3) have "io_ok R (case x of None \<Rightarrow> confirm (saved_commit p c) io1 | Some _ \<Rightarrow> io1)"
    unfolding world_keeps_def io_ok_def by (fastforce split: option.splits)
  then show ?thesis using assms(2) True a by (auto simp: save_def Let_def split: option.splits)
qed (use assms in \<open>simp add: save_def\<close>)

lemma save_opt_world:
  "world_keeps e R \<Longrightarrow> save_opt p e c io = (r, io') \<Longrightarrow> io_ok R io \<Longrightarrow> io_ok R io'"
  by (auto simp: save_opt_def save_world split: option.splits)

lemma apply_plan_world:
  "world_keeps e R \<Longrightarrow> apply_plan p e plan s io = (r, s', io') \<Longrightarrow> io_ok R io \<Longrightarrow> io_ok R io'"
  by (erule apply_plan_cases) (auto intro: save_world)

lemma round_pass_world:
  assumes "world_keeps e R" "round_pass p e plan s io = (q, s', io')" "io_ok R io"
  shows "io_ok R io'"
proof -
  obtain r io1 where a: "apply_plan p e plan s io = (r, s', io1)"
    using round_pass_state [OF assms(2)] by blast
  have "io_step io1 io'"
    using assms(2) a
    by (auto simp: round_pass_def Let_def dest!: io_step_send io_step_race intro: io_step_trans
        split: prod.splits sent.splits raced.splits sum.splits option.splits)
  then show ?thesis using apply_plan_world [OF assms(1) a assms(3)] io_ok_step by blast
qed

lemma round_loop_world:
  "world_keeps e R \<Longrightarrow> round_loop n p e plan s io = Some (r, s', io') \<Longrightarrow> io_ok R io \<Longrightarrow> io_ok R io'"
proof (induction n arbitrary: plan s io)
  case (Suc n)
  obtain q s1 io1 where q: "round_pass p e plan s io = (q, s1, io1)" by (metis prod_cases3)
  from round_pass_world [OF Suc.prems(1) q Suc.prems(3)] have "io_ok R io1" .
  then show ?case using Suc.prems q Suc.IH by (cases q) auto
qed simp

lemma send_round_world:
  assumes "world_keeps e R" "send_round n p e s io = Some (r, s', io')" "io_ok R io"
  shows "io_ok R io'"
  using assms(2)
  by (auto simp: send_round_def Let_def dest!: io_step_race split: prod.splits raced.splits sum.splits
      intro: round_loop_world [OF assms(1)] io_ok_step [OF assms(3)])

lemma after_answer_world:
  assumes "world_keeps e R" "after_answer e c reason s io = (q, io')" "io_ok R io"
  shows "io_ok R io'"
proof -
  have inbox: "io_ok R io2" if "await_world e (env_inbox e) io1 = (x, io2)" "io_step io io1" for x io1 io2
    using await_world_eq [OF that(1)] io_ok_step [OF assms(3) that(2)] assms(1)
    unfolding io_ok_def world_keeps_def by metis
  show ?thesis using assms(2)
    by (auto simp: after_answer_def dest!: io_step_race intro: inbox io_ok_step [OF assms(3)]
        split: prod.splits raced.splits sum.splits round_decision.splits)
qed

lemma call_tools_world: "call_tools p e bs native io = (fs, io') \<Longrightarrow> io_ok R io \<Longrightarrow> io_ok R io'"
  using io_step_call_tools io_ok_step by blast

lemma turn_pass_world:
  assumes "world_keeps e R" "turn_pass n p e native a s io = Some q" "io_ok R io"
  shows "case q of PassError _ _ io' \<Rightarrow> io_ok R io' | PassNext _ _ _ io' \<Rightarrow> io_ok R io' | PassEnd _ _ io' \<Rightarrow> io_ok R io'"
proof -
  obtain sv io1 where sv: "save_opt p e (action_commit a) io = (sv, io1)" by fastforce
  note ok = save_opt_world [OF assms(1) sv assms(3)]
  show ?thesis
    using assms(2) sv ok
    by (auto simp: turn_pass_def Let_def intro: send_round_world [OF assms(1)] after_answer_world [OF assms(1)]
        call_tools_world split: sum.splits action.splits option.splits prod.splits)
qed

text \<open>Whatever holds between the state of the journal and its confirmed commits, a turn keeps.\<close>

lemma turn_loop_world:
  "world_keeps e R \<Longrightarrow> turn_loop n p e native a s io = Some (r, s', io') \<Longrightarrow> io_ok R io \<Longrightarrow> io_ok R io'"
proof (induction n arbitrary: native a s io)
  case (Suc n)
  obtain q where q: "turn_pass n p e native a s io = Some q"
    using Suc.prems(2) by (auto split: option.splits)
  note ok = turn_pass_world [OF Suc.prems(1) q Suc.prems(3)]
  show ?case
  proof (cases q)
    case (PassEnd res s1 io1)
    then show ?thesis using Suc.prems(2) q ok by (cases res) auto
  next
    case (PassNext a' s1 native' io1)
    then show ?thesis using Suc.IH [OF Suc.prems(1), of native' a' s1 io1] Suc.prems(2) q ok by simp
  qed (use Suc.prems(2) q ok in auto)
qed simp

section \<open>The driver follows the protocol\<close>

text \<open>
  What the caller of the driver owes: hooks that keep the call id of an outcome, input that pairs its
  own calls, and replacements that keep a paired context paired.
\<close>

definition plan_keeps :: "round_plan \<Rightarrow> block list \<Rightarrow> bool" where
  "plan_keeps plan ctx \<longleftrightarrow>
     (case plan_replace plan of None \<Rightarrow> True | Some r \<Rightarrow> paired ctx \<longrightarrow> paired (replace_blocks r ctx))"

text \<open>\<open>Q\<close> is what the inbox may rely on: the inbox and the journal keep it.\<close>

definition keeps_pairing :: "('w \<Rightarrow> bool) \<Rightarrow> 'w env \<Rightarrow> bool" where
  "keeps_pairing Q e \<longleftrightarrow>
     keeps_call_ids e \<and> world_keeps e (\<lambda>w j. Q w) \<and>
     (\<forall>t w w' input. Q w \<longrightarrow> env_inbox e t w = (Inr input, w') \<longrightarrow> paired input) \<and>
     (\<forall>t start plan. env_before_round e t start = Inr plan \<longrightarrow> plan_keeps plan (rs_context start)) \<and>
     (\<forall>t start err plan. env_retry_round e t start err = Inr (Some plan) \<longrightarrow>
        plan_keeps plan (rs_context start))"

lemma keeps_pairingD:
  assumes "keeps_pairing Q e"
  shows "keeps_call_ids e" "Q w \<Longrightarrow> env_inbox e t w = (Inr input, w') \<Longrightarrow> paired input"
    "env_before_round e t start = Inr plan \<Longrightarrow> plan_keeps plan (rs_context start)"
    "env_retry_round e t start err = Inr (Some plan) \<Longrightarrow> plan_keeps plan (rs_context start)"
    "world_keeps e (\<lambda>w j. Q w)"
  using assms unfolding keeps_pairing_def by blast+

lemma replace_turn_context:
  "ts_context (snd (replace_turn r s)) = replace_blocks r (ts_context s)"
  by (simp add: replace_turn_def Let_def replace_blocks_def)

lemma round_pass_paired:
  assumes "round_pass p e plan s io = (q, s', io')"
    and "paired (ts_context s)" "plan_keeps plan (ts_context s)" "keeps_pairing Q e"
  shows "paired (ts_context s')" "\<exists>c'. rtranclp turn_trans (ActSend c, s) (ActSend c', s')"
    "q = RoundAgain plan' \<Longrightarrow> plan_keeps plan' (ts_context s')"
proof -
  obtain r io1 where a: "apply_plan p e plan s io = (r, s', io1)"
    using round_pass_state [OF assms(1)] by blast
  have "paired (ts_context s') \<and> (\<exists>c'. rtranclp turn_trans (ActSend c, s) (ActSend c', s'))"
    using a
  proof (cases rule: apply_plan_cases)
    case (replaced rp)
    then have pr: "paired (replace_blocks rp (ts_context s))"
      using assms(2,3) by (simp add: plan_keeps_def)
    have "turn_trans (ActSend c, s) (ActSend None, s')"
      unfolding replaced(2) by (rule turn_trans.send_replaced [OF pr])
    then show ?thesis using pr replaced(2) by (auto simp: replace_turn_context)
  qed (use assms(2) in auto)
  then show "paired (ts_context s')" "\<exists>c'. rtranclp turn_trans (ActSend c, s) (ActSend c', s')" by blast+
  assume "q = RoundAgain plan'"
  then obtain t start err where "env_retry_round e t start err = Inr (Some plan')" "rs_context start = ts_context s'"
    using assms(1)
    by (auto simp: round_pass_def Let_def round_start_of_def
        split: prod.splits sum.splits sent.splits raced.splits option.splits dest!: race_Done)
  then show "plan_keeps plan' (ts_context s')" using keeps_pairingD(4) [OF assms(4)] by metis
qed

lemma round_loop_trans:
  "round_loop n p e plan s io = Some (r, s', io') \<Longrightarrow> paired (ts_context s) \<Longrightarrow>
     plan_keeps plan (ts_context s) \<Longrightarrow> keeps_pairing Q e \<Longrightarrow>
     \<exists>c'. rtranclp turn_trans (ActSend c, s) (ActSend c', s')"
proof (induction n arbitrary: plan s io c)
  case (Suc n)
  obtain q s1 io1 where q: "round_pass p e plan s io = (q, s1, io1)" by (metis prod_cases3)
  note pass = round_pass_paired [OF q Suc.prems(2-4)]
  show ?case
  proof (cases q)
    case (RoundAgain plan')
    obtain c1 where c1: "rtranclp turn_trans (ActSend c, s) (ActSend c1, s1)" using pass(2) by blast
    from RoundAgain q Suc.prems(1) have "round_loop n p e plan' s1 io1 = Some (r, s', io')" by simp
    from Suc.IH [OF this pass(1) pass(3) [OF RoundAgain] Suc.prems(4)] c1
    show ?thesis by (meson rtranclp_trans)
  qed (use q Suc.prems(1) pass(2) in auto)
qed simp

lemma send_round_trans:
  assumes "send_round n p e s io = Some (r, s', io')" "paired (ts_context s)" "keeps_pairing Q e"
  shows "\<exists>c'. rtranclp turn_trans (ActSend c, s) (ActSend c', s')"
proof -
  obtain w io1 where w: "race e (\<lambda>t. env_before_round e t (round_start_of p s (tp_model p) (tp_settings p)
          (declared_tools (parts_toolset p) (tool_search (model_target (tp_model p)))))) io = (w, io1)"
    by fastforce
  show ?thesis
  proof (cases "\<exists>plan. w = RaceDone (Inr plan)")
    case True
    then obtain plan where plan: "w = RaceDone (Inr plan)" by blast
    have "plan_keeps plan (ts_context s)"
      using race_Done [OF w [unfolded plan]] keeps_pairingD(3) [OF assms(3)]
      by (metis round_start_of_def round_start.select_convs(1))
    with assms w plan show ?thesis
      by (auto simp: send_round_def Let_def intro: round_loop_trans)
  next
    case False
    with assms w show ?thesis by (auto simp: send_round_def Let_def split: raced.splits sum.splits)
  qed
qed

lemma turn_trans_answer:
  "turn_trans (ActSend c, s) (fst (answer_sent sent native s))"
  by (auto simp: answer_sent_def intro: turn_trans.intros split: sent.split)

lemma turn_trans_after:
  assumes "after_answer e ctx reason s io = (q, io')" "keeps_pairing Q e" "Q (io_world io)"
  shows "turn_trans (ActAfterRound ctx reason c, s) q"
proof -
  have "turn_trans (ActAfterRound ctx reason c, s) (fst (after_answer e ctx reason s io))"
    using keeps_pairingD(2) [OF assms(2,3)]
    by (auto simp: after_answer_def intro: turn_trans.intros dest!: await_world_eq race_Done
        split: raced.split sum.split round_decision.split prod.split)
  then show ?thesis using assms(1) by simp
qed

lemma turn_pass_trans:
  assumes "turn_pass n p e native a s io = Some (PassNext a' s' native' io')"
    and "phase_ok (a, s)" "keeps_pairing Q e" "Q (io_world io)"
  shows "rtranclp turn_trans (a, s) (a', s')"
proof -
  obtain u io1 where sv: "save_opt p e (action_commit a) io = (Inr u, io1)"
    using assms(1) by (auto simp: turn_pass_def split: prod.splits sum.splits)
  have Q: "Q (io_world io1)"
    using save_opt_world [OF keeps_pairingD(5) [OF assms(3)] sv] assms(4) by (simp add: io_ok_def)
  show ?thesis
  proof (cases a)
    case (ActSend c)
    then obtain sent s1 io2 where r: "send_round n p e s io1 = Some (Inr sent, s1, io2)"
      "fst (answer_sent sent native s1) = (a', s')"
      using assms(1) sv by (auto simp: turn_pass_def Let_def split: option.splits prod.splits sum.splits)
    have "paired (ts_context s)" using assms(2) ActSend by (simp add: phase_ok_def)
    from send_round_trans [OF r(1) this assms(3), of c] obtain c'
      where "rtranclp turn_trans (ActSend c, s) (ActSend c', s1)" by blast
    with turn_trans_answer [of c' s1 sent native] r(2) ActSend show ?thesis
      by (simp add: rtranclp.rtrancl_into_rtrancl)
  next
    case (ActCallTools c)
    then obtain fs io2 where t: "call_tools p e (commit_blocks c) native io1 = (fs, io2)"
      "finish_tools e fs s io2 = (a', s')"
      using assms(1) sv by (auto simp: turn_pass_def Let_def split: prod.splits)
    have "map fin_call_id fs = map call_id (calls_in (commit_blocks c))"
      using call_tools_ids [OF keeps_pairingD(1) [OF assms(3)] t(1)] .
    then have "turn_trans (ActCallTools c, s) (finish_tools e fs s io2)"
      by (simp add: finish_tools_def turn_trans.called turn_trans.calls_cancelled)
    with t(2) ActCallTools show ?thesis by simp
  next
    case (ActAfterRound ctx reason c)
    then have "after_answer e ctx reason s io1 = ((a', s'), io')"
      using assms(1) sv by (auto simp: turn_pass_def Let_def split: prod.splits)
    from turn_trans_after [OF this assms(3) Q, of c] ActAfterRound show ?thesis by simp
  next
    case (ActDone c res)
    then show ?thesis using assms(1) sv by (simp add: turn_pass_def)
  qed
qed

lemma turn_pass_phase:
  assumes "turn_pass n p e native a s io = Some (PassNext a' s' native' io')"
    and "phase_ok (a, s)" "keeps_pairing Q e" "Q (io_world io)"
  shows "phase_ok (a', s')"
  using turn_pass_trans [OF assms] assms(2)
  by (induction rule: rtranclp_induct) (auto intro: turn_trans_phase)

lemma turn_loop_phase:
  "turn_loop n p e native a s io = Some (r, s', io') \<Longrightarrow> phase_ok (a, s) \<Longrightarrow> keeps_pairing Q e \<Longrightarrow>
     Q (io_world io) \<Longrightarrow> (\<exists>err. r = Inl (TurnCommit err)) \<or> paired (ts_context s')"
proof (induction n arbitrary: native a s io)
  case (Suc n)
  obtain q where q: "turn_pass n p e native a s io = Some q"
    using Suc.prems(1) by (auto split: option.splits)
  show ?case
  proof (cases q)
    case (PassNext a' s1 native' io1)
    then have "turn_loop n p e native' a' s1 io1 = Some (r, s', io')" using Suc.prems(1) q by simp
    moreover have "Q (io_world io1)"
      using turn_pass_world [OF keeps_pairingD(5) [OF Suc.prems(3)] q] Suc.prems(4) PassNext
      by (simp add: io_ok_def)
    ultimately show ?thesis
      using Suc.IH turn_pass_phase [OF q [unfolded PassNext] Suc.prems(2-4)] Suc.prems(3) by blast
  next
    case (PassError err s1 io1)
    then have "\<exists>x. err = TurnCommit x" using q
      by (auto simp: turn_pass_def Let_def split: prod.splits sum.splits action.splits option.splits)
    then show ?thesis using Suc.prems(1) q PassError by auto
  next
    case (PassEnd res s1 io1)
    then have "\<exists>c. a = ActDone c res \<and> s1 = s" using q
      by (auto simp: turn_pass_def Let_def split: prod.splits sum.splits action.splits option.splits)
    then have "paired (ts_context s1)" using Suc.prems(2) by (auto simp: phase_ok_def)
    moreover have "s' = s1" using Suc.prems(1) q PassEnd by (cases res) auto
    ultimately show ?thesis by simp
  qed
qed simp

section \<open>The journal holds the context\<close>

text \<open>
  \<open>saved_up\<close>: the confirmed commits replay to the context, and every block is saved. \<open>due\<close>: they do
  so once the commit of the action is saved too.
\<close>

definition saved_up :: "turn_parts \<Rightarrow> block list \<Rightarrow> turn_state \<Rightarrow> 'w io \<Rightarrow> bool" where
  "saved_up p ctx s io \<longleftrightarrow>
     ts_saved s = length (ts_context s) \<and>
     (tp_has_journal p \<longrightarrow> replay (io_journal io) ctx = ts_context s)"

definition due :: "turn_parts \<Rightarrow> block list \<Rightarrow> action \<Rightarrow> turn_state \<Rightarrow> 'w io \<Rightarrow> bool" where
  "due p ctx a s io \<longleftrightarrow>
     ts_saved s = length (ts_context s) \<and>
     (tp_has_journal p \<longrightarrow> replay (io_journal io @ commit_list (action_commit a)) ctx = ts_context s)"

text \<open>One unconfirmed commit is all that the journal can lack.\<close>

definition one_short :: "turn_parts \<Rightarrow> block list \<Rightarrow> turn_state \<Rightarrow> 'w io \<Rightarrow> bool" where
  "one_short p ctx s io \<longleftrightarrow> (\<exists>c. replay (io_journal io @ [c]) ctx = ts_context s)"

lemma saved_up_view: "saved_up p ctx s io \<Longrightarrow> saved_view s = ts_context s \<and> turn_ok s"
  by (simp add: saved_up_def saved_view_def turn_ok_def)

lemma due_save:
  assumes "due p ctx a s io" "save_opt p e (action_commit a) io = (r, io')"
  shows "case r of Inr _ \<Rightarrow> saved_up p ctx s io' | Inl _ \<Rightarrow> one_short p ctx s io'"
proof (cases r)
  case (Inr u)
  then show ?thesis using assms(1) save_opt_ok(2) [OF assms(2) [unfolded Inr]]
    by (auto simp: due_def saved_up_def)
next
  case (Inl err)
  then obtain c where "action_commit a = Some c" "tp_has_journal p" "io_journal io' = io_journal io"
    using save_opt_fails [OF assms(2) [unfolded Inl]] by blast
  then show ?thesis using assms(1) Inl by (auto simp: due_def one_short_def)
qed

text \<open>Each call of the turn adds the commit that brings the journal up to the context.\<close>

lemma saved_up_step:
  assumes "saved_up p ctx s io" "turn_pre op s"
  shows "ts_saved (snd (turn_step op s)) = length (ts_context (snd (turn_step op s)))"
    "tp_has_journal p \<Longrightarrow>
       replay (io_journal io @ commit_list (fst (turn_step op s))) ctx = ts_context (snd (turn_step op s))"
proof -
  show sv: "ts_saved (snd (turn_step op s)) = length (ts_context (snd (turn_step op s)))"
    by (rule turn_step_saved)
  assume "tp_has_journal p"
  then have "replay (io_journal io) ctx = saved_view s"
    using assms(1) saved_up_view [OF assms(1)] by (simp add: saved_up_def)
  from turn_ledger.extend_copy [OF _ assms(2) this] saved_up_view [OF assms(1)] sv
  show "replay (io_journal io @ commit_list (fst (turn_step op s))) ctx = ts_context (snd (turn_step op s))"
    by (simp add: saved_view_def)
qed

lemma due_step:
  assumes "saved_up p ctx s io" "turn_step op s = with_commit q" "turn_pre op s"
  shows "due p ctx (fst q) (snd q) io"
  using saved_up_step [OF assms(1,3)] assms(2) by (simp add: due_def with_commit_def)

lemma due_calls:
  assumes "saved_up p ctx s io"
  shows "due p ctx (fst (model_finished cpl og s)) (snd (model_finished cpl og s)) io"
    "due p ctx (fst (fail_turn err s)) (snd (fail_turn err s)) io"
    "due p ctx (fst (model_cancelled ps s)) (snd (model_cancelled ps s)) io"
    "due p ctx (fst (tools_finished fs s)) (snd (tools_finished fs s)) io"
    "due p ctx (fst (tools_cancelled fs s)) (snd (tools_cancelled fs s)) io"
    "due p ctx (fst (proceed_turn input s)) (snd (proceed_turn input s)) io"
    "due p ctx (fst (stop_turn s)) (snd (stop_turn s)) io"
    "due p ctx (fst (cancel_turn s)) (snd (cancel_turn s)) io"
    "due p ctx (fst (send_turn input s)) (snd (send_turn input s)) io"
  using due_step [OF assms, of "OpModelFinished cpl og"] due_step [OF assms, of "OpFail err"]
    due_step [OF assms, of "OpModelCancelled ps"] due_step [OF assms, of "OpToolsFinished fs"]
    due_step [OF assms, of "OpToolsCancelled fs"] due_step [OF assms, of "OpProceed input"]
    due_step [OF assms, of OpStop] due_step [OF assms, of OpCancel] due_step [OF assms, of "OpSend input"]
  by simp_all

lemma saved_up_journal: "saved_up p ctx s io \<Longrightarrow> io_journal io' = io_journal io \<Longrightarrow> saved_up p ctx s io'"
  by (simp add: saved_up_def)

lemma saved_up_io: "saved_up p ctx s io \<Longrightarrow> io_step io io' \<Longrightarrow> saved_up p ctx s io'"
  by (simp add: saved_up_def io_step_def)

lemma apply_plan_saved:
  assumes "apply_plan p e plan s io = (r, s', io')" "saved_up p ctx s io"
  shows "case r of Inr _ \<Rightarrow> saved_up p ctx s' io' | Inl _ \<Rightarrow> one_short p ctx s' io'"
  using assms(1)
proof (cases rule: apply_plan_cases)
  case (replaced rp)
  have pre: "turn_pre (OpReplace rp) s" using assms(2) by (simp add: saved_up_def)
  note st = saved_up_step [OF assms(2) pre]
  have "due p ctx (ActCallTools (fst (replace_turn rp s))) s' io"
    using st replaced(2) by (simp add: due_def case_prod_beta Let_def)
  from due_save [OF this, of e r io'] replaced(3) show ?thesis by (simp add: save_opt_def)
qed (use assms(2) in simp)

lemma round_pass_saved:
  assumes "round_pass p e plan s io = (q, s', io')" "saved_up p ctx s io"
  shows "case q of RoundSaveFailed _ \<Rightarrow> one_short p ctx s' io' | _ \<Rightarrow> saved_up p ctx s' io'"
proof -
  obtain r io1 where a: "apply_plan p e plan s io = (r, s', io1)"
    using round_pass_state [OF assms(1)] by blast
  note sv = apply_plan_saved [OF a assms(2)]
  show ?thesis
  proof (cases r)
    case (Inr u)
    then have "io_step io1 io' \<and> (\<forall>x. q \<noteq> RoundSaveFailed x)"
      using assms(1) a
      by (auto simp: round_pass_def Let_def dest!: io_step_send io_step_race intro: io_step_trans
          split: prod.splits sent.splits raced.splits sum.splits option.splits)
    with sv Inr saved_up_io show ?thesis by (auto split: round_pass.split)
  qed (use sv assms(1) a in \<open>auto simp: round_pass_def\<close>)
qed

lemma round_loop_saved:
  "round_loop n p e plan s io = Some (r, s', io') \<Longrightarrow> saved_up p ctx s io \<Longrightarrow>
     case r of Inl _ \<Rightarrow> one_short p ctx s' io' | Inr _ \<Rightarrow> saved_up p ctx s' io'"
proof (induction n arbitrary: plan s io)
  case (Suc n)
  obtain q s1 io1 where q: "round_pass p e plan s io = (q, s1, io1)" by (metis prod_cases3)
  note sv = round_pass_saved [OF q Suc.prems(2)]
  show ?case
  proof (cases q)
    case (RoundAgain plan')
    then show ?thesis using Suc.IH [of plan' s1 io1] Suc.prems(1) q sv by simp
  qed (use q Suc.prems(1) sv in auto)
qed simp

lemma send_round_saved:
  assumes "send_round n p e s io = Some (r, s', io')" "saved_up p ctx s io"
  shows "case r of Inl _ \<Rightarrow> one_short p ctx s' io' | Inr _ \<Rightarrow> saved_up p ctx s' io'"
proof -
  obtain w io1 where w: "race e (\<lambda>t. env_before_round e t (round_start_of p s (tp_model p) (tp_settings p)
          (declared_tools (parts_toolset p) (tool_search (model_target (tp_model p)))))) io = (w, io1)"
    by fastforce
  have "saved_up p ctx s io1" using io_step_race [OF w] assms(2) saved_up_io by blast
  then show ?thesis using assms(1) w
    by (auto simp: send_round_def Let_def dest: round_loop_saved split: raced.splits sum.splits)
qed

lemma after_answer_due:
  assumes "after_answer e c reason s io = (q, io')" "saved_up p ctx s io"
  shows "due p ctx (fst q) (snd q) io'"
proof -
  have "io_journal io' = io_journal io"
    using assms(1)
    by (auto simp: after_answer_def dest!: io_step_race await_world_eq simp: io_step_def
        split: prod.splits raced.splits sum.splits round_decision.splits)
  note sv = due_calls [OF saved_up_journal [OF assms(2) this]]
  show ?thesis
    using assms(1) sv
    by (auto simp: after_answer_def split: prod.splits raced.splits sum.splits round_decision.splits)
qed

lemma turn_pass_saved:
  assumes "turn_pass n p e native a s io = Some q" "due p ctx a s io"
  shows "case q of
      PassError _ s' io' \<Rightarrow> one_short p ctx s' io'
    | PassNext a' s' _ io' \<Rightarrow> due p ctx a' s' io'
    | PassEnd _ s' io' \<Rightarrow> saved_up p ctx s' io'"
proof -
  obtain sv io1 where sv: "save_opt p e (action_commit a) io = (sv, io1)" by fastforce
  note d = due_save [OF assms(2) sv]
  show ?thesis
  proof (cases sv)
    case (Inl err)
    then show ?thesis using assms(1) sv d by (auto simp: turn_pass_def)
  next
    case (Inr u)
    with d have su: "saved_up p ctx s io1" by simp
    show ?thesis
    proof (cases a)
      case (ActSend c)
      then obtain r s1 io2 where r: "send_round n p e s io1 = Some (r, s1, io2)"
        using assms(1) sv Inr by (auto simp: turn_pass_def split: option.splits)
      note rs = send_round_saved [OF r su]
      show ?thesis
      proof (cases r)
        case (Inr sent)
        with rs have "saved_up p ctx s1 io2" by simp
        note dc = due_calls [OF this]
        have "due p ctx (fst (fst (answer_sent sent native s1))) (snd (fst (answer_sent sent native s1))) io2"
          using dc by (simp add: answer_sent_def split: sent.split)
        then show ?thesis using assms(1) sv \<open>sv = Inr u\<close> ActSend r Inr
          by (auto simp: turn_pass_def Let_def split: prod.splits)
      qed (use assms(1) sv \<open>sv = Inr u\<close> ActSend r rs in \<open>auto simp: turn_pass_def\<close>)
    next
      case (ActCallTools c)
      obtain fs io2 where t: "call_tools p e (commit_blocks c) native io1 = (fs, io2)" by fastforce
      note dc = due_calls [OF saved_up_io [OF su io_step_call_tools [OF t]]]
      have "due p ctx (fst (finish_tools e fs s io2)) (snd (finish_tools e fs s io2)) io2"
        using dc by (simp add: finish_tools_def)
      then show ?thesis using assms(1) sv Inr ActCallTools t
        by (auto simp: turn_pass_def Let_def split: prod.splits)
    next
      case (ActAfterRound c reason cm)
      obtain r io2 where r: "after_answer e c reason s io1 = (r, io2)" by fastforce
      from after_answer_due [OF r su] show ?thesis using assms(1) sv Inr ActAfterRound r
        by (auto simp: turn_pass_def Let_def split: prod.splits)
    next
      case (ActDone c res)
      then show ?thesis using assms(1) sv Inr su by (auto simp: turn_pass_def)
    qed
  qed
qed

lemma turn_loop_saved:
  "turn_loop n p e native a s io = Some (r, s', io') \<Longrightarrow> due p ctx a s io \<Longrightarrow>
     saved_up p ctx s' io' \<or> one_short p ctx s' io' \<and> (\<exists>err. r = Inl (TurnCommit err))"
proof (induction n arbitrary: native a s io)
  case (Suc n)
  obtain q where q: "turn_pass n p e native a s io = Some q"
    using Suc.prems(1) by (auto split: option.splits)
  note ps = turn_pass_saved [OF q Suc.prems(2)]
  show ?case
  proof (cases q)
    case (PassNext a' s1 native' io1)
    then show ?thesis using Suc.IH [of native' a' s1 io1] Suc.prems(1) q ps by simp
  next
    case (PassError err s1 io1)
    then have "\<exists>x. err = TurnCommit x" using q
      by (auto simp: turn_pass_def Let_def split: prod.splits sum.splits action.splits option.splits)
    then show ?thesis using Suc.prems(1) q PassError ps by auto
  next
    case (PassEnd res s1 io1)
    then show ?thesis using Suc.prems(1) q ps by (cases res) auto
  qed
qed simp

section \<open>Properties\<close>

text \<open>A turn whose hooks change nothing and whose model answers with one call, for the witnesses.\<close>

definition example_target :: target where
  "example_target =
     \<lparr>target_model = ''m'',
      target_route = \<lparr>base_url = ''https://h'', route_credential_header = None, route_headers = [],
        route_session_header = NoSessionHeader\<rparr>,
      target_wire = WireChat \<lparr>chat_dialect_of = ChatStandard, chat_thinking_format = FormatNone,
        chat_reasoning_replay = ReplayNone, chat_max_tokens_field = MaxTokens\<rparr>,
      tool_search = False\<rparr>"

definition example_model :: ai_model where
  "example_model = \<lparr>model_target = example_target, model_source = (\<lambda>_. Inr NoCredential),
     model_context_window = None\<rparr>"

definition example_parts :: turn_parts where
  "example_parts =
     \<lparr>tp_model = example_model, tp_toolset = Some example_toolset, tp_policy = default_policy,
      tp_has_journal = True, tp_system = [], tp_settings = new_settings, tp_session_id = None,
      tp_blobs = None, tp_lib = example_lib, tp_json = (\<lambda>_. None)\<rparr>"

definition example_env :: "nat option \<Rightarrow> 'w env" where
  "example_env c =
     \<lparr>env_cancel = c, env_wait = (\<lambda>_. 0), env_encode = (\<lambda>_ _ _. None),
      env_reply = (\<lambda>_ _ _ _. \<lparr>rr_events = [], rr_finish = Inr \<lparr>resp_info = no_info,
        resp_completion = example_completion\<rparr>, rr_cancel = (\<lambda>_. [])\<rparr>),
      env_random = (\<lambda>_. 0), env_scale = (\<lambda>d _. d div 4),
      env_before_round = (\<lambda>_ _. Inr empty_plan), env_retry_round = (\<lambda>_ _ _. Inr None),
      env_before_tool = (\<lambda>_ _. RunTool), env_after_tool = (\<lambda>_ _ _ _. (0, None)),
      env_after_round = (\<lambda>_ _ _. Inr Proceed), env_inbox = (\<lambda>_ w. (Inr [], w)),
      env_commit = (\<lambda>_ _ w. (None, w))\<rparr>"

text \<open>A driver without hooks and inbox keeps the pairing.\<close>

lemma no_hooks_keep: "keeps_pairing (\<lambda>_. True) (no_hooks (no_input e))"
  by (auto simp: keeps_pairing_def world_keeps_def keeps_call_ids_def no_hooks_def no_input_def empty_plan_def plan_keeps_def)

lemma example_env_keeps: "keeps_pairing (\<lambda>_. True) (example_env c)"
  by (auto simp: keeps_pairing_def world_keeps_def keeps_call_ids_def example_env_def empty_plan_def plan_keeps_def)

lemma run_turn_ends:
  assumes "env_cancel e = Some c" and "2 * (c - io_now io) + 2 \<le> fuel"
  shows "\<exists>r. run_turn fuel p e ctx input tokens io = Some r"
proof -
  obtain a s where a: "send_turn input (new_turn ctx tokens) = (a, s)" by fastforce
  then have "pass_fuel c a (io_now io) \<le> fuel"
    using assms(2) by (auto simp: send_turn_def split: prod.splits)
  from turn_loop_ends [OF assms(1) this] a show ?thesis by (auto simp: run_turn_def)
qed

lemma run_turn_saved:
  assumes "run_turn fuel p e ctx input tokens io = Some (r, s, io')" and "io_journal io = []"
  shows "saved_up p ctx s io' \<or> one_short p ctx s io' \<and> (\<exists>err. r = Inl (TurnCommit err))"
proof -
  obtain a s0 where a: "send_turn input (new_turn ctx tokens) = (a, s0)" by fastforce
  have "saved_up p ctx (new_turn ctx tokens) io"
    using assms(2) by (simp add: saved_up_def new_turn_def)
  then have "due p ctx a s0 io" using due_calls(9) [of p ctx _ io input] a by (metis fst_conv snd_conv)
  with assms(1) a turn_loop_saved [of fuel p e False a s0 io r s io' ctx] show ?thesis
    by (simp add: run_turn_def)
qed

text \<open>
  C3: a cancel ends every turn. Whatever the model, the tools, the hooks, the inbox and the journal do,
  and however often they would go on, a turn with a cancel at the moment \<open>c\<close> returns within a number
  of passes that is linear in the time up to the cancel.
\<close>

theorem cancel_ends_turn:
  assumes "env_cancel e = Some c" and "2 * (c - io_now io) + 2 \<le> fuel"
  shows "\<exists>result s io'. run_turn fuel p e context input tokens io = Some (result, s, io')"
  using run_turn_ends [OF assms] by (metis prod_cases3)

theorem cancel_ends_turn_witness:
  "\<exists>result s io'. run_turn 42 example_parts (example_env (Some 20)) [] [UserText ''hi''] None (new_io ())
     = Some (result, s, io')"
  by (rule cancel_ends_turn [of _ 20]) (simp_all add: example_env_def new_io_def)


text \<open>The turn of the witness: cancelled before it starts, so only its input is saved.\<close>

lemma example_run:
  "run_turn 2 example_parts (example_env (Some 0)) [] [UserText ''hi''] None (new_io ()) =
     Some (Inr Cancelled,
       \<lparr>ts_context = [UserText ''hi''], ts_saved = 1, ts_turn_end = None, ts_input_tokens = None, ts_results = []\<rparr>,
       \<lparr>io_now = 2,
        io_log = [Inr (blocks_commit [UserText ''hi'']),
          Inr ((blocks_commit [])\<lparr>commit_end := Some (EndOutcome Cancelled),
            commit_display := \<lparr>disp_calls = [], disp_results = []\<rparr>\<rparr>)], io_world = ()\<rparr>)"
  by (simp add: run_turn_def turn_pass_def save_opt_def save_def await_world_def confirm_def done_at_def Let_def numeral_2_eq_2
      example_env_def example_parts_def new_io_def send_round_def race_def cancel_by_def answer_sent_def
      model_cancelled_def cancel_turn_def done_turn_def send_turn_def unsaved_commit_def take_unsaved_def
      new_turn_def extend_context_def saved_commit_def call_display_def indexed_calls_def end_from_result_def)




text \<open>
  The tools of an answer run in groups that follow the call order: the groups in a row are exactly
  the calls, each group is one serial call or only parallel calls, and no two groups of parallel calls
  touch, so as many calls as allowed run together.
\<close>

theorem call_groups_partition:
  "concat (call_groups par rs) = rs \<and>
   list_all (\<lambda>g. g \<noteq> [] \<and> (list_all par g \<or> (\<exists>r. g = [r] \<and> \<not> par r))) (call_groups par rs) \<and>
   (\<forall>i. \<not> (Suc i < length (call_groups par rs) \<and>
      list_all par (call_groups par rs ! i) \<and> list_all par (call_groups par rs ! Suc i)))"
  using call_groups_shape [of _ par rs] call_groups_maximal [of par rs]
  by (simp add: list_all_iff)

text \<open>
  C6: the outcomes of the tools come back in call order, one for each tool call of the answer, with the
  id of the call: also for calls that the bridge refuses, a hook blocks, a cancel stops, or that name no
  tool.
\<close>

theorem call_tools_answers_all:
  assumes "keeps_call_ids e" and "call_tools p e bs native io = (fs, io')"
  shows "map fin_call_id fs = map call_id (calls_in bs)"
  using assms by (rule call_tools_ids)

theorem call_tools_answers_all_witness:
  "map fin_call_id (fst (call_tools example_parts (example_env (Some 0)) [ToolCall example_call] False (new_io ())))
     = [''c1'']"
proof -
  have k: "keeps_call_ids (example_env (Some 0))" using example_env_keeps keeps_pairingD(1) by blast
  obtain fs io' where c: "call_tools example_parts (example_env (Some 0)) [ToolCall example_call] False (new_io ())
      = (fs, io')" by fastforce
  show ?thesis unfolding c fst_conv using call_tools_answers_all [OF k c] by (simp add: example_call_def)
qed

text \<open>
  A turn that is cancelled before it starts sends nothing and runs nothing: no attempt, no hook and
  no tool shows up for the observer, the context gains only the input, and the turn ends as cancelled
  unless the journal fails.
\<close>

theorem cancelled_turn_is_silent:
  assumes "env_cancel e = Some c" and "c \<le> io_now io" and "2 \<le> fuel"
  shows "\<exists>result s io'. run_turn fuel p e context input tokens io = Some (result, s, io') \<and>
     io_events io' = io_events io \<and> ts_context s = context @ input \<and>
     (result = Inr Cancelled \<or> (\<exists>err. result = Inl (TurnCommit err)))"
proof -
  obtain m where m: "fuel = Suc (Suc m)" using assms(3) by (metis add_2_eq_Suc le_Suc_ex)
  obtain a s where a: "send_turn input (new_turn context tokens) = (a, s)" by fastforce
  then obtain cm where cm: "a = ActSend cm" and ctx: "ts_context s = context @ input"
    by (auto simp: send_turn_def unsaved_commit_def take_unsaved_def new_turn_def Let_def)
  obtain sv io1 where sv: "save_opt p e cm io = (sv, io1)" by fastforce
  show ?thesis
  proof (cases sv)
    case (Inl err)
    then show ?thesis using m a cm sv ctx save_opt_fails(4) [OF sv [unfolded Inl]]
      by (auto simp: run_turn_def turn_pass_def)
  next
    case (Inr u)
    note ok = save_opt_ok [OF sv [unfolded Inr]]
    have "is_cancelled e (io_now io1)" using assms(1,2) ok(1) by (simp add: is_cancelled_def)
    then have "send_round n p e s io1 = Some (Inr (SentCancelled []), s, io1)" for n
      by (simp add: send_round_def Let_def race_when_cancelled)
    then have p1: "turn_pass n p e False a s io =
        Some (PassNext (fst (model_cancelled [] s)) (snd (model_cancelled [] s)) False io1)" for n
      using sv Inr cm by (simp add: turn_pass_def answer_sent_def case_prod_beta Let_def)
    obtain d where d: "fst (model_cancelled [] s) = ActDone d (Inr Cancelled)"
      "ts_context (snd (model_cancelled [] s)) = ts_context s"
      by (simp add: model_cancelled_def cancel_turn_def done_turn_def take_unsaved_def Let_def)
    obtain sv2 io2 where sv2: "save_opt p e (Some d) io1 = (sv2, io2)" by fastforce
    have ev: "io_events io2 = io_events io"
    proof (cases sv2)
      case (Inl err)
      then show ?thesis using save_opt_fails(4) [OF sv2 [unfolded Inl]] ok(3) by simp
    next
      case (Inr u')
      then show ?thesis using save_opt_ok(3) [OF sv2 [unfolded Inr]] ok(3) by simp
    qed
    show ?thesis
      using m a p1 d sv2 ev ctx
      by (cases sv2) (auto simp: run_turn_def turn_pass_def [of m p e False "ActDone d (Inr Cancelled)"])
  qed
qed

theorem cancelled_turn_is_silent_witness:
  "\<exists>result s io'. run_turn 2 example_parts (example_env (Some 0)) [] [UserText ''hi''] None (new_io ())
       = Some (result, s, io') \<and>
     io_events io' = io_events (new_io ()) \<and> ts_context s = [] @ [UserText ''hi''] \<and>
     (result = Inr Cancelled \<or> (\<exists>err. result = Inl (TurnCommit err)))"
  by (rule cancelled_turn_is_silent [of _ 0]) (simp_all add: example_env_def)

definition attempts_of :: "turn_event list \<Rightarrow> nat" where
  "attempts_of evs = length (filter (\<lambda>ev. ev = ResponseStarted) evs)"

lemma attempts_of_simps [simp]:
  "attempts_of [] = 0" "attempts_of (xs @ ys) = attempts_of xs + attempts_of ys"
  "attempts_of (ev # evs) = (if ev = ResponseStarted then 1 else 0) + attempts_of evs"
  by (simp_all add: attempts_of_def)

lemma io_events_race: "race e work io = (r, io') \<Longrightarrow> io_events io' = io_events io"
  by (erule race_cases) simp_all

lemma io_events_await: "await e work io = (r, io') \<Longrightarrow> io_events io' = io_events io"
  by (simp add: await_eq)

lemma attempts_of_reply:
  "reply_events e evs n io = (r, io') \<Longrightarrow> attempts_of (io_events io') = attempts_of (io_events io)"
proof (induction e evs n io arbitrary: r io' rule: reply_events.induct)
  case (1 e n io)
  then show ?case by (auto split: prod.splits raced.splits dest: io_events_race)
next
  case (2 e ev evs n io)
  then show ?case by (auto split: prod.splits raced.splits dest!: io_events_race)
qed

lemma attempts_of_attempt:
  "attempt p e m rq number io = (r, io') \<Longrightarrow> attempts_of (io_events io') \<le> Suc (attempts_of (io_events io))"
  unfolding attempt_def
  by (auto simp: Let_def split: prod.splits raced.splits sum.splits option.splits
      dest!: io_events_race io_events_await attempts_of_reply)

text \<open>
  a request never makes more attempts than the policy allows: the observer sees at most
  \<open>max_attempts\<close> starts of a response for it.
\<close>

theorem send_attempts_bounded:
  assumes "send p e m rq 1 io = (r, io')" and "1 \<le> max_attempts (tp_policy p)"
  shows "attempts_of (io_events io') \<le> attempts_of (io_events io) + max_attempts (tp_policy p)"
proof -
  have "send p e m rq number io = (r, io') \<Longrightarrow> number \<le> max_attempts (tp_policy p) \<Longrightarrow>
      attempts_of (io_events io') \<le> attempts_of (io_events io) + Suc (max_attempts (tp_policy p) - number)"
    for number
  proof (induction p e m rq number io arbitrary: r io' rule: send.induct)
    case (1 p e m rq number io)
    obtain a io1 where a: "attempt p e m rq number io = (a, io1)" by fastforce
    note le = attempts_of_attempt [OF a]
    show ?case
    proof (cases a)
      case (Ended x)
      then show ?thesis using 1(2) a le by (simp add: send.simps [of p e m rq number io])
    next
      case Again
      then have "send p e m rq (number + 1) io1 = (r, io')"
        using 1(2) a by (simp add: send.simps [of p e m rq number io])
      moreover have "number < max_attempts (tp_policy p)" using attempt_again a Again by blast
      ultimately show ?thesis using 1(1) [OF a [symmetric] Again] le by fastforce
    qed
  qed
  from this [OF assms] assms(2) show ?thesis by simp
qed

theorem send_attempts_bounded_witness:
  "attempts_of (io_events (snd (send example_parts (example_env None) example_model
     (new_request [UserText ''hi'']) 1 (new_io ())))) \<le> 5"
proof -
  obtain r io' where r: "send example_parts (example_env None) example_model
     (new_request [UserText ''hi'']) 1 (new_io ()) = (r, io')" by fastforce
  have "tp_policy example_parts = default_policy" by (simp add: example_parts_def)
  then show ?thesis unfolding r snd_conv using send_attempts_bounded [OF r]
    by (simp add: default_policy_def new_io_def io_events_def)
qed

end
