(* ===== verification/Protocol.thy ===== *)
theory Protocol
  imports Commit Utf8
begin

text \<open>
  The data of a session that clients and stores share, from \<open>crates/protocol/src/id.rs\<close>, \<open>input.rs\<close>,
  \<open>session.rs\<close> and \<open>event.rs\<close>: ids with their order, accepted inputs and what a commit keeps of them,
  titles, settings and saved events.
\<close>

section \<open>Ids\<close>

type_synonym session_id = nat \<comment> \<open>the 128 bits of a UUID, in the order of its bytes\<close>

datatype event_number = EventNumber (event_num: nat)
datatype input_id = InputId (input_num: nat)

instantiation event_number :: linorder
begin

definition less_eq_event_number :: "event_number \<Rightarrow> event_number \<Rightarrow> bool" where
  "a \<le> b \<longleftrightarrow> event_num a \<le> event_num b"

definition less_event_number :: "event_number \<Rightarrow> event_number \<Rightarrow> bool" where
  "a < b \<longleftrightarrow> event_num a < event_num b"

instance
  by standard (auto simp: less_eq_event_number_def less_event_number_def event_number.expand)

end

instantiation input_id :: linorder
begin

definition less_eq_input_id :: "input_id \<Rightarrow> input_id \<Rightarrow> bool" where
  "a \<le> b \<longleftrightarrow> input_num a \<le> input_num b"

definition less_input_id :: "input_id \<Rightarrow> input_id \<Rightarrow> bool" where
  "a < b \<longleftrightarrow> input_num a < input_num b"

instance
  by standard (auto simp: less_eq_input_id_def less_input_id_def input_id.expand)

end

lemma input_id_less [simp]: "InputId a < InputId b \<longleftrightarrow> a < b" "InputId a \<le> InputId b \<longleftrightarrow> a \<le> b"
  by (simp_all add: less_input_id_def less_eq_input_id_def)

lemma event_number_less [simp]: "EventNumber a < EventNumber b \<longleftrightarrow> a < b" "EventNumber a \<le> EventNumber b \<longleftrightarrow> a \<le> b"
  by (simp_all add: less_event_number_def less_eq_event_number_def)

section \<open>Inputs\<close>

datatype input_source = FromUser | FromPlugin string
datatype input_kind = Message | Notification

record input =
  in_source :: input_source
  in_kind :: input_kind
  in_content :: "block list"
  in_model_content :: "block list option"

datatype input_error = EmptyContent | EmptyModelContent

definition new_input :: "input_source \<Rightarrow> input_kind \<Rightarrow> block list \<Rightarrow> input_error + input" where
  "new_input source kind content =
     (if content = [] then Inl EmptyContent
      else Inr \<lparr>in_source = source, in_kind = kind, in_content = content, in_model_content = None\<rparr>)"

definition with_model_content :: "block list \<Rightarrow> input \<Rightarrow> input_error + input" where
  "with_model_content bs i =
     (if bs = [] then Inl EmptyModelContent
      else Inr (i\<lparr>in_model_content := (if bs \<noteq> in_content i then Some bs else None)\<rparr>))"

definition model_content :: "input \<Rightarrow> block list" where
  "model_content i = (case in_model_content i of None \<Rightarrow> in_content i | Some bs \<Rightarrow> bs)"

text \<open>The fields of a saved or received input, read back through the constructors.\<close>

definition read_input ::
  "input_source \<Rightarrow> input_kind \<Rightarrow> block list \<Rightarrow> block list option \<Rightarrow> input_error + input" where
  "read_input source kind content mc =
     (let i = new_input source kind content
      in case mc of None \<Rightarrow> i | Some bs \<Rightarrow> bind_ok i (with_model_content bs))"

text \<open>\<open>str::replace\<close>: each match from the left, without overlap. The pattern is not empty.\<close>

function replace_all :: "'a list \<Rightarrow> 'a list \<Rightarrow> 'a list \<Rightarrow> 'a list" where
  "replace_all p r [] = []"
| "replace_all p r (x # xs) =
     (case strip_prefix p (x # xs) of
        Some rest \<Rightarrow> if length rest \<le> length xs then r @ replace_all p r rest else x # replace_all p r xs
      | None \<Rightarrow> x # replace_all p r xs)"
  by pat_completeness auto
termination
  by (relation "measure (\<lambda>(p, r, xs). length xs)") auto

definition closing_tag :: string where
  "closing_tag = ''</system_notification>''"

definition broken_tag :: string where
  "broken_tag = ''</ system_notification>''"

definition notification :: "string \<Rightarrow> string \<Rightarrow> string \<Rightarrow> input" where
  "notification plugin display t =
     \<lparr>in_source = FromPlugin plugin, in_kind = Notification, in_content = [UserText display],
      in_model_content = Some [UserText
        (''<system_notification plugin='' @ [CHR 0x22] @ plugin @ [CHR 0x22] @ ''>'' @
         replace_all closing_tag broken_tag t @ closing_tag)]\<rparr>"

record pending_input =
  pi_id :: input_id
  pi_input :: input

record consumed_input =
  ci_id :: input_id
  ci_source :: input_source
  ci_kind :: input_kind
  ci_display_content :: "block list option"
  ci_block_count :: nat

definition into_consumed :: "pending_input \<Rightarrow> consumed_input \<times> block list" where
  "into_consumed p =
     (let i = pi_input p;
          (display, blocks) =
            (case in_model_content i of Some mc \<Rightarrow> (Some (in_content i), mc) | None \<Rightarrow> (None, in_content i))
      in (\<lparr>ci_id = pi_id p, ci_source = in_source i, ci_kind = in_kind i, ci_display_content = display,
           ci_block_count = length blocks\<rparr>, blocks))"

section \<open>Sessions and events\<close>

record model_reference =
  mr_provider :: string
  mr_model :: string

record session_settings =
  ss_model :: model_reference
  ss_settings :: settings
  ss_cwd :: string

datatype session_event =
    CommitEvent commit "consumed_input list"
  | SettingsEvent session_settings

record stored_event =
  se_number :: event_number
  se_event :: session_event

type_synonym session_title = string

record session_summary =
  sum_id :: session_id
  sum_model :: model_reference
  sum_cwd :: string
  sum_title :: "session_title option"
  sum_created_at :: nat
  sum_updated_at :: nat
  sum_fork_of :: "session_id option"
  sum_parent :: "session_id option"

section \<open>Titles\<close>

definition max_title_characters :: nat where
  "max_title_characters = 200"

text \<open>\<open>split_whitespace\<close>: the words, with the word that the reader is in.\<close>

fun split_words :: "nat list \<Rightarrow> nat list \<Rightarrow> nat list list" where
  "split_words w [] = (if w = [] then [] else [w])"
| "split_words w (c # cs) =
     (if is_whitespace c then (if w = [] then split_words [] cs else w # split_words [] cs)
      else split_words (w @ [c]) cs)"

definition normalize_title :: "nat list \<Rightarrow> nat list" where
  "normalize_title cs = join [32] (split_words [] cs)"

text \<open>The characters of a title; a \<open>String\<close> always has them.\<close>

definition characters :: "string \<Rightarrow> nat list" where
  "characters t = (case chars_of t of None \<Rightarrow> [] | Some cs \<Rightarrow> cs)"

definition title_text :: "nat list \<Rightarrow> string" where
  "title_text cs = text_of (utf8_encode cs)"

definition new_title :: "string \<Rightarrow> session_title option" where
  "new_title t =
     (let cs = normalize_title (characters t)
      in if cs = [] \<or> length cs > max_title_characters then None else Some (title_text cs))"

definition title_from_text :: "string \<Rightarrow> session_title option" where
  "title_from_text t =
     (let cs = trim_end is_whitespace (take max_title_characters (normalize_title (characters t)))
      in if cs = [] then None else Some (title_text cs))"

section \<open>Facts on inputs\<close>

definition input_ok :: "input \<Rightarrow> bool" where
  "input_ok i \<longleftrightarrow> in_content i \<noteq> [] \<and> (case in_model_content i of None \<Rightarrow> True | Some bs \<Rightarrow> bs \<noteq> [])"

lemma new_input_ok: "new_input s k c = Inr i \<Longrightarrow> input_ok i"
  by (auto simp: new_input_def input_ok_def split: if_splits)

lemma with_model_content_ok: "with_model_content bs i = Inr i' \<Longrightarrow> input_ok i \<Longrightarrow> input_ok i'"
  by (auto simp: with_model_content_def input_ok_def split: if_splits)

lemma notification_ok: "input_ok (notification p d t)"
  by (simp add: notification_def input_ok_def)

lemma model_content_nonempty: "input_ok i \<Longrightarrow> model_content i \<noteq> []"
  by (auto simp: input_ok_def model_content_def split: option.splits)

lemma into_consumed_fields [simp]:
  "ci_id (fst (into_consumed p)) = pi_id p"
  "snd (into_consumed p) = model_content (pi_input p)"
  "ci_block_count (fst (into_consumed p)) = length (model_content (pi_input p))"
  by (simp_all add: into_consumed_def model_content_def Let_def split: option.split)

section \<open>A notice cannot end its tag\<close>

lemma replace_all_head:
  assumes "prefix q (replace_all p r xs)" "\<forall>c\<in>set q. c \<noteq> a" "r = a # r'"
  shows "prefix q xs"
  using assms(1,2)
proof (induction q arbitrary: xs)
  case (Cons c q)
  obtain x ys where xs: "xs = x # ys" using Cons.prems(1) by (cases xs) auto
  have "replace_all p r xs = x # replace_all p r ys"
  proof (rule ccontr)
    assume "replace_all p r xs \<noteq> x # replace_all p r ys"
    then have "\<exists>zs. replace_all p r xs = r @ zs" using xs by (auto split: option.splits if_splits)
    then show False using Cons.prems assms(3) by auto
  qed
  then have "c = x" "prefix q (replace_all p r ys)" using Cons.prems(1) by auto
  with Cons.IH [of ys] Cons.prems(2) xs show ?case by simp
qed simp

lemma replace_all_free:
  assumes "p = a # p'" "\<forall>c\<in>set p'. c \<noteq> a" "r = a # r'" "\<forall>c\<in>set r'. c \<noteq> a"
    and "\<And>zs. \<not> prefix p (r @ zs)"
  shows "\<not> prefix p (drop i (replace_all p r xs))"
proof (induction "length xs" arbitrary: xs i rule: less_induct)
  case less
  show ?case
  proof (cases xs)
    case Nil
    then show ?thesis using assms(1) by simp
  next
    case (Cons x ys)
    show ?thesis
    proof (cases "\<exists>rest. xs = p @ rest")
      case True
      then obtain rest where rest: "xs = p @ rest" by blast
      then have e: "replace_all p r xs = r @ replace_all p r rest"
        using assms(1) by simp
      consider "i = 0" | j where "i = Suc j" "j < length r'" | "i \<ge> length r"
        using assms(3) by (cases i) force+
      then show ?thesis
      proof cases
        case 1
        then show ?thesis using e assms(5) by simp
      next
        case 2
        then have "drop i (replace_all p r xs) = r' ! j # drop (Suc j) r' @ replace_all p r rest"
          using e assms(3) by (simp add: Cons_nth_drop_Suc [symmetric] del: Cons_nth_drop_Suc)
        moreover have "r' ! j \<noteq> a" using 2(2) assms(4) by simp
        ultimately show ?thesis using assms(1) by simp
      next
        case 3
        then show ?thesis using less [of rest "i - length r"] e rest assms(1) by simp
      qed
    next
      case False
      then have np: "strip_prefix p xs = None" by (cases "strip_prefix p xs") auto
      then have e: "replace_all p r xs = x # replace_all p r ys" using Cons by simp
      show ?thesis
      proof (cases i)
        case 0
        show ?thesis
        proof
          assume "prefix p (drop i (replace_all p r xs))"
          then have "x = a" "prefix p' (replace_all p r ys)" using 0 e assms(1) by auto
          then have "prefix p xs" using replace_all_head [OF _ assms(2,3)] Cons assms(1) by simp
          then show False using np by (simp add: strip_prefix_None)
        qed
      next
        case (Suc j)
        then show ?thesis using less [of ys j] e Cons by simp
      qed
    qed
  qed
qed

text \<open>
  C16: whatever a plugin writes into a notification, the text that the model reads holds no closing tag
  of its own, so it cannot end the notice early and speak outside of it.
\<close>

theorem notification_tag_closed:
  "\<not> sublist closing_tag (replace_all closing_tag broken_tag t) \<and>
   model_content (notification plugin display t) = [UserText
     (''<system_notification plugin='' @ [CHR 0x22] @ plugin @ [CHR 0x22] @ ''>'' @
      replace_all closing_tag broken_tag t @ closing_tag)]"
proof -
  have "\<not> prefix closing_tag (drop i (replace_all closing_tag broken_tag t))" for i
    by (rule replace_all_free [where a = "CHR ''<''" and p' = "tl closing_tag" and r' = "tl broken_tag"])
      (simp_all add: closing_tag_def broken_tag_def)
  moreover have "\<exists>i. prefix closing_tag (drop i ys)" if "sublist closing_tag ys" for ys
    using that by (metis append_eq_conv_conj prefixI sublist_def)
  ultimately show ?thesis by (auto simp: notification_def model_content_def)
qed

section \<open>Titles are normalized\<close>

definition words_ok :: "nat list list \<Rightarrow> bool" where
  "words_ok ws \<longleftrightarrow> (\<forall>w\<in>set ws. w \<noteq> [] \<and> (\<forall>c\<in>set w. \<not> is_whitespace c))"

lemma words_ok_simps [simp]:
  "words_ok []"
  "words_ok (w # ws) \<longleftrightarrow> w \<noteq> [] \<and> (\<forall>c\<in>set w. \<not> is_whitespace c) \<and> words_ok ws"
  by (auto simp: words_ok_def)

lemma space_is_whitespace [simp]: "is_whitespace 32"
  by (simp add: is_whitespace_def)

lemma split_words_ok: "\<forall>c\<in>set w. \<not> is_whitespace c \<Longrightarrow> words_ok (split_words w cs)"
  by (induction w cs rule: split_words.induct) auto

lemma split_words_run:
  "\<forall>c\<in>set v. \<not> is_whitespace c \<Longrightarrow> split_words w (v @ cs) = split_words (w @ v) cs"
  by (induction v arbitrary: w) auto

lemma split_words_join: "words_ok ws \<Longrightarrow> split_words [] (join [32] ws) = ws"
proof (induction "[32::nat]" ws rule: join.induct)
  case (2 w)
  then show ?case using split_words_run [of w "[]" "[]"] by simp
next
  case (3 w v vs)
  then show ?case using split_words_run [of w "[]" "32 # join [32] (v # vs)"] by simp
qed simp

lemma normalize_words: "words_ok ws \<Longrightarrow> normalize_title (join [32] ws) = join [32] ws"
  by (simp add: normalize_title_def split_words_join)

lemma trim_end_append:
  "trim_end P (xs @ ys) = (if trim_end P ys = [] then trim_end P xs else xs @ trim_end P ys)"
proof (cases "\<forall>y\<in>set ys. P y")
  case True
  then have "dropWhile P (rev ys @ rev xs) = dropWhile P (rev xs)" by (intro dropWhile_append2) simp
  with True show ?thesis by (simp add: trim_end_def)
next
  case False
  then obtain y where "y \<in> set (rev ys)" "\<not> P y" by auto
  then have "dropWhile P (rev ys @ rev xs) = dropWhile P (rev ys) @ rev xs" by (rule dropWhile_append1)
  with False show ?thesis by (auto simp: trim_end_def)
qed

lemma trim_end_none: "\<forall>x\<in>set xs. \<not> P x \<Longrightarrow> trim_end P xs = xs"
  by (cases xs rule: rev_cases) (simp_all add: trim_end_def)

lemma take_words:
  "words_ok ws \<Longrightarrow> \<exists>vs. words_ok vs \<and> trim_end is_whitespace (take n (join [32] ws)) = join [32] vs"
proof (induction "[32::nat]" ws arbitrary: n rule: join.induct)
  case 1
  then show ?case by (intro exI [of _ "[]"]) (simp add: trim_end_def)
next
  case (2 w)
  then have "trim_end is_whitespace (take n w) = take n w" by (intro trim_end_none) (auto dest: in_set_takeD)
  moreover have "words_ok (if take n w = [] then [] else [take n w])"
    using 2 by (auto dest: in_set_takeD)
  ultimately show ?case by (intro exI [of _ "if take n w = [] then [] else [take n w]"]) auto
next
  case (3 w v vs)
  then have w: "w \<noteq> []" "\<forall>c\<in>set w. \<not> is_whitespace c" and vs: "words_ok (v # vs)" by auto
  show ?case
  proof (cases "n \<le> length w")
    case True
    have "trim_end is_whitespace (take n w) = take n w" using w by (intro trim_end_none) (auto dest: in_set_takeD)
    moreover have "words_ok (if take n w = [] then [] else [take n w])" using w by (auto dest: in_set_takeD)
    ultimately show ?thesis using True
      by (intro exI [of _ "if take n w = [] then [] else [take n w]"]) auto
  next
    case False
    then obtain m where m: "n = Suc (length w + m)" by (metis add_Suc_right less_imp_Suc_add not_le)
    obtain us where us: "words_ok us" "trim_end is_whitespace (take m (join [32] (v # vs))) = join [32] us"
      using 3(1) [OF vs, of m] by blast
    have t: "trim_end is_whitespace ([32] @ ys) =
        (if trim_end is_whitespace ys = [] then [] else [32] @ trim_end is_whitespace ys)" for ys
      by (subst trim_end_append) (simp add: trim_end_def)
    have e: "take n (join [32] (w # v # vs)) = w @ [32] @ take m (join [32] (v # vs))"
      using m by simp
    show ?thesis
    proof (cases us)
      case Nil
      then have "trim_end is_whitespace (take n (join [32] (w # v # vs))) = join [32] [w]"
        unfolding e using us(2) trim_end_none [OF w(2)] by (subst trim_end_append) (simp add: t del: append.simps)
      then show ?thesis using w by (intro exI [of _ "[w]"]) simp
    next
      case (Cons u us')
      have "join [32] us \<noteq> []" using Cons us(1) by (cases us') auto
      then have "trim_end is_whitespace (take n (join [32] (w # v # vs))) = join [32] (w # us)"
        unfolding e using us(2) Cons
        by (subst trim_end_append) (simp add: t del: append.simps)
      then show ?thesis using w us(1) by (intro exI [of _ "w # us"]) simp
    qed
  qed
qed

lemma characters_scalar:
  assumes "c \<in> set (characters t)"
  shows "is_scalar c"
proof -
  have "Scalar c \<in> set (utf8_items (bytes_of t))"
    using assms
    by (auto simp: characters_def chars_of_def utf8_chars_def set_filter_map
        split: option.splits if_splits utf8_item.splits) (metis utf8_item.exhaust)
  then show ?thesis by (rule utf8_items_scalar)
qed

lemma set_join: "set (join sep ws) \<subseteq> set sep \<union> \<Union> (set ` set ws)"
  by (induction sep ws rule: join.induct) auto

lemma split_words_set: "\<Union> (set ` set (split_words w cs)) \<subseteq> set w \<union> set cs"
  by (induction w cs rule: split_words.induct) auto

lemma normalize_scalar:
  assumes "c \<in> set (normalize_title (characters t))"
  shows "is_scalar c"
proof -
  have "c = 32 \<or> c \<in> \<Union> (set ` set (split_words [] (characters t)))"
    using assms set_join [of "[32]" "split_words [] (characters t)"] by (auto simp: normalize_title_def)
  then have "c = 32 \<or> c \<in> set (characters t)" using split_words_set [of "[]" "characters t"] by auto
  then show ?thesis using characters_scalar by (auto simp: is_scalar_def)
qed

lemma characters_title_text: "\<forall>c\<in>set cs. is_scalar c \<Longrightarrow> characters (title_text cs) = cs"
  unfolding characters_def chars_of_def title_text_def
  by (simp only: bytes_of_encode utf8_chars_encode option.case)

text \<open>
  C17: a title that yuke makes from the text of a message is a valid title that no client has to
  repair: it has 1 to 200 characters, and reading it back through the check of an explicit title gives
  the same title.
\<close>

theorem title_from_text_valid:
  assumes "title_from_text t = Some title"
  shows "new_title title = Some title \<and> 1 \<le> length (characters title) \<and>
     length (characters title) \<le> max_title_characters"
proof -
  define cs where "cs = trim_end is_whitespace (take max_title_characters (normalize_title (characters t)))"
  have title: "title = title_text cs" "cs \<noteq> []"
    using assms by (auto simp: title_from_text_def cs_def Let_def split: if_splits)
  have len: "length cs \<le> max_title_characters"
    using length_dropWhile_le [of is_whitespace "rev (take max_title_characters (normalize_title (characters t)))"]
    by (auto simp: cs_def trim_end_def)
  have sub: "set cs \<subseteq> set (normalize_title (characters t))"
    unfolding cs_def trim_end_def by (auto dest!: set_dropWhileD in_set_takeD)
  then have ch: "characters (title_text cs) = cs"
    using normalize_scalar by (intro characters_title_text) blast
  obtain vs where "words_ok vs" "cs = join [32] vs"
    using take_words [of "split_words [] (characters t)" max_title_characters] split_words_ok [of "[]"]
    unfolding cs_def normalize_title_def by auto
  then have "normalize_title cs = cs" using normalize_words by simp
  then show ?thesis using title ch len by (simp add: new_title_def Suc_le_eq)
qed

theorem title_from_text_valid_witness:
  "title_from_text ''  a '' = Some ''a'' \<and> new_title ''a'' = Some ''a''"
proof -
  have t: "title_from_text ''  a '' = Some ''a''"
    by (simp add: title_from_text_def characters_def chars_of_def utf8_chars_def bytes_of_def seq_len_def
        normalize_title_def is_whitespace_def max_title_characters_def trim_end_def title_text_def
        utf8_encode_def encode_char_def text_of_def char_of_def bit_0 Let_def)
  then show ?thesis using title_from_text_valid [OF t] by simp
qed

end
