(* ===== verification/Store.thy ===== *)
theory Store
  imports Protocol
begin

text \<open>
  What a store of sessions promises: the types of \<open>crates/agent/src/store.rs\<close> and its helpers
  \<open>title_of\<close> and \<open>check_consumed_blocks\<close>, and the locale \<open>session_store\<close> with the laws of the \<open>Store\<close>
  trait that a session relies on. \<open>Memory\<close> interprets the locale.
\<close>

section \<open>Types\<close>

record prompt_section =
  ps_key :: string
  ps_text :: string

datatype access = ReadAccess | WriteAccess

datatype event_page = After "event_number option" | Before "event_number option" nat

record loaded =
  ld_events :: "stored_event list"
  ld_pending :: "pending_input list"

datatype newest_turn = TurnEmpty | TurnOpen | TurnEnded turn_end

record opened =
  op_id :: session_id
  op_settings :: session_settings
  op_prompt :: "prompt_section list"
  op_context :: "block list"
  op_parent :: "session_id option"
  op_newest_turn :: newest_turn
  op_input_tokens :: "u64 option"
  op_lease :: bool

record session_page =
  pg_sessions :: "session_summary list"
  pg_next :: "nat option"

text \<open>\<open>Panicked\<close> stands for a failed \<open>expect\<close> of the source; no error of the source has that name.\<close>

datatype store_error =
    Owned
  | NotFound
  | NotACompletedTurn
  | InputNotPending input_id
  | InputBlocksExceedCommit
  | StoreFailed dyn_error
  | Panicked

fun store_error_dyn :: "store_error \<Rightarrow> dyn_error" where
  "store_error_dyn Owned = DynError ''another writer holds the session'' None"
| "store_error_dyn NotFound = DynError ''the store has no such session'' None"
| "store_error_dyn NotACompletedTurn = DynError ''the event does not end a completed turn'' None"
| "store_error_dyn (InputNotPending i) = DynError (''input '' @ show_nat (input_num i) @ '' is not pending'') None"
| "store_error_dyn InputBlocksExceedCommit =
     DynError ''the consumed inputs have more blocks than the commit'' None"
| "store_error_dyn (StoreFailed e) = DynError ''the store failed'' (Some e)"
| "store_error_dyn Panicked = DynError ''panic'' None"

definition newest_is_open :: "newest_turn \<Rightarrow> bool" where
  "newest_is_open t = (t = TurnOpen)"

definition title_of :: "input \<Rightarrow> session_title option" where
  "title_of i =
     (if in_kind i \<noteq> Message then None
      else title_from_text (join [CHR 0x0A]
             (filter_map (\<lambda>b. case b of UserText t \<Rightarrow> Some t | _ \<Rightarrow> None) (in_content i))))"

definition check_consumed_blocks :: "commit \<Rightarrow> consumed_input list \<Rightarrow> store_error + unit" where
  "check_consumed_blocks c consumed =
     (case checked_sum_from 0 (map ci_block_count consumed) of
        Some n \<Rightarrow> if n \<le> length (commit_blocks c) then Inr () else Inl InputBlocksExceedCommit
      | None \<Rightarrow> Inl InputBlocksExceedCommit)"

lemma check_consumed_blocks_ok:
  assumes "check_consumed_blocks c consumed = Inr u"
  shows "sum_list (map ci_block_count consumed) \<le> length (commit_blocks c)"
  using assms checked_sum_from_Some [of 0 "map ci_block_count consumed"]
  by (auto simp: check_consumed_blocks_def split: option.splits if_splits)

lemma check_consumed_blocks_accepts:
  assumes "sum_list (map ci_block_count consumed) \<le> length (commit_blocks c)"
    and "length (commit_blocks c) \<le> usize_max"
  shows "check_consumed_blocks c consumed = Inr ()"
  using assms checked_sum_from_le [of 0 "map ci_block_count consumed"]
  by (simp add: check_consumed_blocks_def)

section \<open>What the events of a session mean\<close>

definition commits_of :: "stored_event list \<Rightarrow> commit list" where
  "commits_of evs = filter_map (\<lambda>e. case se_event e of CommitEvent c _ \<Rightarrow> Some c | _ \<Rightarrow> None) evs"

definition events_context :: "stored_event list \<Rightarrow> block list" where
  "events_context evs = replay (commits_of evs) []"

text \<open>The ids of the inputs that the events consumed, in order.\<close>

definition consumed_ids :: "stored_event list \<Rightarrow> input_id list" where
  "consumed_ids evs =
     concat (map (\<lambda>e. case se_event e of CommitEvent _ ci \<Rightarrow> map ci_id ci | _ \<Rightarrow> []) evs)"

text \<open>The events have the numbers 1, 2, 3, and so on.\<close>

definition numbered :: "stored_event list \<Rightarrow> bool" where
  "numbered evs \<longleftrightarrow> (\<forall>i < length evs. se_number (evs ! i) = EventNumber (i + 1))"

lemma numbered_snoc:
  "numbered (evs @ [e]) \<longleftrightarrow> numbered evs \<and> se_number e = EventNumber (length evs + 1)"
  by (auto simp: numbered_def nth_append less_Suc_eq)

lemma numbered_take: "numbered evs \<Longrightarrow> numbered (take n evs)"
  by (simp add: numbered_def)

lemma commits_of_append [simp]: "commits_of (xs @ ys) = commits_of xs @ commits_of ys"
  by (simp add: commits_of_def)

lemma commits_of_one [simp]:
  "commits_of [\<lparr>se_number = n, se_event = CommitEvent c ci\<rparr>] = [c]"
  "commits_of [\<lparr>se_number = n, se_event = SettingsEvent s\<rparr>] = []"
  "commits_of [] = []"
  by (simp_all add: commits_of_def)

lemma consumed_ids_append [simp]: "consumed_ids (xs @ ys) = consumed_ids xs @ consumed_ids ys"
  by (simp add: consumed_ids_def)

lemma consumed_ids_one [simp]:
  "consumed_ids [\<lparr>se_number = n, se_event = CommitEvent c ci\<rparr>] = map ci_id ci"
  "consumed_ids [\<lparr>se_number = n, se_event = SettingsEvent s\<rparr>] = []"
  "consumed_ids [] = []"
  by (simp_all add: consumed_ids_def)

lemma filter_out_image: "set (map f (filter (\<lambda>p. f p \<notin> A) xs)) \<inter> A = {}"
  by auto

section \<open>The contract of a store\<close>

text \<open>
  \<open>events\<close> and \<open>pending\<close> are what a load shows of a session, \<open>ok\<close> the invariant of the store. A
  commit saves one event and removes exactly the inputs that it consumes, or changes nothing; an
  accepted input is pending under a new id; a removal takes one input away.
\<close>

locale session_store =
  fixes events :: "'s \<Rightarrow> session_id \<Rightarrow> stored_event list option"
    and pending :: "'s \<Rightarrow> session_id \<Rightarrow> pending_input list"
    and ok :: "'s \<Rightarrow> bool"
    and commit :: "session_id \<Rightarrow> nat \<Rightarrow> commit \<Rightarrow> consumed_input list \<Rightarrow> 's \<Rightarrow>
      (store_error + event_number) \<times> 's"
    and accept :: "session_id \<Rightarrow> input \<Rightarrow> 's \<Rightarrow> (store_error + input_id) \<times> 's"
    and remove :: "session_id \<Rightarrow> input_id \<Rightarrow> 's \<Rightarrow> (store_error + unit) \<times> 's"
  assumes ok_numbered: "ok s \<Longrightarrow> events s i = Some evs \<Longrightarrow> numbered evs"
    and ok_pending: "ok s \<Longrightarrow> sorted_wrt (<) (map pi_id (pending s i))"
    and ok_consumed: "ok s \<Longrightarrow> events s i = Some evs \<Longrightarrow>
      distinct (consumed_ids evs) \<and> set (consumed_ids evs) \<inter> set (map pi_id (pending s i)) = {}"
    and commit_saves: "ok s \<Longrightarrow> commit i now c ci s = (Inr n, s') \<Longrightarrow>
      ok s' \<and> (\<exists>evs. events s i = Some evs \<and> n = EventNumber (length evs + 1) \<and>
        events s' i = Some (evs @ [\<lparr>se_number = n, se_event = CommitEvent c ci\<rparr>])) \<and>
      set (map ci_id ci) \<subseteq> set (map pi_id (pending s i)) \<and> distinct (map ci_id ci) \<and>
      pending s' i = filter (\<lambda>p. pi_id p \<notin> set (map ci_id ci)) (pending s i)"
    and commit_fails: "ok s \<Longrightarrow> commit i now c ci s = (Inl e, s') \<Longrightarrow>
      ok s' \<and> events s' = events s \<and> pending s' = pending s"
    and commit_others: "ok s \<Longrightarrow> commit i now c ci s = (r, s') \<Longrightarrow> j \<noteq> i \<Longrightarrow>
      events s' j = events s j \<and> pending s' j = pending s j"
    and accept_saves: "ok s \<Longrightarrow> input_ok inp \<Longrightarrow> accept i inp s = (Inr k, s') \<Longrightarrow>
      ok s' \<and> events s' = events s \<and>
      pending s' i = pending s i @ [\<lparr>pi_id = k, pi_input = inp\<rparr>]"
    and accept_fails: "ok s \<Longrightarrow> accept i inp s = (Inl e, s') \<Longrightarrow> s' = s"
    and remove_saves: "ok s \<Longrightarrow> remove i k s = (Inr u, s') \<Longrightarrow>
      ok s' \<and> events s' = events s \<and> k \<in> set (map pi_id (pending s i)) \<and>
      pending s' i = filter (\<lambda>p. pi_id p \<noteq> k) (pending s i)"
    and remove_fails: "ok s \<Longrightarrow> remove i k s = (Inl e, s') \<Longrightarrow> s' = s"
begin

text \<open>A saved commit extends the context of the session as a replay does.\<close>

lemma commit_context:
  assumes "ok s" "commit i now c ci s = (Inr n, s')"
  shows "\<exists>evs evs'. events s i = Some evs \<and> events s' i = Some evs' \<and>
    events_context evs' = apply_commit c (events_context evs)"
  using commit_saves [OF assms] by (auto simp: events_context_def)

text \<open>No input is consumed twice: a second commit of a consumed input fails.\<close>

lemma consumed_once:
  assumes "ok s" "commit i now c ci s = (Inr n, s')" "x \<in> set (map ci_id ci)"
    and "x \<in> set (map ci_id ci')"
  shows "\<exists>e s''. commit i now' c' ci' s' = (Inl e, s'')"
proof (rule ccontr)
  assume "\<not> ?thesis"
  then obtain m s'' where m: "commit i now' c' ci' s' = (Inr m, s'')"
    by (metis old.sum.exhaust surj_pair)
  note sv = commit_saves [OF assms(1,2)]
  have ok: "ok s'" using sv by blast
  have "pending s' i = filter (\<lambda>p. pi_id p \<notin> set (map ci_id ci)) (pending s i)" using sv by blast
  then have gone: "x \<notin> set (map pi_id (pending s' i))" using assms(3) filter_out_image [of pi_id "set (map ci_id ci)" "pending s i"] by auto
  from commit_saves [OF ok m] assms(4) gone show False by blast
qed

text \<open>
  The writes of one owner, one after another. When each succeeds, the context is the replay of its
  commits; a failure leaves the store where it was.
\<close>

fun commit_all :: "session_id \<Rightarrow> nat \<Rightarrow> (commit \<times> consumed_input list) list \<Rightarrow> 's \<Rightarrow> (store_error + unit) \<times> 's" where
  "commit_all i now [] s = (Inr (), s)"
| "commit_all i now ((c, ci) # cs) s =
     (case commit i now c ci s of
        (Inl e, s') \<Rightarrow> (Inl e, s')
      | (Inr n, s') \<Rightarrow> commit_all i now cs s')"

lemma commit_all_context:
  assumes "ok s" "events s i = Some evs" "commit_all i now cs s = (r, s')"
  shows "\<exists>k evs'. k \<le> length cs \<and> (r = Inr () \<longrightarrow> k = length cs) \<and> ok s' \<and> events s' i = Some evs' \<and>
    events_context evs' = replay (take k (map fst cs)) (events_context evs)"
  using assms
proof (induction cs arbitrary: s evs)
  case (Cons x cs)
  obtain c ci where x: "x = (c, ci)" by fastforce
  obtain q s1 where q: "commit i now c ci s = (q, s1)" by fastforce
  show ?case
  proof (cases q)
    case (Inl e)
    then show ?thesis
      using Cons.prems x q commit_fails [OF Cons.prems(1) q [unfolded Inl]]
      by (intro exI [of _ 0] exI [of _ evs]) auto
  next
    case (Inr n)
    note sv = commit_saves [OF Cons.prems(1) q [unfolded Inr]]
    then obtain evs1 where e1: "events s1 i = Some evs1" "ok s1"
      "events_context evs1 = apply_commit c (events_context evs)"
      using Cons.prems(2) by (auto simp: events_context_def)
    have "commit_all i now cs s1 = (r, s')" using Cons.prems(3) x q Inr by simp
    from Cons.IH [OF e1(2,1) this] obtain k evs' where
      "k \<le> length cs" "r = Inr () \<longrightarrow> k = length cs" "ok s'" "events s' i = Some evs'"
      "events_context evs' = replay (take k (map fst cs)) (events_context evs1)" by blast
    then show ?thesis using x e1(3) by (intro exI [of _ "Suc k"] exI [of _ evs']) auto
  qed
qed (auto intro!: exI [of _ 0])

end

end
