(* ===== verification/Memory.thy ===== *)
theory Memory
  imports Store "HOL-Library.AList"
begin

text \<open>
  The store that keeps its sessions in memory, \<open>crates/agent/src/memory.rs\<close>. One function per method
  of the \<open>Store\<close> trait; the mutex makes each of them one step. A new session id, the time and the
  hash of a blob come from outside: \<open>id\<close>, \<open>now\<close> and \<open>sha\<close> are arguments. The hash map of the sessions
  is an association list, whose order no result depends on (see \<open>list_sessions\<close>).

  The theory holds the state and the operations. \<open>Memory_Facts\<close> proves the invariant of every reachable store and
  interprets the contract \<open>session_store\<close>; \<open>Store_Facts\<close> proves that no \<open>expect\<close> fails and what commits, forks,
  leases, pages and lists do.
\<close>

section \<open>The state\<close>

record saved =
  sv_prompt :: "prompt_section list"
  sv_events :: "stored_event list"
  sv_pending :: "pending_input list"
  sv_blobs :: "(digest \<times> u8 list) list"
  sv_newest_write :: nat
  sv_title :: "session_title option"
  sv_fork_of :: "session_id option"
  sv_parent :: "session_id option"
  sv_created_at :: nat
  sv_updated_at :: nat

record memory =
  ms_sessions :: "(session_id \<times> saved) list"
  ms_newest_input :: nat
  ms_writes :: nat
  ms_writers :: "session_id list"

definition new_memory :: memory where
  "new_memory = \<lparr>ms_sessions = [], ms_newest_input = 0, ms_writes = 0, ms_writers = []\<rparr>"

definition lookup :: "memory \<Rightarrow> session_id \<Rightarrow> saved option" where
  "lookup m i = map_of (ms_sessions m) i"

definition put :: "session_id \<Rightarrow> saved \<Rightarrow> memory \<Rightarrow> memory" where
  "put i sv m = m\<lparr>ms_sessions := AList.update i sv (ms_sessions m)\<rparr>"

definition next_write :: "memory \<Rightarrow> nat \<times> memory" where
  "next_write m = (ms_writes m + 1, m\<lparr>ms_writes := ms_writes m + 1\<rparr>)"

definition push_event :: "session_event \<Rightarrow> nat \<Rightarrow> nat \<Rightarrow> saved \<Rightarrow> event_number \<times> saved" where
  "push_event ev write now sv =
     (let n = EventNumber (length (sv_events sv) + 1)
      in (n, sv\<lparr>sv_events := sv_events sv @ [\<lparr>se_number = n, se_event = ev\<rparr>],
               sv_newest_write := write, sv_updated_at := now\<rparr>))"

section \<open>Reading a session\<close>

definition newest_settings :: "saved \<Rightarrow> session_settings option" where
  "newest_settings sv =
     find_map (\<lambda>e. case se_event e of SettingsEvent s \<Rightarrow> Some s | CommitEvent _ _ \<Rightarrow> None)
       (rev (sv_events sv))"

definition summary :: "session_id \<Rightarrow> saved \<Rightarrow> session_summary option" where
  "summary i sv =
     (case newest_settings sv of
        None \<Rightarrow> None
      | Some st \<Rightarrow> Some
          \<lparr>sum_id = i, sum_model = ss_model st, sum_cwd = ss_cwd st, sum_title = sv_title sv,
           sum_created_at = sv_created_at sv, sum_updated_at = sv_updated_at sv,
           sum_fork_of = sv_fork_of sv, sum_parent = sv_parent sv\<rparr>)"

text \<open>The replay of \<open>to_opened\<close>: the settings, the context, the newest turn, the input tokens.\<close>

record replayed =
  rp_settings :: "session_settings option"
  rp_context :: "block list"
  rp_newest_turn :: newest_turn
  rp_input_tokens :: "u64 option"

definition replay_event :: "stored_event \<Rightarrow> replayed \<Rightarrow> replayed" where
  "replay_event e r =
     (case se_event e of
        SettingsEvent s \<Rightarrow> r\<lparr>rp_settings := Some s\<rparr>
      | CommitEvent c _ \<Rightarrow>
          r\<lparr>rp_context := apply_commit c (rp_context r),
            rp_newest_turn := (case commit_end c of None \<Rightarrow> TurnOpen | Some te \<Rightarrow> TurnEnded te),
            rp_input_tokens :=
              (case commit_answer c of
                 Some a \<Rightarrow> usage_input (ans_usage a)
               | None \<Rightarrow> if commit_replaced c \<noteq> None then None else rp_input_tokens r)\<rparr>)"

definition replay_events :: "stored_event list \<Rightarrow> replayed" where
  "replay_events evs =
     fold replay_event evs
       \<lparr>rp_settings = None, rp_context = [], rp_newest_turn = TurnEmpty, rp_input_tokens = None\<rparr>"

definition to_opened :: "session_id \<Rightarrow> bool \<Rightarrow> saved \<Rightarrow> opened option" where
  "to_opened i lease sv =
     (let r = replay_events (sv_events sv) in
      case rp_settings r of
        None \<Rightarrow> None
      | Some st \<Rightarrow> Some
          \<lparr>op_id = i, op_settings = st, op_prompt = sv_prompt sv, op_context = rp_context r,
           op_parent = sv_parent sv, op_newest_turn = rp_newest_turn r,
           op_input_tokens = rp_input_tokens r, op_lease = lease\<rparr>)"

definition completed :: "stored_event \<Rightarrow> bool" where
  "completed e =
     (case se_event e of
        CommitEvent c _ \<Rightarrow> (case commit_end c of Some (EndOutcome (Completed _)) \<Rightarrow> True | _ \<Rightarrow> False)
      | SettingsEvent _ \<Rightarrow> False)"

definition is_commit :: "stored_event \<Rightarrow> bool" where
  "is_commit e = (case se_event e of CommitEvent _ _ \<Rightarrow> True | SettingsEvent _ \<Rightarrow> False)"

definition fork_cut :: "stored_event list \<Rightarrow> event_number option \<Rightarrow> store_error + nat" where
  "fork_cut evs through =
     (case through of
        Some n \<Rightarrow>
          (let stop = event_num n in
           if 1 \<le> stop \<and> stop - 1 < length evs \<and> completed (evs ! (stop - 1)) then Inr stop
           else Inl NotACompletedTurn)
      | None \<Rightarrow>
          Inr (case rposition completed evs of
                 Some i \<Rightarrow> i + 1
               | None \<Rightarrow> (case position is_commit evs of Some i \<Rightarrow> i | None \<Rightarrow> length evs)))"

section \<open>The methods of the store\<close>

definition or_panic :: "'a option \<Rightarrow> store_error + 'a" where
  "or_panic x = (case x of None \<Rightarrow> Inl Panicked | Some y \<Rightarrow> Inr y)"

text \<open>\<open>take_writer\<close> and the drop of a lease.\<close>

definition take_writer :: "session_id \<Rightarrow> memory \<Rightarrow> (store_error + unit) \<times> memory" where
  "take_writer i m =
     (if i \<in> set (ms_writers m) then (Inl Owned, m)
      else (Inr (), m\<lparr>ms_writers := i # ms_writers m\<rparr>))"

definition drop_lease :: "session_id \<Rightarrow> memory \<Rightarrow> memory" where
  "drop_lease i m = m\<lparr>ms_writers := removeAll i (ms_writers m)\<rparr>"

definition open_new :: "session_id \<Rightarrow> saved \<Rightarrow> memory \<Rightarrow> (store_error + opened) \<times> memory" where
  "open_new i sv m =
     (case take_writer i m of
        (Inl e, m1) \<Rightarrow> (Inl e, m1)
      | (Inr _, m1) \<Rightarrow>
          (case to_opened i True sv of
             None \<Rightarrow> (Inl Panicked, m1)
           | Some op \<Rightarrow> (Inr op, put i sv m1)))"

definition create_session ::
  "session_id \<Rightarrow> nat \<Rightarrow> session_settings \<Rightarrow> prompt_section list \<Rightarrow> session_id option \<Rightarrow> memory \<Rightarrow>
     (store_error + opened) \<times> memory" where
  "create_session i now st prompt parent m =
     (let sv = \<lparr>sv_prompt = prompt, sv_events = [], sv_pending = [], sv_blobs = [], sv_newest_write = 0,
                sv_title = None, sv_fork_of = None, sv_parent = parent, sv_created_at = now,
                sv_updated_at = now\<rparr>;
          (write, m1) = next_write m;
          (_, sv1) = push_event (SettingsEvent st) write now sv
      in open_new i sv1 m1)"

definition fork_prefix :: string where
  "fork_prefix = ''Fork '' @ map char_of [226 :: nat, 128, 148] @ '' ''"

definition fork_session ::
  "session_id \<Rightarrow> nat \<Rightarrow> session_id \<Rightarrow> event_number option \<Rightarrow> memory \<Rightarrow> (store_error + opened) \<times> memory" where
  "fork_session i now source through m =
     (let (write, m1) = next_write m in
      case lookup m1 source of
        None \<Rightarrow> (Inl NotFound, m1)
      | Some sv \<Rightarrow>
          (case fork_cut (sv_events sv) through of
             Inl e \<Rightarrow> (Inl e, m1)
           | Inr stop \<Rightarrow>
               open_new i
                 \<lparr>sv_prompt = sv_prompt sv, sv_events = take stop (sv_events sv), sv_pending = [],
                  sv_blobs = sv_blobs sv, sv_newest_write = write,
                  sv_title = (case sv_title sv of None \<Rightarrow> None | Some t \<Rightarrow> title_from_text (fork_prefix @ t)),
                  sv_fork_of = Some source, sv_parent = None, sv_created_at = now, sv_updated_at = now\<rparr> m1))"

definition set_settings ::
  "session_id \<Rightarrow> nat \<Rightarrow> session_settings \<Rightarrow> memory \<Rightarrow> (store_error + event_number) \<times> memory" where
  "set_settings i now st m =
     (let (write, m1) = next_write m in
      case lookup m1 i of
        None \<Rightarrow> (Inl NotFound, m1)
      | Some sv \<Rightarrow> (let (n, sv1) = push_event (SettingsEvent st) write now sv in (Inr n, put i sv1 m1)))"

definition rename_session :: "session_id \<Rightarrow> session_title \<Rightarrow> memory \<Rightarrow> (store_error + unit) \<times> memory" where
  "rename_session i t m =
     (case lookup m i of
        None \<Rightarrow> (Inl NotFound, m)
      | Some sv \<Rightarrow> (Inr (), put i (sv\<lparr>sv_title := Some t\<rparr>) m))"

definition accept_input :: "session_id \<Rightarrow> input \<Rightarrow> memory \<Rightarrow> (store_error + input_id) \<times> memory" where
  "accept_input i inp m =
     (let n = ms_newest_input m + 1 in
      case lookup m i of
        None \<Rightarrow> (Inl NotFound, m)
      | Some sv \<Rightarrow>
          let sv1 = (if sv_title sv = None then sv\<lparr>sv_title := title_of inp\<rparr> else sv);
              sv2 = sv1\<lparr>sv_pending := sv_pending sv1 @ [\<lparr>pi_id = InputId n, pi_input = inp\<rparr>]\<rparr>
          in (Inr (InputId n), (put i sv2 m)\<lparr>ms_newest_input := n\<rparr>))"

definition remove_input :: "session_id \<Rightarrow> input_id \<Rightarrow> memory \<Rightarrow> (store_error + unit) \<times> memory" where
  "remove_input i inp m =
     (case lookup m i of
        None \<Rightarrow> (Inl NotFound, m)
      | Some sv \<Rightarrow>
          (case position (\<lambda>p. pi_id p = inp) (sv_pending sv) of
             None \<Rightarrow> (Inl (InputNotPending inp), m)
           | Some k \<Rightarrow>
               (Inr (), put i (sv\<lparr>sv_pending := take k (sv_pending sv) @ drop (Suc k) (sv_pending sv)\<rparr>) m)))"

definition list_filter ::
  "string option \<Rightarrow> session_id option \<Rightarrow> nat option \<Rightarrow> session_id \<times> saved \<Rightarrow> bool" where
  "list_filter cwd parent after x =
     (sv_parent (snd x) = parent \<and>
      (case after of None \<Rightarrow> True | Some b \<Rightarrow> sv_newest_write (snd x) < b) \<and>
      (case cwd of
         None \<Rightarrow> True
       | Some d \<Rightarrow> (case newest_settings (snd x) of None \<Rightarrow> False | Some st \<Rightarrow> ss_cwd st = d)))"

definition listed ::
  "string option \<Rightarrow> session_id option \<Rightarrow> nat option \<Rightarrow> memory \<Rightarrow> (session_id \<times> saved) list" where
  "listed cwd parent after m =
     sort_key (\<lambda>x. - int (sv_newest_write (snd x))) (filter (list_filter cwd parent after) (ms_sessions m))"

definition list_sessions ::
  "string option \<Rightarrow> session_id option \<Rightarrow> nat option \<Rightarrow> nat \<Rightarrow> memory \<Rightarrow> store_error + session_page" where
  "list_sessions cwd parent after limit m =
     (let ls = listed cwd parent after m;
          nxt = (if length ls > limit \<and> 1 \<le> limit
                 then Some (sv_newest_write (snd (ls ! (limit - 1)))) else None);
          sums = map (\<lambda>(i, sv). summary i sv) (take limit ls)
      in if None \<in> set sums then Inl Panicked
         else Inr \<lparr>pg_sessions = map the sums, pg_next = nxt\<rparr>)"

definition session_summary :: "session_id \<Rightarrow> memory \<Rightarrow> store_error + session_summary" where
  "session_summary i m =
     (case lookup m i of None \<Rightarrow> Inl NotFound | Some sv \<Rightarrow> or_panic (summary i sv))"

definition open_session :: "session_id \<Rightarrow> access \<Rightarrow> memory \<Rightarrow> (store_error + opened) \<times> memory" where
  "open_session i acc m =
     (case lookup m i of
        None \<Rightarrow> (Inl NotFound, m)
      | Some sv \<Rightarrow>
          (case acc of
             ReadAccess \<Rightarrow> (or_panic (to_opened i False sv), m)
           | WriteAccess \<Rightarrow>
               (case take_writer i m of
                  (Inl e, m1) \<Rightarrow> (Inl e, m1)
                | (Inr _, m1) \<Rightarrow> (or_panic (to_opened i True sv), m1))))"

text \<open>The first consumed input that an earlier one repeats, or that is not pending.\<close>

fun refused_input :: "pending_input list \<Rightarrow> input_id list \<Rightarrow> consumed_input list \<Rightarrow> input_id option" where
  "refused_input ps seen [] = None"
| "refused_input ps seen (c # cs) =
     (if ci_id c \<in> set seen \<or> \<not> list_ex (\<lambda>p. pi_id p = ci_id c) ps then Some (ci_id c)
      else refused_input ps (ci_id c # seen) cs)"

definition commit_session ::
  "session_id \<Rightarrow> nat \<Rightarrow> commit \<Rightarrow> consumed_input list \<Rightarrow> memory \<Rightarrow> (store_error + event_number) \<times> memory" where
  "commit_session i now c consumed m =
     (case check_consumed_blocks c consumed of
        Inl e \<Rightarrow> (Inl e, m)
      | Inr _ \<Rightarrow>
          (case lookup m i of
             None \<Rightarrow> (Inl NotFound, m)
           | Some sv \<Rightarrow>
               (case refused_input (sv_pending sv) [] consumed of
                  Some x \<Rightarrow> (Inl (InputNotPending x), m)
                | None \<Rightarrow>
                    (let (write, m1) = next_write m;
                         sv1 = sv\<lparr>sv_pending := filter (\<lambda>p. \<not> list_ex (\<lambda>x. ci_id x = pi_id p) consumed)
                                                  (sv_pending sv)\<rparr>;
                         (n, sv2) = push_event (CommitEvent c consumed) write now sv1
                     in (Inr n, put i sv2 m1)))))"

definition pending_inputs :: "session_id \<Rightarrow> memory \<Rightarrow> store_error + pending_input list" where
  "pending_inputs i m = (case lookup m i of None \<Rightarrow> Inl NotFound | Some sv \<Rightarrow> Inr (sv_pending sv))"

definition page_events :: "event_page \<Rightarrow> stored_event list \<Rightarrow> stored_event list" where
  "page_events page evs =
     (case page of
        After after \<Rightarrow> drop (case after of None \<Rightarrow> 0 | Some a \<Rightarrow> min (event_num a) (length evs)) evs
      | Before before limit \<Rightarrow>
          (let stop = (case before of None \<Rightarrow> length evs | Some b \<Rightarrow> min (event_num b - 1) (length evs))
           in drop (stop - limit) (take stop evs)))"

definition load_session :: "session_id \<Rightarrow> event_page \<Rightarrow> memory \<Rightarrow> store_error + loaded" where
  "load_session i page m =
     (case lookup m i of
        None \<Rightarrow> Inl NotFound
      | Some sv \<Rightarrow> Inr \<lparr>ld_events = page_events page (sv_events sv), ld_pending = sv_pending sv\<rparr>)"

definition put_blob ::
  "(u8 list \<Rightarrow> digest) \<Rightarrow> session_id \<Rightarrow> u8 list \<Rightarrow> memory \<Rightarrow> (store_error + blob) \<times> memory" where
  "put_blob sha i bytes m =
     (let b = \<lparr>blob_digest = sha bytes, blob_len = length bytes\<rparr> in
      case lookup m i of
        None \<Rightarrow> (Inl NotFound, m)
      | Some sv \<Rightarrow>
          (Inr b, put i (sv\<lparr>sv_blobs := AList.update (blob_digest b) bytes (sv_blobs sv)\<rparr>) m))"

definition read_stored_blob :: "session_id \<Rightarrow> digest \<Rightarrow> memory \<Rightarrow> store_error + u8 list option" where
  "read_stored_blob i d m =
     (case lookup m i of None \<Rightarrow> Inl NotFound | Some sv \<Rightarrow> Inr (map_of (sv_blobs sv) d))"

definition delete_session :: "session_id \<Rightarrow> memory \<Rightarrow> (store_error + unit) \<times> memory" where
  "delete_session i m =
     (if lookup m i = None then (Inl NotFound, m)
      else if i \<in> set (ms_writers m) then (Inl Owned, m)
      else (Inr (), m\<lparr>ms_sessions := AList.delete i (ms_sessions m)\<rparr>))"

end
