(* ===== verification/Memory_Facts.thy ===== *)
theory Memory_Facts
  imports Memory
begin

text \<open>
  What holds of the store in memory: the invariant of every reachable store, the contract of a store
  (an interpretation of \<open>session_store\<close>), and the properties of commits, forks, pages and lists.
\<close>

section \<open>The invariant\<close>

definition starts_with_settings :: "stored_event list \<Rightarrow> bool" where
  "starts_with_settings evs \<longleftrightarrow> evs \<noteq> [] \<and> \<not> is_commit (hd evs)"

definition consumed_fit :: "stored_event list \<Rightarrow> bool" where
  "consumed_fit evs \<longleftrightarrow>
     (\<forall>e\<in>set evs. case se_event e of
        CommitEvent c ci \<Rightarrow> sum_list (map ci_block_count ci) \<le> length (commit_blocks c)
      | SettingsEvent _ \<Rightarrow> True)"

text \<open>\<open>n\<close> is the newest input of the store, \<open>w\<close> the number of its event writes.\<close>

definition saved_ok :: "nat \<Rightarrow> nat \<Rightarrow> saved \<Rightarrow> bool" where
  "saved_ok n w sv \<longleftrightarrow>
     numbered (sv_events sv) \<and> starts_with_settings (sv_events sv) \<and> consumed_fit (sv_events sv) \<and>
     sorted_wrt (<) (map pi_id (sv_pending sv)) \<and> (\<forall>p\<in>set (sv_pending sv). input_ok (pi_input p)) \<and>
     distinct (consumed_ids (sv_events sv)) \<and>
     set (consumed_ids (sv_events sv)) \<inter> set (map pi_id (sv_pending sv)) = {} \<and>
     (\<forall>i \<in> set (consumed_ids (sv_events sv)) \<union> set (map pi_id (sv_pending sv)). i \<le> InputId n) \<and>
     sv_newest_write sv \<le> w"

definition mem_ok :: "memory \<Rightarrow> bool" where
  "mem_ok m \<longleftrightarrow>
     distinct (map fst (ms_sessions m)) \<and>
     (\<forall>i sv. lookup m i = Some sv \<longrightarrow> saved_ok (ms_newest_input m) (ms_writes m) sv) \<and>
     (\<forall>i j a b. lookup m i = Some a \<longrightarrow> lookup m j = Some b \<longrightarrow>
        sv_newest_write a = sv_newest_write b \<longrightarrow> i = j) \<and>
     (\<forall>i\<in>set (ms_writers m). lookup m i \<noteq> None) \<and> distinct (ms_writers m)"

lemma saved_ok_mono:
  assumes "saved_ok n w sv" "n \<le> n'" "w \<le> w'"
  shows "saved_ok n' w' sv"
  using assms order_trans [of _ "InputId n" "InputId n'"] by (fastforce simp: saved_ok_def)

lemma lookup_put [simp]: "lookup (put i sv m) j = (if j = i then Some sv else lookup m j)"
  by (simp add: lookup_def put_def update_conv')

lemma put_fields [simp]:
  "ms_newest_input (put i sv m) = ms_newest_input m" "ms_writes (put i sv m) = ms_writes m"
  "ms_writers (put i sv m) = ms_writers m"
  by (simp_all add: put_def)

lemma lookup_fields [simp]:
  "lookup (m\<lparr>ms_newest_input := n\<rparr>) = lookup m" "lookup (m\<lparr>ms_writes := w\<rparr>) = lookup m"
  "lookup (m\<lparr>ms_writers := x\<rparr>) = lookup m"
  by (simp_all add: lookup_def fun_eq_iff)

lemma distinct_put: "distinct (map fst (ms_sessions m)) \<Longrightarrow> distinct (map fst (ms_sessions (put i sv m)))"
  by (simp add: put_def distinct_update)

lemma mem_okD:
  assumes "mem_ok m" "lookup m i = Some sv"
  shows "saved_ok (ms_newest_input m) (ms_writes m) sv"
  using assms unfolding mem_ok_def by blast

text \<open>How a change of one session keeps the invariant.\<close>

lemma mem_ok_put:
  assumes ok: "mem_ok m" and sv: "saved_ok (ms_newest_input m') (ms_writes m') sv"
    and sessions: "ms_sessions m' = AList.update i sv (ms_sessions m)"
    and grows: "ms_newest_input m \<le> ms_newest_input m'" "ms_writes m \<le> ms_writes m'"
    and fresh: "ms_writes m < sv_newest_write sv \<or>
      (\<exists>old. lookup m i = Some old \<and> sv_newest_write sv = sv_newest_write old)"
    and writers: "set (ms_writers m') \<subseteq> insert i (set (ms_writers m))" "distinct (ms_writers m')"
  shows "mem_ok m'"
proof -
  have lk: "lookup m' j = (if j = i then Some sv else lookup m j)" for j
    by (simp add: lookup_def sessions update_conv')
  have le: "sv_newest_write a \<le> ms_writes m" if "lookup m j = Some a" for j a
    using mem_okD [OF ok that] by (simp add: saved_ok_def)
  have uniq: "j = k" if "lookup m' j = Some a" "lookup m' k = Some b" "sv_newest_write a = sv_newest_write b"
    for j k a b
  proof -
    have old: "j' = k'" if "lookup m j' = Some a'" "lookup m k' = Some b'"
      "sv_newest_write a' = sv_newest_write b'" for j' k' a' b'
      using ok that unfolding mem_ok_def by blast
    have new: "j' = i" if "lookup m j' = Some a'" "sv_newest_write a' = sv_newest_write sv" for j' a'
      using fresh le [OF that(1)] that old by (metis not_le)
    show ?thesis using that old new by (simp add: lk split: if_splits)
  qed
  have "distinct (map fst (ms_sessions m'))"
    using ok by (simp add: mem_ok_def sessions distinct_update)
  moreover have "saved_ok (ms_newest_input m') (ms_writes m') a" if "lookup m' j = Some a" for j a
    using that sv saved_ok_mono [OF mem_okD [OF ok] grows] by (auto simp: lk split: if_splits)
  moreover have "\<forall>j\<in>set (ms_writers m'). lookup m' j \<noteq> None"
    using writers(1) ok by (auto simp: lk mem_ok_def)
  ultimately show ?thesis unfolding mem_ok_def using uniq writers(2) by blast
qed

lemma mem_ok_fields:
  assumes "mem_ok m" "ms_sessions m' = ms_sessions m" "ms_newest_input m' = ms_newest_input m"
    "ms_writes m \<le> ms_writes m'" "set (ms_writers m') \<subseteq> set (ms_writers m)" "distinct (ms_writers m')"
  shows "mem_ok m'"
proof -
  have "lookup m' = lookup m" by (simp add: lookup_def fun_eq_iff assms(2))
  then show ?thesis using assms saved_ok_mono [OF mem_okD [OF assms(1)] order_refl assms(4)]
    unfolding mem_ok_def by auto
qed

lemma mem_ok_new: "mem_ok new_memory"
  by (simp add: mem_ok_def new_memory_def lookup_def)

section \<open>Each method keeps the invariant\<close>

lemma find_map_settings:
  "starts_with_settings evs \<Longrightarrow>
     find_map (\<lambda>e. case se_event e of SettingsEvent s \<Rightarrow> Some s | CommitEvent _ _ \<Rightarrow> None) (rev evs) \<noteq> None"
  by (cases evs) (auto simp: starts_with_settings_def find_map_None is_commit_def split: session_event.splits)

lemma newest_settings_Some: "saved_ok n w sv \<Longrightarrow> \<exists>st. newest_settings sv = Some st"
  using find_map_settings [of "sv_events sv"] by (auto simp: newest_settings_def saved_ok_def)

lemma summary_Some: "saved_ok n w sv \<Longrightarrow> \<exists>s. summary i sv = Some s \<and> sum_id s = i"
  using newest_settings_Some [of n w sv] by (auto simp: summary_def)

lemma replay_settings_kept:
  "rp_settings r \<noteq> None \<Longrightarrow> rp_settings (fold replay_event evs r) \<noteq> None"
proof (induction evs arbitrary: r)
  case (Cons e evs)
  have "rp_settings (replay_event e r) \<noteq> None"
    using Cons.prems by (simp add: replay_event_def split: session_event.split)
  from Cons.IH [OF this] show ?case by simp
qed simp

lemma replay_settings: "starts_with_settings evs \<Longrightarrow> rp_settings (replay_events evs) \<noteq> None"
proof -
  assume "starts_with_settings evs"
  then obtain e evs' where evs: "evs = e # evs'" "\<not> is_commit e"
    by (cases evs) (auto simp: starts_with_settings_def)
  then have "rp_settings (replay_event e r) \<noteq> None" for r
    by (auto simp: replay_event_def is_commit_def split: session_event.splits)
  with evs(1) show ?thesis unfolding replay_events_def by (simp add: replay_settings_kept)
qed

lemma replay_context: "rp_context (fold replay_event evs r) = replay (commits_of evs) (rp_context r)"
  by (induction evs arbitrary: r)
    (auto simp: replay_event_def commits_of_def split: session_event.splits)

lemma replay_events_context: "rp_context (replay_events evs) = events_context evs"
  by (simp add: replay_events_def replay_context events_context_def)

lemma to_opened_Some:
  assumes "starts_with_settings (sv_events sv)"
  shows "\<exists>op. to_opened i lease sv = Some op \<and> op_context op = events_context (sv_events sv) \<and>
    op_id op = i \<and> op_lease op = lease \<and>
    op_newest_turn op = rp_newest_turn (replay_events (sv_events sv))"
  using replay_settings [OF assms] by (auto simp: to_opened_def Let_def replay_events_context)

lemma starts_snoc: "starts_with_settings evs \<Longrightarrow> starts_with_settings (evs @ [e])"
  by (cases evs) (simp_all add: starts_with_settings_def)

lemma push_event_fields [simp]:
  "fst (push_event ev write now sv) = EventNumber (length (sv_events sv) + 1)"
  "sv_events (snd (push_event ev write now sv)) =
     sv_events sv @ [\<lparr>se_number = EventNumber (length (sv_events sv) + 1), se_event = ev\<rparr>]"
  "sv_pending (snd (push_event ev write now sv)) = sv_pending sv"
  "sv_newest_write (snd (push_event ev write now sv)) = write"
  by (simp_all add: push_event_def Let_def)

lemma push_settings_ok:
  assumes "saved_ok n w sv" "w \<le> w'" "write \<le> w'"
  shows "saved_ok n w' (snd (push_event (SettingsEvent st) write now sv))"
  using assms by (auto simp: saved_ok_def numbered_snoc starts_snoc consumed_fit_def)

lemma open_new_ok:
  assumes "mem_ok m" "lookup m i = None" "saved_ok (ms_newest_input m) (ms_writes m) sv"
    and "\<forall>j a. lookup m j = Some a \<longrightarrow> sv_newest_write a < sv_newest_write sv"
  shows "mem_ok (snd (open_new i sv m))"
    "\<exists>op. open_new i sv m = (Inr op, put i sv (m\<lparr>ms_writers := i # ms_writers m\<rparr>)) \<and>
      to_opened i True sv = Some op"
proof -
  have w: "i \<notin> set (ms_writers m)" using assms(1,2) by (auto simp: mem_ok_def)
  obtain op where op: "to_opened i True sv = Some op"
    using to_opened_Some [of sv i True] assms(3) by (auto simp: saved_ok_def)
  have e: "open_new i sv m = (Inr op, put i sv (m\<lparr>ms_writers := i # ms_writers m\<rparr>))"
    using w op by (simp add: open_new_def take_writer_def)
  then show "\<exists>op. open_new i sv m = (Inr op, put i sv (m\<lparr>ms_writers := i # ms_writers m\<rparr>)) \<and>
      to_opened i True sv = Some op" using op by blast
  have uniq: "j = k" if "lookup m j = Some a" "lookup m k = Some b" "sv_newest_write a = sv_newest_write b"
    for j k a b using assms(1) that unfolding mem_ok_def by blast
  show "mem_ok (snd (open_new i sv m))"
    unfolding e snd_conv mem_ok_def
    using assms w distinct_put uniq mem_okD [OF assms(1)]
    by (auto simp: mem_ok_def distinct_put split: if_splits) (metis less_irrefl)+
qed

lemma new_saved_ok:
  assumes "mem_ok m" "lookup m i = None"
  shows "mem_ok (snd (create_session i now st prompt parent m))"
    "\<exists>op. fst (create_session i now st prompt parent m) = Inr op"
proof -
  let ?sv = "\<lparr>sv_prompt = prompt, sv_events = [], sv_pending = [], sv_blobs = [], sv_newest_write = 0,
                sv_title = None, sv_fork_of = None, sv_parent = parent, sv_created_at = now,
                sv_updated_at = now\<rparr>"
  let ?m1 = "m\<lparr>ms_writes := ms_writes m + 1\<rparr>"
  let ?sv1 = "snd (push_event (SettingsEvent st) (ms_writes m + 1) now ?sv)"
  have ok1: "mem_ok ?m1" using assms(1) by (intro mem_ok_fields [OF assms(1)]) (auto simp: mem_ok_def)
  have sv: "saved_ok (ms_newest_input ?m1) (ms_writes ?m1) ?sv1"
    by (simp add: saved_ok_def numbered_def starts_with_settings_def is_commit_def consumed_fit_def)
  have new: "\<forall>j a. lookup ?m1 j = Some a \<longrightarrow> sv_newest_write a < sv_newest_write ?sv1"
    using mem_okD [OF assms(1)] by (auto simp: saved_ok_def less_Suc_eq_le)
  have e: "create_session i now st prompt parent m = open_new i ?sv1 ?m1"
    by (simp add: create_session_def next_write_def Let_def case_prod_beta)
  note on = open_new_ok [OF ok1 _ sv new, of i]
  show "mem_ok (snd (create_session i now st prompt parent m))"
    "\<exists>op. fst (create_session i now st prompt parent m) = Inr op"
    unfolding e using on assms(2) by auto
qed

lemma fork_cut_bounds:
  assumes "fork_cut evs through = Inr k" "starts_with_settings evs"
  shows "1 \<le> k \<and> k \<le> length evs"
proof -
  have "i < length evs" if "rposition P evs = Some i" for i P using rposition_Some [OF that] by simp
  moreover have "1 \<le> i \<and> i < length evs" if "position is_commit evs = Some i" for i
    using position_Some [OF that] assms(2) by (cases i) (auto simp: starts_with_settings_def hd_conv_nth)
  ultimately show ?thesis using assms
    by (auto simp: fork_cut_def Let_def starts_with_settings_def Suc_le_eq split: option.splits if_splits)
qed

lemma take_ok:
  assumes "1 \<le> k" "starts_with_settings evs"
  shows "starts_with_settings (take k evs)"
  using assms by (cases evs) (auto simp: starts_with_settings_def take_Cons' )

lemma consumed_take: "set (consumed_ids (take k evs)) \<subseteq> set (consumed_ids evs)"
  "distinct (consumed_ids evs) \<Longrightarrow> distinct (consumed_ids (take k evs))"
  using consumed_ids_append [of "take k evs" "drop k evs"] by auto

lemma fork_saved_ok:
  assumes "saved_ok n w sv" "fork_cut (sv_events sv) through = Inr k" "w' \<ge> write"
  shows "saved_ok n w' (sv\<lparr>sv_events := take k (sv_events sv), sv_pending := [], sv_newest_write := write\<rparr>)"
proof -
  have k: "1 \<le> k" using fork_cut_bounds [OF assms(2)] assms(1) by (simp add: saved_ok_def)
  show ?thesis
    using assms(1,3) take_ok [OF k] consumed_take [where evs = "sv_events sv" and k = k]
    by (auto simp: saved_ok_def numbered_take consumed_fit_def dest: in_set_takeD)
qed

lemma saved_ok_cong:
  assumes "saved_ok n w sv" "sv_events sv' = sv_events sv" "sv_pending sv' = sv_pending sv"
    "sv_newest_write sv' = sv_newest_write sv"
  shows "saved_ok n w sv'"
  using assms by (simp add: saved_ok_def)

lemma fork_session_ok:
  assumes "mem_ok m" "lookup m i = None"
  shows "mem_ok (snd (fork_session i now source through m))"
proof -
  let ?m1 = "m\<lparr>ms_writes := ms_writes m + 1\<rparr>"
  have ok1: "mem_ok ?m1" using assms(1) by (intro mem_ok_fields [OF assms(1)]) (auto simp: mem_ok_def)
  show ?thesis
  proof (cases "lookup m source")
    case None
    then show ?thesis using ok1 by (simp add: fork_session_def next_write_def)
  next
    case (Some sv)
    show ?thesis
    proof (cases "fork_cut (sv_events sv) through")
      case (Inl e)
      then show ?thesis using Some ok1 by (simp add: fork_session_def next_write_def)
    next
      case (Inr k)
      define fork where "fork = \<lparr>sv_prompt = sv_prompt sv, sv_events = take k (sv_events sv), sv_pending = [],
                  sv_blobs = sv_blobs sv, sv_newest_write = ms_writes m + 1,
                  sv_title = (case sv_title sv of None \<Rightarrow> None | Some t \<Rightarrow> title_from_text (fork_prefix @ t)),
                  sv_fork_of = Some source, sv_parent = None, sv_created_at = now, sv_updated_at = now\<rparr>"
      have "saved_ok (ms_newest_input m) (ms_writes m + 1)
          (sv\<lparr>sv_events := take k (sv_events sv), sv_pending := [], sv_newest_write := ms_writes m + 1\<rparr>)"
        using fork_saved_ok [OF mem_okD [OF assms(1) Some] Inr, of "ms_writes m + 1" "ms_writes m + 1"] by simp
      from saved_ok_cong [OF this, of fork] have "saved_ok (ms_newest_input ?m1) (ms_writes ?m1) fork"
        by (simp add: fork_def)
      from open_new_ok(1) [OF ok1 _ this] assms(2) mem_okD [OF assms(1)]
      have "mem_ok (snd (open_new i fork ?m1))" by (auto simp: fork_def saved_ok_def less_Suc_eq_le)
      then show ?thesis using Some Inr by (simp add: fork_session_def next_write_def fork_def)
    qed
  qed
qed

lemma put_existing_ok:
  assumes "mem_ok m" "lookup m i = Some old"
    and "saved_ok (ms_newest_input m) (ms_writes m) sv" "sv_newest_write sv = sv_newest_write old"
  shows "mem_ok (put i sv m)"
  using assms by (intro mem_ok_put [OF assms(1), of "put i sv m" sv i]) (auto simp: put_def mem_ok_def)

lemma set_settings_ok:
  assumes "mem_ok m"
  shows "mem_ok (snd (set_settings i now st m))"
proof (cases "lookup m i")
  case None
  then have "snd (set_settings i now st m) = m\<lparr>ms_writes := ms_writes m + 1\<rparr>"
    by (simp add: set_settings_def next_write_def)
  then show ?thesis using assms by (simp only:) (rule mem_ok_fields, auto simp: mem_ok_def)
next
  case (Some sv)
  let ?sv1 = "snd (push_event (SettingsEvent st) (ms_writes m + 1) now sv)"
  have "saved_ok (ms_newest_input m) (ms_writes m + 1) ?sv1"
    using push_settings_ok [OF mem_okD [OF assms Some]] by simp
  then have "mem_ok (put i ?sv1 (m\<lparr>ms_writes := ms_writes m + 1\<rparr>))"
    using assms
    by (intro mem_ok_put [OF assms, of "put i ?sv1 (m\<lparr>ms_writes := ms_writes m + 1\<rparr>)" ?sv1 i])
      (auto simp: put_def mem_ok_def)
  then show ?thesis using Some by (simp add: set_settings_def next_write_def Let_def case_prod_beta)
qed

lemma rename_session_ok: "mem_ok m \<Longrightarrow> mem_ok (snd (rename_session i t m))"
  using mem_okD saved_ok_cong
  by (fastforce simp: rename_session_def split: option.split intro: put_existing_ok)

lemma put_blob_ok: "mem_ok m \<Longrightarrow> mem_ok (snd (put_blob sha i bytes m))"
  using mem_okD saved_ok_cong
  by (fastforce simp: put_blob_def Let_def split: option.split intro: put_existing_ok)

lemma sorted_snoc_less:
  "sorted_wrt (<) (xs @ [x]) \<longleftrightarrow> sorted_wrt (<) xs \<and> (\<forall>y\<in>set xs. y < (x::'a::linorder))"
  by (simp add: sorted_wrt_append)

lemma accept_input_ok:
  assumes "mem_ok m" "input_ok inp"
  shows "mem_ok (snd (accept_input i inp m))"
proof (cases "lookup m i")
  case None
  then show ?thesis using assms(1) by (simp add: accept_input_def)
next
  case (Some sv)
  define n where "n = ms_newest_input m + 1"
  define sv1 where "sv1 = (if sv_title sv = None then sv\<lparr>sv_title := title_of inp\<rparr> else sv)"
  define sv2 where "sv2 = sv1\<lparr>sv_pending := sv_pending sv1 @ [\<lparr>pi_id = InputId n, pi_input = inp\<rparr>]\<rparr>"
  have f: "sv_events sv2 = sv_events sv" "sv_pending sv2 = sv_pending sv @ [\<lparr>pi_id = InputId n, pi_input = inp\<rparr>]"
    "sv_newest_write sv2 = sv_newest_write sv"
    by (simp_all add: sv1_def sv2_def)
  have old: "saved_ok (ms_newest_input m) (ms_writes m) sv" using mem_okD [OF assms(1) Some] .
  have lt: "x < InputId n" if "x \<le> InputId (ms_newest_input m)" for x
    using that by (cases x) (simp add: n_def)
  have all: "\<forall>x \<in> set (consumed_ids (sv_events sv)) \<union> set (map pi_id (sv_pending sv)). x < InputId n"
    using old lt by (simp add: saved_ok_def)
  then have "InputId n \<notin> set (consumed_ids (sv_events sv))" by auto
  moreover have "sorted_wrt (<) (map pi_id (sv_pending sv2))"
    using old all by (simp add: saved_ok_def f sorted_snoc_less)
  moreover have "\<forall>x \<in> set (consumed_ids (sv_events sv2)) \<union> set (map pi_id (sv_pending sv2)). x \<le> InputId n"
    using all by (auto simp: f less_imp_le)
  ultimately have "saved_ok n (ms_writes m) sv2"
    using old assms(2) by (simp add: saved_ok_def f)
  then have "mem_ok ((put i sv2 m)\<lparr>ms_newest_input := n\<rparr>)"
    using assms(1) Some f(3)
    by (intro mem_ok_put [OF assms(1), of "(put i sv2 m)\<lparr>ms_newest_input := n\<rparr>" sv2 i])
      (auto simp: put_def mem_ok_def n_def)
  then show ?thesis using Some
    by (simp add: accept_input_def Let_def n_def sv1_def sv2_def)
qed

lemma saved_ok_filter:
  assumes "saved_ok n w sv"
  shows "saved_ok n w (sv\<lparr>sv_pending := filter P (sv_pending sv)\<rparr>)"
proof -
  have "sorted_wrt (<) (map pi_id (filter P (sv_pending sv)))"
    using assms by (simp add: saved_ok_def sorted_wrt_map sorted_wrt_filter)
  then show ?thesis using assms by (auto simp: saved_ok_def)
qed

lemma remove_position:
  "position (\<lambda>p. f p = x) ps = Some k \<Longrightarrow> distinct (map f ps) \<Longrightarrow>
     take k ps @ drop (Suc k) ps = filter (\<lambda>p. f p \<noteq> x) ps"
proof (induction ps arbitrary: k)
  case (Cons p ps)
  show ?case
  proof (cases "f p = x")
    case True
    then have "\<forall>q\<in>set ps. f q \<noteq> x" using Cons.prems(2) by (simp add: image_iff) metis
    then show ?thesis using Cons.prems(1) True by (simp add: filter_id_conv)
  next
    case False
    then show ?thesis using Cons by auto
  qed
qed simp

lemma distinct_pending: "saved_ok n w sv \<Longrightarrow> distinct (map pi_id (sv_pending sv))"
  by (simp add: saved_ok_def strict_sorted_iff)

lemma remove_input_eq:
  assumes "mem_ok m"
  shows "remove_input i x m =
     (case lookup m i of
        None \<Rightarrow> (Inl NotFound, m)
      | Some sv \<Rightarrow>
          if x \<in> set (map pi_id (sv_pending sv))
          then (Inr (), put i (sv\<lparr>sv_pending := filter (\<lambda>p. pi_id p \<noteq> x) (sv_pending sv)\<rparr>) m)
          else (Inl (InputNotPending x), m))"
proof (cases "lookup m i")
  case (Some sv)
  show ?thesis
  proof (cases "position (\<lambda>p. pi_id p = x) (sv_pending sv)")
    case None
    then have "x \<notin> set (map pi_id (sv_pending sv))" by (auto simp: position_None)
    then show ?thesis using Some None by (simp add: remove_input_def)
  next
    case k: (Some k)
    then have "x \<in> set (map pi_id (sv_pending sv))" using position_Some [OF k] by auto
    then show ?thesis
      using Some k remove_position [OF k distinct_pending [OF mem_okD [OF assms Some]]]
      by (simp add: remove_input_def)
  qed
qed (simp add: remove_input_def)

lemma remove_input_ok:
  assumes "mem_ok m"
  shows "mem_ok (snd (remove_input i x m))"
proof (cases "lookup m i")
  case (Some sv)
  have "mem_ok (put i (sv\<lparr>sv_pending := filter P (sv_pending sv)\<rparr>) m)" for P
    using put_existing_ok [OF assms Some saved_ok_filter [OF mem_okD [OF assms Some]]] by simp
  then show ?thesis using Some assms by (simp add: remove_input_eq)
qed (simp add: remove_input_eq assms)

lemma refused_input_None:
  "refused_input ps seen cs = None \<longleftrightarrow>
     distinct (map ci_id cs) \<and> set (map ci_id cs) \<inter> set seen = {} \<and>
     set (map ci_id cs) \<subseteq> set (map pi_id ps)"
proof (induction ps seen cs rule: refused_input.induct)
  case (2 ps seen c cs)
  have "list_ex (\<lambda>p. pi_id p = ci_id c) ps \<longleftrightarrow> ci_id c \<in> set (map pi_id ps)"
    unfolding list_ex_iff set_map image_iff by metis
  then show ?case using 2 by auto
qed simp

text \<open>A commit that passes its checks, and one that does not.\<close>

definition committed :: "nat \<Rightarrow> commit \<Rightarrow> consumed_input list \<Rightarrow> nat \<Rightarrow> saved \<Rightarrow> saved" where
  "committed now c ci write sv =
     snd (push_event (CommitEvent c ci) write now
       (sv\<lparr>sv_pending := filter (\<lambda>p. pi_id p \<notin> set (map ci_id ci)) (sv_pending sv)\<rparr>))"

lemma committed_fields [simp]:
  "sv_events (committed now c ci write sv) =
     sv_events sv @ [\<lparr>se_number = EventNumber (length (sv_events sv) + 1), se_event = CommitEvent c ci\<rparr>]"
  "sv_pending (committed now c ci write sv) =
     filter (\<lambda>p. pi_id p \<notin> set (map ci_id ci)) (sv_pending sv)"
  "sv_newest_write (committed now c ci write sv) = write"
  by (simp_all add: committed_def)

lemma commit_session_cases:
  assumes "commit_session i now c ci m = (r, m')"
  obtains (failed) e where "r = Inl e" "m' = m"
    | (saved) sv where "lookup m i = Some sv" "r = Inr (EventNumber (length (sv_events sv) + 1))"
      "m' = put i (committed now c ci (ms_writes m + 1) sv) (m\<lparr>ms_writes := ms_writes m + 1\<rparr>)"
      "distinct (map ci_id ci)" "set (map ci_id ci) \<subseteq> set (map pi_id (sv_pending sv))"
      "sum_list (map ci_block_count ci) \<le> length (commit_blocks c)"
proof (cases "\<exists>e. r = Inl e \<and> m' = m")
  case False
  then obtain u sv where b: "check_consumed_blocks c ci = Inr u" and sv: "lookup m i = Some sv"
    and rf: "refused_input (sv_pending sv) [] ci = None"
    using assms by (auto simp: commit_session_def split: sum.splits option.splits)
  have fl: "(\<lambda>p. \<not> list_ex (\<lambda>x. ci_id x = pi_id p) ci) = (\<lambda>p. pi_id p \<notin> set (map ci_id ci))"
    by (auto simp: list_ex_iff fun_eq_iff image_iff)
  have "r = Inr (EventNumber (length (sv_events sv) + 1))"
    "m' = put i (committed now c ci (ms_writes m + 1) sv) (m\<lparr>ms_writes := ms_writes m + 1\<rparr>)"
    using assms b sv rf unfolding commit_session_def committed_def fl
    by (auto simp: next_write_def Let_def case_prod_beta)
  with saved [OF sv] rf check_consumed_blocks_ok [OF b] show ?thesis
    by (simp add: refused_input_None)
qed (use failed in blast)

lemma committed_ok:
  assumes "saved_ok n w sv" "distinct (map ci_id ci)" "set (map ci_id ci) \<subseteq> set (map pi_id (sv_pending sv))"
    "sum_list (map ci_block_count ci) \<le> length (commit_blocks c)" "write \<le> w'" 
  shows "saved_ok n w' (committed now c ci write sv)"
proof -
  have "sorted_wrt (<) (map pi_id (filter P (sv_pending sv)))" for P
    using assms(1) by (simp add: saved_ok_def sorted_wrt_map sorted_wrt_filter)
  moreover have "distinct (consumed_ids (sv_events sv) @ map ci_id ci)"
    using assms(1-3) by (auto simp: saved_ok_def)
  moreover have "set (consumed_ids (sv_events sv) @ map ci_id ci) \<inter>
      set (map pi_id (filter (\<lambda>p. pi_id p \<notin> set (map ci_id ci)) (sv_pending sv))) = {}"
    using assms(1) by (auto simp: saved_ok_def)
  moreover have "\<forall>x \<in> set (consumed_ids (sv_events sv) @ map ci_id ci) \<union>
      set (map pi_id (filter (\<lambda>p. pi_id p \<notin> set (map ci_id ci)) (sv_pending sv))). x \<le> InputId n"
    using assms(1,3) by (auto simp: saved_ok_def)
  moreover have "numbered (sv_events (committed now c ci write sv))"
    "starts_with_settings (sv_events (committed now c ci write sv))"
    "consumed_fit (sv_events (committed now c ci write sv))"
    using assms(1,4) by (simp_all add: saved_ok_def numbered_snoc starts_snoc consumed_fit_def)
  ultimately show ?thesis using assms(1,5) unfolding saved_ok_def by simp
qed

lemma commit_session_ok:
  assumes "mem_ok m"
  shows "mem_ok (snd (commit_session i now c ci m))"
proof -
  obtain r m' where e: "commit_session i now c ci m = (r, m')" by fastforce
  then show ?thesis
  proof (cases rule: commit_session_cases)
    case (saved sv)
    have "saved_ok (ms_newest_input m) (ms_writes m + 1) (committed now c ci (ms_writes m + 1) sv)"
      using committed_ok [OF mem_okD [OF assms saved(1)] saved(4-6)] by simp
    then have "mem_ok m'" using assms unfolding saved(3)
      by (intro mem_ok_put [OF assms, of _ "committed now c ci (ms_writes m + 1) sv" i])
        (auto simp: put_def mem_ok_def)
    then show ?thesis using e by simp
  qed (use assms e in simp)
qed

lemma open_session_ok:
  assumes "mem_ok m"
  shows "mem_ok (snd (open_session i acc m))"
  using assms
  by (auto simp: open_session_def take_writer_def mem_ok_def split: option.split access.split)

lemma drop_lease_ok: "mem_ok m \<Longrightarrow> mem_ok (drop_lease i m)"
  by (rule mem_ok_fields) (auto simp: drop_lease_def mem_ok_def distinct_removeAll)

lemma delete_session_ok:
  assumes "mem_ok m"
  shows "mem_ok (snd (delete_session i m))"
proof -
  have lk: "lookup (m\<lparr>ms_sessions := AList.delete i (ms_sessions m)\<rparr>) j = (if j = i then None else lookup m j)" for j
    by (simp add: lookup_def delete_conv')
  have "distinct (map fst (AList.delete i (ms_sessions m)))"
    using assms by (simp add: mem_ok_def distinct_delete)
  moreover have "saved_ok (ms_newest_input m) (ms_writes m) a" if "lookup m j = Some a" for j a
    using mem_okD [OF assms that] .
  ultimately show ?thesis using assms lk
    unfolding delete_session_def mem_ok_def by (auto split: if_splits)
qed

section \<open>Reachable stores\<close>

text \<open>
  The calls of the sessions and of the application, and the drop of a lease. A new id is unused, and
  an input comes from a constructor of \<open>Input\<close>.
\<close>

inductive mem_step :: "memory \<Rightarrow> memory \<Rightarrow> bool" where
  create: "lookup m i = None \<Longrightarrow> mem_step m (snd (create_session i now st prompt parent m))"
| fork: "lookup m i = None \<Longrightarrow> mem_step m (snd (fork_session i now source through m))"
| settings: "mem_step m (snd (set_settings i now st m))"
| rename: "mem_step m (snd (rename_session i t m))"
| accept: "input_ok inp \<Longrightarrow> mem_step m (snd (accept_input i inp m))"
| remove: "mem_step m (snd (remove_input i k m))"
| open_session: "mem_step m (snd (open_session i acc m))"
| commit: "mem_step m (snd (commit_session i now c ci m))"
| blob: "mem_step m (snd (put_blob sha i bytes m))"
| delete: "mem_step m (snd (delete_session i m))"
| lease: "mem_step m (drop_lease i m)"

inductive reachable :: "memory \<Rightarrow> bool" where
  start: "reachable new_memory"
| step: "reachable m \<Longrightarrow> mem_step m m' \<Longrightarrow> reachable m'"

inductive_cases mem_stepE: "mem_step m m'"

lemma mem_step_ok: "mem_step m m' \<Longrightarrow> mem_ok m \<Longrightarrow> mem_ok m'"
  by (erule mem_stepE)
    (simp_all add: new_saved_ok(1) fork_session_ok set_settings_ok rename_session_ok accept_input_ok
      remove_input_ok open_session_ok commit_session_ok put_blob_ok delete_session_ok drop_lease_ok)

lemma reachable_ok: "reachable m \<Longrightarrow> mem_ok m"
  by (induction rule: reachable.induct) (auto intro: mem_ok_new mem_step_ok)

section \<open>The store keeps its contract\<close>

definition mem_events :: "memory \<Rightarrow> session_id \<Rightarrow> stored_event list option" where
  "mem_events m i = map_option sv_events (lookup m i)"

definition mem_pending :: "memory \<Rightarrow> session_id \<Rightarrow> pending_input list" where
  "mem_pending m i = (case lookup m i of None \<Rightarrow> [] | Some sv \<Rightarrow> sv_pending sv)"

lemmas mem_views = mem_events_def mem_pending_def

lemma accept_input_Some:
  assumes "accept_input i inp m = (Inr k, m')"
  shows "mem_events m' = mem_events m \<and>
    mem_pending m' i = mem_pending m i @ [\<lparr>pi_id = k, pi_input = inp\<rparr>] \<and>
    k = InputId (ms_newest_input m + 1)"
  using assms by (auto simp: accept_input_def mem_views Let_def fun_eq_iff split: option.splits)

lemma remove_input_Some:
  assumes "mem_ok m" "remove_input i k m = (Inr u, m')"
  shows "mem_events m' = mem_events m \<and> k \<in> set (map pi_id (mem_pending m i)) \<and>
    mem_pending m' i = filter (\<lambda>p. pi_id p \<noteq> k) (mem_pending m i)"
  using assms(2) by (auto simp: remove_input_eq [OF assms(1)] mem_views fun_eq_iff
      split: option.splits if_splits)

interpretation memory_store: session_store mem_events mem_pending mem_ok commit_session accept_input remove_input
proof (unfold_locales, goal_cases)
  case (1 s i evs)
  then show ?case using mem_okD [OF 1(1)] by (auto simp: mem_views saved_ok_def)
next
  case (2 s i)
  then show ?case using mem_okD [OF 2] by (auto simp: mem_views saved_ok_def split: option.split)
next
  case (3 s i evs)
  then obtain sv where "lookup s i = Some sv" "evs = sv_events sv" by (auto simp: mem_views)
  then show ?case using mem_okD [OF 3(1), of i sv] by (simp add: mem_views saved_ok_def)
next
  case (4 s i now c ci n s')
  from 4(2) show ?case
  proof (cases rule: commit_session_cases)
    case (saved sv)
    have "mem_ok s'" using commit_session_ok [OF 4(1), of i now c ci] 4(2) by simp
    then show ?thesis using saved(1,2,4,5) unfolding saved(3) by (simp add: mem_views)
  qed simp
next
  case (5 s i now c ci e s')
  from 5(2) show ?case by (cases rule: commit_session_cases) (simp_all add: 5(1))
next
  case (6 s i now c ci r s' j)
  from 6(2) show ?case by (cases rule: commit_session_cases) (simp_all add: mem_views 6(3))
next
  case (7 s inp i k s')
  then show ?case using accept_input_Some [OF 7(3)] accept_input_ok [OF 7(1,2), of i] by simp
next
  case (8 s i inp e s')
  then show ?case by (auto simp: accept_input_def Let_def split: option.splits)
next
  case (9 s i k u s')
  then show ?case using remove_input_Some [OF 9] remove_input_ok [OF 9(1), of i k] by simp
next
  case (10 s i k e s')
  then show ?case by (auto simp: remove_input_def split: option.splits)
qed

end
