(* ===== verification/Store_Facts.thy ===== *)
theory Store_Facts
  imports Memory_Facts
begin

text \<open>
  The properties of the store in memory: no reachable store panics, a commit is atomic and consumes an
  input once, an opened session has the context of its saved commits, a fork copies completed turns,
  one writer at a time, and the pages of events and of sessions miss and repeat nothing.
\<close>

section \<open>An example store\<close>

definition example_session_settings :: session_settings where
  "example_session_settings =
     \<lparr>ss_model = \<lparr>mr_provider = ''p'', mr_model = ''m''\<rparr>,
      ss_settings = new_settings, ss_cwd = ''/w''\<rparr>"

definition example_input :: input where
  "example_input = \<lparr>in_source = FromUser, in_kind = Notification, in_content = [UserText ''hi''],
     in_model_content = None\<rparr>"

definition example_turn :: commit where
  "example_turn = (blocks_commit [UserText ''hi''])\<lparr>commit_end := Some (EndOutcome (Completed FinStop))\<rparr>"

definition example_consumed :: consumed_input where
  "example_consumed = fst (into_consumed \<lparr>pi_id = InputId 1, pi_input = example_input\<rparr>)"

text \<open>A session with one pending input, the store that committed it, and the one without its writer.\<close>

definition example_accepted :: memory where
  "example_accepted = snd (accept_input 7 example_input (snd (create_session 7 0 example_session_settings [] None new_memory)))"

definition example_committed :: memory where
  "example_committed = snd (commit_session 7 1 example_turn [example_consumed] example_accepted)"

definition example_closed :: memory where
  "example_closed = drop_lease 7 example_committed"

lemma reachable_accepted: "reachable example_accepted"
proof -
  have "reachable (snd (create_session 7 0 example_session_settings [] None new_memory))"
    by (rule step [OF start create]) (simp add: new_memory_def lookup_def)
  then show ?thesis unfolding example_accepted_def
    by (rule step) (rule accept, simp add: example_input_def input_ok_def)
qed

lemma reachable_committed: "reachable example_committed"
  unfolding example_committed_def by (rule step [OF reachable_accepted commit])

lemma reachable_closed: "reachable example_closed"
  unfolding example_closed_def by (rule step [OF reachable_committed lease])

lemma example_sessions:
  "ms_sessions example_accepted =
     [(7, \<lparr>sv_prompt = [],
           sv_events = [\<lparr>se_number = EventNumber 1, se_event = SettingsEvent example_session_settings\<rparr>],
           sv_pending = [\<lparr>pi_id = InputId 1, pi_input = example_input\<rparr>], sv_blobs = [],
           sv_newest_write = 1, sv_title = None, sv_fork_of = None, sv_parent = None, sv_created_at = 0,
           sv_updated_at = 0\<rparr>)]"
  "ms_writers example_accepted = [7]" "ms_writes example_accepted = 1" "ms_newest_input example_accepted = 1"
  by (simp_all add: example_accepted_def example_input_def new_memory_def create_session_def open_new_def
      take_writer_def next_write_def push_event_def to_opened_def replay_events_def replay_event_def
      put_def lookup_def accept_input_def title_of_def Let_def)

lemma example_commit:
  "commit_session 7 1 example_turn [example_consumed] example_accepted = (Inr (EventNumber 2), example_committed)"
  by (simp add: example_committed_def commit_session_def check_consumed_blocks_def example_consumed_def
      into_consumed_def example_input_def example_turn_def lookup_def example_sessions next_write_def
      push_event_def usize_max_def checked_add_usize_def Let_def)

section \<open>No reachable store panics\<close>

lemma create_session_Some:
  assumes "mem_ok m" "lookup m i = None"
  shows "fst (create_session i now st prompt parent m) \<noteq> Inl Panicked"
  using new_saved_ok(2) [OF assms, of now st prompt parent] by auto

lemma fork_session_cases:
  assumes "mem_ok m" "lookup m i = None" "fork_session i now source through m = (r, m')"
  obtains (failed) e where "r = Inl e" "e = NotFound \<and> lookup m source = None \<or>
        e = NotACompletedTurn \<and> (\<exists>sv. lookup m source = Some sv \<and> fork_cut (sv_events sv) through = Inl e)" "ms_sessions m' = ms_sessions m"
      "ms_writers m' = ms_writers m"
    | (forked) sv k copy op where "lookup m source = Some sv" "fork_cut (sv_events sv) through = Inr k"
      "sv_events copy = take k (sv_events sv)" "sv_pending copy = []" "sv_prompt copy = sv_prompt sv"
      "to_opened i True copy = Some op" "r = Inr op"
      "m' = put i copy (m\<lparr>ms_writes := ms_writes m + 1, ms_writers := i # ms_writers m\<rparr>)"
proof -
  let ?m1 = "m\<lparr>ms_writes := ms_writes m + 1\<rparr>"
  have w: "i \<notin> set (ms_writers m)" using assms(1,2) by (auto simp: mem_ok_def)
  show ?thesis
  proof (cases "lookup m source")
    case None
    then show ?thesis using failed assms(3) by (auto simp: fork_session_def next_write_def)
  next
    case (Some sv)
    show ?thesis
    proof (cases "fork_cut (sv_events sv) through")
      case (Inl e)
      then have "e = NotACompletedTurn"
        by (auto simp: fork_cut_def Let_def split: option.splits if_splits)
      then show ?thesis using failed Inl Some assms(3) by (auto simp: fork_session_def next_write_def)
    next
      case (Inr k)
      define copy where "copy = \<lparr>sv_prompt = sv_prompt sv, sv_events = take k (sv_events sv), sv_pending = [],
                  sv_blobs = sv_blobs sv, sv_newest_write = ms_writes m + 1,
                  sv_title = (case sv_title sv of None \<Rightarrow> None | Some t \<Rightarrow> title_from_text (fork_prefix @ t)),
                  sv_fork_of = Some source, sv_parent = None, sv_created_at = now, sv_updated_at = now\<rparr>"
      have "starts_with_settings (sv_events sv)" using mem_okD [OF assms(1) Some] by (simp add: saved_ok_def)
      then have "starts_with_settings (sv_events copy)"
        using take_ok fork_cut_bounds [OF Inr] by (simp add: copy_def)
      then obtain op where op: "to_opened i True copy = Some op" using to_opened_Some [of copy i True] by blast
      have "fork_session i now source through m = open_new i copy ?m1"
        using Some Inr by (simp add: fork_session_def next_write_def copy_def)
      also have "\<dots> = (Inr op, put i copy (?m1\<lparr>ms_writers := i # ms_writers m\<rparr>))"
        using w op by (simp add: open_new_def take_writer_def)
      finally show ?thesis using assms(3) forked [OF Some Inr _ _ _ op] by (simp add: copy_def)
    qed
  qed
qed

lemma fork_session_Some:
  assumes "mem_ok m" "lookup m i = None"
  shows "fst (fork_session i now source through m) \<noteq> Inl Panicked"
proof -
  obtain r m' where e: "fork_session i now source through m = (r, m')" by fastforce
  show ?thesis using e by (cases rule: fork_session_cases [OF assms e]) auto
qed

lemma open_session_Some:
  assumes "mem_ok m"
  shows "fst (open_session i acc m) \<noteq> Inl Panicked"
proof (cases "lookup m i")
  case (Some sv)
  have "starts_with_settings (sv_events sv)" using mem_okD [OF assms Some] by (simp add: saved_ok_def)
  from to_opened_Some [OF this] obtain op where "\<And>l. to_opened i l sv = Some (op l)" by metis
  then show ?thesis using Some
    by (simp add: open_session_def or_panic_def take_writer_def split: access.split)
qed (simp add: open_session_def)

lemma lookup_member: "mem_ok m \<Longrightarrow> (i, sv) \<in> set (ms_sessions m) \<longleftrightarrow> lookup m i = Some sv"
  by (simp add: mem_ok_def lookup_def)

lemma listed_member:
  assumes "(i, sv) \<in> set (listed cwd parent after m)"
  shows "(i, sv) \<in> set (ms_sessions m)"
  using assms by (simp add: listed_def)

lemma list_sessions_Some:
  assumes "mem_ok m"
  shows "\<exists>page. list_sessions cwd parent after limit m = Inr page \<and>
    map sum_id (pg_sessions page) = map fst (take limit (listed cwd parent after m)) \<and>
    pg_next page = (if length (listed cwd parent after m) > limit \<and> 1 \<le> limit
      then Some (sv_newest_write (snd (listed cwd parent after m ! (limit - 1)))) else None)"
proof -
  have ok: "\<exists>s. summary i sv = Some s \<and> sum_id s = i" if "(i, sv) \<in> set (take limit (listed cwd parent after m))" for i sv
    using summary_Some [OF mem_okD [OF assms]] listed_member [OF in_set_takeD [OF that]] assms
    by (simp add: lookup_member)
  then have "None \<notin> set (map (\<lambda>(i, sv). summary i sv) (take limit (listed cwd parent after m)))" by fastforce
  moreover have "map sum_id (map the (map (\<lambda>(i, sv). summary i sv) (take limit (listed cwd parent after m)))) =
      map fst (take limit (listed cwd parent after m))"
    using ok by fastforce
  ultimately show ?thesis by (simp add: list_sessions_def Let_def)
qed

text \<open>
  C11: no \<open>expect\<close> of the store fails. Whatever the calls before, every session of a reachable store
  has settings, so opening, summarizing, listing, creating and forking never panic.
\<close>

theorem store_never_panics:
  assumes "reachable m"
  shows "fst (open_session i acc m) \<noteq> Inl Panicked \<and> session_summary i m \<noteq> Inl Panicked \<and>
    list_sessions cwd parent after limit m \<noteq> Inl Panicked \<and>
    (lookup m j = None \<longrightarrow>
      fst (create_session j now st prompt parent m) \<noteq> Inl Panicked \<and>
      fst (fork_session j now i through m) \<noteq> Inl Panicked)"
proof -
  have ok: "mem_ok m" using reachable_ok [OF assms] .
  have "session_summary i m \<noteq> Inl Panicked"
    using summary_Some [OF mem_okD [OF ok], of i _ i]
    by (auto simp: session_summary_def or_panic_def split: option.split)
  moreover have "list_sessions cwd parent after limit m \<noteq> Inl Panicked"
    using list_sessions_Some [OF ok, of cwd parent after limit] by auto
  ultimately show ?thesis
    using open_session_Some [OF ok] create_session_Some [OF ok] fork_session_Some [OF ok] by blast
qed

theorem store_never_panics_witness:
  "fst (open_session 7 WriteAccess example_closed) \<noteq> Inl Panicked \<and> lookup example_closed 9 = None \<and>
   fst (fork_session 9 5 7 None example_closed) \<noteq> Inl Panicked"
proof -
  have "lookup example_closed 9 = None"
    by (simp add: example_closed_def drop_lease_def lookup_def example_committed_def commit_session_def
        example_sessions put_def next_write_def update_conv' Let_def case_prod_beta
        split: sum.split option.split)
  then show ?thesis
    using store_never_panics [OF reachable_closed, of 7 WriteAccess None None None 0 9 5 example_session_settings "[]" None]
    by blast
qed

section \<open>Commits\<close>

lemma commit_session_accepts:
  assumes "mem_ok m" "lookup m i = Some sv" "distinct (map ci_id ci)"
    and "set (map ci_id ci) \<subseteq> set (map pi_id (sv_pending sv))"
    and "sum_list (map ci_block_count ci) \<le> length (commit_blocks c)" "length (commit_blocks c) \<le> usize_max"
  shows "\<exists>n. fst (commit_session i now c ci m) = Inr n"
proof -
  have "refused_input (sv_pending sv) [] ci = None" using assms(3,4) by (simp add: refused_input_None)
  then show ?thesis using assms(2) check_consumed_blocks_accepts [OF assms(5,6)]
    by (simp add: commit_session_def next_write_def Let_def case_prod_beta)
qed

text \<open>
  C12: a commit is atomic. It succeeds exactly when the session exists, its consumed inputs are pending
  and different, and their blocks fit the commit; it then appends one event with the next number and
  takes exactly those inputs away, and no other session changes. Else the store does not change at all.
\<close>

theorem commit_is_atomic:
  assumes "reachable m" "length (commit_blocks c) \<le> usize_max"
    and "commit_session i now c ci m = (r, m')"
  shows "(case r of
      Inl e \<Rightarrow> m' = m
    | Inr n \<Rightarrow>
        (\<exists>evs. mem_events m i = Some evs \<and> n = EventNumber (length evs + 1) \<and>
          mem_events m' i = Some (evs @ [\<lparr>se_number = n, se_event = CommitEvent c ci\<rparr>])) \<and>
        mem_pending m' i = filter (\<lambda>p. pi_id p \<notin> set (map ci_id ci)) (mem_pending m i) \<and>
        (\<forall>j. j \<noteq> i \<longrightarrow> lookup m' j = lookup m j)) \<and>
    (is_ok r \<longleftrightarrow> lookup m i \<noteq> None \<and> distinct (map ci_id ci) \<and>
      set (map ci_id ci) \<subseteq> set (map pi_id (mem_pending m i)) \<and>
      sum_list (map ci_block_count ci) \<le> length (commit_blocks c))"
  using assms(3)
proof (cases rule: commit_session_cases)
  case (failed e)
  show ?thesis
    using failed assms(3) commit_session_accepts [OF reachable_ok [OF assms(1)] _ _ _ _ assms(2), of i _ ci now]
    by (fastforce simp: mem_pending_def split: option.splits)
next
  case (saved sv)
  then show ?thesis by (simp add: mem_views)
qed

theorem commit_is_atomic_witness:
  "mem_events example_committed 7 = Some
     [\<lparr>se_number = EventNumber 1, se_event = SettingsEvent example_session_settings\<rparr>,
      \<lparr>se_number = EventNumber 2, se_event = CommitEvent example_turn [example_consumed]\<rparr>] \<and>
   mem_pending example_committed 7 = []"
proof -
  have l: "length (commit_blocks example_turn) \<le> usize_max" by (simp add: example_turn_def usize_max_def)
  have e: "mem_events example_accepted 7 =
      Some [\<lparr>se_number = EventNumber 1, se_event = SettingsEvent example_session_settings\<rparr>]"
    "mem_pending example_accepted 7 = [\<lparr>pi_id = InputId 1, pi_input = example_input\<rparr>]"
    "ci_id example_consumed = InputId 1"
    by (simp_all add: mem_views lookup_def example_sessions example_consumed_def)
  show ?thesis using commit_is_atomic [OF reachable_accepted l example_commit] by (simp add: e numeral_2_eq_2)
qed

text \<open>
  no input is consumed twice. Once an event of a session consumed an input, no commit to that
  session can consume it again, and a removal of it fails as well.
\<close>

theorem inputs_consumed_once:
  assumes "reachable m" "mem_events m i = Some evs" "x \<in> set (consumed_ids evs)"
  shows "distinct (consumed_ids evs) \<and>
    fst (remove_input i x m) = Inl (InputNotPending x) \<and>
    (x \<in> set (map ci_id ci) \<longrightarrow> \<not> is_ok (fst (commit_session i now c ci m)) \<and>
       snd (commit_session i now c ci m) = m)"
proof -
  have ok: "mem_ok m" using reachable_ok [OF assms(1)] .
  note cs = memory_store.ok_consumed [OF ok assms(2)]
  have gone: "x \<notin> set (map pi_id (mem_pending m i))" using cs assms(3) by blast
  obtain sv where sv: "lookup m i = Some sv" using assms(2) by (auto simp: mem_events_def)
  have "fst (remove_input i x m) = Inl (InputNotPending x)"
    using gone sv by (simp add: remove_input_eq [OF ok] mem_pending_def)
  moreover have "\<not> is_ok (fst (commit_session i now c ci m)) \<and> snd (commit_session i now c ci m) = m"
    if "x \<in> set (map ci_id ci)"
  proof -
    obtain r m' where e: "commit_session i now c ci m = (r, m')" by fastforce
    then show ?thesis
    proof (cases rule: commit_session_cases)
      case (saved sv')
      then show ?thesis using that gone sv by (auto simp: mem_pending_def)
    qed (use e in auto)
  qed
  ultimately show ?thesis using cs by blast
qed

theorem inputs_consumed_once_witness:
  "\<not> is_ok (fst (commit_session 7 2 example_turn [example_consumed] example_committed))"
proof -
  have "x \<in> set (consumed_ids evs)" if "mem_events example_committed 7 = Some evs" "x = InputId 1" for x evs
    using memory_store.commit_saves [OF reachable_ok [OF reachable_accepted] example_commit] that
    by (auto simp: example_consumed_def)
  moreover obtain evs where "mem_events example_committed 7 = Some evs"
    using memory_store.commit_saves [OF reachable_ok [OF reachable_accepted] example_commit] by blast
  ultimately show ?thesis
    using inputs_consumed_once [OF reachable_committed, of 7 evs "InputId 1" "[example_consumed]" 2 example_turn]
    by (simp add: example_consumed_def)
qed

section \<open>Opening\<close>

lemma replay_events_snoc: "replay_events (evs @ [e]) = replay_event e (replay_events evs)"
  by (simp add: replay_events_def)

lemma read_session:
  assumes "mem_ok m" "lookup m i = Some sv"
  obtains st where "rp_settings (replay_events (sv_events sv)) = Some st"
    "open_session i ReadAccess m = (Inr
       \<lparr>op_id = i, op_settings = st, op_prompt = sv_prompt sv,
        op_context = rp_context (replay_events (sv_events sv)), op_parent = sv_parent sv,
        op_newest_turn = rp_newest_turn (replay_events (sv_events sv)),
        op_input_tokens = rp_input_tokens (replay_events (sv_events sv)), op_lease = False\<rparr>, m)"
proof -
  have "starts_with_settings (sv_events sv)" using mem_okD [OF assms] by (simp add: saved_ok_def)
  then obtain st where st: "rp_settings (replay_events (sv_events sv)) = Some st"
    using replay_settings by blast
  with assms(2) show ?thesis
    by (intro that [OF st]) (simp add: open_session_def to_opened_def Let_def or_panic_def)
qed

lemma committed_prompt [simp]:
  "sv_prompt (committed now c ci write sv) = sv_prompt sv" "sv_parent (committed now c ci write sv) = sv_parent sv"
  by (simp_all add: committed_def push_event_def Let_def)

text \<open>
  C13: what a session reads back after a saved commit is what the driver has in memory: the context is
  the old one with the commit applied, the turn is open or has the end of the commit, the token count
  is that of the newest answer and unknown after a replacement, and nothing else changed.
\<close>

theorem reopen_after_commit:
  assumes "reachable m" "commit_session i now c ci m = (Inr n, m')"
  shows "\<exists>op op'. open_session i ReadAccess m = (Inr op, m) \<and> open_session i ReadAccess m' = (Inr op', m') \<and>
    op' = op\<lparr>op_context := apply_commit c (op_context op),
             op_newest_turn := (case commit_end c of None \<Rightarrow> TurnOpen | Some te \<Rightarrow> TurnEnded te),
             op_input_tokens :=
               (case commit_answer c of
                  Some a \<Rightarrow> usage_input (ans_usage a)
                | None \<Rightarrow> if commit_replaced c = None then op_input_tokens op else None)\<rparr>"
  using assms(2)
proof (cases rule: commit_session_cases)
  case (saved sv)
  have ok: "mem_ok m" using reachable_ok [OF assms(1)] .
  have ok': "mem_ok m'" using commit_session_ok [OF ok, of i now c ci] assms(2) by simp
  let ?sv = "committed now c ci (ms_writes m + 1) sv"
  have l: "lookup m' i = Some ?sv" by (simp add: saved(3))
  have r: "replay_events (sv_events ?sv) =
      replay_event \<lparr>se_number = EventNumber (length (sv_events sv) + 1), se_event = CommitEvent c ci\<rparr>
        (replay_events (sv_events sv))"
    by (simp add: replay_events_snoc)
  from ok saved(1) obtain st where st: "rp_settings (replay_events (sv_events sv)) = Some st"
    and op: "open_session i ReadAccess m = (Inr
       \<lparr>op_id = i, op_settings = st, op_prompt = sv_prompt sv,
        op_context = rp_context (replay_events (sv_events sv)), op_parent = sv_parent sv,
        op_newest_turn = rp_newest_turn (replay_events (sv_events sv)),
        op_input_tokens = rp_input_tokens (replay_events (sv_events sv)), op_lease = False\<rparr>, m)"
    by (rule read_session)
  from ok' l show ?thesis
  proof (rule read_session, goal_cases)
    case (1 st')
    have "st' = st" using 1(1) st by (simp add: replay_events_snoc replay_event_def)
    then show ?thesis unfolding op 1(2) r by (auto simp: replay_event_def split: option.split)
  qed
qed simp

theorem reopen_after_commit_witness:
  "\<exists>op'. fst (open_session 7 ReadAccess example_committed) = Inr op' \<and>
     op_newest_turn op' = TurnEnded (EndOutcome (Completed FinStop))"
  using reopen_after_commit [OF reachable_accepted example_commit] by (force simp: example_turn_def)

section \<open>Forks\<close>

lemma replay_newest_turn:
  assumes "\<forall>e\<in>set evs. \<not> is_commit e"
  shows "rp_newest_turn (fold replay_event evs r) = rp_newest_turn r"
  using assms by (induction evs arbitrary: r) (auto simp: replay_event_def is_commit_def split: session_event.splits)

lemma newest_turn_no_commit:
  "\<forall>e\<in>set evs. \<not> is_commit e \<Longrightarrow> rp_newest_turn (replay_events evs) = TurnEmpty"
  by (simp add: replay_events_def replay_newest_turn)

lemma newest_turn_completed:
  assumes "completed e"
  shows "\<exists>r. rp_newest_turn (replay_events (evs @ [e])) = TurnEnded (EndOutcome (Completed r))"
  using assms by (auto simp: replay_events_snoc replay_event_def completed_def
      split: session_event.splits option.splits turn_end.splits outcome.splits)

lemma fork_cut_newest:
  assumes "fork_cut evs through = Inr k"
  shows "rp_newest_turn (replay_events (take k evs)) = TurnEmpty \<or>
    (\<exists>r. rp_newest_turn (replay_events (take k evs)) = TurnEnded (EndOutcome (Completed r)))"
proof -
  have at: "\<exists>r. rp_newest_turn (replay_events (take (Suc j) evs)) = TurnEnded (EndOutcome (Completed r))"
    if "j < length evs" "completed (evs ! j)" for j
    using newest_turn_completed [OF that(2), of "take j evs"] that(1) by (simp add: take_Suc_conv_app_nth)
  have none: "rp_newest_turn (replay_events (take j evs)) = TurnEmpty"
    if "\<forall>i<j. i < length evs \<longrightarrow> \<not> is_commit (evs ! i)" for j
    using that by (intro newest_turn_no_commit) (auto simp: in_set_conv_nth)
  show ?thesis
  proof (cases through)
    case None
    show ?thesis
    proof (cases "rposition completed evs")
      case r: None
      show ?thesis
      proof (cases "position is_commit evs")
        case p: None
        then have "rp_newest_turn (replay_events (take k evs)) = TurnEmpty"
          by (intro newest_turn_no_commit) (auto simp: position_None dest: in_set_takeD)
        then show ?thesis ..
      next
        case (Some j)
        then show ?thesis using none [of j] position_Some [OF Some] assms None r by (simp add: fork_cut_def)
      qed
    next
      case (Some j)
      then show ?thesis using at [of j] rposition_Some [OF Some] assms None by (simp add: fork_cut_def)
    qed
  next
    case (Some n)
    then show ?thesis using at [of "k - 1"] assms
      by (auto simp: fork_cut_def Let_def split: if_splits)
  qed
qed



section \<open>One writer\<close>

text \<open>
  The calls that a store gets, from the owner of a session and from anyone else. \<open>DropLease\<close> is the drop of
  the lease that an open, a create or a fork gave.
\<close>

datatype store_call =
    CreateCall session_id nat session_settings "prompt_section list" "session_id option"
  | ForkCall session_id nat session_id "event_number option"
  | SettingsCall session_id nat session_settings
  | RenameCall session_id session_title
  | AcceptCall session_id input
  | RemoveCall session_id input_id
  | OpenCall session_id access
  | CommitCall session_id nat commit "consumed_input list"
  | BlobCall "u8 list \<Rightarrow> digest" session_id "u8 list"
  | DeleteCall session_id
  | DropLease session_id

fun run_call :: "store_call \<Rightarrow> memory \<Rightarrow> memory" where
  "run_call (CreateCall i now st prompt parent) m = snd (create_session i now st prompt parent m)"
| "run_call (ForkCall i now source through) m = snd (fork_session i now source through m)"
| "run_call (SettingsCall i now st) m = snd (set_settings i now st m)"
| "run_call (RenameCall i t) m = snd (rename_session i t m)"
| "run_call (AcceptCall i inp) m = snd (accept_input i inp m)"
| "run_call (RemoveCall i k) m = snd (remove_input i k m)"
| "run_call (OpenCall i acc) m = snd (open_session i acc m)"
| "run_call (CommitCall i now c ci) m = snd (commit_session i now c ci m)"
| "run_call (BlobCall sha i bytes) m = snd (put_blob sha i bytes m)"
| "run_call (DeleteCall i) m = snd (delete_session i m)"
| "run_call (DropLease i) m = drop_lease i m"

text \<open>A new id is unused, and an input comes from a constructor of \<open>Input\<close>.\<close>

fun call_ok :: "store_call \<Rightarrow> memory \<Rightarrow> bool" where
  "call_ok (CreateCall i _ _ _ _) m = (lookup m i = None)"
| "call_ok (ForkCall i _ _ _) m = (lookup m i = None)"
| "call_ok (AcceptCall _ inp) m = input_ok inp"
| "call_ok _ m = True"

primrec run_calls :: "store_call list \<Rightarrow> memory \<Rightarrow> memory" where
  "run_calls [] m = m"
| "run_calls (x # xs) m = run_calls xs (run_call x m)"

primrec calls_ok :: "store_call list \<Rightarrow> memory \<Rightarrow> bool" where
  "calls_ok [] m = True"
| "calls_ok (x # xs) m = (call_ok x m \<and> calls_ok xs (run_call x m))"

lemma run_call_step: "call_ok x m \<Longrightarrow> mem_step m (run_call x m)"
  by (cases x) (auto intro: mem_step.intros)

lemma run_calls_reachable: "reachable m \<Longrightarrow> calls_ok xs m \<Longrightarrow> reachable (run_calls xs m)"
proof (induction xs arbitrary: m)
  case (Cons x xs)
  then have "reachable (run_call x m)" using run_call_step reachable.step by auto
  with Cons show ?case by simp
qed simp

text \<open>A call keeps every lease but the one that it drops.\<close>

lemma run_call_writers:
  assumes "mem_ok m" "i \<in> set (ms_writers m)" "call_ok x m" "x \<noteq> DropLease i"
  shows "i \<in> set (ms_writers (run_call x m))"
proof (cases x)
  case (CreateCall j now st prompt parent)
  then show ?thesis using assms(2)
    by (auto simp: create_session_def open_new_def next_write_def take_writer_def push_event_def Let_def
        split: option.split)
next
  case (ForkCall j now source through)
  obtain r m' where f: "fork_session j now source through m = (r, m')" by fastforce
  have "lookup m j = None" using assms(3) ForkCall by simp
  with f ForkCall assms(2) show ?thesis by (cases rule: fork_session_cases [OF assms(1) _ f]) auto
next
  case (CommitCall j now c ci)
  obtain r m' where f: "commit_session j now c ci m = (r, m')" by fastforce
  then have "ms_writers m' = ms_writers m" by (cases rule: commit_session_cases) auto
  then show ?thesis using CommitCall assms(2) f by simp
next
  case (DropLease j)
  then show ?thesis using assms(2,4) by (simp add: drop_lease_def)
qed (use assms(2) in \<open>auto simp: set_settings_def next_write_def push_event_def rename_session_def accept_input_def
    remove_input_def open_session_def take_writer_def put_blob_def delete_session_def Let_def
    split: option.split access.split\<close>)

lemma run_calls_writers:
  "reachable m \<Longrightarrow> i \<in> set (ms_writers m) \<Longrightarrow> calls_ok xs m \<Longrightarrow> DropLease i \<notin> set xs \<Longrightarrow>
   i \<in> set (ms_writers (run_calls xs m))"
proof (induction xs arbitrary: m)
  case (Cons x xs)
  have "reachable (run_call x m)" using Cons.prems(1,3) run_call_step reachable.step by auto
  moreover have "i \<in> set (ms_writers (run_call x m))"
    using run_call_writers [OF reachable_ok [OF Cons.prems(1)] Cons.prems(2), of x] Cons.prems(3,4) by auto
  ultimately show ?case using Cons.IH Cons.prems(3,4) by simp
qed simp

text \<open>
  C15: a session has one writer. While its lease is held, whatever calls the store gets, from any number of
  clients and in any order, the lease stays held, no second writer opens the session and nothing deletes it:
  only the drop of that lease frees it, and then it opens for writing again.
\<close>

theorem single_writer:
  assumes "reachable m" and "i \<in> set (ms_writers m)"
    and "calls_ok calls m" and "DropLease i \<notin> set calls"
  shows "i \<in> set (ms_writers (run_calls calls m)) \<and> lookup (run_calls calls m) i \<noteq> None \<and>
    fst (open_session i WriteAccess (run_calls calls m)) = Inl Owned \<and>
    fst (delete_session i (run_calls calls m)) = Inl Owned \<and>
    (\<exists>op. fst (open_session i WriteAccess (run_call (DropLease i) (run_calls calls m))) = Inr op \<and> op_lease op)"
proof -
  let ?m = "run_calls calls m"
  have ok: "mem_ok ?m" using reachable_ok [OF run_calls_reachable [OF assms(1,3)]] .
  have w: "i \<in> set (ms_writers ?m)" using run_calls_writers [OF assms] .
  with ok obtain sv where sv: "lookup ?m i = Some sv" by (auto simp: mem_ok_def)
  have "fst (open_session i WriteAccess (drop_lease i ?m)) = or_panic (to_opened i True sv)"
    using sv by (simp add: open_session_def drop_lease_def take_writer_def)
  moreover have "starts_with_settings (sv_events sv)" using mem_okD [OF ok sv] by (simp add: saved_ok_def)
  ultimately show ?thesis using to_opened_Some [of sv i True] w sv
    by (auto simp: open_session_def take_writer_def delete_session_def or_panic_def)
qed

text \<open>A second writer asks, the owner commits, someone deletes: the lease stays with its owner.\<close>

theorem single_writer_witness:
  "fst (open_session 7 WriteAccess
     (run_calls [OpenCall 7 WriteAccess, CommitCall 7 1 example_turn [example_consumed], DeleteCall 7] example_accepted))
   = Inl Owned"
proof -
  have "calls_ok [OpenCall 7 WriteAccess, CommitCall 7 1 example_turn [example_consumed], DeleteCall 7] example_accepted"
    by simp
  moreover have "DropLease 7 \<notin> set [OpenCall 7 WriteAccess, CommitCall 7 1 example_turn [example_consumed], DeleteCall 7]"
    by simp
  moreover have "7 \<in> set (ms_writers example_accepted)" by (simp add: example_sessions)
  ultimately show ?thesis using single_writer [OF reachable_accepted] by blast
qed

section \<open>Pages of events\<close>

lemma numbered_nth: "numbered evs \<Longrightarrow> j < length evs \<Longrightarrow> se_number (evs ! j) = EventNumber (Suc j)"
  by (simp add: numbered_def)

lemma numbered_after:
  assumes "numbered evs"
  shows "filter (\<lambda>e. EventNumber n < se_number e) evs = drop n evs"
  using assms
proof (induction evs rule: rev_induct)
  case (snoc e evs)
  then have "filter (\<lambda>e. EventNumber n < se_number e) evs = drop n evs" "se_number e = EventNumber (length evs + 1)"
    by (auto simp: numbered_snoc)
  then show ?case by (cases "n \<le> length evs") auto
qed simp

lemma numbered_before:
  assumes "numbered evs"
  shows "filter (\<lambda>e. se_number e < EventNumber n) evs = take (n - 1) evs"
  using assms
proof (induction evs rule: rev_induct)
  case (snoc e evs)
  then have "filter (\<lambda>e. se_number e < EventNumber n) evs = take (n - 1) evs" "se_number e = EventNumber (length evs + 1)"
    by (auto simp: numbered_snoc)
  then show ?case by (cases "n - 1 \<le> length evs") (auto simp: take_Cons')
qed simp

text \<open>
  A page of events is cut by event numbers and misses nothing: \<open>After\<close> is every event with a
  greater number, \<open>Before\<close> the newest events with a smaller number, as many as the limit, in order.
\<close>

theorem pages_by_number:
  assumes "reachable m" "load_session i page m = Inr ld"
  shows "mem_events m i \<noteq> None \<and> ld_pending ld = mem_pending m i \<and>
    (let evs = the (mem_events m i) in
     ld_events ld =
       (case page of
          After None \<Rightarrow> evs
        | After (Some n) \<Rightarrow> filter (\<lambda>e. n < se_number e) evs
        | Before b limit \<Rightarrow>
            let older = filter (\<lambda>e. case b of None \<Rightarrow> True | Some n \<Rightarrow> se_number e < n) evs
            in drop (length older - limit) older))"
proof -
  obtain sv where sv: "lookup m i = Some sv" "ld = \<lparr>ld_events = page_events page (sv_events sv), ld_pending = sv_pending sv\<rparr>"
    using assms(2) by (auto simp: load_session_def split: option.splits)
  have num: "numbered (sv_events sv)" using mem_okD [OF reachable_ok [OF assms(1)] sv(1)] by (simp add: saved_ok_def)
  have after: "filter (\<lambda>e. n < se_number e) (sv_events sv) = drop (min (event_num n) (length (sv_events sv))) (sv_events sv)" for n
    using numbered_after [OF num, of "event_num n"] by (cases n) (simp add: min_def)
  have before: "filter (\<lambda>e. se_number e < n) (sv_events sv) = take (min (event_num n - 1) (length (sv_events sv))) (sv_events sv)" for n
    using numbered_before [OF num, of "event_num n"] by (cases n) (simp add: min_def)
  show ?thesis using sv after before
    by (simp add: mem_views page_events_def Let_def split: event_page.split option.split)
qed

theorem pages_by_number_witness:
  "\<exists>ld. load_session 7 (After (Some (EventNumber 1))) example_committed = Inr ld \<and>
     map se_number (ld_events ld) = [EventNumber 2]"
proof -
  have e: "mem_events example_committed 7 = Some
     [\<lparr>se_number = EventNumber 1, se_event = SettingsEvent example_session_settings\<rparr>,
      \<lparr>se_number = EventNumber 2, se_event = CommitEvent example_turn [example_consumed]\<rparr>]"
    using memory_store.commit_saves [OF reachable_ok [OF reachable_accepted] example_commit]
    by (auto simp: mem_events_def lookup_def example_sessions numeral_2_eq_2)
  then obtain ld where ld: "load_session 7 (After (Some (EventNumber 1))) example_committed = Inr ld"
    by (auto simp: mem_events_def load_session_def)
  from pages_by_number [OF reachable_committed ld] e ld show ?thesis by simp
qed

section \<open>Lists of sessions\<close>

definition newer :: "session_id \<times> saved \<Rightarrow> session_id \<times> saved \<Rightarrow> bool" where
  "newer x y \<longleftrightarrow> sv_newest_write (snd y) < sv_newest_write (snd x)"

lemma listed_set:
  "set (listed cwd parent after m) = {x \<in> set (ms_sessions m). list_filter cwd parent after x}"
  by (simp add: listed_def)

lemma sessions_distinct_writes:
  assumes "mem_ok m"
  shows "inj_on (\<lambda>x. sv_newest_write (snd x)) (set (ms_sessions m))"
proof (rule inj_onI)
  fix x y assume x: "x \<in> set (ms_sessions m)" and y: "y \<in> set (ms_sessions m)"
    and w: "sv_newest_write (snd x) = sv_newest_write (snd y)"
  have "lookup m (fst x) = Some (snd x)" "lookup m (fst y) = Some (snd y)"
    using x y lookup_member [OF assms, of "fst x" "snd x"] lookup_member [OF assms, of "fst y" "snd y"] by auto
  then have "fst x = fst y" using assms w unfolding mem_ok_def by blast
  with \<open>lookup m (fst x) = _\<close> \<open>lookup m (fst y) = _\<close> show "x = y" by (simp add: prod_eq_iff)
qed

lemma listed_newer:
  assumes "mem_ok m"
  shows "sorted_wrt newer (listed cwd parent after m)" "distinct (listed cwd parent after m)"
proof -
  let ?l = "listed cwd parent after m"
  show d: "distinct ?l" using assms by (simp add: listed_def mem_ok_def distinct_map)
  have "sorted (map (\<lambda>x. - int (sv_newest_write (snd x))) ?l)" by (simp add: listed_def)
  moreover have "distinct (map (\<lambda>x. - int (sv_newest_write (snd x))) ?l)"
    using d sessions_distinct_writes [OF assms] by (auto simp: distinct_map listed_set inj_on_def)
  ultimately have "sorted_wrt (<) (map (\<lambda>x. - int (sv_newest_write (snd x))) ?l)"
    by (simp add: strict_sorted_iff)
  then show "sorted_wrt newer ?l" by (simp add: sorted_wrt_map newer_def [abs_def])
qed

lemma listed_after:
  "listed cwd parent (Some b) m = filter (\<lambda>x. sv_newest_write (snd x) < b) (listed cwd parent None m)"
  by (auto simp: listed_def filter_sort list_filter_def conj_commute conj_left_commute
      intro!: arg_cong [where f = "sort_key _"] filter_cong)

lemma newer_drop:
  assumes "sorted_wrt newer xs" "1 \<le> k" "k \<le> length xs"
  shows "filter (\<lambda>x. sv_newest_write (snd x) < sv_newest_write (snd (xs ! (k - 1)))) xs = drop k xs"
proof -
  let ?P = "\<lambda>x. sv_newest_write (snd x) < sv_newest_write (snd (xs ! (k - 1)))"
  have early: "\<not> ?P (xs ! j)" if jk: "j < k" for j
  proof -
    consider "j = k - 1" | "j < k - 1" "k - 1 < length xs" using jk assms(2,3) by linarith
    then show ?thesis
      by cases (use sorted_wrt_nth_less [OF assms(1), of j "k - 1"] in \<open>auto simp: newer_def\<close>)
  qed
  have late: "?P (xs ! j)" if "k \<le> j" "j < length xs" for j
    using that assms sorted_wrt_nth_less [OF assms(1), of "k - 1" j] by (auto simp: newer_def)
  have "\<not> ?P x" if x: "x \<in> set (take k xs)" for x
  proof -
    obtain j where "j < k" "x = xs ! j" using x by (auto simp: in_set_conv_nth)
    then show ?thesis using early by blast
  qed
  then have "filter ?P (take k xs) = []" by (simp add: filter_empty_conv)
  moreover have "?P x" if x: "x \<in> set (drop k xs)" for x
  proof -
    obtain j where "j < length xs - k" "x = xs ! (k + j)" using x by (auto simp: in_set_conv_nth)
    then show ?thesis using late [of "k + j"] by simp
  qed
  then have "filter ?P (drop k xs) = drop k xs" by (simp add: filter_id_conv)
  ultimately show ?thesis by (metis append_Nil append_take_drop_id filter_append)
qed

lemma listed_next:
  assumes "mem_ok m" "1 \<le> limit" "limit \<le> length (listed cwd parent after m)"
  shows "listed cwd parent (Some (sv_newest_write (snd (listed cwd parent after m ! (limit - 1))))) m =
    drop limit (listed cwd parent after m)"
proof -
  let ?l = "listed cwd parent after m" and ?b = "sv_newest_write (snd (listed cwd parent after m ! (limit - 1)))"
  have "filter (\<lambda>x. sv_newest_write (snd x) < ?b) (listed cwd parent None m) =
      filter (\<lambda>x. sv_newest_write (snd x) < ?b) ?l"
  proof (cases after)
    case (Some a)
    have "?l ! (limit - 1) \<in> set ?l" using assms(2,3) by auto
    then have "?b < a" using Some by (simp add: listed_set list_filter_def)
    then show ?thesis unfolding Some listed_after by (auto intro: filter_cong)
  qed simp
  then show ?thesis using newer_drop [OF listed_newer(1) [OF assms(1)] assms(2,3)] by (simp add: listed_after)
qed

text \<open>A client that follows \<open>next\<close> from page to page, with fuel for the number of its pages.\<close>

fun walk_pages ::
  "nat \<Rightarrow> string option \<Rightarrow> session_id option \<Rightarrow> nat option \<Rightarrow> nat \<Rightarrow> memory \<Rightarrow> session_summary list" where
  "walk_pages 0 cwd parent after limit m = []"
| "walk_pages (Suc fuel) cwd parent after limit m =
     (case list_sessions cwd parent after limit m of
        Inl e \<Rightarrow> []
      | Inr page \<Rightarrow> pg_sessions page @
          (case pg_next page of None \<Rightarrow> [] | Some b \<Rightarrow> walk_pages fuel cwd parent (Some b) limit m))"

lemma walk_pages_listed:
  assumes "mem_ok m" "1 \<le> limit" "length (listed cwd parent after m) < fuel"
  shows "map sum_id (walk_pages fuel cwd parent after limit m) = map fst (listed cwd parent after m)"
  using assms(3)
proof (induction fuel arbitrary: after)
  case (Suc fuel)
  let ?l = "listed cwd parent after m"
  obtain page where page: "list_sessions cwd parent after limit m = Inr page"
    "map sum_id (pg_sessions page) = map fst (take limit ?l)"
    "pg_next page = (if length ?l > limit \<and> 1 \<le> limit then Some (sv_newest_write (snd (?l ! (limit - 1)))) else None)"
    using list_sessions_Some [OF assms(1)] by blast
  show ?case
  proof (cases "limit < length ?l")
    case True
    let ?b = "sv_newest_write (snd (?l ! (limit - 1)))"
    have n: "listed cwd parent (Some ?b) m = drop limit ?l"
      using listed_next [OF assms(1,2)] True by simp
    then have "length (listed cwd parent (Some ?b) m) < fuel" using Suc.prems True assms(2) by simp
    from Suc.IH [OF this] n have "map sum_id (walk_pages fuel cwd parent (Some ?b) limit m) = map fst (drop limit ?l)"
      by simp
    then show ?thesis using page True assms(2)
      by simp (metis append_take_drop_id map_append)
  next
    case False
    then show ?thesis using page by simp
  qed
qed simp

text \<open>
  C18: a client that follows the \<open>next\<close> of each page, with any page size of at least one, sees every
  session of the directory and parent that it asked for exactly once, the newest write first.
\<close>

theorem pages_list_every_session:
  assumes "reachable m" "1 \<le> limit" "length (ms_sessions m) < fuel"
  shows "distinct (map sum_id (walk_pages fuel cwd parent None limit m)) \<and>
    set (map sum_id (walk_pages fuel cwd parent None limit m)) =
      {i. \<exists>sv. lookup m i = Some sv \<and> sv_parent sv = parent \<and>
        (case cwd of None \<Rightarrow> True | Some d \<Rightarrow> map_option ss_cwd (newest_settings sv) = Some d)} \<and>
    sorted_wrt (\<lambda>i j. \<exists>a b. lookup m i = Some a \<and> lookup m j = Some b \<and> sv_newest_write b < sv_newest_write a)
      (map sum_id (walk_pages fuel cwd parent None limit m))"
proof -
  have ok: "mem_ok m" using reachable_ok [OF assms(1)] .
  let ?l = "listed cwd parent None m"
  have "length ?l \<le> length (ms_sessions m)" by (simp add: listed_def)
  then have e: "map sum_id (walk_pages fuel cwd parent None limit m) = map fst ?l"
    using walk_pages_listed [OF ok assms(2)] assms(3) by simp
  have lk: "lookup m (fst x) = Some (snd x)" if "x \<in> set ?l" for x
    using that lookup_member [OF ok, of "fst x" "snd x"] by (simp add: listed_set)
  then have "distinct (map fst ?l)"
    using listed_newer(2) [OF ok]
    by (simp add: distinct_map) (intro inj_onI, metis option.inject prod.expand)
  moreover have "x \<in> set ?l \<longleftrightarrow> lookup m (fst x) = Some (snd x) \<and> list_filter cwd parent None x" for x
    using lookup_member [OF ok, of "fst x" "snd x"] by (simp add: listed_set)
  then have "set (map fst ?l) = {i. \<exists>sv. lookup m i = Some sv \<and> list_filter cwd parent None (i, sv)}"
    by (force simp: image_iff)
  moreover have "sorted_wrt (\<lambda>x y. \<exists>a b. lookup m (fst x) = Some a \<and> lookup m (fst y) = Some b \<and>
      sv_newest_write b < sv_newest_write a) ?l"
    by (rule sorted_wrt_mono_rel [OF _ listed_newer(1) [OF ok]]) (simp add: lk newer_def)
  moreover have "list_filter cwd parent None (i, sv) \<longleftrightarrow> sv_parent sv = parent \<and>
      (case cwd of None \<Rightarrow> True | Some d \<Rightarrow> map_option ss_cwd (newest_settings sv) = Some d)" for i sv
    by (auto simp: list_filter_def split: option.split)
  ultimately show ?thesis unfolding e by (simp only: sorted_wrt_map)
qed

theorem pages_list_every_session_witness:
  "map sum_id (walk_pages 2 None None None 1 example_accepted) = [7]"
proof -
  have "set (map sum_id (walk_pages 2 None None None 1 example_accepted)) = {7} \<and>
      distinct (map sum_id (walk_pages 2 None None None 1 example_accepted))"
    using pages_list_every_session [OF reachable_accepted, of 1 2 None None]
    by (simp add: example_sessions lookup_def)
  moreover have "ys = [a]" if "set ys = {a} \<and> distinct ys" for ys :: "session_id list" and a
  proof -
    have "length ys = 1" using that distinct_card [of ys] by simp
    then show ?thesis using that by (cases ys) auto
  qed
  ultimately show ?thesis by blast
qed

end
