(* ===== verification/Journal.thy ===== *)
theory Journal
  imports Drive_Facts
begin

text \<open>
  What a journal holds at any moment of a turn, and so what a store holds after a crash: every prefix of
  the confirmed commits replays to a context whose only open calls are those of its last answer, and
  only the last commit of a turn ends it. The session repairs such a context.
\<close>

section \<open>Prefixes of a journal\<close>

definition open_prefixes :: "block list \<Rightarrow> commit list \<Rightarrow> bool" where
  "open_prefixes ctx j \<longleftrightarrow>
     (\<forall>k. \<exists>ids. waiting (replay (take k j) ctx) ids) \<and> (\<forall>c\<in>set j. commit_end c = None)"

lemma open_prefixes_snoc:
  "open_prefixes ctx (j @ [c]) \<longleftrightarrow>
     open_prefixes ctx j \<and> (\<exists>ids. waiting (replay (j @ [c]) ctx) ids) \<and> commit_end c = None"
  (is "?l \<longleftrightarrow> ?r")
proof
  assume ?l
  then have "\<exists>ids. waiting (replay (take k (j @ [c])) ctx) ids" for k by (auto simp: open_prefixes_def)
  from this [of "Suc (length j)"] this [of "min k (length j)" for k]
  have "\<exists>ids. waiting (replay (j @ [c]) ctx) ids" "\<exists>ids. waiting (replay (take k j) ctx) ids" for k
    by (auto simp: take_append) (metis min.idem take_take length_take take_all_iff nle_le)
  with \<open>?l\<close> show ?r by (auto simp: open_prefixes_def)
next
  assume r: ?r
  have "\<exists>ids. waiting (replay (take k (j @ [c])) ctx) ids" for k
    using r by (cases "k \<le> length j") (auto simp: open_prefixes_def)
  with r show ?l by (auto simp: open_prefixes_def)
qed

lemma open_prefixes_Nil: "paired ctx \<Longrightarrow> open_prefixes ctx []"
  by (auto simp: open_prefixes_def paired_def)

text \<open>Which end the commit of an action has.\<close>

definition end_fits :: "action \<Rightarrow> bool" where
  "end_fits a \<longleftrightarrow>
     (case a of
        ActDone c res \<Rightarrow> commit_end c = Some (end_from_result res)
      | _ \<Rightarrow> \<forall>c\<in>set (commit_list (action_commit a)). commit_end c = None)"

lemma end_fits_rounds [simp]:
  "end_fits (fst (after_round ans s))" "end_fits (fst (done_turn r s))" "end_fits (fst (send_turn input s))"
  by (simp_all add: end_fits_def after_round_def done_turn_def send_turn_def unsaved_commit_def take_unsaved_def
      Let_def)

lemma end_fits_calls [simp]:
  "end_fits (fst (model_finished cpl og s))" "end_fits (fst (fail_turn err s))"
  "end_fits (fst (model_cancelled ps s))" "end_fits (fst (tools_finished fs s))"
  "end_fits (fst (tools_cancelled fs s))" "end_fits (fst (proceed_turn input s))"
  "end_fits (fst (stop_turn s))" "end_fits (fst (cancel_turn s))"
  by (simp_all add: model_finished_def fail_turn_def model_cancelled_def tools_finished_def tools_cancelled_def
      proceed_turn_def stop_turn_def cancel_turn_def Let_def)
    (simp add: end_fits_def take_unsaved_def)

section \<open>A round adds open prefixes\<close>

lemma apply_plan_prefixes:
  assumes "apply_plan p e plan s io = (r, s', io')" "saved_up p ctx s io" "paired (ts_context s')"
    and "tp_has_journal p" "open_prefixes ctx (io_journal io)"
  shows "open_prefixes ctx (io_journal io')"
  using assms(1)
proof (cases rule: apply_plan_cases)
  case (replaced rp)
  let ?c = "fst (replace_turn rp s)"
  have sv: "save_opt p e (Some ?c) io = (r, io')" using replaced(3) by (simp add: save_opt_def)
  show ?thesis
  proof (cases r)
    case (Inl err)
    then show ?thesis using save_opt_fails(1) [OF sv [unfolded Inl]] assms(5) by simp
  next
    case (Inr u)
    then have j: "io_journal io' = io_journal io @ [saved_commit p ?c]"
      using save_opt_ok(2) [OF sv [unfolded Inr] assms(4)] by simp
    have "replay (io_journal io') ctx = ts_context s'"
      using apply_plan_saved [OF assms(1,2)] Inr assms(4) by (simp add: saved_up_def)
    moreover have "commit_end ?c = None" by (simp add: replace_turn_def Let_def)
    ultimately show ?thesis
      using assms(3,5) j open_prefixes_snoc [of ctx "io_journal io" "saved_commit p ?c"]
      by (auto simp: paired_def)
  qed
qed (use assms(5) in simp)

lemma round_pass_prefixes:
  assumes "round_pass p e plan s io = (q, s', io')" "saved_up p ctx s io" "paired (ts_context s)"
    and "plan_keeps plan (ts_context s)" "keeps_pairing Q e"
    and "tp_has_journal p" "open_prefixes ctx (io_journal io)"
  shows "open_prefixes ctx (io_journal io')"
proof -
  obtain r io1 where a: "apply_plan p e plan s io = (r, s', io1)"
    using round_pass_state [OF assms(1)] by blast
  have "io_step io1 io'"
    using assms(1) a
    by (auto simp: round_pass_def Let_def dest!: io_step_send io_step_race intro: io_step_trans
        split: prod.splits sent.splits raced.splits sum.splits option.splits)
  then show ?thesis
    using apply_plan_prefixes [OF a assms(2) round_pass_paired(1) [OF assms(1,3-5)] assms(6,7)]
    by (simp add: io_step_def)
qed

lemma round_loop_prefixes:
  "round_loop n p e plan s io = Some (r, s', io') \<Longrightarrow> saved_up p ctx s io \<Longrightarrow> paired (ts_context s) \<Longrightarrow>
     plan_keeps plan (ts_context s) \<Longrightarrow> keeps_pairing Q e \<Longrightarrow> tp_has_journal p \<Longrightarrow>
     open_prefixes ctx (io_journal io) \<Longrightarrow> open_prefixes ctx (io_journal io')"
proof (induction n arbitrary: plan s io)
  case (Suc n)
  obtain q s1 io1 where q: "round_pass p e plan s io = (q, s1, io1)" by (metis prod_cases3)
  note pre = round_pass_prefixes [OF q Suc.prems(2-7)]
  note pass = round_pass_paired [OF q Suc.prems(3-5)]
  show ?case
  proof (cases q)
    case (RoundAgain plan')
    have "saved_up p ctx s1 io1" using round_pass_saved [OF q Suc.prems(2)] RoundAgain by simp
    then show ?thesis
      using Suc.IH [of plan' s1 io1] Suc.prems(1,5,6) q RoundAgain pass(1) pass(3) [OF RoundAgain] pre by simp
  qed (use Suc.prems(1) q pre in auto)
qed simp

lemma send_round_prefixes:
  assumes "send_round n p e s io = Some (r, s', io')" "saved_up p ctx s io" "paired (ts_context s)"
    and "keeps_pairing Q e" "tp_has_journal p" "open_prefixes ctx (io_journal io)"
  shows "open_prefixes ctx (io_journal io')"
proof -
  obtain w io1 where w: "race e (\<lambda>t. env_before_round e t (round_start_of p s (tp_model p) (tp_settings p)
          (declared_tools (parts_toolset p) (tool_search (model_target (tp_model p)))))) io = (w, io1)"
    by fastforce
  have j: "io_journal io1 = io_journal io" using io_step_race [OF w] by (simp add: io_step_def)
  have su: "saved_up p ctx s io1" using saved_up_journal [OF assms(2) j] .
  show ?thesis
  proof (cases "\<exists>plan. w = RaceDone (Inr plan)")
    case True
    then obtain plan where plan: "w = RaceDone (Inr plan)" by blast
    have "plan_keeps plan (ts_context s)"
      using race_Done [OF w [unfolded plan]] keeps_pairingD(3) [OF assms(4)]
      by (metis round_start_of_def round_start.select_convs(1))
    with assms w plan su j show ?thesis
      by (auto simp: send_round_def Let_def intro: round_loop_prefixes)
  next
    case False
    with assms w j show ?thesis by (auto simp: send_round_def Let_def split: raced.splits sum.splits)
  qed
qed

section \<open>A turn ends its journal\<close>

text \<open>The journal of a turn that saved its end with the result \<open>res\<close>.\<close>

definition ended_journal :: "block list \<Rightarrow> commit list \<Rightarrow> round_error + outcome \<Rightarrow> bool" where
  "ended_journal ctx j res \<longleftrightarrow>
     (\<exists>j0 c. j = j0 @ [c] \<and> open_prefixes ctx j0 \<and> commit_end c = Some (end_from_result res) \<and>
        paired (replay j ctx))"

lemma phase_waiting: "phase_ok (a, s) \<Longrightarrow> \<exists>ids. waiting (ts_context s) ids"
  by (cases a) (auto simp: phase_ok_def paired_def)

lemma end_fits_answer: "answer_sent sent native s = ((a, s'), native') \<Longrightarrow> end_fits a"
proof -
  have "end_fits (fst (fst (answer_sent sent native s)))" by (simp add: answer_sent_def split: sent.split)
  then show "answer_sent sent native s = ((a, s'), native') \<Longrightarrow> end_fits a" by simp
qed

lemma end_fits_after: "after_answer e ctx reason s io = (q, io') \<Longrightarrow> end_fits (fst q)"
  by (auto simp: after_answer_def split: prod.splits raced.splits sum.splits round_decision.splits)

lemma end_fits_finish: "finish_tools e fs s io = (a, s') \<Longrightarrow> end_fits a"
  by (metis end_fits_calls(4,5) finish_tools_def fst_conv)

lemma save_prefixes:
  assumes "save_opt p e (action_commit a) io = (Inr u, io')" "due p ctx a s io" "phase_ok (a, s)" "end_fits a"
    and "tp_has_journal p" "open_prefixes ctx (io_journal io)"
  shows "case a of
      ActDone c res \<Rightarrow> ended_journal ctx (io_journal io') res
    | _ \<Rightarrow> open_prefixes ctx (io_journal io')"
proof -
  have j: "io_journal io' = io_journal io @ map (saved_commit p) (commit_list (action_commit a))"
    using save_opt_ok(2) [OF assms(1,5)] .
  have rp: "replay (io_journal io') ctx = ts_context s"
    using due_save [OF assms(2,1)] assms(5) by (simp add: saved_up_def)
  show ?thesis
  proof (cases "\<exists>c res. a = ActDone c res")
    case True
    then obtain c res where a: "a = ActDone c res" by blast
    then have "paired (ts_context s)" using assms(3) by (simp add: phase_ok_def)
    then have "ended_journal ctx (io_journal io') res"
      unfolding ended_journal_def using a j rp assms(4,6)
      by (intro exI [of _ "io_journal io"] exI [of _ "saved_commit p c"]) (simp add: end_fits_def commit_list_def)
    then show ?thesis using a by simp
  next
    case False
    have "open_prefixes ctx (io_journal io')"
    proof (cases "action_commit a")
      case None
      then show ?thesis using j assms(6) by (simp add: commit_list_def)
    next
      case (Some c)
      then have "commit_end c = None" using assms(4) False by (cases a) (auto simp: end_fits_def commit_list_def)
      then show ?thesis using j rp Some assms(6) phase_waiting [OF assms(3)]
        by (simp add: commit_list_def open_prefixes_snoc)
    qed
    then show ?thesis using False by (auto split: action.split)
  qed
qed

lemma turn_pass_prefixes:
  assumes "turn_pass n p e native a s io = Some q" "due p ctx a s io" "phase_ok (a, s)" "end_fits a"
    and "keeps_pairing Q e" "tp_has_journal p" "open_prefixes ctx (io_journal io)"
  shows "case q of
      PassError _ _ io' \<Rightarrow> open_prefixes ctx (io_journal io')
    | PassNext a' _ _ io' \<Rightarrow> open_prefixes ctx (io_journal io') \<and> end_fits a'
    | PassEnd res _ io' \<Rightarrow> ended_journal ctx (io_journal io') res"
proof -
  obtain sv io1 where sv: "save_opt p e (action_commit a) io = (sv, io1)" by fastforce
  show ?thesis
  proof (cases sv)
    case (Inl err)
    then show ?thesis using assms(1,7) sv save_opt_fails(1) [OF sv [unfolded Inl]] by (auto simp: turn_pass_def)
  next
    case (Inr u)
    note pre = save_prefixes [OF sv [unfolded Inr] assms(2-4,6,7)]
    have su: "saved_up p ctx s io1" using due_save [OF assms(2) sv] Inr by simp
    show ?thesis
    proof (cases a)
      case (ActSend c)
      then obtain r s1 io2 where r: "send_round n p e s io1 = Some (r, s1, io2)"
        using assms(1) sv Inr by (auto simp: turn_pass_def split: option.splits)
      have "paired (ts_context s)" using assms(3) ActSend by (simp add: phase_ok_def)
      then have "open_prefixes ctx (io_journal io2)"
        using send_round_prefixes [OF r su _ assms(5,6)] pre ActSend by simp
      then show ?thesis using assms(1) sv Inr ActSend r
        by (auto simp: turn_pass_def Let_def split: sum.splits prod.splits intro: end_fits_answer)
    next
      case (ActCallTools c)
      obtain fs io2 where t: "call_tools p e (commit_blocks c) native io1 = (fs, io2)" by fastforce
      have "io_journal io2 = io_journal io1" using io_step_call_tools [OF t] by (simp add: io_step_def)
      then show ?thesis using assms(1) sv Inr ActCallTools t pre
        by (auto simp: turn_pass_def Let_def split: prod.splits intro: end_fits_finish)
    next
      case (ActAfterRound c reason cm)
      obtain r io2 where r: "after_answer e c reason s io1 = (r, io2)" by fastforce
      have "io_journal io2 = io_journal io1"
        using r by (auto simp: after_answer_def io_step_def dest!: io_step_race await_world_eq
            split: prod.splits raced.splits sum.splits round_decision.splits)
      then show ?thesis using assms(1) sv Inr ActAfterRound r pre end_fits_after [OF r]
        by (auto simp: turn_pass_def Let_def split: prod.splits)
    next
      case (ActDone c res)
      then show ?thesis using assms(1) sv Inr pre by (auto simp: turn_pass_def)
    qed
  qed
qed

text \<open>What the journal of a turn looks like when it returns.\<close>

definition journal_fits :: "block list \<Rightarrow> commit list \<Rightarrow> turn_error + outcome \<Rightarrow> bool" where
  "journal_fits ctx j r \<longleftrightarrow>
     (case r of
        Inl (TurnCommit _) \<Rightarrow> open_prefixes ctx j
      | Inl (TurnRound err) \<Rightarrow> ended_journal ctx j (Inl err)
      | Inr oc \<Rightarrow> ended_journal ctx j (Inr oc))"

lemma turn_loop_journal:
  "turn_loop n p e native a s io = Some (r, s', io') \<Longrightarrow> due p ctx a s io \<Longrightarrow> phase_ok (a, s) \<Longrightarrow> end_fits a \<Longrightarrow>
     keeps_pairing Q e \<Longrightarrow> Q (io_world io) \<Longrightarrow> tp_has_journal p \<Longrightarrow> open_prefixes ctx (io_journal io) \<Longrightarrow>
     journal_fits ctx (io_journal io') r"
proof (induction n arbitrary: native a s io)
  case (Suc n)
  obtain q where q: "turn_pass n p e native a s io = Some q"
    using Suc.prems(1) by (auto split: option.splits)
  note pre = turn_pass_prefixes [OF q Suc.prems(2-5,7,8)]
  show ?case
  proof (cases q)
    case (PassNext a' s1 native' io1)
    then have "turn_loop n p e native' a' s1 io1 = Some (r, s', io')" using Suc.prems(1) q by simp
    moreover have "due p ctx a' s1 io1" using turn_pass_saved [OF q Suc.prems(2)] PassNext by simp
    moreover have "phase_ok (a', s1)" using turn_pass_phase [OF q [unfolded PassNext] Suc.prems(3,5,6)] .
    moreover have "Q (io_world io1)"
      using turn_pass_world [OF keeps_pairingD(5) [OF Suc.prems(5)] q] Suc.prems(6) PassNext
      by (simp add: io_ok_def)
    ultimately show ?thesis using Suc.IH Suc.prems(5,7) pre PassNext by simp
  next
    case (PassError err s1 io1)
    then have "\<exists>x. err = TurnCommit x" using q
      by (auto simp: turn_pass_def Let_def split: prod.splits sum.splits action.splits option.splits)
    then show ?thesis using Suc.prems(1) q PassError pre by (auto simp: journal_fits_def)
  next
    case (PassEnd res s1 io1)
    then show ?thesis using Suc.prems(1) q pre by (cases res) (auto simp: journal_fits_def)
  qed
qed simp

lemma run_turn_journal:
  assumes "run_turn fuel p e ctx input tokens io = Some (r, s, io')"
    and "paired ctx" "paired input" "keeps_pairing Q e" "Q (io_world io)"
    and "tp_has_journal p" "io_journal io = []"
  shows "journal_fits ctx (io_journal io') r"
proof -
  obtain a s0 where a: "send_turn input (new_turn ctx tokens) = (a, s0)" by fastforce
  have "phase_ok (a, s0)" using turn_reach_phase [OF _ assms(2,3), of tokens "(a, s0)"] a by simp
  moreover have "saved_up p ctx (new_turn ctx tokens) io"
    using assms(7) by (simp add: saved_up_def new_turn_def)
  then have "due p ctx a s0 io" using due_calls(9) [of p ctx _ io input] a by (metis fst_conv snd_conv)
  moreover have "end_fits a" using end_fits_rounds(3) [of input "new_turn ctx tokens"] a by simp
  ultimately show ?thesis
    using turn_loop_journal [of fuel p e False a s0 io r s io' ctx Q] assms a open_prefixes_Nil [OF assms(2)]
    by (simp add: run_turn_def)
qed

end
