(* ===== verification/Session.thy ===== *)
theory Session
  imports Store Drive
begin

text \<open>
  A session that runs turns on its context and saves each commit of a turn in a store, from
  \<open>crates/agent/src/session.rs\<close>, with its system prompt (\<open>prompt.rs\<close>) and the check of its inputs
  (\<open>input_hook.rs\<close>).

  The store is any value of the trait \<open>Store\<close>, a record of its methods on a state \<open>'s\<close>. Each method is
  one atomic step. Other clients change the store while the session waits: at a wait for the input hook,
  the change is part of the answer of the hook; at a call of the inbox or the journal during a turn it is
  \<open>su_others\<close>. The lease is the flag \<open>sn_lease\<close>; a drop of the lease is the call \<open>so_drop\<close>.
\<close>

section \<open>The store that a session uses\<close>

record 's store_ops =
  so_create :: "session_settings \<Rightarrow> prompt_section list \<Rightarrow> session_id option \<Rightarrow> 's \<Rightarrow> (store_error + opened) \<times> 's"
  so_fork :: "session_id \<Rightarrow> event_number option \<Rightarrow> 's \<Rightarrow> (store_error + opened) \<times> 's"
  so_set_settings :: "session_id \<Rightarrow> session_settings \<Rightarrow> 's \<Rightarrow> (store_error + event_number) \<times> 's"
  so_accept :: "session_id \<Rightarrow> input \<Rightarrow> 's \<Rightarrow> (store_error + input_id) \<times> 's"
  so_remove :: "session_id \<Rightarrow> input_id \<Rightarrow> 's \<Rightarrow> (store_error + unit) \<times> 's"
  so_open :: "session_id \<Rightarrow> access \<Rightarrow> 's \<Rightarrow> (store_error + opened) \<times> 's"
  so_commit :: "session_id \<Rightarrow> commit \<Rightarrow> consumed_input list \<Rightarrow> 's \<Rightarrow> (store_error + event_number) \<times> 's"
  so_pending :: "session_id \<Rightarrow> 's \<Rightarrow> store_error + pending_input list"
  so_read_blob :: "session_id \<Rightarrow> digest \<Rightarrow> 's \<Rightarrow> store_error + u8 list option"
  so_drop :: "session_id \<Rightarrow> 's \<Rightarrow> 's"

section \<open>The system prompt\<close>

definition base_key :: string where
  "base_key = ''base''"

definition section_text :: "prompt_section \<Rightarrow> string" where
  "section_text sec =
     (if ps_key sec = base_key then ps_text sec
      else ''<'' @ ps_key sec @ ''>'' @ [CHR 0x0A] @ ps_text sec @ [CHR 0x0A] @ ''</'' @ ps_key sec @ ''>'')"

definition prompt_text :: "prompt_section list \<Rightarrow> string" where
  "prompt_text secs =
     join [CHR 0x0A, CHR 0x0A] (map section_text (filter (\<lambda>sec. ps_text sec \<noteq> []) secs))"

section \<open>The input hook\<close>

datatype input_decision = KeepInput | ReplaceInput "block list" | RemoveInput

type_synonym 's input_hook = "pending_input \<Rightarrow> 's \<Rightarrow> (dyn_error + input_decision) \<times> 's"

definition no_input_hook :: "'s input_hook" where
  "no_input_hook p s = (Inr KeepInput, s)"

section \<open>The session\<close>

record session =
  sn_id :: session_id
  sn_parent :: "session_id option"
  sn_settings :: session_settings
  sn_prompt :: "prompt_section list"
  sn_context :: "block list"
  sn_lease :: bool
  sn_newest_turn :: newest_turn
  sn_input_tokens :: "u64 option"

datatype session_error =
    SessRound round_error
  | SessStore store_error
  | SessStale
  | SessNoInput
  | SessInputHook dyn_error

definition is_stale :: "session \<Rightarrow> bool" where
  "is_stale sn = (\<not> sn_lease sn)"

definition from_opened :: "opened \<Rightarrow> session" where
  "from_opened op =
     \<lparr>sn_id = op_id op, sn_parent = op_parent op, sn_settings = op_settings op, sn_prompt = op_prompt op,
      sn_context = op_context op, sn_lease = op_lease op, sn_newest_turn = op_newest_turn op,
      sn_input_tokens = op_input_tokens op\<rparr>"

definition outcome_unknown :: string where
  "outcome_unknown = ''The turn stopped before it saved the result of this call. The call can have run.''"

definition turn_stopped :: string where
  "turn_stopped = ''the turn stopped before it saved its end''"

definition session_source :: string where
  "session_source = ''host:session''"

definition interruption_note :: "newest_turn \<Rightarrow> input option" where
  "interruption_note t =
     (case t of
        TurnEnded (EndOutcome Cancelled) \<Rightarrow>
          Some (notification session_source ''The previous turn was cancelled.''
            ''The user cancelled the previous turn before it ended.'')
      | TurnEnded (EndFailed err) \<Rightarrow>
          Some (notification session_source ''The previous turn failed.''
            (''The previous turn ended with an error: '' @ err))
      | _ \<Rightarrow> None)"

text \<open>The calls after the last user block: those that wait for a result, when the context is well formed.\<close>

definition open_calls :: "block list \<Rightarrow> string list" where
  "open_calls context =
     (let answer = (case rposition (\<lambda>b. block_role b = User) context of None \<Rightarrow> 0 | Some k \<Rightarrow> k + 1)
      in filter_map (\<lambda>b. case b of ToolCall c \<Rightarrow> Some (call_id c) | _ \<Rightarrow> None) (drop answer context))"

definition repair_commit :: "block list \<Rightarrow> commit" where
  "repair_commit context =
     (blocks_commit (map (\<lambda>i. ToolResult (result_error i outcome_unknown)) (open_calls context)))
       \<lparr>commit_end := Some (EndFailed turn_stopped)\<rparr>"

definition open_and_end_turn ::
  "'s store_ops \<Rightarrow> session_id \<Rightarrow> access \<Rightarrow> 's \<Rightarrow> (store_error + opened \<times> stored_event option) \<times> 's" where
  "open_and_end_turn st i acc s =
     (case so_open st i acc s of
        (Inl e, s1) \<Rightarrow> (Inl e, s1)
      | (Inr op, s1) \<Rightarrow>
          if \<not> newest_is_open (op_newest_turn op) then (Inr (op, None), s1)
          else
            let repair = repair_commit (op_context op) in
            case so_commit st (op_id op) repair [] s1 of
              (Inl e, s2) \<Rightarrow> (Inl e, if op_lease op then so_drop st i s2 else s2)
            | (Inr n, s2) \<Rightarrow>
                (Inr (op\<lparr>op_context := op_context op @ commit_blocks repair,
                         op_newest_turn := TurnEnded (EndFailed turn_stopped)\<rparr>,
                      Some \<lparr>se_number = n, se_event = CommitEvent repair []\<rparr>), s2))"

definition session_create ::
  "'s store_ops \<Rightarrow> session_settings \<Rightarrow> prompt_section list \<Rightarrow> session_id option \<Rightarrow> 's \<Rightarrow>
     (store_error + session) \<times> 's" where
  "session_create st settings prompt parent s =
     (case so_create st settings prompt parent s of
        (Inl e, s1) \<Rightarrow> (Inl e, s1)
      | (Inr op, s1) \<Rightarrow> (Inr (from_opened op), s1))"

definition session_open :: "'s store_ops \<Rightarrow> session_id \<Rightarrow> 's \<Rightarrow> (store_error + session) \<times> 's" where
  "session_open st i s =
     (case open_and_end_turn st i WriteAccess s of
        (Inl e, s1) \<Rightarrow> (Inl e, s1)
      | (Inr (op, _), s1) \<Rightarrow> (Inr (from_opened op), s1))"

definition session_fork ::
  "'s store_ops \<Rightarrow> session_id \<Rightarrow> event_number option \<Rightarrow> 's \<Rightarrow> (store_error + session) \<times> 's" where
  "session_fork st source through s =
     (case so_fork st source through s of
        (Inl e, s1) \<Rightarrow> (Inl e, s1)
      | (Inr op, s1) \<Rightarrow> (Inr (from_opened op), s1))"

definition session_recover ::
  "'s store_ops \<Rightarrow> session \<Rightarrow> 's \<Rightarrow> (store_error + stored_event option) \<times> session \<times> 's" where
  "session_recover st sn s =
     (case open_and_end_turn st (sn_id sn) (if is_stale sn then WriteAccess else ReadAccess) s of
        (Inl e, s1) \<Rightarrow> (Inl e, sn, s1)
      | (Inr (op, repair), s1) \<Rightarrow>
          (Inr repair,
           sn\<lparr>sn_settings := op_settings op, sn_context := op_context op, sn_newest_turn := op_newest_turn op,
              sn_input_tokens := op_input_tokens op, sn_lease := op_lease op \<or> sn_lease sn\<rparr>, s1))"

definition session_set_settings ::
  "'s store_ops \<Rightarrow> session_settings \<Rightarrow> session \<Rightarrow> 's \<Rightarrow> (session_error + event_number) \<times> session \<times> 's" where
  "session_set_settings st settings sn s =
     (if is_stale sn then (Inl SessStale, sn, s)
      else case so_set_settings st (sn_id sn) settings s of
        (Inl e, s1) \<Rightarrow> (Inl (SessStore e), sn\<lparr>sn_lease := False\<rparr>, so_drop st (sn_id sn) s1)
      | (Inr n, s1) \<Rightarrow> (Inr n, sn\<lparr>sn_settings := settings\<rparr>, s1))"

section \<open>The inputs of a turn\<close>

text \<open>
  The journal and the inbox of one turn. \<open>tw_taken\<close> holds the inputs that no saved commit consumed yet,
  \<open>tw_saved\<close> the number and the inputs of each saved commit, \<open>tw_removed\<close> the removals that the
  observer heard of, and \<open>tw_failed\<close> the store error that a failed commit gave.
\<close>

record 's turn_world =
  tw_store :: 's
  tw_taken :: "consumed_input list"
  tw_tokens :: "u64 option"
  tw_saved :: "(event_number \<times> consumed_input list) list"
  tw_removed :: "input_id list"
  tw_failed :: "store_error option"

datatype take_error = TakeStore store_error | TakeHook dyn_error

fun take_session_error :: "take_error \<Rightarrow> session_error" where
  "take_session_error (TakeStore e) = SessStore e"
| "take_session_error (TakeHook e) = SessInputHook e"

fun take_dyn_error :: "take_error \<Rightarrow> dyn_error" where
  "take_dyn_error (TakeStore e) = store_error_dyn e"
| "take_dyn_error (TakeHook e) = e"

fun input_error_dyn :: "input_error \<Rightarrow> dyn_error" where
  "input_error_dyn EmptyContent = DynError ''the input has no content'' None"
| "input_error_dyn EmptyModelContent = DynError ''the model content of the input has no block'' None"

definition from_session :: "input_source \<Rightarrow> bool" where
  "from_session src = (case src of FromPlugin name \<Rightarrow> name = session_source | FromUser \<Rightarrow> False)"

definition keep_input :: "pending_input \<Rightarrow> 's turn_world \<Rightarrow> block list \<times> 's turn_world" where
  "keep_input p w =
     (let (consumed, blocks) = into_consumed p in (blocks, w\<lparr>tw_taken := tw_taken w @ [consumed]\<rparr>))"

text \<open>One input of \<open>TurnInputs::take\<close>: the blocks that it adds, none when the turn skips it.\<close>

definition take_kept ::
  "'s store_ops \<Rightarrow> session_id \<Rightarrow> pending_input \<Rightarrow> block list option \<Rightarrow> 's turn_world \<Rightarrow>
     (take_error + block list) \<times> 's turn_world" where
  "take_kept st i p replacement w =
     (case so_pending st i (tw_store w) of
        Inl e \<Rightarrow> (Inl (TakeStore e), w)
      | Inr ps \<Rightarrow>
          if pi_id p \<notin> set (map pi_id ps) then (Inr [], w)
          else
            (case (case replacement of
                None \<Rightarrow> Inr (pi_input p)
              | Some bs \<Rightarrow> with_model_content bs (pi_input p)) of
               Inl e \<Rightarrow> (Inl (TakeHook (input_error_dyn e)), w)
             | Inr inp \<Rightarrow> (let (blocks, w1) = keep_input (p\<lparr>pi_input := inp\<rparr>) w in (Inr blocks, w1))))"

definition take_removed ::
  "'s store_ops \<Rightarrow> session_id \<Rightarrow> pending_input \<Rightarrow> 's turn_world \<Rightarrow> (take_error + block list) \<times> 's turn_world" where
  "take_removed st i p w =
     (case so_remove st i (pi_id p) (tw_store w) of
        (Inr _, s1) \<Rightarrow> (Inr [], w\<lparr>tw_store := s1, tw_removed := tw_removed w @ [pi_id p]\<rparr>)
      | (Inl (InputNotPending x), s1) \<Rightarrow> (Inr [], w\<lparr>tw_store := s1\<rparr>)
      | (Inl e, s1) \<Rightarrow> (Inl (TakeStore e), w\<lparr>tw_store := s1\<rparr>))"

definition take_input ::
  "'s store_ops \<Rightarrow> 's input_hook \<Rightarrow> session_id \<Rightarrow> pending_input \<Rightarrow> 's turn_world \<Rightarrow>
     (take_error + block list) \<times> 's turn_world" where
  "take_input st hook i p w =
     (if pi_id p \<in> set (map ci_id (tw_taken w)) then (Inr [], w)
      else
        let (decision, s1) =
              (if from_session (in_source (pi_input p)) then (Inr KeepInput, tw_store w) else hook p (tw_store w));
            w1 = w\<lparr>tw_store := s1\<rparr>
        in case decision of
             Inl e \<Rightarrow> (Inl (TakeHook e), w1)
           | Inr KeepInput \<Rightarrow> take_kept st i p None w1
           | Inr (ReplaceInput bs) \<Rightarrow> take_kept st i p (Some bs) w1
           | Inr RemoveInput \<Rightarrow> take_removed st i p w1)"

fun take_each ::
  "'s store_ops \<Rightarrow> 's input_hook \<Rightarrow> session_id \<Rightarrow> pending_input list \<Rightarrow> 's turn_world \<Rightarrow>
     (take_error + block list) \<times> 's turn_world" where
  "take_each st hook i [] w = (Inr [], w)"
| "take_each st hook i (p # ps) w =
     (case take_input st hook i p w of
        (Inl e, w1) \<Rightarrow> (Inl e, w1)
      | (Inr bs, w1) \<Rightarrow>
          (case take_each st hook i ps w1 of
             (Inl e, w2) \<Rightarrow> (Inl e, w2)
           | (Inr bs', w2) \<Rightarrow> (Inr (bs @ bs'), w2)))"

definition take_inputs ::
  "'s store_ops \<Rightarrow> 's input_hook \<Rightarrow> session_id \<Rightarrow> 's turn_world \<Rightarrow> (take_error + block list) \<times> 's turn_world" where
  "take_inputs st hook i w =
     (case so_pending st i (tw_store w) of
        Inl e \<Rightarrow> (Inl (TakeStore e), w)
      | Inr ps \<Rightarrow> take_each st hook i ps w)"

text \<open>The inbox and the journal of the driver.\<close>

definition journal_take ::
  "'s store_ops \<Rightarrow> 's input_hook \<Rightarrow> session_id \<Rightarrow> 's turn_world \<Rightarrow> (dyn_error + block list) \<times> 's turn_world" where
  "journal_take st hook i w =
     (case take_inputs st hook i w of
        (Inl e, w1) \<Rightarrow> (Inl (take_dyn_error e), w1)
      | (Inr bs, w1) \<Rightarrow> (Inr bs, w1))"

definition journal_commit ::
  "'s store_ops \<Rightarrow> session_id \<Rightarrow> commit \<Rightarrow> 's turn_world \<Rightarrow> dyn_error option \<times> 's turn_world" where
  "journal_commit st i c w =
     (let consumed = tw_taken w; w1 = w\<lparr>tw_taken := []\<rparr> in
      case so_commit st i c consumed (tw_store w) of
        (Inl e, s1) \<Rightarrow> (Some (store_error_dyn e), w1\<lparr>tw_store := s1, tw_failed := Some e\<rparr>)
      | (Inr n, s1) \<Rightarrow>
          (None,
           w1\<lparr>tw_store := s1,
              tw_tokens :=
                (case commit_answer c of
                   Some a \<Rightarrow> usage_input (ans_usage a)
                 | None \<Rightarrow> if commit_replaced c \<noteq> None then None else tw_tokens w),
              tw_saved := tw_saved w @ [(n, consumed)]\<rparr>))"

section \<open>A turn of a session\<close>

text \<open>
  What a caller sets up: the driver (its model, toolset, policy and libraries), its environment (the
  transport, the hooks and the cancel), the input hook, the prompt of this turn, the text of an id, and
  what other clients do to the store at each moment.
\<close>

record 's turn_setup =
  su_parts :: turn_parts
  su_env :: "'s turn_world env"
  su_hook :: "'s input_hook"
  su_others :: "nat \<Rightarrow> 's \<Rightarrow> 's"
  su_prompt :: "prompt_section list option"
  su_id_text :: "session_id \<Rightarrow> string"

definition session_blobs :: "'s store_ops \<Rightarrow> session_id \<Rightarrow> 's \<Rightarrow> blob_store" where
  "session_blobs st i s d =
     (case so_read_blob st i d s of Inl e \<Rightarrow> Inl (store_error_dyn e) | Inr bytes \<Rightarrow> Inr bytes)"

definition turn_parts_of :: "'s store_ops \<Rightarrow> 's turn_setup \<Rightarrow> session \<Rightarrow> 's \<Rightarrow> turn_parts" where
  "turn_parts_of st su sn s =
     (su_parts su)
       \<lparr>tp_has_journal := True,
        tp_system := prompt_text (case su_prompt su of Some secs \<Rightarrow> secs | None \<Rightarrow> sn_prompt sn),
        tp_settings := ss_settings (sn_settings sn), tp_session_id := Some (su_id_text su (sn_id sn)),
        tp_blobs := Some (session_blobs st (sn_id sn) s)\<rparr>"

definition turn_env_of :: "'s store_ops \<Rightarrow> 's turn_setup \<Rightarrow> session_id \<Rightarrow> 's turn_world env" where
  "turn_env_of st su i =
     (su_env su)
       \<lparr>env_inbox := (\<lambda>t w. journal_take st (su_hook su) i (w\<lparr>tw_store := su_others su t (tw_store w)\<rparr>)),
        env_commit := (\<lambda>t c w. journal_commit st i c (w\<lparr>tw_store := su_others su t (tw_store w)\<rparr>))\<rparr>"

text \<open>
  The input of the turn: the pending inputs, and after them the note about an interrupted turn, unless
  one was taken. \<open>Inl\<close> is why no turn runs.
\<close>

definition start_input ::
  "'s store_ops \<Rightarrow> 's input_hook \<Rightarrow> session \<Rightarrow> 's turn_world \<Rightarrow> (session_error + block list) \<times> 's turn_world" where
  "start_input st hook sn w =
     (case take_inputs st hook (sn_id sn) w of
        (Inl e, w1) \<Rightarrow> (Inl (take_session_error e), w1)
      | (Inr bs, w1) \<Rightarrow>
          if bs = [] then (Inl SessNoInput, w1)
          else if list_ex (\<lambda>c. from_session (ci_source c)) (tw_taken w1) then (Inr bs, w1)
          else case interruption_note (sn_newest_turn sn) of
            None \<Rightarrow> (Inr bs, w1)
          | Some note \<Rightarrow>
              (case so_accept st (sn_id sn) note (tw_store w1) of
                 (Inl e, s2) \<Rightarrow> (Inl (SessStore e), w1\<lparr>tw_store := s2\<rparr>)
               | (Inr _, s2) \<Rightarrow>
                   (case take_inputs st hook (sn_id sn) (w1\<lparr>tw_store := s2\<rparr>) of
                      (Inl e, w2) \<Rightarrow> (Inl (take_session_error e), w2)
                    | (Inr bs', w2) \<Rightarrow> (Inr (bs @ bs'), w2))))"

definition new_turn_world :: "session \<Rightarrow> 's \<Rightarrow> 's turn_world" where
  "new_turn_world sn s =
     \<lparr>tw_store = s, tw_taken = [], tw_tokens = sn_input_tokens sn, tw_saved = [], tw_removed = [], tw_failed = None\<rparr>"

text \<open>The end of \<open>run\<close>: the downcast of a commit error gives back the error of the store.\<close>

definition finish_turn ::
  "'s store_ops \<Rightarrow> session \<Rightarrow> turn_error + outcome \<Rightarrow> block list \<Rightarrow> 's turn_world \<Rightarrow>
     (session_error + outcome) \<times> session \<times> 's turn_world" where
  "finish_turn st sn result context w =
     (let sn1 = sn\<lparr>sn_context := context, sn_input_tokens := tw_tokens w\<rparr> in
      case result of
        Inl (TurnCommit err) \<Rightarrow>
          (Inl (SessStore (case tw_failed w of Some e \<Rightarrow> e | None \<Rightarrow> StoreFailed err)),
           sn1\<lparr>sn_lease := False\<rparr>, w\<lparr>tw_store := so_drop st (sn_id sn) (tw_store w)\<rparr>)
      | Inl (TurnRound err) \<Rightarrow>
          (Inl (SessRound err), sn1\<lparr>sn_newest_turn := TurnEnded (end_from_result (Inl err))\<rparr>, w)
      | Inr oc \<Rightarrow> (Inr oc, sn1\<lparr>sn_newest_turn := TurnEnded (end_from_result (Inr oc))\<rparr>, w))"

text \<open>\<open>None\<close> only when the fuel of the driver ends.\<close>

definition session_run ::
  "nat \<Rightarrow> 's store_ops \<Rightarrow> 's turn_setup \<Rightarrow> session \<Rightarrow> 's \<Rightarrow>
     ((session_error + outcome) \<times> session \<times> 's turn_world) option" where
  "session_run fuel st su sn s =
     (if is_stale sn then Some (Inl SessStale, sn, new_turn_world sn s)
      else case start_input st (su_hook su) sn (new_turn_world sn s) of
        (Inl e, w) \<Rightarrow> Some (Inl e, sn, w)
      | (Inr input, w) \<Rightarrow>
          (case run_turn fuel (turn_parts_of st su sn (tw_store w)) (turn_env_of st su (sn_id sn)) (sn_context sn)
              input (sn_input_tokens sn) (new_io w) of
             None \<Rightarrow> None
           | Some (result, ts, io) \<Rightarrow> Some (finish_turn st sn result (ts_context ts) (io_world io))))"

end
