(* ===== verification/Session_Facts.thy ===== *)
theory Session_Facts
  imports Session Journal Memory_Facts
begin

text \<open>
  A session never silently falls behind its store. The locale \<open>durable_store\<close> states what a session
  relies on; inside it, every operation of a session keeps the invariant \<open>tracks\<close>: the session is stale,
  or it is what a fresh open of the store would give, and in both cases a recovery leads to a context
  that any provider accepts. The store in memory interprets the locale.
\<close>

section \<open>Open calls are the calls that wait\<close>

lemma open_calls_append:
  "open_calls (xs @ ys) =
     (if \<exists>b\<in>set ys. block_role b = User then open_calls ys
      else open_calls xs @ map call_id (calls_in ys))"
proof (cases "rposition (\<lambda>b. block_role b = User) ys")
  case None
  have c: "filter_map (\<lambda>b. case b of ToolCall c \<Rightarrow> Some (call_id c) | _ \<Rightarrow> None) ys = map call_id (calls_in ys)"
    by (induction ys) (auto simp: calls_in_def split: block.split)
  have le: "(case rposition (\<lambda>b. block_role b = User) xs of None \<Rightarrow> 0 | Some k \<Rightarrow> k + 1) \<le> length xs"
    using rposition_Some [of "\<lambda>b. block_role b = User" xs] by (auto split: option.split)
  have "\<not> (\<exists>b\<in>set ys. block_role b = User)" using None by (simp add: rposition_None)
  then show ?thesis using None le c by (simp add: open_calls_def Let_def rposition_append)
next
  case (Some i)
  then have "\<exists>b\<in>set ys. block_role b = User" using rposition_Some [OF Some] by (auto intro: nth_mem)
  then show ?thesis using Some by (simp add: open_calls_def Let_def rposition_append)
qed

lemma open_calls_User: "block_role b = User \<Longrightarrow> open_calls (xs @ [b]) = []"
  by (simp add: open_calls_append) (simp add: open_calls_def)

lemma scan_open_calls:
  "scan (False, []) ctx = Some (a, q) \<Longrightarrow> (\<not> a \<longrightarrow> open_calls ctx = q)"
proof (induction ctx arbitrary: a q rule: rev_induct)
  case Nil
  then show ?case by (simp add: open_calls_def)
next
  case (snoc b ctx)
  then obtain a0 q0 where st: "scan (False, []) ctx = Some (a0, q0)" "scan_block (a0, q0) b = Some (a, q)"
    by (auto simp: scan_append split: option.splits)
  note ih = snoc.IH [OF st(1)]
  show ?case
  proof (cases "block_role b = User")
    case True
    then have "\<not> a \<longrightarrow> q = []" using st(2) by (cases b) (auto split: list.splits if_splits)
    then show ?thesis using open_calls_User [OF True] by simp
  next
    case False
    then show ?thesis using st(2) ih
      by (cases b) (auto simp: open_calls_append calls_in_def split: if_splits)
  qed
qed

lemma open_calls_waiting: "waiting ctx ids \<Longrightarrow> open_calls ctx = ids"
  using scan_open_calls by (auto simp: waiting_def)

lemma repair_paired:
  assumes "waiting ctx ids"
  shows "paired (ctx @ commit_blocks (repair_commit ctx))"
proof -
  have "map result_call_id (map (\<lambda>i. result_error i outcome_unknown) ids) = ids"
    by (simp add: comp_def result_error_def result_success_def)
  with paired_results [of ctx "map (\<lambda>i. result_error i outcome_unknown) ids"] assms
  show ?thesis by (simp add: repair_commit_def open_calls_waiting [OF assms] comp_def)
qed

section \<open>What a session must be\<close>

text \<open>What a store shows of a session, and the record that an open gives for it.\<close>

record session_view =
  vw_events :: "stored_event list"
  vw_prompt :: "prompt_section list"
  vw_parent :: "session_id option"

definition opens :: "session_id \<Rightarrow> session_view \<Rightarrow> bool \<Rightarrow> opened \<Rightarrow> bool" where
  "opens i v lease op \<longleftrightarrow>
     (let r = replay_events (vw_events v) in
      op_id op = i \<and> rp_settings r = Some (op_settings op) \<and> op_prompt op = vw_prompt v \<and>
      op_context op = rp_context r \<and> op_parent op = vw_parent v \<and> op_newest_turn op = rp_newest_turn r \<and>
      op_input_tokens op = rp_input_tokens r \<and> op_lease op = lease)"

text \<open>A replayed session whose repair gives a paired context; only an open turn has open calls.\<close>

definition repairable :: "replayed \<Rightarrow> bool" where
  "repairable r \<longleftrightarrow>
     (\<exists>ids. waiting (rp_context r) ids \<and> (\<not> newest_is_open (rp_newest_turn r) \<longrightarrow> ids = []))"

text \<open>Memory and store agree, and no turn is open.\<close>

definition same_session :: "session \<Rightarrow> replayed \<Rightarrow> bool" where
  "same_session sn r \<longleftrightarrow>
     rp_settings r = Some (sn_settings sn) \<and> sn_context sn = rp_context r \<and>
     sn_newest_turn sn = rp_newest_turn r \<and> sn_input_tokens sn = rp_input_tokens r \<and>
     \<not> newest_is_open (rp_newest_turn r)"

definition user_blocks :: "block list \<Rightarrow> bool" where
  "user_blocks bs \<longleftrightarrow> (\<forall>b\<in>set bs. block_role b = User \<and> \<not> is_tool_result b)"

lemma user_blocks_paired: "user_blocks bs \<Longrightarrow> paired bs"
  by (simp add: user_blocks_def paired_user)

lemma user_blocks_append [simp]:
  "user_blocks [] = True" "user_blocks (xs @ ys) \<longleftrightarrow> user_blocks xs \<and> user_blocks ys"
  by (auto simp: user_blocks_def)

lemma note_user_blocks: "interruption_note t = Some nt \<Longrightarrow> user_blocks (model_content nt) \<and> input_ok nt"
  by (auto simp: interruption_note_def notification_def model_content_def user_blocks_def input_ok_def
      split: newest_turn.splits turn_end.splits outcome.splits)

text \<open>What one commit does to a replayed session.\<close>

definition replay_commit :: "commit \<Rightarrow> replayed \<Rightarrow> replayed" where
  "replay_commit c = replay_event \<lparr>se_number = EventNumber 0, se_event = CommitEvent c []\<rparr>"

lemma replay_commit_event:
  "replay_event \<lparr>se_number = n, se_event = CommitEvent c ci\<rparr> r = replay_commit c r"
  by (simp add: replay_commit_def replay_event_def)

lemma replay_commit_fields [simp]:
  "rp_settings (replay_commit c r) = rp_settings r"
  "rp_context (replay_commit c r) = apply_commit c (rp_context r)"
  "rp_newest_turn (replay_commit c r) = (case commit_end c of None \<Rightarrow> TurnOpen | Some te \<Rightarrow> TurnEnded te)"
  "rp_input_tokens (replay_commit c r) =
     (case commit_answer c of
        Some a \<Rightarrow> usage_input (ans_usage a)
      | None \<Rightarrow> if commit_replaced c \<noteq> None then None else rp_input_tokens r)"
  by (simp_all add: replay_commit_def replay_event_def)

lemma replay_commits_fields:
  "rp_settings (fold replay_commit j r) = rp_settings r"
  "rp_context (fold replay_commit j r) = replay j (rp_context r)"
  by (induction j arbitrary: r) simp_all

lemma replay_commits_last:
  "rp_newest_turn (fold replay_commit (j @ [c]) r) =
     (case commit_end c of None \<Rightarrow> TurnOpen | Some te \<Rightarrow> TurnEnded te)"
  by simp

text \<open>The journal of a turn leaves a session that can be repaired, and a turn that ended, a whole one.\<close>

lemma journal_repairable:
  assumes "journal_fits (rp_context r) j res" "paired (rp_context r)"
  shows "repairable (fold replay_commit j r)"
proof -
  have opn: "repairable (fold replay_commit j r)" if o: "open_prefixes (rp_context r) j"
  proof (cases j rule: rev_cases)
    case Nil
    then show ?thesis using assms(2) by (auto simp: repairable_def paired_def)
  next
    case (snoc j0 c)
    have "commit_end c = None" using o snoc by (simp add: open_prefixes_def)
    then have "newest_is_open (rp_newest_turn (fold replay_commit j r))"
      using snoc by (simp add: newest_is_open_def)
    moreover obtain ids where "waiting (replay (take (length j) j) (rp_context r)) ids"
      using o unfolding open_prefixes_def by blast
    ultimately show ?thesis by (auto simp: repairable_def replay_commits_fields)
  qed
  have "repairable (fold replay_commit j r)" if "ended_journal (rp_context r) j x" for x
    using that by (auto simp: ended_journal_def repairable_def replay_commits_fields paired_def)
  with opn assms(1) show ?thesis
    by (auto simp: journal_fits_def split: sum.splits turn_error.splits)
qed

lemma ended_newest:
  assumes "ended_journal ctx j res"
  shows "rp_newest_turn (fold replay_commit j r) = TurnEnded (end_from_result res)"
  using assms by (auto simp: ended_journal_def)

section \<open>The contract and the invariant\<close>

text \<open>\<open>users\<close>: what waits for a session is content that a user can send.\<close>

definition users :: "('s \<Rightarrow> session_id \<Rightarrow> pending_input list) \<Rightarrow> 's \<Rightarrow> session_id \<Rightarrow> bool" where
  "users pending s i \<longleftrightarrow> (\<forall>p\<in>set (pending s i). user_blocks (model_content (pi_input p)))"

text \<open>A change of the store by others, for the owner of the session \<open>i\<close>.\<close>

definition keeps_session ::
  "('s \<Rightarrow> bool) \<Rightarrow> ('s \<Rightarrow> session_id \<Rightarrow> session_view option) \<Rightarrow> ('s \<Rightarrow> session_id \<Rightarrow> bool) \<Rightarrow>
     ('s \<Rightarrow> session_id \<Rightarrow> pending_input list) \<Rightarrow> session_id \<Rightarrow> 's \<Rightarrow> 's \<Rightarrow> bool" where
  "keeps_session ok view held pending i s s' \<longleftrightarrow>
     (ok s \<longrightarrow> ok s' \<and> view s' i = view s i \<and> (held s i \<longrightarrow> held s' i) \<and>
        (users pending s i \<longrightarrow> users pending s' i))"

text \<open>The hooks of the driver keep the call ids and the pairing.\<close>

definition hooks_pair :: "'w env \<Rightarrow> bool" where
  "hooks_pair e \<longleftrightarrow>
     keeps_call_ids e \<and>
     (\<forall>t start plan. env_before_round e t start = Inr plan \<longrightarrow> plan_keeps plan (rs_context start)) \<and>
     (\<forall>t start err plan. env_retry_round e t start err = Inr (Some plan) \<longrightarrow> plan_keeps plan (rs_context start))"

definition setup_ok ::
  "('s \<Rightarrow> bool) \<Rightarrow> ('s \<Rightarrow> session_id \<Rightarrow> session_view option) \<Rightarrow> ('s \<Rightarrow> session_id \<Rightarrow> bool) \<Rightarrow>
     ('s \<Rightarrow> session_id \<Rightarrow> pending_input list) \<Rightarrow> session_id \<Rightarrow> 's turn_setup \<Rightarrow> bool" where
  "setup_ok ok view held pending i su \<longleftrightarrow>
     (\<forall>t s. keeps_session ok view held pending i s (su_others su t s)) \<and>
     (\<forall>p s r s'. su_hook su p s = (r, s') \<longrightarrow> keeps_session ok view held pending i s s' \<and>
        (\<forall>bs. r = Inr (ReplaceInput bs) \<longrightarrow> user_blocks bs)) \<and>
     hooks_pair (su_env su)"

text \<open>
  The invariant of a session: it is stale, or it owns its store session and is what a fresh open gives;
  in both cases the store holds a context that a recovery repairs.
\<close>

definition tracks ::
  "('s \<Rightarrow> bool) \<Rightarrow> ('s \<Rightarrow> session_id \<Rightarrow> session_view option) \<Rightarrow> ('s \<Rightarrow> session_id \<Rightarrow> bool) \<Rightarrow>
     ('s \<Rightarrow> session_id \<Rightarrow> pending_input list) \<Rightarrow> 's \<Rightarrow> session \<Rightarrow> bool" where
  "tracks ok view held pending s sn \<longleftrightarrow>
     ok s \<and> users pending s (sn_id sn) \<and>
     (\<exists>v. view s (sn_id sn) = Some v \<and> sn_prompt sn = vw_prompt v \<and> sn_parent sn = vw_parent v \<and>
        repairable (replay_events (vw_events v)) \<and>
        (sn_lease sn \<longrightarrow> held s (sn_id sn) \<and> same_session sn (replay_events (vw_events v))))"

locale durable_store =
  fixes st :: "'s store_ops"
    and ok :: "'s \<Rightarrow> bool"
    and view :: "'s \<Rightarrow> session_id \<Rightarrow> session_view option"
    and held :: "'s \<Rightarrow> session_id \<Rightarrow> bool"
    and pending :: "'s \<Rightarrow> session_id \<Rightarrow> pending_input list"
  assumes open_saves: "ok s \<Longrightarrow> so_open st i acc s = (Inr op, s') \<Longrightarrow>
      ok s' \<and> view s' = view s \<and> pending s' = pending s \<and> (\<forall>j. held s j \<longrightarrow> held s' j) \<and>
      (acc = WriteAccess \<longrightarrow> held s' i) \<and> (\<exists>v. view s i = Some v \<and> opens i v (acc = WriteAccess) op)"
    and open_fails: "ok s \<Longrightarrow> so_open st i acc s = (Inl e, s') \<Longrightarrow> s' = s"
    and commit_saves: "ok s \<Longrightarrow> so_commit st i c ci s = (Inr n, s') \<Longrightarrow>
      ok s' \<and> held s' = held s \<and> set (pending s' i) \<subseteq> set (pending s i) \<and>
      (\<exists>v. view s i = Some v \<and> view s' i =
        Some (v\<lparr>vw_events := vw_events v @ [\<lparr>se_number = n, se_event = CommitEvent c ci\<rparr>]\<rparr>))"
    and commit_fails: "ok s \<Longrightarrow> so_commit st i c ci s = (Inl e, s') \<Longrightarrow>
      ok s' \<and> held s' = held s \<and> set (pending s' i) \<subseteq> set (pending s i) \<and> view s' i = view s i"
    and settings_save: "ok s \<Longrightarrow> so_set_settings st i stg s = (Inr n, s') \<Longrightarrow>
      ok s' \<and> held s' = held s \<and> pending s' i = pending s i \<and>
      (\<exists>v. view s i = Some v \<and> view s' i =
        Some (v\<lparr>vw_events := vw_events v @ [\<lparr>se_number = n, se_event = SettingsEvent stg\<rparr>]\<rparr>))"
    and settings_fail: "ok s \<Longrightarrow> so_set_settings st i stg s = (Inl e, s') \<Longrightarrow>
      ok s' \<and> held s' = held s \<and> pending s' i = pending s i \<and> view s' i = view s i"
    and accept_adds: "ok s \<Longrightarrow> input_ok inp \<Longrightarrow> so_accept st i inp s = (r, s') \<Longrightarrow>
      ok s' \<and> held s' = held s \<and> view s' i = view s i \<and>
      set (pending s' i) \<subseteq> set (pending s i) \<union> {p. pi_input p = inp}"
    and remove_takes: "ok s \<Longrightarrow> so_remove st i k s = (ru, s') \<Longrightarrow>
      ok s' \<and> held s' = held s \<and> view s' i = view s i \<and> set (pending s' i) \<subseteq> set (pending s i)"
    and pending_shows: "ok s \<Longrightarrow> so_pending st i s = Inr ps \<Longrightarrow> ps = pending s i"
    and drop_frees: "ok s \<Longrightarrow> ok (so_drop st i s) \<and> view (so_drop st i s) = view s \<and>
      pending (so_drop st i s) = pending s"
begin

abbreviation keeps :: "session_id \<Rightarrow> 's \<Rightarrow> 's \<Rightarrow> bool" where
  "keeps \<equiv> keeps_session ok view held pending"

lemma keeps_refl: "keeps i s s"
  by (simp add: keeps_session_def)

lemma keeps_trans: "keeps i a b \<Longrightarrow> keeps i b c \<Longrightarrow> keeps i a c"
  by (auto simp: keeps_session_def)

lemma keeps_ok: "keeps i s s' \<Longrightarrow> ok s \<Longrightarrow> ok s'"
  by (simp add: keeps_session_def)

lemma users_subset: "users pending s i \<Longrightarrow> set (pending s' i) \<subseteq> set (pending s i) \<Longrightarrow> users pending s' i"
  by (auto simp: users_def)

lemma keeps_remove: "so_remove st i k s = (r, s') \<Longrightarrow> keeps i s s'"
  using remove_takes users_subset by (simp add: keeps_session_def)

lemma keeps_accept:
  assumes "input_ok inp" "user_blocks (model_content inp)" "so_accept st i inp s = (r, s')"
  shows "keeps i s s'"
proof (unfold keeps_session_def, intro impI)
  assume "ok s"
  note a = accept_adds [OF this assms(1,3)]
  have "users pending s' i" if "users pending s i"
    unfolding users_def
  proof
    fix p assume "p \<in> set (pending s' i)"
    then have "p \<in> set (pending s i) \<or> pi_input p = inp" using a by blast
    then show "user_blocks (model_content (pi_input p))" using that assms(2) by (auto simp: users_def)
  qed
  then show "ok s' \<and> view s' i = view s i \<and> (held s i \<longrightarrow> held s' i) \<and> (users pending s i \<longrightarrow> users pending s' i)"
    using a by simp
qed

end

section \<open>The inputs of a turn\<close>

lemma with_model_content_blocks: "with_model_content bs inp = Inr inp' \<Longrightarrow> model_content inp' = bs"
  by (auto simp: with_model_content_def model_content_def split: if_splits)

lemma keep_input_fields [simp]:
  "fst (keep_input p w) = model_content (pi_input p)" "tw_store (snd (keep_input p w)) = tw_store w"
  "tw_tokens (snd (keep_input p w)) = tw_tokens w"
  by (simp_all add: keep_input_def case_prod_beta)

context durable_store begin

definition hook_ok :: "session_id \<Rightarrow> 's input_hook \<Rightarrow> bool" where
  "hook_ok i hook \<longleftrightarrow>
     (\<forall>p s r s'. hook p s = (r, s') \<longrightarrow> keeps i s s' \<and>
        (\<forall>bs. r = Inr (ReplaceInput bs) \<longrightarrow> user_blocks bs))"

text \<open>What a take may change: the store as others may, and the inputs that it took.\<close>

definition takes :: "session_id \<Rightarrow> 's turn_world \<Rightarrow> take_error + block list \<Rightarrow> 's turn_world \<Rightarrow> bool" where
  "takes i w r w' \<longleftrightarrow>
     keeps i (tw_store w) (tw_store w') \<and> tw_tokens w' = tw_tokens w \<and>
     (\<forall>bs. r = Inr bs \<longrightarrow> user_blocks bs)"

lemma take_kept_takes:
  assumes "take_kept st i p rep w = (q, w')" "user_blocks (model_content (pi_input p))"
    and "\<And>bs. rep = Some bs \<Longrightarrow> user_blocks bs"
  shows "takes i w q w'"
proof -
  let ?inp = "case rep of None \<Rightarrow> Inr (pi_input p) | Some bs \<Rightarrow> with_model_content bs (pi_input p)"
  have inp: "user_blocks (model_content inp)" if "?inp = Inr inp" for inp
    using that assms(2,3) by (auto simp: with_model_content_blocks split: option.splits)
  have same: "tw_store w' = tw_store w \<and> tw_tokens w' = tw_tokens w"
    using assms(1) by (auto simp: take_kept_def case_prod_beta split: sum.splits if_splits)
  have "user_blocks bs" if "q = Inr bs" for bs
  proof (cases ?inp)
    case (Inl e)
    then show ?thesis using assms(1) that by (auto simp: take_kept_def split: sum.splits if_splits)
  next
    case (Inr x)
    then show ?thesis using assms(1) that inp [OF Inr]
      by (auto simp: take_kept_def case_prod_beta split: sum.splits if_splits)
  qed
  with same show ?thesis by (simp add: takes_def keeps_refl)
qed

lemma take_removed_takes:
  assumes "take_removed st i p w = (q, w')"
  shows "takes i w q w'"
proof -
  obtain x s1 where x: "so_remove st i (pi_id p) (tw_store w) = (x, s1)" by fastforce
  have "(q, w') \<in> {(Inr [], w\<lparr>tw_store := s1, tw_removed := tw_removed w @ [pi_id p]\<rparr>),
      (Inr [], w\<lparr>tw_store := s1\<rparr>)} \<union> range (\<lambda>e. (Inl (TakeStore e), w\<lparr>tw_store := s1\<rparr>))"
    unfolding assms [symmetric] take_removed_def x by (simp split: sum.split store_error.split)
  then show ?thesis using keeps_remove [OF x] by (auto simp: takes_def)
qed

lemma takes_later:
  assumes "keeps i (tw_store w) s1" "takes i (w\<lparr>tw_store := s1\<rparr>) q w'"
  shows "takes i w q w'"
  using assms keeps_trans by (auto simp: takes_def)

lemma take_input_takes:
  assumes "hook_ok i hook" "take_input st hook i p w = (r, w')" "user_blocks (model_content (pi_input p))"
  shows "takes i w r w'"
proof (cases "pi_id p \<in> set (map ci_id (tw_taken w))")
  case True
  then show ?thesis using assms(2) by (auto simp: take_input_def takes_def keeps_refl)
next
  case False
  obtain d s1 where d: "(if from_session (in_source (pi_input p)) then (Inr KeepInput, tw_store w)
      else hook p (tw_store w)) = (d, s1)" by fastforce
  have k: "keeps i (tw_store w) s1" and rb: "\<And>bs. d = Inr (ReplaceInput bs) \<Longrightarrow> user_blocks bs"
    using d assms(1) keeps_refl by (auto simp: hook_ok_def split: if_splits)
  have e: "take_input st hook i p w = (case d of
      Inl e \<Rightarrow> (Inl (TakeHook e), w\<lparr>tw_store := s1\<rparr>)
    | Inr KeepInput \<Rightarrow> take_kept st i p None (w\<lparr>tw_store := s1\<rparr>)
    | Inr (ReplaceInput bs) \<Rightarrow> take_kept st i p (Some bs) (w\<lparr>tw_store := s1\<rparr>)
    | Inr RemoveInput \<Rightarrow> take_removed st i p (w\<lparr>tw_store := s1\<rparr>))"
    unfolding take_input_def Let_def d by (simp only: if_not_P [OF False] prod.case)
  have "takes i (w\<lparr>tw_store := s1\<rparr>) r w'"
  proof (cases d)
    case (Inl err)
    then show ?thesis using assms(2) e by (auto simp: takes_def keeps_refl)
  next
    case (Inr dec)
    note kept = take_kept_takes [OF _ assms(3)]
    show ?thesis
    proof (cases dec)
      case KeepInput
      then show ?thesis using assms(2) e Inr by (intro kept [where rep = None]) simp_all
    next
      case (ReplaceInput bs)
      then show ?thesis using assms(2) e Inr rb by (intro kept [where rep = "Some bs"]) simp_all
    next
      case RemoveInput
      then show ?thesis using assms(2) e Inr by (intro take_removed_takes) simp
    qed
  qed
  with k show ?thesis by (rule takes_later)
qed

lemma take_each_takes:
  assumes "hook_ok i hook"
  shows "take_each st hook i ps w = (r, w') \<Longrightarrow>
    \<forall>p\<in>set ps. user_blocks (model_content (pi_input p)) \<Longrightarrow> takes i w r w'"
proof (induction ps arbitrary: w r w')
  case Nil
  then show ?case by (auto simp: takes_def keeps_refl)
next
  case (Cons p ps)
  obtain q w1 where q: "take_input st hook i p w = (q, w1)" by fastforce
  have t: "takes i w q w1" using take_input_takes [OF assms q] Cons.prems(2) by simp
  show ?case
  proof (cases q)
    case (Inl e)
    then show ?thesis using Cons.prems(1) q t by (auto simp: takes_def)
  next
    case (Inr bs)
    obtain q2 w2 where q2: "take_each st hook i ps w1 = (q2, w2)" by fastforce
    from Cons.IH [OF q2] Cons.prems(2) have t2: "takes i w1 q2 w2" by simp
    have "w' = w2" using Cons.prems(1) q q2 Inr by (auto split: sum.splits)
    then show ?thesis using Cons.prems(1) q q2 Inr t t2
      by (auto simp: takes_def intro: keeps_trans split: sum.splits)
  qed
qed

lemma take_inputs_takes:
  assumes "hook_ok i hook" "take_inputs st hook i w = (r, w')" "ok (tw_store w)" "users pending (tw_store w) i"
  shows "takes i w r w'"
proof (cases "so_pending st i (tw_store w)")
  case (Inl e)
  then show ?thesis using assms(2) by (auto simp: take_inputs_def takes_def keeps_refl)
next
  case (Inr ps)
  then show ?thesis
    using assms pending_shows [OF assms(3) Inr] take_each_takes [OF assms(1), of ps w r w']
    by (simp add: take_inputs_def users_def)
qed

lemma takes_trans:
  assumes "takes i w r w1" "keeps i (tw_store w1) (tw_store w2)" "tw_tokens w2 = tw_tokens w1"
    and "takes i w2 r' w3"
  shows "takes i w r' w3"
  using assms keeps_trans unfolding takes_def by metis

text \<open>The input that starts a turn.\<close>

lemma start_input_takes:
  assumes "hook_ok (sn_id sn) hook" "start_input st hook sn w = (r, w')" "ok (tw_store w)"
    and "users pending (tw_store w) (sn_id sn)"
  shows "keeps (sn_id sn) (tw_store w) (tw_store w') \<and> tw_tokens w' = tw_tokens w \<and>
    (\<forall>bs. r = Inr bs \<longrightarrow> user_blocks bs)"
proof -
  let ?i = "sn_id sn"
  obtain q w1 where q: "take_inputs st hook ?i w = (q, w1)" by fastforce
  note t1 = take_inputs_takes [OF assms(1) q assms(3,4)]
  show ?thesis
  proof (cases q)
    case (Inl e)
    then show ?thesis using assms(2) q t1 by (auto simp: start_input_def takes_def)
  next
    case (Inr bs)
    show ?thesis
    proof (cases "bs = [] \<or> list_ex (\<lambda>c. from_session (ci_source c)) (tw_taken w1) \<or>
        interruption_note (sn_newest_turn sn) = None")
      case True
      then show ?thesis using assms(2) q Inr t1
        by (auto simp: start_input_def takes_def split: if_splits)
    next
      case False
      then obtain nt where nt: "interruption_note (sn_newest_turn sn) = Some nt" by blast
      obtain x s2 where a: "so_accept st ?i nt (tw_store w1) = (x, s2)" by fastforce
      have k1: "keeps ?i (tw_store w) (tw_store w1)" using t1 by (simp add: takes_def)
      have k2: "keeps ?i (tw_store w1) s2" using keeps_accept [OF _ _ a] note_user_blocks [OF nt] by blast
      obtain q2 w2 where q2: "take_inputs st hook ?i (w1\<lparr>tw_store := s2\<rparr>) = (q2, w2)" by fastforce
      have "ok s2" "users pending s2 ?i"
        using keeps_trans [OF k1 k2] assms(3,4) by (auto simp: keeps_session_def)
      then have t2: "takes ?i (w1\<lparr>tw_store := s2\<rparr>) q2 w2"
        using take_inputs_takes [OF assms(1) q2] by simp
      have k3: "keeps ?i (tw_store w) (tw_store w2)"
        using keeps_trans [OF keeps_trans [OF k1 k2]] t2 by (simp add: takes_def)
      have st: "start_input st hook sn w = (case x of
            Inl e \<Rightarrow> (Inl (SessStore e), w1\<lparr>tw_store := s2\<rparr>)
          | Inr _ \<Rightarrow> (case q2 of Inl e \<Rightarrow> (Inl (take_session_error e), w2) | Inr bs' \<Rightarrow> (Inr (bs @ bs'), w2)))"
        using False nt q Inr a q2 by (simp add: start_input_def split: sum.split)
      show ?thesis
        using assms(2) t1 t2 keeps_trans [OF k1 k2] k3 Inr unfolding st
        by (auto simp: takes_def split: sum.splits)
    qed
  qed
qed

end

section \<open>A turn keeps the invariant\<close>

context durable_store begin

text \<open>
  Between the calls of a turn: the store holds what it held at the start, with the commits \<open>j\<close> that the
  driver has confirmed since.
\<close>

definition turn_rel :: "session_id \<Rightarrow> session_view \<Rightarrow> 's turn_world \<Rightarrow> commit list \<Rightarrow> bool" where
  "turn_rel i v0 w j \<longleftrightarrow>
     ok (tw_store w) \<and> users pending (tw_store w) i \<and> held (tw_store w) i \<and>
     (\<exists>v. view (tw_store w) i = Some v \<and> vw_prompt v = vw_prompt v0 \<and> vw_parent v = vw_parent v0 \<and>
        replay_events (vw_events v) = fold replay_commit j (replay_events (vw_events v0)) \<and>
        tw_tokens w = rp_input_tokens (replay_events (vw_events v)))"

lemma turn_rel_keeps:
  assumes "turn_rel i v0 w j" "keeps i (tw_store w) (tw_store w')" "tw_tokens w' = tw_tokens w"
  shows "turn_rel i v0 w' j"
  using assms by (auto simp: turn_rel_def keeps_session_def)

lemma journal_take_rel:
  assumes "hook_ok i hook" "journal_take st hook i w = (r, w')" "turn_rel i v0 w j"
  shows "turn_rel i v0 w' j \<and> (\<forall>bs. r = Inr bs \<longrightarrow> user_blocks bs)"
proof -
  obtain q w1 where q: "take_inputs st hook i w = (q, w1)" by fastforce
  then have "takes i w q w1" using take_inputs_takes [OF assms(1) q] assms(3) by (simp add: turn_rel_def)
  then show ?thesis using assms(2,3) q turn_rel_keeps [OF assms(3)]
    by (auto simp: journal_take_def takes_def split: sum.splits)
qed

lemma journal_commit_rel:
  assumes "journal_commit st i c w = (r, w')" "turn_rel i v0 w j"
  shows "turn_rel i v0 w' (case r of None \<Rightarrow> j @ [c] | Some _ \<Rightarrow> j)"
proof -
  have ok: "ok (tw_store w)" using assms(2) by (simp add: turn_rel_def)
  obtain x s1 where x: "so_commit st i c (tw_taken w) (tw_store w) = (x, s1)" by fastforce
  show ?thesis
  proof (cases x)
    case (Inl e)
    with commit_fails [OF ok x [unfolded Inl]] assms x show ?thesis
      by (auto simp: journal_commit_def turn_rel_def intro: users_subset)
  next
    case (Inr n)
    note sv = commit_saves [OF ok x [unfolded Inr]]
    then obtain v where v: "view (tw_store w) i = Some v"
      "view s1 i = Some (v\<lparr>vw_events := vw_events v @ [\<lparr>se_number = n, se_event = CommitEvent c (tw_taken w)\<rparr>]\<rparr>)"
      by blast
    have w': "r = None" "tw_store w' = s1" "tw_tokens w' = (case commit_answer c of
          Some a \<Rightarrow> usage_input (ans_usage a)
        | None \<Rightarrow> if commit_replaced c \<noteq> None then None else tw_tokens w)"
      using assms(1) x Inr by (auto simp: journal_commit_def)
    show ?thesis
      using assms(2) v sv w' unfolding turn_rel_def
      by (auto simp: replay_events_def replay_commit_event users_subset split: option.split)
  qed
qed

lemma turn_env_keeps:
  assumes "setup_ok ok view held pending i su"
  shows "world_keeps (turn_env_of st su i) (turn_rel i v0)"
    "keeps_pairing (\<lambda>w. \<exists>j. turn_rel i v0 w j) (turn_env_of st su i)"
proof -
  have hook: "hook_ok i (su_hook su)" using assms unfolding setup_ok_def hook_ok_def by blast
  have others: "turn_rel i v0 (w\<lparr>tw_store := su_others su t (tw_store w)\<rparr>) j" if "turn_rel i v0 w j" for w t j
    using turn_rel_keeps [OF that, of "w\<lparr>tw_store := su_others su t (tw_store w)\<rparr>"] assms
    by (simp add: setup_ok_def)
  note take = journal_take_rel [OF hook _ others] and commit = journal_commit_rel [OF _ others]
  show rel: "world_keeps (turn_env_of st su i) (turn_rel i v0)"
    using take commit by (auto simp: world_keeps_def turn_env_of_def)
  have "world_keeps (turn_env_of st su i) (\<lambda>w k. \<exists>j. turn_rel i v0 w j)"
    using rel unfolding world_keeps_def by metis
  moreover have "paired input" if "turn_rel i v0 w j" "env_inbox (turn_env_of st su i) t w = (Inr input, w')" for t w w' input j
    using take [OF _ that(1)] that(2) user_blocks_paired by (auto simp: turn_env_of_def)
  moreover have "hooks_pair (turn_env_of st su i)"
    using assms by (simp add: setup_ok_def hooks_pair_def turn_env_of_def keeps_call_ids_def)
  ultimately show "keeps_pairing (\<lambda>w. \<exists>j. turn_rel i v0 w j) (turn_env_of st su i)"
    unfolding keeps_pairing_def hooks_pair_def by blast
qed

lemma tracks_keeps:
  assumes "tracks ok view held pending s sn" "keeps (sn_id sn) s s'"
  shows "tracks ok view held pending s' sn"
  using assms by (auto simp: tracks_def keeps_session_def)

lemma tracks_stale:
  "tracks ok view held pending s sn \<Longrightarrow> tracks ok view held pending s (sn\<lparr>sn_lease := False\<rparr>)"
  by (auto simp: tracks_def)

text \<open>The invariant of a session across a turn, whatever its result.\<close>

lemma run_tracks:
  assumes "tracks ok view held pending s sn" "setup_ok ok view held pending (sn_id sn) su"
    and "session_run fuel st su sn s = Some (r, sn', w')"
  shows "tracks ok view held pending (tw_store w') sn' \<and> sn_id sn' = sn_id sn"
proof (cases "is_stale sn")
  case True
  then show ?thesis using assms(1,3) by (auto simp: session_run_def new_turn_world_def)
next
  case False
  let ?i = "sn_id sn"
  have hook: "hook_ok ?i (su_hook su)" using assms(2) unfolding setup_ok_def hook_ok_def by blast
  obtain q w where q: "start_input st (su_hook su) sn (new_turn_world sn s) = (q, w)" by fastforce
  have ok: "ok s" "users pending s ?i" using assms(1) by (simp_all add: tracks_def)
  have k: "keeps ?i s (tw_store w)" "tw_tokens w = sn_input_tokens sn" and ub: "\<And>bs. q = Inr bs \<Longrightarrow> user_blocks bs"
    using start_input_takes [OF hook q] ok by (auto simp: new_turn_world_def)
  show ?thesis
  proof (cases q)
    case (Inl e)
    then show ?thesis using assms(3) False q tracks_keeps [OF assms(1) k(1)] by (auto simp: session_run_def)
  next
    case (Inr input)
    obtain v where v: "view s ?i = Some v" "sn_prompt sn = vw_prompt v" "sn_parent sn = vw_parent v"
      "repairable (replay_events (vw_events v))" "held s ?i" "same_session sn (replay_events (vw_events v))"
      using assms(1) False by (auto simp: tracks_def is_stale_def)
    let ?r0 = "replay_events (vw_events v)"
    have paired: "paired (sn_context sn)" "sn_context sn = rp_context ?r0"
      using v(4,6) by (auto simp: repairable_def same_session_def paired_def)
    let ?p = "turn_parts_of st su sn (tw_store w)" and ?e = "turn_env_of st su ?i"
    obtain result ts io where run: "run_turn fuel ?p ?e (sn_context sn) input (sn_input_tokens sn) (new_io w)
        = Some (result, ts, io)"
      and fin: "finish_turn st sn result (ts_context ts) (io_world io) = (r, sn', w')"
      using assms(3) False q Inr by (auto simp: session_run_def split: option.splits)
    have start: "turn_rel ?i v w []"
      using k v ok by (auto simp: turn_rel_def keeps_session_def same_session_def)
    have io0: "io_journal (new_io w) = []" "io_world (new_io w) = w" by (simp_all add: new_io_def io_journal_def)
    have hj: "tp_has_journal ?p" by (simp add: turn_parts_of_def)
    have rel: "turn_rel ?i v (io_world io) (io_journal io)"
      using turn_loop_world [OF turn_env_keeps(1) [OF assms(2)], of fuel ?p] run start io0
      by (auto simp: run_turn_def io_ok_def split: prod.splits)
    have jf: "journal_fits (rp_context ?r0) (io_journal io) result"
      using run_turn_journal [OF run paired(1) user_blocks_paired [OF ub [OF Inr]] turn_env_keeps(2) [OF assms(2)] _ hj io0(1)]
        start io0(2) paired(2) by auto
    have rep: "repairable (fold replay_commit (io_journal io) ?r0)"
      using journal_repairable [OF jf] paired by simp
    have ctx: "replay (io_journal io) (sn_context sn) = ts_context ts" if "\<forall>err. result \<noteq> Inl (TurnCommit err)"
      using run_turn_saved [OF run io0(1)] hj that by (auto simp: saved_up_def)
    have whole: "tracks ok view held pending (tw_store (io_world io))
        (sn\<lparr>sn_context := ts_context ts, sn_input_tokens := tw_tokens (io_world io),
            sn_newest_turn := TurnEnded (end_from_result res)\<rparr>)"
      if e: "ended_journal (rp_context ?r0) (io_journal io) res" "\<forall>err. result \<noteq> Inl (TurnCommit err)" for res
      using rel rep ctx [OF e(2)] ended_newest [OF e(1)] v(2,3,6) paired(2)
      by (auto simp: tracks_def turn_rel_def same_session_def replay_commits_fields newest_is_open_def)
    have stale: "tracks ok view held pending (so_drop st ?i (tw_store (io_world io)))
        (sn\<lparr>sn_context := ts_context ts, sn_input_tokens := tw_tokens (io_world io), sn_lease := False\<rparr>)"
      using rel rep v(2,3) drop_frees by (auto simp: tracks_def turn_rel_def users_def)
    show ?thesis
    proof (cases result)
      case (Inr oc)
      then show ?thesis using fin whole [of "Inr oc"] jf by (auto simp: finish_turn_def journal_fits_def)
    next
      case (Inl err)
      then show ?thesis using fin stale whole [of "Inl e" for e] jf
        by (cases err) (auto simp: finish_turn_def journal_fits_def)
    qed
  qed
qed

end

section \<open>Opening, recovering, settings\<close>

context durable_store begin

text \<open>What the store must hold for an open: a session that a repair can finish.\<close>

definition openable :: "'s \<Rightarrow> session_id \<Rightarrow> session_view \<Rightarrow> bool" where
  "openable s i v \<longleftrightarrow>
     ok s \<and> users pending s i \<and> view s i = Some v \<and> repairable (replay_events (vw_events v))"

lemma repaired_opened:
  assumes "opens i v lease op" "newest_is_open (op_newest_turn op)"
    and "repairable (replay_events (vw_events v))"
  shows "replay_commit (repair_commit (op_context op)) (replay_events (vw_events v)) =
      (replay_events (vw_events v))\<lparr>rp_context := op_context op @ commit_blocks (repair_commit (op_context op)),
         rp_newest_turn := TurnEnded (EndFailed turn_stopped)\<rparr>"
    "paired (op_context op @ commit_blocks (repair_commit (op_context op)))"
proof -
  obtain ids where "waiting (op_context op) ids"
    using assms(1,3) by (auto simp: opens_def repairable_def Let_def)
  then show "paired (op_context op @ commit_blocks (repair_commit (op_context op)))" by (rule repair_paired)
  have f: "commit_replaced (repair_commit c) = None" "commit_answer (repair_commit c) = None"
    "commit_end (repair_commit c) = Some (EndFailed turn_stopped)" for c
    by (simp_all add: repair_commit_def)
  have "op_context op = rp_context (replay_events (vw_events v))"
    using assms(1) by (simp add: opens_def Let_def)
  then show "replay_commit (repair_commit (op_context op)) (replay_events (vw_events v)) =
      (replay_events (vw_events v))\<lparr>rp_context := op_context op @ commit_blocks (repair_commit (op_context op)),
         rp_newest_turn := TurnEnded (EndFailed turn_stopped)\<rparr>"
    by (simp add: replay_commit_def replay_event_def f apply_commit_def)
qed

text \<open>An open that succeeds gives the session whole, whatever it found.\<close>

lemma open_and_end_turn_whole:
  assumes "openable s i v" "open_and_end_turn st i acc s = (Inr (op, repair), s')"
  obtains v' where "ok s'" "users pending s' i" "view s' i = Some v'" "\<forall>j. held s j \<longrightarrow> held s' j"
    "acc = WriteAccess \<longrightarrow> held s' i" "vw_prompt v' = vw_prompt v" "vw_parent v' = vw_parent v"
    "opens i v' (acc = WriteAccess) op" "repairable (replay_events (vw_events v'))"
    "\<not> newest_is_open (op_newest_turn op)"
proof -
  have ok: "ok s" and us: "users pending s i" and v: "view s i = Some v" "repairable (replay_events (vw_events v))"
    using assms(1) by (simp_all add: openable_def)
  obtain op1 s1 where o: "so_open st i acc s = (Inr op1, s1)"
    using assms(2) by (auto simp: open_and_end_turn_def split: prod.splits sum.splits)
  from open_saves [OF ok o] v(1) have s1: "ok s1" "view s1 = view s" "pending s1 = pending s"
    "\<forall>j. held s j \<longrightarrow> held s1 j" "acc = WriteAccess \<longrightarrow> held s1 i" "opens i v (acc = WriteAccess) op1" by auto
  have oid: "op_id op1 = i" using s1(6) by (simp add: opens_def Let_def)
  have us1: "users pending s1 i" using us s1(3) by (simp add: users_def)
  show ?thesis
  proof (cases "newest_is_open (op_newest_turn op1)")
    case False
    then have "op = op1" "s' = s1" using assms(2) o by (auto simp: open_and_end_turn_def)
    then show ?thesis using that [of v] s1 v us1 False by simp
  next
    case True
    let ?c = "repair_commit (op_context op1)"
    obtain n where cm: "so_commit st i ?c [] s1 = (Inr n, s')"
      and op: "op = op1\<lparr>op_context := op_context op1 @ commit_blocks ?c,
        op_newest_turn := TurnEnded (EndFailed turn_stopped)\<rparr>"
      using assms(2) o True oid by (auto simp: open_and_end_turn_def Let_def split: prod.splits sum.splits)
    let ?v = "v\<lparr>vw_events := vw_events v @ [\<lparr>se_number = n, se_event = CommitEvent ?c []\<rparr>]\<rparr>"
    from commit_saves [OF s1(1) cm] s1(2) v(1)
    have c: "ok s'" "held s' = held s1" "set (pending s' i) \<subseteq> set (pending s1 i)" "view s' i = Some ?v" by auto
    have r: "replay_events (vw_events ?v) = replay_commit ?c (replay_events (vw_events v))"
      by (simp add: replay_events_def replay_commit_event)
    note rp = repaired_opened [OF s1(6) True v(2)]
    have "opens i ?v (acc = WriteAccess) op"
      using s1(6) unfolding opens_def Let_def r rp(1) op by simp
    moreover have "repairable (replay_events (vw_events ?v))"
      using rp(2) unfolding r rp(1) by (auto simp: repairable_def paired_def)
    ultimately show ?thesis
      using that [of ?v] c s1(4,5) users_subset [OF us1 c(3)] by (simp add: op newest_is_open_def)
  qed
qed

lemma open_tracks:
  assumes "openable s i v" "session_open st i s = (Inr sn, s')"
  shows "tracks ok view held pending s' sn \<and> sn_id sn = i \<and> sn_lease sn"
proof -
  obtain op repair where o: "open_and_end_turn st i WriteAccess s = (Inr (op, repair), s')" "sn = from_opened op"
    using assms(2) by (auto simp: session_open_def split: prod.splits sum.splits)
  from assms(1) o(1) show ?thesis
  proof (rule open_and_end_turn_whole, goal_cases)
    case (1 v')
    then show ?thesis
      by (auto simp: tracks_def o(2) from_opened_def opens_def same_session_def Let_def)
  qed
qed

lemma recover_tracks:
  assumes "tracks ok view held pending s sn" "session_recover st sn s = (Inr repair, sn', s')"
  shows "tracks ok view held pending s' sn' \<and> sn_id sn' = sn_id sn \<and> sn_lease sn'"
proof -
  let ?acc = "if is_stale sn then WriteAccess else ReadAccess"
  obtain v where v: "openable s (sn_id sn) v" "sn_prompt sn = vw_prompt v" "sn_parent sn = vw_parent v"
    "sn_lease sn \<longrightarrow> held s (sn_id sn)"
    using assms(1) by (auto simp: tracks_def openable_def)
  obtain op where o: "open_and_end_turn st (sn_id sn) ?acc s = (Inr (op, repair), s')"
    "sn' = sn\<lparr>sn_settings := op_settings op, sn_context := op_context op, sn_newest_turn := op_newest_turn op,
              sn_input_tokens := op_input_tokens op, sn_lease := op_lease op \<or> sn_lease sn\<rparr>"
    using assms(2) by (auto simp: session_recover_def split: prod.splits sum.splits)
  from v(1) o(1) show ?thesis
  proof (rule open_and_end_turn_whole, goal_cases)
    case (1 v')
    then show ?thesis using v(2-4)
      by (auto simp: tracks_def o(2) opens_def same_session_def Let_def is_stale_def split: if_splits)
  qed
qed

lemma recover_fails:
  assumes "tracks ok view held pending s sn" "session_recover st sn s = (Inl e, sn', s')"
  shows "tracks ok view held pending s' sn' \<and> sn' = sn"
proof -
  let ?acc = "if is_stale sn then WriteAccess else ReadAccess" and ?i = "sn_id sn"
  have o: "open_and_end_turn st ?i ?acc s = (Inl e, s')" and sn: "sn' = sn"
    using assms(2) by (auto simp: session_recover_def split: prod.splits sum.splits)
  obtain v where v: "openable s ?i v" "sn_lease sn \<longrightarrow> same_session sn (replay_events (vw_events v))"
    using assms(1) by (auto simp: tracks_def openable_def)
  obtain x s1 where x: "so_open st ?i ?acc s = (x, s1)" by fastforce
  have ok: "ok s" using v(1) by (simp add: openable_def)
  show ?thesis
  proof (cases x)
    case (Inl e')
    then have "s' = s" using o x open_fails [OF ok x [unfolded Inl]] by (auto simp: open_and_end_turn_def)
    then show ?thesis using assms(1) sn by simp
  next
    case (Inr op)
    from open_saves [OF ok x [unfolded Inr]] v(1) have s1: "ok s1" "view s1 = view s" "pending s1 = pending s"
      "opens ?i v (?acc = WriteAccess) op" "\<forall>j. held s j \<longrightarrow> held s1 j" by (auto simp: openable_def)
    have op: "newest_is_open (op_newest_turn op)"
      using o x Inr by (auto simp: open_and_end_turn_def split: if_splits)
    then have stale: "is_stale sn" using v(2) s1(4) by (auto simp: is_stale_def same_session_def opens_def Let_def)
    obtain e2 s2 where c: "so_commit st ?i (repair_commit (op_context op)) [] s1 = (Inl e2, s2)"
      "s' = so_drop st ?i s2"
      using o x Inr op s1(4) stale by (auto simp: open_and_end_turn_def opens_def Let_def split: prod.splits sum.splits)
    from commit_fails [OF s1(1) c(1)] drop_frees [of s2 ?i] show ?thesis
      using assms(1) stale sn s1(2,3) c(2) users_subset [of s ?i s2]
      by (auto simp: tracks_def is_stale_def users_def)
  qed
qed

lemma set_settings_tracks:
  assumes "tracks ok view held pending s sn" "session_set_settings st stg sn s = (r, sn', s')"
  shows "tracks ok view held pending s' sn' \<and> sn_id sn' = sn_id sn \<and> (is_ok r \<longrightarrow> sn_lease sn')"
proof (cases "is_stale sn")
  case True
  then show ?thesis using assms by (auto simp: session_set_settings_def)
next
  case False
  let ?i = "sn_id sn"
  obtain v where v: "ok s" "users pending s ?i" "view s ?i = Some v" "sn_prompt sn = vw_prompt v"
    "sn_parent sn = vw_parent v" "repairable (replay_events (vw_events v))" "held s ?i"
    "same_session sn (replay_events (vw_events v))"
    using assms(1) False by (auto simp: tracks_def is_stale_def)
  obtain x s1 where x: "so_set_settings st ?i stg s = (x, s1)" by fastforce
  show ?thesis
  proof (cases x)
    case (Inl e)
    then show ?thesis
      using assms(2) False x v settings_fail [OF v(1) x [unfolded Inl]] drop_frees [of s1 ?i]
      by (auto simp: session_set_settings_def tracks_def users_def)
  next
    case (Inr n)
    then have r: "r = Inr n" "sn' = sn\<lparr>sn_settings := stg\<rparr>" "s' = s1"
      using assms(2) False x by (auto simp: session_set_settings_def)
    let ?v = "v\<lparr>vw_events := vw_events v @ [\<lparr>se_number = n, se_event = SettingsEvent stg\<rparr>]\<rparr>"
    have e: "replay_events (vw_events ?v) = (replay_events (vw_events v))\<lparr>rp_settings := Some stg\<rparr>"
      by (simp add: replay_events_def replay_event_def)
    from settings_save [OF v(1) x [unfolded Inr]] v(3)
    have "ok s1" "held s1 = held s" "pending s1 ?i = pending s ?i" "view s1 ?i = Some ?v" by auto
    then show ?thesis unfolding r using v False e
      by (auto simp: tracks_def users_def same_session_def repairable_def is_stale_def)
  qed
qed

end

end
