(* ===== verification/Failing_Store.thy ===== *)
theory Failing_Store
  imports Session_Facts
begin

text \<open>
  A store that fails. The faults are a predicate from outside, as the heard-of sets of a distributed algorithm are:
  \<open>up n\<close> says whether the call with the number \<open>n\<close> reaches the store. A call that does not reach it changes
  nothing and returns \<open>StoreFailed\<close>. With \<open>up = (\<lambda>n. n < k)\<close> the store has after a turn exactly what the first
  \<open>k\<close> writes of the turn left in it, so it is also the store of a turn that stopped there: its caller dropped it, or
  the process died.

  A durable store that fails is a durable store.
\<close>

definition store_down :: store_error where
  "store_down = StoreFailed (DynError ''the store is down'' None)"

text \<open>A write counts its call; a read does not.\<close>

definition failing_write ::
  "(nat \<Rightarrow> bool) \<Rightarrow> ('s \<Rightarrow> (store_error + 'a) \<times> 's) \<Rightarrow> 's \<times> nat \<Rightarrow> (store_error + 'a) \<times> ('s \<times> nat)" where
  "failing_write up f p =
     (case p of (s, n) \<Rightarrow>
        if up n then (let (r, s') = f s in (r, (s', Suc n))) else (Inl store_down, (s, Suc n)))"

definition failing_read :: "(nat \<Rightarrow> bool) \<Rightarrow> ('s \<Rightarrow> store_error + 'a) \<Rightarrow> 's \<times> nat \<Rightarrow> store_error + 'a" where
  "failing_read up f p = (case p of (s, n) \<Rightarrow> if up n then f s else Inl store_down)"

definition failing_open ::
  "(nat \<Rightarrow> bool) \<Rightarrow> ('s \<Rightarrow> (store_error + 'a) \<times> 's) \<Rightarrow> 's \<times> nat \<Rightarrow> (store_error + 'a) \<times> ('s \<times> nat)" where
  "failing_open up f p =
     (case p of (s, n) \<Rightarrow> if up n then (let (r, s') = f s in (r, (s', n))) else (Inl store_down, (s, n)))"

definition failing_ops :: "(nat \<Rightarrow> bool) \<Rightarrow> 's store_ops \<Rightarrow> ('s \<times> nat) store_ops" where
  "failing_ops up st =
     \<lparr>so_create = (\<lambda>stg prompt parent. failing_write up (so_create st stg prompt parent)),
      so_fork = (\<lambda>source through. failing_write up (so_fork st source through)),
      so_set_settings = (\<lambda>i stg. failing_write up (so_set_settings st i stg)),
      so_accept = (\<lambda>i inp. failing_write up (so_accept st i inp)),
      so_remove = (\<lambda>i k. failing_write up (so_remove st i k)),
      so_open = (\<lambda>i acc. failing_open up (so_open st i acc)),
      so_commit = (\<lambda>i c ci. failing_write up (so_commit st i c ci)),
      so_pending = (\<lambda>i. failing_read up (so_pending st i)),
      so_read_blob = (\<lambda>i d. failing_read up (so_read_blob st i d)),
      so_drop = (\<lambda>i (s, n). (so_drop st i s, n))\<rparr>"

lemma failing_writeD:
  "failing_write up f (s, n) = (r, p) \<Longrightarrow>
   (\<exists>s'. f s = (r, s') \<and> p = (s', Suc n)) \<or> (r = Inl store_down \<and> p = (s, Suc n))"
  by (auto simp: failing_write_def split: if_splits prod.splits)

lemma failing_openD:
  "failing_open up f (s, n) = (r, p) \<Longrightarrow>
   (\<exists>s'. f s = (r, s') \<and> p = (s', n)) \<or> (r = Inl store_down \<and> p = (s, n))"
  by (auto simp: failing_open_def split: if_splits prod.splits)

context durable_store
begin

lemma failing_durable:
  "durable_store (failing_ops up st) (\<lambda>p. ok (fst p)) (\<lambda>p. view (fst p)) (\<lambda>p. held (fst p)) (\<lambda>p. pending (fst p))"
proof (unfold_locales, goal_cases)
  case (1 p i acc op p')
  then obtain s' where "so_open st i acc (fst p) = (Inr op, s')" "p' = (s', snd p)"
    by (cases p) (auto simp: failing_ops_def dest!: failing_openD)
  then show ?case using open_saves [OF 1(1)] by simp
next
  case (2 p i acc e p')
  then show ?case using open_fails [OF 2(1)]
    by (cases p) (auto simp: failing_ops_def dest!: failing_openD)
next
  case (3 p i c ci n p')
  then obtain s' where "so_commit st i c ci (fst p) = (Inr n, s')" "fst p' = s'"
    by (cases p) (auto simp: failing_ops_def dest!: failing_writeD)
  then show ?case using commit_saves [OF 3(1)] by simp
next
  case (4 p i c ci e p')
  then have "(\<exists>s'. so_commit st i c ci (fst p) = (Inl e, s') \<and> fst p' = s') \<or> fst p' = fst p"
    by (cases p) (auto simp: failing_ops_def dest!: failing_writeD)
  then show ?case using commit_fails [OF 4(1)] 4(1) by (elim disjE exE conjE) simp_all
next
  case (5 p i stg n p')
  then obtain s' where "so_set_settings st i stg (fst p) = (Inr n, s')" "fst p' = s'"
    by (cases p) (auto simp: failing_ops_def dest!: failing_writeD)
  then show ?case using settings_save [OF 5(1)] by simp
next
  case (6 p i stg e p')
  then have "(\<exists>s'. so_set_settings st i stg (fst p) = (Inl e, s') \<and> fst p' = s') \<or> fst p' = fst p"
    by (cases p) (auto simp: failing_ops_def dest!: failing_writeD)
  then show ?case using settings_fail [OF 6(1)] 6(1) by (elim disjE exE conjE) simp_all
next
  case (7 p inp i r p')
  then have "(\<exists>s'. so_accept st i inp (fst p) = (r, s') \<and> fst p' = s') \<or> fst p' = fst p"
    by (cases p) (auto simp: failing_ops_def dest!: failing_writeD)
  then show ?case using accept_adds [OF 7(1,2)] 7(1) by (elim disjE exE conjE) simp_all
next
  case (8 p i k ru p')
  then have "(\<exists>s'. so_remove st i k (fst p) = (ru, s') \<and> fst p' = s') \<or> fst p' = fst p"
    by (cases p) (auto simp: failing_ops_def dest!: failing_writeD)
  then show ?case using remove_takes [OF 8(1)] 8(1) by (elim disjE exE conjE) simp_all
next
  case (9 p i ps)
  then have "so_pending st i (fst p) = Inr ps"
    by (cases p) (auto simp: failing_ops_def failing_read_def split: if_splits)
  then show ?case using pending_shows [OF 9(1)] by simp
next
  case (10 p i)
  then show ?case using drop_frees [OF 10] by (simp add: failing_ops_def split_beta)
qed

end

end
