(* ===== verification/Session_Store.thy ===== *)
theory Session_Store
  imports Store_Facts Failing_Store
begin

text \<open>
  Sessions on the store in memory: the methods of \<open>MemoryStore\<close> as a \<open>store_ops\<close>, the interpretation of
  \<open>durable_store\<close>, and the properties of a session that rest on it. The time of a write and the id of a
  new session come from outside: \<open>clock\<close> and \<open>fresh\<close>. A life of a session is any sequence of its operations
  with the work of other clients between them, on this store or on one whose calls fail (\<open>Failing_Store\<close>).
\<close>

section \<open>The store in memory for a session\<close>

definition mem_ops :: "(nat \<Rightarrow> nat) \<Rightarrow> (memory \<Rightarrow> session_id) \<Rightarrow> memory store_ops" where
  "mem_ops clock fresh =
     \<lparr>so_create = (\<lambda>stg prompt parent m. create_session (fresh m) (clock (ms_writes m)) stg prompt parent m),
      so_fork = (\<lambda>source through m. fork_session (fresh m) (clock (ms_writes m)) source through m),
      so_set_settings = (\<lambda>i stg m. set_settings i (clock (ms_writes m)) stg m),
      so_accept = accept_input, so_remove = remove_input, so_open = open_session,
      so_commit = (\<lambda>i c ci m. commit_session i (clock (ms_writes m)) c ci m),
      so_pending = pending_inputs, so_read_blob = read_stored_blob, so_drop = drop_lease\<rparr>"

definition view_of :: "saved \<Rightarrow> session_view" where
  "view_of sv = \<lparr>vw_events = sv_events sv, vw_prompt = sv_prompt sv, vw_parent = sv_parent sv\<rparr>"

definition mem_view :: "memory \<Rightarrow> session_id \<Rightarrow> session_view option" where
  "mem_view m i = map_option view_of (lookup m i)"

definition mem_held :: "memory \<Rightarrow> session_id \<Rightarrow> bool" where
  "mem_held m i = (i \<in> set (ms_writers m))"

lemma view_fields [simp]:
  "mem_view (m\<lparr>ms_writes := w\<rparr>) = mem_view m" "mem_view (m\<lparr>ms_writers := x\<rparr>) = mem_view m"
  "mem_pending (m\<lparr>ms_writes := w\<rparr>) = mem_pending m" "mem_pending (m\<lparr>ms_writers := x\<rparr>) = mem_pending m"
  by (simp_all add: mem_view_def mem_pending_def fun_eq_iff)

lemma to_opened_opens:
  "to_opened i lease sv = Some op \<longleftrightarrow> opens i (view_of sv) lease op"
  by (cases op) (auto simp: to_opened_def opens_def view_of_def Let_def split: option.splits)

lemma mem_open_cases:
  assumes "mem_ok m" "open_session i acc m = (r, m')"
  obtains (failed) e where "r = Inl e" "m' = m"
      "e = NotFound \<and> lookup m i = None \<or> e = Owned \<and> acc = WriteAccess \<and> i \<in> set (ms_writers m)"
    | (found) sv op where "r = Inr op" "lookup m i = Some sv" "opens i (view_of sv) (acc = WriteAccess) op"
        "m' = (if acc = WriteAccess then m\<lparr>ms_writers := i # ms_writers m\<rparr> else m)"
        "acc = WriteAccess \<longrightarrow> i \<notin> set (ms_writers m)"
proof (cases "lookup m i")
  case None
  then show ?thesis using assms(2) failed by (auto simp: open_session_def)
next
  case (Some sv)
  have "starts_with_settings (sv_events sv)" using mem_okD [OF assms(1) Some] by (simp add: saved_ok_def)
  then obtain op where op: "to_opened i (acc = WriteAccess) sv = Some op"
    using to_opened_Some by blast
  then have o: "opens i (view_of sv) (acc = WriteAccess) op" by (simp add: to_opened_opens)
  show ?thesis
  proof (cases "acc = WriteAccess \<and> i \<in> set (ms_writers m)")
    case True
    then have "r = Inl Owned" "m' = m"
      using assms(2) Some by (simp_all add: open_session_def take_writer_def)
    then show ?thesis using failed True by blast
  next
    case False
    then have "r = Inr op" "m' = (if acc = WriteAccess then m\<lparr>ms_writers := i # ms_writers m\<rparr> else m)"
      using assms(2) Some op by (cases acc; simp add: open_session_def or_panic_def take_writer_def)+
    then show ?thesis using found Some o False by blast
  qed
qed

lemma accept_others: "accept_input i inp m = (r, m') \<Longrightarrow>
    mem_view m' = mem_view m \<and> mem_held m' = mem_held m \<and>
    set (mem_pending m' i) \<subseteq> set (mem_pending m i) \<union> {p. pi_input p = inp}"
  by (auto simp: accept_input_def Let_def mem_view_def mem_held_def mem_pending_def view_of_def fun_eq_iff
      split: option.splits if_splits)

lemma remove_others: "mem_ok m \<Longrightarrow> remove_input i k m = (r, m') \<Longrightarrow>
    mem_view m' = mem_view m \<and> mem_held m' = mem_held m \<and> set (mem_pending m' i) \<subseteq> set (mem_pending m i)"
  by (auto simp: remove_input_eq mem_view_def mem_held_def mem_pending_def view_of_def fun_eq_iff
      split: option.splits if_splits)

lemma settings_saved: "set_settings i now stg m = (Inr n, m') \<Longrightarrow>
    mem_held m' = mem_held m \<and> mem_pending m' i = mem_pending m i \<and>
    (\<exists>v. mem_view m i = Some v \<and> mem_view m' i =
      Some (v\<lparr>vw_events := vw_events v @ [\<lparr>se_number = n, se_event = SettingsEvent stg\<rparr>]\<rparr>))"
  by (auto simp: set_settings_def next_write_def push_event_def Let_def mem_view_def mem_held_def mem_pending_def
      view_of_def fun_eq_iff split: option.splits)

lemma settings_failed: "set_settings i now stg m = (Inl e, m') \<Longrightarrow>
    mem_held m' = mem_held m \<and> mem_pending m' i = mem_pending m i \<and> mem_view m' i = mem_view m i"
  by (auto simp: set_settings_def next_write_def mem_held_def mem_view_def mem_pending_def
      split: option.splits prod.splits)

lemma committed_view:
  "view_of (committed now c ci write sv) = (view_of sv)\<lparr>vw_events := vw_events (view_of sv) @
     [\<lparr>se_number = EventNumber (length (sv_events sv) + 1), se_event = CommitEvent c ci\<rparr>]\<rparr>"
  by (simp add: view_of_def)

interpretation memory_sessions: durable_store "mem_ops clock fresh" mem_ok mem_view mem_held mem_pending
  for clock fresh
proof (unfold_locales, goal_cases)
  case (1 s i acc op s')
  then have o: "open_session i acc s = (Inr op, s')" by (simp add: mem_ops_def)
  have "mem_ok s'" using open_session_ok [OF 1(1), of i acc] o by simp
  show ?case
  proof (cases rule: mem_open_cases [OF 1(1) o])
    case (2 sv op')
    then show ?thesis using \<open>mem_ok s'\<close> by (cases "acc = WriteAccess") (simp_all add: mem_view_def mem_held_def)
  qed simp
next
  case (2 s i acc e s')
  then have o: "open_session i acc s = (Inl e, s')" by (simp add: mem_ops_def)
  show ?case by (cases rule: mem_open_cases [OF 2(1) o]) simp_all
next
  case (3 s i c ci n s')
  then have o: "commit_session i (clock (ms_writes s)) c ci s = (Inr n, s')" by (simp add: mem_ops_def)
  have "mem_ok s'" using commit_session_ok [OF 3(1), of i "clock (ms_writes s)" c ci] o by simp
  then show ?case using o
    by (elim commit_session_cases) (auto simp: mem_view_def mem_held_def mem_pending_def committed_view fun_eq_iff)
next
  case (4 s i c ci e s')
  then have o: "commit_session i (clock (ms_writes s)) c ci s = (Inl e, s')" by (simp add: mem_ops_def)
  then show ?case using 4(1) by (elim commit_session_cases) simp_all
next
  case (5 s i stg n s')
  then have o: "set_settings i (clock (ms_writes s)) stg s = (Inr n, s')" by (simp add: mem_ops_def)
  show ?case using settings_saved [OF o] set_settings_ok [OF 5(1), of i "clock (ms_writes s)" stg] o by simp
next
  case (6 s i stg e s')
  then have o: "set_settings i (clock (ms_writes s)) stg s = (Inl e, s')" by (simp add: mem_ops_def)
  show ?case using settings_failed [OF o] set_settings_ok [OF 6(1), of i "clock (ms_writes s)" stg] o by simp
next
  case (7 s inp i r s')
  then have o: "accept_input i inp s = (r, s')" by (simp add: mem_ops_def)
  show ?case using accept_others [OF o] accept_input_ok [OF 7(1,2), of i] o by simp
next
  case (8 s i k ru s')
  then have o: "remove_input i k s = (ru, s')" by (simp add: mem_ops_def)
  show ?case using remove_others [OF 8(1) o] remove_input_ok [OF 8(1), of i k] o by simp
next
  case (9 s i ps)
  then show ?case by (auto simp: mem_ops_def pending_inputs_def mem_pending_def split: option.splits)
next
  case (10 s i)
  then show ?case using drop_lease_ok [OF 10] by (simp add: mem_ops_def) (simp add: drop_lease_def)
qed

text \<open>The same store when some of its calls fail.\<close>

interpretation failing_sessions: durable_store "failing_ops up (mem_ops clock fresh)"
  "\<lambda>p. mem_ok (fst p)" "\<lambda>p. mem_view (fst p)" "\<lambda>p. mem_held (fst p)" "\<lambda>p. mem_pending (fst p)"
  for up clock fresh
  by (rule memory_sessions.failing_durable)

section \<open>The life of a session\<close>

abbreviation mem_keeps :: "session_id \<Rightarrow> memory \<Rightarrow> memory \<Rightarrow> bool" where
  "mem_keeps \<equiv> keeps_session mem_ok mem_view mem_held mem_pending"

abbreviation mem_setup :: "session_id \<Rightarrow> memory turn_setup \<Rightarrow> bool" where
  "mem_setup \<equiv> setup_ok mem_ok mem_view mem_held mem_pending"

abbreviation mem_tracks :: "memory \<Rightarrow> session \<Rightarrow> bool" where
  "mem_tracks \<equiv> tracks mem_ok mem_view mem_held mem_pending"

abbreviation failing_setup :: "session_id \<Rightarrow> (memory \<times> nat) turn_setup \<Rightarrow> bool" where
  "failing_setup \<equiv> setup_ok (\<lambda>p. mem_ok (fst p)) (\<lambda>p. mem_view (fst p)) (\<lambda>p. mem_held (fst p)) (\<lambda>p. mem_pending (fst p))"

lemma failing_tracks:
  "tracks (\<lambda>p. mem_ok (fst p)) (\<lambda>p. mem_view (fst p)) (\<lambda>p. mem_held (fst p)) (\<lambda>p. mem_pending (fst p)) p sn \<longleftrightarrow>
     mem_tracks (fst p) sn"
  by (simp add: tracks_def users_def)

text \<open>
  Every state that a session and its store come to: by turns with any driver and any result, changes of
  the settings, recoveries, the work of other clients, and a new open after the process stopped. In the
  rules with \<open>failing_ops\<close> any calls of the store fail. \<open>abandoned\<close> is a turn whose future the caller
  dropped: the store has the first \<open>k\<close> writes of the turn, the lease of the future is gone, and the context
  of the session can hold any part of the turn.
\<close>

inductive session_life :: "(nat \<Rightarrow> nat) \<Rightarrow> (memory \<Rightarrow> session_id) \<Rightarrow> memory \<Rightarrow> session \<Rightarrow> bool"
  for clock fresh where
  created: "mem_ok m \<Longrightarrow> lookup m (fresh m) = None \<Longrightarrow>
    session_create (mem_ops clock fresh) stg prompt parent m = (Inr sn, m') \<Longrightarrow> session_life clock fresh m' sn"
| ran: "session_life clock fresh m sn \<Longrightarrow> mem_setup (sn_id sn) su \<Longrightarrow>
    session_run fuel (mem_ops clock fresh) su sn m = Some (r, sn', w) \<Longrightarrow> session_life clock fresh (tw_store w) sn'"
| settings: "session_life clock fresh m sn \<Longrightarrow>
    session_set_settings (mem_ops clock fresh) stg sn m = (rs, sn', m') \<Longrightarrow> session_life clock fresh m' sn'"
| recovered: "session_life clock fresh m sn \<Longrightarrow>
    session_recover (mem_ops clock fresh) sn m = (rr, sn', m') \<Longrightarrow> session_life clock fresh m' sn'"
| reopened: "session_life clock fresh m sn \<Longrightarrow>
    session_open (mem_ops clock fresh) (sn_id sn) m = (Inr sn', m') \<Longrightarrow> session_life clock fresh m' sn'"
| failing: "session_life clock fresh m sn \<Longrightarrow> failing_setup (sn_id sn) su \<Longrightarrow>
    session_run fuel (failing_ops up (mem_ops clock fresh)) su sn (m, 0) = Some (r, sn', fw) \<Longrightarrow>
    session_life clock fresh (fst (tw_store fw)) sn'"
| abandoned: "session_life clock fresh m sn \<Longrightarrow> failing_setup (sn_id sn) su \<Longrightarrow>
    session_run fuel (failing_ops (\<lambda>n. n < k) (mem_ops clock fresh)) su sn (m, 0) = Some (r, sn', fw) \<Longrightarrow>
    is_stale sn' \<Longrightarrow>
    session_life clock fresh (fst (tw_store fw)) (sn\<lparr>sn_context := ctx, sn_lease := False\<rparr>)"
| failing_settings: "session_life clock fresh m sn \<Longrightarrow>
    session_set_settings (failing_ops up (mem_ops clock fresh)) stg sn (m, 0) = (rs, sn', fm) \<Longrightarrow>
    session_life clock fresh (fst fm) sn'"
| failing_recover: "session_life clock fresh m sn \<Longrightarrow>
    session_recover (failing_ops up (mem_ops clock fresh)) sn (m, 0) = (rr, sn', fm) \<Longrightarrow>
    session_life clock fresh (fst fm) sn'"
| others: "session_life clock fresh m sn \<Longrightarrow> mem_keeps (sn_id sn) m m' \<Longrightarrow> session_life clock fresh m' sn"
| dropped: "session_life clock fresh m sn \<Longrightarrow>
    session_life clock fresh (drop_lease (sn_id sn) m) (sn\<lparr>sn_lease := False\<rparr>)"

lemma created_tracks:
  assumes "mem_ok m" "lookup m (fresh m) = None"
    and "session_create (mem_ops clock fresh) stg prompt parent m = (Inr sn, m')"
  shows "mem_tracks m' sn"
proof -
  let ?i = "fresh m" and ?now = "clock (ms_writes m)"
  let ?e = "\<lparr>se_number = EventNumber 1, se_event = SettingsEvent stg\<rparr>"
  obtain op where op: "create_session ?i ?now stg prompt parent m = (Inr op, m')" "sn = from_opened op"
    using assms(3) by (auto simp: session_create_def mem_ops_def split: prod.splits sum.splits)
  have w: "?i \<notin> set (ms_writers m)" using assms(1,2) by (auto simp: mem_ok_def)
  define sv where "sv = \<lparr>sv_prompt = prompt, sv_events = [?e], sv_pending = [], sv_blobs = [],
    sv_newest_write = ms_writes m + 1, sv_title = None, sv_fork_of = None, sv_parent = parent,
    sv_created_at = ?now, sv_updated_at = ?now\<rparr>"
  have sv: "sv_events sv = [?e]" "sv_pending sv = []" "sv_prompt sv = prompt" "sv_parent sv = parent"
    by (simp_all add: sv_def)
  have "create_session ?i ?now stg prompt parent m = open_new ?i sv (m\<lparr>ms_writes := ms_writes m + 1\<rparr>)"
    by (simp add: create_session_def next_write_def push_event_def sv_def Let_def)
  then have o: "to_opened ?i True sv = Some op"
    and m': "m' = put ?i sv (m\<lparr>ms_writes := ms_writes m + 1, ms_writers := ?i # ms_writers m\<rparr>)"
    using op(1) w by (auto simp: open_new_def take_writer_def split: option.splits)
  have r: "replay_events [\<lparr>se_number = n, se_event = SettingsEvent stg'\<rparr>] =
      \<lparr>rp_settings = Some stg', rp_context = [], rp_newest_turn = TurnEmpty, rp_input_tokens = None\<rparr>" for n stg'
    by (simp add: replay_events_def replay_event_def)
  have o: "opens ?i (view_of sv) True op" using o by (simp add: to_opened_opens)
  have "mem_ok m'" using new_saved_ok(1) [OF assms(1,2), of ?now stg prompt parent] op(1) by simp
  then show ?thesis using sv o unfolding m'
    by (auto simp: tracks_def op(2) from_opened_def opens_def view_of_def r Let_def users_def same_session_def
        repairable_def newest_is_open_def mem_view_def mem_held_def mem_pending_def waiting_def)
qed

lemma session_run_fields:
  "session_run fuel st su sn s = Some (r, sn', w) \<Longrightarrow> sn_prompt sn' = sn_prompt sn \<and> sn_parent sn' = sn_parent sn"
  by (auto simp: session_run_def finish_turn_def Let_def split: if_splits prod.splits sum.splits option.splits
      turn_error.splits)

lemma session_life_tracks: "session_life clock fresh m sn \<Longrightarrow> mem_tracks m sn"
proof (induction rule: session_life.induct)
  case (ran m sn su fuel r sn' w)
  then show ?case using memory_sessions.run_tracks by blast
next
  case (settings m sn stg rs sn' m')
  then show ?case using memory_sessions.set_settings_tracks by blast
next
  case (recovered m sn rr sn' m')
  then show ?case using memory_sessions.recover_tracks memory_sessions.recover_fails by (cases rr) blast+
next
  case (reopened m sn sn' m')
  then obtain v where "memory_sessions.openable m (sn_id sn) v"
    by (auto simp: tracks_def memory_sessions.openable_def)
  then show ?case using memory_sessions.open_tracks reopened(2) by blast
next
  case (failing m sn su fuel up r sn' fw)
  then show ?case using failing_sessions.run_tracks [of "(m, 0)" sn su fuel] by (simp add: failing_tracks)
next
  case (abandoned m sn su fuel k r sn' fw ctx)
  then have "mem_tracks (fst (tw_store fw)) sn'" "sn_id sn' = sn_id sn"
    using failing_sessions.run_tracks [of "(m, 0)" sn su fuel] by (simp_all add: failing_tracks)
  moreover have "sn_prompt sn' = sn_prompt sn" "sn_parent sn' = sn_parent sn"
    using session_run_fields [OF abandoned(3)] by simp_all
  ultimately show ?case by (auto simp: tracks_def)
next
  case (failing_settings m sn up stg rs sn' fm)
  then show ?case using failing_sessions.set_settings_tracks [of "(m, 0)" sn] by (simp add: failing_tracks)
next
  case (failing_recover m sn up rr sn' fm)
  then show ?case
    using failing_sessions.recover_tracks [of "(m, 0)" sn] failing_sessions.recover_fails [of "(m, 0)" sn]
    by (cases rr) (simp_all add: failing_tracks)
next
  case (others m sn m')
  then show ?case using memory_sessions.tracks_keeps by blast
next
  case (dropped m sn)
  then show ?case using memory_sessions.drop_frees [of m "\<lambda>_. 0" "\<lambda>_. 0" "sn_id sn"]
    by (auto simp: tracks_def mem_ops_def users_def)
qed (simp add: created_tracks)

text \<open>A driver in the environment of the witnesses: its model answers every request with one call.\<close>

definition quiet_env :: "'w env \<Rightarrow> bool" where
  "quiet_env e \<longleftrightarrow> e = (example_env None)\<lparr>env_inbox := env_inbox e, env_commit := env_commit e\<rparr>"

lemma quiet_envD:
  assumes "quiet_env e"
  shows "env_cancel e = None" "env_wait e = (\<lambda>_. 0)" "env_encode e = (\<lambda>_ _ _. None)"
    "env_before_round e = (\<lambda>_ _. Inr empty_plan)" 
    "env_reply e = (\<lambda>_ _ _ _. \<lparr>rr_events = [], rr_finish = Inr \<lparr>resp_info = no_info,
        resp_completion = example_completion\<rparr>, rr_cancel = (\<lambda>_. [])\<rparr>)"
    "keeps_call_ids e"
  by (subst assms [unfolded quiet_env_def], simp add: example_env_def keeps_call_ids_def)+

lemma quiet_send:
  assumes "quiet_env e" "tp_model p = example_model"
  shows "\<exists>io'. send_round (Suc n) p e s io = Some (Inr (Answered \<lparr>resp_info = no_info,
      resp_completion = example_completion\<rparr> (origin_of example_target) False), s, io') \<and> io_world io' = io_world io"
  by (simp add: send_round_def race_def done_at_def cancel_by_def quiet_envD [OF assms(1)] assms(2) round_pass_def
      apply_plan_def empty_plan_def or_default_def send.simps attempt_def await_def example_model_def example_target_def Let_def)

definition input_commit :: commit where
  "input_commit = blocks_commit [UserText ''hi'']"

definition answer_commit :: commit where
  "answer_commit = (blocks_commit [AssistantText ''ok'', ToolCall example_call])
     \<lparr>commit_answer := Some \<lparr>ans_origin = origin_of example_target, ans_usage = no_usage, ans_finish_reason = FinToolCalls\<rparr>\<rparr>"

text \<open>The turn when its journal saves two commits and fails at the third, the one with the results of the calls.\<close>

lemma cut_turn:
  assumes "quiet_env e" "tp_model p = example_model" "tp_has_journal p"
    and "\<And>t. env_commit e t (saved_commit p input_commit) w = (None, w1)"
    and "\<And>t. env_commit e t (saved_commit p answer_commit) w1 = (None, w2)"
    and "\<And>t c. env_commit e t c w2 = (Some err, w3)"
  shows "\<exists>s io. run_turn 3 p e [] [UserText ''hi''] tokens (new_io w) = Some (Inl (TurnCommit err), s, io) \<and>
    io_world io = w3"
proof -
  have sv: "save p e c io = (Inr (), confirm (saved_commit p c) (io\<lparr>io_now := done_at e (io_now io), io_world := w'\<rparr>))"
    if "\<And>t. env_commit e t (saved_commit p c) (io_world io) = (None, w')" for c w' and io
    using that assms(3) by (simp add: save_def await_world_def Let_def)
  have sf: "\<exists>io'. save p e c io = (Inl err, io') \<and> io_world io' = w3"
    if "io_world io = w2" for c and io
    using that assms(3,6) by (simp add: save_def await_world_def Let_def)
  let ?s0 = "new_turn [] tokens"
  obtain s1 where s1: "send_turn [UserText ''hi''] ?s0 = (ActSend (Some input_commit), s1)" "ts_context s1 = [UserText ''hi'']"
     "ts_saved s1 = 1"
    by (simp add: turn_call_defs input_commit_def)
  obtain s2 where m: "model_finished example_completion (origin_of example_target) s1 = (ActCallTools answer_commit, s2)"
    using s1(2,3) by (simp add: turn_call_defs example_completion_def answer_commit_def Let_def)
  let ?io1 = "confirm (saved_commit p input_commit) ((new_io w)\<lparr>io_now := done_at e 0, io_world := w1\<rparr>)"
  obtain io2 where p1: "turn_pass 2 p e False (ActSend (Some input_commit)) s1 (new_io w) =
      Some (PassNext (ActCallTools answer_commit) s2 False io2)" "io_world io2 = w1"
    using quiet_send [OF assms(1,2), of 1 s1 ?io1] sv [of input_commit "new_io w" w1] assms(4) m
    by (auto simp: turn_pass_def save_opt_def new_io_def answer_sent_def confirm_def numeral_2_eq_2)
  let ?io3 = "confirm (saved_commit p answer_commit) (io2\<lparr>io_now := done_at e (io_now io2), io_world := w2\<rparr>)"
  obtain fs io4 where fs: "call_tools p e (commit_blocks answer_commit) False ?io3 = (fs, io4)" by fastforce
  have w4: "io_world io4 = w2" using io_step_call_tools [OF fs] by (simp add: io_step_def confirm_def)
  obtain ctx reason c s3 where a: "tools_finished fs s2 = (ActAfterRound ctx reason c, s3)"
    by (simp add: tools_finished_def after_round_def case_prod_beta Let_def)
  have p2: "turn_pass 1 p e False (ActCallTools answer_commit) s2 io2 = Some (PassNext (ActAfterRound ctx reason c) s3 False io4)"
    using sv [of answer_commit io2 w2] assms(5) p1(2) fs a
    by (simp add: turn_pass_def save_opt_def finish_tools_def is_cancelled_def quiet_envD [OF assms(1)])
  obtain io5 where p3: "turn_pass 0 p e False (ActAfterRound ctx reason c) s3 io4 = Some (PassError (TurnCommit err) s3 io5)"
    "io_world io5 = w3"
    using sf [OF w4, of c] by (auto simp: turn_pass_def save_opt_def)
  have "run_turn 3 p e [] [UserText ''hi''] tokens (new_io w) = Some (Inl (TurnCommit err), s3, io5)"
    using p1(1) p2 p3(1) s1(1) by (simp add: run_turn_def numeral_3_eq_3 numeral_2_eq_2)
  then show ?thesis using p3(2) by blast
qed

section \<open>A session that its store cut in a turn\<close>

text \<open>
  The store fails after two writes of the turn: it has the input and the answer, but not the result of the
  call of the answer.
\<close>

abbreviation cut_ops :: "(memory \<times> nat) store_ops" where
  "cut_ops \<equiv> failing_ops (\<lambda>n. n < 2) (mem_ops (\<lambda>_. 0) (\<lambda>_. 7))"

lemma cut_ops_fields:
  "so_pending cut_ops i (m, n) = (if n < 2 then pending_inputs i m else Inl store_down)"
  "so_commit cut_ops i c ci (m, n) =
     (if n < 2 then (let (r, m') = commit_session i 0 c ci m in (r, (m', Suc n))) else (Inl store_down, (m, Suc n)))"
  "so_drop cut_ops i (m, n) = (drop_lease i m, n)"
  by (simp_all add: failing_ops_def failing_read_def failing_write_def mem_ops_def)

definition cut_setup :: "(memory \<times> nat) turn_setup" where
  "cut_setup =
     \<lparr>su_parts = example_parts, su_env = example_env None, su_hook = no_input_hook, su_others = (\<lambda>_ s. s),
      su_prompt = None, su_id_text = (\<lambda>_. ''id'')\<rparr>"

lemma cut_setup_ok: "failing_setup 7 cut_setup"
  using example_env_keeps [of None]
  by (auto simp: setup_ok_def cut_setup_def keeps_session_def no_input_hook_def hooks_pair_def keeps_pairing_def)

abbreviation cut_parts :: "session \<Rightarrow> turn_parts" where
  "cut_parts sn \<equiv> turn_parts_of cut_ops cut_setup sn (example_accepted, 0)"

lemma cut_start:
  assumes "sn_id sn = 7" "sn_newest_turn sn = TurnEmpty"
  shows "start_input cut_ops no_input_hook sn (new_turn_world sn (example_accepted, 0)) =
    (Inr [UserText ''hi''], (new_turn_world sn (example_accepted, 0))\<lparr>tw_taken := [example_consumed]\<rparr>)"
  using assms
  by (simp add: start_input_def take_inputs_def cut_ops_fields new_turn_world_def pending_inputs_def lookup_def
      example_sessions take_input_def from_session_def no_input_hook_def take_kept_def keep_input_def
      into_consumed_def example_input_def example_consumed_def model_content_def interruption_note_def Let_def)

definition cut_memory :: "turn_parts \<Rightarrow> memory" where
  "cut_memory p = snd (commit_session 7 0 (saved_commit p answer_commit) []
     (snd (commit_session 7 0 (saved_commit p input_commit) [example_consumed] example_accepted)))"

lemma cut_commits:
  fixes p
  defines "m1 \<equiv> snd (commit_session 7 0 (saved_commit p input_commit) [example_consumed] example_accepted)"
  shows "commit_session 7 0 (saved_commit p input_commit) [example_consumed] example_accepted = (Inr (EventNumber 2), m1)"
    and "commit_session 7 0 (saved_commit p answer_commit) [] m1 = (Inr (EventNumber 3), cut_memory p)"
    and "ms_writers (cut_memory p) = [7]"
    and "map_option events_context (mem_events (cut_memory p) 7) = Some [UserText ''hi'', AssistantText ''ok'', ToolCall example_call]"
proof -
  have b: "commit_blocks (saved_commit p c) = commit_blocks c" "commit_replaced (saved_commit p c) = commit_replaced c" for c
    by (simp_all add: saved_commit_def Let_def)
  show 1: "commit_session 7 0 (saved_commit p input_commit) [example_consumed] example_accepted = (Inr (EventNumber 2), m1)"
    by (simp add: m1_def commit_session_def check_consumed_blocks_def example_consumed_def b input_commit_def
      into_consumed_def example_input_def lookup_def example_sessions next_write_def
      push_event_def usize_max_def checked_add_usize_def Let_def)
  have ok: "mem_ok example_accepted" using reachable_ok [OF reachable_accepted] .
  have e0: "mem_events example_accepted 7 = Some [\<lparr>se_number = EventNumber 1, se_event = SettingsEvent example_session_settings\<rparr>]"
    by (simp add: mem_events_def lookup_def example_sessions)
  have m1: "mem_ok m1" "mem_events m1 7 = Some [\<lparr>se_number = EventNumber 1, se_event = SettingsEvent example_session_settings\<rparr>,
      \<lparr>se_number = EventNumber 2, se_event = CommitEvent (saved_commit p input_commit) [example_consumed]\<rparr>]"
    using memory_store.commit_saves [OF ok 1] e0 by auto
  then obtain sv where sv: "lookup m1 7 = Some sv" "length (sv_events sv) = 2" by (auto simp: mem_events_def)
  then show 2: "commit_session 7 0 (saved_commit p answer_commit) [] m1 = (Inr (EventNumber 3), cut_memory p)"
    unfolding cut_memory_def m1_def [symmetric]
    by (simp add: commit_session_def check_consumed_blocks_def next_write_def Let_def case_prod_beta)
  have "mem_held (cut_memory p) = mem_held example_accepted" "ms_writers (cut_memory p) = ms_writers example_accepted"
    using 1 2 by (auto elim!: commit_session_cases simp: mem_held_def)
  then show "ms_writers (cut_memory p) = [7]" by (simp add: example_sessions)
  show "map_option events_context (mem_events (cut_memory p) 7) = Some [UserText ''hi'', AssistantText ''ok'', ToolCall example_call]"
    using memory_store.commit_saves [OF m1(1) 2] m1(2)
    by (simp add: events_context_def commits_of_def apply_commit_def b input_commit_def answer_commit_def)
qed

lemma cut_saves:
  assumes "commit_session i 0 c ci m = (Inr n, m')" "tw_taken w = ci" "tw_store w = (m, k)" "k < 2"
  obtains w' where "journal_commit cut_ops i c w = (None, w')" "tw_taken w' = []" "tw_store w' = (m', Suc k)"
  using assms by (simp add: journal_commit_def cut_ops_fields Let_def)

lemma cut_run:
  assumes "sn_lease sn" "sn_id sn = 7" "sn_context sn = []" "sn_newest_turn sn = TurnEmpty"
  shows "\<exists>r sn' fw. session_run 3 cut_ops cut_setup sn (example_accepted, 0) = Some (r, sn', fw) \<and>
    is_stale sn' \<and> sn_id sn' = 7 \<and> fst (tw_store fw) = drop_lease 7 (cut_memory (cut_parts sn))"
proof -
  let ?p = "cut_parts sn" and ?e = "turn_env_of cut_ops cut_setup 7"
  let ?w0 = "(new_turn_world sn (example_accepted, 0))\<lparr>tw_taken := [example_consumed]\<rparr>"
  let ?m1 = "snd (commit_session 7 0 (saved_commit ?p input_commit) [example_consumed] example_accepted)"
  have commit: "env_commit ?e t c w = journal_commit cut_ops 7 c w" for t c w
    by (simp add: turn_env_of_def cut_setup_def)
  have w0: "tw_taken ?w0 = [example_consumed]" "tw_store ?w0 = (example_accepted, 0)" by (simp_all add: new_turn_world_def)
  obtain w1 where w1: "journal_commit cut_ops 7 (saved_commit ?p input_commit) ?w0 = (None, w1)"
    "tw_taken w1 = []" "tw_store w1 = (?m1, Suc 0)"
    by (rule cut_saves [OF cut_commits(1) w0]) (simp, assumption)
  obtain w2 where w2: "journal_commit cut_ops 7 (saved_commit ?p answer_commit) w1 = (None, w2)"
    "tw_store w2 = (cut_memory ?p, Suc (Suc 0))"
    by (rule cut_saves [OF cut_commits(2) w1(2,3)]) (simp, assumption)
  define w3 where "w3 = w2\<lparr>tw_taken := [], tw_store := (cut_memory ?p, 3), tw_failed := Some store_down\<rparr>"
  have w3: "journal_commit cut_ops 7 c w2 = (Some (store_error_dyn store_down), w3)" for c
    by (simp add: w3_def journal_commit_def w2(2) cut_ops_fields)
  have "quiet_env ?e" "tp_model ?p = example_model" "tp_has_journal ?p"
    by (simp_all add: quiet_env_def turn_env_of_def turn_parts_of_def cut_setup_def example_env_def example_parts_def)
  from cut_turn [OF this, of ?w0 w1 w2 "store_error_dyn store_down" w3 "sn_input_tokens sn"]
  obtain s io where t: "run_turn 3 ?p ?e [] [UserText ''hi''] (sn_input_tokens sn) (new_io ?w0) =
      Some (Inl (TurnCommit (store_error_dyn store_down)), s, io)" "io_world io = w3"
    using w1(1) w2(1) w3 by (auto simp: commit)
  have f: "su_hook cut_setup = no_input_hook" "tw_store (new_turn_world sn (example_accepted, 0)) = (example_accepted, 0)"
    by (simp_all add: cut_setup_def new_turn_world_def)
  have "session_run 3 cut_ops cut_setup sn (example_accepted, 0) =
      Some (finish_turn cut_ops sn (Inl (TurnCommit (store_error_dyn store_down))) (ts_context s) w3)"
    using t assms cut_start [OF assms(2,4)] by (simp add: session_run_def is_stale_def f)
  then show ?thesis using assms(2) by (simp add: w3_def finish_turn_def is_stale_def cut_ops_fields Let_def)
qed

section \<open>Properties\<close>

text \<open>A session in the empty store, for the witnesses.\<close>

definition example_memory :: memory where
  "example_memory = snd (create_session 7 0 example_session_settings [] None new_memory)"

lemma example_created:
  "\<exists>sn. session_create (mem_ops (\<lambda>_. 0) (\<lambda>_. 7)) example_session_settings [] None new_memory = (Inr sn, example_memory) \<and>
     sn_lease sn \<and> sn_id sn = 7 \<and> sn_context sn = [] \<and> sn_newest_turn sn = TurnEmpty"
  by (simp add: example_memory_def session_create_def mem_ops_def create_session_def next_write_def push_event_def
      open_new_def take_writer_def to_opened_def replay_events_def replay_event_def new_memory_def from_opened_def Let_def)

lemma example_life:
  "\<exists>sn. session_life (\<lambda>_. 0) (\<lambda>_. 7) example_memory sn \<and> sn_lease sn \<and> sn_id sn = 7 \<and>
     sn_context sn = [] \<and> sn_newest_turn sn = TurnEmpty"
proof -
  have "lookup new_memory 7 = None" by (simp add: lookup_def new_memory_def)
  from session_life.created [of new_memory "\<lambda>_. 7" "\<lambda>_. 0", OF mem_ok_new this] example_created
  show ?thesis by blast
qed

text \<open>The same session with an input that waits.\<close>

lemma example_accepted_life:
  "\<exists>sn. session_life (\<lambda>_. 0) (\<lambda>_. 7) example_accepted sn \<and> sn_lease sn \<and> sn_id sn = 7 \<and>
     sn_context sn = [] \<and> sn_newest_turn sn = TurnEmpty"
proof -
  obtain sn where sn: "session_life (\<lambda>_. 0) (\<lambda>_. 7) example_memory sn" "sn_lease sn" "sn_id sn = 7"
    "sn_context sn = []" "sn_newest_turn sn = TurnEmpty"
    using example_life by blast
  have a: "example_accepted = snd (accept_input 7 example_input example_memory)"
    by (simp add: example_accepted_def example_memory_def)
  obtain r where r: "accept_input 7 example_input example_memory = (r, example_accepted)"
    using a by (metis prod.collapse)
  have i: "input_ok example_input" "user_blocks (model_content example_input)"
    by (simp_all add: example_input_def input_ok_def model_content_def user_blocks_def)
  have ok: "mem_ok example_accepted" using reachable_ok [OF reachable_accepted] .
  have "mem_keeps 7 example_memory example_accepted"
    using accept_others [OF r] ok i by (auto simp: keeps_session_def users_def)
  then have "session_life (\<lambda>_. 0) (\<lambda>_. 7) example_accepted sn" using session_life.others [OF sn(1)] sn(3) by simp
  then show ?thesis using sn(2-) by blast
qed

text \<open>The state of the store after the cut turn, and the stale session.\<close>

lemma cut_life:
  "\<exists>sn m. session_life (\<lambda>_. 0) (\<lambda>_. 7) m sn \<and> is_stale sn \<and> sn_id sn = 7 \<and> ms_writers m = [] \<and>
     map_option events_context (mem_events m 7) = Some [UserText ''hi'', AssistantText ''ok'', ToolCall example_call]"
proof -
  obtain sn where sn: "session_life (\<lambda>_. 0) (\<lambda>_. 7) example_accepted sn" "sn_lease sn" "sn_id sn = 7"
    "sn_context sn = []" "sn_newest_turn sn = TurnEmpty"
    using example_accepted_life by blast
  from cut_run [OF sn(2-)] obtain r sn' fw where run: "session_run 3 cut_ops cut_setup sn (example_accepted, 0) = Some (r, sn', fw)"
    and w: "is_stale sn'" "sn_id sn' = 7" "fst (tw_store fw) = drop_lease 7 (cut_memory (cut_parts sn))"
    by blast
  have "failing_setup (sn_id sn) cut_setup" using sn(3) cut_setup_ok by simp
  from session_life.failing [OF sn(1) this run]
  have l: "session_life (\<lambda>_. 0) (\<lambda>_. 7) (drop_lease 7 (cut_memory (cut_parts sn))) sn'" using w(3) by simp
  have "ms_writers (drop_lease 7 (cut_memory (cut_parts sn))) = []"
    "mem_events (drop_lease 7 (cut_memory (cut_parts sn))) 7 = mem_events (cut_memory (cut_parts sn)) 7"
    using cut_commits(3) by (simp_all add: drop_lease_def mem_events_def)
  then show ?thesis using l w(1,2) cut_commits(4) by metis
qed

text \<open>
  C8: a session never falls behind its store unnoticed. Through any turns, with any model, tools, hooks,
  cancels and failures, settings, recoveries, other clients and restarts, a session that is not stale is
  exactly what a fresh read of its store gives, it holds the lock, no turn is open, and its context is one
  that any provider accepts.
\<close>

theorem session_never_behind:
  assumes "session_life clock fresh m sn" and "\<not> is_stale sn"
  shows "\<exists>op. open_session (sn_id sn) ReadAccess m = (Inr op, m) \<and> sn = (from_opened op)\<lparr>sn_lease := True\<rparr> \<and>
     \<not> newest_is_open (sn_newest_turn sn) \<and> paired (sn_context sn) \<and> sn_id sn \<in> set (ms_writers m)"
proof -
  let ?i = "sn_id sn"
  obtain v where t: "mem_ok m" "mem_view m ?i = Some v" "sn_prompt sn = vw_prompt v" "sn_parent sn = vw_parent v"
    "repairable (replay_events (vw_events v))" "mem_held m ?i" "same_session sn (replay_events (vw_events v))"
    using session_life_tracks [OF assms(1)] assms(2) by (auto simp: tracks_def is_stale_def)
  obtain r m' where o: "open_session ?i ReadAccess m = (r, m')" by fastforce
  show ?thesis
  proof (cases rule: mem_open_cases [OF t(1) o])
    case (1 e)
    then show ?thesis using t(2) by (simp add: mem_view_def)
  next
    case (2 sv op)
    then have "v = view_of sv" using t(2) by (simp add: mem_view_def)
    with 2(3) have "sn = (from_opened op)\<lparr>sn_lease := True\<rparr>"
      using t(3,4,7) assms(2) by (cases sn) (auto simp: opens_def from_opened_def same_session_def is_stale_def Let_def)
    then show ?thesis using o 2(1,4) t(5-7)
      by (auto simp: mem_held_def same_session_def repairable_def paired_def)
  qed
qed

theorem session_never_behind_witness:
  "\<exists>sn op. session_life (\<lambda>_. 0) (\<lambda>_. 7) example_memory sn \<and>
     open_session 7 ReadAccess example_memory = (Inr op, example_memory) \<and> sn = (from_opened op)\<lparr>sn_lease := True\<rparr>"
proof -
  obtain sn where sn: "session_life (\<lambda>_. 0) (\<lambda>_. 7) example_memory sn" "sn_lease sn" "sn_id sn = 7"
    using example_life by blast
  then have "\<not> is_stale sn" by (simp add: is_stale_def)
  from session_never_behind [OF sn(1) this] sn show ?thesis by auto
qed

text \<open>
  C9: a stale session always comes back. When no other writer holds it, a recovery on a working store
  succeeds whatever the session went through, a turn that a failed write or a drop of its future stopped
  between an answer and the results of its calls included: the context is that of the store, followed by one
  error result for each call that was open, in call order; any provider accepts it, and the turn that was
  open has ended as failed.
\<close>

theorem session_recovers:
  assumes "session_life clock fresh m sn" and "is_stale sn" and "sn_id sn \<notin> set (ms_writers m)"
  shows "\<exists>repair sn' m' evs. session_recover (mem_ops clock fresh) sn m = (Inr repair, sn', m') \<and>
     \<not> is_stale sn' \<and> mem_events m (sn_id sn) = Some evs \<and> paired (sn_context sn') \<and>
     \<not> newest_is_open (sn_newest_turn sn') \<and>
     sn_context sn' = events_context evs @
       map (\<lambda>i. ToolResult (result_error i outcome_unknown)) (open_calls (events_context evs))"
proof -
  let ?i = "sn_id sn" and ?st = "mem_ops clock fresh"
  obtain v where t: "mem_tracks m sn" "mem_ok m" "mem_view m ?i = Some v" "repairable (replay_events (vw_events v))"
    using session_life_tracks [OF assms(1)] by (auto simp: tracks_def)
  obtain r m1 where o: "open_session ?i WriteAccess m = (r, m1)" by fastforce
  show ?thesis
  proof (cases rule: mem_open_cases [OF t(2) o])
    case (1 e)
    then show ?thesis using t(3) assms(3) by (auto simp: mem_view_def)
  next
    case (2 sv op)
    have v: "v = view_of sv" using t(3) 2(2) by (simp add: mem_view_def)
    have ctx: "op_context op = events_context (sv_events sv)" and oid: "op_id op = ?i"
      using 2(3) by (simp_all add: opens_def view_of_def Let_def replay_events_context)
    have "lookup m1 ?i = Some sv" using 2(2,4) by simp
    then obtain n m2 where c: "commit_session ?i (clock (ms_writes m1)) (repair_commit (op_context op)) [] m1 = (Inr n, m2)"
      by (simp add: commit_session_def check_consumed_blocks_def next_write_def Let_def case_prod_beta)
    have "\<exists>repair sn' m'. session_recover ?st sn m = (Inr repair, sn', m') \<and>
      sn_context sn' = op_context op @ (if newest_is_open (op_newest_turn op) then commit_blocks (repair_commit (op_context op)) else [])"
      using o 2(1) c oid assms(2)
      by (cases "newest_is_open (op_newest_turn op)")
        (simp_all add: session_recover_def open_and_end_turn_def mem_ops_def Let_def)
    then obtain repair sn' m' where r: "session_recover ?st sn m = (Inr repair, sn', m')"
      "sn_context sn' = op_context op @ (if newest_is_open (op_newest_turn op) then commit_blocks (repair_commit (op_context op)) else [])"
      by blast
    have none: "open_calls (op_context op) = []" if "\<not> newest_is_open (op_newest_turn op)"
      using t(4) that 2(3) open_calls_waiting [of "op_context op" "[]"]
      by (auto simp: repairable_def v opens_def Let_def)
    note tr = memory_sessions.recover_tracks [OF t(1) r(1)]
    then have "\<not> is_stale sn'" "paired (sn_context sn')" "\<not> newest_is_open (sn_newest_turn sn')"
      by (auto simp: tracks_def is_stale_def same_session_def repairable_def paired_def)
    moreover have "mem_events m ?i = Some (sv_events sv)" using 2(2) by (simp add: mem_events_def)
    ultimately show ?thesis using r none ctx by (auto simp: repair_commit_def)
  qed
qed

text \<open>The store failed in a turn after the answer, so the call of the answer is open.\<close>

theorem session_recovers_witness:
  "\<exists>m sn repair sn' m'. session_life (\<lambda>_. 0) (\<lambda>_. 7) m sn \<and>
     session_recover (mem_ops (\<lambda>_. 0) (\<lambda>_. 7)) sn m = (Inr repair, sn', m') \<and> \<not> is_stale sn' \<and>
     sn_context sn' = [UserText ''hi'', AssistantText ''ok'', ToolCall example_call,
       ToolResult (result_error ''c1'' outcome_unknown)]"
proof -
  obtain sn m where sn: "session_life (\<lambda>_. 0) (\<lambda>_. 7) m sn" "is_stale sn" "sn_id sn = 7" "ms_writers m = []"
    and m: "map_option events_context (mem_events m 7) =
      Some [UserText ''hi'', AssistantText ''ok'', ToolCall example_call]"
    using cut_life by blast
  have w: "sn_id sn \<notin> set (ms_writers m)" using sn(4) by simp
  have "open_calls [UserText ''hi'', AssistantText ''ok'', ToolCall example_call] = [''c1'']"
    by (simp add: open_calls_def example_call_def)
  with session_recovers [OF sn(1,2) w] m sn(1,3) show ?thesis by fastforce
qed

text \<open>
  C10: a crash at any moment of a turn loses nothing that was saved and leaves nothing that cannot go on.
  After any number of the commits of a turn, the repair of the saved context, one error result for each
  open call, is a context that any provider accepts.
\<close>

theorem crash_leaves_repairable:
  assumes "run_turn fuel p e context input tokens io = Some (result, s, io')"
    and "paired context" and "paired input" and "keeps_pairing Q e" and "Q (io_world io)"
    and "tp_has_journal p" and "io_journal io = []"
  shows "paired (replay (take k (io_journal io')) context @
     commit_blocks (repair_commit (replay (take k (io_journal io')) context)))"
proof -
  let ?j = "io_journal io'"
  have "\<exists>ids. waiting (replay (take k ?j) context) ids"
  proof -
    have opn: "\<exists>ids. waiting (replay (take k j) context) ids" if "open_prefixes context j" for k j
      using that by (simp add: open_prefixes_def)
    have "\<exists>ids. waiting (replay (take k ?j) context) ids" if en: "ended_journal context ?j res" for res
    proof (cases "length ?j \<le> k")
      case True
      then show ?thesis using en by (auto simp: ended_journal_def paired_def)
    next
      case False
      then show ?thesis using en opn by (auto simp: ended_journal_def)
    qed
    with opn show ?thesis using run_turn_journal [OF assms]
      by (auto simp: journal_fits_def split: sum.splits turn_error.splits)
  qed
  then show ?thesis using repair_paired by blast
qed

theorem crash_leaves_repairable_witness:
  "paired (replay [blocks_commit [UserText ''hi'']] [] @
     commit_blocks (repair_commit (replay [blocks_commit [UserText ''hi'']] [])))"
proof -
  have j: "io_journal (new_io ()) = []" by (simp add: new_io_def io_journal_def)
  have h: "tp_has_journal example_parts" by (simp add: example_parts_def)
  have p: "paired [UserText ''hi'']" by (simp add: paired_user)
  show ?thesis
    using crash_leaves_repairable [OF example_run paired_Nil p example_env_keeps TrueI h j, of 1]
    by (simp add: io_journal_def)
qed

end
