(* ===== verification/Session_Inputs.thy ===== *)
theory Session_Inputs
  imports Session_Store
begin

text \<open>
  The inputs of a turn on the store in memory: what a take gives, what the next commit consumes, and how
  a failed input hook spoils the end of a turn.
\<close>

section \<open>A take and the commit after it\<close>

lemma take_each_kept:
  assumes "so_pending st i (tw_store w) = Inr ps'" "set (map pi_id ps) \<subseteq> set (map pi_id ps')"
    and "distinct (map ci_id (tw_taken w) @ map pi_id ps)"
  shows "take_each st no_input_hook i ps w =
    (Inr (concat (map (model_content \<circ> pi_input) ps)),
     w\<lparr>tw_taken := tw_taken w @ map (fst \<circ> into_consumed) ps\<rparr>)"
  using assms
proof (induction ps arbitrary: w)
  case (Cons p ps)
  have p: "pi_id p \<notin> set (map ci_id (tw_taken w))" "pi_id p \<in> set (map pi_id ps')" using Cons.prems(2,3) by auto
  have w: "w\<lparr>tw_store := tw_store w\<rparr> = w" by simp
  define w1 where "w1 = w\<lparr>tw_taken := tw_taken w @ [fst (into_consumed p)]\<rparr>"
  have "take_input st no_input_hook i p w = take_kept st i p None w"
    using p(1) by (auto simp: take_input_def no_input_hook_def Let_def)
  also have "\<dots> = (Inr (model_content (pi_input p)), w1)"
    using p(2) Cons.prems(1) by (simp add: take_kept_def keep_input_def w1_def case_prod_beta)
  finally have one: "take_input st no_input_hook i p w = (Inr (model_content (pi_input p)), w1)" .
  have "take_each st no_input_hook i ps w1 = (Inr (concat (map (model_content \<circ> pi_input) ps)),
      w1\<lparr>tw_taken := tw_taken w1 @ map (fst \<circ> into_consumed) ps\<rparr>)"
    using Cons.prems by (intro Cons.IH) (auto simp: w1_def)
  then show ?case using one by (simp add: w1_def comp_def)
qed simp

lemma consumed_counts:
  "sum_list (map ci_block_count (map (fst \<circ> into_consumed) ps)) = length (concat (map (model_content \<circ> pi_input) ps))"
  by (induction ps) simp_all

text \<open>
  The inputs that a turn takes reach the model and leave the queue together. A take gives the blocks
  of all pending inputs in the order they came; the next commit that starts with those blocks is always
  accepted, its event names exactly these inputs in that order, and then no input is pending.
\<close>

theorem take_then_commit:
  assumes "reachable m" "lookup m i = Some sv" "tw_store w = m" "tw_taken w = []"
    and "commit_blocks c = concat (map (model_content \<circ> pi_input) (sv_pending sv)) @ rest"
    and "length (commit_blocks c) \<le> usize_max"
  shows "\<exists>n w1 w2. journal_take (mem_ops clock fresh) no_input_hook i w =
       (Inr (concat (map (model_content \<circ> pi_input) (sv_pending sv))), w1) \<and> tw_store w1 = m \<and>
     journal_commit (mem_ops clock fresh) i c w1 = (None, w2) \<and> tw_taken w2 = [] \<and>
     mem_pending (tw_store w2) i = [] \<and>
     mem_events (tw_store w2) i = Some (sv_events sv @
       [\<lparr>se_number = n, se_event = CommitEvent c (map (fst \<circ> into_consumed) (sv_pending sv))\<rparr>])"
proof -
  let ?ps = "sv_pending sv" and ?st = "mem_ops clock fresh"
  let ?ci = "map (fst \<circ> into_consumed) ?ps" and ?now = "clock (ms_writes m)"
  have ok: "mem_ok m" using reachable_ok [OF assms(1)] .
  have p: "so_pending ?st i (tw_store w) = Inr ?ps" using assms(2,3) by (simp add: mem_ops_def pending_inputs_def)
  have ids: "map ci_id ?ci = map pi_id ?ps" by simp
  have d: "distinct (map pi_id ?ps)"
    using memory_store.ok_pending [OF ok, of i] assms(2)
    by (simp add: mem_pending_def strict_sorted_iff)
  have "journal_take ?st no_input_hook i w =
      (Inr (concat (map (model_content \<circ> pi_input) ?ps)), w\<lparr>tw_taken := ?ci\<rparr>)"
    using take_each_kept [OF p order_refl] p d assms(4) by (simp add: journal_take_def take_inputs_def)
  moreover obtain n where "fst (commit_session i ?now c ?ci m) = Inr n"
    using commit_session_accepts [OF ok assms(2), of ?ci c ?now] d assms(5,6) consumed_counts [of ?ps]
    by (auto simp: ids comp_def)
  then obtain m' where c: "commit_session i ?now c ?ci m = (Inr n, m')" by (cases "commit_session i ?now c ?ci m") auto
  moreover note sv = memory_store.commit_saves [OF ok c]
  have "mem_events m i = Some (sv_events sv)" "mem_pending m i = ?ps"
    using assms(2) by (simp_all add: mem_events_def mem_pending_def)
  then have "mem_events m' i = Some (sv_events sv @ [\<lparr>se_number = n, se_event = CommitEvent c ?ci\<rparr>])"
    "mem_pending m' i = []"
    using sv by (auto simp: filter_empty_conv)
  moreover obtain w2 where "journal_commit ?st i c (w\<lparr>tw_taken := ?ci\<rparr>) = (None, w2)" "tw_store w2 = m'" "tw_taken w2 = []"
    using c assms(3) by (simp add: journal_commit_def mem_ops_def Let_def)
  ultimately show ?thesis using assms(3)
    by (intro exI [of _ n] exI [of _ "w\<lparr>tw_taken := ?ci\<rparr>"] exI [of _ w2]) simp
qed

definition example_world :: "'s \<Rightarrow> 's turn_world" where
  "example_world s = \<lparr>tw_store = s, tw_taken = [], tw_tokens = None, tw_saved = [], tw_removed = [], tw_failed = None\<rparr>"

theorem take_then_commit_witness:
  "\<exists>n w1 w2. journal_take (mem_ops (\<lambda>_. 0) (\<lambda>_. 8)) no_input_hook 7
       (example_world example_accepted) = (Inr [UserText ''hi''], w1) \<and>
     journal_commit (mem_ops (\<lambda>_. 0) (\<lambda>_. 8)) 7 example_turn w1 = (None, w2) \<and>
     mem_pending (tw_store w2) 7 = []"
proof -
  let ?w = "example_world example_accepted"
  obtain sv where sv: "lookup example_accepted 7 = Some sv" "sv_pending sv = [\<lparr>pi_id = InputId 1, pi_input = example_input\<rparr>]"
    by (simp add: lookup_def example_sessions)
  have "commit_blocks example_turn = concat (map (model_content \<circ> pi_input) (sv_pending sv)) @ []"
    by (simp add: sv(2) example_turn_def example_input_def model_content_def)
  moreover have "length (commit_blocks example_turn) \<le> usize_max" by (simp add: example_turn_def usize_max_def)
  moreover have "tw_store ?w = example_accepted" "tw_taken ?w = []" by (simp_all add: example_world_def)
  ultimately show ?thesis
    using take_then_commit [OF reachable_accepted sv(1), of ?w example_turn "[]" "\<lambda>_. 0" "\<lambda>_. 8"]
    by (auto simp: sv(2) example_input_def model_content_def)
qed

section \<open>A failed input hook\<close>

text \<open>
  C34: an input hook that fails in the middle of a turn can cost the session its end. When the inbox takes
  a first input and the hook fails on the second, the turn fails with the error of the hook; but the
  first input stays in the records of the turn while its blocks enter no commit, so the store refuses
  the commit that ends the turn. The error of the hook is lost, the session is stale, and its store is as
  it was: the turn stays open there.
\<close>

theorem failed_hook_spoils_end:
  assumes "reachable m" "lookup m i = Some sv" "sv_pending sv = p # q # ps"
    and "tw_store w = m" "tw_taken w = []"
    and "\<not> from_session (in_source (pi_input p))" "\<not> from_session (in_source (pi_input q))"
    and "hook p m = (Inr KeepInput, m)" "hook q m = (Inl err, m)"
    and "ts_saved s = length (ts_context s)"
  shows "\<exists>w1 c s' w2 sn' w3. journal_take (mem_ops clock fresh) hook i w = (Inl err, w1) \<and>
     fail_turn (RoundInbox err) s = (ActDone c (Inl (RoundInbox err)), s') \<and>
     journal_commit (mem_ops clock fresh) i c w1 = (Some (store_error_dyn InputBlocksExceedCommit), w2) \<and>
     finish_turn (mem_ops clock fresh) sn (Inl (TurnCommit (store_error_dyn InputBlocksExceedCommit))) (ts_context s') w2 =
       (Inl (SessStore InputBlocksExceedCommit), sn', w3) \<and>
     is_stale sn' \<and> mem_events (tw_store w3) = mem_events m \<and> mem_pending (tw_store w3) i = p # q # ps"
proof -
  let ?st = "mem_ops clock fresh"
  let ?w1 = "w\<lparr>tw_taken := [fst (into_consumed p)]\<rparr>"
  have ok: "mem_ok m" using reachable_ok [OF assms(1)] .
  have d: "pi_id p \<noteq> pi_id q"
    using memory_store.ok_pending [OF ok, of i] assms(2,3) by (auto simp: mem_pending_def)
  have "input_ok (pi_input p)" using mem_okD [OF ok assms(2)] assms(3) by (simp add: saved_ok_def)
  then have n: "0 < length (model_content (pi_input p))" using model_content_nonempty by simp
  have pend: "pending_inputs i m = Inr (p # q # ps)" using assms(2,3) by (simp add: pending_inputs_def)
  have w: "w\<lparr>tw_store := m\<rparr> = w" using assms(4) by simp
  have "take_input ?st hook i p w = (Inr (model_content (pi_input p)), ?w1)"
    using assms(4-6,8) pend
    by (simp add: take_input_def take_kept_def keep_input_def mem_ops_def case_prod_beta w Let_def)
  moreover have "take_input ?st hook i q ?w1 = (Inl (TakeHook err), ?w1)"
    using assms(4,7,9) d w by (simp add: take_input_def Let_def)
  ultimately have t: "journal_take ?st hook i w = (Inl err, ?w1)"
    using pend assms(4) by (simp add: journal_take_def take_inputs_def mem_ops_def)
  obtain c s' where f: "fail_turn (RoundInbox err) s = (ActDone c (Inl (RoundInbox err)), s')" "commit_blocks c = []"
    using assms(10) by (simp add: fail_turn_def done_turn_def take_unsaved_def)
  have "check_consumed_blocks c [fst (into_consumed p)] = Inl InputBlocksExceedCommit"
    using n f(2) by (simp add: check_consumed_blocks_def checked_add_usize_def)
  then have "journal_commit ?st i c ?w1 = (Some (store_error_dyn InputBlocksExceedCommit),
      w\<lparr>tw_taken := [], tw_failed := Some InputBlocksExceedCommit\<rparr>)"
    using assms(4) w by (simp add: journal_commit_def mem_ops_def commit_session_def Let_def)
  with t f(1) show ?thesis using assms(2-4)
    by (simp add: finish_turn_def is_stale_def mem_ops_def drop_lease_def Let_def mem_pending_def mem_events_def fun_eq_iff)
qed

text \<open>Two inputs of the user wait, and the hook knows only the first.\<close>

definition example_twice :: memory where
  "example_twice = snd (accept_input 7 example_input example_accepted)"

definition example_hook :: "memory input_hook" where
  "example_hook p m = (if pi_id p = InputId 1 then (Inr KeepInput, m) else (Inl (DynError ''no'' None), m))"

lemma reachable_twice: "reachable example_twice"
  unfolding example_twice_def
  by (rule step [OF reachable_accepted]) (rule accept, simp add: example_input_def input_ok_def)

theorem failed_hook_spoils_end_witness:
  "\<exists>w1 c s' w2. journal_take (mem_ops (\<lambda>_. 0) (\<lambda>_. 8)) example_hook 7 (example_world example_twice) =
       (Inl (DynError ''no'' None), w1) \<and>
     fail_turn (RoundInbox (DynError ''no'' None)) (new_turn [] None) = (ActDone c (Inl (RoundInbox (DynError ''no'' None))), s') \<and>
     journal_commit (mem_ops (\<lambda>_. 0) (\<lambda>_. 8)) 7 c w1 = (Some (store_error_dyn InputBlocksExceedCommit), w2)"
proof -
  obtain sv where sv: "lookup example_twice 7 = Some sv"
    "sv_pending sv = [\<lparr>pi_id = InputId 1, pi_input = example_input\<rparr>, \<lparr>pi_id = InputId 2, pi_input = example_input\<rparr>]"
    by (simp add: example_twice_def accept_input_def lookup_def example_sessions put_def Let_def title_of_def example_input_def)
  have src: "\<not> from_session (in_source example_input)" by (simp add: example_input_def from_session_def)
  have w: "tw_store (example_world example_twice) = example_twice" "tw_taken (example_world example_twice) = []"
    by (simp_all add: example_world_def)
  have h: "example_hook \<lparr>pi_id = InputId 1, pi_input = example_input\<rparr> m = (Inr KeepInput, m)"
    "example_hook \<lparr>pi_id = InputId 2, pi_input = example_input\<rparr> m = (Inl (DynError ''no'' None), m)" for m
    by (simp_all add: example_hook_def)
  have s: "ts_saved (new_turn [] None) = length (ts_context (new_turn [] None))" by (simp add: new_turn_def)
  show ?thesis
    using failed_hook_spoils_end [where hook = example_hook and err = "DynError ''no'' None" and clock = "\<lambda>_. 0"
        and fresh = "\<lambda>_. 8" and s = "new_turn [] None", OF reachable_twice sv w] src h s
    by (fastforce simp del: store_error_dyn.simps)
qed

end
