(* ===== verification/Turn_Log.thy ===== *)
theory Turn_Log
  imports Journal
begin

text \<open>
  The order of the events and the confirmed commits of a turn, as whoever observes the turn sees them:
  a response starts before its facts and ends by a failure or by the next commit, each fact of a tool is
  about a call in the newest confirmed commit with calls, and nothing is saved after the end.
\<close>

section \<open>The order\<close>

text \<open>
  \<open>lg_open\<close>: a response started, and neither failed nor was saved. \<open>lg_calls\<close>: the blocks of the newest
  commit with a tool call. \<open>lg_ended\<close>: a commit ended the turn.
\<close>

record log_state =
  lg_open :: bool
  lg_calls :: "block list option"
  lg_ended :: bool

definition call_at :: "log_state \<Rightarrow> nat \<Rightarrow> string option" where
  "call_at st i =
     (case lg_calls st of
        None \<Rightarrow> None
      | Some bs \<Rightarrow> if i < length bs then map_option call_id (call_of (bs ! i)) else None)"

fun log_step :: "turn_event + commit \<Rightarrow> log_state \<Rightarrow> log_state option" where
  "log_step (Inl ResponseStarted) st = (if lg_open st then None else Some (st\<lparr>lg_open := True\<rparr>))"
| "log_step (Inl (ResponseFailed _)) st = (if lg_open st then Some (st\<lparr>lg_open := False\<rparr>) else None)"
| "log_step (Inl (ResponseCancelled _)) st = (if lg_open st then Some st else None)"
| "log_step (Inl (ModelEvent _)) st = (if lg_open st then Some st else None)"
| "log_step (Inl (ToolStarted i c)) st = (if call_at st i = Some (call_id c) then Some st else None)"
| "log_step (Inl (ToolOutput i _)) st = (if call_at st i \<noteq> None then Some st else None)"
| "log_step (Inl (ToolFinished i _ _ _)) st = (if call_at st i \<noteq> None then Some st else None)"
| "log_step (Inl (RoundFailed _)) st = Some st"
| "log_step (Inl (RetryScheduled _ _)) st = Some st"
| "log_step (Inr c) st =
     (if lg_ended st then None
      else Some
        \<lparr>lg_open = False, lg_calls = (if calls_in (commit_blocks c) = [] then lg_calls st else Some (commit_blocks c)),
         lg_ended = (commit_end c \<noteq> None)\<rparr>)"

definition log_then :: "turn_event + commit \<Rightarrow> log_state option \<Rightarrow> log_state option" where
  "log_then x st = (case st of None \<Rightarrow> None | Some s \<Rightarrow> log_step x s)"

definition log_run :: "(turn_event + commit) list \<Rightarrow> log_state option \<Rightarrow> log_state option" where
  "log_run xs st = fold log_then xs st"

definition quiet :: log_state where
  "quiet = \<lparr>lg_open = False, lg_calls = None, lg_ended = False\<rparr>"

text \<open>Where the log of an \<open>io\<close> stands, from the start of its turn.\<close>

definition log_at :: "'w io \<Rightarrow> log_state option" where
  "log_at io = log_run (io_log io) (Some quiet)"

lemma log_run_simps [simp]:
  "log_run [] st = st" "log_run (x # xs) st = log_run xs (log_then x st)"
  "log_run (xs @ ys) st = log_run ys (log_run xs st)" "log_run xs None = None"
  "log_then x (Some s) = log_step x s" "log_then x None = None"
  by (simp_all add: log_run_def log_then_def) (induction xs; simp add: log_then_def)

lemma log_at_fields [simp]:
  "log_at (io\<lparr>io_now := t\<rparr>) = log_at io" "log_at (io\<lparr>io_world := w\<rparr>) = log_at io"
  "log_at (emit ev io) = log_then (Inl ev) (log_at io)"
  "log_at (emit_all evs io) = log_run (map Inl evs) (log_at io)"
  "log_at (confirm c io) = log_then (Inr c) (log_at io)"
  by (simp_all add: log_at_def emit_def emit_all_def confirm_def)

lemma race_log: "race e work io = (r, io') \<Longrightarrow> log_at io' = log_at io"
  by (auto simp: race_def Let_def split: option.splits)

lemma await_log: "await e work io = (r, io') \<Longrightarrow> log_at io' = log_at io"
  by (auto simp: await_def)

lemma await_world_log: "await_world e work io = (r, io') \<Longrightarrow> log_at io' = log_at io"
  by (auto simp: await_world_def split: prod.splits)

lemmas waits_log = race_log await_log await_world_log

section \<open>Requests\<close>

lemma reply_log:
  "reply_events e evs n io = (r, io') \<Longrightarrow> log_at io = Some st \<Longrightarrow> lg_open st \<Longrightarrow> log_at io' = Some st"
proof (induction e evs n io arbitrary: r io' rule: reply_events.induct)
  case (1 e n io)
  then show ?case by (auto split: prod.splits raced.splits dest: race_log)
next
  case (2 e ev evs n io)
  then show ?case by (fastforce split: prod.splits raced.splits dest: race_log)
qed

text \<open>Where a request leaves the log: only an answer or a cancel leaves a response open.\<close>

definition sent_log :: "sent \<Rightarrow> log_state \<Rightarrow> log_state \<Rightarrow> bool" where
  "sent_log x st st' \<longleftrightarrow> lg_calls st' = lg_calls st \<and> lg_ended st' = lg_ended st \<and> (case x of SentFailed _ \<Rightarrow> \<not> lg_open st' | _ \<Rightarrow> True)"

lemma attempt_log:
  assumes "attempt p e m rq number io = (a, io')" "log_at io = Some st" "\<not> lg_open st"
  shows "case a of Ended x \<Rightarrow> (\<exists>st'. log_at io' = Some st' \<and> sent_log x st st') | Again \<Rightarrow> log_at io' = Some st"
proof -
  have st: "st\<lparr>lg_open := True, lg_open := False\<rparr> = st" using assms(3) by (cases st) simp
  show ?thesis
    using assms st unfolding attempt_def
    by (auto simp: Let_def sent_log_def split: prod.splits raced.splits sum.splits option.splits
        dest!: waits_log) (auto dest!: reply_log)
qed

lemma send_log:
  "send p e m rq number io = (x, io') \<Longrightarrow> log_at io = Some st \<Longrightarrow> \<not> lg_open st \<Longrightarrow>
     \<exists>st'. log_at io' = Some st' \<and> sent_log x st st'"
proof (induction p e m rq number io arbitrary: x io' rule: send.induct)
  case (1 p e m rq number io)
  obtain a io1 where a: "attempt p e m rq number io = (a, io1)" by fastforce
  note al = attempt_log [OF a 1(3,4)]
  show ?case
  proof (cases a)
    case (Ended y)
    then show ?thesis using 1(2) a al by (simp add: send.simps [of p e m rq number io])
  next
    case Again
    then have "send p e m rq (number + 1) io1 = (x, io')"
      using 1(2) a by (simp add: send.simps [of p e m rq number io])
    from 1(1) [OF a [symmetric] Again this _ 1(4)] al Again show ?thesis by simp
  qed
qed

text \<open>A save: the order of the log after a confirmed commit, and the old one after a failed save.\<close>

lemma save_log:
  assumes "save p e c io = (r, io')" "log_at io = Some st" "tp_has_journal p"
  shows "log_at io' = (case r of Inl _ \<Rightarrow> Some st | Inr _ \<Rightarrow> log_step (Inr c) st)"
  using assms
  by (auto simp: save_def Let_def split: prod.splits option.splits dest!: waits_log)

lemma apply_plan_log:
  assumes "apply_plan p e plan s io = (r, s', io')" "log_at io = Some st" "tp_has_journal p" "\<not> lg_open st" "\<not> lg_ended st"
  shows "log_at io' = Some st"
proof -
  have b: "commit_blocks (fst (replace_turn rp s)) = []" "commit_end (fst (replace_turn rp s)) = None" for rp
    by (simp_all add: replace_turn_def Let_def)
  have st: "\<lparr>lg_open = False, lg_calls = lg_calls st, lg_ended = False\<rparr> = st" using assms(4,5) by (cases st) simp
  show ?thesis
    using assms(1)
  proof (cases rule: apply_plan_cases)
    case (replaced rp)
    then show ?thesis using save_log [OF replaced(3) assms(2,3)] st assms(5) by (auto simp: b split: sum.splits)
  qed (use assms(2) in simp)
qed

lemma round_pass_log:
  assumes "round_pass p e plan s io = (q, s', io')" "log_at io = Some st" "tp_has_journal p" "\<not> lg_open st" "\<not> lg_ended st"
  shows "\<exists>st'. log_at io' = Some st' \<and> lg_calls st' = lg_calls st \<and> \<not> lg_ended st' \<and>
    (case q of RoundSent (SentFailed _) \<Rightarrow> \<not> lg_open st' | RoundSent _ \<Rightarrow> True | _ \<Rightarrow> \<not> lg_open st')"
proof -
  obtain r s1 io1 where a: "apply_plan p e plan s io = (r, s1, io1)" by (metis prod_cases3)
  note ap = apply_plan_log [OF a assms(2-5)]
  show ?thesis
    using assms(1,4,5) a ap
    by (auto simp: round_pass_def Let_def sent_log_def split: prod.splits sum.splits sent.splits raced.splits option.splits
        dest!: send_log [OF _ ap assms(4)] waits_log)
qed

lemma round_loop_log:
  "round_loop n p e plan s io = Some (r, s', io') \<Longrightarrow> log_at io = Some st \<Longrightarrow> tp_has_journal p \<Longrightarrow> \<not> lg_open st \<Longrightarrow> \<not> lg_ended st \<Longrightarrow>
     \<exists>st'. log_at io' = Some st' \<and> lg_calls st' = lg_calls st \<and> \<not> lg_ended st'"
proof (induction n arbitrary: plan s io st)
  case (Suc n)
  obtain q s1 io1 where q: "round_pass p e plan s io = (q, s1, io1)" by (metis prod_cases3)
  obtain st1 where st1: "log_at io1 = Some st1" "lg_calls st1 = lg_calls st" "\<not> lg_ended st1" "\<And>pl. q = RoundAgain pl \<Longrightarrow> \<not> lg_open st1"
    using round_pass_log [OF q Suc.prems(2-5)] by (cases q) (auto split: round_pass.splits)
  show ?case
  proof (cases q)
    case (RoundAgain plan')
    then show ?thesis
      using Suc.IH [of plan' s1 io1 st1] Suc.prems(1,3) q st1 by simp
  qed (use Suc.prems(1) q st1 in auto)
qed simp

lemma send_round_log:
  assumes "send_round n p e s io = Some (r, s', io')" "log_at io = Some st" "tp_has_journal p" "\<not> lg_open st" "\<not> lg_ended st"
  shows "\<exists>st'. log_at io' = Some st' \<and> lg_calls st' = lg_calls st \<and> \<not> lg_ended st'"
  using assms
  by (auto simp: send_round_def Let_def split: prod.splits raced.splits sum.splits
      dest!: race_log dest: round_loop_log)

section \<open>Tools\<close>

text \<open>The calls that the driver resolves stand where they stand in the commit.\<close>

definition placed :: "log_state \<Rightarrow> resolved \<Rightarrow> bool" where
  "placed st r \<longleftrightarrow> call_at st (rv_block_index r) = Some (rv_call_id r)"

lemma ask_hook_log:
  assumes "ask_hook e r io = (r', io')" "log_at io = Some st" "placed st r"
  shows "log_at io' = Some st \<and> placed st r'"
  using assms unfolding ask_hook_def placed_def
  by (auto simp: Let_def rv_call_id_def split: prod.splits raced.splits option.splits tool_decision.splits dest!: race_log)

lemma ask_hooks_log:
  "ask_hooks e rs io = (rs', io') \<Longrightarrow> log_at io = Some st \<Longrightarrow> \<forall>r\<in>set rs. placed st r \<Longrightarrow>
     log_at io' = Some st \<and> (\<forall>r\<in>set rs'. placed st r)"
proof (induction rs arbitrary: io rs' io')
  case (Cons r rs)
  obtain r1 io1 where a: "ask_hook e r io = (r1, io1)" by fastforce
  obtain rs1 io2 where b: "ask_hooks e rs io1 = (rs1, io2)" by fastforce
  have "log_at io1 = Some st \<and> placed st r1" using ask_hook_log [OF a Cons.prems(2)] Cons.prems(3) by simp
  then show ?case using Cons.IH [OF b] Cons.prems a b by auto
qed simp

text \<open>An event of a tool that leaves the order as it is.\<close>

definition tool_event :: "log_state \<Rightarrow> turn_event \<Rightarrow> bool" where
  "tool_event st ev \<longleftrightarrow> log_step (Inl ev) st = Some st"

lemma tool_events_log: "\<forall>ev\<in>set evs. tool_event st ev \<Longrightarrow> log_run (map Inl evs) (Some st) = Some st"
  by (induction evs) (simp_all add: tool_event_def)

lemma lane_log: "placed st r \<Longrightarrow> \<forall>x\<in>set (lane_events (lane_of p e native t r)). tool_event st (snd x)"
  by (auto simp: lane_of_def run_call_def placed_def tool_event_def Let_def split: option.splits prod.splits)

lemma call_group_log:
  assumes "call_group p e native rs io = (fs, io')" "log_at io = Some st" "\<forall>r\<in>set rs. placed st r"
  shows "log_at io' = Some st"
proof -
  obtain asked io1 where a: "ask_hooks e rs io = (asked, io1)" by fastforce
  note al = ask_hooks_log [OF a assms(2,3)]
  let ?evs = "map snd (sort_key fst (concat (map lane_events (map (lane_of p e native (io_now io1)) asked))))"
  have "\<forall>ev\<in>set ?evs. tool_event st ev" using al lane_log by fastforce
  from tool_events_log [OF this] show ?thesis
    using assms(1) a al by (auto simp: call_group_def Let_def simp del: map_map)
qed

lemma call_all_log:
  "call_all p e native gs io = (fs, io') \<Longrightarrow> log_at io = Some st \<Longrightarrow> \<forall>r\<in>set (concat gs). placed st r \<Longrightarrow>
     log_at io' = Some st"
proof (induction gs arbitrary: io fs io')
  case (Cons g gs)
  obtain f1 io1 where a: "call_group p e native g io = (f1, io1)" by fastforce
  obtain f2 io2 where b: "call_all p e native gs io1 = (f2, io2)" by fastforce
  have "log_at io1 = Some st" using call_group_log [OF a Cons.prems(2)] Cons.prems(3) by simp
  then show ?case using Cons.IH [OF b] Cons.prems a b by auto
qed simp

lemma indexed_calls_at: "(i, c) \<in> set (indexed_calls bs) \<Longrightarrow> i < length bs \<and> bs ! i = ToolCall c"
  by (auto simp: indexed_calls_def set_filter_map in_set_enumerate_eq split: block.splits)

lemma call_tools_log:
  assumes "call_tools p e bs native io = (fs, io')" "log_at io = Some st" "calls_in bs \<noteq> [] \<Longrightarrow> lg_calls st = Some bs"
  shows "log_at io' = Some st"
proof -
  let ?rs = "map (\<lambda>(i, c). resolve p i c) (indexed_calls bs)"
  have "placed st (resolve p i c)" if "(i, c) \<in> set (indexed_calls bs)" for i c
  proof -
    have b: "i < length bs" "bs ! i = ToolCall c" using indexed_calls_at [OF that] by auto
    moreover have "calls_in bs \<noteq> []" using that indexed_calls_eq [of bs] by (metis empty_iff list.set(1) list.map_disc_iff)
    moreover have "rv_block_index (resolve p i c) = i" by (simp add: resolve_def split: sum.split)
    ultimately show ?thesis using assms(3) by (simp add: placed_def call_at_def resolve_ok call_of_def)
  qed
  then have "\<forall>r\<in>set ?rs. placed st r" by auto
  then show ?thesis using call_all_log [OF assms(1) [unfolded call_tools_def] assms(2)] by simp
qed

section \<open>The turn\<close>

text \<open>Only the commit of an action closes a response, so an action without a commit starts with none open.\<close>

definition closes :: "action \<Rightarrow> log_state \<Rightarrow> bool" where
  "closes a st \<longleftrightarrow> (action_commit a = None \<longrightarrow> \<not> lg_open st)"

lemma closes_done [simp]: "closes (fst (done_turn r s)) st" "closes (fst (after_round ans s)) st"
  by (simp_all add: closes_def done_turn_def after_round_def take_unsaved_def Let_def)

lemma closes_calls [simp]:
  "closes (fst (model_finished cpl og s)) st" "closes (fst (fail_turn err s)) st"
  "closes (fst (model_cancelled ps s)) st" "closes (fst (tools_finished fs s)) st"
  "closes (fst (tools_cancelled fs s)) st" "closes (fst (stop_turn s)) st" "closes (fst (cancel_turn s)) st"
  by (simp_all add: model_finished_def fail_turn_def model_cancelled_def tools_finished_def tools_cancelled_def
      stop_turn_def cancel_turn_def Let_def)
    (simp add: closes_def take_unsaved_def)

lemma closes_answer: "answer_sent sent native s = ((a, s'), native') \<Longrightarrow> closes a st"
proof -
  have "closes (fst (fst (answer_sent sent native s))) st" by (simp add: answer_sent_def split: sent.split)
  then show "answer_sent sent native s = ((a, s'), native') \<Longrightarrow> closes a st" by simp
qed

lemma closes_quiet: "\<not> lg_open st \<Longrightarrow> closes a st"
  by (simp add: closes_def)

lemma save_opt_log:
  assumes "save_opt p e (action_commit a) io = (r, io')" "log_at io = Some st" "tp_has_journal p" "closes a st"
    "\<not> lg_ended st" "end_fits a"
  obtains (saved) st' where "r = Inr ()" "log_at io' = Some st'" "\<not> lg_open st'" "lg_ended st' \<longleftrightarrow> (\<exists>c res. a = ActDone c res)"
      "\<And>c. action_commit a = Some c \<Longrightarrow> calls_in (commit_blocks c) \<noteq> [] \<Longrightarrow> lg_calls st' = Some (commit_blocks c)"
    | (failed) err where "r = Inl err" "log_at io' = Some st"
proof (cases "action_commit a")
  case None
  then show ?thesis using assms saved by (cases a) (auto simp: save_opt_def closes_def)
next
  case (Some c)
  then have "save p e c io = (r, io')" using assms(1) by (simp add: save_opt_def)
  note sl = save_log [OF this assms(2,3)]
  have "commit_end c \<noteq> None \<longleftrightarrow> (\<exists>c res. a = ActDone c res)"
    using assms(6) Some by (cases a) (auto simp: end_fits_def commit_list_def)
  then show ?thesis using sl Some saved failed assms(5) by (cases r) auto
qed

lemma after_answer_log: "after_answer e ctx reason s io = (q, io') \<Longrightarrow> log_at io' = log_at io"
  by (auto simp: after_answer_def split: prod.splits raced.splits sum.splits round_decision.splits dest!: waits_log)

lemma turn_pass_log:
  assumes "turn_pass n p e native a s io = Some q" "log_at io = Some st" "tp_has_journal p" "closes a st"
    and "\<not> lg_ended st" "end_fits a"
  shows "case q of
      PassError _ _ io' \<Rightarrow> (\<exists>st'. log_at io' = Some st' \<and> \<not> lg_ended st')
    | PassNext a' _ _ io' \<Rightarrow> (\<exists>st'. log_at io' = Some st' \<and> closes a' st' \<and> \<not> lg_ended st') \<and> end_fits a'
    | PassEnd _ _ io' \<Rightarrow> (\<exists>st'. log_at io' = Some st' \<and> \<not> lg_open st' \<and> lg_ended st')"
proof -
  obtain sv io1 where sv: "save_opt p e (action_commit a) io = (sv, io1)" by fastforce
  show ?thesis
  proof (cases rule: save_opt_log [OF sv assms(2-6)])
    case (2 err)
    then show ?thesis using assms(1,5) sv by (auto simp: turn_pass_def)
  next
    case (1 st1)
    show ?thesis
    proof (cases a)
      case (ActSend c)
      then obtain r s1 io2 where r: "send_round n p e s io1 = Some (r, s1, io2)"
        using assms(1) sv 1 by (auto simp: turn_pass_def split: option.splits)
      then obtain st2 where "log_at io2 = Some st2" "\<not> lg_ended st2"
        using send_round_log [OF r 1(2) assms(3) 1(3)] 1(4) ActSend by blast
      then show ?thesis using assms(1) sv 1 ActSend r
        by (auto simp: turn_pass_def Let_def split: sum.splits prod.splits intro: closes_answer end_fits_answer)
    next
      case (ActCallTools c)
      obtain fs io2 where t: "call_tools p e (commit_blocks c) native io1 = (fs, io2)" by fastforce
      have "log_at io2 = Some st1" using call_tools_log [OF t 1(2)] 1(5) ActCallTools by simp
      then show ?thesis using assms(1) sv 1 ActCallTools t
        by (auto simp: turn_pass_def Let_def split: prod.splits intro: closes_quiet end_fits_finish)
    next
      case (ActAfterRound c reason cm)
      obtain r io2 where r: "after_answer e c reason s io1 = (r, io2)" by fastforce
      then show ?thesis using assms(1) sv 1 ActAfterRound after_answer_log [OF r] end_fits_after [OF r]
        by (auto simp: turn_pass_def Let_def split: prod.splits intro: closes_quiet)
    next
      case (ActDone c res)
      then show ?thesis using assms(1) sv 1 by (auto simp: turn_pass_def)
    qed
  qed
qed

lemma turn_loop_log:
  "turn_loop n p e native a s io = Some (r, s', io') \<Longrightarrow> log_at io = Some st \<Longrightarrow> tp_has_journal p \<Longrightarrow> closes a st \<Longrightarrow>
     \<not> lg_ended st \<Longrightarrow> end_fits a \<Longrightarrow>
     \<exists>st'. log_at io' = Some st' \<and> (lg_ended st' \<longleftrightarrow> (\<forall>err. r \<noteq> Inl (TurnCommit err))) \<and> (lg_ended st' \<longrightarrow> \<not> lg_open st')"
proof (induction n arbitrary: native a s io st)
  case (Suc n)
  obtain q where q: "turn_pass n p e native a s io = Some q"
    using Suc.prems(1) by (auto split: option.splits)
  note pre = turn_pass_log [OF q Suc.prems(2-6)]
  show ?case
  proof (cases q)
    case (PassNext a' s1 native' io1)
    then show ?thesis using Suc.IH Suc.prems(1,3) q pre by fastforce
  next
    case (PassError err s1 io1)
    then have "\<exists>x. err = TurnCommit x" using q
      by (auto simp: turn_pass_def Let_def split: prod.splits sum.splits action.splits option.splits)
    then show ?thesis using Suc.prems(1) q PassError pre by auto
  next
    case (PassEnd res s1 io1)
    then show ?thesis using Suc.prems(1) q pre by (cases res) auto
  qed
qed simp

lemma run_turn_log:
  assumes "run_turn fuel p e ctx input tokens io = Some (r, s, io')" "tp_has_journal p" "io_log io = []"
  shows "\<exists>st. log_at io' = Some st \<and> (lg_ended st \<longleftrightarrow> (\<forall>err. r \<noteq> Inl (TurnCommit err))) \<and> (lg_ended st \<longrightarrow> \<not> lg_open st)"
proof -
  obtain a s0 where a: "send_turn input (new_turn ctx tokens) = (a, s0)" by fastforce
  have "log_at io = Some quiet" using assms(3) by (simp add: log_at_def)
  moreover have "closes a quiet" "\<not> lg_ended quiet" by (simp_all add: closes_quiet quiet_def)
  moreover have "end_fits a" using end_fits_rounds(3) [of input "new_turn ctx tokens"] a by simp
  ultimately show ?thesis using turn_loop_log assms(1,2) a by (auto simp: run_turn_def)
qed

end
