(* ===== verification/Updates.thy ===== *)
theory Updates
  imports Session Turn_Log
begin

text \<open>
  What the observer of a session hears of a turn, from \<open>crates/agent/src/updates.rs\<close> and the update types of
  \<open>crates/protocol/src/update.rs\<close>: the saved events, and the live facts of the draft of a response and of
  the tools. The input is the log of the driver, each confirmed commit with the number and the inputs that
  the store gave it. The removal of an input goes to the observer without this part (\<open>tw_removed\<close>).

  An \<open>expect\<close> of the source that fails is \<open>None\<close>; a new draft id is the next value of \<open>ids\<close>.
\<close>

section \<open>Updates\<close>

type_synonym draft_id = nat \<comment> \<open>the 128 bits of a UUID\<close>

datatype draft_discard_reason = DiscardFailed | DiscardUnconfirmed

record block_position =
  bp_event_number :: event_number
  bp_block_index :: nat

datatype model_update =
    MuBlockStarted block_id block_kind
  | MuTextDelta block_id string
  | MuRefusalDelta block_id string
  | MuReasoningDelta block_id string
  | MuReasoningSectionStarted block_id
  | MuToolInputDelta block_id string
  | MuBlockStopped block_id "tool_call option"
  | MuResponseCompleted finish_reason string usage

fun model_update_of :: "event \<Rightarrow> model_update" where
  "model_update_of (BlockStarted b k) = MuBlockStarted b k"
| "model_update_of (TextDelta b t) = MuTextDelta b t"
| "model_update_of (RefusalDelta b t) = MuRefusalDelta b t"
| "model_update_of (ReasoningDelta b t) = MuReasoningDelta b t"
| "model_update_of (ToolInputDelta b t) = MuToolInputDelta b t"
| "model_update_of (ReasoningSectionStarted b) = MuReasoningSectionStarted b"
| "model_update_of (BlockStopped b r) =
     MuBlockStopped b (case r of ResToolCall c \<Rightarrow> Some c | ResText \<Rightarrow> None | ResRefusal \<Rightarrow> None | ResReasoning _ \<Rightarrow> None)"
| "model_update_of (EvDone d) = MuResponseCompleted (done_finish_reason d) (done_raw d) (done_usage d)"

datatype live_update =
    TurnUnconfirmed
  | DraftStarted draft_id
  | DraftModel draft_id model_update
  | DraftCommitted draft_id event_number "block_id list"
  | DraftDiscarded draft_id draft_discard_reason
  | LiveToolStarted block_position tool_call
  | LiveToolOutput block_position string
  | LiveToolFinished block_position tool_result "display_block list" "nat option"
  | LiveRetryScheduled nat string
  | LiveRoundFailed string

datatype session_update = SavedUpdate stored_event | LiveUpdate live_update

section \<open>The publisher\<close>

record draft =
  dr_id :: draft_id
  dr_blocks :: "block_id list"

record updates =
  up_draft :: "draft option"
  up_execution :: "event_number option"
  up_ended :: bool
  up_made :: nat

definition new_updates :: updates where
  "new_updates = \<lparr>up_draft = None, up_execution = None, up_ended = False, up_made = 0\<rparr>"

definition up_discard :: "draft_discard_reason \<Rightarrow> updates \<Rightarrow> session_update list \<times> updates" where
  "up_discard reason u =
     ((case up_draft u of None \<Rightarrow> [] | Some d \<Rightarrow> [LiveUpdate (DraftDiscarded (dr_id d) reason)]),
      u\<lparr>up_draft := None\<rparr>)"

definition up_committed ::
  "event_number \<Rightarrow> commit \<Rightarrow> consumed_input list \<Rightarrow> updates \<Rightarrow> session_update list \<times> updates" where
  "up_committed n c consumed u =
     (SavedUpdate \<lparr>se_number = n, se_event = CommitEvent c consumed\<rparr> #
        (case up_draft u of None \<Rightarrow> [] | Some d \<Rightarrow> [LiveUpdate (DraftCommitted (dr_id d) n (dr_blocks d))]),
      u\<lparr>up_draft := None, up_ended := commit_end c \<noteq> None,
        up_execution :=
          (if list_ex (\<lambda>b. case b of ToolCall _ \<Rightarrow> True | _ \<Rightarrow> False) (commit_blocks c) then Some n else up_execution u)\<rparr>)"

definition up_position :: "nat \<Rightarrow> updates \<Rightarrow> block_position option" where
  "up_position i u = map_option (\<lambda>n. \<lparr>bp_event_number = n, bp_block_index = i\<rparr>) (up_execution u)"

text \<open>How a model event changes the blocks of the draft.\<close>

fun draft_event :: "event \<Rightarrow> block_id list \<Rightarrow> block_id list" where
  "draft_event (BlockStopped b _) bs = bs @ [b]"
| "draft_event (EvDone _) bs = sort bs"
| "draft_event _ bs = bs"

fun up_event ::
  "(nat \<Rightarrow> draft_id) \<Rightarrow> json_parser \<Rightarrow> turn_event \<Rightarrow> updates \<Rightarrow> (session_update list \<times> updates) option" where
  "up_event ids json ResponseStarted u =
     Some ([LiveUpdate (DraftStarted (ids (up_made u)))],
       u\<lparr>up_draft := Some \<lparr>dr_id = ids (up_made u), dr_blocks = []\<rparr>, up_made := up_made u + 1\<rparr>)"
| "up_event ids json (ResponseFailed _) u = Some (up_discard DiscardFailed u)"
| "up_event ids json (ResponseCancelled blocks) u =
     map_option (\<lambda>d. ([], u\<lparr>up_draft := Some (d\<lparr>dr_blocks := map pb_block blocks\<rparr>)\<rparr>)) (up_draft u)"
| "up_event ids json (ModelEvent ev) u =
     map_option (\<lambda>d. ([LiveUpdate (DraftModel (dr_id d) (model_update_of ev))],
       u\<lparr>up_draft := Some (d\<lparr>dr_blocks := draft_event ev (dr_blocks d)\<rparr>)\<rparr>)) (up_draft u)"
| "up_event ids json (ToolStarted i c) u =
     map_option (\<lambda>pos. ([LiveUpdate (LiveToolStarted pos c)], u)) (up_position i u)"
| "up_event ids json (ToolOutput i t) u =
     map_option (\<lambda>pos. ([LiveUpdate (LiveToolOutput pos t)], u)) (up_position i u)"
| "up_event ids json (ToolFinished i r display duration) u =
     map_option (\<lambda>pos. ([LiveUpdate (LiveToolFinished pos r display (map_option duration_ms duration))], u)) (up_position i u)"
| "up_event ids json (RetryScheduled after err) u =
     Some ([LiveUpdate (LiveRetryScheduled (duration_ms after) (error_text (attempt_dyn json err)))], u)"
| "up_event ids json (RoundFailed err) u = Some ([LiveUpdate (LiveRoundFailed (chain_text (round_dyn err)))], u)"

definition up_drop :: "updates \<Rightarrow> session_update list" where
  "up_drop u = fst (up_discard DiscardUnconfirmed u) @ (if up_ended u then [] else [LiveUpdate TurnUnconfirmed])"

text \<open>A log with what the store said of each of its commits, and the updates up to the drop.\<close>

fun publish ::
  "(nat \<Rightarrow> draft_id) \<Rightarrow> json_parser \<Rightarrow> (turn_event + commit) list \<Rightarrow> (event_number \<times> consumed_input list) list \<Rightarrow>
     updates \<Rightarrow> session_update list option" where
  "publish ids json [] saved u = Some (up_drop u)"
| "publish ids json (Inl ev # log) saved u =
     (case up_event ids json ev u of
        None \<Rightarrow> None
      | Some (out, u1) \<Rightarrow> map_option (\<lambda>rest. out @ rest) (publish ids json log saved u1))"
| "publish ids json (Inr c # log) [] u = None"
| "publish ids json (Inr c # log) ((n, consumed) # saved) u =
     (let (out, u1) = up_committed n c consumed u
      in map_option (\<lambda>rest. out @ rest) (publish ids json log saved u1))"

text \<open>The updates of a turn of a session: \<open>None\<close> only when the fuel of the driver ends.\<close>

definition session_updates ::
  "nat \<Rightarrow> 's store_ops \<Rightarrow> 's turn_setup \<Rightarrow> (nat \<Rightarrow> draft_id) \<Rightarrow> session \<Rightarrow> 's \<Rightarrow> session_update list option option" where
  "session_updates fuel st su ids sn s =
     (if is_stale sn then Some (Some [])
      else case start_input st (su_hook su) sn (new_turn_world sn s) of
        (Inl e, w) \<Rightarrow> Some (Some [])
      | (Inr input, w) \<Rightarrow>
          (case run_turn fuel (turn_parts_of st su sn (tw_store w)) (turn_env_of st su (sn_id sn)) (sn_context sn)
              input (sn_input_tokens sn) (new_io w) of
             None \<Rightarrow> None
           | Some (result, ts, io) \<Rightarrow>
               Some (publish ids (tp_json (su_parts su)) (io_log io) (tw_saved (io_world io)) new_updates)))"

section \<open>What a client may rely on\<close>

text \<open>
  A viewer holds the saved events that it got and the draft that it shows. The conditions are those of the
  documentation of \<open>LiveUpdate\<close>: an update that breaks one gives \<open>None\<close>.
\<close>

record viewer =
  vi_events :: "stored_event list"
  vi_draft :: "draft_id option"
  vi_drafts :: "draft_id list"
  vi_unconfirmed :: bool

definition new_viewer :: viewer where
  "new_viewer = \<lparr>vi_events = [], vi_draft = None, vi_drafts = [], vi_unconfirmed = False\<rparr>"

definition block_of :: "block_position \<Rightarrow> stored_event list \<Rightarrow> block option" where
  "block_of pos evs =
     (case find (\<lambda>e. se_number e = bp_event_number pos) evs of
        Some e \<Rightarrow>
          (case se_event e of
             CommitEvent c _ \<Rightarrow>
               if bp_block_index pos < length (commit_blocks c) then Some (commit_blocks c ! bp_block_index pos) else None
           | SettingsEvent _ \<Rightarrow> None)
      | None \<Rightarrow> None)"

definition called_at :: "block_position \<Rightarrow> viewer \<Rightarrow> string option" where
  "called_at pos v =
     (case block_of pos (vi_events v) of None \<Rightarrow> None | Some b \<Rightarrow> map_option call_id (call_of b))"

fun view_update :: "session_update \<Rightarrow> viewer \<Rightarrow> viewer option" where
  "view_update (SavedUpdate e) v =
     (if se_number e \<in> set (map se_number (vi_events v)) then None else Some (v\<lparr>vi_events := vi_events v @ [e]\<rparr>))"
| "view_update (LiveUpdate (DraftStarted d)) v =
     (if vi_draft v \<noteq> None \<or> d \<in> set (vi_drafts v) then None
      else Some (v\<lparr>vi_draft := Some d, vi_drafts := d # vi_drafts v\<rparr>))"
| "view_update (LiveUpdate (DraftModel d _)) v = (if vi_draft v = Some d then Some v else None)"
| "view_update (LiveUpdate (DraftCommitted d n _)) v =
     (if vi_draft v = Some d \<and> vi_events v \<noteq> [] \<and> se_number (last (vi_events v)) = n
      then Some (v\<lparr>vi_draft := None\<rparr>) else None)"
| "view_update (LiveUpdate (DraftDiscarded d _)) v =
     (if vi_draft v = Some d then Some (v\<lparr>vi_draft := None\<rparr>) else None)"
| "view_update (LiveUpdate (LiveToolStarted pos c)) v = (if called_at pos v = Some (call_id c) then Some v else None)"
| "view_update (LiveUpdate (LiveToolOutput pos _)) v = (if called_at pos v \<noteq> None then Some v else None)"
| "view_update (LiveUpdate (LiveToolFinished pos _ _ _)) v = (if called_at pos v \<noteq> None then Some v else None)"
| "view_update (LiveUpdate TurnUnconfirmed) v = Some (v\<lparr>vi_unconfirmed := True\<rparr>)"
| "view_update (LiveUpdate (LiveRetryScheduled _ _)) v = Some v"
| "view_update (LiveUpdate (LiveRoundFailed _)) v = Some v"

fun view_updates :: "session_update list \<Rightarrow> viewer \<Rightarrow> viewer option" where
  "view_updates [] v = Some v"
| "view_updates (u # us) v = (case view_update u v of None \<Rightarrow> None | Some v1 \<Rightarrow> view_updates us v1)"

lemma view_updates_append:
  "view_updates (us @ us') v = (case view_updates us v of None \<Rightarrow> None | Some v1 \<Rightarrow> view_updates us' v1)"
  by (induction us arbitrary: v) (auto split: option.splits)

section \<open>The publisher keeps what clients rely on\<close>

lemma find_append: "find P (xs @ ys) = (case find P xs of Some x \<Rightarrow> Some x | None \<Rightarrow> find P ys)"
  by (induction xs) auto

lemma list_ex_calls: "list_ex (\<lambda>b. case b of ToolCall _ \<Rightarrow> True | _ \<Rightarrow> False) bs \<longleftrightarrow> calls_in bs \<noteq> []"
  by (induction bs) (auto simp: call_of_def split: block.splits)

text \<open>The publisher and a viewer at a point of the log: \<open>st\<close> is where the log stands.\<close>

definition agrees :: "(nat \<Rightarrow> draft_id) \<Rightarrow> log_state \<Rightarrow> updates \<Rightarrow> viewer \<Rightarrow> bool" where
  "agrees ids st u v \<longleftrightarrow>
     vi_draft v = map_option dr_id (up_draft u) \<and> (up_draft u \<noteq> None \<longleftrightarrow> lg_open st) \<and>
     up_ended u = lg_ended st \<and> set (vi_drafts v) = ids ` {..<up_made u} \<and> \<not> vi_unconfirmed v \<and>
     (\<forall>bs. lg_calls st = Some bs \<longrightarrow>
        (\<exists>n e c ci. up_execution u = Some n \<and> find (\<lambda>e. se_number e = n) (vi_events v) = Some e \<and>
           se_event e = CommitEvent c ci \<and> commit_blocks c = bs))"

lemma agrees_new: "agrees ids quiet new_updates new_viewer"
  by (simp add: agrees_def quiet_def new_updates_def new_viewer_def)

lemma position_call:
  assumes "agrees ids st u v" "call_at st i = Some k"
  shows "\<exists>pos. up_position i u = Some pos \<and> called_at pos v = Some k"
proof -
  obtain bs where bs: "lg_calls st = Some bs" "i < length bs" "map_option call_id (call_of (bs ! i)) = Some k"
    using assms(2) by (auto simp: call_at_def split: option.splits if_splits)
  then obtain n e c ci where "up_execution u = Some n" "find (\<lambda>e. se_number e = n) (vi_events v) = Some e"
    "se_event e = CommitEvent c ci" "commit_blocks c = bs" using assms(1) by (auto simp: agrees_def)
  with bs show ?thesis by (simp add: up_position_def called_at_def block_of_def)
qed

lemma event_agrees:
  assumes "agrees ids st u v" "log_step (Inl ev) st = Some st'" "inj ids"
  shows "\<exists>out u' v'. up_event ids json ev u = Some (out, u') \<and> view_updates out v = Some v' \<and>
    agrees ids st' u' v' \<and> vi_events v' = vi_events v"
proof (cases ev)
  case ResponseStarted
  have "ids (up_made u) \<notin> ids ` {..<up_made u}" using assms(3) by (auto simp: inj_def)
  with ResponseStarted assms(1,2) show ?thesis
    by (auto simp: agrees_def lessThan_Suc split: if_splits)
next
  case (ResponseFailed x)
  with assms(1,2) show ?thesis by (auto simp: agrees_def up_discard_def split: if_splits)
next
  case (ToolStarted i c)
  with assms(1,2) position_call [OF assms(1)] show ?thesis by (fastforce split: if_splits)
next
  case (ToolOutput i t)
  with assms(1,2) position_call [OF assms(1)] show ?thesis by (fastforce split: if_splits)
next
  case (ToolFinished i r d dur)
  with assms(1,2) position_call [OF assms(1)] show ?thesis by (fastforce split: if_splits)
qed (use assms(1,2) in \<open>auto simp: agrees_def split: if_splits\<close>)

lemma commit_agrees:
  assumes "agrees ids st u v" "log_step (Inr c) st = Some st'" "n \<notin> set (map se_number (vi_events v))"
    and "up_committed n c ci u = (out, u')"
  shows "\<exists>v'. view_updates out v = Some v' \<and> agrees ids st' u' v' \<and>
    vi_events v' = vi_events v @ [\<lparr>se_number = n, se_event = CommitEvent c ci\<rparr>]"
proof -
  let ?e = "\<lparr>se_number = n, se_event = CommitEvent c ci\<rparr>"
  let ?v = "v\<lparr>vi_events := vi_events v @ [?e], vi_draft := None\<rparr>"
  have none: "find (\<lambda>e. se_number e = n) (vi_events v) = None" using assms(3) by (auto simp: find_None_iff)
  have vw: "view_updates out v = Some ?v"
    using assms(1,3,4) by (cases "up_draft u") (auto simp: up_committed_def agrees_def)
  have "agrees ids st' u' ?v"
  proof (cases "calls_in (commit_blocks c) = []")
    case True
    then show ?thesis using assms(1,2,4) none
      by (fastforce simp: agrees_def up_committed_def list_ex_calls find_append split: if_splits option.splits)
  next
    case False
    then show ?thesis using assms(1,2,4) none
      by (auto simp: agrees_def up_committed_def list_ex_calls find_append split: if_splits)
  qed
  with vw show ?thesis by auto
qed

definition log_commits :: "(turn_event + commit) list \<Rightarrow> commit list" where
  "log_commits log = filter_map (\<lambda>x. case x of Inl _ \<Rightarrow> None | Inr c \<Rightarrow> Some c) log"

definition saved_events :: "commit list \<Rightarrow> (event_number \<times> consumed_input list) list \<Rightarrow> stored_event list" where
  "saved_events cs saved = map2 (\<lambda>c (n, ci). \<lparr>se_number = n, se_event = CommitEvent c ci\<rparr>) cs saved"

lemma publish_agrees:
  "log_run log (Some st) = Some st' \<Longrightarrow> agrees ids st u v \<Longrightarrow> inj ids \<Longrightarrow>
     length saved = length (log_commits log) \<Longrightarrow> distinct (map se_number (vi_events v) @ map fst saved) \<Longrightarrow>
     \<exists>us v'. publish ids json log saved u = Some us \<and> view_updates us v = Some v' \<and> vi_draft v' = None \<and>
       vi_events v' = vi_events v @ saved_events (log_commits log) saved \<and> vi_unconfirmed v' = (\<not> lg_ended st')"
proof (induction ids json log saved u arbitrary: st v rule: publish.induct)
  case (1 ids json saved u)
  then show ?case
    by (cases "up_draft u") (auto simp: up_drop_def up_discard_def agrees_def saved_events_def log_commits_def)
next
  case (2 ids json ev log saved u)
  obtain st1 where st1: "log_step (Inl ev) st = Some st1" "log_run log (Some st1) = Some st'"
    using 2(2) by (cases "log_step (Inl ev) st") auto
  obtain out u1 v1 where s: "up_event ids json ev u = Some (out, u1)" "view_updates out v = Some v1"
    "agrees ids st1 u1 v1" "vi_events v1 = vi_events v"
    using event_agrees [OF 2(3) st1(1) 2(4)] by blast
  have c: "log_commits (Inl ev # log) = log_commits log" by (simp add: log_commits_def)
  from 2(1) [OF s(1) refl st1(2) s(3) 2(4)] 2(5,6) s(4) c obtain us v' where
    "publish ids json log saved u1 = Some us" "view_updates us v1 = Some v'" "vi_draft v' = None"
    "vi_events v' = vi_events v1 @ saved_events (log_commits log) saved" "vi_unconfirmed v' = (\<not> lg_ended st')"
    by auto
  then show ?case using s c by (auto simp: view_updates_append)
next
  case (3 ids json c log u)
  then show ?case by (simp add: log_commits_def)
next
  case (4 ids json c log n consumed saved u)
  obtain st1 where st1: "log_step (Inr c) st = Some st1" "log_run log (Some st1) = Some st'"
    using 4(2) by (cases "log_step (Inr c) st") auto
  obtain out u1 where o: "up_committed n c consumed u = (out, u1)" by fastforce
  have c: "log_commits (Inr c # log) = c # log_commits log" by (simp add: log_commits_def)
  obtain v1 where v1: "view_updates out v = Some v1" "agrees ids st1 u1 v1"
    "vi_events v1 = vi_events v @ [\<lparr>se_number = n, se_event = CommitEvent c consumed\<rparr>]"
    using commit_agrees [OF 4(3) st1(1) _ o] 4(6) by auto
  from 4(1) [OF o [symmetric] refl st1(2) v1(2) 4(4)] 4(5,6) v1(3) c obtain us v' where
    "publish ids json log saved u1 = Some us" "view_updates us v1 = Some v'" "vi_draft v' = None"
    "vi_events v' = vi_events v1 @ saved_events (log_commits log) saved" "vi_unconfirmed v' = (\<not> lg_ended st')"
    by auto
  then show ?case using o v1 c by (auto simp: view_updates_append saved_events_def)
qed

end
