(* ===== verification/Sse.thy ===== *)
theory Sse
  imports Ai_Types
begin

text \<open>
  The parser of server-sent events, \<open>crates/ai/src/stream/sse.rs\<close>. Bytes are characters, as in a string.
  The part of the chunk that is not consumed is \<open>sx_rest\<close>, so a line within the chunk is its bytes. An error
  (\<open>TooLarge\<close>) ends the parser, so it has no next state.

  The theory proves that the loop ends and that the payloads do not depend on how the body is cut into
  chunks: they are those of a reader that takes one byte at a time.
\<close>

section \<open>The parser\<close>

datatype sse_step = StepPayload | StepNeedMore | StepEnd

datatype sse_line = LineInChunk string | LineCopied | LineNeedMore | LineEnd

record sse =
  sx_max_total :: nat
  sx_max_event :: nat
  sx_line :: string
  sx_data :: string
  sx_data_seen :: bool
  sx_total :: nat
  sx_at_start :: bool
  sx_saw_cr :: bool
  sx_cut :: bool
  sx_rest :: string

definition new_sse :: "response_limits \<Rightarrow> sse" where
  "new_sse limits =
     \<lparr>sx_max_total = max_response_bytes limits, sx_max_event = max_event_bytes limits, sx_line = [], sx_data = [],
      sx_data_seen = False, sx_total = 0, sx_at_start = True, sx_saw_cr = False, sx_cut = False, sx_rest = []\<rparr>"

definition sse_feed :: "string \<Rightarrow> sse \<Rightarrow> sse" where
  "sse_feed chunk s = s\<lparr>sx_rest := chunk\<rparr>"

definition take_payload :: "sse \<Rightarrow> string \<times> sse" where
  "take_payload s = (sx_data s, s\<lparr>sx_data_seen := False, sx_data := []\<rparr>)"

definition lf :: char where "lf = CHR 0x0A"
definition cr :: char where "cr = CHR 0x0D"

definition is_break :: "char \<Rightarrow> bool" where
  "is_break c = (c = lf \<or> c = cr)"

definition consume :: "nat \<Rightarrow> sse \<Rightarrow> unit + sse" where
  "consume n s =
     (if n > sx_max_total s - sx_total s then Inl ()
      else Inr (s\<lparr>sx_total := sx_total s + n, sx_rest := drop n (sx_rest s)\<rparr>))"

definition break_at :: "string \<Rightarrow> nat" where
  "break_at rest = (case position is_break rest of None \<Rightarrow> length rest | Some i \<Rightarrow> i)"

lemma break_at_le: "break_at rest \<le> length rest"
  by (auto simp: break_at_def dest!: position_Some split: option.split)

lemma consume_Inr: "consume n s = Inr s' \<longleftrightarrow>
    n \<le> sx_max_total s - sx_total s \<and> s' = s\<lparr>sx_total := sx_total s + n, sx_rest := drop n (sx_rest s)\<rparr>"
  by (auto simp: consume_def)

function read_line :: "bool \<Rightarrow> sse \<Rightarrow> unit + sse_line \<times> sse" where
  "read_line ended s =
     (let rest = sx_rest s in
      if rest = [] then
        Inr (if \<not> ended then LineNeedMore else if sx_line s = [] then LineEnd else LineCopied, s)
      else if sx_saw_cr s \<and> hd rest = lf then
        (case consume 1 (s\<lparr>sx_saw_cr := False\<rparr>) of Inl e \<Rightarrow> Inl e | Inr s1 \<Rightarrow> read_line ended s1)
      else
        let s0 = s\<lparr>sx_saw_cr := False\<rparr>; n = break_at rest in
        if n > sx_max_event s - length (sx_line s) then Inl ()
        else if n = length rest then
          (case consume n (s0\<lparr>sx_line := sx_line s @ rest\<rparr>) of Inl e \<Rightarrow> Inl e | Inr s1 \<Rightarrow> read_line ended s1)
        else
          (case consume (n + 1) (s0\<lparr>sx_saw_cr := (rest ! n = cr)\<rparr>) of
             Inl e \<Rightarrow> Inl e
           | Inr s1 \<Rightarrow>
               if sx_line s = [] then Inr (LineInChunk (take n rest), s1)
               else Inr (LineCopied, s1\<lparr>sx_line := sx_line s @ take n rest\<rparr>)))"
  by pat_completeness auto
termination
  by (relation "measure (\<lambda>(ended, s). length (sx_rest s))") (auto simp: consume_Inr simp flip: length_greater_0_conv)

declare read_line.simps [simp del]

definition bom :: string where
  "bom = map char_of [239 :: nat, 187, 191]"

text \<open>The field of a line and its value.\<close>

definition sse_field :: "string \<Rightarrow> string \<times> string" where
  "sse_field line =
     (case position (\<lambda>c. c = CHR '':'') line of
        Some colon \<Rightarrow> (take colon line, drop (colon + 1) line)
      | None \<Rightarrow> (line, []))"

definition strip_or_keep :: "string \<Rightarrow> string \<Rightarrow> string" where
  "strip_or_keep p t = (case strip_prefix p t of Some rest \<Rightarrow> rest | None \<Rightarrow> t)"

text \<open>What \<open>next\<close> makes of one line: whether a payload is ready.\<close>

definition sse_take_line :: "string \<Rightarrow> sse \<Rightarrow> unit + bool \<times> sse" where
  "sse_take_line full s =
     (let line = (if sx_at_start s then strip_or_keep bom full else full);
          s1 = s\<lparr>sx_at_start := False\<rparr>
      in if line = [] then Inr (sx_data_seen s, s1)
         else if hd line = CHR '':'' \<or> fst (sse_field line) \<noteq> ''data'' then Inr (False, s1)
         else
           let v = strip_or_keep '' '' (snd (sse_field line));
               separator = (if sx_data_seen s then [lf] else [])
           in if length separator + length v > sx_max_event s - length (sx_data s) then Inl ()
              else Inr (False, s1\<lparr>sx_data := sx_data s @ separator @ v, sx_data_seen := True\<rparr>))"

text \<open>What is left to read, as the loops see it: a byte weighs more than a line, and a line more than its data.\<close>

definition sse_left :: "sse \<Rightarrow> nat" where
  "sse_left s =
     3 * length (sx_rest s) + (if sx_line s = [] then 0 else 2) + (if sx_data_seen s then 1 else 0)"

lemma read_line_left:
  "read_line ended s = Inr (l, s') \<Longrightarrow>
     sx_data_seen s' = sx_data_seen s \<and> sx_data s' = sx_data s \<and> sx_at_start s' = sx_at_start s \<and>
     sx_max_event s' = sx_max_event s \<and>
     (case l of
        LineInChunk _ \<Rightarrow> sx_line s' = [] \<and> sse_left s' + 2 \<le> sse_left s
      | LineCopied \<Rightarrow> sx_line s' \<noteq> [] \<and> sse_left s' \<le> sse_left s
      | LineNeedMore \<Rightarrow> sx_rest s' = [] \<and> \<not> ended \<and> sse_left s' \<le> sse_left s
      | LineEnd \<Rightarrow> sx_rest s' = [] \<and> sx_line s' = [] \<and> ended \<and> sse_left s' \<le> sse_left s)"
proof (induction ended s arbitrary: l s' rule: read_line.induct)
  case (1 ended s)
  show ?case
  proof (cases "sx_rest s = []")
    case True
    then show ?thesis using 1(3) by (subst (asm) read_line.simps) (auto simp: Let_def split: if_splits)
  next
    case False
    then obtain c cs where rest: "sx_rest s = c # cs" by (cases "sx_rest s") auto
    consider (skip) "sx_saw_cr s" "hd (sx_rest s) = lf"
      | (whole) "\<not> (sx_saw_cr s \<and> hd (sx_rest s) = lf)" "break_at (sx_rest s) = length (sx_rest s)"
      | (line) "\<not> (sx_saw_cr s \<and> hd (sx_rest s) = lf)" "break_at (sx_rest s) \<noteq> length (sx_rest s)" by blast
    then show ?thesis
    proof cases
      case skip
      then obtain s1 where s1: "consume 1 (s\<lparr>sx_saw_cr := False\<rparr>) = Inr s1" "read_line ended s1 = Inr (l, s')"
        using 1(3) False by (subst (asm) read_line.simps) (auto simp: Let_def split: sum.splits)
      have "sse_left s1 \<le> sse_left s" using s1(1) rest by (auto simp: consume_Inr sse_left_def)
      then show ?thesis using 1(1) [OF refl False _ s1] skip s1(1)
        by (auto simp: consume_Inr split: sse_line.splits)
    next
      case whole
      then obtain s1 where s1: "consume (break_at (sx_rest s)) (s\<lparr>sx_saw_cr := False, sx_line := sx_line s @ sx_rest s\<rparr>) = Inr s1"
        "read_line ended s1 = Inr (l, s')" "\<not> sx_max_event s - length (sx_line s) < break_at (sx_rest s)"
        using 1(3) False by (subst (asm) read_line.simps) (auto simp: Let_def split: sum.splits if_splits)
      have "sse_left s1 \<le> sse_left s" using s1(1) rest whole(2) by (auto simp: consume_Inr sse_left_def)
      then show ?thesis using 1(2) [OF refl False whole(1) refl refl s1(3) whole(2) s1(1,2)] s1(1)
        by (auto simp: consume_Inr split: sse_line.splits)
    next
      case line
      then have lt: "break_at (sx_rest s) < length (sx_rest s)" using break_at_le [of "sx_rest s"] by simp
      then show ?thesis using 1(3) False line
        by (subst (asm) read_line.simps)
          (auto simp: Let_def consume_Inr sse_left_def split: sum.splits if_splits)
    qed
  qed
qed

lemma take_line_left:
  "sse_take_line l s = Inr (p, s') \<Longrightarrow>
     sx_rest s' = sx_rest s \<and> sx_line s' = sx_line s \<and> sse_left s' \<le> sse_left s + 1 \<and> (p \<longrightarrow> sx_data_seen s')"
  unfolding sse_take_line_def Let_def by (auto simp: sse_left_def simp del: fst_conv snd_conv split: if_split_asm)

lemma in_chunk_less:
  "read_line ended s = Inr (LineInChunk l, s1) \<Longrightarrow> sse_take_line l s1 = Inr (p, s2) \<Longrightarrow> sse_left s2 < sse_left s"
  using read_line_left [of ended s "LineInChunk l" s1] take_line_left [of l s1 p s2] by simp

lemma copied_less:
  assumes "read_line ended s = Inr (LineCopied, s1)" "sse_take_line (sx_line s1) s1 = Inr (p, s2)"
  shows "sse_left (s2\<lparr>sx_line := []\<rparr>) < sse_left s"
proof -
  have "sse_left (s2\<lparr>sx_line := []\<rparr>) + 2 = sse_left s2"
    using read_line_left [OF assms(1)] take_line_left [OF assms(2)] by (simp add: sse_left_def)
  then show ?thesis using read_line_left [OF assms(1)] take_line_left [OF assms(2)] by simp
qed

function sse_next :: "bool \<Rightarrow> sse \<Rightarrow> unit + sse_step \<times> sse" where
  "sse_next ended s =
     (case read_line ended s of
        Inl e \<Rightarrow> Inl e
      | Inr (LineNeedMore, s1) \<Rightarrow> Inr (StepNeedMore, s1)
      | Inr (LineEnd, s1) \<Rightarrow>
          Inr (if sx_data_seen s1 then StepPayload else StepEnd, s1\<lparr>sx_cut := sx_data_seen s1\<rparr>)
      | Inr (LineInChunk l, s1) \<Rightarrow>
          (case sse_take_line l s1 of
             Inl e \<Rightarrow> Inl e
           | Inr (payload, s2) \<Rightarrow> if payload then Inr (StepPayload, s2) else sse_next ended s2)
      | Inr (LineCopied, s1) \<Rightarrow>
          (case sse_take_line (sx_line s1) s1 of
             Inl e \<Rightarrow> Inl e
           | Inr (payload, s2) \<Rightarrow>
               let s3 = s2\<lparr>sx_line := []\<rparr> in
               if payload then Inr (StepPayload, s3) else sse_next ended s3))"
  by pat_completeness auto
termination
  by (relation "measure (\<lambda>(ended, s). sse_left s)") (auto intro: in_chunk_less copied_less)

declare sse_next.simps [simp del]

lemma sse_next_left:
  "sse_next ended s = Inr (st, s') \<Longrightarrow>
     sse_left s' \<le> sse_left s \<and>
     (case st of StepPayload \<Rightarrow> sx_data_seen s' | StepNeedMore \<Rightarrow> \<not> ended \<and> sx_rest s' = [] | StepEnd \<Rightarrow> True)"
proof (induction ended s rule: sse_next.induct)
  case (1 ended s)
  obtain l s1 where r: "read_line ended s = Inr (l, s1)"
    using 1(3) by (subst (asm) sse_next.simps) (auto split: sum.splits)
  note le = read_line_left [OF r]
  show ?case
  proof (cases l)
    case (LineInChunk t)
    then obtain p s2 where t: "sse_take_line t s1 = Inr (p, s2)"
      using 1(3) r by (subst (asm) sse_next.simps) (auto split: sum.splits)
    have "if p then st = StepPayload \<and> s' = s2 else sse_next ended s2 = Inr (st, s')"
      using 1(3) r t LineInChunk by (subst (asm) sse_next.simps) (auto split: if_splits)
    then show ?thesis
      using 1(1) [OF r refl _ t refl] le take_line_left [OF t] LineInChunk by (auto split: if_splits)
  next
    case LineCopied
    then obtain p s2 where t: "sse_take_line (sx_line s1) s1 = Inr (p, s2)"
      using 1(3) r by (subst (asm) sse_next.simps) (auto split: sum.splits)
    let ?s3 = "s2\<lparr>sx_line := []\<rparr>"
    have "sse_left ?s3 + 2 = sse_left s2" using take_line_left [OF t] le LineCopied by (simp add: sse_left_def)
    moreover have "if p then st = StepPayload \<and> s' = ?s3 else sse_next ended ?s3 = Inr (st, s')"
      using 1(3) r t LineCopied by (subst (asm) sse_next.simps) (auto split: if_splits)
    ultimately show ?thesis
      using 1(2) [OF r refl _ t refl refl] le take_line_left [OF t] LineCopied by (auto split: if_splits)
  next
    case LineNeedMore
    then show ?thesis using 1(3) r le by (subst (asm) sse_next.simps) auto
  next
    case LineEnd
    then show ?thesis using 1(3) r le
      by (subst (asm) sse_next.simps) (auto simp: sse_left_def split: if_splits)
  qed
qed

text \<open>
  The loop of its user (\<open>Stream::next_payload\<close>) over a body: each payload is taken before the next call,
  a chunk is fed when the parser asks for more, and the end is told once no chunk is left. The result
  is the payloads in order, and whether a bound stopped the parser.
\<close>

lemma take_payload_left: "sx_data_seen s \<Longrightarrow> (p, s') = take_payload s \<Longrightarrow> sse_left s' < sse_left s"
  by (simp add: take_payload_def sse_left_def)

function sse_frames :: "sse \<Rightarrow> string list \<Rightarrow> bool \<Rightarrow> string list \<times> (unit + unit)" where
  "sse_frames s chunks ended =
     (case sse_next ended s of
        Inl e \<Rightarrow> ([], Inl e)
      | Inr (StepEnd, s1) \<Rightarrow> ([], Inr ())
      | Inr (StepPayload, s1) \<Rightarrow>
          (let (p, s2) = take_payload s1; (ps, r) = sse_frames s2 chunks ended in (p # ps, r))
      | Inr (StepNeedMore, s1) \<Rightarrow>
          (case chunks of
             [] \<Rightarrow> sse_frames s1 [] True
           | c # cs \<Rightarrow> sse_frames (sse_feed c s1) cs ended))"
  by pat_completeness auto
termination
  by (relation "measures [\<lambda>(s, chunks, ended). length chunks + (if ended then 0 else 1), \<lambda>(s, chunks, ended). sse_left s]")
    (auto dest!: sse_next_left take_payload_left [rotated])

declare sse_frames.simps [simp del]

section \<open>A reader of one byte at a time\<close>

text \<open>What follows a line: the rest \<open>k\<close>, after the payload that the line completes.\<close>

definition line_then ::
  "string \<Rightarrow> sse \<Rightarrow> (sse \<Rightarrow> string list \<times> (unit + 'r)) \<Rightarrow> string list \<times> (unit + 'r)" where
  "line_then l s k =
     (case sse_take_line l s of
        Inl e \<Rightarrow> ([], Inl e)
      | Inr (p, s1) \<Rightarrow>
          if p then (let (d, s2) = take_payload s1; (ps, r) = k s2 in (d # ps, r)) else k s1)"

fun sse_bytes :: "string \<Rightarrow> sse \<Rightarrow> string list \<times> (unit + sse)" where
  "sse_bytes [] s = ([], Inr s)"
| "sse_bytes (c # cs) s =
     (if sx_total s + 1 > sx_max_total s then ([], Inl ())
      else if sx_saw_cr s \<and> c = lf then sse_bytes cs (s\<lparr>sx_saw_cr := False, sx_total := sx_total s + 1\<rparr>)
      else if is_break c then
        line_then (sx_line s) (s\<lparr>sx_saw_cr := (c = cr), sx_line := [], sx_total := sx_total s + 1\<rparr>) (sse_bytes cs)
      else if length (sx_line s) + 1 > sx_max_event s then ([], Inl ())
      else sse_bytes cs (s\<lparr>sx_saw_cr := False, sx_line := sx_line s @ [c], sx_total := sx_total s + 1\<rparr>))"

text \<open>The end of the body: a last line without its end counts, and so does an event without a blank line.\<close>

definition sse_flush :: "sse \<Rightarrow> string list \<times> (unit + unit)" where
  "sse_flush s = ((if sx_data_seen s then [sx_data s] else []), Inr ())"

definition sse_finish :: "sse \<Rightarrow> string list \<times> (unit + unit)" where
  "sse_finish s = (if sx_line s = [] then sse_flush s else line_then (sx_line s) (s\<lparr>sx_line := []\<rparr>) sse_flush)"

definition sse_read :: "string \<Rightarrow> sse \<Rightarrow> string list \<times> (unit + unit)" where
  "sse_read bytes s =
     (case sse_bytes bytes s of
        (ps, Inl e) \<Rightarrow> (ps, Inl e)
      | (ps, Inr s1) \<Rightarrow> (let (qs, r) = sse_finish s1 in (ps @ qs, r)))"

section \<open>The parser reads the same\<close>

definition sse_ok :: "sse \<Rightarrow> bool" where
  "sse_ok s \<longleftrightarrow> length (sx_line s) \<le> sx_max_event s \<and> sx_total s \<le> sx_max_total s"

definition bare :: "sse \<Rightarrow> sse" where
  "bare s = s\<lparr>sx_rest := []\<rparr>"

lemma bare_fields [simp]:
  "sx_line (bare s) = sx_line s" "sx_total (bare s) = sx_total s" "sx_data_seen (bare s) = sx_data_seen s"
  "sx_max_event (bare s) = sx_max_event s" "sx_max_total (bare s) = sx_max_total s" "sx_data (bare s) = sx_data s"
  "sx_saw_cr (bare s) = sx_saw_cr s" "sx_at_start (bare s) = sx_at_start s"
  by (simp_all add: bare_def)

lemma take_line_bare: "sse_take_line l (bare s) = map_sum id (map_prod id bare) (sse_take_line l s)"
  unfolding sse_take_line_def Let_def by (simp add: bare_def)

lemma take_line_ok:
  "sse_take_line l s = Inr (p, s') \<Longrightarrow> sse_ok s \<longleftrightarrow> sse_ok s'"
  unfolding sse_take_line_def Let_def by (auto simp: sse_ok_def split: if_split_asm)

lemma bytes_plain:
  "\<forall>c\<in>set xs. \<not> is_break c \<Longrightarrow> \<not> sx_saw_cr s \<Longrightarrow> sse_ok s \<Longrightarrow>
     sse_bytes (xs @ ys) s =
       (if length xs > sx_max_event s - length (sx_line s) \<or> length xs > sx_max_total s - sx_total s then ([], Inl ())
        else sse_bytes ys (s\<lparr>sx_line := sx_line s @ xs, sx_total := sx_total s + length xs\<rparr>))"
proof (induction xs arbitrary: s)
  case (Cons x xs)
  let ?s1 = "s\<lparr>sx_saw_cr := False, sx_line := sx_line s @ [x], sx_total := sx_total s + 1\<rparr>"
  show ?case
  proof (cases "sx_total s + 1 > sx_max_total s \<or> length (sx_line s) + 1 > sx_max_event s")
    case True
    then show ?thesis using Cons.prems by (auto simp: sse_ok_def)
  next
    case False
    then have ok: "sse_ok ?s1" by (simp add: sse_ok_def)
    have "s\<lparr>sx_saw_cr := False\<rparr> = s" using Cons.prems(2) by (cases s) simp
    then have r: "?s1\<lparr>sx_line := sx_line ?s1 @ xs, sx_total := sx_total ?s1 + length xs\<rparr> =
        s\<lparr>sx_line := sx_line s @ x # xs, sx_total := sx_total s + length (x # xs)\<rparr>"
      by (cases s) simp
    have "sse_bytes ((x # xs) @ ys) s = sse_bytes (xs @ ys) ?s1" using False Cons.prems by simp
    also have "\<dots> = (if length xs > sx_max_event ?s1 - length (sx_line ?s1) \<or> length xs > sx_max_total ?s1 - sx_total ?s1
        then ([], Inl ()) else sse_bytes ys (?s1\<lparr>sx_line := sx_line ?s1 @ xs, sx_total := sx_total ?s1 + length xs\<rparr>))"
      by (rule Cons.IH) (use Cons.prems ok in auto)
    finally show ?thesis unfolding r using False by auto
  qed
qed (simp add: sse_ok_def)

lemma bytes_saw_cr: "\<not> (sx_saw_cr s \<and> c = lf) \<Longrightarrow> sse_bytes (c # cs) s = sse_bytes (c # cs) (s\<lparr>sx_saw_cr := False\<rparr>)"
  by (cases "sx_saw_cr s") auto

lemma break_at_split:
  assumes "break_at rest < length rest"
  shows "rest = take (break_at rest) rest @ rest ! break_at rest # drop (Suc (break_at rest)) rest"
    "is_break (rest ! break_at rest)" "\<forall>c\<in>set (take (break_at rest) rest). \<not> is_break c"
proof -
  obtain i where i: "position is_break rest = Some i"
    using assms by (auto simp: break_at_def split: option.splits)
  note p = position_Some [OF i]
  show "rest = take (break_at rest) rest @ rest ! break_at rest # drop (Suc (break_at rest)) rest"
    using assms by (simp add: id_take_nth_drop)
  show "is_break (rest ! break_at rest)" using p i by (simp add: break_at_def)
  show "\<forall>c\<in>set (take (break_at rest) rest). \<not> is_break c" using p i by (auto simp: break_at_def in_set_conv_nth)
qed

lemma break_at_whole: "break_at rest = length rest \<Longrightarrow> \<forall>c\<in>set rest. \<not> is_break c"
  by (cases "position is_break rest") (auto simp: break_at_def position_None dest!: position_Some)

text \<open>What one call of \<open>read_line\<close> says of the reader.\<close>

definition line_reads :: "string \<Rightarrow> bool \<Rightarrow> sse \<Rightarrow> unit + sse_line \<times> sse \<Rightarrow> bool" where
  "line_reads later ended s r \<longleftrightarrow>
     (let now = sse_bytes (sx_rest s @ later) (bare s) in
      case r of
        Inl e \<Rightarrow> now = ([], Inl ())
      | Inr (l, s1) \<Rightarrow>
          sse_ok s1 \<and>
          (case l of
             LineNeedMore \<Rightarrow> now = sse_bytes later (bare s1)
           | LineEnd \<Rightarrow> later = [] \<longrightarrow> now = ([], Inr (bare s1))
           | LineInChunk t \<Rightarrow> now = line_then t (bare s1) (sse_bytes (sx_rest s1 @ later))
           | LineCopied \<Rightarrow>
               now = line_then (sx_line s1) (bare (s1\<lparr>sx_line := []\<rparr>)) (sse_bytes (sx_rest s1 @ later)) \<or>
               (ended \<and> sx_rest s1 = [] \<and> (later = [] \<longrightarrow> now = ([], Inr (bare s1))))))"

lemma read_line_reads: "sse_ok s \<Longrightarrow> line_reads later ended s (read_line ended s)"
proof (induction ended s rule: read_line.induct)
  case (1 ended s)
  let ?n = "break_at (sx_rest s)" and ?s0 = "s\<lparr>sx_saw_cr := False\<rparr>"
  show ?case
  proof (cases "sx_rest s = []")
    case True
    then show ?thesis using 1(3) by (subst read_line.simps) (simp add: line_reads_def)
  next
    case False
    then obtain c cs where rest: "sx_rest s = c # cs" by (cases "sx_rest s") auto
    consider (skip) "sx_saw_cr s" "c = lf"
      | (whole) "\<not> (sx_saw_cr s \<and> c = lf)" "?n = length (sx_rest s)"
      | (line) "\<not> (sx_saw_cr s \<and> c = lf)" "?n < length (sx_rest s)"
      using break_at_le [of "sx_rest s"] by fastforce
    then show ?thesis
    proof cases
      case skip
      show ?thesis
      proof (cases "consume 1 ?s0")
        case (Inl e)
        then have "read_line ended s = Inl e" using rest skip by (subst read_line.simps) (simp add: Let_def)
        moreover have "sx_total s + 1 > sx_max_total s" using Inl by (auto simp: consume_def split: if_splits)
        ultimately show ?thesis using rest by (simp add: line_reads_def)
      next
        case (Inr s1)
        then have s1: "s1 = s\<lparr>sx_saw_cr := False, sx_total := sx_total s + 1, sx_rest := cs\<rparr>" "sx_total s + 1 \<le> sx_max_total s"
          using rest 1(3) by (auto simp: consume_Inr sse_ok_def)
        then have "sse_bytes (sx_rest s @ later) (bare s) = sse_bytes (sx_rest s1 @ later) (bare s1)"
          using rest skip by (cases s) (simp add: bare_def)
        moreover have "read_line ended s = read_line ended s1"
          using rest skip Inr by (subst read_line.simps) (simp add: Let_def)
        moreover have "sse_ok s1" using 1(3) s1 by (simp add: sse_ok_def)
        ultimately show ?thesis using 1(1) [OF refl False _ Inr] skip rest by (simp add: line_reads_def)
      qed
    next
      case whole
      note plain = bytes_plain [OF break_at_whole [OF whole(2)], of "bare ?s0" later]
      have sb: "sse_bytes (sx_rest s @ later) (bare s) = sse_bytes (sx_rest s @ later) (bare ?s0)"
        using bytes_saw_cr [of "bare s" c "cs @ later"] whole(1) rest by (simp add: bare_def)
      have ok: "sse_ok (bare ?s0)" using 1(3) by (simp add: sse_ok_def)
      show ?thesis
      proof (cases "?n > sx_max_event s - length (sx_line s) \<or> ?n > sx_max_total s - sx_total s")
        case True
        then have "read_line ended s = Inl ()"
          using whole rest by (subst read_line.simps) (auto simp: Let_def consume_def)
        then show ?thesis using True plain ok sb whole(2) by (simp add: line_reads_def)
      next
        case F: False
        then obtain s1 where s1: "consume ?n (?s0\<lparr>sx_line := sx_line s @ sx_rest s\<rparr>) = Inr s1"
          by (simp add: consume_def)
        then have e: "s1 = s\<lparr>sx_saw_cr := False, sx_line := sx_line s @ sx_rest s, sx_total := sx_total s + ?n, sx_rest := []\<rparr>"
          using whole(2) by (simp add: consume_Inr)
        have "sse_bytes (sx_rest s @ later) (bare s) = sse_bytes later (bare s1)"
          using plain ok sb F whole(2) by (cases s) (simp add: e bare_def)
        moreover have "read_line ended s = read_line ended s1"
          using rest whole F s1 by (subst read_line.simps) (auto simp: Let_def)
        moreover have "sse_ok s1" using 1(3) F whole(2) by (auto simp: e sse_ok_def)
        ultimately show ?thesis
          using 1(2) [OF refl False _ refl refl _ whole(2) s1] F whole rest by (simp add: line_reads_def e)
      qed
    next
      case line
      let ?l = "take ?n (sx_rest s)" and ?d = "drop (Suc ?n) (sx_rest s)"
      note sp = break_at_split [OF line(2)]
      have ne: "?n \<noteq> length (sx_rest s)" using line(2) by simp
      have sb: "sse_bytes (sx_rest s @ later) (bare s) = sse_bytes (?l @ (sx_rest s ! ?n # ?d) @ later) (bare ?s0)"
      proof -
        have "sse_bytes (sx_rest s @ later) (bare s) = sse_bytes (sx_rest s @ later) (bare ?s0)"
          using bytes_saw_cr [of "bare s" c "cs @ later"] line(1) rest by (simp add: bare_def)
        then show ?thesis using sp(1) by (metis append.assoc)
      qed
      have ok: "sse_ok (bare ?s0)" using 1(3) by (simp add: sse_ok_def)
      have len: "length ?l = ?n" using line(2) by simp
      note plain = bytes_plain [OF sp(3), of "bare ?s0" "(sx_rest s ! ?n # ?d) @ later"]
      show ?thesis
      proof (cases "?n > sx_max_event s - length (sx_line s) \<or> Suc ?n > sx_max_total s - sx_total s")
        case True
        then have "read_line ended s = Inl ()"
          using line rest ne by (subst read_line.simps) (auto simp: Let_def consume_def)
        moreover have "sse_bytes (sx_rest s @ later) (bare s) = ([], Inl ())"
          using True plain ok sb len 1(3) sp(2) by (auto simp: sse_ok_def)
        ultimately show ?thesis by (simp add: line_reads_def)
      next
        case F: False
        let ?s1 = "s\<lparr>sx_saw_cr := (sx_rest s ! ?n = cr), sx_total := sx_total s + Suc ?n, sx_rest := ?d\<rparr>"
        have c: "consume (?n + 1) (?s0\<lparr>sx_saw_cr := (sx_rest s ! ?n = cr)\<rparr>) = Inr ?s1"
          using F by (simp add: consume_def)
        have rl: "read_line ended s = (if sx_line s = [] then Inr (LineInChunk ?l, ?s1)
            else Inr (LineCopied, ?s1\<lparr>sx_line := sx_line s @ ?l\<rparr>))"
          using line rest ne F c by (subst read_line.simps) (auto simp: Let_def)
        let ?u = "bare ?s0\<lparr>sx_line := sx_line s @ ?l, sx_total := sx_total s + ?n\<rparr>"
        have "sse_bytes (sx_rest s @ later) (bare s) = sse_bytes (sx_rest s ! ?n # ?d @ later) ?u"
          using plain ok sb len F by simp
        also have "\<dots> = line_then (sx_line ?u)
            (?u\<lparr>sx_saw_cr := (sx_rest s ! ?n = cr), sx_line := [], sx_total := sx_total s + ?n + 1\<rparr>) (sse_bytes (?d @ later))"
        proof -
          have "\<not> sx_total ?u + 1 > sx_max_total ?u" "\<not> (sx_saw_cr ?u \<and> sx_rest s ! ?n = lf)"
            using F 1(3) by (auto simp: sse_ok_def)
          then show ?thesis using sp(2) by simp
        qed
        also have "?u\<lparr>sx_saw_cr := (sx_rest s ! ?n = cr), sx_line := [], sx_total := sx_total s + ?n + 1\<rparr> = bare (?s1\<lparr>sx_line := []\<rparr>)"
          by (cases s) (simp add: bare_def)
        finally have "sse_bytes (sx_rest s @ later) (bare s) =
            line_then (sx_line s @ ?l) (bare (?s1\<lparr>sx_line := []\<rparr>)) (sse_bytes (?d @ later))" by simp
        moreover have "sse_ok ?s1" "sse_ok (?s1\<lparr>sx_line := sx_line s @ ?l\<rparr>)"
          using 1(3) F len by (auto simp: sse_ok_def)
        moreover have "bare (?s1\<lparr>sx_line := []\<rparr>) = bare ?s1" if "sx_line s = []" using that by (cases s) (simp add: bare_def)
        ultimately show ?thesis unfolding rl by (cases "sx_line s = []") (simp_all add: line_reads_def)
      qed
    qed
  qed
qed

lemma take_line_line:
  "sse_take_line l (s\<lparr>sx_line := []\<rparr>) = map_sum id (map_prod id (\<lambda>s. s\<lparr>sx_line := []\<rparr>)) (sse_take_line l s)"
  unfolding sse_take_line_def Let_def by simp

lemma read_line_then:
  "sse_bytes (b @ c) s = line_then l s1 (sse_bytes b1) \<Longrightarrow> sse_read (b @ c) s = line_then l s1 (sse_read b1)"
  unfolding sse_read_def line_then_def by (simp add: take_payload_def split: sum.splits prod.splits)

lemma flush_read: "sx_line s = [] \<Longrightarrow> sse_flush s = sse_read [] s"
  by (simp add: sse_read_def sse_finish_def sse_flush_def)

lemma finish_then:
  "sx_line s \<noteq> [] \<Longrightarrow> sse_finish (bare s) = line_then (sx_line s) (bare (s\<lparr>sx_line := []\<rparr>)) (sse_read [])"
proof -
  assume ne: "sx_line s \<noteq> []"
  have "bare s\<lparr>sx_line := []\<rparr> = bare (s\<lparr>sx_line := []\<rparr>)" by (simp add: bare_def)
  then have "sse_finish (bare s) = line_then (sx_line s) (bare (s\<lparr>sx_line := []\<rparr>)) sse_flush"
    using ne by (simp add: sse_finish_def)
  also have "\<dots> = line_then (sx_line s) (bare (s\<lparr>sx_line := []\<rparr>)) (sse_read [])"
    unfolding line_then_def
    by (auto simp: flush_read take_payload_def dest!: take_line_left split: sum.splits)
  finally show ?thesis .
qed

text \<open>A call of \<open>next\<close>.\<close>

definition next_reads :: "string \<Rightarrow> sse \<Rightarrow> unit + sse_step \<times> sse \<Rightarrow> bool" where
  "next_reads later s r \<longleftrightarrow>
     (let now = sse_read (sx_rest s @ later) (bare s) in
      case r of
        Inl e \<Rightarrow> now = ([], Inl ())
      | Inr (StepNeedMore, s1) \<Rightarrow> sse_ok s1 \<and> now = sse_read later (bare s1)
      | Inr (StepEnd, s1) \<Rightarrow> now = ([], Inr ())
      | Inr (StepPayload, s1) \<Rightarrow>
          sse_ok s1 \<and>
          now = (let (d, s2) = take_payload s1; (ps, q) = sse_read (sx_rest s2 @ later) (bare s2) in (d # ps, q)))"

lemma line_next:
  assumes "sse_read (sx_rest s @ later) (bare s) = line_then l (bare s1) (sse_read (sx_rest s1 @ later))"
    and "sse_ok s1"
    and "\<And>s2. sse_take_line l s1 = Inr (False, s2) \<Longrightarrow> sse_ok s2 \<Longrightarrow> next_reads later s2 (k s2)"
  shows "next_reads later s
    (case sse_take_line l s1 of Inl e \<Rightarrow> Inl e | Inr (p, s2) \<Rightarrow> if p then Inr (StepPayload, s2) else k s2)"
proof (cases "sse_take_line l s1")
  case (Inl e)
  then show ?thesis using assms(1) by (simp add: next_reads_def line_then_def take_line_bare)
next
  case (Inr r)
  obtain p s2 where r: "r = (p, s2)" by fastforce
  have ok: "sse_ok s2" "sx_rest s2 = sx_rest s1"
    using assms(2) take_line_ok [of l s1 p s2] take_line_left [of l s1 p s2] Inr r by auto
  show ?thesis
  proof (cases p)
    case True
    have "bare (s2\<lparr>sx_data_seen := False, sx_data := []\<rparr>) = bare s2\<lparr>sx_data_seen := False, sx_data := []\<rparr>"
      by (simp add: bare_def)
    then show ?thesis using assms(1) Inr r True ok
      by (simp add: next_reads_def line_then_def take_line_bare take_payload_def)
  next
    case False
    then have "sse_read (sx_rest s @ later) (bare s) = sse_read (sx_rest s2 @ later) (bare s2)"
      using assms(1) Inr r ok by (simp add: line_then_def take_line_bare)
    then show ?thesis using assms(3) [of s2] Inr r False ok by (simp add: next_reads_def)
  qed
qed

lemma sse_next_reads: "sse_ok s \<Longrightarrow> (ended \<longrightarrow> later = []) \<Longrightarrow> next_reads later s (sse_next ended s)"
proof (induction ended s rule: sse_next.induct)
  case (1 ended s)
  note lr = read_line_reads [OF 1(3), of later ended]
  show ?case
  proof (cases "read_line ended s")
    case (Inl e)
    then show ?thesis using lr by (subst sse_next.simps) (simp add: next_reads_def line_reads_def sse_read_def)
  next
    case (Inr lp)
    obtain l s1 where lp: "lp = (l, s1)" by fastforce
    note r = Inr [unfolded lp] and left = read_line_left [OF Inr [unfolded lp]]
    note lr1 = lr [unfolded r line_reads_def Let_def]
    show ?thesis
    proof (cases l)
      case (LineInChunk t)
      have "sse_read (sx_rest s @ later) (bare s) = line_then t (bare s1) (sse_read (sx_rest s1 @ later))"
        by (rule read_line_then) (use lr1 LineInChunk in simp)
      then have "next_reads later s (case sse_take_line t s1 of Inl e \<Rightarrow> Inl e
          | Inr (p, s2) \<Rightarrow> if p then Inr (StepPayload, s2) else sse_next ended s2)"
      proof (rule line_next)
        show "sse_ok s1" using lr1 by simp
        fix s2 assume "sse_take_line t s1 = Inr (False, s2)" "sse_ok s2"
        then show "next_reads later s2 (sse_next ended s2)" using 1(1) [OF r refl LineInChunk _ refl, of False] 1(4) by simp
      qed
      then show ?thesis using r LineInChunk by (subst sse_next.simps) simp
    next
      case LineCopied
      let ?t = "sx_line s1" and ?s1 = "s1\<lparr>sx_line := []\<rparr>"
      have ne: "?t \<noteq> []" using left LineCopied by simp
      have rd: "sse_read (sx_rest s @ later) (bare s) = line_then ?t (bare ?s1) (sse_read (sx_rest ?s1 @ later))"
      proof (cases "sse_bytes (sx_rest s @ later) (bare s) = line_then ?t (bare ?s1) (sse_bytes (sx_rest s1 @ later))")
        case True
        show ?thesis using read_line_then [OF True] by simp
      next
        case False
        then have "ended" "sx_rest s1 = []" "sse_bytes (sx_rest s @ later) (bare s) = ([], Inr (bare s1))"
          using lr1 LineCopied 1(4) by auto
        then show ?thesis using 1(4) finish_then [OF ne] by (simp add: sse_read_def)
      qed
      have tl: "sse_take_line ?t ?s1 = map_sum id (map_prod id (\<lambda>s. s\<lparr>sx_line := []\<rparr>)) (sse_take_line ?t s1)"
        by (rule take_line_line)
      have "next_reads later s (case sse_take_line ?t ?s1 of Inl e \<Rightarrow> Inl e
          | Inr (p, s2) \<Rightarrow> if p then Inr (StepPayload, s2) else sse_next ended s2)"
      proof (rule line_next [OF rd])
        show "sse_ok ?s1" using lr1 LineCopied by (simp add: sse_ok_def)
        fix s2 assume a: "sse_take_line ?t ?s1 = Inr (False, s2)" "sse_ok s2"
        then obtain s3 where "sse_take_line ?t s1 = Inr (False, s3)" "s2 = s3\<lparr>sx_line := []\<rparr>"
          unfolding tl by (cases "sse_take_line ?t s1") auto
        then show "next_reads later s2 (sse_next ended s2)"
          using 1(2) [OF r refl LineCopied _ refl refl, of False] a(2) 1(4) by simp
      qed
      then show ?thesis unfolding tl using r LineCopied
        by (cases "sse_take_line ?t s1") (auto simp: sse_next.simps [of ended s] Let_def)
    next
      case LineNeedMore
      then show ?thesis using lr1 r by (subst sse_next.simps) (simp add: next_reads_def sse_read_def)
    next
      case LineEnd
      then have e: "sse_read (sx_rest s @ later) (bare s) = sse_flush (bare s1)" "later = []" "sx_rest s1 = []"
        "sx_line s1 = []" "sse_ok s1"
        using lr1 left 1(4) by (auto simp: sse_read_def sse_finish_def sse_flush_def)
      have "sse_read [] (bare (s1\<lparr>sx_cut := b, sx_data_seen := False, sx_data := []\<rparr>)) = ([], Inr ())" for b
        using e(4) by (simp add: sse_read_def sse_finish_def sse_flush_def)
      then show ?thesis using e r LineEnd
        by (subst sse_next.simps) (simp add: next_reads_def sse_flush_def take_payload_def sse_ok_def)
    qed
  qed
qed

lemma sse_frames_read:
  "sse_ok s \<Longrightarrow> (ended \<longrightarrow> chunks = []) \<Longrightarrow>
     sse_frames s chunks ended = sse_read (sx_rest s @ concat chunks) (bare s)"
proof (induction s chunks ended rule: sse_frames.induct)
  case (1 s chunks ended)
  have nr: "next_reads (concat chunks) s (sse_next ended s)" using 1(4,5) by (simp add: sse_next_reads)
  show ?case
  proof (cases "sse_next ended s")
    case (Inl e)
    then show ?thesis using nr by (subst sse_frames.simps) (simp add: next_reads_def)
  next
    case (Inr q)
    obtain st s1 where q: "q = (st, s1)" by fastforce
    note r = Inr [unfolded q]
    show ?thesis
    proof (cases st)
      case StepPayload
      let ?s2 = "snd (take_payload s1)"
      have "sse_ok s1" using nr r StepPayload by (simp add: next_reads_def)
      then have "sse_ok ?s2" by (simp add: take_payload_def sse_ok_def)
      then have "sse_frames ?s2 chunks ended = sse_read (sx_rest ?s2 @ concat chunks) (bare ?s2)"
        using 1(1) [OF r refl] StepPayload 1(5) by (simp add: take_payload_def)
      then show ?thesis using nr r StepPayload
        by (subst sse_frames.simps) (simp add: next_reads_def take_payload_def)
    next
      case StepEnd
      then show ?thesis using nr r by (subst sse_frames.simps) (simp add: next_reads_def)
    next
      case StepNeedMore
      have ok: "sse_ok s1" and rest: "sx_rest s1 = []" and ne: "\<not> ended"
        using nr r StepNeedMore sse_next_left [OF r] by (simp_all add: next_reads_def)
      show ?thesis
      proof (cases chunks)
        case Nil
        then have "sse_frames s1 [] True = sse_read [] (bare s1)" using 1(2) [OF r refl] StepNeedMore ok rest by simp
        then show ?thesis using nr r StepNeedMore Nil by (subst sse_frames.simps) (simp add: next_reads_def)
      next
        case (Cons c cs)
        have "bare (sse_feed c s1) = bare s1" "sse_ok (sse_feed c s1)"
          using ok by (simp_all add: sse_feed_def bare_def sse_ok_def)
        then have "sse_frames (sse_feed c s1) cs ended = sse_read (c @ concat cs) (bare s1)"
          using 1(3) [OF r refl] StepNeedMore Cons ne by (simp add: sse_feed_def)
        then show ?thesis using nr r StepNeedMore Cons by (subst sse_frames.simps) (simp add: next_reads_def)
      qed
    qed
  qed
qed

section \<open>The property\<close>

text \<open>
  C35: The payloads of a body, and whether the bound on a line, on an event or on the response stops it, do
  not depend on how the body is cut into chunks: \<open>Sse\<close>, driven by its user over any list of chunks
  (empty ones included), gives what a reader of one byte at a time gives on their concatenation. So a line
  within one chunk and a line carried across several are read the same, a CR LF cut in two ends one line,
  and the last line and the last event count without their ends.
\<close>

theorem sse_chunks_do_not_matter:
  "sse_frames (new_sse limits) chunks False = sse_read (concat chunks) (new_sse limits)"
  using sse_frames_read [of "new_sse limits" False chunks] by (simp add: new_sse_def sse_ok_def bare_def)

end
