(* ===== verification/Json_Writer.thy ===== *)
theory Json_Writer
  imports Json Ai_Types
begin

text \<open>
  The JSON writer of \<open>crates/ai/src/wire/json.rs\<close>, which the request serializers and two reducers use:
  where it places commas, how it escapes a string, and how it writes a parsed value. The decimal text of a
  float is the library's, so it is a parameter.

  The theory gives a reader of JSON text after RFC 8259 and proves that it reads back what the writer wrote:
  a string of any bytes, and any value without a float.
\<close>

section \<open>The escape of a string\<close>

text \<open>The table \<open>ESCAPE\<close>: 0 for none, \<open>u\<close> for a hexadecimal escape, else the letter after the backslash.\<close>

definition escape_entry :: "char \<Rightarrow> char option" where
  "escape_entry c =
     (let b = (of_char c :: nat) in
      if b = 8 then Some CHR ''b''
      else if b = 12 then Some CHR ''f''
      else if b = 10 then Some CHR ''n''
      else if b = 13 then Some CHR ''r''
      else if b = 9 then Some CHR ''t''
      else if b = 34 then Some CHR 0x22
      else if b = 92 then Some CHR 0x5C
      else if b < 32 then Some CHR ''u''
      else None)"

text \<open>The loop of \<open>escape_into\<close>, with the run of bytes between \<open>start\<close> and the current byte.\<close>

fun escape_loop :: "string \<Rightarrow> string \<Rightarrow> string" where
  "escape_loop run [] = run"
| "escape_loop run (c # cs) =
     (case escape_entry c of
        None \<Rightarrow> escape_loop (run @ [c]) cs
      | Some e \<Rightarrow>
          run @ (if e = CHR ''u'' then
                   [CHR 0x5C, CHR ''u'', CHR ''0'', CHR ''0'', hex_digit (of_char c div 16), hex_digit (of_char c mod 16)]
                 else [CHR 0x5C, e]) @ escape_loop [] cs)"

definition escape_into :: "string \<Rightarrow> string \<Rightarrow> string" where
  "escape_into out bytes = out @ escape_loop [] bytes"

section \<open>The writer\<close>

record json_writer =
  jw_out :: string
  jw_comma :: bool

definition new_writer :: "string \<Rightarrow> json_writer" where
  "new_writer out = \<lparr>jw_out = out, jw_comma = False\<rparr>"

definition jw_push :: "string \<Rightarrow> json_writer \<Rightarrow> json_writer" where
  "jw_push t w = w\<lparr>jw_out := jw_out w @ t\<rparr>"

definition value_start :: "json_writer \<Rightarrow> json_writer" where
  "value_start w = (if jw_comma w then jw_push '','' w else w)"

definition value_done :: "json_writer \<Rightarrow> json_writer" where
  "value_done w = w\<lparr>jw_comma := True\<rparr>"

definition begin_object :: "json_writer \<Rightarrow> json_writer" where
  "begin_object w = (jw_push ''{'' (value_start w))\<lparr>jw_comma := False\<rparr>"

definition end_object :: "json_writer \<Rightarrow> json_writer" where
  "end_object w = value_done (jw_push ''}'' w)"

definition begin_array :: "json_writer \<Rightarrow> json_writer" where
  "begin_array w = (jw_push ''['' (value_start w))\<lparr>jw_comma := False\<rparr>"

definition end_array :: "json_writer \<Rightarrow> json_writer" where
  "end_array w = value_done (jw_push '']'' w)"

definition jw_escape :: "string \<Rightarrow> json_writer \<Rightarrow> json_writer" where
  "jw_escape t w = w\<lparr>jw_out := escape_into (jw_out w) t\<rparr>"

definition jw_key :: "string \<Rightarrow> json_writer \<Rightarrow> json_writer" where
  "jw_key name w =
     (jw_push [CHR 0x22, CHR '':''] (jw_escape name (jw_push [CHR 0x22] (value_start w))))\<lparr>jw_comma := False\<rparr>"

definition jw_string :: "string \<Rightarrow> json_writer \<Rightarrow> json_writer" where
  "jw_string t w = value_done (jw_push [CHR 0x22] (jw_escape t (jw_push [CHR 0x22] (value_start w))))"

definition jw_literal :: "string \<Rightarrow> json_writer \<Rightarrow> json_writer" where
  "jw_literal t w = value_done (jw_push t (value_start w))"

definition jw_uint :: "nat \<Rightarrow> json_writer \<Rightarrow> json_writer" where "jw_uint n = jw_literal (show_nat n)"
definition jw_int :: "int \<Rightarrow> json_writer \<Rightarrow> json_writer" where "jw_int n = jw_literal (show_int n)"
definition jw_null :: "json_writer \<Rightarrow> json_writer" where "jw_null = jw_literal ''null''"

definition jw_boolean :: "bool \<Rightarrow> json_writer \<Rightarrow> json_writer" where
  "jw_boolean b = jw_literal (if b then ''true'' else ''false'')"

definition jw_float :: "(f64 \<Rightarrow> string) \<Rightarrow> f64 \<Rightarrow> json_writer \<Rightarrow> json_writer" where
  "jw_float show_f64 x = jw_literal (show_f64 x)"

definition jw_raw :: "string \<Rightarrow> json_writer \<Rightarrow> json_writer" where
  "jw_raw t = jw_literal (if t = [] then ''{}'' else t)"

definition field_str :: "string \<Rightarrow> string \<Rightarrow> json_writer \<Rightarrow> json_writer" where
  "field_str name t w = jw_string t (jw_key name w)"

definition field_uint :: "string \<Rightarrow> nat \<Rightarrow> json_writer \<Rightarrow> json_writer" where
  "field_uint name n w = jw_uint n (jw_key name w)"

definition field_bool :: "string \<Rightarrow> bool \<Rightarrow> json_writer \<Rightarrow> json_writer" where
  "field_bool name b w = jw_boolean b (jw_key name w)"

definition field_raw :: "string \<Rightarrow> string \<Rightarrow> json_writer \<Rightarrow> json_writer" where
  "field_raw name t w = jw_raw t (jw_key name w)"

fun jw_value :: "(f64 \<Rightarrow> string) \<Rightarrow> json \<Rightarrow> json_writer \<Rightarrow> json_writer"
  and jw_items :: "(f64 \<Rightarrow> string) \<Rightarrow> json list \<Rightarrow> json_writer \<Rightarrow> json_writer"
  and jw_members :: "(f64 \<Rightarrow> string) \<Rightarrow> (string \<times> json) list \<Rightarrow> json_writer \<Rightarrow> json_writer" where
  "jw_value fl JNull w = jw_null w"
| "jw_value fl (JBool b) w = jw_boolean b w"
| "jw_value fl (JInteger n) w = jw_int n w"
| "jw_value fl (JUnsigned n) w = jw_uint n w"
| "jw_value fl (JFloat x) w = jw_float fl x w"
| "jw_value fl (JString t) w = jw_string t w"
| "jw_value fl (JArray items) w = end_array (jw_items fl items (begin_array w))"
| "jw_value fl (JObject ms) w = end_object (jw_members fl ms (begin_object w))"
| "jw_items fl [] w = w"
| "jw_items fl (v # vs) w = jw_items fl vs (jw_value fl v w)"
| "jw_members fl [] w = w"
| "jw_members fl ((name, v) # ms) w = jw_members fl ms (jw_value fl v (jw_key name w))"

section \<open>The text of a value\<close>

definition quoted :: "string \<Rightarrow> string" where
  "quoted t = CHR 0x22 # escape_loop [] t @ [CHR 0x22]"

text \<open>A comma before every element, for the elements after the first.\<close>

definition comma_before :: "bool \<Rightarrow> string list \<Rightarrow> string" where
  "comma_before c ts = (if ts = [] then [] else (if c then '','' else []) @ join '','' ts)"

fun json_text :: "(f64 \<Rightarrow> string) \<Rightarrow> json \<Rightarrow> string" where
  "json_text fl JNull = ''null''"
| "json_text fl (JBool b) = (if b then ''true'' else ''false'')"
| "json_text fl (JInteger n) = show_int n"
| "json_text fl (JUnsigned n) = show_nat n"
| "json_text fl (JFloat x) = fl x"
| "json_text fl (JString t) = quoted t"
| "json_text fl (JArray vs) = ''['' @ join '','' (map (json_text fl) vs) @ '']''"
| "json_text fl (JObject ms) = ''{'' @ join '','' (map (\<lambda>m. quoted (fst m) @ '':'' @ json_text fl (snd m)) ms) @ ''}''"

lemma comma_before_Nil [simp]: "comma_before c [] = []"
  by (simp add: comma_before_def)

lemma comma_before_Cons: "comma_before c (t # ts) = (if c then '','' else []) @ t @ comma_before True ts"
  by (cases ts) (simp_all add: comma_before_def)

lemmas writer_defs = jw_push_def value_start_def value_done_def begin_object_def end_object_def begin_array_def
  end_array_def jw_escape_def jw_key_def jw_string_def jw_literal_def jw_uint_def jw_int_def jw_null_def jw_boolean_def
  jw_float_def jw_raw_def escape_into_def

lemma jw_key_text:
  "jw_key name w = w\<lparr>jw_out := jw_out w @ (if jw_comma w then '','' else []) @ quoted name @ '':'', jw_comma := False\<rparr>"
  by (simp add: writer_defs quoted_def)

lemma jw_text:
  "jw_value fl v w = w\<lparr>jw_out := jw_out w @ (if jw_comma w then '','' else []) @ json_text fl v, jw_comma := True\<rparr>"
  "jw_items fl vs w = w\<lparr>jw_out := jw_out w @ comma_before (jw_comma w) (map (json_text fl) vs), jw_comma := (jw_comma w \<or> vs \<noteq> [])\<rparr>"
  "jw_members fl ms w = w\<lparr>jw_out := jw_out w @ comma_before (jw_comma w)
     (map (\<lambda>m. quoted (fst m) @ '':'' @ json_text fl (snd m)) ms), jw_comma := (jw_comma w \<or> ms \<noteq> [])\<rparr>"
proof (induction fl v w and fl vs w and fl ms w rule: jw_value_jw_items_jw_members.induct)
  case (7 fl items w)
  then show ?case by (cases "items = []") (simp_all add: writer_defs comma_before_def)
next
  case (8 fl ms w)
  then show ?case by (cases "ms = []") (simp_all add: writer_defs comma_before_def)
next
  case (12 fl name v ms w)
  then show ?case by (simp add: jw_key_text comma_before_Cons)
qed (simp_all add: writer_defs quoted_def comma_before_Cons)

section \<open>A reader of JSON text\<close>

definition hex_value :: "char \<Rightarrow> nat option" where
  "hex_value c = position (\<lambda>d. d = c) ''0123456789abcdef''"

text \<open>The characters of a string after its opening quote, and the text after its closing one.\<close>

fun read_chars :: "string \<Rightarrow> (string \<times> string) option" where
  "read_chars [] = None"
| "read_chars (c # cs) =
     (if c = CHR 0x22 then Some ([], cs)
      else if c = CHR 0x5C then
        (case cs of
           [] \<Rightarrow> None
         | e # ds \<Rightarrow>
             if e = CHR ''u'' then
               (case ds of
                  a # b # x # y # rest \<Rightarrow>
                    (case (hex_value a, hex_value b, hex_value x, hex_value y) of
                       (Some h1, Some h2, Some h3, Some h4) \<Rightarrow>
                         map_option (\<lambda>(t, r). (text_of (encode_char (4096 * h1 + 256 * h2 + 16 * h3 + h4)) @ t, r))
                           (read_chars rest)
                     | _ \<Rightarrow> None)
                | _ \<Rightarrow> None)
             else
               (case map_of [(CHR ''b'', CHR 0x08), (CHR ''f'', CHR 0x0C), (CHR ''n'', CHR 0x0A), (CHR ''r'', CHR 0x0D),
                             (CHR ''t'', CHR 0x09), (CHR 0x22, CHR 0x22), (CHR 0x5C, CHR 0x5C), (CHR ''/'', CHR ''/'')] e of
                  None \<Rightarrow> None
                | Some d \<Rightarrow> map_option (\<lambda>(t, r). (d # t, r)) (read_chars ds)))
      else if (of_char c :: nat) < 32 then None
      else map_option (\<lambda>(t, r). (c # t, r)) (read_chars cs))"

lemma of_char_inject: "(of_char c :: nat) = of_char d \<longleftrightarrow> c = d"
  by (metis char_of_char)

lemma hex_value_digit: "n < 16 \<Longrightarrow> hex_value (hex_digit n) = Some n"
proof -
  have "\<forall>k\<in>set [0..<16]. hex_value (hex_digit k) = Some k" by code_simp
  then show "n < 16 \<Longrightarrow> hex_value (hex_digit n) = Some n" by simp
qed

text \<open>One byte reads back: from its escape, or as it is.\<close>

definition escape_char :: "char \<Rightarrow> string" where
  "escape_char c =
     (case escape_entry c of
        None \<Rightarrow> [c]
      | Some e \<Rightarrow>
          if e = CHR ''u'' then
            [CHR 0x5C, CHR ''u'', CHR ''0'', CHR ''0'', hex_digit (of_char c div 16), hex_digit (of_char c mod 16)]
          else [CHR 0x5C, e])"

lemma escape_loop_concat: "escape_loop run cs = run @ concat (map escape_char cs)"
  by (induction cs arbitrary: run) (simp_all add: escape_char_def split: option.split)

lemma read_escape_char: "read_chars (escape_char c @ s) = map_option (\<lambda>(t, r). (c # t, r)) (read_chars s)"
proof -
  let ?b = "of_char c :: nat"
  consider (named) "?b \<in> {8, 12, 10, 13, 9, 34, 92}" | (hex) "?b < 32" "?b \<notin> {8, 12, 10, 13, 9}"
    | (plain) "32 \<le> ?b" "?b \<noteq> 34" "?b \<noteq> 92" by fastforce
  then show ?thesis
  proof cases
    case named
    then have "c \<in> {CHR 0x08, CHR 0x0C, CHR 0x0A, CHR 0x0D, CHR 0x09, CHR 0x22, CHR 0x5C}"
      by (elim insertE emptyE) (simp_all add: of_char_inject [of c, symmetric])
    then show ?thesis by (elim insertE emptyE) (simp_all add: escape_char_def escape_entry_def Let_def)
  next
    case hex
    have zero: "hex_value CHR ''0'' = Some 0" by (simp add: hex_value_def)
    have "escape_entry c = Some CHR ''u''" using hex by (simp add: escape_entry_def Let_def)
    then have e: "escape_char c = [CHR 0x5C, CHR ''u'', CHR ''0'', CHR ''0'', hex_digit (?b div 16), hex_digit (?b mod 16)]"
      by (simp add: escape_char_def)
    have "text_of (encode_char (16 * (?b div 16) + ?b mod 16)) = [c]"
      using hex by (simp add: encode_char_def text_of_def)
    then show ?thesis unfolding e using hex by (simp add: hex_value_digit zero split: option.split)
  next
    case plain
    then have "escape_entry c = None" by (simp add: escape_entry_def Let_def)
    moreover have "c \<noteq> CHR 0x22" "c \<noteq> CHR 0x5C" using plain by auto
    ultimately show ?thesis using plain by (simp add: escape_char_def)
  qed
qed

lemma read_chars_escape: "read_chars (escape_loop [] t @ CHR 0x22 # rest) = Some (t, rest)"
  unfolding escape_loop_concat by (induction t) (simp_all add: read_escape_char)

text \<open>Numbers without a fraction or an exponent, whole values, and a document.\<close>

definition is_digit :: "char \<Rightarrow> bool" where
  "is_digit c \<longleftrightarrow> 48 \<le> (of_char c :: nat) \<and> (of_char c :: nat) \<le> 57"

definition digits_value :: "string \<Rightarrow> nat" where
  "digits_value ds = foldl (\<lambda>n c. 10 * n + (of_char c - 48)) 0 ds"

definition read_number :: "string \<Rightarrow> (json \<times> string) option" where
  "read_number s =
     (let neg = starts_with ''-'' s; body = (if neg then tl s else s);
          ds = takeWhile is_digit body; rest = dropWhile is_digit body;
          n = digits_value ds; i = (if neg then - int n else int n)
      in if ds = [] \<or> (hd ds = CHR ''0'' \<and> length ds > 1) then None
         else if - (2 ^ 63) \<le> i \<and> i < 2 ^ 63 then Some (JInteger i, rest)
         else if \<not> neg \<and> n < 2 ^ 64 then Some (JUnsigned n, rest)
         else None)"

fun rd_value :: "nat \<Rightarrow> string \<Rightarrow> (json \<times> string) option"
  and rd_items :: "nat \<Rightarrow> string \<Rightarrow> (json list \<times> string) option"
  and rd_members :: "nat \<Rightarrow> string \<Rightarrow> ((string \<times> json) list \<times> string) option" where
  "rd_value 0 s = None"
| "rd_value (Suc n) s =
     (case s of
        [] \<Rightarrow> None
      | c # cs \<Rightarrow>
          if c = CHR 0x22 then map_option (\<lambda>(t, r). (JString t, r)) (read_chars cs)
          else if c = CHR ''['' then
            (case cs of
               [] \<Rightarrow> None
             | d # r \<Rightarrow> if d = CHR '']'' then Some (JArray [], r)
                        else map_option (\<lambda>(vs, r1). (JArray vs, r1)) (rd_items n cs))
          else if c = CHR ''{'' then
            (case cs of
               [] \<Rightarrow> None
             | d # r \<Rightarrow> if d = CHR ''}'' then Some (JObject [], r)
                        else map_option (\<lambda>(ms, r1). (JObject ms, r1)) (rd_members n cs))
          else if c = CHR ''n'' then map_option (\<lambda>r. (JNull, r)) (strip_prefix ''null'' s)
          else if c = CHR ''t'' then map_option (\<lambda>r. (JBool True, r)) (strip_prefix ''true'' s)
          else if c = CHR ''f'' then map_option (\<lambda>r. (JBool False, r)) (strip_prefix ''false'' s)
          else read_number s)"
| "rd_items 0 s = None"
| "rd_items (Suc n) s =
     (case rd_value n s of
        Some (v, c # r) \<Rightarrow>
          if c = CHR '']'' then Some ([v], r)
          else if c = CHR '','' then map_option (\<lambda>(vs, r1). (v # vs, r1)) (rd_items n r)
          else None
      | _ \<Rightarrow> None)"
| "rd_members 0 s = None"
| "rd_members (Suc n) s =
     (case s of
        [] \<Rightarrow> None
      | q # cs \<Rightarrow>
          if q \<noteq> CHR 0x22 then None
          else
            (case read_chars cs of
               Some (k, d # r) \<Rightarrow>
                 if d \<noteq> CHR '':'' then None
                 else
                   (case rd_value n r of
                      Some (v, c # r1) \<Rightarrow>
                        if c = CHR ''}'' then Some ([(k, v)], r1)
                        else if c = CHR '','' then map_option (\<lambda>(ms, r2). ((k, v) # ms, r2)) (rd_members n r1)
                        else None
                    | _ \<Rightarrow> None)
             | _ \<Rightarrow> None))"

definition read_json :: "string \<Rightarrow> json option" where
  "read_json s = (case rd_value (length s) s of Some (v, []) \<Rightarrow> Some v | _ \<Rightarrow> None)"

section \<open>It reads back what the writer wrote\<close>

text \<open>A parsed value without a float: its numbers are in the range of their constructor.\<close>

fun json_fits :: "json \<Rightarrow> bool" where
  "json_fits (JInteger n) \<longleftrightarrow> - (2 ^ 63) \<le> n \<and> n < 2 ^ 63"
| "json_fits (JUnsigned n) \<longleftrightarrow> 2 ^ 63 \<le> n \<and> n < 2 ^ 64"
| "json_fits (JFloat x) \<longleftrightarrow> False"
| "json_fits (JArray vs) \<longleftrightarrow> list_all json_fits vs"
| "json_fits (JObject ms) \<longleftrightarrow> list_all (\<lambda>m. json_fits (snd m)) ms"
| "json_fits _ \<longleftrightarrow> True"

lemma show_nat_digits:
  "(\<forall>c\<in>set (show_nat n). is_digit c) \<and> digits_value (show_nat n) = n \<and> show_nat n \<noteq> [] \<and>
   (hd (show_nat n) = CHR ''0'' \<longrightarrow> n = 0) \<and> (n < 10 \<longrightarrow> length (show_nat n) = 1)"
proof (induction n rule: show_nat.induct)
  case (1 n)
  have c: "is_digit (char_of (48 + k))" "of_char (char_of (48 + k) :: char) = 48 + k" if "k < 10" for k :: nat
    using that by (simp_all add: is_digit_def)
  show ?case
  proof (cases "n < 10")
    case True
    have "char_of (48 + n) = CHR ''0'' \<longrightarrow> n = 0"
    proof
      assume "char_of (48 + n) = CHR ''0''"
      then have "(of_char (char_of (48 + n) :: char) :: nat) = of_char CHR ''0''" by simp
      then show "n = 0" using c(2) [OF True] by simp
    qed
    then show ?thesis using True c by (simp add: show_nat.simps [of n] digits_value_def)
  next
    case False
    have h: "hd (show_nat n) = hd (show_nat (n div 10))"
      using 1 False by (simp add: show_nat.simps [of n])
    have "digits_value (show_nat n) = 10 * (n div 10) + n mod 10"
      using 1 False c(2) [of "n mod 10"] by (simp add: show_nat.simps [of n] digits_value_def)
    then show ?thesis using 1 False c(1) [of "n mod 10"] h by (auto simp: show_nat.simps [of n] div_eq_0_iff)
  qed
qed

lemma minus_no_digit: "\<not> is_digit CHR ''-''"
  by (simp add: is_digit_def)

definition ends :: "string \<Rightarrow> bool" where
  "ends rest \<longleftrightarrow> rest = [] \<or> \<not> is_digit (hd rest)"

lemma digits_span:
  "ends rest \<Longrightarrow> takeWhile is_digit (show_nat n @ rest) = show_nat n \<and> dropWhile is_digit (show_nat n @ rest) = rest"
proof -
  assume e: "ends rest"
  have d: "\<forall>c\<in>set (show_nat n). is_digit c" using show_nat_digits by simp
  have "takeWhile is_digit rest = []" "dropWhile is_digit rest = rest" using e by (cases rest; simp add: ends_def)+
  then show ?thesis using d by (simp add: takeWhile_append dropWhile_append)
qed

lemma show_nat_start: "\<not> prefix ''-'' (show_nat n @ rest)" "is_digit (hd (show_nat n @ rest))"
proof -
  obtain c cs where s: "show_nat n = c # cs" using show_nat_digits [of n] by (cases "show_nat n") auto
  then have d: "is_digit c" using show_nat_digits [of n] by auto
  then show "\<not> prefix ''-'' (show_nat n @ rest)" using s minus_no_digit by (auto simp: prefix_Cons)
  show "is_digit (hd (show_nat n @ rest))" using s d by simp
qed

lemma no_leading_zero: "\<not> (hd (show_nat n) = CHR ''0'' \<and> length (show_nat n) > 1)"
  using show_nat_digits [of n] by force

lemma read_show_nat:
  assumes "ends rest" "n < 2 ^ 64"
  shows "read_number (show_nat n @ rest) = Some (if n < 2 ^ 63 then JInteger (int n) else JUnsigned n, rest)"
  using digits_span [OF assms(1), of n] show_nat_start [of n rest] show_nat_digits [of n] no_leading_zero [of n] assms(2)
  by (auto simp: read_number_def Let_def)

lemma read_show_int:
  assumes "ends rest" "- (2 ^ 63) \<le> i" "i < 2 ^ 63"
  shows "read_number (show_int i @ rest) = Some (JInteger i, rest)"
proof (cases "i < 0")
  case True
  have "takeWhile is_digit (show_nat (nat (- i)) @ rest) = show_nat (nat (- i))"
    "dropWhile is_digit (show_nat (nat (- i)) @ rest) = rest" using digits_span [OF assms(1)] by simp_all
  moreover have "digits_value (show_nat (nat (- i))) = nat (- i)" "show_nat (nat (- i)) \<noteq> []"
    using show_nat_digits by simp_all
  ultimately show ?thesis
    using True assms no_leading_zero [of "nat (- i)"] by (simp add: read_number_def Let_def show_int_def)
next
  case False
  then show ?thesis using read_show_nat [OF assms(1), of "nat i"] assms(2,3) by (simp add: show_int_def)
qed

text \<open>How a value starts, so the reader takes the right branch.\<close>

lemma digit_char:
  "is_digit c \<Longrightarrow> c \<notin> {CHR '']'', CHR ''}'', CHR '','', CHR ''-'', CHR 0x22, CHR ''['', CHR ''{'', CHR ''n'', CHR ''t'', CHR ''f''}"
  by (auto simp: is_digit_def)

lemma show_nat_Cons: obtains c cs where "show_nat n = c # cs" "is_digit c"
  using show_nat_digits [of n] by (cases "show_nat n") auto

lemma show_int_Cons: obtains c cs where "show_int i = c # cs" "is_digit c \<or> c = CHR ''-''"
  by (cases "i < 0") (auto simp: show_int_def intro: show_nat_Cons [of "nat i"])

lemma json_text_start:
  assumes "json_fits v"
  obtains c cs where "json_text fl v = c # cs" "c \<notin> {CHR '']'', CHR ''}'', CHR '',''}"
proof (cases v)
  case (JInteger n)
  obtain c cs where "show_int n = c # cs" "is_digit c \<or> c = CHR ''-''" by (rule show_int_Cons)
  then show thesis using that [of c cs] JInteger digit_char [of c] by auto
next
  case (JUnsigned n)
  obtain c cs where "show_nat n = c # cs" "is_digit c" by (rule show_nat_Cons)
  then show thesis using that [of c cs] JUnsigned digit_char [of c] by auto
next
  case (JBool b)
  then show thesis using that by (cases b) simp_all
qed (use assms that in \<open>auto simp: quoted_def\<close>)

lemma ends_simps [simp]: "ends (CHR '']'' # r)" "ends (CHR ''}'' # r)" "ends (CHR '','' # r)" "ends []"
  by (simp_all add: ends_def is_digit_def)

lemma rd_number_branch:
  assumes "is_digit c \<or> c = CHR ''-''"
  shows "rd_value (Suc n) (c # cs) = read_number (c # cs)"
  using assms
proof
  assume "is_digit c"
  then show ?thesis using digit_char [of c] by simp
qed simp

lemma rd_items_text:
  assumes "vs \<noteq> []" "\<And>v n rest. v \<in> set vs \<Longrightarrow> length (json_text fl v) \<le> n \<Longrightarrow> ends rest \<Longrightarrow>
      rd_value n (json_text fl v @ rest) = Some (v, rest)"
  shows "length (join '','' (map (json_text fl) vs)) < n \<Longrightarrow>
    rd_items n (join '','' (map (json_text fl) vs) @ CHR '']'' # rest) = Some (vs, rest)"
  using assms
proof (induction vs arbitrary: n)
  case (Cons v vs)
  obtain m where m: "n = Suc m" using Cons.prems(1) by (cases n) auto
  show ?case
  proof (cases vs)
    case Nil
    then show ?thesis using Cons.prems m by simp
  next
    case (Cons u us)
    have v: "rd_value m (json_text fl v @ CHR '','' # r) = Some (v, CHR '','' # r)" for r
      using Cons.prems(1,3) m by (simp add: Cons)
    have "rd_items m (join '','' (map (json_text fl) vs) @ CHR '']'' # rest) = Some (vs, rest)"
      by (rule Cons.IH) (use Cons.prems m in \<open>auto simp: Cons\<close>)
    then show ?thesis using v m by (simp add: Cons)
  qed
qed simp

lemma rd_members_text:
  assumes "ms \<noteq> []" "\<And>k v n rest. (k, v) \<in> set ms \<Longrightarrow> length (json_text fl v) \<le> n \<Longrightarrow> ends rest \<Longrightarrow>
      rd_value n (json_text fl v @ rest) = Some (v, rest)"
  shows "length (join '','' (map (\<lambda>m. quoted (fst m) @ '':'' @ json_text fl (snd m)) ms)) < n \<Longrightarrow>
    rd_members n (join '','' (map (\<lambda>m. quoted (fst m) @ '':'' @ json_text fl (snd m)) ms) @ CHR ''}'' # rest) = Some (ms, rest)"
  using assms
proof (induction ms arbitrary: n)
  case (Cons kv ms)
  obtain k v where kv: "kv = (k, v)" by fastforce
  obtain m where m: "n = Suc m" using Cons.prems(1) by (cases n) auto
  show ?case
  proof (cases ms)
    case Nil
    then show ?thesis using Cons.prems m by (simp add: kv quoted_def read_chars_escape)
  next
    case (Cons u us)
    have v: "rd_value m (json_text fl v @ CHR '','' # r) = Some (v, CHR '','' # r)" for r
      using Cons.prems(1) m by (intro Cons.prems(3) [of k]) (simp_all add: Cons kv)
    have "rd_members m (join '','' (map (\<lambda>m. quoted (fst m) @ '':'' @ json_text fl (snd m)) ms) @ CHR ''}'' # rest) = Some (ms, rest)"
      by (rule Cons.IH) (use Cons.prems m in \<open>auto simp: Cons\<close>)
    then show ?thesis using v m by (simp add: Cons kv quoted_def read_chars_escape)
  qed
qed simp

lemma rd_value_text:
  "json_fits v \<Longrightarrow> length (json_text fl v) \<le> n \<Longrightarrow> ends rest \<Longrightarrow> rd_value n (json_text fl v @ rest) = Some (v, rest)"
proof (induction v arbitrary: n rest)
  case (JInteger i)
  obtain c cs where s: "show_int i = c # cs" "is_digit c \<or> c = CHR ''-''" by (rule show_int_Cons)
  obtain m where "n = Suc m" using JInteger s(1) by (cases n) auto
  then show ?case using rd_number_branch [OF s(2)] read_show_int [of rest i] JInteger s(1) by simp
next
  case (JUnsigned u)
  obtain c cs where s: "show_nat u = c # cs" "is_digit c" by (rule show_nat_Cons)
  obtain m where "n = Suc m" using JUnsigned s(1) by (cases n) auto
  then show ?case using rd_number_branch [of c m "cs @ rest"] read_show_nat [of rest u] JUnsigned s by simp
next
  case (JArray vs)
  obtain m where m: "n = Suc m" using JArray.prems(2) by (cases n) auto
  show ?case
  proof (cases "vs = []")
    case False
    then obtain v us where vs: "vs = v # us" by (cases vs) auto
    obtain c cs where c: "json_text fl v = c # cs" "c \<noteq> CHR '']''"
      by (rule json_text_start [of v fl]) (use JArray.prems(1) vs in auto)
    then obtain r where r: "join '','' (map (json_text fl) vs) @ CHR '']'' # rest = c # r"
      by (cases us) (simp_all add: vs)
    have "rd_items m (join '','' (map (json_text fl) vs) @ CHR '']'' # rest) = Some (vs, rest)"
      by (rule rd_items_text [OF False]) (use JArray m in \<open>auto simp: list_all_iff\<close>)
    then show ?thesis using m r c(2) by simp
  qed (use m in simp)
next
  case (JObject ms)
  obtain m where m: "n = Suc m" using JObject.prems(2) by (cases n) auto
  show ?case
  proof (cases "ms = []")
    case False
    let ?t = "join '','' (map (\<lambda>m. quoted (fst m) @ '':'' @ json_text fl (snd m)) ms) @ CHR ''}'' # rest"
    obtain r where r: "?t = CHR 0x22 # r"
      using False by (cases ms; cases "tl ms") (auto simp: quoted_def)
    have "rd_members m ?t = Some (ms, rest)"
      by (rule rd_members_text [OF False]) (use JObject m in \<open>auto simp: list_all_iff\<close>)
    then show ?thesis using m r by simp
  qed (use m in simp)
next
  case (JString t)
  then obtain m where "n = Suc m" by (cases n) (auto simp: quoted_def)
  then show ?case by (simp add: quoted_def read_chars_escape)
next
  case JNull
  then obtain m where "n = Suc m" by (cases n) auto
  then show ?case by simp
next
  case (JBool b)
  then obtain m where "n = Suc m" by (cases n) (auto split: if_splits)
  then show ?case by simp
qed simp

lemma json_reads_back: "json_fits v \<Longrightarrow> read_json (jw_out (jw_value fl v (new_writer []))) = Some v"
  using rd_value_text [OF _ order_refl, of v "[]" fl] by (simp add: jw_text(1) new_writer_def read_json_def)

lemma quoted_member: "jw_out (field_str name t w) = jw_out w @ (if jw_comma w then '','' else []) @ quoted name @ '':'' @ quoted t"
  by (simp add: field_str_def jw_key_text) (simp add: writer_defs quoted_def)

text \<open>
  C38: What the writer writes for a parsed value without floats is JSON text that reads back as that value: any
  nesting of arrays and objects, empty ones included, members in document order, strings of any bytes (quotes,
  backslashes, control bytes), and integers of the whole \<open>i64\<close> and \<open>u64\<close> ranges. The reader is one of RFC
  8259. Floats are left out because the claim fails for them: a float with a whole value prints as an integer
  and reads back as one.
\<close>

theorem json_writer_roundtrip:
  assumes "json_fits v"
  shows "read_json (jw_out (jw_value show_f64 v (new_writer []))) = Some v"
  by (rule json_reads_back [OF assms])

definition example_json :: json where
  "example_json = JObject [(''a'', JArray [JNull, JInteger (-12), JObject []]), ([CHR 0x22, CHR 0x01], JString [CHR 0x5C])]"

theorem json_writer_roundtrip_witness:
  "read_json (jw_out (jw_value (\<lambda>_. []) example_json (new_writer []))) = Some example_json"
  by (rule json_writer_roundtrip) (simp add: example_json_def)

end
