(* ===== verification/Base64.thy ===== *)
theory Base64
  imports Prelude
begin

text \<open>
  Base64 (RFC 4648), \<open>crates/ai/src/base64.rs\<close>: the padded encoder of request media, and the decoders of media
  in a tool result and of a JSON Web Token. The shifts and masks of a group of three bytes are the arithmetic of
  its 24-bit number: \<open>|\<close> joins disjoint bits, so it is a sum.

  The theory proves that the decoder inverts the encoder, and that it accepts nothing else: what it accepts is
  the text of the encoder, its padding present or left out.
\<close>

section \<open>The encoder\<close>

definition base64_alphabet :: string where
  "base64_alphabet = ''ABCDEFGHIJKLMNOPQRSTUVWXYZabcdefghijklmnopqrstuvwxyz0123456789+/''"

definition base64_pair :: "nat \<Rightarrow> char \<times> char" where
  "base64_pair n = (base64_alphabet ! (n div 64), base64_alphabet ! (n mod 64))"

fun base64_encode :: "u8 list \<Rightarrow> string" where
  "base64_encode (a # b # c # rest) =
     (let n = unat a * 2 ^ 16 + unat b * 2 ^ 8 + unat c;
          (c0, c1) = base64_pair (n div 2 ^ 12);
          (c2, c3) = base64_pair (n mod 2 ^ 12)
      in [c0, c1, c2, c3] @ base64_encode rest)"
| "base64_encode [a, b] =
     (let n = unat a * 2 ^ 16 + unat b * 2 ^ 8;
          (c0, c1) = base64_pair (n div 2 ^ 12);
          (c2, _) = base64_pair (n mod 2 ^ 12)
      in [c0, c1, c2, CHR ''=''])"
| "base64_encode [a] =
     (let n = unat a * 2 ^ 16;
          (c0, c1) = base64_pair (n div 2 ^ 12)
      in [c0, c1, CHR ''='', CHR ''=''])"
| "base64_encode [] = []"

definition encode_base64_into :: "string \<Rightarrow> u8 list \<Rightarrow> string" where
  "encode_base64_into out data = out @ base64_encode data"

section \<open>The decoder\<close>

definition base64_value :: "char \<times> char \<Rightarrow> char \<Rightarrow> nat option" where
  "base64_value symbols c =
     (let b = of_char c in
      if 65 \<le> b \<and> b \<le> 90 then Some (b - 65)
      else if 97 \<le> b \<and> b \<le> 122 then Some (b - 97 + 26)
      else if 48 \<le> b \<and> b \<le> 57 then Some (b - 48 + 52)
      else if c = fst symbols then Some 62
      else if c = snd symbols then Some 63
      else None)"

text \<open>The number of a group of at most four digits: the digit at \<open>index\<close> is shifted by \<open>18 - 6 * index\<close>.\<close>

fun base64_number :: "char \<times> char \<Rightarrow> nat \<Rightarrow> string \<Rightarrow> nat option" where
  "base64_number symbols index [] = Some 0"
| "base64_number symbols index (c # cs) =
     (case base64_value symbols c of
        None \<Rightarrow> None
      | Some v \<Rightarrow> map_option (\<lambda>n. v * 2 ^ (18 - 6 * index) + n) (base64_number symbols (index + 1) cs))"

text \<open>\<open>u32::to_be_bytes\<close>.\<close>

definition be_bytes :: "nat \<Rightarrow> u8 list" where
  "be_bytes n = map of_nat [n div 2 ^ 24 mod 256, n div 2 ^ 16 mod 256, n div 2 ^ 8 mod 256, n mod 256]"

function base64_groups :: "char \<times> char \<Rightarrow> string \<Rightarrow> u8 list option" where
  "base64_groups symbols text =
     (if text = [] then Some []
      else
        let digits = take 4 text in
        case base64_number symbols 0 digits of
          None \<Rightarrow> None
        | Some n \<Rightarrow>
            if list_ex (\<lambda>b. b \<noteq> 0) (drop (length digits) (be_bytes n)) then None
            else map_option (\<lambda>out. drop 1 (take (length digits) (be_bytes n)) @ out)
                   (base64_groups symbols (drop 4 text)))"
  by pat_completeness auto
termination
  by (relation "measure (\<lambda>(symbols, text). length text)") auto

declare base64_groups.simps [simp del]

definition strip_padding :: "string \<Rightarrow> string" where
  "strip_padding text =
     (if suffix ''=='' text then take (length text - 2) text
      else if suffix ''='' text then take (length text - 1) text
      else text)"

definition base64_decode :: "char \<times> char \<Rightarrow> string \<Rightarrow> u8 list option" where
  "base64_decode symbols text =
     (let bare = strip_padding text in
      if length bare mod 4 = 1 \<or> (length bare \<noteq> length text \<and> length text mod 4 \<noteq> 0) then None
      else base64_groups symbols bare)"

definition decode_base64 :: "string \<Rightarrow> u8 list option" where
  "decode_base64 text = base64_decode (CHR ''+'', CHR ''/'') text"

definition decode_url_safe :: "string \<Rightarrow> u8 list option" where
  "decode_url_safe text = base64_decode (CHR ''-'', CHR ''_'') text"

section \<open>Digits\<close>

abbreviation std :: "char \<times> char" where "std \<equiv> (CHR ''+'', CHR ''/'')"

definition digit_code :: "nat \<Rightarrow> nat" where
  "digit_code v =
     (if v < 26 then v + 65 else if v < 52 then v + 71 else if v < 62 then v - 4 else if v = 62 then 43 else 47)"

lemma alphabet_codes: "base64_alphabet = map (\<lambda>v. char_of (digit_code v)) [0..<64]"
proof -
  have "map of_char base64_alphabet = map digit_code [0..<64]"
    by (simp add: base64_alphabet_def digit_code_def upt_conv_Cons)
  then have "map char_of (map (of_char :: char \<Rightarrow> nat) base64_alphabet) = map char_of (map digit_code [0..<64])" by simp
  then show ?thesis by (simp add: comp_def del: map_map [symmetric])
qed

lemma alphabet_nth: "v < 64 \<Longrightarrow> base64_alphabet ! v = char_of (digit_code v)"
  unfolding alphabet_codes by (subst nth_map) auto

lemma symbol_codes: "char_of (43 :: nat) = CHR ''+''" "char_of (47 :: nat) = CHR ''/''"
proof -
  have codes: "43 = (of_char (CHR ''+'') :: nat)" "47 = (of_char (CHR ''/'') :: nat)" by simp_all
  show "char_of (43 :: nat) = CHR ''+''" "char_of (47 :: nat) = CHR ''/''"
    unfolding codes by (rule char_of_char)+
qed

lemma base64_value_digit [simp]: "v < 64 \<Longrightarrow> base64_value std (base64_alphabet ! v) = Some v"
  by (auto simp: base64_value_def alphabet_nth digit_code_def Let_def symbol_codes)

lemma base64_value_Some: "base64_value std c = Some v \<Longrightarrow> v < 64 \<and> base64_alphabet ! v = c"
proof -
  assume a: "base64_value std c = Some v"
  have "v < 64" "digit_code v = of_char c"
    using a by (auto simp: base64_value_def Let_def digit_code_def split: if_splits)
  then show ?thesis by (simp add: alphabet_nth)
qed

lemma base64_value_pad [simp]: "base64_value symbols (CHR ''='') = Some v \<longleftrightarrow>
    (fst symbols = CHR ''='' \<and> v = 62) \<or> (fst symbols \<noteq> CHR ''='' \<and> snd symbols = CHR ''='' \<and> v = 63)"
  by (auto simp: base64_value_def)

section \<open>Groups\<close>

text \<open>The four digits of a 24-bit number.\<close>

definition digits_of :: "nat \<Rightarrow> nat list" where
  "digits_of n = [n div 2 ^ 18 mod 64, n div 2 ^ 12 mod 64, n div 2 ^ 6 mod 64, n mod 64]"

lemma pair_digits:
  "n < 2 ^ 24 \<Longrightarrow> base64_pair (n div 2 ^ 12) = (base64_alphabet ! (digits_of n ! 0), base64_alphabet ! (digits_of n ! 1))"
  "base64_pair (n mod 2 ^ 12) = (base64_alphabet ! (digits_of n ! 2), base64_alphabet ! (digits_of n ! 3))"
proof -
  assume "n < 2 ^ 24"
  then show "base64_pair (n div 2 ^ 12) = (base64_alphabet ! (digits_of n ! 0), base64_alphabet ! (digits_of n ! 1))"
    by (simp add: base64_pair_def digits_of_def div_mult2_eq [symmetric])
next
  have "n mod 4096 div 64 = n div 64 mod 64" "n mod 4096 mod 64 = n mod 64"
    by (simp_all add: mod_mult2_eq [of n 64 64, simplified])
  then show "base64_pair (n mod 2 ^ 12) = (base64_alphabet ! (digits_of n ! 2), base64_alphabet ! (digits_of n ! 3))"
    by (simp add: base64_pair_def digits_of_def)
qed

text \<open>A number in base \<open>64\<close> and in base \<open>256\<close>, one place at a time.\<close>

lemma place: "r < (k :: nat) \<Longrightarrow> (q * k + r) div k = q" "r < k \<Longrightarrow> (q * k + r) mod k = r"
  by simp_all

lemma joined: "n = p * 64 + d \<Longrightarrow> p = q * 64 + c \<Longrightarrow> q = a * 64 + b \<Longrightarrow>
    a * 2 ^ 18 + b * 2 ^ 12 + c * 2 ^ 6 + d = (n :: nat)"
  by simp

lemma nested_div:
  "n div 2 ^ 6 = n div (64 :: nat)" "n div 2 ^ 12 = n div 64 div 64" "n div 2 ^ 18 = n div 64 div 64 div (64 :: nat)"
  "n div 2 ^ 16 = n div 256 div (256 :: nat)"
  by (simp_all add: div_mult2_eq [symmetric])

lemma digits_number:
  assumes "(n :: nat) < 2 ^ 24"
  shows "n div 2 ^ 18 mod 64 * 2 ^ 18 + n div 2 ^ 12 mod 64 * 2 ^ 12 + n div 2 ^ 6 mod 64 * 2 ^ 6 + n mod 64 = n"
proof -
  let ?a = "n div 64" let ?b = "?a div 64" let ?c = "?b div 64"
  have "?c mod 64 = ?c" using assms by (simp add: div_mult2_eq [symmetric])
  then have "n div 2 ^ 18 mod 64 = ?c" "n div 2 ^ 12 mod 64 = ?b mod 64" "n div 2 ^ 6 mod 64 = ?a mod 64"
    by (simp_all only: nested_div)
  then show ?thesis by (simp only:) (rule joined [of n ?a _ ?b _ ?c], simp_all)
qed

lemma number_digits:
  assumes "a < 64" "b < 64" "c < 64" "d < (64 :: nat)"
  shows "digits_of (a * 2 ^ 18 + b * 2 ^ 12 + c * 2 ^ 6 + d) = [a, b, c, d]"
proof -
  have n: "a * 2 ^ 18 + b * 2 ^ 12 + c * 2 ^ 6 + d = ((a * 64 + b) * 64 + c) * 64 + d" by simp
  let ?q = "a * 64 + b" let ?p = "?q * 64 + c"
  have "(?p * 64 + d) div 64 = ?p" "(?p * 64 + d) mod 64 = d" "?p div 64 = ?q" "?p mod 64 = c" "?q div 64 = a" "?q mod 64 = b"
    using assms by (simp_all only: place)
  then show ?thesis unfolding n digits_of_def nested_div by (simp only:) (simp add: assms)
qed

text \<open>The text of the encoder without its padding.\<close>

abbreviation digit_chars :: "nat list \<Rightarrow> string" where
  "digit_chars \<equiv> map ((!) base64_alphabet)"

fun base64_bare :: "u8 list \<Rightarrow> string" where
  "base64_bare (a # b # c # rest) =
     digit_chars (digits_of (unat a * 2 ^ 16 + unat b * 2 ^ 8 + unat c)) @ base64_bare rest"
| "base64_bare [a, b] = digit_chars (take 3 (digits_of (unat a * 2 ^ 16 + unat b * 2 ^ 8)))"
| "base64_bare [a] = digit_chars (take 2 (digits_of (unat a * 2 ^ 16)))"
| "base64_bare [] = []"

definition base64_padding :: "nat \<Rightarrow> string" where
  "base64_padding n = replicate ((4 - n mod 4) mod 4) (CHR ''='')"

lemma byte_bounds: "unat (a :: u8) * 2 ^ 16 + unat (b :: u8) * 2 ^ 8 + unat (c :: u8) < 2 ^ 24"
  "unat a * 2 ^ 16 + unat b * 2 ^ 8 < 2 ^ 24" "unat a * 2 ^ 16 < 2 ^ 24"
  using unsigned_less [of a, where ?'a = nat] unsigned_less [of b, where ?'a = nat] unsigned_less [of c, where ?'a = nat]
  by simp_all

lemma length_digits [simp]: "length (digits_of n) = 4"
  by (simp add: digits_of_def)

lemma encode_bare: "base64_encode bs = base64_bare bs @ base64_padding (length (base64_bare bs))"
proof (induction bs rule: base64_bare.induct)
  case (1 a b c rest)
  have "base64_padding (length (base64_bare (a # b # c # rest))) = base64_padding (length (base64_bare rest))"
    by (simp add: base64_padding_def)
  then show ?case using 1 pair_digits(1) [OF byte_bounds(1), of a b c] pair_digits(2)
    by (simp add: Let_def) (simp add: digits_of_def)
next
  case (2 a b)
  show ?case using pair_digits(1) [OF byte_bounds(2), of a b] pair_digits(2)
    by (simp add: Let_def) (simp add: digits_of_def base64_padding_def)
next
  case (3 a)
  show ?case using pair_digits(1) [OF byte_bounds(3), of a]
    by (simp add: Let_def) (simp add: digits_of_def base64_padding_def numeral_2_eq_2)
qed (simp add: base64_padding_def)

section \<open>The decoder reads the groups\<close>

lemma digit_below: "v \<in> set (digits_of n) \<Longrightarrow> v < 64"
  by (auto simp: digits_of_def)

lemma groups_step:
  assumes "text \<noteq> []" "base64_number std 0 (take 4 text) = Some n"
    and "\<forall>b\<in>set (drop (length (take 4 text)) (be_bytes n)). b = 0"
  shows "base64_groups std text =
     map_option (\<lambda>out. drop 1 (take (length (take 4 text)) (be_bytes n)) @ out) (base64_groups std (drop 4 text))"
  using assms by (subst base64_groups.simps) (auto simp: Let_def list_ex_iff)

lemma digits_obtain:
  assumes "n < 2 ^ 24"
  obtains a b c d where "digits_of n = [a, b, c, d]" "a < 64" "b < 64" "c < 64" "d < 64"
    "n = a * 2 ^ 18 + b * 2 ^ 12 + c * 2 ^ 6 + d"
  by (rule that [OF digits_of_def]) (use digits_number [OF assms] in \<open>simp_all only: mod_less_divisor zero_less_numeral\<close>)

text \<open>A group of \<open>k\<close> digits whose unused bits are zero.\<close>

lemma group_of:
  assumes "n < 2 ^ 24" "be_bytes n = [0, x, y, z]"
  shows "base64_groups std (digit_chars (digits_of n) @ t) = map_option (\<lambda>out. [x, y, z] @ out) (base64_groups std t)"
    "n mod 2 ^ 6 = 0 \<Longrightarrow> z = 0 \<Longrightarrow> base64_groups std (digit_chars (take 3 (digits_of n))) = Some [x, y]"
    "n mod 2 ^ 12 = 0 \<Longrightarrow> y = 0 \<Longrightarrow> z = 0 \<Longrightarrow> base64_groups std (digit_chars (take 2 (digits_of n))) = Some [x]"
proof -
  obtain a b c d where d: "digits_of n = [a, b, c, d]" "a < 64" "b < 64" "c < 64" "d < 64"
    and n: "n = a * 2 ^ 18 + b * 2 ^ 12 + c * 2 ^ 6 + d"
    using digits_obtain [OF assms(1)] by blast
  have empty: "base64_groups std [] = Some []" by (simp add: base64_groups.simps)
  have "base64_number std 0 (digit_chars [a, b, c, d]) = Some n" unfolding n using d by simp
  then show "base64_groups std (digit_chars (digits_of n) @ t) = map_option (\<lambda>out. [x, y, z] @ out) (base64_groups std t)"
    using groups_step [of "digit_chars [a, b, c, d] @ t" n] assms(2) d(1) by simp
  show "base64_groups std (digit_chars (take 3 (digits_of n))) = Some [x, y]" if "n mod 2 ^ 6 = 0" "z = 0"
  proof -
    have "d = 0" using that(1) d(1) by (simp add: digits_of_def)
    then have "base64_number std 0 (digit_chars [a, b, c]) = Some n" unfolding n using d by simp
    then show ?thesis using groups_step [of "digit_chars [a, b, c]" n] assms(2) d(1) that(2) empty by simp
  qed
  show "base64_groups std (digit_chars (take 2 (digits_of n))) = Some [x]" if "n mod 2 ^ 12 = 0" "y = 0" "z = 0"
  proof -
    have "c = 0" "d = 0" using that(1) d(1) mod_mult2_eq [of n 64 64] by (simp_all add: digits_of_def)
    then have "base64_number std 0 (digit_chars [a, b]) = Some n" unfolding n using d by simp
    then show ?thesis using groups_step [of "digit_chars [a, b]" n] assms(2) d(1) that(2,3) empty by simp
  qed
qed

lemma bytes_of_number:
  "be_bytes (unat (a :: u8) * 2 ^ 16 + unat (b :: u8) * 2 ^ 8 + unat (c :: u8)) = [0, a, b, c]"
proof -
  have bound: "unat a < 256" "unat b < 256" "unat c < 256"
    using unsigned_less [of a, where ?'a = nat] unsigned_less [of b, where ?'a = nat] unsigned_less [of c, where ?'a = nat]
    by simp_all
  let ?q = "unat a * 256 + unat b"
  let ?n = "?q * 256 + unat c"
  have n: "unat a * 2 ^ 16 + unat b * 2 ^ 8 + unat c = ?n" by simp
  have div: "m div 2 ^ 8 = m div 256" "m div 2 ^ 16 = m div 256 div 256" "m div 2 ^ 24 = m div 256 div 256 div 256" for m :: nat
    by (simp_all add: div_mult2_eq [symmetric])
  have "?n div 256 = ?q" "?n mod 256 = unat c" "?q div 256 = unat a" "?q mod 256 = unat b"
    using bound by (simp_all only: place)
  then show ?thesis unfolding be_bytes_def n div by (simp only: list.map) (simp add: bound)
qed

lemma groups_bare: "base64_groups std (base64_bare bs) = Some bs"
proof (induction bs rule: base64_bare.induct)
  case (1 a b c rest)
  then show ?case using group_of(1) [OF byte_bounds(1) bytes_of_number] by simp
next
  case (2 a b)
  have "(unat a * 2 ^ 16 + unat b * 2 ^ 8) mod 2 ^ 6 = 0" by simp
  then show ?case using group_of(2) [OF byte_bounds(2), of a b a b 0] bytes_of_number [of a b 0] by simp
next
  case (3 a)
  have "unat a * 2 ^ 16 mod 2 ^ 12 = 0" by simp
  then show ?case using group_of(3) [OF byte_bounds(3), of a a 0 0] bytes_of_number [of a 0 0] by simp
qed (simp add: base64_groups.simps)

section \<open>The decoder accepts nothing else\<close>

lemma number_inverse:
  "base64_number std i cs = Some n \<Longrightarrow> \<exists>vs. cs = digit_chars vs \<and> length vs = length cs \<and> (\<forall>v\<in>set vs. v < 64)"
proof (induction cs arbitrary: i n)
  case (Cons c cs)
  then obtain v m where "base64_value std c = Some v" "base64_number std (i + 1) cs = Some m"
    by (auto split: option.splits)
  then obtain vs where "cs = digit_chars vs" "length vs = length cs" "\<forall>v\<in>set vs. v < 64" "v < 64" "base64_alphabet ! v = c"
    using Cons.IH base64_value_Some by blast
  then show ?case by (intro exI [of _ "v # vs"]) auto
qed simp

lemma joined_bytes: "(x * 256 + y) * 256 + z = n \<Longrightarrow> x * 2 ^ 16 + y * 2 ^ 8 + z = (n :: nat)"
  by simp

lemma number_of_bytes:
  assumes "n < 2 ^ 24"
  obtains x y z :: u8 where "be_bytes n = [0, x, y, z]" "unat x * 2 ^ 16 + unat y * 2 ^ 8 + unat z = n"
proof -
  let ?q = "n div 256"
  let ?x = "?q div 256 mod 256"
  have "?x = ?q div 256" using assms by (simp add: div_mult2_eq [symmetric])
  then have "(?x * 256 + ?q mod 256) * 256 + n mod 256 = n" by (simp only: div_mult_mod_eq)
  then have "?x * 2 ^ 16 + ?q mod 256 * 2 ^ 8 + n mod 256 = n" by (rule joined_bytes)
  moreover have "unat (of_nat (m mod 256) :: u8) = m mod 256" for m by (simp add: unat_of_nat)
  moreover have "n div 2 ^ 24 = 0" "n div 2 ^ 16 = ?q div 256" "n div 2 ^ 8 = ?q"
    using assms by (simp_all add: div_mult2_eq [symmetric])
  ultimately show ?thesis
    by (intro that [of "of_nat ?x" "of_nat (?q mod 256)" "of_nat (n mod 256)"]) (simp_all add: be_bytes_def)
qed

lemma digits_below: "\<lbrakk>a < 64; b < 64; c < 64; d < 64\<rbrakk> \<Longrightarrow> a * 2 ^ 18 + b * 2 ^ 12 + c * 2 ^ 6 + d < (2 :: nat) ^ 24"
  by simp

text \<open>What one group of digits says: the text of its bytes is the group.\<close>

lemma group_inverse:
  assumes "base64_number std 0 g = Some n" "length g = 4 \<or> length g = 3 \<or> length g = 2"
    and "\<forall>b\<in>set (drop (length g) (be_bytes n)). b = 0"
  shows "base64_bare (drop 1 (take (length g) (be_bytes n)) @ (if length g = 4 then out else [])) =
    g @ (if length g = 4 then base64_bare out else [])"
proof -
  obtain vs where vs: "g = digit_chars vs" "length vs = length g" "\<forall>v\<in>set vs. v < 64"
    using number_inverse [OF assms(1)] by blast
  consider (four) a b c d where "vs = [a, b, c, d]" | (three) a b c where "vs = [a, b, c]" | (two) a b where "vs = [a, b]"
    using assms(2) vs(2) by (auto simp: length_Suc_conv numeral_eq_Suc)
  then show ?thesis
  proof cases
    case four
    then have lt: "a < 64" "b < 64" "c < 64" "d < 64" using vs(3) by auto
    have n: "n = a * 2 ^ 18 + b * 2 ^ 12 + c * 2 ^ 6 + d" using assms(1) vs(1) four lt by simp
    obtain x y z where "be_bytes n = [0, x, y, z]" "unat x * 2 ^ 16 + unat y * 2 ^ 8 + unat z = n"
      using number_of_bytes [of n] digits_below [OF lt] n by metis
    moreover have "digits_of n = [a, b, c, d]" unfolding n by (rule number_digits [OF lt])
    ultimately show ?thesis using vs(1) four by simp
  next
    case three
    then have lt: "a < 64" "b < 64" "c < 64" "(0 :: nat) < 64" using vs(3) by auto
    have n: "n = a * 2 ^ 18 + b * 2 ^ 12 + c * 2 ^ 6 + 0" using assms(1) vs(1) three lt by simp
    obtain x y z where xyz: "be_bytes n = [0, x, y, z]" "unat x * 2 ^ 16 + unat y * 2 ^ 8 + unat z = n"
      using number_of_bytes [of n] digits_below [OF lt] n by metis
    moreover have "z = 0" using assms(3) xyz(1) vs(1) three by simp
    moreover have "digits_of n = [a, b, c, 0]" unfolding n by (rule number_digits [OF lt])
    ultimately show ?thesis using vs(1) three by simp
  next
    case two
    then have lt: "a < 64" "b < 64" "(0 :: nat) < 64" "(0 :: nat) < 64" using vs(3) by auto
    have n: "n = a * 2 ^ 18 + b * 2 ^ 12 + 0 * 2 ^ 6 + 0" using assms(1) vs(1) two lt by simp
    obtain x y z where xyz: "be_bytes n = [0, x, y, z]" "unat x * 2 ^ 16 + unat y * 2 ^ 8 + unat z = n"
      using number_of_bytes [of n] digits_below [OF lt] n by metis
    moreover have "y = 0" "z = 0" using assms(3) xyz(1) vs(1) two by (simp_all add: numeral_2_eq_2)
    moreover have "digits_of n = [a, b, 0, 0]" unfolding n by (rule number_digits [OF lt])
    ultimately show ?thesis using vs(1) two by (simp add: numeral_2_eq_2)
  qed
qed

lemma groups_inverse:
  "base64_groups std t = Some bs \<Longrightarrow> length t mod 4 \<noteq> 1 \<Longrightarrow> base64_bare bs = t"
proof (induction "length t" arbitrary: t bs rule: less_induct)
  case less
  show ?case
  proof (cases "t = []")
    case True
    then show ?thesis using less.prems(1) by (simp add: base64_groups.simps)
  next
    case False
    let ?g = "take 4 t"
    obtain n out where n: "base64_number std 0 ?g = Some n" "\<forall>b\<in>set (drop (length ?g) (be_bytes n)). b = 0"
      and out: "base64_groups std (drop 4 t) = Some out" "bs = drop 1 (take (length ?g) (be_bytes n)) @ out"
      using less.prems(1) False
      by (subst (asm) base64_groups.simps) (auto simp: Let_def list_ex_iff split: option.splits if_splits)
    have len: "length ?g = 4 \<or> length ?g = 3 \<or> length ?g = 2"
    proof -
      have "length t \<noteq> 0" "length t \<noteq> 1" using False less.prems(2) by auto
      then show ?thesis unfolding length_take min_def by presburger
    qed
    show ?thesis
    proof (cases "length ?g = 4")
      case True
      then have ge: "4 \<le> length t" by (simp split: if_splits)
      then have "(length t - 4) mod 4 \<noteq> 1" using less.prems(2) le_mod_geq [OF ge] by metis
      then have "base64_bare out = drop 4 t" using less.hyps [of "drop 4 t" out] out(1) ge by simp
      then show ?thesis using group_inverse [OF n(1) len n(2), of out] True out(2) by simp
    next
      case short: False
      then have "drop 4 t = []" by (simp add: min_def split: if_splits)
      then have "out = []" using out(1) by (simp add: base64_groups.simps)
      then show ?thesis using group_inverse [OF n(1) len n(2), of out] short out(2) by (simp split: if_splits)
    qed
  qed
qed

section \<open>The decoder inverts the encoder\<close>

lemma bare_no_padding: "CHR ''='' \<notin> set (base64_bare bs)"
proof -
  have "base64_alphabet ! v \<noteq> CHR ''=''" if "v < 64" for v
    using base64_value_digit [OF that] by auto
  then have "CHR ''='' \<notin> set (digit_chars (take k (digits_of n)))" for k n
    using digit_below by (fastforce dest: in_set_takeD)
  from this [of 4] this [of 3] this [of 2] show ?thesis
    by (induction bs rule: base64_bare.induct) (simp_all del: take_map)
qed

lemma bare_length: "length (base64_bare bs) mod 4 \<noteq> 1"
  by (induction bs rule: base64_bare.induct) simp_all

lemma strip_padding_simps:
  "CHR ''='' \<notin> set xs \<Longrightarrow> strip_padding xs = xs" "strip_padding (xs @ ''=='') = xs"
  "CHR ''='' \<notin> set xs \<Longrightarrow> strip_padding (xs @ ''='') = xs"
proof -
  show "strip_padding xs = xs" if "CHR ''='' \<notin> set xs"
    using that by (auto simp: strip_padding_def suffix_def)
  show "strip_padding (xs @ ''=='') = xs"
    by (simp add: strip_padding_def suffix_def)
  have two: "zs @ ''=='' = (zs @ ''='') @ ''=''" for zs by simp
  show "strip_padding (xs @ ''='') = xs" if "CHR ''='' \<notin> set xs"
  proof -
    have "\<not> suffix ''=='' (xs @ ''='')"
      using that unfolding suffix_def two append_same_eq by auto
    then show ?thesis by (simp add: strip_padding_def suffix_def)
  qed
qed

lemma strip_padding_cases:
  obtains "strip_padding t = t" | "t = strip_padding t @ ''==''" | "length t = length (strip_padding t) + 1" "t = strip_padding t @ ''=''"
proof (cases "suffix ''=='' t")
  case True
  then obtain zs where "t = zs @ ''==''" by (auto simp: suffix_def)
  then show ?thesis using that(2) strip_padding_simps(2) [of zs] by simp
next
  case False
  show ?thesis
  proof (cases "suffix ''='' t")
    case True
    then obtain zs where "t = zs @ ''=''" by (auto simp: suffix_def)
    then show ?thesis using that(3) False by (simp add: strip_padding_def)
  qed (use that(1) False in \<open>simp add: strip_padding_def\<close>)
qed

lemma padding_cases:
  "n mod 4 = 0 \<Longrightarrow> base64_padding n = []" "n mod 4 = 2 \<Longrightarrow> base64_padding n = ''==''"
  "n mod 4 = 3 \<Longrightarrow> base64_padding n = ''=''"
  by (simp_all add: base64_padding_def) (simp add: numeral_2_eq_2)

lemma three_rests: "(n :: nat) mod 4 \<noteq> 1 \<Longrightarrow> n mod 4 = 0 \<or> n mod 4 = 2 \<or> n mod 4 = 3"
  by presburger

lemma padded:
  assumes "n mod 4 \<noteq> 1"
  shows "(n + length (base64_padding n)) mod 4 = 0"
  using three_rests [OF assms] by (auto simp: padding_cases mod_Suc)

lemma strip_padding_bare: "strip_padding (base64_bare bs @ base64_padding (length (base64_bare bs))) = base64_bare bs"
  using three_rests [OF bare_length [of bs]] strip_padding_simps bare_no_padding [of bs]
  by (auto simp: padding_cases)

text \<open>
  What the encoder of request media writes, the decoder of tool media reads back: every list of bytes, of any
  length, comes back as it was, with the padding and also without it.
\<close>

theorem base64_roundtrip:
  "decode_base64 (encode_base64_into [] data) = Some data \<and> decode_base64 (base64_bare data) = Some data"
  using padded [OF bare_length [of data]] bare_length [of data] groups_bare [of data]
    strip_padding_simps(1) [OF bare_no_padding [of data]]
  by (simp add: decode_base64_def base64_decode_def encode_base64_into_def encode_bare strip_padding_bare Let_def)

text \<open>
  The decoder accepts no text that the encoder does not write: a text that it accepts is, with its padding
  added when it has none, what the encoder writes for the bytes that the decoder gave. So no two texts of one form
  give the same bytes, and a stray byte, a wrong length, half a padding and bits after the last byte are refused.
\<close>

theorem base64_canonical:
  assumes "decode_base64 t = Some data"
  shows "encode_base64_into [] data = (if CHR ''='' \<in> set t then t else t @ base64_padding (length t))"
proof -
  have t: "base64_groups std (strip_padding t) = Some data" "length (strip_padding t) mod 4 \<noteq> 1"
    "length (strip_padding t) = length t \<or> length t mod 4 = 0"
    using assms by (auto simp: decode_base64_def base64_decode_def Let_def split: if_splits)
  note bare = groups_inverse [OF t(1,2)]
  then have enc: "encode_base64_into [] data = strip_padding t @ base64_padding (length (strip_padding t))"
    by (simp add: encode_base64_into_def encode_bare)
  have none: "CHR ''='' \<notin> set (strip_padding t)" using bare_no_padding [of data] bare by simp
  show ?thesis
  proof (cases rule: strip_padding_cases [of t])
    case 1
    then show ?thesis using enc none by simp
  next
    case 2
    then have len: "length t = length (strip_padding t) + 2" by (metis length_append length_Cons list.size(3) numeral_2_eq_2)
    then have "(length (strip_padding t) + 2) mod 4 = 0" using t(3) by simp
    then have "length (strip_padding t) mod 4 = 2" by presburger
    then have "encode_base64_into [] data = t" using enc 2 padding_cases(2) by simp
    then show ?thesis using 2 by (metis in_set_conv_decomp append_Cons append_Nil)
  next
    case 3
    then have "(length (strip_padding t) + 1) mod 4 = 0" using t(3) by simp
    then have "length (strip_padding t) mod 4 = 3" by presburger
    then have "encode_base64_into [] data = t" using enc 3 padding_cases(3) by simp
    then show ?thesis using 3(2) by (metis in_set_conv_decomp)
  qed
qed

theorem base64_canonical_witness:
  "encode_base64_into [] [77, 97] = (if CHR ''='' \<in> set ''TWE'' then ''TWE'' else ''TWE'' @ base64_padding (length ''TWE''))"
proof (rule base64_canonical)
  have "base64_bare [77, 97] = ''TWE''"
    by (simp add: digits_of_def base64_alphabet_def)
  then show "decode_base64 ''TWE'' = Some [77, 97]"
    using groups_bare [of "[77, 97]"] strip_padding_simps(1) [of "''TWE''"]
    by (simp add: decode_base64_def base64_decode_def)
qed

end
