(* ===== verification/Stream_Draft.thy ===== *)
theory Stream_Draft
  imports Ai_Types
begin

text \<open>
  The block table and the end of one response while it streams, \<open>crates/ai/src/stream/draft.rs\<close>: the
  part that the three reducers share. A pending delta holds its text; that the source borrows it from the
  payload when it can is not visible outside.

  An index out of range panics in the source: \<open>DecodePanic\<close>. \<open>hear\<close> is the order of events that a
  consumer relies on. The theory proves, for each operation, that it never panics on an id that the draft
  gave out, and that the events it adds are in that order and end with what the draft holds (\<open>grows\<close>).
\<close>

section \<open>The draft\<close>

datatype decode_error = DecodeProtocol | DecodeTooLarge | DecodePanic

datatype open_tools = KeepTools | DropTools

datatype block_state = BlockOpen | BlockStopped' | BlockDropped

record draft_block =
  db_kind :: block_kind
  db_state :: block_state
  db_call_id :: string
  db_name :: string
  db_bytes :: string
  db_replay :: "replay_kind option"

datatype pending =
    PendStarted block_id block_kind
  | PendDelta block_id block_kind string
  | PendSection block_id
  | PendStopped block_id
  | PendDone

record response_draft =
  dd_origin :: origin
  dd_limits :: response_limits
  dd_blocks :: "draft_block list"
  dd_events :: "pending list"
  dd_usage :: usage
  dd_finish_reason :: finish_reason
  dd_raw_finish_reason :: string
  dd_done :: bool

definition new_draft :: "origin \<Rightarrow> response_limits \<Rightarrow> response_draft" where
  "new_draft og limits =
     \<lparr>dd_origin = og, dd_limits = limits, dd_blocks = [], dd_events = [], dd_usage = no_usage,
      dd_finish_reason = FinUnknown, dd_raw_finish_reason = [], dd_done = False\<rparr>"

definition draft_pending :: "response_draft \<Rightarrow> nat" where
  "draft_pending d = length (dd_events d)"

definition clear_events :: "response_draft \<Rightarrow> response_draft" where
  "clear_events d = d\<lparr>dd_events := []\<rparr>"

section \<open>Its events\<close>

definition block_result_of :: "origin \<Rightarrow> draft_block \<Rightarrow> block_result" where
  "block_result_of og b =
     (case db_kind b of
        KText \<Rightarrow> ResText
      | KRefusal \<Rightarrow> ResRefusal
      | KReasoning \<Rightarrow>
          ResReasoning (map_option (\<lambda>k. \<lparr>replay_origin = og, replay_kind_of = k, replay_data = db_bytes b\<rparr>) (db_replay b))
      | KToolCall \<Rightarrow>
          ResToolCall \<lparr>call_id = db_call_id b, call_name = db_name b,
                       call_arguments = (if db_bytes b = [] then ''{}'' else db_bytes b)\<rparr>)"

definition pending_event :: "response_draft \<Rightarrow> pending \<Rightarrow> event" where
  "pending_event d x =
     (case x of
        PendStarted b k \<Rightarrow> BlockStarted b k
      | PendDelta b k t \<Rightarrow>
          (case k of
             KText \<Rightarrow> TextDelta b t
           | KRefusal \<Rightarrow> RefusalDelta b t
           | KReasoning \<Rightarrow> ReasoningDelta b t
           | KToolCall \<Rightarrow> ToolInputDelta b t)
      | PendSection b \<Rightarrow> ReasoningSectionStarted b
      | PendStopped b \<Rightarrow> BlockStopped b (block_result_of (dd_origin d) (dd_blocks d ! b))
      | PendDone \<Rightarrow>
          EvDone \<lparr>done_finish_reason = dd_finish_reason d, done_raw = dd_raw_finish_reason d, done_usage = dd_usage d\<rparr>)"

section \<open>Its operations\<close>

definition push_pending :: "pending \<Rightarrow> response_draft \<Rightarrow> response_draft" where
  "push_pending x d = d\<lparr>dd_events := dd_events d @ [x]\<rparr>"

definition put_block :: "block_id \<Rightarrow> draft_block \<Rightarrow> response_draft \<Rightarrow> response_draft" where
  "put_block i b d = d\<lparr>dd_blocks := (dd_blocks d)[i := b]\<rparr>"

definition start_block :: "block_kind \<Rightarrow> response_draft \<Rightarrow> decode_error + block_id \<times> response_draft" where
  "start_block k d =
     (if length (dd_blocks d) \<ge> max_blocks (dd_limits d) \<or> length (dd_blocks d) \<ge> 2 ^ 32 then Inl DecodeTooLarge
      else
        let i = length (dd_blocks d) in
        Inr (i, push_pending (PendStarted i k)
          (d\<lparr>dd_blocks := dd_blocks d @ [\<lparr>db_kind = k, db_state = BlockOpen, db_call_id = [], db_name = [],
             db_bytes = [], db_replay = None\<rparr>]\<rparr>)))"

definition open_block :: "block_id \<Rightarrow> response_draft \<Rightarrow> decode_error + draft_block" where
  "open_block i d =
     (if i \<ge> length (dd_blocks d) then Inl DecodePanic
      else if db_state (dd_blocks d ! i) = BlockOpen then Inr (dd_blocks d ! i)
      else Inl DecodeProtocol)"

definition identify :: "block_id \<Rightarrow> string \<Rightarrow> string \<Rightarrow> response_draft \<Rightarrow> decode_error + response_draft" where
  "identify i cid name d =
     bind_ok (open_block i d) (\<lambda>b.
       Inr (put_block i
         (b\<lparr>db_call_id := (if db_call_id b = [] then cid else db_call_id b),
            db_name := (if db_name b = [] then name else db_name b)\<rparr>) d))"

text \<open>A change of an open block in place: what a caller does with the block that \<open>open\<close> lends.\<close>

definition edit_block :: "block_id \<Rightarrow> (draft_block \<Rightarrow> draft_block) \<Rightarrow> response_draft \<Rightarrow> decode_error + response_draft" where
  "edit_block i f d = bind_ok (open_block i d) (\<lambda>b. Inr (put_block i (f b) d))"

definition start_tool :: "string \<Rightarrow> string \<Rightarrow> response_draft \<Rightarrow> decode_error + block_id \<times> response_draft" where
  "start_tool cid name d =
     bind_ok (start_block KToolCall d) (\<lambda>(i, d1). bind_ok (identify i cid name d1) (\<lambda>d2. Inr (i, d2)))"

definition draft_delta :: "block_id \<Rightarrow> string \<Rightarrow> response_draft \<Rightarrow> decode_error + response_draft" where
  "draft_delta i t d = bind_ok (open_block i d) (\<lambda>b. Inr (push_pending (PendDelta i (db_kind b) t) d))"

text \<open>The check of the kind is a \<open>debug_assert\<close>, which opens the block only in a debug build.\<close>

definition draft_section :: "block_id \<Rightarrow> response_draft \<Rightarrow> decode_error + response_draft" where
  "draft_section i d = Inr (push_pending (PendSection i) d)"

definition tool_delta :: "block_id \<Rightarrow> string \<Rightarrow> response_draft \<Rightarrow> decode_error + response_draft" where
  "tool_delta i t d =
     bind_ok (open_block i d) (\<lambda>b.
       if length t > max_tool_arg_bytes (dd_limits d) - length (db_bytes b) then Inl DecodeTooLarge
       else Inr (push_pending (PendDelta i KToolCall t) (put_block i (b\<lparr>db_bytes := db_bytes b @ t\<rparr>) d)))"

definition final_args :: "block_id \<Rightarrow> string \<Rightarrow> response_draft \<Rightarrow> decode_error + response_draft" where
  "final_args i args d =
     bind_ok (open_block i d) (\<lambda>b.
       if length args > max_tool_arg_bytes (dd_limits d) then Inl DecodeTooLarge
       else Inr (put_block i (b\<lparr>db_bytes := args\<rparr>) d))"

definition stop_block :: "block_id \<Rightarrow> response_draft \<Rightarrow> decode_error + response_draft" where
  "stop_block i d =
     bind_ok (open_block i d) (\<lambda>b. Inr (push_pending (PendStopped i) (put_block i (b\<lparr>db_state := BlockStopped'\<rparr>) d)))"

definition stop_if_open :: "block_id \<Rightarrow> response_draft \<Rightarrow> decode_error + response_draft" where
  "stop_if_open i d =
     (if i \<ge> length (dd_blocks d) then Inl DecodePanic
      else if db_state (dd_blocks d ! i) = BlockOpen then stop_block i d else Inr d)"

definition drop_block :: "block_id \<Rightarrow> response_draft \<Rightarrow> decode_error + response_draft" where
  "drop_block i d = bind_ok (open_block i d) (\<lambda>b. Inr (put_block i (b\<lparr>db_state := BlockDropped\<rparr>) d))"

definition any_open :: "response_draft \<Rightarrow> bool" where
  "any_open d = list_ex (\<lambda>b. db_state b = BlockOpen) (dd_blocks d)"

definition set_finish :: "finish_reason \<Rightarrow> string \<Rightarrow> response_draft \<Rightarrow> response_draft" where
  "set_finish r raw d = d\<lparr>dd_finish_reason := r, dd_raw_finish_reason := raw\<rparr>"

definition finish_draft :: "response_draft \<Rightarrow> response_draft" where
  "finish_draft d =
     (let refused = list_ex (\<lambda>b. db_kind b = KRefusal \<and> db_state b = BlockStopped') (dd_blocks d);
          reason = (if refused \<and> (dd_finish_reason d = FinStop \<or> dd_finish_reason d = FinToolCalls)
                    then FinRefusal else dd_finish_reason d)
      in push_pending PendDone (d\<lparr>dd_done := True, dd_finish_reason := reason\<rparr>))"

fun close_blocks :: "open_tools \<Rightarrow> nat list \<Rightarrow> response_draft \<Rightarrow> decode_error + response_draft" where
  "close_blocks tools [] d = Inr d"
| "close_blocks tools (i # is) d =
     bind_ok
       (if db_state (dd_blocks d ! i) \<noteq> BlockOpen then Inr d
        else if i \<ge> 2 ^ 32 then Inl DecodeTooLarge
        else if tools = DropTools \<and> db_kind (dd_blocks d ! i) = KToolCall then drop_block i d
        else stop_block i d)
       (close_blocks tools is)"

definition close_and_finish :: "open_tools \<Rightarrow> response_draft \<Rightarrow> decode_error + response_draft" where
  "close_and_finish tools d =
     bind_ok (close_blocks tools [0..<length (dd_blocks d)] d) (\<lambda>d1. Inr (finish_draft d1))"

section \<open>The order of events\<close>

text \<open>
  What a consumer has heard: the kind of each block and whether it may still go on, and whether the answer
  is over. \<open>hear\<close> takes one event, if it may come now: ids are dense, a delta and a stop name a block
  that has not stopped and its kind, and nothing follows the end.
\<close>

type_synonym heard = "(block_kind \<times> bool) list \<times> bool"

definition live :: "(block_kind \<times> bool) list \<Rightarrow> block_id \<Rightarrow> block_kind \<Rightarrow> bool" where
  "live ps i k \<longleftrightarrow> i < length ps \<and> ps ! i = (k, True)"

fun result_kind :: "block_result \<Rightarrow> block_kind" where
  "result_kind ResText = KText"
| "result_kind ResRefusal = KRefusal"
| "result_kind (ResReasoning _) = KReasoning"
| "result_kind (ResToolCall _) = KToolCall"

definition hear :: "heard \<Rightarrow> event \<Rightarrow> heard option" where
  "hear h x =
     (let ps = fst h in
      if snd h then None
      else
        case x of
          BlockStarted i k \<Rightarrow> if i = length ps then Some (ps @ [(k, True)], False) else None
        | TextDelta i t \<Rightarrow> if live ps i KText then Some h else None
        | RefusalDelta i t \<Rightarrow> if live ps i KRefusal then Some h else None
        | ReasoningDelta i t \<Rightarrow> if live ps i KReasoning then Some h else None
        | ToolInputDelta i t \<Rightarrow> if live ps i KToolCall then Some h else None
        | ReasoningSectionStarted i \<Rightarrow> if live ps i KReasoning then Some h else None
        | BlockStopped i r \<Rightarrow>
            if live ps i (result_kind r) then Some (ps[i := (result_kind r, False)], False) else None
        | EvDone e \<Rightarrow> Some (ps, True))"

fun hear_all :: "heard \<Rightarrow> event list \<Rightarrow> heard option" where
  "hear_all h [] = Some h"
| "hear_all h (x # xs) = (case hear h x of None \<Rightarrow> None | Some h1 \<Rightarrow> hear_all h1 xs)"

lemma hear_all_append:
  "hear_all h (xs @ ys) = (case hear_all h xs of None \<Rightarrow> None | Some h1 \<Rightarrow> hear_all h1 ys)"
  by (induction xs arbitrary: h) (auto split: option.split)

lemma result_kind_of [simp]: "result_kind (block_result_of og b) = db_kind b"
  by (simp add: block_result_of_def split: block_kind.split)

text \<open>What a draft has told: a dropped block reaches no consumer, so for one it is still open.\<close>

definition told :: "response_draft \<Rightarrow> heard" where
  "told d = (map (\<lambda>b. (db_kind b, db_state b \<noteq> BlockStopped')) (dd_blocks d), dd_done d)"

definition blocks_grow :: "draft_block list \<Rightarrow> draft_block list \<Rightarrow> bool" where
  "blocks_grow bs cs \<longleftrightarrow>
     length bs \<le> length cs \<and>
     (\<forall>i<length bs. db_kind (cs ! i) = db_kind (bs ! i) \<and> (db_state (bs ! i) \<noteq> BlockOpen \<longrightarrow> cs ! i = bs ! i))"

lemma blocks_grow_refl [simp]: "blocks_grow bs bs"
  by (simp add: blocks_grow_def)

lemma blocks_grow_trans: "blocks_grow as bs \<Longrightarrow> blocks_grow bs cs \<Longrightarrow> blocks_grow as cs"
  by (force simp: blocks_grow_def)

text \<open>The bounds on a draft, and what its end promises.\<close>

definition draft_ok :: "response_draft \<Rightarrow> bool" where
  "draft_ok d \<longleftrightarrow>
     length (dd_blocks d) \<le> max_blocks (dd_limits d) \<and>
     (\<forall>b\<in>set (dd_blocks d). db_kind b = KToolCall \<longrightarrow> length (db_bytes b) \<le> max_tool_arg_bytes (dd_limits d)) \<and>
     (dd_done d \<longrightarrow> \<not> any_open d \<and>
        (dd_finish_reason d = FinStop \<or> dd_finish_reason d = FinToolCalls \<longrightarrow>
           (\<forall>b\<in>set (dd_blocks d). db_kind b = KRefusal \<longrightarrow> db_state b \<noteq> BlockStopped')))"

text \<open>
  A draft that goes on from \<open>d\<close>: its new events, with their results as they read at any later time, take
  a consumer from what \<open>d\<close> told to what \<open>d'\<close> has told.
\<close>

definition grows :: "response_draft \<Rightarrow> response_draft \<Rightarrow> bool" where
  "grows d d' \<longleftrightarrow>
     dd_origin d' = dd_origin d \<and> dd_limits d' = dd_limits d \<and> blocks_grow (dd_blocks d) (dd_blocks d') \<and>
     (draft_ok d \<longrightarrow> draft_ok d') \<and>
     (\<exists>xs. dd_events d' = dd_events d @ xs \<and>
        (\<forall>e. blocks_grow (dd_blocks d') (dd_blocks e) \<longrightarrow>
           hear_all (told d) (map (pending_event e) xs) = Some (told d')))"

definition runs :: "response_draft \<Rightarrow> response_draft \<Rightarrow> bool" where
  "runs d d' \<longleftrightarrow> grows d d' \<and> \<not> dd_done d'"

lemma grows_refl [simp]: "grows d d"
  by (simp add: grows_def)

lemma grows_trans: "grows a b \<Longrightarrow> grows b c \<Longrightarrow> grows a c"
proof -
  assume ab: "grows a b" and bc: "grows b c"
  obtain xs where xs: "dd_events b = dd_events a @ xs"
    "\<And>e. blocks_grow (dd_blocks b) (dd_blocks e) \<Longrightarrow> hear_all (told a) (map (pending_event e) xs) = Some (told b)"
    using ab unfolding grows_def by blast
  obtain ys where ys: "dd_events c = dd_events b @ ys"
    "\<And>e. blocks_grow (dd_blocks c) (dd_blocks e) \<Longrightarrow> hear_all (told b) (map (pending_event e) ys) = Some (told c)"
    using bc unfolding grows_def by blast
  have g: "blocks_grow (dd_blocks b) (dd_blocks c)" using bc by (simp add: grows_def)
  have "hear_all (told a) (map (pending_event e) (xs @ ys)) = Some (told c)"
    if "blocks_grow (dd_blocks c) (dd_blocks e)" for e
    using xs(2) [OF blocks_grow_trans [OF g that]] ys(2) [OF that] by (simp add: hear_all_append)
  then have "\<exists>zs. dd_events c = dd_events a @ zs \<and> (\<forall>e. blocks_grow (dd_blocks c) (dd_blocks e) \<longrightarrow>
      hear_all (told a) (map (pending_event e) zs) = Some (told c))"
    using xs(1) ys(1) by (intro exI [of _ "xs @ ys"]) simp
  then show ?thesis using ab bc blocks_grow_trans unfolding grows_def by auto
qed

lemma runs_refl [simp]: "runs d d \<longleftrightarrow> \<not> dd_done d"
  by (simp add: runs_def)

lemma runs_trans: "runs a b \<Longrightarrow> runs b c \<Longrightarrow> runs a c"
  unfolding runs_def using grows_trans by blast

lemma runs_grows: "runs a b \<Longrightarrow> grows b c \<Longrightarrow> grows a c"
  unfolding runs_def using grows_trans by blast

lemma runs_live [dest]: "runs d d' \<Longrightarrow> \<not> dd_done d'"
  by (simp add: runs_def)

text \<open>An id that the draft gave out, with its kind.\<close>

definition has :: "response_draft \<Rightarrow> block_id \<Rightarrow> block_kind \<Rightarrow> bool" where
  "has d i k \<longleftrightarrow> i < length (dd_blocks d) \<and> db_kind (dd_blocks d ! i) = k"

lemma has_grows: "has d i k \<Longrightarrow> grows d d' \<Longrightarrow> has d' i k"
  by (auto simp: has_def grows_def blocks_grow_def)

lemma has_runs: "has d i k \<Longrightarrow> runs d d' \<Longrightarrow> has d' i k"
  by (simp add: runs_def has_grows)

section \<open>The operations keep the order\<close>

text \<open>A step that returns keeps \<open>Q\<close>, and a step that fails does not panic.\<close>

definition goes :: "decode_error + 'a \<Rightarrow> ('a \<Rightarrow> bool) \<Rightarrow> bool" where
  "goes m Q \<longleftrightarrow> (case m of Inl e \<Rightarrow> e \<noteq> DecodePanic | Inr x \<Rightarrow> Q x)"

lemma goes_simps [simp]: "goes (Inr x) Q \<longleftrightarrow> Q x" "goes (Inl e) Q \<longleftrightarrow> e \<noteq> DecodePanic"
  by (simp_all add: goes_def)

lemma goes_bind: "goes m P \<Longrightarrow> (\<And>x. P x \<Longrightarrow> goes (f x) Q) \<Longrightarrow> goes (bind_ok m f) Q"
  by (cases m) auto

lemma goes_mono: "goes m P \<Longrightarrow> (\<And>x. P x \<Longrightarrow> Q x) \<Longrightarrow> goes m Q"
  by (cases m) auto

lemma goes_Inr: "m = Inr x \<Longrightarrow> goes m Q \<Longrightarrow> Q x"
  by simp

lemma open_block_goes:
  "has d i k \<Longrightarrow>
     goes (open_block i d) (\<lambda>b. b = dd_blocks d ! i \<and> i < length (dd_blocks d) \<and> db_kind b = k \<and> db_state b = BlockOpen)"
  by (simp add: open_block_def has_def)

text \<open>A change of an open block that does not stop it, and events of the block.\<close>

lemma runs_put:
  assumes "i < length (dd_blocks d)" "db_state (dd_blocks d ! i) = BlockOpen" "\<not> dd_done d"
    and "db_kind b = db_kind (dd_blocks d ! i)" "db_state b \<noteq> BlockStopped'"
    and "db_kind b = KToolCall \<longrightarrow> draft_ok d \<longrightarrow> length (db_bytes b) \<le> max_tool_arg_bytes (dd_limits d)"
  shows "runs d (put_block i b d)"
proof -
  have "told (put_block i b d) = told d"
    using assms by (auto simp: told_def put_block_def map_update intro!: list_update_same_conv [THEN iffD2])
  moreover have "blocks_grow (dd_blocks d) ((dd_blocks d)[i := b])"
    using assms by (auto simp: blocks_grow_def nth_list_update)
  moreover have "draft_ok d \<longrightarrow> draft_ok (put_block i b d)"
    using assms set_update_subset_insert [of "dd_blocks d" i b] by (auto simp: draft_ok_def put_block_def)
  ultimately show ?thesis using assms(3) by (simp add: runs_def grows_def put_block_def)
qed

lemma runs_push:
  assumes "\<not> dd_done d" "\<And>e. blocks_grow (dd_blocks d) (dd_blocks e) \<Longrightarrow> hear (told d) (pending_event e x) = Some (told d)"
  shows "runs d (push_pending x d)"
  using assms by (auto simp: runs_def grows_def push_pending_def told_def draft_ok_def any_open_def)

lemma runs_fields:
  "\<not> dd_done d \<Longrightarrow> runs d (d\<lparr>dd_usage := u\<rparr>)"
  "\<not> dd_done d \<Longrightarrow> runs d (set_finish r raw d)"
  by (simp_all add: runs_def grows_def told_def draft_ok_def any_open_def set_finish_def)

lemma start_block_goes:
  assumes "\<not> dd_done d"
  shows "goes (start_block k d) (\<lambda>(i, d'). runs d d' \<and> has d' i k)"
proof (cases "length (dd_blocks d) \<ge> max_blocks (dd_limits d) \<or> length (dd_blocks d) \<ge> 2 ^ 32")
  case False
  let ?b = "\<lparr>db_kind = k, db_state = BlockOpen, db_call_id = [], db_name = [], db_bytes = [], db_replay = None\<rparr>"
  let ?d = "push_pending (PendStarted (length (dd_blocks d)) k) (d\<lparr>dd_blocks := dd_blocks d @ [?b]\<rparr>)"
  have "draft_ok d \<longrightarrow> draft_ok ?d" using False assms by (auto simp: draft_ok_def push_pending_def)
  then have "runs d ?d" using assms
    by (simp add: runs_def grows_def push_pending_def blocks_grow_def nth_append told_def hear_def pending_event_def)
  then show ?thesis using False by (auto simp: start_block_def Let_def has_def push_pending_def)
qed (auto simp: start_block_def)

lemma identify_goes:
  assumes "has d i k" "\<not> dd_done d"
  shows "goes (identify i cid name d) (runs d)"
  unfolding identify_def
proof (rule goes_bind [OF open_block_goes [OF assms(1)]])
  fix b assume b: "b = dd_blocks d ! i \<and> i < length (dd_blocks d) \<and> db_kind b = k \<and> db_state b = BlockOpen"
  show "goes (Inr (put_block i (b\<lparr>db_call_id := if db_call_id b = [] then cid else db_call_id b,
      db_name := if db_name b = [] then name else db_name b\<rparr>) d)) (runs d)"
    unfolding goes_simps by (rule runs_put) (use b assms in \<open>auto simp: draft_ok_def\<close>)
qed

lemma edit_block_goes:
  assumes "has d i k" "\<not> dd_done d" "k \<noteq> KToolCall"
    and "\<And>b. db_kind (f b) = db_kind b" "\<And>b. db_state (f b) = db_state b"
  shows "goes (edit_block i f d) (runs d)"
  unfolding edit_block_def
  by (rule goes_bind [OF open_block_goes [OF assms(1)]]) (use assms in \<open>auto intro!: runs_put\<close>)

lemma start_tool_goes:
  assumes "\<not> dd_done d"
  shows "goes (start_tool cid name d) (\<lambda>(i, d'). runs d d' \<and> has d' i KToolCall)"
  unfolding start_tool_def
proof (rule goes_bind [OF start_block_goes [OF assms]], clarify)
  fix i d1 assume d1: "runs d d1" "has d1 i KToolCall"
  have "goes (identify i cid name d1) (runs d1)" using d1 by (intro identify_goes) auto
  then show "goes (bind_ok (identify i cid name d1) (\<lambda>d2. Inr (i, d2))) (\<lambda>(i, d'). runs d d' \<and> has d' i KToolCall)"
    by (rule goes_bind) (use d1 runs_trans has_runs in auto)
qed

lemma hear_delta:
  assumes "i < length (dd_blocks d)" "db_state (dd_blocks d ! i) = BlockOpen" "\<not> dd_done d"
  shows "hear (told d) (pending_event e (PendDelta i (db_kind (dd_blocks d ! i)) t)) = Some (told d)"
  using assms by (cases "db_kind (dd_blocks d ! i)") (simp_all add: hear_def told_def pending_event_def live_def)

lemma draft_delta_goes:
  assumes "has d i k" "\<not> dd_done d"
  shows "goes (draft_delta i t d) (runs d)"
  unfolding draft_delta_def
  by (rule goes_bind [OF open_block_goes [OF assms(1)]]) (use assms in \<open>auto intro!: runs_push hear_delta\<close>)

lemma draft_section_runs:
  assumes "has d i KReasoning" "db_state (dd_blocks d ! i) = BlockOpen" "\<not> dd_done d"
  shows "goes (draft_section i d) (runs d)"
  using assms
  by (auto simp: draft_section_def has_def hear_def told_def pending_event_def live_def intro!: runs_push)

lemma draft_delta_closed:
  "i < length (dd_blocks d) \<Longrightarrow> db_state (dd_blocks d ! i) \<noteq> BlockOpen \<Longrightarrow> draft_delta i t d = Inl DecodeProtocol"
  by (simp add: draft_delta_def open_block_def)

lemma tool_delta_goes:
  assumes "has d i KToolCall" "\<not> dd_done d"
  shows "goes (tool_delta i t d) (runs d)"
  unfolding tool_delta_def
proof (rule goes_bind [OF open_block_goes [OF assms(1)]])
  fix b assume b: "b = dd_blocks d ! i \<and> i < length (dd_blocks d) \<and> db_kind b = KToolCall \<and> db_state b = BlockOpen"
  let ?d = "put_block i (b\<lparr>db_bytes := db_bytes b @ t\<rparr>) d"
  show "goes (if length t > max_tool_arg_bytes (dd_limits d) - length (db_bytes b) then Inl DecodeTooLarge
      else Inr (push_pending (PendDelta i KToolCall t) ?d)) (runs d)"
  proof (cases "length t > max_tool_arg_bytes (dd_limits d) - length (db_bytes b)")
    case False
    have "draft_ok d \<Longrightarrow> length (db_bytes b) \<le> max_tool_arg_bytes (dd_limits d)"
      using b by (auto simp: draft_ok_def)
    then have r: "runs d ?d" by (intro runs_put) (use b assms False in auto)
    have "hear (told ?d) (pending_event e (PendDelta i (db_kind (dd_blocks ?d ! i)) t)) = Some (told ?d)" for e
      by (rule hear_delta) (use b r in \<open>auto simp: put_block_def\<close>)
    then have "runs ?d (push_pending (PendDelta i KToolCall t) ?d)"
      using r b by (intro runs_push) (auto simp: put_block_def)
    then show ?thesis using r False runs_trans by simp
  qed simp
qed

lemma final_args_goes:
  assumes "has d i KToolCall" "\<not> dd_done d"
  shows "goes (final_args i args d) (runs d)"
  unfolding final_args_def
  by (rule goes_bind [OF open_block_goes [OF assms(1)]]) (use assms in \<open>auto intro!: runs_put\<close>)

lemma drop_block_goes:
  assumes "has d i k" "\<not> dd_done d"
  shows "goes (drop_block i d) (runs d)"
  unfolding drop_block_def
  by (rule goes_bind [OF open_block_goes [OF assms(1)]]) (use assms in \<open>auto simp: draft_ok_def intro!: runs_put\<close>)

lemma stop_block_goes:
  assumes "has d i k" "\<not> dd_done d"
  shows "goes (stop_block i d) (runs d)"
  unfolding stop_block_def
proof (rule goes_bind [OF open_block_goes [OF assms(1)]])
  fix b assume b: "b = dd_blocks d ! i \<and> i < length (dd_blocks d) \<and> db_kind b = k \<and> db_state b = BlockOpen"
  let ?b = "b\<lparr>db_state := BlockStopped'\<rparr>"
  let ?d = "push_pending (PendStopped i) (put_block i ?b d)"
  have grow: "blocks_grow (dd_blocks d) ((dd_blocks d)[i := ?b])"
    using b by (auto simp: blocks_grow_def nth_list_update)
  have "draft_ok d \<Longrightarrow> draft_ok ?d"
    using b assms(2) set_update_subset_insert [of "dd_blocks d" i ?b]
    by (auto simp: draft_ok_def put_block_def push_pending_def)
  moreover have "hear (told d) (pending_event e (PendStopped i)) = Some (told ?d)"
    if "blocks_grow ((dd_blocks d)[i := ?b]) (dd_blocks e)" for e
  proof -
    have "db_kind (dd_blocks e ! i) = db_kind b" using that b by (auto simp: blocks_grow_def)
    then show ?thesis using b assms(2)
      by (auto simp: hear_def pending_event_def told_def live_def put_block_def push_pending_def map_update)
  qed
  ultimately show "goes (Inr ?d) (runs d)"
    using assms(2) grow by (simp add: runs_def grows_def put_block_def push_pending_def)
qed

lemma stop_if_open_goes: "has d i k \<Longrightarrow> \<not> dd_done d \<Longrightarrow> goes (stop_if_open i d) (runs d)"
  by (auto simp: stop_if_open_def has_def intro: stop_block_goes [unfolded has_def])

lemma finish_draft_grows:
  assumes "\<not> dd_done d" "\<not> any_open d"
  shows "grows d (finish_draft d)" "dd_done (finish_draft d)"
proof -
  show "dd_done (finish_draft d)" by (simp add: finish_draft_def Let_def push_pending_def)
  have "draft_ok d \<longrightarrow> draft_ok (finish_draft d)"
    using assms
    by (auto simp: draft_ok_def finish_draft_def Let_def push_pending_def any_open_def list_ex_iff split: if_splits)
  then show "grows d (finish_draft d)"
    using assms(1) by (simp add: grows_def finish_draft_def Let_def push_pending_def told_def hear_def pending_event_def)
qed

text \<open>The close of every block: afterwards none is open, so the draft may end.\<close>

lemma close_blocks_goes:
  "\<not> dd_done d \<Longrightarrow> \<forall>i\<in>set is. i < length (dd_blocks d) \<Longrightarrow>
     goes (close_blocks tools is d)
       (\<lambda>d'. runs d d' \<and> length (dd_blocks d') = length (dd_blocks d) \<and> (\<forall>i\<in>set is. db_state (dd_blocks d' ! i) \<noteq> BlockOpen))"
proof (induction "is" arbitrary: d)
  case (Cons i js)
  let ?P = "\<lambda>d'. runs d d' \<and> length (dd_blocks d') = length (dd_blocks d) \<and> db_state (dd_blocks d' ! i) \<noteq> BlockOpen"
  have h: "has d i (db_kind (dd_blocks d ! i))" using Cons.prems by (simp add: has_def)
  have s: "goes (stop_block i d) ?P" "goes (drop_block i d) ?P"
    using stop_block_goes [OF h Cons.prems(1)] drop_block_goes [OF h Cons.prems(1)] h
    by (auto simp: stop_block_def drop_block_def open_block_def has_def push_pending_def put_block_def)
  have "goes (if db_state (dd_blocks d ! i) \<noteq> BlockOpen then Inr d else if i \<ge> 2 ^ 32 then Inl DecodeTooLarge
      else if tools = DropTools \<and> db_kind (dd_blocks d ! i) = KToolCall then drop_block i d else stop_block i d) ?P"
    using s Cons.prems(1) by simp
  then show ?case unfolding close_blocks.simps
  proof (rule goes_bind)
    fix d1 assume d1: "?P d1"
    have "goes (close_blocks tools js d1) (\<lambda>d'. runs d1 d' \<and> length (dd_blocks d') = length (dd_blocks d1) \<and>
        (\<forall>i\<in>set js. db_state (dd_blocks d' ! i) \<noteq> BlockOpen))"
      using d1 Cons.prems(2) by (intro Cons.IH) auto
    then show "goes (close_blocks tools js d1) (\<lambda>d'. runs d d' \<and> length (dd_blocks d') = length (dd_blocks d) \<and>
        (\<forall>i\<in>set (i # js). db_state (dd_blocks d' ! i) \<noteq> BlockOpen))"
    proof (rule goes_mono)
      fix d' assume d': "runs d1 d' \<and> length (dd_blocks d') = length (dd_blocks d1) \<and>
        (\<forall>i\<in>set js. db_state (dd_blocks d' ! i) \<noteq> BlockOpen)"
      have "dd_blocks d' ! i = dd_blocks d1 ! i"
        using d' d1 Cons.prems(2) by (auto simp: runs_def grows_def blocks_grow_def)
      then show "runs d d' \<and> length (dd_blocks d') = length (dd_blocks d) \<and>
          (\<forall>i\<in>set (i # js). db_state (dd_blocks d' ! i) \<noteq> BlockOpen)"
        using d' d1 runs_trans by auto
    qed
  qed
qed simp

lemma close_and_finish_goes:
  assumes "\<not> dd_done d"
  shows "goes (close_and_finish tools d) (\<lambda>d'. grows d d' \<and> dd_done d')"
  unfolding close_and_finish_def
proof (rule goes_bind [OF close_blocks_goes [OF assms]])
  fix d1 assume d1: "runs d d1 \<and> length (dd_blocks d1) = length (dd_blocks d) \<and>
    (\<forall>i\<in>set [0..<length (dd_blocks d)]. db_state (dd_blocks d1 ! i) \<noteq> BlockOpen)"
  then have "\<not> any_open d1" by (auto simp: any_open_def list_ex_iff in_set_conv_nth)
  then show "goes (Inr (finish_draft d1)) (\<lambda>d'. grows d d' \<and> dd_done d')"
    using d1 finish_draft_grows [of d1] runs_grows [of d d1 "finish_draft d1"] by auto
qed simp

end
