(* ===== verification/Reducer.thy ===== *)
theory Reducer
  imports Stream_Draft Failures
begin

text \<open>
  What the three reducers of \<open>crates/ai/src/stream\<close> share: how they read a payload, and the contract
  that the stream relies on (\<open>reducer\<close>).

  A payload reads in two ways. The tree path parses the whole document (\<open>json\<close>). The typed path reads
  the few fields of a frequent event with a derived \<open>Deserialize\<close>. Both parsers are libraries, so both are
  parameters; \<open>typed_*\<close> say what the derived code makes of a document that parses.
\<close>

section \<open>Reading\<close>

text \<open>\<open>data.trim_start().starts_with('{')\<close>.\<close>

definition starts_object :: "string \<Rightarrow> bool" where
  "starts_object data =
     (case chars_of data of
        None \<Rightarrow> False
      | Some cs \<Rightarrow> (case dropWhile is_whitespace cs of [] \<Rightarrow> False | c # _ \<Rightarrow> c = 123))"

text \<open>\<open>From<Malformed>\<close>: a malformed field rejects the frame.\<close>

definition from_frame :: "'a frame \<Rightarrow> decode_error + 'a" where
  "from_frame f = (case f of Inl _ \<Rightarrow> Inl DecodeProtocol | Inr x \<Rightarrow> Inr x)"

definition or_protocol :: "'a option \<Rightarrow> decode_error + 'a" where
  "or_protocol x = (case x of None \<Rightarrow> Inl DecodeProtocol | Some y \<Rightarrow> Inr y)"

text \<open>\<open>usize::try_from\<close> of an index that the typed path read.\<close>

definition typed_index :: "int \<Rightarrow> decode_error + nat" where
  "typed_index n = (if 0 \<le> n \<and> n \<le> int usize_max then Inr (nat n) else Inl DecodeProtocol)"

definition count64 :: "json \<Rightarrow> string \<Rightarrow> u64 option" where
  "count64 v key = map_option of_nat (json_count v key)"

text \<open>\<open>Option::max\<close>: a count that is absent is the least.\<close>

definition option_max :: "u64 option \<Rightarrow> u64 option \<Rightarrow> u64 option" where
  "option_max a b = (case a of None \<Rightarrow> b | Some x \<Rightarrow> (case b of None \<Rightarrow> a | Some y \<Rightarrow> Some (max x y)))"

definition saturating_add :: "u64 \<Rightarrow> u64 \<Rightarrow> u64" where
  "saturating_add a b = (if unat a + unat b < 2 ^ 64 then a + b else - 1)"

lemma saturating_add_unat: "unat (saturating_add a b) = min (unat a + unat b) (2 ^ 64 - 1)"
  by (auto simp: saturating_add_def unat_word_ariths unsigned_minus_1_eq_mask mask_eq_exp_minus_1)

lemma unwrap_simps [simp]:
  "from_frame (Inl u) = Inl DecodeProtocol" "from_frame (Inr x) = Inr x"
  "or_protocol None = Inl DecodeProtocol" "or_protocol (Some x) = Inr x"
  by (simp_all add: from_frame_def or_protocol_def)

lemma unwrap_goes:
  "goes (from_frame f) (\<lambda>x. f = Inr x)" "goes (or_protocol y) (\<lambda>x. y = Some x)" "goes (typed_index n) (\<lambda>i. n = int i)"
  by (auto simp: from_frame_def or_protocol_def typed_index_def split: sum.split option.split)

lemma goes_if: "(c \<Longrightarrow> goes a Q) \<Longrightarrow> (\<not> c \<Longrightarrow> goes b Q) \<Longrightarrow> goes (if c then a else b) Q"
  by simp

text \<open>A step that reports no failure of the provider.\<close>

lemma goes_no_kind: "goes m Q \<Longrightarrow> goes (bind_ok m (\<lambda>r. Inr (None, r))) (\<lambda>(k, r). Q r)"
  by (cases m) auto

lemma typed_index_get:
  "get_int v key = Some n \<Longrightarrow> from_frame (get_index v key) = typed_index n"
  by (simp add: get_index_def typed_index_def)

section \<open>Fields that a derived struct reads\<close>

text \<open>The members of a key in an object. A field that a struct reads may come once at most.\<close>

definition members_of :: "(string \<times> json) list \<Rightarrow> string \<Rightarrow> json list" where
  "members_of ms key = map snd (filter (\<lambda>m. fst m = key) ms)"

definition typed_field :: "(json option \<Rightarrow> 'a option) \<Rightarrow> (string \<times> json) list \<Rightarrow> string \<Rightarrow> 'a option" where
  "typed_field rd ms key =
     (case members_of ms key of [] \<Rightarrow> rd None | [v] \<Rightarrow> rd (Some v) | _ \<Rightarrow> None)"

definition typed_text :: "json option \<Rightarrow> string option" where
  "typed_text v = (case v of Some (JString t) \<Rightarrow> Some t | _ \<Rightarrow> None)"

definition typed_i64 :: "json option \<Rightarrow> int option" where
  "typed_i64 v = (case v of Some (JInteger n) \<Rightarrow> Some n | _ \<Rightarrow> None)"

text \<open>An \<open>Option\<close>: absent or null is \<open>None\<close>, and a value of another type fails the read.\<close>

definition typed_option :: "(json option \<Rightarrow> 'a option) \<Rightarrow> json option \<Rightarrow> 'a option option" where
  "typed_option rd v = (case v of None \<Rightarrow> Some None | Some JNull \<Rightarrow> Some None | Some w \<Rightarrow> map_option Some (rd (Some w)))"

text \<open>What the tree path finds in the same object.\<close>

lemma json_get_members: "json_get (JObject ms) key = (case members_of ms key of [] \<Rightarrow> None | v # _ \<Rightarrow> Some v)"
  by (induction ms) (auto simp: members_of_def)

lemma typed_field_get: "typed_field rd ms key = Some x \<Longrightarrow> rd (json_get (JObject ms) key) = Some x"
  by (auto simp: typed_field_def json_get_members simp del: json_get.simps split: list.splits)

lemma typed_text_get: "typed_field typed_text ms key = Some t \<Longrightarrow> get_str (JObject ms) key = Some t"
  by (auto simp: get_str_def typed_text_def dest!: typed_field_get split: option.splits json.splits)

lemma typed_option_get:
  "typed_field (typed_option typed_text) ms key = Some t \<Longrightarrow> get_str (JObject ms) key = t"
  by (auto simp: get_str_def typed_text_def typed_option_def dest!: typed_field_get split: option.splits json.splits)

lemma typed_i64_get: "typed_field typed_i64 ms key = Some n \<Longrightarrow> get_int (JObject ms) key = Some n"
  by (auto simp: get_int_def typed_i64_def dest!: typed_field_get split: option.splits json.splits)

section \<open>The contract of a reducer\<close>

text \<open>
  The client is the stream, which decodes payloads until the draft is done and hands out the events of each
  before it decodes the next. What it relies on: a payload never makes the reducer panic, the events that it
  adds are in the order that a consumer expects, and the reducer stays able to go on.
\<close>

locale reducer =
  fixes decode :: "string \<Rightarrow> 'r \<Rightarrow> decode_error + provider_kind option \<times> 'r"
    and draft :: "'r \<Rightarrow> response_draft"
    and clear :: "'r \<Rightarrow> 'r"
    and inv :: "'r \<Rightarrow> bool"
  assumes decode_goes:
      "inv r \<Longrightarrow> \<not> dd_done (draft r) \<Longrightarrow> goes (decode data r) (\<lambda>(k, r'). inv r' \<and> grows (draft r) (draft r'))"
    and clear_draft: "draft (clear r) = clear_events (draft r)"
    and clear_inv: "inv r \<Longrightarrow> inv (clear r)"
begin

text \<open>The payloads of one answer, each with its events: as long as the answer goes on and no error event comes.\<close>

fun decode_all :: "string list \<Rightarrow> 'r \<Rightarrow> decode_error + event list \<times> 'r" where
  "decode_all [] r = Inr ([], r)"
| "decode_all (p # ps) r =
     (if dd_done (draft r) then Inr ([], r)
      else bind_ok (decode p (clear r)) (\<lambda>(k, r1).
        if k \<noteq> None then Inr ([], r1)
        else bind_ok (decode_all ps r1) (\<lambda>(xs, r2).
          Inr (map (pending_event (draft r1)) (dd_events (draft r1)) @ xs, r2))))"

lemma decode_payload:
  assumes "inv r" "\<not> dd_done (draft r)"
  shows "goes (decode p (clear r)) (\<lambda>(k, r1). inv r1 \<and> blocks_grow (dd_blocks (draft r)) (dd_blocks (draft r1)) \<and>
    (draft_ok (draft r) \<longrightarrow> draft_ok (draft r1)) \<and> dd_limits (draft r1) = dd_limits (draft r) \<and>
    dd_origin (draft r1) = dd_origin (draft r) \<and>
    (\<forall>e. blocks_grow (dd_blocks (draft r1)) (dd_blocks e) \<longrightarrow>
       hear_all (told (draft r)) (map (pending_event e) (dd_events (draft r1))) = Some (told (draft r1))))"
proof -
  have d: "draft (clear r) = clear_events (draft r)" by (rule clear_draft)
  have "goes (decode p (clear r)) (\<lambda>(k, r1). inv r1 \<and> grows (draft (clear r)) (draft r1))"
    using assms by (intro decode_goes clear_inv) (simp_all add: d clear_events_def)
  then show ?thesis
    by (rule goes_mono)
      (auto simp: d clear_events_def grows_def told_def draft_ok_def any_open_def)
qed

text \<open>What a consumer hears of any number of payloads is well formed, and ends with what the draft holds.\<close>

lemma decode_all_goes:
  "inv r \<Longrightarrow> goes (decode_all ps r) (\<lambda>(xs, r'). inv r' \<and> (draft_ok (draft r) \<longrightarrow> draft_ok (draft r')) \<and>
     (\<exists>h. hear_all (told (draft r)) xs = Some h))"
proof (induction ps arbitrary: r)
  case (Cons p ps)
  show ?case
  proof (cases "dd_done (draft r)")
    case False
    then show ?thesis
      unfolding decode_all.simps if_not_P [OF False]
    proof (intro goes_bind [OF decode_payload [OF Cons.prems False]], clarify)
      fix k r1
      assume r1: "inv r1" "draft_ok (draft r) \<longrightarrow> draft_ok (draft r1)"
        "\<forall>e. blocks_grow (dd_blocks (draft r1)) (dd_blocks e) \<longrightarrow>
           hear_all (told (draft r)) (map (pending_event e) (dd_events (draft r1))) = Some (told (draft r1))"
      have now: "hear_all (told (draft r)) (map (pending_event (draft r1)) (dd_events (draft r1))) = Some (told (draft r1))"
        using r1(3) by simp
      have "goes (bind_ok (decode_all ps r1) (\<lambda>(xs, r2).
          Inr (map (pending_event (draft r1)) (dd_events (draft r1)) @ xs, r2)))
        (\<lambda>(xs, r'). inv r' \<and> (draft_ok (draft r) \<longrightarrow> draft_ok (draft r')) \<and> (\<exists>h. hear_all (told (draft r)) xs = Some h))"
        by (rule goes_bind [OF Cons.IH [OF r1(1)]]) (use r1(2) in \<open>auto simp: hear_all_append now\<close>)
      then show "goes (if k \<noteq> None then Inr ([], r1) else bind_ok (decode_all ps r1) (\<lambda>(xs, r2).
          Inr (map (pending_event (draft r1)) (dd_events (draft r1)) @ xs, r2)))
        (\<lambda>(xs, r'). inv r' \<and> (draft_ok (draft r) \<longrightarrow> draft_ok (draft r')) \<and> (\<exists>h. hear_all (told (draft r)) xs = Some h))"
        using r1 by auto
    qed
  qed (use Cons.prems in simp)
qed simp

end

end
