(* ===== verification/Anthropic.thy ===== *)
theory Anthropic
  imports Reducer
begin

text \<open>
  The reducer of Anthropic Messages, \<open>crates/ai/src/stream/anthropic.rs\<close>: every event handler, both read
  paths, and the map from the blocks of the provider to those of the draft.

  The theory proves the contract of a reducer for it, and when the typed path of a delta is the tree path:
  \<open>typed_is_tree\<close>. The one document for which they differ has an array as its \<open>delta\<close>.
\<close>

section \<open>The reducer\<close>

text \<open>The fields of a delta; \<open>DeltaFields\<close> and \<open>DeltaView\<close> differ only in what they borrow.\<close>

record delta_view =
  dv_kind :: string
  dv_text :: "string option"
  dv_thinking :: "string option"
  dv_signature :: "string option"
  dv_partial_json :: "string option"

record block_delta =
  bd_event :: string
  bd_index :: int
  bd_delta :: delta_view

record anthropic =
  an_draft :: response_draft
  an_slots :: "block_id option list"
  an_uncached :: "u64 option"

definition new_anthropic :: "response_draft \<Rightarrow> anthropic" where
  "new_anthropic d = \<lparr>an_draft = d, an_slots = [], an_uncached = None\<rparr>"

definition an_lift :: "(response_draft \<Rightarrow> decode_error + response_draft) \<Rightarrow> anthropic \<Rightarrow> decode_error + anthropic" where
  "an_lift f r = bind_ok (f (an_draft r)) (\<lambda>d. Inr (r\<lparr>an_draft := d\<rparr>))"

definition an_block_kind :: "string \<Rightarrow> block_kind option" where
  "an_block_kind t =
     (if t = ''text'' then Some KText
      else if t = ''thinking'' \<or> t = ''redacted_thinking'' then Some KReasoning
      else if t = ''tool_use'' then Some KToolCall
      else None)"

definition an_finish_reason :: "string \<Rightarrow> finish_reason" where
  "an_finish_reason raw =
     (if raw = ''end_turn'' \<or> raw = ''stop_sequence'' then FinStop
      else if raw = ''max_tokens'' \<or> raw = ''model_context_window_exceeded'' then FinLength
      else if raw = ''tool_use'' then FinToolCalls
      else if raw = ''refusal'' then FinRefusal
      else if raw = ''pause_turn'' then FinPause
      else FinUnknown)"

section \<open>Usage\<close>

definition fold_prompt_usage :: "json \<Rightarrow> anthropic \<Rightarrow> anthropic" where
  "fold_prompt_usage usage r =
     (let total = dd_usage (an_draft r);
          uncached = option_max (an_uncached r) (count64 usage ''input_tokens'');
          cr = option_max (usage_cache_read total) (count64 usage ''cache_read_input_tokens'');
          cw = option_max (usage_cache_write total) (count64 usage ''cache_creation_input_tokens'');
          inp = map_option (\<lambda>u. saturating_add (saturating_add u (case cr of None \<Rightarrow> 0 | Some c \<Rightarrow> c))
                                (case cw of None \<Rightarrow> 0 | Some c \<Rightarrow> c)) uncached
      in r\<lparr>an_uncached := uncached,
           an_draft := (an_draft r)\<lparr>dd_usage := total\<lparr>usage_cache_read := cr, usage_cache_write := cw, usage_input := inp\<rparr>\<rparr>\<rparr>)"

definition on_message_start :: "json \<Rightarrow> anthropic \<Rightarrow> anthropic" where
  "on_message_start root r =
     (case get_object root ''message'' of
        None \<Rightarrow> r
      | Some message \<Rightarrow>
          (case get_object message ''usage'' of None \<Rightarrow> r | Some usage \<Rightarrow> fold_prompt_usage usage r))"

section \<open>Blocks\<close>

definition nonempty_delta :: "block_id \<Rightarrow> string option \<Rightarrow> response_draft \<Rightarrow> decode_error + response_draft" where
  "nonempty_delta i text d =
     (case text of None \<Rightarrow> Inr d | Some t \<Rightarrow> if t = [] then Inr d else draft_delta i t d)"

definition unwrap_or_default :: "string option \<Rightarrow> string" where
  "unwrap_or_default t = (case t of None \<Rightarrow> [] | Some s \<Rightarrow> s)"

text \<open>What the start of a block brings, once the block is open.\<close>

definition an_block_body :: "json \<Rightarrow> string \<Rightarrow> block_kind \<Rightarrow> block_id \<Rightarrow> response_draft \<Rightarrow> decode_error + response_draft" where
  "an_block_body block ty kind i d =
     (case kind of
        KText \<Rightarrow> nonempty_delta i (get_str block ''text'') d
      | KReasoning \<Rightarrow>
          if ty = ''redacted_thinking'' then
            edit_block i (\<lambda>b. b\<lparr>db_replay := Some AnthropicRedacted,
              db_bytes := db_bytes b @ unwrap_or_default (get_str block ''data'')\<rparr>) d
          else
            bind_ok (edit_block i (\<lambda>b. b\<lparr>db_replay := Some AnthropicSignature\<rparr>) d) (\<lambda>d1.
            bind_ok (nonempty_delta i (get_str block ''thinking'') d1) (\<lambda>d2.
            edit_block i (\<lambda>b. b\<lparr>db_bytes := db_bytes b @ unwrap_or_default (get_str block ''signature'')\<rparr>) d2))
      | _ \<Rightarrow> Inr d)"

definition on_block_start :: "json \<Rightarrow> anthropic \<Rightarrow> decode_error + anthropic" where
  "on_block_start root r =
     bind_ok (from_frame (get_index root ''index'')) (\<lambda>index.
       if index \<noteq> length (an_slots r) then Inl DecodeProtocol
       else if length (an_slots r) \<ge> max_blocks (dd_limits (an_draft r)) then Inl DecodeTooLarge
       else
         bind_ok (or_protocol (json_get root ''content_block'')) (\<lambda>block.
         bind_ok (from_frame (require_str block ''type'')) (\<lambda>ty.
           case an_block_kind ty of
             None \<Rightarrow> Inr (r\<lparr>an_slots := an_slots r @ [None]\<rparr>)
           | Some kind \<Rightarrow>
               bind_ok
                 (if kind = KToolCall then
                    bind_ok (from_frame (require_str block ''id'')) (\<lambda>cid.
                    bind_ok (from_frame (require_str block ''name'')) (\<lambda>name. start_tool cid name (an_draft r)))
                  else start_block kind (an_draft r)) (\<lambda>(i, d).
               an_lift (an_block_body block ty kind i) (r\<lparr>an_draft := d, an_slots := an_slots r @ [Some i]\<rparr>)))))"

definition delta_of :: "json \<Rightarrow> decode_error + delta_view" where
  "delta_of root =
     bind_ok (or_protocol (json_get root ''delta'')) (\<lambda>delta.
     bind_ok (from_frame (require_str delta ''type'')) (\<lambda>kind.
       Inr \<lparr>dv_kind = kind, dv_text = get_str delta ''text'', dv_thinking = get_str delta ''thinking'',
            dv_signature = get_str delta ''signature'', dv_partial_json = get_str delta ''partial_json''\<rparr>))"

definition slot_at :: "nat \<Rightarrow> anthropic \<Rightarrow> decode_error + block_id option" where
  "slot_at index r = (if index < length (an_slots r) then Inr (an_slots r ! index) else Inl DecodeProtocol)"

definition delta_expects :: "string \<Rightarrow> block_kind option" where
  "delta_expects k =
     (if k = ''text_delta'' then Some KText
      else if k = ''thinking_delta'' \<or> k = ''signature_delta'' then Some KReasoning
      else if k = ''input_json_delta'' then Some KToolCall
      else None)"

definition put_delta :: "delta_view \<Rightarrow> block_id \<Rightarrow> response_draft \<Rightarrow> decode_error + response_draft" where
  "put_delta v i d =
     (if dv_kind v = ''text_delta'' then bind_ok (or_protocol (dv_text v)) (\<lambda>t. draft_delta i t d)
      else if dv_kind v = ''thinking_delta'' then bind_ok (or_protocol (dv_thinking v)) (\<lambda>t. draft_delta i t d)
      else if dv_kind v = ''signature_delta'' then
        bind_ok (or_protocol (dv_signature v)) (\<lambda>t. edit_block i (\<lambda>b. b\<lparr>db_bytes := db_bytes b @ t\<rparr>) d)
      else bind_ok (or_protocol (dv_partial_json v)) (\<lambda>t. tool_delta i t d))"

definition an_apply_delta :: "nat \<Rightarrow> decode_error + delta_view \<Rightarrow> anthropic \<Rightarrow> decode_error + anthropic" where
  "an_apply_delta index delta r =
     bind_ok (slot_at index r) (\<lambda>slot.
       case slot of
         None \<Rightarrow> Inr r
       | Some i \<Rightarrow>
           bind_ok (open_block i (an_draft r)) (\<lambda>b.
           bind_ok delta (\<lambda>v.
             case delta_expects (dv_kind v) of
               None \<Rightarrow> Inr r
             | Some expected \<Rightarrow>
                 if db_kind b \<noteq> expected then Inl DecodeProtocol
                 else if db_replay b = Some AnthropicRedacted then Inl DecodeProtocol
                 else an_lift (put_delta v i) r)))"

definition on_block_delta :: "json \<Rightarrow> anthropic \<Rightarrow> decode_error + anthropic" where
  "on_block_delta root r =
     bind_ok (from_frame (get_index root ''index'')) (\<lambda>index. an_apply_delta index (delta_of root) r)"

definition on_block_stop :: "json \<Rightarrow> anthropic \<Rightarrow> decode_error + anthropic" where
  "on_block_stop root r =
     bind_ok (from_frame (get_index root ''index'')) (\<lambda>index.
     bind_ok (slot_at index r) (\<lambda>slot.
       case slot of None \<Rightarrow> Inr r | Some i \<Rightarrow> an_lift (stop_block i) r))"

section \<open>The end\<close>

definition on_message_delta :: "json \<Rightarrow> anthropic \<Rightarrow> anthropic" where
  "on_message_delta root r =
     (let r1 = (case json_get root ''delta'' of
                  None \<Rightarrow> r
                | Some delta \<Rightarrow>
                    (case get_str delta ''stop_reason'' of
                       None \<Rightarrow> r
                     | Some raw \<Rightarrow> r\<lparr>an_draft := set_finish (an_finish_reason raw) raw (an_draft r)\<rparr>))
      in case get_object root ''usage'' of
           None \<Rightarrow> r1
         | Some usage \<Rightarrow>
             let total = dd_usage (an_draft r1);
                 out = option_max (usage_output total) (count64 usage ''output_tokens'');
                 reas = (case get_object usage ''output_tokens_details'' of
                           None \<Rightarrow> usage_reasoning total
                         | Some details \<Rightarrow> option_max (usage_reasoning total) (count64 details ''thinking_tokens''))
             in fold_prompt_usage usage
                  (r1\<lparr>an_draft := (an_draft r1)\<lparr>dd_usage := total\<lparr>usage_output := out, usage_reasoning := reas\<rparr>\<rparr>\<rparr>))"

definition on_message_stop :: "anthropic \<Rightarrow> decode_error + anthropic" where
  "on_message_stop r =
     (if any_open (an_draft r) then Inl DecodeProtocol
      else Inr (r\<lparr>an_draft := finish_draft (an_draft r)\<rparr>))"

section \<open>A payload\<close>

definition an_decode_tree :: "json \<Rightarrow> anthropic \<Rightarrow> decode_error + provider_kind option \<times> anthropic" where
  "an_decode_tree root r =
     bind_ok (from_frame (require_str root ''type'')) (\<lambda>ty.
       if ty = ''error'' then Inr (Some (event_kind root), r)
       else
         bind_ok
           (if ty = ''message_start'' then Inr (on_message_start root r)
            else if ty = ''content_block_start'' then on_block_start root r
            else if ty = ''content_block_delta'' then on_block_delta root r
            else if ty = ''content_block_stop'' then on_block_stop root r
            else if ty = ''message_delta'' then Inr (on_message_delta root r)
            else if ty = ''message_stop'' then on_message_stop r
            else Inr r)
           (\<lambda>r1. Inr (None, r1)))"

definition an_decode ::
  "json_parser \<Rightarrow> (string \<Rightarrow> block_delta option) \<Rightarrow> string \<Rightarrow> anthropic \<Rightarrow>
     decode_error + provider_kind option \<times> anthropic" where
  "an_decode parse typed data r =
     (let event = (if starts_object data then typed data else None);
          tree = bind_ok (or_protocol (parse data)) (\<lambda>root. an_decode_tree root r)
      in case event of
           None \<Rightarrow> tree
         | Some e \<Rightarrow>
             if bd_event e = ''content_block_delta'' then
               bind_ok (typed_index (bd_index e)) (\<lambda>index.
               bind_ok (an_apply_delta index (Inr (bd_delta e)) r) (\<lambda>r1. Inr (None, r1)))
             else tree)"

section \<open>What the derived read makes of a document\<close>

text \<open>
  \<open>derive(Deserialize)\<close> reads a struct from an object by name, or from an array by position; an array has
  exactly one element per field.
\<close>

definition read_delta_fields :: "json option \<Rightarrow> delta_view option" where
  "read_delta_fields v =
     (let view = (\<lambda>k t th s p.
            (case (k, t, th, s, p) of
               (Some k', Some t', Some th', Some s', Some p') \<Rightarrow>
                 Some \<lparr>dv_kind = k', dv_text = t', dv_thinking = th', dv_signature = s', dv_partial_json = p'\<rparr>
             | _ \<Rightarrow> None));
          opt = typed_option typed_text
      in case v of
           Some (JObject ms) \<Rightarrow>
             view (typed_field typed_text ms ''type'') (typed_field opt ms ''text'') (typed_field opt ms ''thinking'')
               (typed_field opt ms ''signature'') (typed_field opt ms ''partial_json'')
         | Some (JArray [k, t, th, s, p]) \<Rightarrow>
             view (typed_text (Some k)) (opt (Some t)) (opt (Some th)) (opt (Some s)) (opt (Some p))
         | _ \<Rightarrow> None)"

definition read_block_delta :: "json \<Rightarrow> block_delta option" where
  "read_block_delta v =
     (let event = (\<lambda>e i d.
            (case (e, i, d) of
               (Some e', Some i', Some d') \<Rightarrow> Some \<lparr>bd_event = e', bd_index = i', bd_delta = d'\<rparr>
             | _ \<Rightarrow> None))
      in case v of
           JObject ms \<Rightarrow>
             event (typed_field typed_text ms ''type'') (typed_field typed_i64 ms ''index'')
               (typed_field read_delta_fields ms ''delta'')
         | JArray [e, i, d] \<Rightarrow> event (typed_text (Some e)) (typed_i64 (Some i)) (read_delta_fields (Some d))
         | _ \<Rightarrow> None)"

section \<open>The contract\<close>

text \<open>Each slot names a block of the draft.\<close>

definition an_inv :: "anthropic \<Rightarrow> bool" where
  "an_inv r \<longleftrightarrow> (\<forall>i. Some i \<in> set (an_slots r) \<longrightarrow> i < length (dd_blocks (an_draft r)))"

lemma an_inv_same: "an_inv r \<Longrightarrow> an_slots r' = an_slots r \<Longrightarrow> grows (an_draft r) (an_draft r') \<Longrightarrow> an_inv r'"
  by (fastforce simp: an_inv_def grows_def blocks_grow_def)

lemma an_inv_grows:
  "an_inv r \<Longrightarrow> grows (an_draft r) d \<Longrightarrow> an_inv (r\<lparr>an_draft := d\<rparr>)"
  by (rule an_inv_same [of r]) simp_all

lemma an_slot_has: "an_inv r \<Longrightarrow> Some i \<in> set (an_slots r) \<Longrightarrow> has (an_draft r) i (db_kind (dd_blocks (an_draft r) ! i))"
  by (simp add: an_inv_def has_def)

lemma an_lift_goes:
  "an_inv r \<Longrightarrow> goes (f (an_draft r)) (grows (an_draft r)) \<Longrightarrow>
     goes (an_lift f r) (\<lambda>r'. an_inv r' \<and> grows (an_draft r) (an_draft r'))"
  by (cases "f (an_draft r)") (auto simp: an_lift_def intro: an_inv_grows)

lemma goes_runs_grows: "goes m (runs d) \<Longrightarrow> goes m (grows d)"
  by (erule goes_mono) (simp add: runs_def)

lemma nonempty_delta_goes:
  "has d i k \<Longrightarrow> \<not> dd_done d \<Longrightarrow> goes (nonempty_delta i t d) (runs d)"
  by (auto simp: nonempty_delta_def intro: draft_delta_goes split: option.split)

lemma an_block_body_goes:
  assumes "has d i k" "\<not> dd_done d"
  shows "goes (an_block_body block ty k i d) (runs d)"
proof (cases k)
  case KReasoning
  note h = assms(1) [unfolded KReasoning]
  show ?thesis
  proof (cases "ty = ''redacted_thinking''")
    case True
    then show ?thesis using KReasoning
      by (auto simp: an_block_body_def intro!: edit_block_goes [OF h assms(2)])
  next
    case False
    have "goes (bind_ok (edit_block i (\<lambda>b. b\<lparr>db_replay := Some AnthropicSignature\<rparr>) d) (\<lambda>d1.
            bind_ok (nonempty_delta i (get_str block ''thinking'') d1) (\<lambda>d2.
            edit_block i (\<lambda>b. b\<lparr>db_bytes := db_bytes b @ unwrap_or_default (get_str block ''signature'')\<rparr>) d2))) (runs d)"
    proof (rule goes_bind [where P = "runs d"])
      show "goes (edit_block i (\<lambda>b. b\<lparr>db_replay := Some AnthropicSignature\<rparr>) d) (runs d)"
        by (rule edit_block_goes [OF h assms(2)]) simp_all
      fix d1 assume d1: "runs d d1"
      note h1 = has_runs [OF h d1]
      show "goes (bind_ok (nonempty_delta i (get_str block ''thinking'') d1) (\<lambda>d2.
            edit_block i (\<lambda>b. b\<lparr>db_bytes := db_bytes b @ unwrap_or_default (get_str block ''signature'')\<rparr>) d2)) (runs d)"
      proof (rule goes_bind [where P = "runs d1"])
        show "goes (nonempty_delta i (get_str block ''thinking'') d1) (runs d1)"
          using nonempty_delta_goes [OF h1] d1 by auto
        fix d2 assume d2: "runs d1 d2"
        have "goes (edit_block i (\<lambda>b. b\<lparr>db_bytes := db_bytes b @ unwrap_or_default (get_str block ''signature'')\<rparr>) d2) (runs d2)"
          using d2 by (intro edit_block_goes [OF has_runs [OF h1 d2]]) auto
        then show "goes (edit_block i (\<lambda>b. b\<lparr>db_bytes := db_bytes b @ unwrap_or_default (get_str block ''signature'')\<rparr>) d2) (runs d)"
          by (rule goes_mono) (use runs_trans [OF d1 d2] runs_trans in blast)
      qed
    qed
    then show ?thesis using KReasoning False by (simp add: an_block_body_def)
  qed
qed (use assms nonempty_delta_goes [OF assms] in \<open>auto simp: an_block_body_def\<close>)

lemma put_delta_goes:
  assumes "has d i k" "\<not> dd_done d" "delta_expects (dv_kind v) = Some k"
  shows "goes (put_delta v i d) (runs d)"
proof -
  have e: "goes (edit_block i (\<lambda>b. b\<lparr>db_bytes := db_bytes b @ t\<rparr>) d) (runs d)" if "k \<noteq> KToolCall" for t
    by (rule edit_block_goes [OF assms(1,2) that]) simp_all
  show ?thesis
    using assms(3) e draft_delta_goes [OF assms(1,2)] tool_delta_goes [of d i] assms(1,2)
    by (auto simp: put_delta_def delta_expects_def intro!: goes_bind [OF unwrap_goes(2)] split: if_splits)
qed

lemma slot_at_goes: "goes (slot_at index r) (\<lambda>s. s = None \<or> (\<exists>i. s = Some i \<and> Some i \<in> set (an_slots r)))"
  by (cases "an_slots r ! index") (auto simp: slot_at_def in_set_conv_nth)

lemma an_apply_delta_goes:
  assumes "an_inv r" "\<not> dd_done (an_draft r)" "delta \<noteq> Inl DecodePanic"
  shows "goes (an_apply_delta index delta r) (\<lambda>r'. an_inv r' \<and> grows (an_draft r) (an_draft r'))"
  unfolding an_apply_delta_def
proof (rule goes_bind [OF slot_at_goes])
  fix s assume s: "s = None \<or> (\<exists>i. s = Some i \<and> Some i \<in> set (an_slots r))"
  let ?go = "\<lambda>i b v. case delta_expects (dv_kind v) of None \<Rightarrow> Inr r
    | Some expected \<Rightarrow> if db_kind b \<noteq> expected then Inl DecodeProtocol
        else if db_replay b = Some AnthropicRedacted then Inl DecodeProtocol else an_lift (put_delta v i) r"
  show "goes (case s of None \<Rightarrow> Inr r | Some i \<Rightarrow> bind_ok (open_block i (an_draft r)) (\<lambda>b. bind_ok delta (?go i b)))
    (\<lambda>r'. an_inv r' \<and> grows (an_draft r) (an_draft r'))"
  proof (cases s)
    case (Some i)
    then have h: "has (an_draft r) i (db_kind (dd_blocks (an_draft r) ! i))"
      using s an_slot_has [OF assms(1)] by simp
    show ?thesis unfolding Some option.case
    proof (rule goes_bind [OF open_block_goes [OF h]], rule goes_bind [where P = "\<lambda>_. True"])
      show "goes delta (\<lambda>_. True)" using assms(3) by (cases delta) auto
      fix b v assume b: "b = dd_blocks (an_draft r) ! i \<and> i < length (dd_blocks (an_draft r)) \<and>
        db_kind b = db_kind (dd_blocks (an_draft r) ! i) \<and> db_state b = BlockOpen"
      show "goes (?go i b v) (\<lambda>r'. an_inv r' \<and> grows (an_draft r) (an_draft r'))"
        using assms(1) b put_delta_goes [OF h assms(2)]
        by (auto intro!: an_lift_goes goes_runs_grows split: option.split)
    qed
  qed (use assms in simp)
qed

lemma delta_of_no_panic: "delta_of root \<noteq> Inl DecodePanic"
proof -
  have "goes (delta_of root) (\<lambda>_. True)"
    unfolding delta_of_def by (intro goes_bind [OF unwrap_goes(2)] goes_bind [OF unwrap_goes(1)]) simp
  then show ?thesis by auto
qed

lemma on_block_start_goes:
  assumes "an_inv r" "\<not> dd_done (an_draft r)"
  shows "goes (on_block_start root r) (\<lambda>r'. an_inv r' \<and> grows (an_draft r) (an_draft r'))"
proof -
  let ?d = "an_draft r"
  have start: "goes (if kind = KToolCall then
        bind_ok (from_frame (require_str block ''id'')) (\<lambda>cid.
        bind_ok (from_frame (require_str block ''name'')) (\<lambda>name. start_tool cid name ?d))
      else start_block kind ?d) (\<lambda>(i, d). runs ?d d \<and> has d i kind)" for kind block
    using start_block_goes [OF assms(2)] start_tool_goes [OF assms(2)]
    by (auto intro!: goes_bind [OF unwrap_goes(1)])
  have rest: "goes (an_lift (an_block_body block ty kind i) (r\<lparr>an_draft := d, an_slots := an_slots r @ [Some i]\<rparr>))
      (\<lambda>r'. an_inv r' \<and> grows ?d (an_draft r'))" if "runs ?d d" "has d i kind" for block ty kind i d
  proof -
    let ?r = "r\<lparr>an_draft := d, an_slots := an_slots r @ [Some i]\<rparr>"
    have "an_inv ?r" using assms(1) that by (fastforce simp: an_inv_def runs_def grows_def blocks_grow_def has_def)
    moreover have "goes (an_block_body block ty kind i d) (grows d)"
      using an_block_body_goes [OF that(2)] that(1) by (intro goes_runs_grows) auto
    ultimately have "goes (an_lift (an_block_body block ty kind i) ?r) (\<lambda>r'. an_inv r' \<and> grows d (an_draft r'))"
      using an_lift_goes [of ?r "an_block_body block ty kind i"] by simp
    then show ?thesis by (rule goes_mono) (use that(1) runs_grows in blast)
  qed
  have none: "an_inv (r\<lparr>an_slots := an_slots r @ [None]\<rparr>)" using assms(1) by (simp add: an_inv_def)
  have "goes (case an_block_kind ty of None \<Rightarrow> Inr (r\<lparr>an_slots := an_slots r @ [None]\<rparr>)
      | Some kind \<Rightarrow> bind_ok
          (if kind = KToolCall then
             bind_ok (from_frame (require_str block ''id'')) (\<lambda>cid.
             bind_ok (from_frame (require_str block ''name'')) (\<lambda>name. start_tool cid name ?d))
           else start_block kind ?d) (\<lambda>(i, d).
        an_lift (an_block_body block ty kind i) (r\<lparr>an_draft := d, an_slots := an_slots r @ [Some i]\<rparr>)))
      (\<lambda>r'. an_inv r' \<and> grows ?d (an_draft r'))" for ty block
  proof (cases "an_block_kind ty")
    case (Some kind)
    show ?thesis unfolding Some option.case
      by (rule goes_bind [OF start]) (use rest in auto)
  qed (use none in simp)
  then show ?thesis unfolding on_block_start_def
    by (auto intro!: goes_bind [OF unwrap_goes(1)] goes_bind [OF unwrap_goes(2)])
qed

lemma an_usage_runs:
  "\<not> dd_done (an_draft r) \<Longrightarrow> runs (an_draft r) (an_draft (fold_prompt_usage u r))"
  "an_slots (fold_prompt_usage u r) = an_slots r"
  by (simp_all add: fold_prompt_usage_def Let_def runs_fields)

lemma an_usage_after: "runs d (an_draft r) \<Longrightarrow> runs d (an_draft (fold_prompt_usage u r))"
  using an_usage_runs(1) [of r u] runs_trans by auto

lemma on_message_start_goes:
  assumes "an_inv r" "\<not> dd_done (an_draft r)"
  shows "an_inv (on_message_start root r) \<and> grows (an_draft r) (an_draft (on_message_start root r))"
  using assms(1) an_usage_runs(1) [OF assms(2)] an_inv_same [OF assms(1) an_usage_runs(2)]
  by (simp add: on_message_start_def runs_def split: option.split)

lemma on_message_delta_goes:
  assumes "an_inv r" "\<not> dd_done (an_draft r)"
  shows "an_inv (on_message_delta root r) \<and> grows (an_draft r) (an_draft (on_message_delta root r))"
proof -
  have usage: "runs d (d\<lparr>dd_usage := u\<rparr>)" if "\<not> dd_done d" for d u by (rule runs_fields(1) [OF that])
  define r1 where "r1 = (case json_get root ''delta'' of None \<Rightarrow> r | Some delta \<Rightarrow> (case get_str delta ''stop_reason'' of
      None \<Rightarrow> r | Some raw \<Rightarrow> r\<lparr>an_draft := set_finish (an_finish_reason raw) raw (an_draft r)\<rparr>))"
  have r1: "runs (an_draft r) (an_draft r1)" "an_slots r1 = an_slots r"
    using assms(2) by (auto simp: r1_def runs_fields split: option.split)
  have "runs (an_draft r) (an_draft (on_message_delta root r)) \<and> an_slots (on_message_delta root r) = an_slots r"
  proof (cases "get_object root ''usage''")
    case (Some u)
    let ?total = "dd_usage (an_draft r1)"
    let ?d = "(an_draft r1)\<lparr>dd_usage := ?total\<lparr>usage_output := option_max (usage_output ?total) (count64 u ''output_tokens''),
      usage_reasoning := (case get_object u ''output_tokens_details'' of None \<Rightarrow> usage_reasoning ?total
        | Some details \<Rightarrow> option_max (usage_reasoning ?total) (count64 details ''thinking_tokens''))\<rparr>\<rparr>"
    have e: "on_message_delta root r = fold_prompt_usage u (r1\<lparr>an_draft := ?d\<rparr>)"
      by (simp only: on_message_delta_def r1_def [symmetric] Some Let_def option.case)
    have "runs (an_draft r) ?d" using usage r1(1) runs_trans by blast
    then have "runs (an_draft r) (an_draft (fold_prompt_usage u (r1\<lparr>an_draft := ?d\<rparr>)))"
      by (intro an_usage_after) simp
    then show ?thesis unfolding e using r1(2) by (simp add: an_usage_runs(2))
  qed (use r1 in \<open>simp only: on_message_delta_def r1_def [symmetric] Let_def option.case\<close>)
  then show ?thesis using an_inv_same [OF assms(1)] by (simp add: runs_def)
qed

lemma an_decode_tree_goes:
  assumes "an_inv r" "\<not> dd_done (an_draft r)"
  shows "goes (an_decode_tree root r) (\<lambda>(k, r'). an_inv r' \<and> grows (an_draft r) (an_draft r'))"
proof -
  let ?Q = "\<lambda>r'. an_inv r' \<and> grows (an_draft r) (an_draft r')"
  have delta: "goes (on_block_delta root r) ?Q"
    unfolding on_block_delta_def
    by (rule goes_bind [OF unwrap_goes(1)]) (intro an_apply_delta_goes assms delta_of_no_panic)
  have stop: "goes (on_block_stop root r) ?Q"
    unfolding on_block_stop_def
  proof (rule goes_bind [OF unwrap_goes(1)], rule goes_bind [OF slot_at_goes])
    fix s assume "s = None \<or> (\<exists>i. s = Some i \<and> Some i \<in> set (an_slots r))"
    then show "goes (case s of None \<Rightarrow> Inr r | Some i \<Rightarrow> an_lift (stop_block i) r) ?Q"
      using assms stop_block_goes [OF an_slot_has [OF assms(1)] assms(2)]
      by (auto intro!: an_lift_goes goes_runs_grows)
  qed
  have finish: "goes (on_message_stop r) ?Q"
    using finish_draft_grows [OF assms(2)] assms(1) an_inv_grows by (simp add: on_message_stop_def)
  have event: "goes (if ty = ''message_start'' then Inr (on_message_start root r)
      else if ty = ''content_block_start'' then on_block_start root r
      else if ty = ''content_block_delta'' then on_block_delta root r
      else if ty = ''content_block_stop'' then on_block_stop root r
      else if ty = ''message_delta'' then Inr (on_message_delta root r)
      else if ty = ''message_stop'' then on_message_stop r else Inr r) ?Q" (is "goes (?ev ty) _") for ty
    using delta stop finish on_block_start_goes [OF assms] on_message_start_goes [OF assms]
      on_message_delta_goes [OF assms] assms(1) by simp
  have "goes (if ty = ''error'' then Inr (Some (event_kind root), r) else bind_ok (?ev ty) (\<lambda>r1. Inr (None, r1)))
      (\<lambda>(k, r'). an_inv r' \<and> grows (an_draft r) (an_draft r'))" for ty
    by (rule goes_if, simp add: assms(1), rule goes_no_kind [OF event])
  then show ?thesis unfolding an_decode_tree_def by (intro goes_bind [OF unwrap_goes(1)])
qed

lemma an_decode_goes:
  assumes "an_inv r" "\<not> dd_done (an_draft r)"
  shows "goes (an_decode parse typed data r) (\<lambda>(k, r'). an_inv r' \<and> grows (an_draft r) (an_draft r'))"
proof -
  have tree: "goes (bind_ok (or_protocol (parse data)) (\<lambda>root. an_decode_tree root r))
      (\<lambda>(k, r'). an_inv r' \<and> grows (an_draft r) (an_draft r'))"
    by (rule goes_bind [OF unwrap_goes(2)]) (rule an_decode_tree_goes [OF assms])
  have "goes (bind_ok (typed_index n) (\<lambda>index. bind_ok (an_apply_delta index (Inr v) r) (\<lambda>r1. Inr (None, r1))))
      (\<lambda>(k, r'). an_inv r' \<and> grows (an_draft r) (an_draft r'))" for n v
    by (rule goes_bind [OF unwrap_goes(3)], rule goes_no_kind [OF an_apply_delta_goes [OF assms]]) simp
  then show ?thesis using tree unfolding an_decode_def Let_def by (auto split: option.split)
qed

definition an_clear :: "anthropic \<Rightarrow> anthropic" where
  "an_clear r = r\<lparr>an_draft := clear_events (an_draft r)\<rparr>"

lemma an_clear_same: "an_draft (an_clear r) = clear_events (an_draft r)" "an_inv r \<Longrightarrow> an_inv (an_clear r)"
  by (simp_all add: an_clear_def an_inv_def clear_events_def)

interpretation messages: reducer "an_decode parse typed" an_draft an_clear an_inv for parse typed
  by unfold_locales (rule an_decode_goes an_clear_same; assumption?)+

section \<open>The typed path is the tree path\<close>

lemma read_delta_fields_tree:
  assumes "read_delta_fields (json_get root ''delta'') = Some v" "\<forall>xs. json_get root ''delta'' \<noteq> Some (JArray xs)"
  shows "delta_of root = Inr v"
proof -
  obtain ms where ms: "json_get root ''delta'' = Some (JObject ms)"
    using assms by (auto simp: read_delta_fields_def Let_def split: option.splits json.splits)
  show ?thesis
    using assms(1) unfolding ms
    by (auto simp: read_delta_fields_def delta_of_def ms require_str_def Let_def simp del: json_get.simps
        dest!: typed_text_get typed_option_get split: option.splits)
qed

lemma typed_delta_tree:
  assumes "read_block_delta v = Some e" "v = JObject ms" "bd_event e = ''content_block_delta''"
    and "\<forall>xs. json_get v ''delta'' \<noteq> Some (JArray xs)"
  shows "an_decode_tree v r = bind_ok (typed_index (bd_index e)) (\<lambda>index.
      bind_ok (an_apply_delta index (Inr (bd_delta e)) r) (\<lambda>r1. Inr (None, r1)))"
proof -
  have f: "typed_field typed_text ms ''type'' = Some ''content_block_delta''" "typed_field typed_i64 ms ''index'' = Some (bd_index e)"
    "typed_field read_delta_fields ms ''delta'' = Some (bd_delta e)"
    using assms(1,3) by (auto simp: assms(2) read_block_delta_def split: option.splits)
  have ty: "require_str v ''type'' = Inr ''content_block_delta''"
    using typed_text_get [OF f(1)] by (simp add: require_str_def assms(2))
  have i: "from_frame (get_index v ''index'') = typed_index (bd_index e)"
    using typed_index_get [OF typed_i64_get [OF f(2)]] by (simp add: assms(2))
  have d: "delta_of v = Inr (bd_delta e)"
    using read_delta_fields_tree [of v] typed_field_get [OF f(3)] assms(2,4) by simp
  show ?thesis
    by (cases "typed_index (bd_index e)") (simp_all add: an_decode_tree_def ty on_block_delta_def i d)
qed

text \<open>
  C36: For every payload that parses and whose \<open>delta\<close> is not an array, a reducer with the typed path of
  Anthropic deltas does what one that always takes the tree path does: the same events, the same state and
  the same error, whatever else the payload holds (null and absent fields, fields of another type, repeated
  fields, an index out of range, an unknown event). A \<open>delta\<close> that is an array is the one exception, and
  there the two paths do differ, as the next property shows. The other hypotheses are what is documented of
  the parser: a text that starts with a brace is an object, and the typed read is the derived one.
\<close>

theorem an_typed_is_tree:
  assumes "parse data = Some v"
    and "typed data = read_block_delta v"
    and "starts_object data \<Longrightarrow> \<exists>ms. v = JObject ms"
    and "\<forall>xs. json_get v ''delta'' \<noteq> Some (JArray xs)"
  shows "an_decode parse typed data r = an_decode parse (\<lambda>_. None) data r"
proof (cases "starts_object data \<and> (\<exists>e. typed data = Some e \<and> bd_event e = ''content_block_delta'')")
  case True
  then obtain e ms where e: "read_block_delta v = Some e" "bd_event e = ''content_block_delta''" "v = JObject ms"
    using assms(2,3) by auto
  show ?thesis using typed_delta_tree [OF e(1,3,2) assms(4)] True assms(1,2) e by (simp add: an_decode_def Let_def)
qed (auto simp: an_decode_def Let_def split: option.split)

definition example_delta_text :: string where
  "example_delta_text = ''{'' @ [CHR 0x22] @ ''delta'' @ [CHR 0x22] @ '':{}}''"

definition example_draft :: response_draft where
  "example_draft = (new_draft \<lparr>origin_model = ''m'', origin_base_url = ''u''\<rparr> default_limits)
     \<lparr>dd_blocks := [\<lparr>db_kind = KText, db_state = BlockOpen, db_call_id = [], db_name = [], db_bytes = [], db_replay = None\<rparr>]\<rparr>"

definition example_reducer :: anthropic where
  "example_reducer = (new_anthropic example_draft)\<lparr>an_slots := [Some 0]\<rparr>"

definition example_delta_event :: "json \<Rightarrow> json" where
  "example_delta_event delta =
     JObject [(''type'', JString ''content_block_delta''), (''index'', JInteger 0), (''delta'', delta)]"

definition example_delta :: json where
  "example_delta = example_delta_event (JObject [(''type'', JString ''text_delta''), (''text'', JString ''hi''), (''signature'', JNull)])"

theorem an_typed_is_tree_witness:
  "an_decode (\<lambda>_. Some example_delta) (\<lambda>_. read_block_delta example_delta) example_delta_text example_reducer =
     an_decode (\<lambda>_. Some example_delta) (\<lambda>_. None) example_delta_text example_reducer \<and>
   read_block_delta example_delta \<noteq> None"
  using an_typed_is_tree [of "\<lambda>_. Some example_delta" example_delta_text example_delta
      "\<lambda>_. read_block_delta example_delta" example_reducer]
  by (simp add: example_delta_def example_delta_event_def read_block_delta_def read_delta_fields_def typed_field_def
      members_of_def typed_text_def typed_i64_def typed_option_def)

text \<open>
  C37: The exception: a delta that is an array of its five fields by position passes the typed path, which guards
  only the document against a read by position, and its text reaches the consumer. The tree path
  rejects the same payload as malformed.
\<close>

theorem an_array_delta_accepted:
  assumes "parse data = Some v"
    and "v = JObject [(''type'', JString ''content_block_delta''), (''index'', JInteger (int n)),
           (''delta'', JArray [JString ''text_delta'', JString t, JNull, JNull, JNull])]"
    and "typed data = read_block_delta v" "starts_object data"
    and "n \<le> usize_max" "n < length (an_slots r)" "an_slots r ! n = Some i"
    and "open_block i (an_draft r) = Inr b" "db_kind b = KText" "db_replay b = None"
  shows "an_decode parse typed data r = Inr (None, r\<lparr>an_draft := push_pending (PendDelta i KText t) (an_draft r)\<rparr>) \<and>
    an_decode parse (\<lambda>_. None) data r = Inl DecodeProtocol"
proof
  have "read_block_delta v = Some \<lparr>bd_event = ''content_block_delta'', bd_index = int n,
      bd_delta = \<lparr>dv_kind = ''text_delta'', dv_text = Some t, dv_thinking = None, dv_signature = None, dv_partial_json = None\<rparr>\<rparr>"
    by (simp add: assms(2) read_block_delta_def read_delta_fields_def typed_field_def members_of_def typed_text_def
        typed_i64_def typed_option_def)
  then show "an_decode parse typed data r = Inr (None, r\<lparr>an_draft := push_pending (PendDelta i KText t) (an_draft r)\<rparr>)"
    using assms
    by (simp add: an_decode_def typed_index_def an_apply_delta_def slot_at_def delta_expects_def an_lift_def put_delta_def
        draft_delta_def)
  show "an_decode parse (\<lambda>_. None) data r = Inl DecodeProtocol"
    using assms
    by (simp add: an_decode_def an_decode_tree_def require_str_def get_str_def on_block_delta_def get_index_def get_int_def
        an_apply_delta_def slot_at_def delta_of_def)
qed

definition example_array_delta :: json where
  "example_array_delta = example_delta_event (JArray [JString ''text_delta'', JString ''hi'', JNull, JNull, JNull])"

theorem an_array_delta_accepted_witness:
  "an_decode (\<lambda>_. Some example_array_delta) (\<lambda>_. read_block_delta example_array_delta) example_delta_text example_reducer =
     Inr (None, example_reducer\<lparr>an_draft := push_pending (PendDelta 0 KText ''hi'') example_draft\<rparr>) \<and>
   an_decode (\<lambda>_. Some example_array_delta) (\<lambda>_. None) example_delta_text example_reducer = Inl DecodeProtocol"
proof -
  have "starts_object example_delta_text"
    by (simp add: starts_object_def chars_of_def utf8_chars_def bytes_of_def seq_len_def is_whitespace_def
        example_delta_text_def of_char_def)
  then show ?thesis
    using an_array_delta_accepted [of "\<lambda>_. Some example_array_delta" example_delta_text example_array_delta 0 "''hi''"
        "\<lambda>_. read_block_delta example_array_delta" example_reducer 0 "dd_blocks example_draft ! 0"]
    by (simp add: example_array_delta_def example_delta_event_def example_reducer_def example_draft_def new_anthropic_def
        open_block_def)
qed

end
