(* ===== verification/Responses.thy ===== *)
theory Responses
  imports Reducer Search Json_Writer "HOL-Library.AList"
begin

text \<open>
  The reducer of OpenAI Responses, \<open>crates/ai/src/stream/openai_responses.rs\<close>: the output items with the
  blocks that each owns, every event handler, and both read paths. The hash table of the items is an
  association list with one entry per key.

  The theory proves the contract of a reducer for it, that the typed path of a delta is the tree path, and
  which reason a completed response ends with.
\<close>

section \<open>The reducer\<close>

record delta_event =
  de_event :: string
  de_output_index :: int
  de_delta :: string
  de_summary_index :: "int option"

datatype item_kind = ItemMessage | ItemReasoning | ItemTool | ItemIgnored

record output_item =
  oi_kind :: item_kind
  oi_blocks :: "block_id option list"
  oi_last_summary :: "int option"

fun slot :: "block_kind \<Rightarrow> nat" where
  "slot KText = 0"
| "slot KRefusal = 1"
| "slot KReasoning = 2"
| "slot KToolCall = 3"

definition item_block :: "block_kind \<Rightarrow> output_item \<Rightarrow> block_id option" where
  "item_block k out = oi_blocks out ! slot k"

definition require_block :: "block_kind \<Rightarrow> output_item \<Rightarrow> decode_error + block_id" where
  "require_block k out = or_protocol (item_block k out)"

definition set_block :: "block_kind \<Rightarrow> block_id \<Rightarrow> output_item \<Rightarrow> output_item" where
  "set_block k i out = out\<lparr>oi_blocks := (oi_blocks out)[slot k := Some i]\<rparr>"

datatype delta_kind = DeltaText block_kind | DeltaSummary | DeltaReasoning | DeltaArguments

definition delta_kind_of :: "string \<Rightarrow> delta_kind option" where
  "delta_kind_of e =
     (if e = ''response.output_text.delta'' then Some (DeltaText KText)
      else if e = ''response.refusal.delta'' then Some (DeltaText KRefusal)
      else if e = ''response.reasoning_summary_text.delta'' then Some DeltaSummary
      else if e = ''response.reasoning_text.delta'' then Some DeltaReasoning
      else if e = ''response.function_call_arguments.delta'' then Some DeltaArguments
      else None)"

record responses =
  re_draft :: response_draft
  re_outputs :: "(nat \<times> output_item) list"

definition new_responses :: "response_draft \<Rightarrow> responses" where
  "new_responses d = \<lparr>re_draft = d, re_outputs = []\<rparr>"

definition re_lift :: "(response_draft \<Rightarrow> decode_error + response_draft) \<Rightarrow> responses \<Rightarrow> decode_error + responses" where
  "re_lift f r = bind_ok (f (re_draft r)) (\<lambda>d. Inr (r\<lparr>re_draft := d\<rparr>))"

definition output_at :: "nat \<Rightarrow> responses \<Rightarrow> decode_error + output_item" where
  "output_at index r = or_protocol (map_of (re_outputs r) index)"

definition insert_output :: "nat \<Rightarrow> output_item \<Rightarrow> responses \<Rightarrow> responses" where
  "insert_output index out r = r\<lparr>re_outputs := AList.update index out (re_outputs r)\<rparr>"

definition change_output :: "nat \<Rightarrow> (output_item \<Rightarrow> output_item) \<Rightarrow> responses \<Rightarrow> decode_error + responses" where
  "change_output index f r = bind_ok (output_at index r) (\<lambda>out. Inr (insert_output index (f out) r))"

definition output_for :: "json \<Rightarrow> decode_error + nat" where
  "output_for root = from_frame (get_index root ''output_index'')"

definition part_type :: "json \<Rightarrow> decode_error + string" where
  "part_type root = bind_ok (or_protocol (json_get root ''part'')) (\<lambda>p. from_frame (require_str p ''type''))"

definition part_kind :: "string \<Rightarrow> block_kind option" where
  "part_kind t =
     (if t = ''output_text'' then Some KText
      else if t = ''refusal'' then Some KRefusal
      else if t = ''reasoning_text'' \<or> t = ''summary_text'' then Some KReasoning
      else None)"

definition incomplete_reason :: "string \<Rightarrow> finish_reason" where
  "incomplete_reason r =
     (if r = ''max_output_tokens'' then FinLength
      else if r = ''content_filter'' then FinContentFilter
      else FinUnknown)"

definition has_tool_call :: "response_draft \<Rightarrow> bool" where
  "has_tool_call d = list_ex (\<lambda>b. db_kind b = KToolCall \<and> db_state b = BlockStopped') (dd_blocks d)"

section \<open>Items\<close>

definition fresh_output :: output_item where
  "fresh_output = \<lparr>oi_kind = ItemIgnored, oi_blocks = [None, None, None, None], oi_last_summary = None\<rparr>"

definition on_output_item_added :: "json \<Rightarrow> responses \<Rightarrow> decode_error + responses" where
  "on_output_item_added root r =
     bind_ok (from_frame (get_index root ''output_index'')) (\<lambda>index.
     bind_ok (or_protocol (json_get root ''item'')) (\<lambda>item.
     bind_ok (from_frame (require_str item ''type'')) (\<lambda>item_type.
       if map_of (re_outputs r) index = None \<and> length (re_outputs r) \<ge> max_blocks (dd_limits (re_draft r))
       then Inl DecodeTooLarge
       else
         let r1 = insert_output index fresh_output r in
         if item_type = ''message'' then change_output index (\<lambda>out. out\<lparr>oi_kind := ItemMessage\<rparr>) r1
         else if item_type = ''reasoning'' then change_output index (\<lambda>out. out\<lparr>oi_kind := ItemReasoning\<rparr>) r1
         else
           let search = (item_type = ''tool_search_call'' \<and> get_str item ''execution'' = Some ''client'') in
           if \<not> search \<and> item_type \<noteq> ''function_call'' then Inr r1
           else
             bind_ok (if search then Inr search_tool_name else from_frame (require_str item ''name'')) (\<lambda>name.
             bind_ok (case get_str item ''call_id'' of
                        Some c \<Rightarrow> Inr c | None \<Rightarrow> if search then Inr [] else Inl DecodeProtocol) (\<lambda>cid.
             bind_ok (start_tool cid name (re_draft r1)) (\<lambda>(i, d).
               change_output index (\<lambda>out. set_block KToolCall i (out\<lparr>oi_kind := ItemTool\<rparr>)) (r1\<lparr>re_draft := d\<rparr>)))))))"

text \<open>Whether the earlier part of a kind is still open.\<close>

definition part_overlaps :: "block_id option \<Rightarrow> response_draft \<Rightarrow> decode_error + bool" where
  "part_overlaps prev d =
     (case prev of
        None \<Rightarrow> Inr False
      | Some i \<Rightarrow>
          (case open_block i d of Inr _ \<Rightarrow> Inr True | Inl e \<Rightarrow> if e = DecodePanic then Inl DecodePanic else Inr False))"

definition on_content_part_added :: "json \<Rightarrow> responses \<Rightarrow> decode_error + responses" where
  "on_content_part_added root r =
     bind_ok (output_for root) (\<lambda>index.
     bind_ok (part_type root) (\<lambda>ty.
       case part_kind ty of
         None \<Rightarrow> Inr r
       | Some kind \<Rightarrow>
           bind_ok (output_at index r) (\<lambda>out.
           bind_ok (part_overlaps (item_block kind out) (re_draft r)) (\<lambda>overlaps.
             if overlaps then Inl DecodeProtocol
             else
               bind_ok (start_block kind (re_draft r)) (\<lambda>(i, d).
                 change_output index (set_block kind i) (r\<lparr>re_draft := d\<rparr>))))))"

definition reasoning_block :: "nat \<Rightarrow> responses \<Rightarrow> decode_error + block_id \<times> responses" where
  "reasoning_block index r =
     bind_ok (output_at index r) (\<lambda>out.
       case item_block KReasoning out of
         Some i \<Rightarrow> Inr (i, r)
       | None \<Rightarrow>
           bind_ok (start_block KReasoning (re_draft r)) (\<lambda>(i, d).
           bind_ok (change_output index (set_block KReasoning i) (r\<lparr>re_draft := d\<rparr>)) (\<lambda>r1. Inr (i, r1))))"

text \<open>The mark of a summary section, before its text.\<close>

definition summary_section :: "nat \<Rightarrow> block_id \<Rightarrow> int \<Rightarrow> responses \<Rightarrow> decode_error + responses" where
  "summary_section index i n r =
     bind_ok (output_at index r) (\<lambda>out.
     bind_ok (if oi_last_summary out \<noteq> None \<and> oi_last_summary out \<noteq> Some n
              then re_lift (draft_delta i [CHR 0x0A, CHR 0x0A]) r else Inr r) (\<lambda>r1.
     bind_ok (if oi_last_summary out \<noteq> Some n then re_lift (draft_section i) r1 else Inr r1) (\<lambda>r2.
       change_output index (\<lambda>out. out\<lparr>oi_last_summary := Some n\<rparr>) r2)))"

definition reasoning_delta ::
  "nat \<Rightarrow> int option \<Rightarrow> decode_error + string \<Rightarrow> responses \<Rightarrow> decode_error + responses" where
  "reasoning_delta index summary delta r =
     bind_ok (reasoning_block index r) (\<lambda>(i, r1).
     bind_ok delta (\<lambda>t.
     bind_ok (case summary of None \<Rightarrow> Inr r1 | Some n \<Rightarrow> summary_section index i n r1) (\<lambda>r2.
       re_lift (draft_delta i t) r2)))"

definition re_apply_delta ::
  "nat \<Rightarrow> delta_kind \<Rightarrow> int option \<Rightarrow> decode_error + string \<Rightarrow> responses \<Rightarrow> decode_error + responses" where
  "re_apply_delta index kind summary delta r =
     (case kind of
        DeltaText k \<Rightarrow>
          bind_ok (output_at index r) (\<lambda>out. bind_ok (require_block k out) (\<lambda>i.
          bind_ok delta (\<lambda>t. re_lift (draft_delta i t) r)))
      | DeltaSummary \<Rightarrow> reasoning_delta index summary delta r
      | DeltaReasoning \<Rightarrow> reasoning_delta index None delta r
      | DeltaArguments \<Rightarrow>
          bind_ok (output_at index r) (\<lambda>out. bind_ok (require_block KToolCall out) (\<lambda>i.
          bind_ok delta (\<lambda>t. re_lift (tool_delta i t) r))))"

definition stop_part :: "json \<Rightarrow> block_kind option \<Rightarrow> responses \<Rightarrow> decode_error + responses" where
  "stop_part root kind r =
     bind_ok (output_for root) (\<lambda>index.
       case kind of
         None \<Rightarrow> Inr r
       | Some k \<Rightarrow>
           bind_ok (output_at index r) (\<lambda>out.
             case item_block k out of None \<Rightarrow> Inr r | Some i \<Rightarrow> re_lift (stop_if_open i) r))"

section \<open>The end of an item\<close>

definition read_search_call :: "(f64 \<Rightarrow> string) \<Rightarrow> block_id \<Rightarrow> json \<Rightarrow> response_draft \<Rightarrow> decode_error + response_draft" where
  "read_search_call show_f64 i item d =
     bind_ok (identify i (case get_str item ''call_id'' of None \<Rightarrow> [] | Some c \<Rightarrow> c) [] d) (\<lambda>d1.
     bind_ok (open_block i d1) (\<lambda>b.
       if db_call_id b = [] then Inl DecodeProtocol
       else
         bind_ok (or_protocol (json_get item ''arguments'')) (\<lambda>object.
           case object of
             JObject _ \<Rightarrow>
               let text = jw_out (jw_value show_f64 object (new_writer [])) in
               if chars_of text = None then Inl DecodeProtocol else final_args i text d1
           | _ \<Rightarrow> Inl DecodeProtocol)))"

definition on_tool_done ::
  "(f64 \<Rightarrow> string) \<Rightarrow> block_id \<Rightarrow> json \<Rightarrow> string \<Rightarrow> response_draft \<Rightarrow> decode_error + response_draft" where
  "on_tool_done show_f64 i item item_type d =
     bind_ok (open_block i d) (\<lambda>b.
       let search = (db_name b = search_tool_name \<and> item_type = ''tool_search_call'') in
       if \<not> search \<and> item_type \<noteq> ''function_call'' then Inl DecodeProtocol
       else if (case get_str item ''status'' of None \<Rightarrow> False | Some s \<Rightarrow> s \<noteq> ''completed'') then drop_block i d
       else
         bind_ok (if search then read_search_call show_f64 i item d
                  else bind_ok (from_frame (require_str item ''arguments'')) (\<lambda>args. final_args i args d))
           (stop_block i))"

definition on_output_item_done :: "(f64 \<Rightarrow> string) \<Rightarrow> json \<Rightarrow> responses \<Rightarrow> decode_error + responses" where
  "on_output_item_done show_f64 root r =
     bind_ok (output_for root) (\<lambda>index.
     bind_ok (or_protocol (json_get root ''item'')) (\<lambda>item.
     bind_ok (output_at index r) (\<lambda>out.
       case oi_kind out of
         ItemMessage \<Rightarrow> Inr r
       | ItemIgnored \<Rightarrow> Inr r
       | ItemReasoning \<Rightarrow>
           let encrypted = (case get_str item ''encrypted_content'' of None \<Rightarrow> [] | Some e \<Rightarrow> e) in
           if item_block KReasoning out = None \<and> encrypted = [] then Inr r
           else
             bind_ok (reasoning_block index r) (\<lambda>(i, r1).
             bind_ok (if encrypted = [] then Inr r1
                      else re_lift (edit_block i (\<lambda>b. b\<lparr>db_replay := Some ResponsesEncrypted,
                             db_bytes := db_bytes b @ encrypted\<rparr>)) r1)
               (re_lift (stop_if_open i)))
       | ItemTool \<Rightarrow>
           bind_ok (require_block KToolCall out) (\<lambda>i.
           bind_ok (from_frame (require_str item ''type'')) (\<lambda>ty. re_lift (on_tool_done show_f64 i item ty) r)))))"

section \<open>The end of the response\<close>

definition re_usage :: "json \<Rightarrow> response_draft \<Rightarrow> response_draft" where
  "re_usage response d =
     (case get_object response ''usage'' of
        None \<Rightarrow> d
      | Some usage \<Rightarrow>
          let t1 = (dd_usage d)\<lparr>usage_input := count64 usage ''input_tokens'', usage_output := count64 usage ''output_tokens''\<rparr>;
              t2 = (case get_object usage ''input_tokens_details'' of
                      None \<Rightarrow> t1
                    | Some ds \<Rightarrow> t1\<lparr>usage_cache_read := count64 ds ''cached_tokens'',
                                      usage_cache_write := count64 ds ''cache_write_tokens''\<rparr>);
              t3 = (case get_object usage ''output_tokens_details'' of
                      None \<Rightarrow> t2
                    | Some ds \<Rightarrow> t2\<lparr>usage_reasoning := count64 ds ''reasoning_tokens''\<rparr>)
          in d\<lparr>dd_usage := t3\<rparr>)"

definition on_completed :: "json \<Rightarrow> response_draft \<Rightarrow> decode_error + response_draft" where
  "on_completed root d =
     bind_ok (or_protocol (get_object root ''response'')) (\<lambda>response.
       let d1 = re_usage response d;
           reason = (if has_tool_call d1 then FinToolCalls else FinStop)
       in close_and_finish DropTools (set_finish reason ''completed'' d1))"

definition on_incomplete :: "json \<Rightarrow> response_draft \<Rightarrow> decode_error + response_draft" where
  "on_incomplete root d =
     bind_ok (or_protocol (get_object root ''response'')) (\<lambda>response.
       let d1 = re_usage response d in
       bind_ok (case get_object response ''incomplete_details'' of
                  None \<Rightarrow> Inr ''incomplete''
                | Some ds \<Rightarrow>
                    bind_ok (from_frame (optional_str ds ''reason''))
                      (\<lambda>named. Inr (case named of None \<Rightarrow> ''incomplete'' | Some t \<Rightarrow> t)))
         (\<lambda>reason. close_and_finish DropTools (set_finish (incomplete_reason reason) reason d1)))"

section \<open>A payload\<close>

definition re_event :: "(f64 \<Rightarrow> string) \<Rightarrow> string \<Rightarrow> json \<Rightarrow> responses \<Rightarrow> decode_error + responses" where
  "re_event show_f64 ty root r =
     (if ty = ''response.output_item.added'' then on_output_item_added root r
      else if ty = ''response.content_part.added'' then on_content_part_added root r
      else if ty = ''response.output_text.done'' then stop_part root (Some KText) r
      else if ty = ''response.refusal.done'' then stop_part root (Some KRefusal) r
      else if ty = ''response.content_part.done'' then
        bind_ok (part_type root) (\<lambda>pt. stop_part root (part_kind pt) r)
      else if ty = ''response.output_item.done'' then on_output_item_done show_f64 root r
      else if ty = ''response.completed'' then re_lift (on_completed root) r
      else if ty = ''response.incomplete'' then re_lift (on_incomplete root) r
      else Inr r)"

definition re_decode_tree ::
  "(f64 \<Rightarrow> string) \<Rightarrow> json \<Rightarrow> responses \<Rightarrow> decode_error + provider_kind option \<times> responses" where
  "re_decode_tree show_f64 root r =
     bind_ok (from_frame (require_str root ''type'')) (\<lambda>ty.
       case delta_kind_of ty of
         Some kind \<Rightarrow>
           let delta = from_frame (require_str root ''delta'') in
           bind_ok (from_frame (get_index root ''output_index'')) (\<lambda>index.
           bind_ok (re_apply_delta index kind (get_int root ''summary_index'') delta r) (\<lambda>r1. Inr (None, r1)))
       | None \<Rightarrow>
           if ty = ''response.failed'' \<or> ty = ''error'' then Inr (Some (event_kind root), r)
           else bind_ok (re_event show_f64 ty root r) (\<lambda>r1. Inr (None, r1)))"

definition re_decode ::
  "(f64 \<Rightarrow> string) \<Rightarrow> json_parser \<Rightarrow> (string \<Rightarrow> delta_event option) \<Rightarrow> string \<Rightarrow> responses \<Rightarrow>
     decode_error + provider_kind option \<times> responses" where
  "re_decode show_f64 parse typed data r =
     (let event = (if starts_object data then typed data else None);
          tree = bind_ok (or_protocol (parse data)) (\<lambda>root. re_decode_tree show_f64 root r)
      in case event of
           None \<Rightarrow> tree
         | Some e \<Rightarrow>
             (case delta_kind_of (de_event e) of
                None \<Rightarrow> tree
              | Some kind \<Rightarrow>
                  bind_ok (typed_index (de_output_index e)) (\<lambda>index.
                  bind_ok (re_apply_delta index kind (de_summary_index e) (Inr (de_delta e)) r) (\<lambda>r1. Inr (None, r1)))))"

text \<open>What the derived read makes of a document: by name from an object, by position from an array.\<close>

definition read_delta_event :: "json \<Rightarrow> delta_event option" where
  "read_delta_event v =
     (let event = (\<lambda>e i d s.
            (case (e, i, d, s) of
               (Some e', Some i', Some d', Some s') \<Rightarrow>
                 Some \<lparr>de_event = e', de_output_index = i', de_delta = d', de_summary_index = s'\<rparr>
             | _ \<Rightarrow> None))
      in case v of
           JObject ms \<Rightarrow>
             event (typed_field typed_text ms ''type'') (typed_field typed_i64 ms ''output_index'')
               (typed_field typed_text ms ''delta'') (typed_field (typed_option typed_i64) ms ''summary_index'')
         | JArray [e, i, d, s] \<Rightarrow>
             event (typed_text (Some e)) (typed_i64 (Some i)) (typed_text (Some d)) (typed_option typed_i64 (Some s))
         | _ \<Rightarrow> None)"

section \<open>The contract\<close>

text \<open>An item names blocks of the draft, each of the kind of its slot.\<close>

definition item_ok :: "response_draft \<Rightarrow> output_item \<Rightarrow> bool" where
  "item_ok d out \<longleftrightarrow> length (oi_blocks out) = 4 \<and> (\<forall>k i. item_block k out = Some i \<longrightarrow> has d i k)"

definition re_inv :: "responses \<Rightarrow> bool" where
  "re_inv r \<longleftrightarrow> (\<forall>n out. map_of (re_outputs r) n = Some out \<longrightarrow> item_ok (re_draft r) out)"

definition re_grows :: "response_draft \<Rightarrow> responses \<Rightarrow> bool" where
  "re_grows d r \<longleftrightarrow> re_inv r \<and> grows d (re_draft r)"

definition re_runs :: "response_draft \<Rightarrow> responses \<Rightarrow> bool" where
  "re_runs d r \<longleftrightarrow> re_inv r \<and> runs d (re_draft r)"

lemma frame_goes: "goes (from_frame f) (\<lambda>_. True)"
  by (rule goes_mono [OF unwrap_goes(1)]) simp

lemma re_runs_grows: "goes m (re_runs d) \<Longrightarrow> goes m (re_grows d)"
  by (erule goes_mono) (simp add: re_runs_def re_grows_def runs_def)

lemma re_runs_then: "goes m (re_runs d1) \<Longrightarrow> runs d d1 \<Longrightarrow> goes m (re_runs d)"
  by (erule goes_mono) (use runs_trans in \<open>auto simp: re_runs_def\<close>)

lemma slot_less: "slot k < 4" and slot_inject [simp]: "slot k = slot l \<longleftrightarrow> k = l"
  by (cases k; cases l; simp)+

lemma item_ok_grows: "item_ok d out \<Longrightarrow> grows d d' \<Longrightarrow> item_ok d' out"
  by (auto simp: item_ok_def intro: has_grows)

lemma item_ok_fields [simp]:
  "item_ok d (out\<lparr>oi_kind := k\<rparr>) \<longleftrightarrow> item_ok d out" "item_ok d (out\<lparr>oi_last_summary := n\<rparr>) \<longleftrightarrow> item_ok d out"
  "item_ok d fresh_output"
proof -
  have "([None, None, None, None] :: block_id option list) ! slot j = None" for j by (cases j) simp_all
  then show "item_ok d fresh_output" by (simp add: item_ok_def fresh_output_def item_block_def)
qed (simp_all add: item_ok_def item_block_def)

lemma item_ok_set: "item_ok d out \<Longrightarrow> has d i k \<Longrightarrow> item_ok d (set_block k i out)"
  by (auto simp: item_ok_def set_block_def item_block_def slot_less nth_list_update split: if_splits)

lemma re_inv_draft: "re_inv r \<Longrightarrow> grows (re_draft r) d \<Longrightarrow> re_inv (r\<lparr>re_draft := d\<rparr>)"
  by (auto simp: re_inv_def intro: item_ok_grows)

lemma re_lift_goes: "re_inv r \<Longrightarrow> goes (f (re_draft r)) (grows (re_draft r)) \<Longrightarrow> goes (re_lift f r) (re_grows (re_draft r))"
  by (cases "f (re_draft r)") (auto simp: re_lift_def re_grows_def intro: re_inv_draft)

lemma re_lift_runs: "re_inv r \<Longrightarrow> goes (f (re_draft r)) (runs (re_draft r)) \<Longrightarrow> goes (re_lift f r) (re_runs (re_draft r))"
  by (cases "f (re_draft r)") (auto simp: re_lift_def re_runs_def runs_def intro: re_inv_draft)

lemma output_at_goes: "re_inv r \<Longrightarrow> goes (output_at index r) (item_ok (re_draft r))"
  by (auto simp: output_at_def re_inv_def or_protocol_def split: option.split)

lemma insert_output_inv: "re_inv r \<Longrightarrow> item_ok (re_draft r) out \<Longrightarrow> re_inv (insert_output index out r)"
  by (auto simp: re_inv_def insert_output_def update_conv' split: if_splits)

lemma insert_output_draft [simp]: "re_draft (insert_output index out r) = re_draft r"
  by (simp add: insert_output_def)

lemma change_output_goes:
  assumes "re_inv r" "\<And>out. item_ok (re_draft r) out \<Longrightarrow> item_ok (re_draft r) (f out)"
  shows "goes (change_output index f r) (\<lambda>r'. re_inv r' \<and> re_draft r' = re_draft r)"
  unfolding change_output_def
  by (rule goes_bind [OF output_at_goes [OF assms(1)]]) (use assms insert_output_inv in auto)

text \<open>A block that the draft started goes into its slot.\<close>

lemma started_goes:
  assumes "re_inv r" "runs (re_draft r) d" "has d i k" "\<And>out. item_ok d (g out) \<longleftrightarrow> item_ok d out"
  shows "goes (change_output index (\<lambda>out. set_block k i (g out)) (r\<lparr>re_draft := d\<rparr>)) (\<lambda>r'. re_runs (re_draft r) r' \<and> re_draft r' = d)"
proof -
  have "re_inv (r\<lparr>re_draft := d\<rparr>)" using assms(1,2) by (auto simp: runs_def intro: re_inv_draft)
  then have "goes (change_output index (\<lambda>out. set_block k i (g out)) (r\<lparr>re_draft := d\<rparr>)) (\<lambda>r'. re_inv r' \<and> re_draft r' = d)"
    using change_output_goes [of "r\<lparr>re_draft := d\<rparr>" "\<lambda>out. set_block k i (g out)" index] item_ok_set [of d] assms(3,4)
    by simp
  then show ?thesis by (rule goes_mono) (use assms(2) in \<open>simp add: re_runs_def\<close>)
qed

lemma on_output_item_added_goes:
  assumes "re_inv r" "\<not> dd_done (re_draft r)"
  shows "goes (on_output_item_added root r) (re_runs (re_draft r))"
proof -
  have kind: "goes (change_output index (\<lambda>out. out\<lparr>oi_kind := k\<rparr>) (insert_output index fresh_output r)) (re_runs (re_draft r))"
    for index k
    using change_output_goes [of "insert_output index fresh_output r" "\<lambda>out. out\<lparr>oi_kind := k\<rparr>" index]
      insert_output_inv [OF assms(1), of fresh_output index] assms(2)
    by (auto simp: re_runs_def elim: goes_mono)
  have tool: "goes (bind_ok (start_tool cid name (re_draft r)) (\<lambda>(i, d).
      change_output index (\<lambda>out. set_block KToolCall i (out\<lparr>oi_kind := ItemTool\<rparr>)) ((insert_output index fresh_output r)\<lparr>re_draft := d\<rparr>)))
      (re_runs (re_draft r))" for cid name index
  proof (rule goes_bind [OF start_tool_goes [OF assms(2)]], clarify)
    fix i d assume d: "runs (re_draft r) d" "has d i KToolCall"
    have "re_inv (insert_output index fresh_output r)" using insert_output_inv [OF assms(1)] by simp
    then show "goes (change_output index (\<lambda>out. set_block KToolCall i (out\<lparr>oi_kind := ItemTool\<rparr>))
        ((insert_output index fresh_output r)\<lparr>re_draft := d\<rparr>)) (re_runs (re_draft r))"
      using started_goes [of "insert_output index fresh_output r" d i KToolCall "\<lambda>out. out\<lparr>oi_kind := ItemTool\<rparr>" index] d
      by (auto elim: goes_mono)
  qed
  have inserted: "re_runs (re_draft r) (insert_output index fresh_output r)" for index
    using insert_output_inv [OF assms(1)] assms(2) by (simp add: re_runs_def)
  have name: "goes (if search then Inr search_tool_name else from_frame (require_str item ''name'')) (\<lambda>_. True)" for search item
    by (simp add: frame_goes)
  have cid: "goes (case get_str item ''call_id'' of Some c \<Rightarrow> Inr c | None \<Rightarrow> if search then Inr [] else Inl DecodeProtocol) (\<lambda>_. True)"
    for search item by (simp split: option.split)
  show ?thesis unfolding on_output_item_added_def Let_def insert_output_draft
    by (intro goes_bind [OF unwrap_goes(1)] goes_bind [OF unwrap_goes(2)] goes_if goes_bind [OF name] goes_bind [OF cid]
        kind tool) (use inserted in simp_all)
qed

lemma on_content_part_added_goes:
  assumes "re_inv r" "\<not> dd_done (re_draft r)"
  shows "goes (on_content_part_added root r) (re_runs (re_draft r))"
proof -
  have part: "goes (part_type root) (\<lambda>_. True)"
    unfolding part_type_def by (intro goes_bind [OF unwrap_goes(2)] frame_goes)
  have overlap: "goes (part_overlaps (item_block k out) (re_draft r)) (\<lambda>_. True)" if "item_ok (re_draft r) out" for k out
  proof (cases "item_block k out")
    case (Some i)
    then have "has (re_draft r) i k" using that by (simp add: item_ok_def)
    then show ?thesis using open_block_goes [of "re_draft r" i k] Some
      by (cases "open_block i (re_draft r)") (auto simp: part_overlaps_def)
  qed (simp add: part_overlaps_def)
  have new: "goes (bind_ok (start_block k (re_draft r)) (\<lambda>(i, d). change_output index (set_block k i) (r\<lparr>re_draft := d\<rparr>)))
      (re_runs (re_draft r))" for k index
  proof (rule goes_bind [OF start_block_goes [OF assms(2)]], clarify)
    fix i d assume "runs (re_draft r) d" "has d i k"
    then show "goes (change_output index (set_block k i) (r\<lparr>re_draft := d\<rparr>)) (re_runs (re_draft r))"
      by (intro goes_mono [OF started_goes [OF assms(1), where g = "\<lambda>out. out"]]) auto
  qed
  have known: "goes (bind_ok (output_at index r) (\<lambda>out. bind_ok (part_overlaps (item_block kind out) (re_draft r)) (\<lambda>overlaps.
      if overlaps then Inl DecodeProtocol else bind_ok (start_block kind (re_draft r)) (\<lambda>(i, d).
        change_output index (set_block kind i) (r\<lparr>re_draft := d\<rparr>))))) (re_runs (re_draft r))" for index kind
    by (intro goes_bind [OF output_at_goes [OF assms(1)]] goes_bind [OF overlap] goes_if new) simp_all
  have same: "re_runs (re_draft r) r" using assms by (simp add: re_runs_def)
  show ?thesis unfolding on_content_part_added_def output_for_def
    by (intro goes_bind [OF unwrap_goes(1)] goes_bind [OF part]) (use known same in \<open>simp split: option.split\<close>)
qed

lemma reasoning_block_goes:
  assumes "re_inv r" "\<not> dd_done (re_draft r)"
  shows "goes (reasoning_block index r) (\<lambda>(i, r'). re_runs (re_draft r) r' \<and> has (re_draft r') i KReasoning)"
  unfolding reasoning_block_def
proof (rule goes_bind [OF output_at_goes [OF assms(1)]])
  fix out assume out: "item_ok (re_draft r) out"
  have new: "goes (bind_ok (start_block KReasoning (re_draft r)) (\<lambda>(i, d).
      bind_ok (change_output index (set_block KReasoning i) (r\<lparr>re_draft := d\<rparr>)) (\<lambda>r1. Inr (i, r1))))
      (\<lambda>(i, r'). re_runs (re_draft r) r' \<and> has (re_draft r') i KReasoning)"
  proof (rule goes_bind [OF start_block_goes [OF assms(2)]], clarify)
    fix i d assume d: "runs (re_draft r) d" "has d i KReasoning"
    show "goes (bind_ok (change_output index (set_block KReasoning i) (r\<lparr>re_draft := d\<rparr>)) (\<lambda>r1. Inr (i, r1)))
        (\<lambda>(i, r'). re_runs (re_draft r) r' \<and> has (re_draft r') i KReasoning)"
      by (rule goes_bind [OF started_goes [OF assms(1) d, where g = "\<lambda>out. out"]]) (use d in simp_all)
  qed
  show "goes (case item_block KReasoning out of None \<Rightarrow> bind_ok (start_block KReasoning (re_draft r)) (\<lambda>(i, d).
      bind_ok (change_output index (set_block KReasoning i) (r\<lparr>re_draft := d\<rparr>)) (\<lambda>r1. Inr (i, r1)))
      | Some i \<Rightarrow> Inr (i, r)) (\<lambda>(i, r'). re_runs (re_draft r) r' \<and> has (re_draft r') i KReasoning)"
    using new out assms by (auto simp: re_runs_def item_ok_def split: option.split)
qed

text \<open>A delta of a reasoning block: of one that is closed it is refused, whatever the section did.\<close>

definition closed :: "block_id \<Rightarrow> responses \<Rightarrow> bool" where
  "closed i r \<longleftrightarrow> i < length (dd_blocks (re_draft r)) \<and> db_state (dd_blocks (re_draft r) ! i) \<noteq> BlockOpen"

lemma closed_delta: "closed i r \<Longrightarrow> re_lift (draft_delta i t) r = Inl DecodeProtocol"
  by (simp add: closed_def re_lift_def draft_delta_closed)

lemma output_at_any: "goes (output_at index r) (\<lambda>_. True)"
  unfolding output_at_def by (rule goes_mono [OF unwrap_goes(2)]) simp

lemma change_output_same: "goes (change_output index f r) (\<lambda>r'. re_draft r' = re_draft r)"
  unfolding change_output_def by (rule goes_bind [OF output_at_any]) simp

lemma summary_section_closed: "closed i r \<Longrightarrow> goes (summary_section index i n r) (closed i)"
  unfolding summary_section_def
proof (rule goes_bind [OF output_at_any])
  fix out assume c: "closed i r"
  have "goes (if oi_last_summary out \<noteq> None \<and> oi_last_summary out \<noteq> Some n
      then re_lift (draft_delta i [CHR 0x0A, CHR 0x0A]) r else Inr r) (closed i)"
    using c by (simp add: closed_delta)
  then show "goes (bind_ok (if oi_last_summary out \<noteq> None \<and> oi_last_summary out \<noteq> Some n
        then re_lift (draft_delta i [CHR 0x0A, CHR 0x0A]) r else Inr r)
      (\<lambda>r1. bind_ok (if oi_last_summary out \<noteq> Some n then re_lift (draft_section i) r1 else Inr r1)
        (change_output index (\<lambda>out. out\<lparr>oi_last_summary := Some n\<rparr>)))) (closed i)"
  proof (rule goes_bind)
    fix r1 assume r1: "closed i r1"
    have "goes (if oi_last_summary out \<noteq> Some n then re_lift (draft_section i) r1 else Inr r1) (closed i)"
      using r1 by (simp add: re_lift_def draft_section_def closed_def push_pending_def)
    then show "goes (bind_ok (if oi_last_summary out \<noteq> Some n then re_lift (draft_section i) r1 else Inr r1)
        (change_output index (\<lambda>out. out\<lparr>oi_last_summary := Some n\<rparr>))) (closed i)"
      by (rule goes_bind, intro goes_mono [OF change_output_same]) (simp add: closed_def)
  qed
qed

definition reads :: "block_id \<Rightarrow> responses \<Rightarrow> bool" where
  "reads i r \<longleftrightarrow> has (re_draft r) i KReasoning \<and> db_state (dd_blocks (re_draft r) ! i) = BlockOpen"

lemma draft_delta_blocks: "draft_delta i t d = Inr d' \<Longrightarrow> dd_blocks d' = dd_blocks d"
  by (auto simp: draft_delta_def push_pending_def elim!: bind_ok_InrE)

lemma summary_section_open:
  assumes "re_inv r" "\<not> dd_done (re_draft r)" "reads i r"
  shows "goes (summary_section index i n r) (\<lambda>r'. re_runs (re_draft r) r' \<and> reads i r')"
  unfolding summary_section_def
proof (rule goes_bind [OF output_at_any])
  fix out
  let ?P = "\<lambda>r'. re_runs (re_draft r) r' \<and> reads i r'"
  have "goes (re_lift (draft_delta i t) r) ?P" for t
    using re_lift_runs [OF assms(1), of "draft_delta i t"] draft_delta_goes [of "re_draft r" i KReasoning t]
      draft_delta_blocks [of i t "re_draft r"] assms
    by (cases "draft_delta i t (re_draft r)") (auto simp: reads_def re_lift_def has_def)
  then have "goes (if oi_last_summary out \<noteq> None \<and> oi_last_summary out \<noteq> Some n
      then re_lift (draft_delta i [CHR 0x0A, CHR 0x0A]) r else Inr r) ?P"
    using assms by (simp add: re_runs_def)
  then show "goes (bind_ok (if oi_last_summary out \<noteq> None \<and> oi_last_summary out \<noteq> Some n
        then re_lift (draft_delta i [CHR 0x0A, CHR 0x0A]) r else Inr r)
      (\<lambda>r1. bind_ok (if oi_last_summary out \<noteq> Some n then re_lift (draft_section i) r1 else Inr r1)
        (change_output index (\<lambda>out. out\<lparr>oi_last_summary := Some n\<rparr>)))) ?P"
  proof (rule goes_bind)
    fix r1 assume r1: "?P r1"
    have "goes (draft_section i (re_draft r1)) (runs (re_draft r1))"
      using r1 by (intro draft_section_runs) (auto simp: reads_def re_runs_def)
    then have "goes (re_lift (draft_section i) r1) (re_runs (re_draft r1))"
      using r1 by (intro re_lift_runs) (simp_all add: re_runs_def)
    then have "goes (re_lift (draft_section i) r1) ?P"
      using r1 runs_trans by (auto simp: re_lift_def draft_section_def re_runs_def reads_def has_def push_pending_def)
    then have "goes (if oi_last_summary out \<noteq> Some n then re_lift (draft_section i) r1 else Inr r1) ?P"
      using r1 by simp
    then show "goes (bind_ok (if oi_last_summary out \<noteq> Some n then re_lift (draft_section i) r1 else Inr r1)
        (change_output index (\<lambda>out. out\<lparr>oi_last_summary := Some n\<rparr>))) ?P"
    proof (rule goes_bind)
      fix r2 assume r2: "?P r2"
      have "goes (change_output index (\<lambda>out. out\<lparr>oi_last_summary := Some n\<rparr>) r2) (\<lambda>r'. re_inv r' \<and> re_draft r' = re_draft r2)"
        using r2 by (intro change_output_goes) (simp_all add: re_runs_def)
      then show "goes (change_output index (\<lambda>out. out\<lparr>oi_last_summary := Some n\<rparr>) r2) ?P"
        by (rule goes_mono) (use r2 in \<open>simp add: re_runs_def reads_def\<close>)
    qed
  qed
qed

lemma reasoning_delta_goes:
  assumes "re_inv r" "\<not> dd_done (re_draft r)" "goes delta (\<lambda>_. True)"
  shows "goes (reasoning_delta index summary delta r) (re_runs (re_draft r))"
  unfolding reasoning_delta_def
proof (rule goes_bind [OF reasoning_block_goes [OF assms(1,2)]], clarify)
  fix i r1 assume r1: "re_runs (re_draft r) r1" "has (re_draft r1) i KReasoning"
  show "goes (bind_ok delta (\<lambda>t. bind_ok (case summary of None \<Rightarrow> Inr r1 | Some n \<Rightarrow> summary_section index i n r1)
      (re_lift (draft_delta i t)))) (re_runs (re_draft r))"
  proof (rule goes_bind [OF assms(3)])
    fix t
    show "goes (bind_ok (case summary of None \<Rightarrow> Inr r1 | Some n \<Rightarrow> summary_section index i n r1)
        (re_lift (draft_delta i t))) (re_runs (re_draft r))"
    proof (cases "closed i r1")
      case True
      have "goes (case summary of None \<Rightarrow> Inr r1 | Some n \<Rightarrow> summary_section index i n r1) (closed i)"
        using True summary_section_closed by (simp split: option.split)
      then show ?thesis by (rule goes_bind) (simp add: closed_delta)
    next
      case False
      then have o: "reads i r1" using r1(2) by (simp add: closed_def reads_def has_def)
      have "goes (case summary of None \<Rightarrow> Inr r1 | Some n \<Rightarrow> summary_section index i n r1)
          (\<lambda>r'. re_runs (re_draft r1) r' \<and> reads i r')"
        using summary_section_open [OF _ _ o] r1(1) o by (auto simp: re_runs_def runs_def split: option.split)
      then show ?thesis
      proof (rule goes_bind, clarify)
        fix r2 assume r2: "re_runs (re_draft r1) r2" "reads i r2"
        have "goes (draft_delta i t (re_draft r2)) (runs (re_draft r2))"
          using r2 by (intro draft_delta_goes) (auto simp: reads_def re_runs_def)
        then have "goes (re_lift (draft_delta i t) r2) (re_runs (re_draft r2))"
          using r2(1) by (intro re_lift_runs) (simp_all add: re_runs_def)
        then show "goes (re_lift (draft_delta i t) r2) (re_runs (re_draft r))"
          by (rule re_runs_then) (use r1(1) r2(1) runs_trans in \<open>auto simp: re_runs_def\<close>)
      qed
    qed
  qed
qed

lemma re_apply_delta_goes:
  assumes "re_inv r" "\<not> dd_done (re_draft r)" "goes delta (\<lambda>_. True)"
  shows "goes (re_apply_delta index kind summary delta r) (re_runs (re_draft r))"
proof -
  have owned: "goes (bind_ok (output_at index r) (\<lambda>out. bind_ok (require_block k out) (\<lambda>i. bind_ok delta (\<lambda>t. re_lift (f i t) r))))
      (re_runs (re_draft r))"
    if "\<And>i t. has (re_draft r) i k \<Longrightarrow> goes (f i t (re_draft r)) (runs (re_draft r))" for k f
  proof (rule goes_bind [OF output_at_goes [OF assms(1)]])
    fix out assume out: "item_ok (re_draft r) out"
    show "goes (bind_ok (require_block k out) (\<lambda>i. bind_ok delta (\<lambda>t. re_lift (f i t) r))) (re_runs (re_draft r))"
      unfolding require_block_def
    proof (rule goes_bind [OF unwrap_goes(2)], rule goes_bind [OF assms(3)])
      fix i t assume "item_block k out = Some i"
      then show "goes (re_lift (f i t) r) (re_runs (re_draft r))"
        using out that [of i] by (intro re_lift_runs assms(1)) (simp add: item_ok_def)
    qed
  qed
  show ?thesis
    using owned [of _ draft_delta] owned [of KToolCall tool_delta] reasoning_delta_goes [OF assms]
      draft_delta_goes [OF _ assms(2)] tool_delta_goes [OF _ assms(2)]
    by (cases kind) (simp_all add: re_apply_delta_def)
qed

lemma stop_part_goes:
  assumes "re_inv r" "\<not> dd_done (re_draft r)"
  shows "goes (stop_part root kind r) (re_runs (re_draft r))"
  unfolding stop_part_def output_for_def
proof (rule goes_bind [OF unwrap_goes(1)])
  fix index
  have same: "re_runs (re_draft r) r" using assms by (simp add: re_runs_def)
  have stop: "goes (re_lift (stop_if_open i) r) (re_runs (re_draft r))" if "has (re_draft r) i k" for i k
    using stop_if_open_goes [OF that assms(2)] by (rule re_lift_runs [OF assms(1)])
  have part: "goes (case item_block k out of None \<Rightarrow> Inr r | Some i \<Rightarrow> re_lift (stop_if_open i) r) (re_runs (re_draft r))"
    if "item_ok (re_draft r) out" for k out
    using that stop same by (auto simp: item_ok_def split: option.split)
  then have "goes (bind_ok (output_at index r) (\<lambda>out. case item_block k out of None \<Rightarrow> Inr r
      | Some i \<Rightarrow> re_lift (stop_if_open i) r)) (re_runs (re_draft r))" for k
    by (rule goes_bind [OF output_at_goes [OF assms(1)]])
  then show "goes (case kind of None \<Rightarrow> Inr r | Some k \<Rightarrow> bind_ok (output_at index r) (\<lambda>out. case item_block k out of None \<Rightarrow> Inr r
      | Some i \<Rightarrow> re_lift (stop_if_open i) r)) (re_runs (re_draft r))"
    using same by (simp split: option.split)
qed

lemma goes_runs_bind:
  assumes "goes m (runs d)" "has d i k" "\<And>d'. has d' i k \<Longrightarrow> \<not> dd_done d' \<Longrightarrow> goes (f d') (runs d')"
  shows "goes (bind_ok m f) (runs d)"
proof (rule goes_bind [OF assms(1)])
  fix d' assume d': "runs d d'"
  have "goes (f d') (runs d')" using assms(3) has_runs [OF assms(2) d'] d' by auto
  then show "goes (f d') (runs d)" by (rule goes_mono) (rule runs_trans [OF d'])
qed

lemma read_search_call_goes:
  assumes "has d i KToolCall" "\<not> dd_done d"
  shows "goes (read_search_call fl i item d) (runs d)"
  unfolding read_search_call_def
proof (rule goes_runs_bind [OF identify_goes [OF assms] assms(1)])
  fix d1 assume d1: "has d1 i KToolCall" "\<not> dd_done d1"
  have written: "goes (case x of JObject _ \<Rightarrow>
      let text = jw_out (jw_value fl x (new_writer [])) in
      if chars_of text = None then Inl DecodeProtocol else final_args i text d1 | _ \<Rightarrow> Inl DecodeProtocol) (runs d1)" for x
    using final_args_goes [OF d1] by (simp add: Let_def split: json.split)
  show "goes (bind_ok (open_block i d1) (\<lambda>b. if db_call_id b = [] then Inl DecodeProtocol
      else bind_ok (or_protocol (json_get item ''arguments'')) (\<lambda>x. case x of JObject _ \<Rightarrow>
        let text = jw_out (jw_value fl x (new_writer [])) in
        if chars_of text = None then Inl DecodeProtocol else final_args i text d1 | _ \<Rightarrow> Inl DecodeProtocol))) (runs d1)"
    by (intro goes_bind [OF open_block_goes [OF d1(1)]] goes_if goes_bind [OF unwrap_goes(2)] written) simp
qed

lemma on_tool_done_goes:
  assumes "has d i KToolCall" "\<not> dd_done d"
  shows "goes (on_tool_done fl i item ty d) (runs d)"
proof -
  have args: "goes (bind_ok (from_frame (require_str item ''arguments'')) (\<lambda>args. final_args i args d)) (runs d)"
    by (intro goes_bind [OF unwrap_goes(1)] final_args_goes assms)
  have "goes (bind_ok (if search then read_search_call fl i item d
      else bind_ok (from_frame (require_str item ''arguments'')) (\<lambda>args. final_args i args d)) (stop_block i)) (runs d)" for search
    by (rule goes_runs_bind [OF _ assms(1)])
      (use args read_search_call_goes [OF assms] stop_block_goes [of _ i KToolCall] in auto)
  then show ?thesis unfolding on_tool_done_def Let_def
    by (intro goes_bind [OF open_block_goes [OF assms(1)]] goes_if drop_block_goes [OF assms]) simp_all
qed

lemma on_output_item_done_goes:
  assumes "re_inv r" "\<not> dd_done (re_draft r)"
  shows "goes (on_output_item_done fl root r) (re_runs (re_draft r))"
proof -
  let ?R = "re_runs (re_draft r)"
  have same: "?R r" using assms by (simp add: re_runs_def)
  have reasoning: "goes (bind_ok (reasoning_block index r) (\<lambda>(i, r1).
      bind_ok (if encrypted = [] then Inr r1
               else re_lift (edit_block i (\<lambda>b. b\<lparr>db_replay := Some ResponsesEncrypted, db_bytes := db_bytes b @ encrypted\<rparr>)) r1)
        (re_lift (stop_if_open i)))) ?R" for index encrypted
  proof (rule goes_bind [OF reasoning_block_goes [OF assms]], clarify)
    fix i r1 assume r1: "?R r1" "has (re_draft r1) i KReasoning"
    have "goes (edit_block i (\<lambda>b. b\<lparr>db_replay := Some ResponsesEncrypted, db_bytes := db_bytes b @ encrypted\<rparr>) (re_draft r1))
        (runs (re_draft r1))"
      using r1 by (intro edit_block_goes [of _ _ KReasoning]) (auto simp: re_runs_def)
    then have "goes (if encrypted = [] then Inr r1 else re_lift (edit_block i
        (\<lambda>b. b\<lparr>db_replay := Some ResponsesEncrypted, db_bytes := db_bytes b @ encrypted\<rparr>)) r1) (re_runs (re_draft r1))"
      using r1(1) re_lift_runs [of r1] by (auto simp: re_runs_def)
    then show "goes (bind_ok (if encrypted = [] then Inr r1 else re_lift (edit_block i
        (\<lambda>b. b\<lparr>db_replay := Some ResponsesEncrypted, db_bytes := db_bytes b @ encrypted\<rparr>)) r1) (re_lift (stop_if_open i))) ?R"
    proof (rule goes_bind)
      fix r2 assume r2: "re_runs (re_draft r1) r2"
      have "goes (stop_if_open i (re_draft r2)) (runs (re_draft r2))"
        using r1(2) r2 has_runs by (intro stop_if_open_goes [of _ _ KReasoning]) (auto simp: re_runs_def)
      then have "goes (re_lift (stop_if_open i) r2) (re_runs (re_draft r2))"
        using r2 by (intro re_lift_runs) (simp_all add: re_runs_def)
      then show "goes (re_lift (stop_if_open i) r2) ?R"
        by (rule re_runs_then) (use r1(1) r2 runs_trans in \<open>auto simp: re_runs_def\<close>)
    qed
  qed
  have tool: "goes (bind_ok (require_block KToolCall out) (\<lambda>i. bind_ok (from_frame (require_str item ''type''))
      (\<lambda>ty. re_lift (on_tool_done fl i item ty) r))) ?R" if "item_ok (re_draft r) out" for out item
    unfolding require_block_def
  proof (rule goes_bind [OF unwrap_goes(2)], rule goes_bind [OF frame_goes])
    fix i ty assume "item_block KToolCall out = Some i"
    then have "has (re_draft r) i KToolCall" using that by (simp add: item_ok_def)
    then show "goes (re_lift (on_tool_done fl i item ty) r) ?R"
      by (intro re_lift_runs assms on_tool_done_goes)
  qed
  have done': "goes (case oi_kind out of ItemMessage \<Rightarrow> Inr r | ItemIgnored \<Rightarrow> Inr r
      | ItemReasoning \<Rightarrow>
          let encrypted = (case get_str item ''encrypted_content'' of None \<Rightarrow> [] | Some e \<Rightarrow> e) in
          if item_block KReasoning out = None \<and> encrypted = [] then Inr r
          else bind_ok (reasoning_block index r) (\<lambda>(i, r1).
            bind_ok (if encrypted = [] then Inr r1
                     else re_lift (edit_block i (\<lambda>b. b\<lparr>db_replay := Some ResponsesEncrypted, db_bytes := db_bytes b @ encrypted\<rparr>)) r1)
              (re_lift (stop_if_open i)))
      | ItemTool \<Rightarrow> bind_ok (require_block KToolCall out) (\<lambda>i. bind_ok (from_frame (require_str item ''type''))
          (\<lambda>ty. re_lift (on_tool_done fl i item ty) r))) ?R" if "item_ok (re_draft r) out" for out item index
    using same tool [OF that] reasoning by (cases "oi_kind out") (simp_all only: item_kind.case goes_simps Let_def goes_if)
  show ?thesis unfolding on_output_item_done_def output_for_def
    by (intro goes_bind [OF unwrap_goes(1)] goes_bind [OF unwrap_goes(2)] goes_bind [OF output_at_goes [OF assms(1)]] done')
qed

lemma re_usage_runs: "\<not> dd_done d \<Longrightarrow> runs d (re_usage response d)"
  by (auto simp: re_usage_def Let_def intro: runs_fields split: option.split)

lemma re_finish_goes:
  assumes "\<not> dd_done d"
  shows "goes (close_and_finish DropTools (set_finish reason raw (re_usage response d))) (grows d)"
proof -
  have r: "runs d (set_finish reason raw (re_usage response d))"
    using re_usage_runs [OF assms] runs_fields(2) [of "re_usage response d"] runs_trans by blast
  show ?thesis
    by (rule goes_mono [OF close_and_finish_goes]) (use r runs_grows in auto)
qed

lemma re_end_goes:
  assumes "\<not> dd_done d"
  shows "goes (on_completed root d) (grows d)" "goes (on_incomplete root d) (grows d)"
proof -
  show "goes (on_completed root d) (grows d)"
    unfolding on_completed_def Let_def by (intro goes_bind [OF unwrap_goes(2)] re_finish_goes assms)
  have reason: "goes (case get_object response ''incomplete_details'' of None \<Rightarrow> Inr ''incomplete''
      | Some ds \<Rightarrow> bind_ok (from_frame (optional_str ds ''reason''))
          (\<lambda>named. Inr (case named of None \<Rightarrow> ''incomplete'' | Some t \<Rightarrow> t))) (\<lambda>_. True)" for response
    by (cases "get_object response ''incomplete_details''") (auto intro: goes_bind [OF frame_goes])
  show "goes (on_incomplete root d) (grows d)"
    unfolding on_incomplete_def Let_def
    by (intro goes_bind [OF unwrap_goes(2)] goes_bind [OF reason] re_finish_goes assms)
qed

lemma re_event_goes:
  assumes "re_inv r" "\<not> dd_done (re_draft r)"
  shows "goes (re_event fl ty root r) (re_grows (re_draft r))"
proof -
  have part: "goes (bind_ok (part_type root) (\<lambda>pt. stop_part root (part_kind pt) r)) (re_runs (re_draft r))"
    unfolding part_type_def
    by (intro goes_bind [where P = "\<lambda>_. True"] stop_part_goes assms goes_bind [OF unwrap_goes(2)] frame_goes)
  have ends: "goes (re_lift (on_completed root) r) (re_grows (re_draft r))"
    "goes (re_lift (on_incomplete root) r) (re_grows (re_draft r))"
    using re_end_goes [OF assms(2)] by (auto intro: re_lift_goes [OF assms(1)])
  have same: "re_grows (re_draft r) r" using assms(1) by (simp add: re_grows_def)
  show ?thesis unfolding re_event_def
    by (intro goes_if ends re_runs_grows part stop_part_goes on_output_item_added_goes on_content_part_added_goes
        on_output_item_done_goes assms) (use assms in \<open>simp add: re_runs_def\<close>)
qed

lemma re_decode_tree_goes:
  assumes "re_inv r" "\<not> dd_done (re_draft r)"
  shows "goes (re_decode_tree fl root r) (\<lambda>(k, r'). re_grows (re_draft r) r')"
  unfolding re_decode_tree_def
proof (rule goes_bind [OF frame_goes])
  fix ty
  show "goes (case delta_kind_of ty of Some kind \<Rightarrow>
        let delta = from_frame (require_str root ''delta'') in
        bind_ok (from_frame (get_index root ''output_index'')) (\<lambda>index.
        bind_ok (re_apply_delta index kind (get_int root ''summary_index'') delta r) (\<lambda>r1. Inr (None, r1)))
      | None \<Rightarrow> if ty = ''response.failed'' \<or> ty = ''error'' then Inr (Some (event_kind root), r)
          else bind_ok (re_event fl ty root r) (\<lambda>r1. Inr (None, r1))) (\<lambda>(k, r'). re_grows (re_draft r) r')"
  proof (cases "delta_kind_of ty")
    case None
    have "re_grows (re_draft r) r" using assms(1) by (simp add: re_grows_def)
    then show ?thesis unfolding None option.case
      by (intro goes_if goes_no_kind re_event_goes assms) simp
  next
    case (Some kind)
    show ?thesis unfolding Some option.case Let_def
      by (intro goes_bind [OF frame_goes] goes_no_kind re_runs_grows re_apply_delta_goes assms frame_goes)
  qed
qed

lemma re_decode_goes:
  assumes "re_inv r" "\<not> dd_done (re_draft r)"
  shows "goes (re_decode fl parse typed data r) (\<lambda>(k, r'). re_inv r' \<and> grows (re_draft r) (re_draft r'))"
proof -
  have tree: "goes (bind_ok (or_protocol (parse data)) (\<lambda>root. re_decode_tree fl root r)) (\<lambda>(k, r'). re_grows (re_draft r) r')"
    by (intro goes_bind [OF unwrap_goes(2)] re_decode_tree_goes assms)
  have typed: "goes (bind_ok (typed_index n) (\<lambda>index. bind_ok (re_apply_delta index kind s (Inr t) r) (\<lambda>r1. Inr (None, r1))))
      (\<lambda>(k, r'). re_grows (re_draft r) r')" for n kind s t
    by (intro goes_bind [OF unwrap_goes(3)] goes_no_kind re_runs_grows re_apply_delta_goes assms) simp
  show ?thesis unfolding re_decode_def Let_def re_grows_def [symmetric]
    using tree typed by (auto split: option.split)
qed

definition re_clear :: "responses \<Rightarrow> responses" where
  "re_clear r = r\<lparr>re_draft := clear_events (re_draft r)\<rparr>"

lemma re_clear_same: "re_draft (re_clear r) = clear_events (re_draft r)" "re_inv r \<Longrightarrow> re_inv (re_clear r)"
  by (simp_all add: re_clear_def re_inv_def item_ok_def has_def clear_events_def)

interpretation items: reducer "re_decode fl parse typed" re_draft re_clear re_inv for fl parse typed
  by unfold_locales (rule re_decode_goes re_clear_same; assumption?)+

section \<open>The typed path is the tree path\<close>

lemma typed_event_tree:
  assumes "read_delta_event v = Some e" "v = JObject ms" "delta_kind_of (de_event e) = Some kind"
  shows "re_decode_tree fl v r = bind_ok (typed_index (de_output_index e)) (\<lambda>index.
      bind_ok (re_apply_delta index kind (de_summary_index e) (Inr (de_delta e)) r) (\<lambda>r1. Inr (None, r1)))"
proof -
  have f: "typed_field typed_text ms ''type'' = Some (de_event e)" "typed_field typed_i64 ms ''output_index'' = Some (de_output_index e)"
    "typed_field typed_text ms ''delta'' = Some (de_delta e)"
    "typed_field (typed_option typed_i64) ms ''summary_index'' = Some (de_summary_index e)"
    using assms(1) by (auto simp: assms(2) read_delta_event_def split: option.splits)
  have ty: "require_str v ''type'' = Inr (de_event e)" "require_str v ''delta'' = Inr (de_delta e)"
    using typed_text_get [OF f(1)] typed_text_get [OF f(3)] by (simp_all add: require_str_def assms(2))
  have i: "from_frame (get_index v ''output_index'') = typed_index (de_output_index e)"
    using typed_index_get [OF typed_i64_get [OF f(2)]] by (simp add: assms(2))
  have s: "get_int v ''summary_index'' = de_summary_index e"
    using typed_field_get [OF f(4)]
    by (auto simp: assms(2) get_int_def typed_option_def typed_i64_def simp del: json_get.simps
        split: option.splits json.splits)
  show ?thesis by (simp add: re_decode_tree_def ty i s assms(3) Let_def)
qed

text \<open>
  C39: The typed path of Responses deltas is only faster: for every payload that parses, a reducer with it does
  what one does that always takes the tree path, down to the error. The hypotheses are what is documented of
  the parser: a text that starts with a brace is an object, and the typed read is the derived one.
\<close>

theorem re_typed_is_tree:
  assumes "parse data = Some v"
    and "typed data = read_delta_event v"
    and "starts_object data \<Longrightarrow> \<exists>ms. v = JObject ms"
  shows "re_decode fl parse typed data r = re_decode fl parse (\<lambda>_. None) data r"
proof (cases "starts_object data \<and> (\<exists>e. typed data = Some e \<and> delta_kind_of (de_event e) \<noteq> None)")
  case True
  then obtain e ms kind where e: "read_delta_event v = Some e" "delta_kind_of (de_event e) = Some kind" "v = JObject ms"
    using assms(2,3) by auto
  show ?thesis using typed_event_tree [OF e(1,3,2)] True assms(1,2) e by (simp add: re_decode_def Let_def)
qed (auto simp: re_decode_def Let_def split: option.split)

definition example_summary :: json where
  "example_summary = JObject [(''type'', JString ''response.reasoning_summary_text.delta''), (''output_index'', JInteger 0),
     (''delta'', JString ''hi''), (''summary_index'', JNull)]"

definition example_responses :: responses where
  "example_responses = new_responses (new_draft \<lparr>origin_model = ''m'', origin_base_url = ''u''\<rparr> default_limits)"

theorem re_typed_is_tree_witness:
  "re_decode (\<lambda>_. []) (\<lambda>_. Some example_summary) (\<lambda>_. read_delta_event example_summary) ''{'' example_responses =
     re_decode (\<lambda>_. []) (\<lambda>_. Some example_summary) (\<lambda>_. None) ''{'' example_responses \<and>
   read_delta_event example_summary \<noteq> None"
  using re_typed_is_tree [of "\<lambda>_. Some example_summary" "''{''" example_summary "\<lambda>_. read_delta_event example_summary" "\<lambda>_. []" example_responses]
  by (simp add: example_summary_def read_delta_event_def typed_field_def members_of_def typed_text_def typed_i64_def
      typed_option_def)

section \<open>The reason of a completed response\<close>

lemma list_ex_update: "\<not> P (xs ! i) \<Longrightarrow> \<not> P y \<Longrightarrow> list_ex P (xs[i := y]) = list_ex P xs"
  by (induction xs arbitrary: i) (auto split: nat.split)

lemma tool_call_put:
  assumes "db_state (dd_blocks d ! i) \<noteq> BlockStopped'" "db_kind b = KToolCall \<longrightarrow> db_state b \<noteq> BlockStopped'"
  shows "has_tool_call (put_block i b d) = has_tool_call d"
  using assms unfolding has_tool_call_def put_block_def by (simp add: list_ex_update)

lemma close_drop_tools:
  "close_blocks DropTools is d = Inr d' \<Longrightarrow>
     has_tool_call d' = has_tool_call d \<and> dd_finish_reason d' = dd_finish_reason d \<and>
     dd_raw_finish_reason d' = dd_raw_finish_reason d"
proof (induction "is" arbitrary: d)
  case (Cons i js)
  from Cons.prems obtain d1 where d1: "close_blocks DropTools js d1 = Inr d'"
    "(if db_state (dd_blocks d ! i) \<noteq> BlockOpen then Inr d else if i \<ge> 2 ^ 32 then Inl DecodeTooLarge
      else if DropTools = DropTools \<and> db_kind (dd_blocks d ! i) = KToolCall then drop_block i d else stop_block i d) = Inr d1"
    unfolding close_blocks.simps by (rule bind_ok_InrE)
  have "has_tool_call d1 = has_tool_call d \<and> dd_finish_reason d1 = dd_finish_reason d \<and>
      dd_raw_finish_reason d1 = dd_raw_finish_reason d"
  proof -
    have push: "has_tool_call (push_pending x e) = has_tool_call e" for x e by (simp add: has_tool_call_def push_pending_def)
    show ?thesis using d1(2) tool_call_put [of d i]
      by (auto simp: drop_block_def stop_block_def open_block_def push split: if_splits)
        (auto simp: put_block_def push_pending_def)
  qed
  then show ?case using Cons.IH [OF d1(1)] by simp
qed simp

text \<open>
  A completed response ends with no block open and with the reason that its blocks call for: \<open>refusal\<close>
  when a refusal was told, else \<open>tool_calls\<close> when a tool call was finished, else \<open>stop\<close>. A tool call that
  was still open is dropped, so it never decides the reason.
\<close>

theorem completed_reason:
  assumes "on_completed root d = Inr d'" "\<not> dd_done d"
  shows "dd_done d' \<and> \<not> any_open d' \<and> dd_raw_finish_reason d' = ''completed'' \<and>
    dd_finish_reason d' =
      (if \<exists>b\<in>set (dd_blocks d'). db_kind b = KRefusal \<and> db_state b = BlockStopped' then FinRefusal
       else if has_tool_call d' then FinToolCalls else FinStop)"
proof -
  obtain response where "get_object root ''response'' = Some response"
    using assms(1) by (auto simp: on_completed_def or_protocol_def elim!: bind_ok_InrE split: option.splits)
  then obtain d2 where d2: "close_blocks DropTools [0..<length (dd_blocks (set_finish
        (if has_tool_call (re_usage response d) then FinToolCalls else FinStop) ''completed'' (re_usage response d)))]
      (set_finish (if has_tool_call (re_usage response d) then FinToolCalls else FinStop) ''completed'' (re_usage response d)) = Inr d2"
    (is "close_blocks DropTools ?is ?d1 = _") "d' = finish_draft d2"
    using assms(1) by (auto simp: on_completed_def Let_def close_and_finish_def elim!: bind_ok_InrE)
  have live: "\<not> dd_done ?d1" using re_usage_runs [OF assms(2)] by (auto simp: set_finish_def)
  have "\<not> any_open d2"
    using goes_Inr [OF d2(1) close_blocks_goes [OF live]]
    by (auto simp: any_open_def list_ex_iff in_set_conv_nth)
  moreover have "has_tool_call d2 = has_tool_call (re_usage response d)"
    using close_drop_tools [OF d2(1)] by (simp add: has_tool_call_def set_finish_def)
  moreover have "dd_finish_reason d2 = (if has_tool_call (re_usage response d) then FinToolCalls else FinStop)"
    "dd_raw_finish_reason d2 = ''completed''"
    using close_drop_tools [OF d2(1)] by (simp_all add: set_finish_def)
  ultimately show ?thesis
    by (auto simp: d2(2) finish_draft_def Let_def push_pending_def any_open_def has_tool_call_def list_ex_iff)
qed

definition example_completed :: json where
  "example_completed = JObject [(''response'', JObject [])]"

definition example_open_tool :: response_draft where
  "example_open_tool = (new_draft \<lparr>origin_model = ''m'', origin_base_url = ''u''\<rparr> default_limits)
     \<lparr>dd_blocks := [\<lparr>db_kind = KToolCall, db_state = BlockOpen, db_call_id = ''c'', db_name = ''n'', db_bytes = [], db_replay = None\<rparr>]\<rparr>"

theorem completed_reason_witness:
  "\<exists>d'. on_completed example_completed example_open_tool = Inr d' \<and> dd_finish_reason d' = FinStop \<and> \<not> any_open d'"
proof -
  obtain d' where d': "on_completed example_completed example_open_tool = Inr d'" "db_state (dd_blocks d' ! 0) = BlockDropped"
    "length (dd_blocks d') = 1" "db_kind (dd_blocks d' ! 0) = KToolCall"
    by (auto simp: on_completed_def example_completed_def get_object_def Let_def re_usage_def example_open_tool_def
        new_draft_def close_and_finish_def set_finish_def drop_block_def open_block_def put_block_def finish_draft_def
        push_pending_def)
  have "\<not> dd_done example_open_tool" by (simp add: example_open_tool_def new_draft_def)
  note r = completed_reason [OF d'(1) this]
  obtain b where "dd_blocks d' = [b]" using d'(3) by (cases "dd_blocks d'") auto
  then show ?thesis using d' r by (auto simp: has_tool_call_def)
qed

end
