(* ===== verification/Chat.thy ===== *)
theory Chat
  imports Reducer Json_Writer
begin

text \<open>
  The reducer of OpenAI Chat Completions, \<open>crates/ai/src/stream/openai_chat.rs\<close>: the channels and tool
  calls of a message, the merge of the reasoning details of OpenRouter, every handler, and both read paths.

  The theory proves the contract of a reducer for it, when the typed path of a chunk is the tree path, and
  that the merged details are stored as JSON text that reads back as them.
\<close>

section \<open>Reasoning details\<close>

datatype detail_kind = DetailText | DetailSummary | DetailEncrypted

definition detail_parse :: "string \<Rightarrow> detail_kind option" where
  "detail_parse n =
     (if n = ''reasoning.text'' then Some DetailText
      else if n = ''reasoning.summary'' then Some DetailSummary
      else if n = ''reasoning.encrypted'' then Some DetailEncrypted
      else None)"

fun detail_name :: "detail_kind \<Rightarrow> string" where
  "detail_name DetailText = ''reasoning.text''"
| "detail_name DetailSummary = ''reasoning.summary''"
| "detail_name DetailEncrypted = ''reasoning.encrypted''"

fun detail_field :: "detail_kind \<Rightarrow> string" where
  "detail_field DetailText = ''text''"
| "detail_field DetailSummary = ''summary''"
| "detail_field DetailEncrypted = ''data''"

record detail =
  dt_kind :: detail_kind
  dt_body :: string
  dt_has_body :: bool
  dt_signature :: "string option"
  dt_id :: "string option"
  dt_format :: "string option"
  dt_index :: "int option"

definition keep_first :: "string option \<Rightarrow> string option \<Rightarrow> string option" where
  "keep_first held value =
     (case held of
        Some _ \<Rightarrow> held
      | None \<Rightarrow> (case value of None \<Rightarrow> None | Some t \<Rightarrow> if t = [] then None else Some t))"

definition write_optional :: "string \<Rightarrow> string option \<Rightarrow> json_writer \<Rightarrow> json_writer" where
  "write_optional name value w = (case value of None \<Rightarrow> w | Some t \<Rightarrow> field_str name t w)"

definition write_detail :: "detail \<Rightarrow> json_writer \<Rightarrow> json_writer" where
  "write_detail x w =
     (let w1 = field_str ''type'' (detail_name (dt_kind x)) (begin_object w);
          w2 = (if dt_has_body x then field_str (detail_field (dt_kind x)) (dt_body x) w1 else w1);
          w3 = write_optional ''format'' (dt_format x) (write_optional ''id'' (dt_id x)
                 (write_optional ''signature'' (dt_signature x) w2));
          w4 = (case dt_index x of None \<Rightarrow> w3 | Some n \<Rightarrow> jw_int n (jw_key ''index'' w3))
      in end_object w4)"

definition write_details :: "detail list \<Rightarrow> json_writer \<Rightarrow> json_writer" where
  "write_details ds w = end_array (fold write_detail ds (begin_array w))"

section \<open>What the typed path reads\<close>

record chat_function =
  fn_name :: "string option"
  fn_arguments :: "string option"

record chat_call =
  tc_index :: int
  tc_id :: "string option"
  tc_function :: "chat_function option"

record chat_delta =
  cd_reasoning :: "string option"
  cd_details :: "unit option"
  cd_content :: "string option"
  cd_refusal :: "string option"
  cd_tool_calls :: "chat_call option option"

record chat_choice =
  cc_delta :: "chat_delta option"
  cc_finish_reason :: "string option"

record chat_chunk =
  ck_error :: "unit option"
  ck_usage :: "unit option"
  ck_choices :: "chat_choice option"

definition chunk_typed :: "chat_chunk \<Rightarrow> bool" where
  "chunk_typed c =
     (ck_error c = None \<and> ck_usage c = None \<and>
      (case (case ck_choices c of None \<Rightarrow> None | Some ch \<Rightarrow> cc_delta ch) of
         None \<Rightarrow> True
       | Some d \<Rightarrow>
           cd_details d = None \<and>
           (case (case cd_tool_calls d of None \<Rightarrow> None | Some call \<Rightarrow> call) of
              None \<Rightarrow> True
            | Some call \<Rightarrow> tc_function call \<noteq> None)))"

section \<open>The reducer\<close>

record chat =
  ch_draft :: response_draft
  ch_channels :: "block_id option list"
  ch_tools :: "(nat \<times> block_id) list"
  ch_details :: "detail list"
  ch_details_seen :: bool

definition new_chat :: "response_draft \<Rightarrow> chat" where
  "new_chat d = \<lparr>ch_draft = d, ch_channels = [None, None, None], ch_tools = [], ch_details = [], ch_details_seen = False\<rparr>"

definition ch_lift :: "(response_draft \<Rightarrow> decode_error + response_draft) \<Rightarrow> chat \<Rightarrow> decode_error + chat" where
  "ch_lift f r = bind_ok (f (ch_draft r)) (\<lambda>d. Inr (r\<lparr>ch_draft := d\<rparr>))"

text \<open>The slot of a channel; a tool call has none, and the source panics on it.\<close>

fun channel_index :: "block_kind \<Rightarrow> nat option" where
  "channel_index KText = Some 0"
| "channel_index KRefusal = Some 1"
| "channel_index KReasoning = Some 2"
| "channel_index KToolCall = None"

definition ch_finish_reason :: "string \<Rightarrow> finish_reason" where
  "ch_finish_reason raw =
     (if raw = ''stop'' then FinStop
      else if raw = ''length'' \<or> raw = ''model_length'' then FinLength
      else if raw = ''tool_calls'' \<or> raw = ''function_call'' then FinToolCalls
      else if raw = ''content_filter'' then FinContentFilter
      else FinUnknown)"

definition is_interrupted :: "string \<Rightarrow> bool" where
  "is_interrupted raw = (raw = ''insufficient_system_resource'' \<or> raw = ''aborted'' \<or> raw = ''error'')"

definition ch_channel :: "block_kind \<Rightarrow> chat \<Rightarrow> decode_error + block_id \<times> chat" where
  "ch_channel kind r =
     (case channel_index kind of
        None \<Rightarrow> Inl DecodePanic
      | Some index \<Rightarrow>
          (case ch_channels r ! index of
             Some i \<Rightarrow> Inr (i, r)
           | None \<Rightarrow>
               bind_ok (start_block kind (ch_draft r)) (\<lambda>(i, d).
                 Inr (i, r\<lparr>ch_draft := d, ch_channels := (ch_channels r)[index := Some i]\<rparr>))))"

definition append_delta :: "block_kind \<Rightarrow> string \<Rightarrow> chat \<Rightarrow> decode_error + chat" where
  "append_delta kind t r =
     (if t = [] then Inr r else bind_ok (ch_channel kind r) (\<lambda>(i, r1). ch_lift (draft_delta i t) r1))"

definition append_optional :: "block_kind \<Rightarrow> string option \<Rightarrow> chat \<Rightarrow> decode_error + chat" where
  "append_optional kind t r = (case t of None \<Rightarrow> Inr r | Some s \<Rightarrow> append_delta kind s r)"

definition tool_block :: "nat \<Rightarrow> chat \<Rightarrow> decode_error + block_id \<times> chat" where
  "tool_block index r =
     (case find (\<lambda>t. fst t = index) (ch_tools r) of
        Some t \<Rightarrow> Inr (snd t, r)
      | None \<Rightarrow>
          bind_ok (start_block KToolCall (ch_draft r)) (\<lambda>(i, d).
            Inr (i, r\<lparr>ch_draft := d, ch_tools := ch_tools r @ [(index, i)]\<rparr>)))"

definition on_tool_fragment ::
  "nat \<Rightarrow> string option \<Rightarrow> string option \<Rightarrow> string option \<Rightarrow> chat \<Rightarrow> decode_error + chat" where
  "on_tool_fragment index cid name args r =
     bind_ok (tool_block index r) (\<lambda>(i, r1).
     bind_ok (ch_lift (identify i (case cid of None \<Rightarrow> [] | Some c \<Rightarrow> c) (case name of None \<Rightarrow> [] | Some n \<Rightarrow> n)) r1)
       (case args of None \<Rightarrow> Inr | Some t \<Rightarrow> ch_lift (tool_delta i t)))"

definition on_tool_call :: "json \<Rightarrow> chat \<Rightarrow> decode_error + chat" where
  "on_tool_call call r =
     bind_ok (from_frame (get_index call ''index'')) (\<lambda>index.
       case json_get call ''function'' of
         None \<Rightarrow> Inr r
       | Some function \<Rightarrow>
           (case function of
              JObject _ \<Rightarrow>
                bind_ok (case json_get function ''arguments'' of
                           None \<Rightarrow> Inr None
                         | Some JNull \<Rightarrow> Inr None
                         | Some (JString t) \<Rightarrow> Inr (Some t)
                         | Some _ \<Rightarrow> Inl DecodeProtocol) (\<lambda>args.
                bind_ok (from_frame (optional_str call ''id'')) (\<lambda>cid.
                bind_ok (from_frame (optional_str function ''name'')) (\<lambda>name.
                  on_tool_fragment index cid name args r)))
            | _ \<Rightarrow> Inl DecodeProtocol))"

fun on_tool_calls :: "json list \<Rightarrow> chat \<Rightarrow> decode_error + chat" where
  "on_tool_calls [] r = Inr r"
| "on_tool_calls (c # cs) r = bind_ok (on_tool_call c r) (on_tool_calls cs)"

definition merge_detail :: "json \<Rightarrow> detail \<Rightarrow> detail" where
  "merge_detail entry x =
     (let y = (case get_str entry (detail_field (dt_kind x)) of
                 None \<Rightarrow> x
               | Some body \<Rightarrow> x\<lparr>dt_body := dt_body x @ body, dt_has_body := True\<rparr>)
      in y\<lparr>dt_signature := keep_first (dt_signature y) (get_str entry ''signature''),
           dt_id := keep_first (dt_id y) (get_str entry ''id''),
           dt_format := keep_first (dt_format y) (get_str entry ''format'')\<rparr>)"

definition new_detail :: "detail_kind \<Rightarrow> json \<Rightarrow> detail" where
  "new_detail kind entry =
     \<lparr>dt_kind = kind, dt_body = [], dt_has_body = False, dt_signature = None, dt_id = None, dt_format = None,
      dt_index = get_int entry ''index''\<rparr>"

definition on_detail :: "json \<Rightarrow> chat \<Rightarrow> decode_error + chat" where
  "on_detail entry r =
     (case (case get_str entry ''type'' of None \<Rightarrow> None | Some n \<Rightarrow> detail_parse n) of
        None \<Rightarrow> Inr r
      | Some kind \<Rightarrow>
          let ds = ch_details r;
              reuse = (ds \<noteq> [] \<and> dt_kind (last ds) = kind \<and> kind \<noteq> DetailEncrypted)
          in if \<not> reuse \<and> length ds \<ge> max_blocks (dd_limits (ch_draft r)) then Inl DecodeTooLarge
             else
               let ds1 = (if reuse then ds else ds @ [new_detail kind entry])
               in Inr (r\<lparr>ch_details := butlast ds1 @ [merge_detail entry (last ds1)]\<rparr>))"

fun on_details :: "json list \<Rightarrow> chat \<Rightarrow> decode_error + chat" where
  "on_details [] r = Inr r"
| "on_details (e # es) r = bind_ok (on_detail e r) (on_details es)"

definition on_delta :: "json \<Rightarrow> chat \<Rightarrow> decode_error + chat" where
  "on_delta delta r =
     bind_ok (append_optional KReasoning
       (case get_str delta ''reasoning_content'' of None \<Rightarrow> get_str delta ''reasoning'' | Some t \<Rightarrow> Some t) r) (\<lambda>r1.
     bind_ok (case json_get delta ''reasoning_details'' of
                Some (JArray entries) \<Rightarrow>
                  bind_ok (ch_channel KReasoning r1) (\<lambda>(i, r2). on_details entries (r2\<lparr>ch_details_seen := True\<rparr>))
              | _ \<Rightarrow> Inr r1) (\<lambda>r2.
     bind_ok (append_optional KText (get_str delta ''content'') r2) (\<lambda>r3.
     bind_ok (append_optional KRefusal (get_str delta ''refusal'') r3) (\<lambda>r4.
       case json_get delta ''tool_calls'' of
         Some (JArray calls) \<Rightarrow> on_tool_calls calls r4
       | _ \<Rightarrow> Inr r4))))"

definition on_finish :: "string \<Rightarrow> chat \<Rightarrow> provider_kind option \<times> chat" where
  "on_finish raw r =
     (if is_interrupted raw then (Some ServerError, r)
      else (None, r\<lparr>ch_draft := set_finish (ch_finish_reason raw) raw (ch_draft r)\<rparr>))"

definition on_finish_opt :: "string option \<Rightarrow> chat \<Rightarrow> provider_kind option \<times> chat" where
  "on_finish_opt raw r = (case raw of None \<Rightarrow> (None, r) | Some t \<Rightarrow> on_finish t r)"

definition on_choice :: "json \<Rightarrow> chat \<Rightarrow> decode_error + provider_kind option \<times> chat" where
  "on_choice choice r =
     bind_ok (case json_get choice ''delta'' of Some (JObject ms) \<Rightarrow> on_delta (JObject ms) r | _ \<Rightarrow> Inr r) (\<lambda>r1.
       Inr (on_finish_opt (get_str choice ''finish_reason'') r1))"

definition on_chunk :: "chat_chunk \<Rightarrow> chat \<Rightarrow> decode_error + provider_kind option \<times> chat" where
  "on_chunk chunk r =
     (case ck_choices chunk of
        None \<Rightarrow> Inr (None, r)
      | Some choice \<Rightarrow>
          bind_ok
            (case cc_delta choice of
               None \<Rightarrow> Inr r
             | Some delta \<Rightarrow>
                 bind_ok (append_optional KReasoning (cd_reasoning delta) r) (\<lambda>r1.
                 bind_ok (append_optional KText (cd_content delta) r1) (\<lambda>r2.
                 bind_ok (append_optional KRefusal (cd_refusal delta) r2) (\<lambda>r3.
                   case cd_tool_calls delta of
                     Some (Some call) \<Rightarrow>
                       (case tc_function call of
                          None \<Rightarrow> Inr r3
                        | Some function \<Rightarrow>
                            bind_ok (typed_index (tc_index call)) (\<lambda>index.
                              on_tool_fragment index (tc_id call) (fn_name function) (fn_arguments function) r3))
                   | _ \<Rightarrow> Inr r3))))
            (\<lambda>r1. Inr (on_finish_opt (cc_finish_reason choice) r1)))"

definition ch_usage :: "json \<Rightarrow> response_draft \<Rightarrow> response_draft" where
  "ch_usage root d =
     (case get_object root ''usage'' of
        None \<Rightarrow> d
      | Some usage \<Rightarrow>
          let prompt = get_object usage ''prompt_tokens_details'';
              cached = find_map (\<lambda>(obj, key). case obj of None \<Rightarrow> None | Some ob \<Rightarrow> count64 ob key)
                [(prompt, ''cached_tokens''), (Some usage, ''prompt_cache_hit_tokens''), (Some usage, ''cached_tokens'')];
              t1 = (dd_usage d)\<lparr>usage_input := count64 usage ''prompt_tokens'',
                     usage_output := count64 usage ''completion_tokens'', usage_cache_read := cached\<rparr>;
              t2 = (case prompt of None \<Rightarrow> t1 | Some ds \<Rightarrow> t1\<lparr>usage_cache_write := count64 ds ''cache_write_tokens''\<rparr>);
              t3 = (case get_object usage ''completion_tokens_details'' of
                      None \<Rightarrow> t2 | Some ds \<Rightarrow> t2\<lparr>usage_reasoning := count64 ds ''reasoning_tokens''\<rparr>)
          in d\<lparr>dd_usage := t3\<rparr>)"

section \<open>The end and a payload\<close>

definition store_details :: "chat \<Rightarrow> decode_error + chat" where
  "store_details r =
     (if \<not> ch_details_seen r then Inr r
      else
        bind_ok (or_protocol (ch_channels r ! 2)) (\<lambda>i.
        bind_ok (open_block i (ch_draft r)) (\<lambda>b.
          let bytes = jw_out (write_details (ch_details r) (new_writer (db_bytes b))) in
          if chars_of bytes = None then Inl DecodeProtocol
          else if length bytes > max_event_bytes (dd_limits (ch_draft r)) then Inl DecodeTooLarge
          else Inr (r\<lparr>ch_draft := put_block i (b\<lparr>db_replay := Some OpenrouterDetails, db_bytes := bytes\<rparr>) (ch_draft r)\<rparr>))))"

definition on_done :: "chat \<Rightarrow> decode_error + chat" where
  "on_done r = bind_ok (store_details r) (ch_lift (close_and_finish KeepTools))"

definition ch_decode_tree :: "json \<Rightarrow> chat \<Rightarrow> decode_error + provider_kind option \<times> chat" where
  "ch_decode_tree root r =
     (if json_get root ''error'' \<noteq> None \<and> json_get root ''error'' \<noteq> Some JNull then Inr (Some (event_kind root), r)
      else
        bind_ok (case json_get root ''choices'' of Some (JArray (choice # _)) \<Rightarrow> on_choice choice r | _ \<Rightarrow> Inr (None, r))
          (\<lambda>(kind, r1).
             if kind \<noteq> None then Inr (kind, r1) else Inr (None, r1\<lparr>ch_draft := ch_usage root (ch_draft r1)\<rparr>)))"

definition ch_decode ::
  "json_parser \<Rightarrow> (string \<Rightarrow> chat_chunk option) \<Rightarrow> string \<Rightarrow> chat \<Rightarrow> decode_error + provider_kind option \<times> chat" where
  "ch_decode parse typed data r =
     (if data = ''[DONE]'' then bind_ok (on_done r) (\<lambda>r1. Inr (None, r1))
      else
        let tree = bind_ok (or_protocol (parse data)) (\<lambda>root. ch_decode_tree root r) in
        case (if starts_object data then typed data else None) of
          None \<Rightarrow> tree
        | Some chunk \<Rightarrow> if chunk_typed chunk then on_chunk chunk r else tree)"

section \<open>The contract\<close>

text \<open>A channel and a tool call name blocks of the draft, of their kind.\<close>

definition ch_inv :: "chat \<Rightarrow> bool" where
  "ch_inv r \<longleftrightarrow> length (ch_channels r) = 3 \<and>
     (\<forall>k n i. channel_index k = Some n \<longrightarrow> ch_channels r ! n = Some i \<longrightarrow> has (ch_draft r) i k) \<and>
     (\<forall>t\<in>set (ch_tools r). has (ch_draft r) (snd t) KToolCall)"

definition ch_runs :: "response_draft \<Rightarrow> chat \<Rightarrow> bool" where
  "ch_runs d r \<longleftrightarrow> ch_inv r \<and> runs d (ch_draft r)"

lemma ch_runs_trans: "ch_runs d r \<Longrightarrow> ch_runs (ch_draft r) r' \<Longrightarrow> ch_runs d r'"
  using runs_trans by (auto simp: ch_runs_def)

lemma ch_runs_bind:
  assumes "goes m (ch_runs d)" "\<And>r. ch_inv r \<Longrightarrow> \<not> dd_done (ch_draft r) \<Longrightarrow> goes (f r) (ch_runs (ch_draft r))"
  shows "goes (bind_ok m f) (ch_runs d)"
proof (rule goes_bind [OF assms(1)])
  fix r assume r: "ch_runs d r"
  then have "goes (f r) (ch_runs (ch_draft r))" using assms(2) by (auto simp: ch_runs_def)
  then show "goes (f r) (ch_runs d)" by (rule goes_mono) (rule ch_runs_trans [OF r])
qed

lemma ch_runs_same [simp]: "ch_runs (ch_draft r) r \<longleftrightarrow> ch_inv r \<and> \<not> dd_done (ch_draft r)"
  by (simp add: ch_runs_def)

lemma ch_inv_draft: "ch_inv r \<Longrightarrow> grows (ch_draft r) d \<Longrightarrow> ch_inv (r\<lparr>ch_draft := d\<rparr>)"
  by (auto simp: ch_inv_def intro: has_grows)

lemma ch_lift_goes:
  "ch_inv r \<Longrightarrow> goes (f (ch_draft r)) (runs (ch_draft r)) \<Longrightarrow> goes (ch_lift f r) (ch_runs (ch_draft r))"
  by (cases "f (ch_draft r)") (auto simp: ch_lift_def ch_runs_def runs_def intro: ch_inv_draft)

lemma channel_index_less: "channel_index k = Some n \<Longrightarrow> n < 3"
  and channel_index_inject: "channel_index k = Some n \<Longrightarrow> channel_index l = Some n \<Longrightarrow> k = l"
  by (cases k; cases l; simp)+

lemma ch_channel_goes:
  assumes "ch_inv r" "\<not> dd_done (ch_draft r)" "k \<noteq> KToolCall"
  shows "goes (ch_channel k r) (\<lambda>(i, r'). ch_runs (ch_draft r) r' \<and> has (ch_draft r') i k)"
proof -
  obtain n where n: "channel_index k = Some n" using assms(3) by (cases k) auto
  show ?thesis
  proof (cases "ch_channels r ! n")
    case None
    have "goes (bind_ok (start_block k (ch_draft r)) (\<lambda>(i, d).
        Inr (i, r\<lparr>ch_draft := d, ch_channels := (ch_channels r)[n := Some i]\<rparr>)))
        (\<lambda>(i, r'). ch_runs (ch_draft r) r' \<and> has (ch_draft r') i k)"
    proof (rule goes_bind [OF start_block_goes [OF assms(2)]], clarify)
      fix i d assume d: "runs (ch_draft r) d" "has d i k"
      have "ch_inv (r\<lparr>ch_draft := d, ch_channels := (ch_channels r)[n := Some i]\<rparr>)"
        using ch_inv_draft [OF assms(1), of d] d channel_index_less [OF n] channel_index_inject [OF n]
        by (auto simp: ch_inv_def runs_def nth_list_update split: if_splits)
      then show "goes (Inr (i, r\<lparr>ch_draft := d, ch_channels := (ch_channels r)[n := Some i]\<rparr>))
          (\<lambda>(i, r'). ch_runs (ch_draft r) r' \<and> has (ch_draft r') i k)"
        using d by (simp add: ch_runs_def)
    qed
    then show ?thesis by (simp add: ch_channel_def n None)
  next
    case (Some i)
    then show ?thesis using assms n by (auto simp: ch_channel_def ch_inv_def)
  qed
qed

lemma append_optional_goes:
  assumes "ch_inv r" "\<not> dd_done (ch_draft r)" "k \<noteq> KToolCall"
  shows "goes (append_optional k t r) (ch_runs (ch_draft r))"
proof -
  have "goes (bind_ok (ch_channel k r) (\<lambda>(i, r1). ch_lift (draft_delta i s) r1)) (ch_runs (ch_draft r))" for s
  proof (rule goes_bind [OF ch_channel_goes [OF assms]], clarify)
    fix i r1 assume r1: "ch_runs (ch_draft r) r1" "has (ch_draft r1) i k"
    have "goes (draft_delta i s (ch_draft r1)) (runs (ch_draft r1))"
      using r1 by (intro draft_delta_goes) (auto simp: ch_runs_def)
    then have "goes (ch_lift (draft_delta i s) r1) (ch_runs (ch_draft r1))"
      using r1(1) by (intro ch_lift_goes) (simp_all add: ch_runs_def)
    then show "goes (ch_lift (draft_delta i s) r1) (ch_runs (ch_draft r))"
      by (rule goes_mono) (rule ch_runs_trans [OF r1(1)])
  qed
  then show ?thesis using assms by (simp add: append_optional_def append_delta_def split: option.split)
qed

lemma tool_block_goes:
  assumes "ch_inv r" "\<not> dd_done (ch_draft r)"
  shows "goes (tool_block index r) (\<lambda>(i, r'). ch_runs (ch_draft r) r' \<and> has (ch_draft r') i KToolCall)"
proof (cases "find (\<lambda>t. fst t = index) (ch_tools r)")
  case None
  have "goes (bind_ok (start_block KToolCall (ch_draft r)) (\<lambda>(i, d). Inr (i, r\<lparr>ch_draft := d, ch_tools := ch_tools r @ [(index, i)]\<rparr>)))
      (\<lambda>(i, r'). ch_runs (ch_draft r) r' \<and> has (ch_draft r') i KToolCall)"
  proof (rule goes_bind [OF start_block_goes [OF assms(2)]], clarify)
    fix i d assume d: "runs (ch_draft r) d" "has d i KToolCall"
    then have "ch_inv (r\<lparr>ch_draft := d, ch_tools := ch_tools r @ [(index, i)]\<rparr>)"
      using ch_inv_draft [OF assms(1), of d] by (simp add: ch_inv_def runs_def)
    then show "goes (Inr (i, r\<lparr>ch_draft := d, ch_tools := ch_tools r @ [(index, i)]\<rparr>))
        (\<lambda>(i, r'). ch_runs (ch_draft r) r' \<and> has (ch_draft r') i KToolCall)"
      using d by (simp add: ch_runs_def)
  qed
  then show ?thesis by (simp add: tool_block_def None)
next
  case (Some t)
  then have "t \<in> set (ch_tools r)" by (auto simp: find_Some_iff)
  then show ?thesis using assms Some by (simp add: tool_block_def ch_inv_def)
qed

lemma on_tool_fragment_goes:
  assumes "ch_inv r" "\<not> dd_done (ch_draft r)"
  shows "goes (on_tool_fragment index cid name args r) (ch_runs (ch_draft r))"
  unfolding on_tool_fragment_def
proof (rule goes_bind [OF tool_block_goes [OF assms]], clarify)
  fix i r1 assume r1: "ch_runs (ch_draft r) r1" "has (ch_draft r1) i KToolCall"
  let ?id = "identify i (case cid of None \<Rightarrow> [] | Some c \<Rightarrow> c) (case name of None \<Rightarrow> [] | Some n \<Rightarrow> n)"
  let ?args = "case args of None \<Rightarrow> Inr | Some t \<Rightarrow> ch_lift (tool_delta i t)"
  have "goes (?id (ch_draft r1)) (runs (ch_draft r1))"
    using r1 by (intro identify_goes) (auto simp: ch_runs_def)
  then have idn: "goes (ch_lift ?id r1) (ch_runs (ch_draft r1))"
    using r1(1) by (intro ch_lift_goes) (simp_all add: ch_runs_def)
  have "goes (bind_ok (ch_lift ?id r1) ?args) (ch_runs (ch_draft r1))"
  proof (rule goes_bind [OF idn])
    fix r2 assume r2: "ch_runs (ch_draft r1) r2"
    have h: "has (ch_draft r2) i KToolCall" using r1(2) r2 has_runs by (auto simp: ch_runs_def)
    have "goes (tool_delta i t (ch_draft r2)) (runs (ch_draft r2))" for t
      using r2 by (intro tool_delta_goes h) (auto simp: ch_runs_def)
    then have "goes (ch_lift (tool_delta i t) r2) (ch_runs (ch_draft r2))" for t
      using r2 by (intro ch_lift_goes) (simp_all add: ch_runs_def)
    then have "goes (ch_lift (tool_delta i t) r2) (ch_runs (ch_draft r1))" for t
      by (rule goes_mono) (rule ch_runs_trans [OF r2])
    then show "goes (?args r2) (ch_runs (ch_draft r1))" using r2 by (simp split: option.split)
  qed
  then show "goes (bind_ok (ch_lift ?id r1) ?args) (ch_runs (ch_draft r))"
    by (rule goes_mono) (rule ch_runs_trans [OF r1(1)])
qed

lemma ch_frame_goes: "goes (from_frame f) (\<lambda>_. True)"
  by (rule goes_mono [OF unwrap_goes(1)]) simp

lemma on_tool_call_goes:
  assumes "ch_inv r" "\<not> dd_done (ch_draft r)"
  shows "goes (on_tool_call call r) (ch_runs (ch_draft r))"
proof -
  have args: "goes (case v of None \<Rightarrow> Inr None | Some JNull \<Rightarrow> Inr None | Some (JString t) \<Rightarrow> Inr (Some t) | Some _ \<Rightarrow> Inl DecodeProtocol)
      (\<lambda>_. True)" for v :: "json option"
    by (simp split: option.split json.split)
  have body: "goes (bind_ok (case json_get fn ''arguments'' of None \<Rightarrow> Inr None | Some JNull \<Rightarrow> Inr None
        | Some (JString t) \<Rightarrow> Inr (Some t) | Some _ \<Rightarrow> Inl DecodeProtocol) (\<lambda>args.
      bind_ok (from_frame (optional_str call ''id'')) (\<lambda>cid.
      bind_ok (from_frame (optional_str fn ''name'')) (\<lambda>name. on_tool_fragment index cid name args r))))
      (ch_runs (ch_draft r))" for fn index
    by (intro goes_bind [OF args] goes_bind [OF ch_frame_goes] on_tool_fragment_goes assms)
  show ?thesis unfolding on_tool_call_def
  proof (rule goes_bind [OF ch_frame_goes], cases "json_get call ''function''")
    case (Some fn)
    fix index
    show "goes (case json_get call ''function'' of None \<Rightarrow> Inr r | Some function \<Rightarrow> (case function of JObject _ \<Rightarrow>
        bind_ok (case json_get function ''arguments'' of None \<Rightarrow> Inr None | Some JNull \<Rightarrow> Inr None
          | Some (JString t) \<Rightarrow> Inr (Some t) | Some _ \<Rightarrow> Inl DecodeProtocol) (\<lambda>args.
        bind_ok (from_frame (optional_str call ''id'')) (\<lambda>cid.
        bind_ok (from_frame (optional_str function ''name'')) (\<lambda>name. on_tool_fragment index cid name args r)))
        | _ \<Rightarrow> Inl DecodeProtocol)) (ch_runs (ch_draft r))"
      unfolding Some option.case by (cases fn) (simp_all only: json.case body, simp_all)
  qed (use assms in simp)
qed

lemma on_tool_calls_goes:
  "ch_inv r \<Longrightarrow> \<not> dd_done (ch_draft r) \<Longrightarrow> goes (on_tool_calls calls r) (ch_runs (ch_draft r))"
proof (induction calls arbitrary: r)
  case (Cons c cs)
  show ?case unfolding on_tool_calls.simps
    by (rule ch_runs_bind [OF on_tool_call_goes [OF Cons.prems]]) (rule Cons.IH)
qed simp

lemma on_details_goes:
  "ch_inv r \<Longrightarrow> \<not> dd_done (ch_draft r) \<Longrightarrow> goes (on_details entries r) (ch_runs (ch_draft r))"
proof (induction entries arbitrary: r)
  case (Cons e es)
  have keep: "ch_runs (ch_draft r) (r\<lparr>ch_details := ds\<rparr>)" for ds using Cons.prems by (simp add: ch_runs_def ch_inv_def)
  then have "goes (on_detail e r) (ch_runs (ch_draft r))"
    using Cons.prems by (simp add: on_detail_def Let_def split: option.split)
  then show ?case unfolding on_details.simps by (rule ch_runs_bind) (rule Cons.IH)
qed simp

lemma on_delta_goes:
  assumes "ch_inv r" "\<not> dd_done (ch_draft r)"
  shows "goes (on_delta delta r) (ch_runs (ch_draft r))"
proof -
  have details: "goes (bind_ok (ch_channel KReasoning r1) (\<lambda>(i, r2). on_details entries (r2\<lparr>ch_details_seen := True\<rparr>))) (ch_runs (ch_draft r1))"
    if "ch_inv r1" "\<not> dd_done (ch_draft r1)" for r1 entries
  proof (rule goes_bind [OF ch_channel_goes [OF that]], simp, clarify)
    fix i r2 assume r2: "ch_runs (ch_draft r1) r2"
    let ?r = "r2\<lparr>ch_details_seen := True\<rparr>"
    have "goes (on_details entries ?r) (ch_runs (ch_draft ?r))"
      using r2 by (intro on_details_goes) (auto simp: ch_runs_def ch_inv_def)
    then show "goes (on_details entries ?r) (ch_runs (ch_draft r1))"
      by (rule goes_mono) (use r2 runs_trans in \<open>auto simp: ch_runs_def\<close>)
  qed
  have details': "goes (case v of Some (JArray entries) \<Rightarrow>
      bind_ok (ch_channel KReasoning r1) (\<lambda>(i, r2). on_details entries (r2\<lparr>ch_details_seen := True\<rparr>)) | _ \<Rightarrow> Inr r1) (ch_runs (ch_draft r1))"
    if "ch_inv r1" "\<not> dd_done (ch_draft r1)" for r1 and v :: "json option"
    using details [OF that] that by (simp split: option.split json.split)
  have calls: "goes (case v of Some (JArray calls) \<Rightarrow> on_tool_calls calls r1 | _ \<Rightarrow> Inr r1) (ch_runs (ch_draft r1))"
    if "ch_inv r1" "\<not> dd_done (ch_draft r1)" for r1 and v :: "json option"
    using on_tool_calls_goes [OF that] that by (simp split: option.split json.split)
  show ?thesis unfolding on_delta_def
    by (intro ch_runs_bind append_optional_goes assms details' calls) simp_all
qed

lemma on_finish_opt_runs:
  "ch_inv r \<Longrightarrow> \<not> dd_done (ch_draft r) \<Longrightarrow> ch_runs (ch_draft r) (snd (on_finish_opt raw r))"
  using runs_fields(2) [of "ch_draft r"]
  by (auto simp: on_finish_opt_def on_finish_def ch_runs_def runs_def intro: ch_inv_draft split: option.split)

lemma goes_finish:
  assumes "goes m (ch_runs d)"
  shows "goes (bind_ok m (\<lambda>r1. Inr (on_finish_opt raw r1))) (\<lambda>(k, r'). ch_runs d r')"
proof (rule goes_bind [OF assms])
  fix r1 assume r1: "ch_runs d r1"
  have "ch_runs (ch_draft r1) (snd (on_finish_opt raw r1))" using r1 by (intro on_finish_opt_runs) (auto simp: ch_runs_def)
  then show "goes (Inr (on_finish_opt raw r1)) (\<lambda>(k, r'). ch_runs d r')"
    using ch_runs_trans [OF r1] by (simp add: case_prod_unfold)
qed

lemma on_choice_goes:
  assumes "ch_inv r" "\<not> dd_done (ch_draft r)"
  shows "goes (on_choice choice r) (\<lambda>(k, r'). ch_runs (ch_draft r) r')"
  unfolding on_choice_def
  by (rule goes_finish) (use assms on_delta_goes [OF assms] in \<open>simp split: option.split json.split\<close>)

lemma on_chunk_goes:
  assumes "ch_inv r" "\<not> dd_done (ch_draft r)"
  shows "goes (on_chunk chunk r) (\<lambda>(k, r'). ch_runs (ch_draft r) r')"
proof -
  have call: "goes (case calls of Some (Some call) \<Rightarrow> (case tc_function call of None \<Rightarrow> Inr r3
      | Some function \<Rightarrow> bind_ok (typed_index (tc_index call)) (\<lambda>index.
          on_tool_fragment index (tc_id call) (fn_name function) (fn_arguments function) r3)) | _ \<Rightarrow> Inr r3) (ch_runs (ch_draft r3))"
    if "ch_inv r3" "\<not> dd_done (ch_draft r3)" for r3 and calls :: "chat_call option option"
    using that by (auto intro!: goes_bind [OF unwrap_goes(3)] on_tool_fragment_goes split: option.split)
  have delta: "goes (bind_ok (append_optional KReasoning (cd_reasoning delta) r) (\<lambda>r1.
      bind_ok (append_optional KText (cd_content delta) r1) (\<lambda>r2.
      bind_ok (append_optional KRefusal (cd_refusal delta) r2) (\<lambda>r3.
        case cd_tool_calls delta of Some (Some call) \<Rightarrow> (case tc_function call of None \<Rightarrow> Inr r3
          | Some function \<Rightarrow> bind_ok (typed_index (tc_index call)) (\<lambda>index.
              on_tool_fragment index (tc_id call) (fn_name function) (fn_arguments function) r3)) | _ \<Rightarrow> Inr r3))))
      (ch_runs (ch_draft r))" for delta
    by (intro ch_runs_bind append_optional_goes assms call) simp_all
  show ?thesis
  proof (cases "ck_choices chunk")
    case (Some choice)
    show ?thesis unfolding on_chunk_def Some option.case
      by (rule goes_finish, cases "cc_delta choice") (simp_all only: option.case delta, simp add: assms)
  qed (use assms in \<open>simp add: on_chunk_def\<close>)
qed

lemma ch_usage_runs: "\<not> dd_done d \<Longrightarrow> runs d (ch_usage root d)"
  by (auto simp: ch_usage_def Let_def intro: runs_fields split: option.split)

lemma ch_decode_tree_goes:
  assumes "ch_inv r" "\<not> dd_done (ch_draft r)"
  shows "goes (ch_decode_tree root r) (\<lambda>(k, r'). ch_runs (ch_draft r) r')"
proof -
  have usage: "ch_runs d (r1\<lparr>ch_draft := ch_usage root (ch_draft r1)\<rparr>)" if "ch_runs d r1" for d r1
  proof -
    have "runs (ch_draft r1) (ch_usage root (ch_draft r1))" using that by (intro ch_usage_runs) (auto simp: ch_runs_def)
    then show ?thesis using that ch_inv_draft runs_trans by (auto simp: ch_runs_def runs_def dest: grows_trans)
  qed
  have "goes (case json_get root ''choices'' of Some (JArray (choice # _)) \<Rightarrow> on_choice choice r | _ \<Rightarrow> Inr (None, r))
      (\<lambda>(k, r'). ch_runs (ch_draft r) r')"
    using on_choice_goes [OF assms] assms by (simp split: option.split json.split list.split)
  then have "goes (bind_ok (case json_get root ''choices'' of Some (JArray (choice # _)) \<Rightarrow> on_choice choice r | _ \<Rightarrow> Inr (None, r))
      (\<lambda>(kind, r1). if kind \<noteq> None then Inr (kind, r1) else Inr (None, r1\<lparr>ch_draft := ch_usage root (ch_draft r1)\<rparr>)))
      (\<lambda>(k, r'). ch_runs (ch_draft r) r')"
    by (rule goes_bind) (use usage in auto)
  then show ?thesis unfolding ch_decode_tree_def using assms by (intro goes_if) simp_all
qed

lemma on_done_goes:
  assumes "ch_inv r" "\<not> dd_done (ch_draft r)"
  shows "goes (on_done r) (\<lambda>r'. ch_inv r' \<and> grows (ch_draft r) (ch_draft r'))"
proof -
  have store: "goes (store_details r) (ch_runs (ch_draft r))"
    unfolding store_details_def
  proof (rule goes_if)
    show "goes (bind_ok (or_protocol (ch_channels r ! 2)) (\<lambda>i. bind_ok (open_block i (ch_draft r)) (\<lambda>b.
        let bytes = jw_out (write_details (ch_details r) (new_writer (db_bytes b))) in
        if chars_of bytes = None then Inl DecodeProtocol
        else if length bytes > max_event_bytes (dd_limits (ch_draft r)) then Inl DecodeTooLarge
        else Inr (r\<lparr>ch_draft := put_block i (b\<lparr>db_replay := Some OpenrouterDetails, db_bytes := bytes\<rparr>) (ch_draft r)\<rparr>))))
        (ch_runs (ch_draft r))"
    proof (rule goes_bind [OF unwrap_goes(2)])
      fix i assume "ch_channels r ! 2 = Some i"
      then have h: "has (ch_draft r) i KReasoning"
        using assms(1) unfolding ch_inv_def by (metis channel_index.simps(3))
      show "goes (bind_ok (open_block i (ch_draft r)) (\<lambda>b.
          let bytes = jw_out (write_details (ch_details r) (new_writer (db_bytes b))) in
          if chars_of bytes = None then Inl DecodeProtocol
          else if length bytes > max_event_bytes (dd_limits (ch_draft r)) then Inl DecodeTooLarge
          else Inr (r\<lparr>ch_draft := put_block i (b\<lparr>db_replay := Some OpenrouterDetails, db_bytes := bytes\<rparr>) (ch_draft r)\<rparr>)))
          (ch_runs (ch_draft r))"
      proof (rule goes_bind [OF open_block_goes [OF h]])
        fix b assume b: "b = dd_blocks (ch_draft r) ! i \<and> i < length (dd_blocks (ch_draft r)) \<and> db_kind b = KReasoning \<and> db_state b = BlockOpen"
        have "runs (ch_draft r) (put_block i (b\<lparr>db_replay := Some OpenrouterDetails, db_bytes := t\<rparr>) (ch_draft r))" for t
          by (rule runs_put) (use b assms(2) in auto)
        then show "goes (let bytes = jw_out (write_details (ch_details r) (new_writer (db_bytes b))) in
            if chars_of bytes = None then Inl DecodeProtocol
            else if length bytes > max_event_bytes (dd_limits (ch_draft r)) then Inl DecodeTooLarge
            else Inr (r\<lparr>ch_draft := put_block i (b\<lparr>db_replay := Some OpenrouterDetails, db_bytes := bytes\<rparr>) (ch_draft r)\<rparr>))
            (ch_runs (ch_draft r))"
          using ch_inv_draft [OF assms(1)] by (simp add: Let_def ch_runs_def runs_def)
      qed
    qed
  qed (use assms in simp)
  show ?thesis unfolding on_done_def
  proof (rule goes_bind [OF store])
    fix r1 assume r1: "ch_runs (ch_draft r) r1"
    then have "goes (close_and_finish KeepTools (ch_draft r1)) (\<lambda>d'. grows (ch_draft r1) d' \<and> dd_done d')"
      by (intro close_and_finish_goes) (auto simp: ch_runs_def)
    then show "goes (ch_lift (close_and_finish KeepTools) r1) (\<lambda>r'. ch_inv r' \<and> grows (ch_draft r) (ch_draft r'))"
      unfolding ch_lift_def
      by (rule goes_bind) (use r1 ch_inv_draft runs_grows in \<open>auto simp: ch_runs_def\<close>)
  qed
qed

lemma ch_decode_goes:
  assumes "ch_inv r" "\<not> dd_done (ch_draft r)"
  shows "goes (ch_decode parse typed data r) (\<lambda>(k, r'). ch_inv r' \<and> grows (ch_draft r) (ch_draft r'))"
proof -
  have weak: "goes m (\<lambda>(k, r'). ch_runs (ch_draft r) r') \<Longrightarrow> goes m (\<lambda>(k, r'). ch_inv r' \<and> grows (ch_draft r) (ch_draft r'))" for m
    by (erule goes_mono) (auto simp: ch_runs_def runs_def)
  have tree: "goes (bind_ok (or_protocol (parse data)) (\<lambda>root. ch_decode_tree root r))
      (\<lambda>(k, r'). ch_inv r' \<and> grows (ch_draft r) (ch_draft r'))"
    by (intro goes_bind [OF unwrap_goes(2)] weak ch_decode_tree_goes assms)
  have "goes (case (if starts_object data then typed data else None) of
      None \<Rightarrow> bind_ok (or_protocol (parse data)) (\<lambda>root. ch_decode_tree root r)
    | Some chunk \<Rightarrow> if chunk_typed chunk then on_chunk chunk r
        else bind_ok (or_protocol (parse data)) (\<lambda>root. ch_decode_tree root r))
      (\<lambda>(k, r'). ch_inv r' \<and> grows (ch_draft r) (ch_draft r'))"
    using tree weak [OF on_chunk_goes [OF assms]] by (simp split: option.split)
  then show ?thesis unfolding ch_decode_def Let_def by (intro goes_if goes_no_kind on_done_goes assms)
qed

definition ch_clear :: "chat \<Rightarrow> chat" where
  "ch_clear r = r\<lparr>ch_draft := clear_events (ch_draft r)\<rparr>"

lemma ch_clear_same: "ch_draft (ch_clear r) = clear_events (ch_draft r)" "ch_inv r \<Longrightarrow> ch_inv (ch_clear r)"
  by (simp_all add: ch_clear_def ch_inv_def has_def clear_events_def)

interpretation chunks: reducer "ch_decode parse typed" ch_draft ch_clear ch_inv for parse typed
  by unfold_locales (rule ch_decode_goes ch_clear_same; assumption?)+

section \<open>What the derived read makes of a chunk\<close>

text \<open>\<open>IgnoredAny\<close> reads any value; \<open>One\<close> reads an array of at most one element, and has a default.\<close>

definition typed_any :: "json option \<Rightarrow> unit option" where
  "typed_any v = map_option (\<lambda>_. ()) v"

definition typed_one :: "(json option \<Rightarrow> 'a option) \<Rightarrow> json option \<Rightarrow> 'a option option" where
  "typed_one rd v =
     (case v of
        Some (JArray []) \<Rightarrow> Some None
      | Some (JArray [x]) \<Rightarrow> map_option Some (rd (Some x))
      | _ \<Rightarrow> None)"

definition read_function :: "json option \<Rightarrow> chat_function option" where
  "read_function v =
     (let opt = typed_option typed_text;
          make = (\<lambda>n a. case (n, a) of (Some n', Some a') \<Rightarrow> Some \<lparr>fn_name = n', fn_arguments = a'\<rparr> | _ \<Rightarrow> None)
      in case v of
           Some (JObject ms) \<Rightarrow> make (typed_field opt ms ''name'') (typed_field opt ms ''arguments'')
         | Some (JArray [n, a]) \<Rightarrow> make (opt (Some n)) (opt (Some a))
         | _ \<Rightarrow> None)"

definition read_call :: "json option \<Rightarrow> chat_call option" where
  "read_call v =
     (let opt = typed_option typed_text;
          make = (\<lambda>n i f. case (n, i, f) of
            (Some n', Some i', Some f') \<Rightarrow> Some \<lparr>tc_index = n', tc_id = i', tc_function = f'\<rparr> | _ \<Rightarrow> None)
      in case v of
           Some (JObject ms) \<Rightarrow>
             make (typed_field typed_i64 ms ''index'') (typed_field opt ms ''id'')
               (typed_field (typed_option read_function) ms ''function'')
         | Some (JArray [n, i, f]) \<Rightarrow> make (typed_i64 (Some n)) (opt (Some i)) (typed_option read_function (Some f))
         | _ \<Rightarrow> None)"

text \<open>\<open>reasoning\<close> is an alias: the two names are one field, so both at once fail the read.\<close>

definition alias_reasoning :: "(string \<times> json) list \<Rightarrow> (string \<times> json) list" where
  "alias_reasoning ms = map (\<lambda>m. if fst m = ''reasoning'' then (''reasoning_content'', snd m) else m) ms"

definition read_delta :: "json option \<Rightarrow> chat_delta option" where
  "read_delta v =
     (let opt = typed_option typed_text; calls = typed_option (typed_one read_call);
          make = (\<lambda>a b c d e. case (a, b, c, d, e) of
            (Some a', Some b', Some c', Some d', Some e') \<Rightarrow>
              Some \<lparr>cd_reasoning = a', cd_details = b', cd_content = c', cd_refusal = d', cd_tool_calls = e'\<rparr>
          | _ \<Rightarrow> None)
      in case v of
           Some (JObject ms) \<Rightarrow>
             make (typed_field opt (alias_reasoning ms) ''reasoning_content'')
               (typed_field (typed_option typed_any) ms ''reasoning_details'')
               (typed_field opt ms ''content'') (typed_field opt ms ''refusal'') (typed_field calls ms ''tool_calls'')
         | Some (JArray [a, b, c, d, e]) \<Rightarrow>
             make (opt (Some a)) (typed_option typed_any (Some b)) (opt (Some c)) (opt (Some d)) (calls (Some e))
         | _ \<Rightarrow> None)"

definition read_choice :: "json option \<Rightarrow> chat_choice option" where
  "read_choice v =
     (let opt = typed_option typed_text;
          make = (\<lambda>d f. case (d, f) of (Some d', Some f') \<Rightarrow> Some \<lparr>cc_delta = d', cc_finish_reason = f'\<rparr> | _ \<Rightarrow> None)
      in case v of
           Some (JObject ms) \<Rightarrow> make (typed_field (typed_option read_delta) ms ''delta'') (typed_field opt ms ''finish_reason'')
         | Some (JArray [d, f]) \<Rightarrow> make (typed_option read_delta (Some d)) (opt (Some f))
         | _ \<Rightarrow> None)"

definition read_chunk :: "(string \<times> json) list \<Rightarrow> chat_chunk option" where
  "read_chunk ms =
     (case (typed_field (typed_option typed_any) ms ''error'', typed_field (typed_option typed_any) ms ''usage'',
            typed_field (\<lambda>v. if v = None then Some None else typed_one read_choice v) ms ''choices'') of
        (Some er, Some us, Some ch) \<Rightarrow> Some \<lparr>ck_error = er, ck_usage = us, ck_choices = ch\<rparr>
      | _ \<Rightarrow> None)"

section \<open>The typed path is the tree path\<close>

text \<open>A chunk that gives a struct by position somewhere inside.\<close>

definition is_array :: "json option \<Rightarrow> bool" where
  "is_array v = (case v of Some (JArray _) \<Rightarrow> True | _ \<Rightarrow> False)"

definition first_of :: "json option \<Rightarrow> json option" where
  "first_of v = (case v of Some (JArray (x # _)) \<Rightarrow> Some x | _ \<Rightarrow> None)"

definition get_in :: "json option \<Rightarrow> string \<Rightarrow> json option" where
  "get_in v key = (case v of None \<Rightarrow> None | Some w \<Rightarrow> json_get w key)"

definition positional :: "json \<Rightarrow> bool" where
  "positional root =
     (let choice = first_of (json_get root ''choices''); delta = get_in choice ''delta'';
          call = first_of (get_in delta ''tool_calls'')
      in is_array choice \<or> is_array delta \<or> is_array call \<or> is_array (get_in call ''function''))"

lemma typed_any_get:
  "typed_field (typed_option typed_any) ms key = Some None \<Longrightarrow>
     json_get (JObject ms) key = None \<or> json_get (JObject ms) key = Some JNull"
  by (auto simp: typed_option_def typed_any_def simp del: json_get.simps dest!: typed_field_get
      split: option.splits json.splits)

lemma alias_members:
  "members_of (alias_reasoning ms) ''reasoning_content'' = [] \<longleftrightarrow>
     members_of ms ''reasoning_content'' = [] \<and> members_of ms ''reasoning'' = []"
  "members_of (alias_reasoning ms) ''reasoning_content'' = [v] \<Longrightarrow>
     (members_of ms ''reasoning_content'' = [v] \<and> members_of ms ''reasoning'' = []) \<or>
     (members_of ms ''reasoning_content'' = [] \<and> members_of ms ''reasoning'' = [v])"
proof (induction ms)
  case (Cons m ms)
  case 1
  show ?case using Cons.IH(1) by (auto simp: members_of_def alias_reasoning_def)
next
  case (Cons m ms)
  case 2
  then show ?case using Cons.IH by (auto simp: members_of_def alias_reasoning_def split: if_splits)
qed (simp_all add: members_of_def alias_reasoning_def)

lemma get_str_members:
  "get_str (JObject ms) key = (case members_of ms key of JString t # _ \<Rightarrow> Some t | _ \<Rightarrow> None)"
  by (simp add: get_str_def json_get_members del: json_get.simps split: list.split json.split)

lemma alias_get:
  "typed_field (typed_option typed_text) (alias_reasoning ms) ''reasoning_content'' = Some t \<Longrightarrow>
     (case get_str (JObject ms) ''reasoning_content'' of None \<Rightarrow> get_str (JObject ms) ''reasoning'' | Some s \<Rightarrow> Some s) = t"
proof -
  assume f: "typed_field (typed_option typed_text) (alias_reasoning ms) ''reasoning_content'' = Some t"
  then consider "members_of (alias_reasoning ms) ''reasoning_content'' = []" "t = None"
    | v where "members_of (alias_reasoning ms) ''reasoning_content'' = [v]" "typed_option typed_text (Some v) = Some t"
    by (auto simp: typed_field_def typed_option_def split: list.splits)
  then show ?thesis
  proof cases
    case 1
    then show ?thesis using alias_members(1) [of ms] by (simp add: get_str_members)
  next
    case 2
    then show ?thesis using alias_members(2) [OF 2(1)]
      by (auto simp: get_str_members typed_option_def typed_text_def split: json.splits)
  qed
qed

lemma optional_typed:
  "typed_field (typed_option typed_text) ms key = Some t \<Longrightarrow> optional_str (JObject ms) key = Inr t"
  by (auto simp: optional_str_def typed_option_def typed_text_def simp del: json_get.simps dest!: typed_field_get
      split: option.splits json.splits)

lemma read_call_tree:
  assumes "read_call (Some v) = Some call" "tc_function call = Some fn" "\<not> is_array (Some v)" "\<not> is_array (json_get v ''function'')"
  shows "on_tool_call v r = bind_ok (typed_index (tc_index call)) (\<lambda>index.
      on_tool_fragment index (tc_id call) (fn_name fn) (fn_arguments fn) r)"
proof -
  obtain ms where v: "v = JObject ms"
    using assms(1,3) by (auto simp: read_call_def Let_def is_array_def split: json.splits)
  have f: "typed_field typed_i64 ms ''index'' = Some (tc_index call)" "typed_field (typed_option typed_text) ms ''id'' = Some (tc_id call)"
    "typed_field (typed_option read_function) ms ''function'' = Some (Some fn)"
    using assms(1,2) by (auto simp: v read_call_def Let_def split: option.splits)
  obtain w where w: "json_get v ''function'' = Some w" "read_function (Some w) = Some fn"
    using typed_field_get [OF f(3)] by (auto simp: v typed_option_def simp del: json_get.simps split: option.splits json.splits)
  then obtain fs where fs: "w = JObject fs"
    using assms(4) by (auto simp: read_function_def Let_def is_array_def split: json.splits)
  have g: "typed_field (typed_option typed_text) fs ''name'' = Some (fn_name fn)"
    "typed_field (typed_option typed_text) fs ''arguments'' = Some (fn_arguments fn)"
    using w(2) by (auto simp: fs read_function_def Let_def split: option.splits)
  have args: "(case json_get w ''arguments'' of None \<Rightarrow> Inr None | Some JNull \<Rightarrow> Inr None
      | Some (JString t) \<Rightarrow> Inr (Some t) | Some _ \<Rightarrow> Inl DecodeProtocol) = Inr (fn_arguments fn)"
    using typed_field_get [OF g(2)]
    by (auto simp: fs typed_option_def typed_text_def simp del: json_get.simps split: option.splits json.splits)
  have "from_frame (get_index v ''index'') = typed_index (tc_index call)"
    using typed_index_get [OF typed_i64_get [OF f(1)]] by (simp add: v)
  then show ?thesis
    using args optional_typed [OF f(2)] optional_typed [OF g(1)] w(1)
    by (simp add: on_tool_call_def fs v del: json_get.simps)
qed

lemma read_delta_tree:
  assumes "read_delta (Some v) = Some delta" "\<not> is_array (Some v)" "cd_details delta = None"
    and "case cd_tool_calls delta of Some (Some call) \<Rightarrow> tc_function call \<noteq> None | _ \<Rightarrow> True"
    and "\<not> is_array (first_of (json_get v ''tool_calls''))" "\<not> is_array (get_in (first_of (json_get v ''tool_calls'')) ''function'')"
  shows "\<exists>ms. v = JObject ms" and "on_delta v r =
      bind_ok (append_optional KReasoning (cd_reasoning delta) r) (\<lambda>r1.
      bind_ok (append_optional KText (cd_content delta) r1) (\<lambda>r2.
      bind_ok (append_optional KRefusal (cd_refusal delta) r2) (\<lambda>r3.
        case cd_tool_calls delta of
          Some (Some call) \<Rightarrow>
            (case tc_function call of
               None \<Rightarrow> Inr r3
             | Some function \<Rightarrow>
                 bind_ok (typed_index (tc_index call)) (\<lambda>index.
                   on_tool_fragment index (tc_id call) (fn_name function) (fn_arguments function) r3))
        | _ \<Rightarrow> Inr r3)))"
proof -
  obtain ms where v: "v = JObject ms"
    using assms(1,2) by (auto simp: read_delta_def Let_def is_array_def split: json.splits)
  then show "\<exists>ms. v = JObject ms" by blast
  have f: "typed_field (typed_option typed_text) (alias_reasoning ms) ''reasoning_content'' = Some (cd_reasoning delta)"
    "typed_field (typed_option typed_any) ms ''reasoning_details'' = Some None"
    "typed_field (typed_option typed_text) ms ''content'' = Some (cd_content delta)"
    "typed_field (typed_option typed_text) ms ''refusal'' = Some (cd_refusal delta)"
    "typed_field (typed_option (typed_one read_call)) ms ''tool_calls'' = Some (cd_tool_calls delta)"
    using assms(1,3) by (auto simp: v read_delta_def Let_def split: option.splits)
  have calls: "(case json_get v ''tool_calls'' of Some (JArray calls) \<Rightarrow> on_tool_calls calls r4 | _ \<Rightarrow> Inr r4) =
      (case cd_tool_calls delta of Some (Some call) \<Rightarrow> (case tc_function call of None \<Rightarrow> Inr r4
        | Some function \<Rightarrow> bind_ok (typed_index (tc_index call)) (\<lambda>index.
            on_tool_fragment index (tc_id call) (fn_name function) (fn_arguments function) r4)) | _ \<Rightarrow> Inr r4)" for r4
  proof -
    have t: "typed_option (typed_one read_call) (json_get v ''tool_calls'') = Some (cd_tool_calls delta)"
      using typed_field_get [OF f(5)] by (simp add: v)
    consider "json_get v ''tool_calls'' \<in> {None, Some JNull}" "cd_tool_calls delta = None"
      | "json_get v ''tool_calls'' = Some (JArray [])" "cd_tool_calls delta = Some None"
      | x call where "json_get v ''tool_calls'' = Some (JArray [x])" "read_call (Some x) = Some call" "cd_tool_calls delta = Some (Some call)"
      using t by (auto simp: typed_option_def typed_one_def split: option.splits json.splits list.splits)
    then show ?thesis
    proof cases
      case (3 x call)
      obtain fn where fn: "tc_function call = Some fn" using assms(4) 3 by auto
      have "on_tool_call x r4 = bind_ok (typed_index (tc_index call)) (\<lambda>index.
          on_tool_fragment index (tc_id call) (fn_name fn) (fn_arguments fn) r4)"
        by (rule read_call_tree [OF 3(2) fn]) (use assms(5,6) 3(1) in \<open>simp_all add: first_of_def get_in_def\<close>)
      moreover have "bind_ok m (on_tool_calls []) = m" for m by (cases m) simp_all
      ultimately show ?thesis using 3 fn by simp
    qed auto
  qed
  have details: "(case json_get v ''reasoning_details'' of Some (JArray entries) \<Rightarrow>
      bind_ok (ch_channel KReasoning r1) (\<lambda>(i, r2). on_details entries (r2\<lparr>ch_details_seen := True\<rparr>)) | _ \<Rightarrow> Inr r1) = Inr r1" for r1
    using typed_any_get [OF f(2)] by (auto simp: v)
  have "get_str v ''content'' = cd_content delta" "get_str v ''refusal'' = cd_refusal delta"
    using typed_option_get [OF f(3)] typed_option_get [OF f(4)] by (simp_all add: v)
  then show "on_delta v r = bind_ok (append_optional KReasoning (cd_reasoning delta) r) (\<lambda>r1.
      bind_ok (append_optional KText (cd_content delta) r1) (\<lambda>r2.
      bind_ok (append_optional KRefusal (cd_refusal delta) r2) (\<lambda>r3.
        case cd_tool_calls delta of Some (Some call) \<Rightarrow> (case tc_function call of None \<Rightarrow> Inr r3
          | Some function \<Rightarrow> bind_ok (typed_index (tc_index call)) (\<lambda>index.
              on_tool_fragment index (tc_id call) (fn_name function) (fn_arguments function) r3)) | _ \<Rightarrow> Inr r3)))"
    unfolding on_delta_def details calls bind_ok_simps alias_get [OF f(1), folded v] by simp
qed

lemma read_choice_tree:
  assumes "read_choice (Some v) = Some choice" "\<not> is_array (Some v)" "\<not> is_array (json_get v ''delta'')"
    and "\<And>delta. cc_delta choice = Some delta \<Longrightarrow> cd_details delta = None \<and>
        (case cd_tool_calls delta of Some (Some call) \<Rightarrow> tc_function call \<noteq> None | _ \<Rightarrow> True)"
    and "let call = first_of (get_in (json_get v ''delta'') ''tool_calls'') in \<not> is_array call \<and> \<not> is_array (get_in call ''function'')"
  shows "on_choice v r = on_chunk \<lparr>ck_error = None, ck_usage = None, ck_choices = Some choice\<rparr> r"
proof -
  obtain ms where v: "v = JObject ms"
    using assms(1,2) by (auto simp: read_choice_def Let_def is_array_def split: json.splits)
  have f: "typed_field (typed_option read_delta) ms ''delta'' = Some (cc_delta choice)"
    "typed_field (typed_option typed_text) ms ''finish_reason'' = Some (cc_finish_reason choice)"
    using assms(1) by (auto simp: v read_choice_def Let_def split: option.splits)
  have fin: "get_str v ''finish_reason'' = cc_finish_reason choice" using typed_option_get [OF f(2)] by (simp add: v)
  have t: "typed_option read_delta (json_get v ''delta'') = Some (cc_delta choice)"
    using typed_field_get [OF f(1)] by (simp add: v)
  show ?thesis
  proof (cases "cc_delta choice")
    case None
    then have "json_get v ''delta'' = None \<or> json_get v ''delta'' = Some JNull"
      using t by (auto simp: typed_option_def split: option.splits json.splits)
    then show ?thesis using None fin by (auto simp: on_choice_def on_chunk_def)
  next
    case (Some delta)
    then obtain w where w: "json_get v ''delta'' = Some w" "read_delta (Some w) = Some delta"
      using t by (auto simp: typed_option_def split: option.splits json.splits)
    have tree: "\<exists>ms. w = JObject ms" "on_delta w r = bind_ok (append_optional KReasoning (cd_reasoning delta) r) (\<lambda>r1.
        bind_ok (append_optional KText (cd_content delta) r1) (\<lambda>r2.
        bind_ok (append_optional KRefusal (cd_refusal delta) r2) (\<lambda>r3.
          case cd_tool_calls delta of Some (Some call) \<Rightarrow> (case tc_function call of None \<Rightarrow> Inr r3
            | Some function \<Rightarrow> bind_ok (typed_index (tc_index call)) (\<lambda>index.
                on_tool_fragment index (tc_id call) (fn_name function) (fn_arguments function) r3)) | _ \<Rightarrow> Inr r3)))"
      by (rule read_delta_tree [OF w(2)]; use assms(3,4,5) Some w(1) in \<open>simp add: Let_def get_in_def\<close>)+
    then show ?thesis using Some w(1) fin by (auto simp: on_choice_def on_chunk_def)
  qed
qed

lemma bind_kind: "bind_ok m (\<lambda>(kind, r1). if kind \<noteq> None then Inr (kind, r1) else Inr (None, r1)) = m"
  by (cases m) auto

lemma chunk_tree:
  assumes "read_chunk ms = Some chunk" "chunk_typed chunk" "\<not> positional (JObject ms)"
  shows "ch_decode_tree (JObject ms) r = on_chunk chunk r"
proof -
  let ?v = "JObject ms"
  have f: "typed_field (typed_option typed_any) ms ''error'' = Some None" "typed_field (typed_option typed_any) ms ''usage'' = Some None"
    "typed_field (\<lambda>v. if v = None then Some None else typed_one read_choice v) ms ''choices'' = Some (ck_choices chunk)"
    using assms(1,2) by (auto simp: read_chunk_def chunk_typed_def split: option.splits)
  have er: "\<not> (json_get ?v ''error'' \<noteq> None \<and> json_get ?v ''error'' \<noteq> Some JNull)" using typed_any_get [OF f(1)] by (simp only: de_Morgan_conj not_not)
  have "get_object ?v ''usage'' = None" using typed_any_get [OF f(2)] by (auto simp: get_object_def)
  then have us: "ch_usage ?v d = d" for d by (simp add: ch_usage_def)
  have upd: "r1\<lparr>ch_draft := ch_draft r1\<rparr> = r1" for r1 :: chat by (cases r1) simp
  have tree: "ch_decode_tree ?v r = (case json_get ?v ''choices'' of Some (JArray (choice # _)) \<Rightarrow> on_choice choice r | _ \<Rightarrow> Inr (None, r))"
    unfolding ch_decode_tree_def if_not_P [OF er] us upd by (rule bind_kind)
  have ch: "(if json_get ?v ''choices'' = None then Some None else typed_one read_choice (json_get ?v ''choices'')) = Some (ck_choices chunk)"
    using typed_field_get [OF f(3)] .
  then consider "json_get ?v ''choices'' = None" "ck_choices chunk = None"
    | "json_get ?v ''choices'' = Some (JArray [])" "ck_choices chunk = None"
    | x choice where "json_get ?v ''choices'' = Some (JArray [x])" "read_choice (Some x) = Some choice" "ck_choices chunk = Some choice"
    by (cases "ck_choices chunk")
      (auto simp: typed_one_def simp del: json_get.simps split: option.splits json.splits list.splits if_splits)
  then show ?thesis
  proof cases
    case (3 x choice)
    have "on_choice x r = on_chunk \<lparr>ck_error = None, ck_usage = None, ck_choices = Some choice\<rparr> r"
    proof (rule read_choice_tree [OF 3(2)])
      show "\<not> is_array (Some x)" "\<not> is_array (json_get x ''delta'')"
        "let call = first_of (get_in (json_get x ''delta'') ''tool_calls'') in \<not> is_array call \<and> \<not> is_array (get_in call ''function'')"
        using assms(3) 3(1) by (simp_all add: positional_def Let_def first_of_def get_in_def del: json_get.simps)
      show "cd_details delta = None \<and> (case cd_tool_calls delta of Some (Some call) \<Rightarrow> tc_function call \<noteq> None | _ \<Rightarrow> True)"
        if "cc_delta choice = Some delta" for delta
        using assms(2) that 3(3) by (auto simp: chunk_typed_def split: option.splits)
    qed
    then show ?thesis unfolding tree using 3 by (simp add: on_chunk_def del: json_get.simps)
  qed (simp_all add: tree on_chunk_def del: json_get.simps)
qed

text \<open>
  C40: For every payload that parses and gives no nested struct by position (as an array of its fields), a
  reducer with the typed path of Chat chunks does what one that always takes the tree path does: text, reasoning
  under either name, refusals, one tool call fragment, finish reasons that end the answer or mark it cut
  short, and the same error. What the typed path does not cover (an error, usage, reasoning details, a call
  with no function, several choices or calls) it leaves to the tree path.
\<close>

theorem ch_typed_is_tree:
  assumes "parse data = Some v"
    and "\<And>ms. v = JObject ms \<Longrightarrow> typed data = read_chunk ms"
    and "starts_object data \<Longrightarrow> \<exists>ms. v = JObject ms"
    and "\<not> positional v"
  shows "ch_decode parse typed data r = ch_decode parse (\<lambda>_. None) data r"
proof (cases "starts_object data \<and> (\<exists>c. typed data = Some c \<and> chunk_typed c)")
  case True
  then obtain c ms where c: "typed data = Some c" "chunk_typed c" "v = JObject ms" using assms(3) by auto
  then have "read_chunk ms = Some c" using assms(2) by simp
  then show ?thesis using chunk_tree [of ms c r] True assms(1,4) c by (simp add: ch_decode_def Let_def)
qed (auto simp: ch_decode_def Let_def split: option.split)

definition example_call :: json where
  "example_call = JObject [(''index'', JInteger 0), (''id'', JString ''c''),
     (''function'', JObject [(''name'', JString ''n''), (''arguments'', JString ''{}'')])]"

definition example_members :: "(string \<times> json) list" where
  "example_members =
     [(''choices'', JArray [JObject [(''delta'', JObject [(''reasoning'', JString ''why''), (''content'', JString ''hi''),
        (''tool_calls'', JArray [example_call])]), (''finish_reason'', JString ''stop'')]])]"

definition example_chat :: chat where
  "example_chat = new_chat (new_draft \<lparr>origin_model = ''m'', origin_base_url = ''u''\<rparr> default_limits)"

theorem ch_typed_is_tree_witness:
  "ch_decode (\<lambda>_. Some (JObject example_members)) (\<lambda>_. read_chunk example_members) ''{'' example_chat =
     ch_decode (\<lambda>_. Some (JObject example_members)) (\<lambda>_. None) ''{'' example_chat \<and>
   (case read_chunk example_members of None \<Rightarrow> False | Some c \<Rightarrow> chunk_typed c)"
proof
  show "case read_chunk example_members of None \<Rightarrow> False | Some c \<Rightarrow> chunk_typed c" by code_simp
  have "\<not> positional (JObject example_members)" by code_simp
  then show "ch_decode (\<lambda>_. Some (JObject example_members)) (\<lambda>_. read_chunk example_members) ''{'' example_chat =
     ch_decode (\<lambda>_. Some (JObject example_members)) (\<lambda>_. None) ''{'' example_chat"
    using ch_typed_is_tree [of "\<lambda>_. Some (JObject example_members)" "''{''" "JObject example_members"
        "\<lambda>_. read_chunk example_members" example_chat] by simp
qed

section \<open>The stored details\<close>

definition detail_members :: "detail \<Rightarrow> (string \<times> json) list" where
  "detail_members x =
     [(''type'', JString (detail_name (dt_kind x)))] @
     (if dt_has_body x then [(detail_field (dt_kind x), JString (dt_body x))] else []) @
     (case dt_signature x of None \<Rightarrow> [] | Some t \<Rightarrow> [(''signature'', JString t)]) @
     (case dt_id x of None \<Rightarrow> [] | Some t \<Rightarrow> [(''id'', JString t)]) @
     (case dt_format x of None \<Rightarrow> [] | Some t \<Rightarrow> [(''format'', JString t)]) @
     (case dt_index x of None \<Rightarrow> [] | Some n \<Rightarrow> [(''index'', JInteger n)])"

lemma jw_members_append: "jw_members fl (xs @ ys) w = jw_members fl ys (jw_members fl xs w)"
  by (induction xs arbitrary: w) auto

lemma write_detail_value: "write_detail x w = jw_value fl (JObject (detail_members x)) w"
  by (simp add: write_detail_def detail_members_def jw_members_append field_str_def write_optional_def Let_def
      split: option.split)

lemma write_details_value: "write_details ds w = jw_value fl (JArray (map (\<lambda>x. JObject (detail_members x)) ds)) w"
proof -
  have "fold write_detail ds u = jw_items fl (map (\<lambda>x. JObject (detail_members x)) ds) u" for u
    by (induction ds arbitrary: u) (simp_all add: write_detail_value [where fl = fl])
  then show ?thesis by (simp add: write_details_def)
qed

text \<open>
  The state that goes back to OpenRouter with the next request is JSON text of the merged details, in
  order: it reads back as one object per detail, each with its type, its joined body if any fragment named
  one, and the first signature, id and format, whatever bytes they hold.
\<close>

theorem details_roundtrip:
  assumes "\<forall>x\<in>set ds. \<forall>n. dt_index x = Some n \<longrightarrow> - (2 ^ 63) \<le> n \<and> n < 2 ^ 63"
  shows "read_json (jw_out (write_details ds (new_writer []))) = Some (JArray (map (\<lambda>x. JObject (detail_members x)) ds))"
proof -
  have "json_fits (JArray (map (\<lambda>x. JObject (detail_members x)) ds))"
    using assms by (auto simp: list_all_iff detail_members_def split: option.splits if_splits)
  then show ?thesis unfolding write_details_value [where fl = "\<lambda>_. []"] by (rule json_reads_back)
qed

definition example_detail :: detail where
  "example_detail = \<lparr>dt_kind = DetailText, dt_body = [CHR 0x22], dt_has_body = True, dt_signature = None, dt_id = Some ''r1'',
     dt_format = None, dt_index = Some 0\<rparr>"

theorem details_roundtrip_witness:
  "read_json (jw_out (write_details [example_detail] (new_writer []))) = Some (JArray [JObject (detail_members example_detail)])"
  using details_roundtrip [of "[example_detail]"] by (simp add: example_detail_def)

end
