(* ===== verification/Answer_Stream.thy ===== *)
theory Answer_Stream
  imports Anthropic Responses Chat Sse
begin

text \<open>
  The stream of one attempt, \<open>crates/ai/src/stream.rs\<close>: it opens the attempt, pulls payloads from the body
  through the parser of server-sent events, and hands out the events of the reducer one at a time.

  A body is the list of what its reads give. \<open>BodyWait\<close> is a read that waits while the caller gives up on the
  future of \<open>next\<close> (a race that another branch wins) and calls \<open>next\<close> again later; the list ends where the
  body ends. The result of a step is beside the new state, as in a \<open>&mut self\<close> method: a step that stops
  (\<open>stop\<close>) keeps what it did before. A panic is \<open>StopPanic\<close>.
\<close>

section \<open>The reducer of a protocol\<close>

text \<open>The parsers of the library: the JSON tree, the three derived typed reads, and the print of a float.\<close>

record parsers =
  pa_parse :: json_parser
  pa_anthropic :: "string \<Rightarrow> block_delta option"
  pa_chat :: "string \<Rightarrow> chat_chunk option"
  pa_responses :: "string \<Rightarrow> delta_event option"
  pa_float :: "f64 \<Rightarrow> string"

datatype reducer_state = RedAnthropic anthropic | RedChat chat | RedResponses responses

definition new_reducer :: "protocol \<Rightarrow> response_draft \<Rightarrow> reducer_state" where
  "new_reducer p d =
     (case p of
        AnthropicMessages \<Rightarrow> RedAnthropic (new_anthropic d)
      | OpenaiChat \<Rightarrow> RedChat (new_chat d)
      | OpenaiResponses \<Rightarrow> RedResponses (new_responses d))"

definition with_state :: "('r \<Rightarrow> reducer_state) \<Rightarrow> decode_error + provider_kind option \<times> 'r \<Rightarrow>
    decode_error + provider_kind option \<times> reducer_state" where
  "with_state wrap m = bind_ok m (\<lambda>(k, r). Inr (k, wrap r))"

definition reducer_decode ::
  "parsers \<Rightarrow> string \<Rightarrow> reducer_state \<Rightarrow> decode_error + provider_kind option \<times> reducer_state" where
  "reducer_decode ps data red =
     (case red of
        RedAnthropic r \<Rightarrow> with_state RedAnthropic (an_decode (pa_parse ps) (pa_anthropic ps) data r)
      | RedChat r \<Rightarrow> with_state RedChat (ch_decode (pa_parse ps) (pa_chat ps) data r)
      | RedResponses r \<Rightarrow> with_state RedResponses (re_decode (pa_float ps) (pa_parse ps) (pa_responses ps) data r))"

definition reducer_draft :: "reducer_state \<Rightarrow> response_draft" where
  "reducer_draft red =
     (case red of RedAnthropic r \<Rightarrow> an_draft r | RedChat r \<Rightarrow> ch_draft r | RedResponses r \<Rightarrow> re_draft r)"

text \<open>\<open>draft_mut().clear_events()\<close>.\<close>

definition reducer_clear :: "reducer_state \<Rightarrow> reducer_state" where
  "reducer_clear red =
     (case red of
        RedAnthropic r \<Rightarrow> RedAnthropic (an_clear r)
      | RedChat r \<Rightarrow> RedChat (ch_clear r)
      | RedResponses r \<Rightarrow> RedResponses (re_clear r))"

definition reducer_inv :: "reducer_state \<Rightarrow> bool" where
  "reducer_inv red = (case red of RedAnthropic r \<Rightarrow> an_inv r | RedChat r \<Rightarrow> ch_inv r | RedResponses r \<Rightarrow> re_inv r)"

lemma with_state_goes:
  assumes "goes m (\<lambda>(k, r). keeps r \<and> grows d (f r))"
    and "\<And>r. keeps r \<Longrightarrow> reducer_inv (wrap r)" "\<And>r. reducer_draft (wrap r) = f r"
  shows "goes (with_state wrap m) (\<lambda>(k, red). reducer_inv red \<and> grows d (reducer_draft red))"
  unfolding with_state_def by (rule goes_bind [OF assms(1)]) (use assms(2,3) in auto)

lemma reducer_decode_goes:
  assumes "reducer_inv red" "\<not> dd_done (reducer_draft red)"
  shows "goes (reducer_decode ps data red) (\<lambda>(k, r). reducer_inv r \<and> grows (reducer_draft red) (reducer_draft r))"
proof (cases red)
  case (RedAnthropic r)
  then have "an_inv r" "\<not> dd_done (an_draft r)" using assms by (simp_all add: reducer_inv_def reducer_draft_def)
  then have "goes (an_decode (pa_parse ps) (pa_anthropic ps) data r) (\<lambda>(k, r'). an_inv r' \<and> grows (an_draft r) (an_draft r'))"
    by (rule messages.decode_goes)
  then show ?thesis
    using with_state_goes [where f = an_draft and wrap = RedAnthropic and keeps = an_inv]
    by (simp add: RedAnthropic reducer_decode_def reducer_inv_def reducer_draft_def)
next
  case (RedChat r)
  then have "ch_inv r" "\<not> dd_done (ch_draft r)" using assms by (simp_all add: reducer_inv_def reducer_draft_def)
  then have "goes (ch_decode (pa_parse ps) (pa_chat ps) data r) (\<lambda>(k, r'). ch_inv r' \<and> grows (ch_draft r) (ch_draft r'))"
    by (rule chunks.decode_goes)
  then show ?thesis
    using with_state_goes [where f = ch_draft and wrap = RedChat and keeps = ch_inv]
    by (simp add: RedChat reducer_decode_def reducer_inv_def reducer_draft_def)
next
  case (RedResponses r)
  then have "re_inv r" "\<not> dd_done (re_draft r)" using assms by (simp_all add: reducer_inv_def reducer_draft_def)
  then have "goes (re_decode (pa_float ps) (pa_parse ps) (pa_responses ps) data r) (\<lambda>(k, r'). re_inv r' \<and> grows (re_draft r) (re_draft r'))"
    by (rule items.decode_goes)
  then show ?thesis
    using with_state_goes [where f = re_draft and wrap = RedResponses and keeps = re_inv]
    by (simp add: RedResponses reducer_decode_def reducer_inv_def reducer_draft_def)
qed

lemma reducer_clear_draft: "reducer_draft (reducer_clear red) = clear_events (reducer_draft red)"
  by (cases red) (simp_all add: reducer_draft_def reducer_clear_def an_clear_same ch_clear_same re_clear_same)

lemma reducer_clear_inv: "reducer_inv red \<Longrightarrow> reducer_inv (reducer_clear red)"
  by (cases red) (simp_all add: reducer_inv_def reducer_clear_def an_clear_same ch_clear_same re_clear_same)

interpretation answers: reducer "reducer_decode ps" reducer_draft reducer_clear reducer_inv for ps
  by unfold_locales (rule reducer_decode_goes reducer_clear_draft reducer_clear_inv; assumption?)+

lemma new_reducer_draft [simp]: "reducer_draft (new_reducer p d) = d"
  by (cases p) (simp_all add: new_reducer_def reducer_draft_def new_anthropic_def new_chat_def new_responses_def)

lemma new_chat_inv: "ch_inv (new_chat d)"
proof -
  have "[None, None, None] ! n = (None :: block_id option)" if "channel_index k = Some n" for n k
    using that by (cases k) auto
  then show ?thesis by (fastforce simp: ch_inv_def new_chat_def)
qed

lemma new_reducer_inv [simp]: "reducer_inv (new_reducer p d)"
  using new_chat_inv
  by (cases p) (simp_all add: new_reducer_def reducer_inv_def new_anthropic_def an_inv_def new_responses_def re_inv_def)

section \<open>The stream\<close>

datatype body_read = BodyWait | BodyChunk string | BodyFault fault

record response_head =
  head_status :: nat \<comment> \<open>a \<open>u16\<close>\<close>
  head_request_id :: "string option"
  head_retry_after_ms :: "nat option"
  head_should_retry :: "bool option"

datatype stream_state = Streaming | StreamFailed failure | StreamEnded

record answer_stream =
  st_info :: attempt_info
  st_body :: "body_read list option"
  st_body_ended :: bool
  st_state :: stream_state
  st_reducer :: reducer_state
  st_parser :: sse
  st_payload :: string
  st_payload_lent :: bool
  st_next_event :: nat

definition u8s_of :: "string \<Rightarrow> u8 list" where
  "u8s_of s = map of_nat (bytes_of s)"

text \<open>The read of a failed answer is awaited to its end, so a wait only delays it.\<close>

fun read_error_body :: "nat \<Rightarrow> string \<Rightarrow> body_read list \<Rightarrow> string \<times> body_read list" where
  "read_error_body mx bytes [] = (bytes, [])"
| "read_error_body mx bytes (x # xs) =
     (if length bytes < mx then
        (case x of
           BodyWait \<Rightarrow> read_error_body mx bytes xs
         | BodyChunk chunk \<Rightarrow> read_error_body mx (bytes @ take (mx - length bytes) chunk) xs
         | BodyFault _ \<Rightarrow> (bytes, xs))
      else (bytes, x # xs))"

definition stream_open ::
  "json_parser \<Rightarrow> protocol \<Rightarrow> origin \<Rightarrow> response_limits \<Rightarrow> fault + response_head \<times> body_read list \<Rightarrow> answer_stream" where
  "stream_open parse p og limits opened =
     (let st = \<lparr>st_info = no_info, st_body = None, st_body_ended = False, st_state = Streaming,
                st_reducer = new_reducer p (new_draft og limits), st_parser = new_sse limits, st_payload = [],
                st_payload_lent = False, st_next_event = 0\<rparr>
      in case opened of
           Inl fault \<Rightarrow> st\<lparr>st_state := StreamFailed (TransportFailure fault)\<rparr>
         | Inr (head, body) \<Rightarrow>
             let info = \<lparr>retry_after_ms = head_retry_after_ms head, should_retry = head_should_retry head,
                         info_status = Some (head_status head), request_id = head_request_id head,
                         error_body = None, output_seen = False\<rparr>
             in if head_status head \<noteq> 200 then
                  let (bytes, rest) = read_error_body (max_error_body_bytes limits) [] body;
                      kind = status_kind parse (head_status head) (Some bytes)
                  in st\<lparr>st_info := info\<lparr>error_body := Some (u8s_of bytes)\<rparr>, st_state := StreamFailed (ProviderFailure kind),
                        st_body := Some rest\<rparr>
                else st\<lparr>st_info := info, st_body := Some body\<rparr>)"

datatype stop = StopFailure failure | StopWait | StopPanic

definition sse_restore :: "sse \<Rightarrow> sse" where
  "sse_restore s = s\<lparr>sx_data := []\<rparr>"

text \<open>How much of the body is left to read.\<close>

definition body_left :: "answer_stream \<Rightarrow> nat" where
  "body_left st = (case st_body st of None \<Rightarrow> 0 | Some b \<Rightarrow> length b) + (if st_body_ended st then 0 else 1)"

text \<open>The loop of \<open>next_payload\<close>. A bound of the parser ends the stream, so its state no longer counts.\<close>

function payload_loop :: "answer_stream \<Rightarrow> (stop + bool) \<times> answer_stream" where
  "payload_loop st =
     (case sse_next (st_body_ended st) (st_parser st) of
        Inl _ \<Rightarrow> (Inl (StopFailure ResponseTooLarge), st)
      | Inr (StepPayload, p) \<Rightarrow>
          (let (bytes, p1) = take_payload p in
           if chars_of bytes \<noteq> None
           then (Inr True, st\<lparr>st_parser := p1, st_payload := bytes, st_payload_lent := True\<rparr>)
           else (Inr False, st\<lparr>st_parser := sse_restore p1\<rparr>))
      | Inr (StepEnd, p) \<Rightarrow> (Inl (StopFailure IncompleteStream), st\<lparr>st_parser := p\<rparr>)
      | Inr (StepNeedMore, p) \<Rightarrow>
          (case st_body st of
             None \<Rightarrow> (Inl (StopFailure IncompleteStream), st\<lparr>st_parser := p\<rparr>)
           | Some [] \<Rightarrow> payload_loop (st\<lparr>st_parser := p, st_body_ended := True\<rparr>)
           | Some (BodyWait # b) \<Rightarrow> (Inl StopWait, st\<lparr>st_parser := p, st_body := Some b\<rparr>)
           | Some (BodyChunk c # b) \<Rightarrow> payload_loop (st\<lparr>st_parser := sse_feed c p, st_body := Some b\<rparr>)
           | Some (BodyFault f # b) \<Rightarrow> (Inl (StopFailure (TransportFailure f)), st\<lparr>st_parser := p, st_body := Some b\<rparr>)))"
  by pat_completeness auto
termination
  by (relation "measure body_left") (auto simp: body_left_def dest!: sse_next_left)

declare payload_loop.simps [simp del]

definition next_payload :: "answer_stream \<Rightarrow> (stop + bool) \<times> answer_stream" where
  "next_payload st =
     payload_loop
       (if st_payload_lent st
        then st\<lparr>st_payload_lent := False, st_payload := [], st_parser := sse_restore (st_parser st)\<rparr> else st)"

text \<open>A payload takes from what is left: of the body, or of the bytes in the parser.\<close>

definition stream_left :: "answer_stream \<Rightarrow> nat \<times> nat" where
  "stream_left st = (body_left st, sse_left (st_parser st))"

definition left_rel :: "((nat \<times> nat) \<times> nat \<times> nat) set" where
  "left_rel = less_than <*lex*> less_than"

lemma left_rel_wf [simp]: "wf left_rel"
  by (auto simp: left_rel_def intro!: wf_lex_prod)

lemma left_rel_trans [trans]: "(a, b) \<in> left_rel \<Longrightarrow> (b, c) \<in> left_rel \<Longrightarrow> (a, c) \<in> left_rel"
  by (cases a; cases b; cases c) (auto simp: left_rel_def)

lemma sse_restore_left [simp]: "sse_left (sse_restore s) = sse_left s"
  by (simp add: sse_restore_def sse_left_def)

lemma payload_loop_same:
  "payload_loop st = (x, st') \<Longrightarrow>
     st_info st' = st_info st \<and> st_state st' = st_state st \<and> st_reducer st' = st_reducer st \<and>
     st_next_event st' = st_next_event st \<and>
     (x = Inr u \<or> x = Inl StopWait \<longrightarrow> (stream_left st', stream_left st) \<in> left_rel) \<and> x \<noteq> Inl StopPanic"
proof (induction st rule: payload_loop.induct)
  case (1 st)
  show ?case
  proof (cases "sse_next (st_body_ended st) (st_parser st)")
    case (Inl u)
    then show ?thesis using "1.prems" by (subst (asm) payload_loop.simps) auto
  next
    case (Inr r)
    then obtain s p where r: "sse_next (st_body_ended st) (st_parser st) = Inr (s, p)" by (cases r) auto
    note le = sse_next_left [OF r]
    show ?thesis
    proof (cases s)
      case StepPayload
      then have "sx_data_seen p" using le by simp
      then have "sse_left (snd (take_payload p)) < sse_left (st_parser st)"
        using le take_payload_left [of p "fst (take_payload p)" "snd (take_payload p)"] by simp
      then show ?thesis using "1.prems" r StepPayload
        by (subst (asm) payload_loop.simps)
          (auto simp: stream_left_def left_rel_def body_left_def split: prod.splits if_splits)
    next
      case StepEnd
      then show ?thesis using "1.prems" r by (subst (asm) payload_loop.simps) auto
    next
      case StepNeedMore
      note step = r [unfolded StepNeedMore]
      show ?thesis
      proof (cases "st_body st")
        case None
        then show ?thesis using "1.prems" step by (subst (asm) payload_loop.simps) auto
      next
        case (Some b)
        show ?thesis
        proof (cases b)
          case Nil
          let ?st = "st\<lparr>st_parser := p, st_body_ended := True\<rparr>"
          have "payload_loop ?st = (x, st')"
            using "1.prems" step Some Nil by (subst (asm) payload_loop.simps) auto
          moreover have "(stream_left ?st, stream_left st) \<in> left_rel"
            using le StepNeedMore Some Nil by (simp add: stream_left_def left_rel_def body_left_def)
          ultimately show ?thesis
            using "1.IH"(1) [OF step refl refl Some Nil] by (auto intro: left_rel_trans)
        next
          case (Cons y ys)
          show ?thesis
          proof (cases y)
            case (BodyChunk c)
            let ?st = "st\<lparr>st_parser := sse_feed c p, st_body := Some ys\<rparr>"
            have "payload_loop ?st = (x, st')"
              using "1.prems" step Some Cons BodyChunk by (subst (asm) payload_loop.simps) auto
            moreover have "(stream_left ?st, stream_left st) \<in> left_rel"
              using Some Cons by (simp add: stream_left_def left_rel_def body_left_def)
            ultimately show ?thesis
              using "1.IH"(2) [OF step refl refl Some Cons BodyChunk] by (auto intro: left_rel_trans)
          next
            case BodyWait
            then show ?thesis using "1.prems" step Some Cons
              by (subst (asm) payload_loop.simps) (auto simp: stream_left_def left_rel_def body_left_def)
          next
            case (BodyFault f)
            then show ?thesis using "1.prems" step Some Cons by (subst (asm) payload_loop.simps) auto
          qed
        qed
      qed
    qed
  qed
qed

lemma next_payload_same:
  assumes "next_payload st = (x, st')"
  shows "st_info st' = st_info st" "st_state st' = st_state st" "st_reducer st' = st_reducer st"
    "st_next_event st' = st_next_event st" "x \<noteq> Inl StopPanic"
    "x = Inr u \<or> x = Inl StopWait \<Longrightarrow> (stream_left st', stream_left st) \<in> left_rel"
  using payload_loop_same [OF assms [unfolded next_payload_def], of u]
  by (auto simp: stream_left_def body_left_def split: if_splits)

section \<open>The next event\<close>

lemma stream_left_fields [simp]:
  "stream_left (st\<lparr>st_reducer := r\<rparr>) = stream_left st" "stream_left (st\<lparr>st_next_event := n\<rparr>) = stream_left st"
  "stream_left (st\<lparr>st_info := i\<rparr>) = stream_left st" "stream_left (st\<lparr>st_state := s\<rparr>) = stream_left st"
  by (simp_all add: stream_left_def body_left_def)

lemma fill_left:
  "(Inr u, st1) = next_payload (st\<lparr>st_reducer := r, st_next_event := n\<rparr>) \<Longrightarrow> (stream_left st1, stream_left st) \<in> left_rel"
  using next_payload_same(6) [of "st\<lparr>st_reducer := r, st_next_event := n\<rparr>" "Inr u" st1 u] by simp

function fill :: "parsers \<Rightarrow> answer_stream \<Rightarrow> (stop + bool) \<times> answer_stream" where
  "fill ps st =
     (let d = reducer_draft (st_reducer st) in
      if st_next_event st \<noteq> draft_pending d then (Inr True, st)
      else if dd_done d then (Inr False, st\<lparr>st_state := StreamEnded\<rparr>)
      else
        (case next_payload (st\<lparr>st_reducer := reducer_clear (st_reducer st), st_next_event := 0\<rparr>) of
           (Inl stop, st1) \<Rightarrow> (Inl stop, st1)
         | (Inr utf8, st1) \<Rightarrow>
             (case if utf8 then reducer_decode ps (st_payload st1) (st_reducer st1) else Inl DecodeProtocol of
                Inr (None, r) \<Rightarrow> fill ps (st1\<lparr>st_reducer := r\<rparr>)
              | Inr (Some kind, r) \<Rightarrow>
                  (Inl (StopFailure (ProviderFailure kind)),
                   st1\<lparr>st_reducer := r, st_info := (st_info st1)\<lparr>error_body :=
                     Some (u8s_of (take (max_error_body_bytes (dd_limits (reducer_draft r))) (st_payload st1)))\<rparr>\<rparr>)
              | Inl DecodeProtocol \<Rightarrow>
                  (Inl (StopFailure (if sx_cut (st_parser st1) then IncompleteStream else ProtocolFailure)), st1)
              | Inl DecodeTooLarge \<Rightarrow> (Inl (StopFailure ResponseTooLarge), st1)
              | Inl DecodePanic \<Rightarrow> (Inl StopPanic, st1))))"
  by pat_completeness auto
termination
  by (relation "inv_image left_rel (\<lambda>(ps, st). stream_left st)") (auto dest!: fill_left)

declare fill.simps [simp del]

datatype item = ItemEvent event | ItemFailure failure | ItemEnd | ItemWait | ItemPanic

definition stream_next :: "parsers \<Rightarrow> answer_stream \<Rightarrow> item \<times> answer_stream" where
  "stream_next ps st =
     (case st_state st of
        StreamEnded \<Rightarrow> (ItemEnd, st)
      | StreamFailed f \<Rightarrow> (ItemFailure f, st\<lparr>st_state := StreamEnded\<rparr>)
      | Streaming \<Rightarrow>
          (case fill ps st of
             (Inr True, st1) \<Rightarrow>
               (let index = st_next_event st1;
                    d = reducer_draft (st_reducer st1);
                    st2 = st1\<lparr>st_next_event := index + 1\<rparr>
                in if index < length (dd_events d)
                   then (ItemEvent (pending_event d (dd_events d ! index)),
                         st2\<lparr>st_info := (st_info st2)\<lparr>output_seen := True\<rparr>\<rparr>)
                   else (ItemPanic, st2))
           | (Inr False, st1) \<Rightarrow> (ItemEnd, st1)
           | (Inl (StopFailure f), st1) \<Rightarrow> (ItemFailure f, st1\<lparr>st_state := StreamEnded\<rparr>)
           | (Inl StopWait, st1) \<Rightarrow> (ItemWait, st1)
           | (Inl StopPanic, st1) \<Rightarrow> (ItemPanic, st1)))"

section \<open>A race with a read loses no event\<close>

text \<open>The body without its waits.\<close>

definition calm :: "answer_stream \<Rightarrow> answer_stream" where
  "calm st = st\<lparr>st_body := map_option (filter (\<lambda>x. x \<noteq> BodyWait)) (st_body st)\<rparr>"

lemma calm_fields [simp]:
  "st_info (calm st) = st_info st" "st_body_ended (calm st) = st_body_ended st" "st_state (calm st) = st_state st"
  "st_reducer (calm st) = st_reducer st" "st_parser (calm st) = st_parser st" "st_payload (calm st) = st_payload st"
  "st_payload_lent (calm st) = st_payload_lent st" "st_next_event (calm st) = st_next_event st"
  "st_body (calm st) = map_option (filter (\<lambda>x. x \<noteq> BodyWait)) (st_body st)"
  by (simp_all add: calm_def)

lemma calm_update [simp]:
  "calm (st\<lparr>st_info := i\<rparr>) = (calm st)\<lparr>st_info := i\<rparr>"
  "calm (st\<lparr>st_body_ended := b\<rparr>) = (calm st)\<lparr>st_body_ended := b\<rparr>"
  "calm (st\<lparr>st_state := s\<rparr>) = (calm st)\<lparr>st_state := s\<rparr>"
  "calm (st\<lparr>st_reducer := r\<rparr>) = (calm st)\<lparr>st_reducer := r\<rparr>"
  "calm (st\<lparr>st_parser := p\<rparr>) = (calm st)\<lparr>st_parser := p\<rparr>"
  "calm (st\<lparr>st_payload := t\<rparr>) = (calm st)\<lparr>st_payload := t\<rparr>"
  "calm (st\<lparr>st_payload_lent := l\<rparr>) = (calm st)\<lparr>st_payload_lent := l\<rparr>"
  "calm (st\<lparr>st_next_event := n\<rparr>) = (calm st)\<lparr>st_next_event := n\<rparr>"
  "calm (st\<lparr>st_body := None\<rparr>) = st\<lparr>st_body := None\<rparr>"
  "calm (st\<lparr>st_body := Some xs\<rparr>) = st\<lparr>st_body := Some (filter (\<lambda>x. x \<noteq> BodyWait) xs)\<rparr>"
  by (simp_all add: calm_def)

lemma calm_set_body [simp]:
  "(calm st)\<lparr>st_body := b\<rparr> = st\<lparr>st_body := b\<rparr>"
  "(calm st)\<lparr>st_parser := p, st_body := b\<rparr> = st\<lparr>st_parser := p, st_body := b\<rparr>"
  by (simp_all add: calm_def)

text \<open>A read that waits leaves a state from which the next call goes on as if it had not waited.\<close>

definition stays_calm :: "(stop + 'a) \<times> answer_stream \<Rightarrow> (answer_stream \<Rightarrow> (stop + 'a) \<times> answer_stream) \<Rightarrow>
    (stop + 'a) \<times> answer_stream \<Rightarrow> bool" where
  "stays_calm x f y \<longleftrightarrow> (if fst x = Inl StopWait then y = f (calm (snd x)) else y = (fst x, calm (snd x)))"

lemma payload_loop_lent: "payload_loop st = (Inl StopWait, st') \<Longrightarrow> st_payload_lent st' = st_payload_lent st"
proof (induction st rule: payload_loop.induct)
  case (1 st)
  show ?case
    using "1.prems" "1.IH"
    by (subst (asm) payload_loop.simps)
      (auto split: sum.splits prod.splits sse_step.splits option.splits list.splits body_read.splits if_splits)
qed

text \<open>A parser that asked for more bytes asks again.\<close>

lemma payload_loop_again:
  assumes "sse_next (st_body_ended st) (st_parser st) = Inr (StepNeedMore, p)"
  shows "payload_loop (st\<lparr>st_parser := p\<rparr>) = payload_loop st"
proof -
  have "sse_next (st_body_ended st) p = Inr (StepNeedMore, p)"
    using sse_next_left [OF assms] by (subst sse_next.simps, subst read_line.simps) simp
  then show ?thesis using assms by (subst (1 2) payload_loop.simps) (simp split: option.split list.split body_read.split)
qed

lemma payload_loop_calm: "stays_calm (payload_loop st) payload_loop (payload_loop (calm st))"
proof (induction st rule: payload_loop.induct)
  case (1 st)
  show ?case
  proof (cases "sse_next (st_body_ended st) (st_parser st)")
    case (Inl u)
    then show ?thesis by (subst (1 3) payload_loop.simps) (simp add: stays_calm_def)
  next
    case (Inr r)
    then obtain s p where r: "sse_next (st_body_ended st) (st_parser st) = Inr (s, p)" by (cases r) auto
    show ?thesis
    proof (cases s)
      case StepNeedMore
      note step = r [unfolded StepNeedMore]
      show ?thesis
      proof (cases "st_body st")
        case None
        then show ?thesis using step by (subst (1 3) payload_loop.simps) (simp add: stays_calm_def)
      next
        case (Some b)
        show ?thesis
        proof (cases b)
          case Nil
          then show ?thesis
            using "1.IH"(1) [OF step refl refl Some Nil] step Some by (subst (1 3) payload_loop.simps) simp
        next
          case (Cons y ys)
          show ?thesis
          proof (cases y)
            case (BodyChunk c)
            then show ?thesis using "1.IH"(2) [OF step refl refl Some Cons BodyChunk] step Some Cons
              by (subst (1 3) payload_loop.simps) simp
          next
            case BodyWait
            let ?calm = "st\<lparr>st_body := Some (filter (\<lambda>x. x \<noteq> BodyWait) ys)\<rparr>"
            have "payload_loop st = (Inl StopWait, st\<lparr>st_parser := p, st_body := Some ys\<rparr>)"
              using step Some Cons BodyWait by (subst payload_loop.simps) simp
            moreover have "calm st = ?calm" using Some Cons BodyWait by (simp add: calm_def)
            moreover have "calm (st\<lparr>st_parser := p, st_body := Some ys\<rparr>) = ?calm\<lparr>st_parser := p\<rparr>" by (cases st) simp
            moreover have "payload_loop (?calm\<lparr>st_parser := p\<rparr>) = payload_loop ?calm"
              by (rule payload_loop_again) (use step in simp)
            ultimately show ?thesis by (simp only: stays_calm_def fst_conv snd_conv if_True simp_thms)
          next
            case (BodyFault f)
            then show ?thesis using step Some Cons by (subst (1 3) payload_loop.simps) (simp add: stays_calm_def)
          qed
        qed
      qed
    next
      case StepPayload
      then show ?thesis using r by (subst (1 3) payload_loop.simps) (auto simp: stays_calm_def split: prod.split)
    next
      case StepEnd
      then show ?thesis using r by (subst (1 3) payload_loop.simps) (simp add: stays_calm_def)
    qed
  qed
qed

lemma next_payload_calm:
  assumes "next_payload st = (x, st')"
  shows "next_payload (calm st) = (if x = Inl StopWait then next_payload (calm st') else (x, calm st'))"
proof -
  let ?st = "if st_payload_lent st
    then st\<lparr>st_payload_lent := False, st_payload := [], st_parser := sse_restore (st_parser st)\<rparr> else st"
  have loop: "payload_loop ?st = (x, st')" using assms by (simp add: next_payload_def)
  have "\<not> st_payload_lent st'" if "x = Inl StopWait"
    using payload_loop_lent [of ?st st'] loop that by (simp split: if_splits)
  then show ?thesis
    using payload_loop_calm [of ?st] by (auto simp: loop stays_calm_def next_payload_def)
qed

lemma reducer_clear_idem [simp]: "reducer_clear (reducer_clear r) = reducer_clear r"
  by (cases r) (simp_all add: reducer_clear_def an_clear_def ch_clear_def re_clear_def clear_events_def)

lemma fill_cong:
  assumes "st_next_event a = draft_pending (reducer_draft (st_reducer a))" "\<not> dd_done (reducer_draft (st_reducer a))"
    and "st_next_event b = draft_pending (reducer_draft (st_reducer b))" "\<not> dd_done (reducer_draft (st_reducer b))"
    and "next_payload (a\<lparr>st_reducer := reducer_clear (st_reducer a), st_next_event := 0\<rparr>) =
      next_payload (b\<lparr>st_reducer := reducer_clear (st_reducer b), st_next_event := 0\<rparr>)"
  shows "fill ps a = fill ps b"
  by (subst (1 2) fill.simps) (use assms in \<open>simp add: Let_def\<close>)

lemma fill_calm:
  "fill ps st = (x, st') \<Longrightarrow>
     fill ps (calm st) = (if x = Inl StopWait then fill ps (calm st') else (x, calm st')) \<and>
     (x = Inl StopWait \<longrightarrow> st_state st' = st_state st)"
proof (induction ps st arbitrary: x st' rule: fill.induct)
  case (1 ps st)
  let ?d = "reducer_draft (st_reducer st)"
  show ?case
  proof (cases "st_next_event st \<noteq> draft_pending ?d \<or> dd_done ?d")
    case True
    then show ?thesis using "1.prems"
      by (subst (asm) fill.simps, subst fill.simps) (auto simp: Let_def split: if_splits)
  next
    case False
    let ?st = "st\<lparr>st_reducer := reducer_clear (st_reducer st), st_next_event := 0\<rparr>"
    obtain y st1 where y: "next_payload ?st = (y, st1)" by fastforce
    note same = next_payload_same(2-4) [OF y] and calm = next_payload_calm [OF y]
    show ?thesis
    proof (cases y)
      case (Inl stop)
      have x: "x = y" "st' = st1" using "1.prems" False y Inl by (subst (asm) fill.simps; simp add: Let_def)+
      show ?thesis
      proof (cases "stop = StopWait")
        case True
        have up: "(calm st1)\<lparr>st_reducer := reducer_clear (st_reducer (calm st1)), st_next_event := 0\<rparr> = calm st1"
          using same by (cases st1) (simp add: calm_def)
        have "fill ps (calm st) = fill ps (calm st1)"
          by (rule fill_cong, unfold up)
            (use False calm Inl True same in
              \<open>simp_all add: reducer_clear_draft clear_events_def draft_pending_def\<close>)
        then show ?thesis using x Inl True same by simp
      next
        case False': False
        then show ?thesis using False calm Inl x by (subst fill.simps) (simp add: Let_def)
      qed
    next
      case (Inr utf8)
      let ?m = "if utf8 then reducer_decode ps (st_payload st1) (st_reducer st1) else Inl DecodeProtocol"
      have calm_step: "next_payload (calm ?st) = (Inr utf8, calm st1)" using calm Inr by simp
      show ?thesis
      proof (cases "\<exists>r. ?m = Inr (None, r)")
        case True
        then obtain r where m0: "?m = Inr (None, r)" by blast
        then have m: "utf8" "reducer_decode ps (st_payload st1) (st_reducer st1) = Inr (None, r)"
          by (simp_all split: if_splits)
        have "fill ps st = fill ps (st1\<lparr>st_reducer := r\<rparr>)"
          using False y Inr m by (subst fill.simps) (simp add: Let_def)
        then have run: "fill ps (st1\<lparr>st_reducer := r\<rparr>) = (x, st')" using "1.prems" by simp
        have "fill ps (calm st) = fill ps (calm (st1\<lparr>st_reducer := r\<rparr>))"
          using False calm_step m by (subst fill.simps) (simp add: Let_def)
        then show ?thesis
          using "1.IH" [OF refl _ _ y [symmetric] Inr m0 refl refl run] False same by simp
      next
        case other: False
        show ?thesis
        proof (cases ?m)
          case (Inl e)
          then show ?thesis using "1.prems" False y Inr calm_step
            by (subst (asm) fill.simps, subst fill.simps, cases e) (auto simp: Let_def)
        next
          case m: (Inr k)
          then obtain kind r where k: "k = (Some kind, r)" using other by (cases k, cases "fst k") auto
          show ?thesis using "1.prems" False y Inr calm_step m
            by (subst (asm) fill.simps, subst fill.simps) (auto simp: Let_def k)
        qed
      qed
    qed
  qed
qed

lemma stream_next_calm:
  assumes "stream_next ps st = (x, st')"
  shows "stream_next ps (calm st) = (if x = ItemWait then stream_next ps (calm st') else (x, calm st'))"
proof (cases "st_state st")
  case Streaming
  obtain y st1 where y: "fill ps st = (y, st1)" by fastforce
  note calm = fill_calm [OF y]
  show ?thesis
  proof (cases "y = Inl StopWait")
    case True
    then have "x = ItemWait" "st' = st1" using assms y Streaming by (simp_all add: stream_next_def)
    then show ?thesis using True calm Streaming by (simp add: stream_next_def)
  next
    case False
    have "x \<noteq> ItemWait" using assms y Streaming False
      by (auto simp: stream_next_def Let_def split: sum.splits bool.splits stop.splits if_splits)
    then show ?thesis using assms y Streaming False calm
      by (auto simp: stream_next_def Let_def split: sum.splits bool.splits stop.splits if_splits)
  qed
qed (use assms in \<open>auto simp: stream_next_def\<close>)

section \<open>The stream goes on to its end\<close>

lemma fill_left_rel:
  "fill ps st = (x, st') \<Longrightarrow>
     (x = Inr True \<longrightarrow> st_state st' = st_state st \<and> (st' = st \<or> (stream_left st', stream_left st) \<in> left_rel)) \<and>
     (x = Inl StopWait \<longrightarrow> st_state st' = st_state st \<and> (stream_left st', stream_left st) \<in> left_rel)"
proof (induction ps st arbitrary: x st' rule: fill.induct)
  case (1 ps st)
  let ?d = "reducer_draft (st_reducer st)"
  show ?case
  proof (cases "st_next_event st \<noteq> draft_pending ?d \<or> dd_done ?d")
    case True
    then show ?thesis using "1.prems" by (subst (asm) fill.simps) (auto simp: Let_def split: if_splits)
  next
    case False
    let ?st = "st\<lparr>st_reducer := reducer_clear (st_reducer st), st_next_event := 0\<rparr>"
    obtain y st1 where y: "next_payload ?st = (y, st1)" by fastforce
    note same = next_payload_same [OF y, simplified]
    show ?thesis
    proof (cases y)
      case (Inl stop)
      then show ?thesis using "1.prems" False y same by (subst (asm) fill.simps) (auto simp: Let_def)
    next
      case (Inr utf8)
      let ?m = "if utf8 then reducer_decode ps (st_payload st1) (st_reducer st1) else Inl DecodeProtocol"
      show ?thesis
      proof (cases "\<exists>r. ?m = Inr (None, r)")
        case True
        then obtain r where m: "?m = Inr (None, r)" by blast
        then have "utf8" "reducer_decode ps (st_payload st1) (st_reducer st1) = Inr (None, r)" by (simp_all split: if_splits)
        then have "fill ps (st1\<lparr>st_reducer := r\<rparr>) = (x, st')"
          using "1.prems" False y Inr by (subst (asm) fill.simps) (simp add: Let_def)
        from "1.IH" [OF refl _ _ y [symmetric] Inr m refl refl this] show ?thesis
          using False same Inr by (auto intro: left_rel_trans)
      next
        case other: False
        have "x \<noteq> Inr True \<and> x \<noteq> Inl StopWait"
        proof (cases ?m)
          case (Inl e)
          then show ?thesis using "1.prems" False y Inr
            by (subst (asm) fill.simps, cases e) (auto simp: Let_def)
        next
          case m: (Inr k)
          then obtain kind r where k: "k = (Some kind, r)" using other by (cases k, cases "fst k") auto
          show ?thesis using "1.prems" False y Inr m by (subst (asm) fill.simps) (auto simp: Let_def k)
        qed
        then show ?thesis by simp
      qed
    qed
  qed
qed

definition stream_rank :: "answer_stream \<Rightarrow> nat \<times> (nat \<times> nat) \<times> nat" where
  "stream_rank st =
     (if st_state st = StreamEnded then 0 else 1, stream_left st,
      draft_pending (reducer_draft (st_reducer st)) - st_next_event st)"

definition rank_rel :: "((nat \<times> (nat \<times> nat) \<times> nat) \<times> nat \<times> (nat \<times> nat) \<times> nat) set" where
  "rank_rel = less_than <*lex*> left_rel <*lex*> less_than"

lemma rank_rel_wf [simp]: "wf rank_rel"
  by (auto simp: rank_rel_def intro!: wf_lex_prod)

lemma stream_next_less:
  assumes "stream_next ps st = (x, st')" "x \<noteq> ItemEnd" "x \<noteq> ItemPanic"
  shows "(stream_rank st', stream_rank st) \<in> rank_rel"
proof (cases "st_state st")
  case Streaming
  obtain y st1 where y: "fill ps st = (y, st1)" by fastforce
  note left = fill_left_rel [OF y]
  consider (event) "y = Inr True" | (over) "y = Inr False" | (failure) f where "y = Inl (StopFailure f)"
    | (wait) "y = Inl StopWait" | (panic) "y = Inl StopPanic"
    by (cases y; auto; metis stop.exhaust)
  then show ?thesis
  proof cases
    case event
    then show ?thesis using assms y Streaming left
      by (auto simp: stream_next_def Let_def stream_rank_def rank_rel_def draft_pending_def split: if_splits)
  next
    case over
    then show ?thesis using assms y Streaming by (simp add: stream_next_def)
  next
    case failure
    then show ?thesis using assms y Streaming by (auto simp: stream_next_def stream_rank_def rank_rel_def)
  next
    case wait
    then show ?thesis using assms y Streaming left by (auto simp: stream_next_def stream_rank_def rank_rel_def)
  next
    case panic
    then show ?thesis using assms y Streaming by (simp add: stream_next_def)
  qed
qed (use assms in \<open>auto simp: stream_next_def stream_rank_def rank_rel_def\<close>)

end
