(* ===== verification/Reply.thy ===== *)
theory Reply
  imports Answer_Stream
begin

text \<open>
  One attempt read to its end, \<open>crates/ai/src/reply.rs\<close>: the reply keeps what each event says, and gives the
  response, or what arrived of it when the attempt failed or was cancelled. An index out of range and an
  \<open>unreachable!\<close> are \<open>None\<close> (\<open>ItemPanic\<close>).

  The theory proves that the reply never panics, that its response says what the events said, that it keeps
  the limits, and that a read which another branch of a race cuts off loses nothing.
\<close>

section \<open>The reply\<close>

datatype reply_part = PartOpen block_kind string | PartStopped content

datatype reply_end = ReplyOpen | ReplyDone completion | ReplyFailed failure

record reply =
  rp_stream :: answer_stream
  rp_parts :: "reply_part list"
  rp_end :: reply_end

definition reply_open ::
  "json_parser \<Rightarrow> protocol \<Rightarrow> origin \<Rightarrow> response_limits \<Rightarrow> fault + response_head \<times> body_read list \<Rightarrow> reply" where
  "reply_open parse p og limits opened =
     \<lparr>rp_stream = stream_open parse p og limits opened, rp_parts = [], rp_end = ReplyOpen\<rparr>"

definition stopped_content :: "block_result \<Rightarrow> string \<Rightarrow> content" where
  "stopped_content r t =
     (case r of
        ResText \<Rightarrow> ContentText t
      | ResRefusal \<Rightarrow> ContentRefusal t
      | ResReasoning replay \<Rightarrow> ContentReasoning \<lparr>reasoning_text = t, reasoning_state = replay\<rparr>
      | ResToolCall c \<Rightarrow> ContentToolCall c)"

definition keep_delta :: "block_id \<Rightarrow> string \<Rightarrow> reply_part list \<Rightarrow> reply_part list option" where
  "keep_delta i t parts =
     (if i < length parts then
        Some (case parts ! i of PartOpen k u \<Rightarrow> parts[i := PartOpen k (u @ t)] | PartStopped _ \<Rightarrow> parts)
      else None)"

definition keep_event :: "event \<Rightarrow> reply_part list \<times> reply_end \<Rightarrow> (reply_part list \<times> reply_end) option" where
  "keep_event ev kept =
     (let (parts, over) = kept in
      case ev of
        BlockStarted _ k \<Rightarrow> Some (parts @ [PartOpen k []], over)
      | TextDelta i t \<Rightarrow> map_option (\<lambda>ps. (ps, over)) (keep_delta i t parts)
      | RefusalDelta i t \<Rightarrow> map_option (\<lambda>ps. (ps, over)) (keep_delta i t parts)
      | ReasoningDelta i t \<Rightarrow> map_option (\<lambda>ps. (ps, over)) (keep_delta i t parts)
      | ReasoningSectionStarted _ \<Rightarrow> Some (parts, over)
      | ToolInputDelta _ _ \<Rightarrow> Some (parts, over)
      | BlockStopped i r \<Rightarrow>
          if i < length parts then
            Some (case parts ! i of
                    PartOpen _ t \<Rightarrow> parts[i := PartStopped (stopped_content r t)]
                  | PartStopped _ \<Rightarrow> parts, over)
          else None
      | EvDone d \<Rightarrow>
          Some (parts, ReplyDone \<lparr>comp_content = [], comp_finish_reason = done_finish_reason d,
                                  comp_raw = done_raw d, comp_usage = done_usage d\<rparr>))"

definition reply_next :: "parsers \<Rightarrow> reply \<Rightarrow> item \<times> reply" where
  "reply_next ps rp =
     (let (item, st) = stream_next ps (rp_stream rp);
          rp1 = rp\<lparr>rp_stream := st\<rparr>
      in case item of
           ItemEvent ev \<Rightarrow>
             (case keep_event ev (rp_parts rp, rp_end rp) of
                None \<Rightarrow> (ItemPanic, rp1)
              | Some (parts, over) \<Rightarrow> (item, rp1\<lparr>rp_parts := parts, rp_end := over\<rparr>))
         | ItemFailure f \<Rightarrow> (item, rp1\<lparr>rp_end := ReplyFailed f\<rparr>)
         | _ \<Rightarrow> (item, rp1))"

lemma reply_next_stream: "reply_next ps rp = (x, rp') \<Longrightarrow>
    (x, rp_stream rp') = stream_next ps (rp_stream rp) \<or> x = ItemPanic"
  by (auto simp: reply_next_def Let_def split: prod.splits item.splits option.splits)

lemma reply_next_less:
  "(x, rp') = reply_next ps rp \<Longrightarrow> x \<noteq> ItemEnd \<Longrightarrow> x \<noteq> ItemPanic \<Longrightarrow>
     (stream_rank (rp_stream rp'), stream_rank (rp_stream rp)) \<in> rank_rel"
  using reply_next_stream [of ps rp x rp'] stream_next_less [of ps "rp_stream rp" x "rp_stream rp'"] by simp

text \<open>
  \<open>while self.next().await.is_some() {}\<close>, with the events that it passes. A read that waits is called again:
  that is what a caller does who races it.
\<close>

function reply_drain :: "parsers \<Rightarrow> reply \<Rightarrow> (event list \<times> reply) option" where
  "reply_drain ps rp =
     (case reply_next ps rp of
        (ItemPanic, _) \<Rightarrow> None
      | (ItemEnd, rp1) \<Rightarrow> Some ([], rp1)
      | (ItemWait, rp1) \<Rightarrow> reply_drain ps rp1
      | (ItemFailure _, rp1) \<Rightarrow> reply_drain ps rp1
      | (ItemEvent ev, rp1) \<Rightarrow> map_option (\<lambda>(evs, rp2). (ev # evs, rp2)) (reply_drain ps rp1))"
  by pat_completeness auto
termination
  by (relation "inv_image rank_rel (\<lambda>(ps, rp). stream_rank (rp_stream rp))")
    (auto dest: reply_next_less)

declare reply_drain.simps [simp del]

fun part_content :: "reply_part \<Rightarrow> content option" where
  "part_content (PartOpen _ _) = None"
| "part_content (PartStopped c) = Some c"

definition complete_parts :: "reply_part list \<Rightarrow> content list" where
  "complete_parts parts = filter_map part_content parts"

fun part_partial :: "reply_part \<Rightarrow> partial option" where
  "part_partial (PartStopped (ContentToolCall c)) = Some (PartialToolCall c)"
| "part_partial (PartOpen KToolCall _) = None"
| "part_partial (PartOpen KText t) = (if t = [] then None else Some (PartialText t))"
| "part_partial (PartStopped (ContentText t)) = (if t = [] then None else Some (PartialText t))"
| "part_partial (PartOpen KRefusal t) = (if t = [] then None else Some (PartialRefusal t))"
| "part_partial (PartStopped (ContentRefusal t)) = (if t = [] then None else Some (PartialRefusal t))"
| "part_partial (PartOpen KReasoning t) = (if t = [] then None else Some (PartialReasoning t))"
| "part_partial (PartStopped (ContentReasoning r)) =
     (if reasoning_text r = [] then None else Some (PartialReasoning (reasoning_text r)))"

definition partial_parts :: "reply_part list \<Rightarrow> partial_block list" where
  "partial_parts parts =
     filter_map (\<lambda>(i, p). map_option (\<lambda>c. \<lparr>pb_block = i, pb_content = c\<rparr>) (part_partial p)) (enumerate 0 parts)"

definition reply_finish :: "parsers \<Rightarrow> reply \<Rightarrow> (attempt_error + response) option" where
  "reply_finish ps rp =
     (case reply_drain ps rp of
        None \<Rightarrow> None
      | Some (_, rp1) \<Rightarrow>
          (case rp_end rp1 of
             ReplyDone c \<Rightarrow>
               Some (Inr \<lparr>resp_info = st_info (rp_stream rp1),
                          resp_completion = c\<lparr>comp_content := complete_parts (rp_parts rp1)\<rparr>\<rparr>)
           | ReplyFailed cause \<Rightarrow>
               Some (Inl \<lparr>ae_cause = cause, ae_info = st_info (rp_stream rp1),
                          ae_partial = map pb_content (partial_parts (rp_parts rp1))\<rparr>)
           | ReplyOpen \<Rightarrow> None))"

definition reply_cancel :: "reply \<Rightarrow> partial_block list" where
  "reply_cancel rp = partial_parts (rp_parts rp)"

section \<open>What the events say\<close>

text \<open>
  The answer of a list of events, read from the list as a whole: the blocks are those that started, the text of
  a block is the texts of its deltas in order, and a block that stopped has its result.
\<close>

definition started_kinds :: "event list \<Rightarrow> block_kind list" where
  "started_kinds evs = filter_map (\<lambda>x. case x of BlockStarted _ k \<Rightarrow> Some k | _ \<Rightarrow> None) evs"

definition delta_text :: "block_id \<Rightarrow> event \<Rightarrow> string" where
  "delta_text i x =
     (case x of
        TextDelta j t \<Rightarrow> if j = i then t else []
      | RefusalDelta j t \<Rightarrow> if j = i then t else []
      | ReasoningDelta j t \<Rightarrow> if j = i then t else []
      | _ \<Rightarrow> [])"

definition block_text :: "event list \<Rightarrow> block_id \<Rightarrow> string" where
  "block_text evs i = concat (map (delta_text i) evs)"

definition block_stop :: "event list \<Rightarrow> block_id \<Rightarrow> block_result list" where
  "block_stop evs i = filter_map (\<lambda>x. case x of BlockStopped j r \<Rightarrow> if j = i then Some r else None | _ \<Rightarrow> None) evs"

definition said_part :: "event list \<Rightarrow> block_id \<Rightarrow> reply_part" where
  "said_part evs i =
     (case block_stop evs i of
        [] \<Rightarrow> PartOpen (started_kinds evs ! i) (block_text evs i)
      | r # _ \<Rightarrow> PartStopped (stopped_content r (block_text evs i)))"

definition said_parts :: "event list \<Rightarrow> reply_part list" where
  "said_parts evs = map (said_part evs) [0..<length (started_kinds evs)]"

definition said_done :: "event list \<Rightarrow> done_event list" where
  "said_done evs = filter_map (\<lambda>x. case x of EvDone d \<Rightarrow> Some d | _ \<Rightarrow> None) evs"

fun keep_all :: "event list \<Rightarrow> reply_part list \<times> reply_end \<Rightarrow> (reply_part list \<times> reply_end) option" where
  "keep_all [] kept = Some kept"
| "keep_all (x # xs) kept = (case keep_event x kept of None \<Rightarrow> None | Some k \<Rightarrow> keep_all xs k)"

lemma keep_all_append:
  "keep_all (xs @ ys) k = (case keep_all xs k of None \<Rightarrow> None | Some k1 \<Rightarrow> keep_all ys k1)"
  by (induction xs arbitrary: k) (auto split: option.split)

definition done_completion :: "done_event \<Rightarrow> completion" where
  "done_completion d = \<lparr>comp_content = [], comp_finish_reason = done_finish_reason d, comp_raw = done_raw d, comp_usage = done_usage d\<rparr>"

definition said_end :: "event list \<Rightarrow> reply_end" where
  "said_end evs = (case said_done evs of [] \<Rightarrow> ReplyOpen | d # _ \<Rightarrow> ReplyDone (done_completion d))"

lemma filter_map_snoc: "filter_map f (xs @ [x]) = filter_map f xs @ (case f x of None \<Rightarrow> [] | Some y \<Rightarrow> [y])"
  by (induction xs) (auto split: option.split)

lemma snoc_facts:
  "started_kinds (evs @ [x]) = started_kinds evs @ (case x of BlockStarted _ k \<Rightarrow> [k] | _ \<Rightarrow> [])"
  "block_text (evs @ [x]) i = block_text evs i @ delta_text i x"
  "block_stop (evs @ [x]) i = block_stop evs i @ (case x of BlockStopped j r \<Rightarrow> if j = i then [r] else [] | _ \<Rightarrow> [])"
  "said_done (evs @ [x]) = said_done evs @ (case x of EvDone d \<Rightarrow> [d] | _ \<Rightarrow> [])"
  by (simp_all add: started_kinds_def block_text_def block_stop_def said_done_def filter_map_snoc split: event.split)

text \<open>What is heard of well-formed events is what they say.\<close>

definition heard_says :: "event list \<Rightarrow> heard \<Rightarrow> bool" where
  "heard_says evs h \<longleftrightarrow>
     fst h = map (\<lambda>i. (started_kinds evs ! i, block_stop evs i = [])) [0..<length (started_kinds evs)] \<and>
     (snd h \<longleftrightarrow> said_done evs \<noteq> []) \<and>
     (\<forall>i\<ge>length (started_kinds evs). block_text evs i = [] \<and> block_stop evs i = [])"

lemma heard_live:
  "heard_says evs h \<Longrightarrow> live (fst h) i k \<longleftrightarrow>
     i < length (started_kinds evs) \<and> started_kinds evs ! i = k \<and> block_stop evs i = []"
  by (auto simp: heard_says_def live_def)

lemma said_parts_nth [simp]: "i < length (started_kinds evs) \<Longrightarrow> said_parts evs ! i = said_part evs i"
  "length (said_parts evs) = length (started_kinds evs)"
  by (simp_all add: said_parts_def)

lemma said_parts_update:
  assumes "started_kinds (evs @ [x]) = started_kinds evs"
    and "\<And>j. j \<noteq> i \<Longrightarrow> said_part (evs @ [x]) j = said_part evs j"
  shows "said_parts (evs @ [x]) = (said_parts evs)[i := said_part (evs @ [x]) i]"
  proof (intro nth_equalityI)
  fix j assume "j < length (said_parts (evs @ [x]))"
  then show "said_parts (evs @ [x]) ! j = (said_parts evs)[i := said_part (evs @ [x]) i] ! j"
    using assms by (cases "j = i") simp_all
qed (simp add: assms)

lemma keep_delta_said:
  assumes "i < length (started_kinds evs)" "block_stop evs i = []" "delta_text i x = t"
    and "started_kinds (evs @ [x]) = started_kinds evs" "\<And>j. block_stop (evs @ [x]) j = block_stop evs j"
    and "\<And>j. j \<noteq> i \<Longrightarrow> delta_text j x = []"
  shows "keep_delta i t (said_parts evs) = Some (said_parts (evs @ [x]))"
proof -
  have joins: "block_text (evs @ [x]) j = block_text evs j @ delta_text j x" for j by (simp add: snoc_facts)
  have "said_part (evs @ [x]) i = PartOpen (started_kinds evs ! i) (block_text evs i @ t)"
    using assms joins by (simp add: said_part_def)
  moreover have "said_part evs i = PartOpen (started_kinds evs ! i) (block_text evs i)"
    using assms by (simp add: said_part_def)
  moreover have "said_parts (evs @ [x]) = (said_parts evs)[i := said_part (evs @ [x]) i]"
    by (rule said_parts_update) (use assms joins in \<open>auto simp: said_part_def split: list.split\<close>)
  ultimately show ?thesis using assms(1) by (simp add: keep_delta_def)
qed

lemma keep_stop_said:
  assumes "i < length (started_kinds evs)" "block_stop evs i = []"
  shows "keep_event (BlockStopped i r) (said_parts evs, e) = Some (said_parts (evs @ [BlockStopped i r]), e)"
proof -
  have "said_part evs i = PartOpen (started_kinds evs ! i) (block_text evs i)"
    "said_part (evs @ [BlockStopped i r]) i = PartStopped (stopped_content r (block_text evs i))"
    using assms by (simp_all add: said_part_def snoc_facts delta_text_def)
  moreover have "said_parts (evs @ [BlockStopped i r]) = (said_parts evs)[i := said_part (evs @ [BlockStopped i r]) i]"
    by (rule said_parts_update) (auto simp: said_part_def snoc_facts delta_text_def split: list.split)
  ultimately show ?thesis using assms(1) by (simp add: keep_event_def)
qed

text \<open>An event without text or result leaves the blocks as they are.\<close>

lemma same_parts_said:
  assumes "started_kinds (evs @ [x]) = started_kinds evs" "\<And>j. block_stop (evs @ [x]) j = block_stop evs j"
    and "\<And>j. delta_text j x = []"
  shows "said_parts (evs @ [x]) = said_parts evs"
  using assms by (auto simp: said_parts_def said_part_def snoc_facts(2) split: list.split)

lemma keeps_what_is_said:
  "hear_all ([], False) evs = Some h \<Longrightarrow>
     heard_says evs h \<and> keep_all evs ([], ReplyOpen) = Some (said_parts evs, said_end evs)"
proof (induction evs arbitrary: h rule: rev_induct)
  case Nil
  then show ?case
    by (auto simp: heard_says_def said_parts_def said_end_def said_done_def started_kinds_def block_text_def block_stop_def)
next
  case (snoc x evs)
  then obtain h0 where h0: "hear_all ([], False) evs = Some h0" "hear h0 x = Some h"
    by (auto simp: hear_all_append split: option.splits)
  note IH = snoc.IH [OF h0(1)]
  then have says: "heard_says evs h0" and kept: "keep_all evs ([], ReplyOpen) = Some (said_parts evs, said_end evs)" by auto
  have live: "\<not> snd h0" using h0(2) by (auto simp: hear_def Let_def split: if_splits)
  then have no_done: "said_done evs = []" using says by (simp add: heard_says_def)
  have "keep_event x (said_parts evs, said_end evs) = Some (said_parts (evs @ [x]), said_end (evs @ [x])) \<and>
      heard_says (evs @ [x]) h"
  proof (cases x)
    case (BlockStarted i k)
    then have i: "h = (fst h0 @ [(k, True)], False)" using h0(2) live by (auto simp: hear_def Let_def split: if_splits)
    have "said_part (evs @ [x]) j = said_part evs j" if "j < length (started_kinds evs)" for j
      using BlockStarted that by (simp add: said_part_def snoc_facts delta_text_def nth_append split: list.split)
    moreover have "said_part (evs @ [x]) (length (started_kinds evs)) = PartOpen k []"
      using says BlockStarted by (simp add: said_part_def snoc_facts delta_text_def heard_says_def)
    ultimately show ?thesis
      using says i BlockStarted live
      by (auto simp: keep_event_def said_parts_def said_end_def snoc_facts delta_text_def heard_says_def nth_append)
  next
    case (TextDelta i t)
    then have "h = h0" "i < length (started_kinds evs)" "block_stop evs i = []"
      using h0(2) live heard_live [OF says] by (auto simp: hear_def Let_def split: if_splits)
    then show ?thesis using TextDelta says keep_delta_said [of i evs x t]
      by (auto simp: keep_event_def said_end_def snoc_facts delta_text_def heard_says_def)
  next
    case (RefusalDelta i t)
    then have "h = h0" "i < length (started_kinds evs)" "block_stop evs i = []"
      using h0(2) live heard_live [OF says] by (auto simp: hear_def Let_def split: if_splits)
    then show ?thesis using RefusalDelta says keep_delta_said [of i evs x t]
      by (auto simp: keep_event_def said_end_def snoc_facts delta_text_def heard_says_def)
  next
    case (ReasoningDelta i t)
    then have "h = h0" "i < length (started_kinds evs)" "block_stop evs i = []"
      using h0(2) live heard_live [OF says] by (auto simp: hear_def Let_def split: if_splits)
    then show ?thesis using ReasoningDelta says keep_delta_said [of i evs x t]
      by (auto simp: keep_event_def said_end_def snoc_facts delta_text_def heard_says_def)
  next
    case (ReasoningSectionStarted i)
    then have "h = h0" using h0(2) live by (auto simp: hear_def Let_def split: if_splits)
    then show ?thesis using ReasoningSectionStarted says same_parts_said [of evs x]
      by (auto simp: keep_event_def said_end_def snoc_facts delta_text_def heard_says_def)
  next
    case (ToolInputDelta i t)
    then have "h = h0" using h0(2) live by (auto simp: hear_def Let_def split: if_splits)
    then show ?thesis using ToolInputDelta says same_parts_said [of evs x]
      by (auto simp: keep_event_def said_end_def snoc_facts delta_text_def heard_says_def)
  next
    case (BlockStopped i r)
    then have h: "h = ((fst h0)[i := (result_kind r, False)], False)"
      "i < length (started_kinds evs)" "started_kinds evs ! i = result_kind r" "block_stop evs i = []"
      using h0(2) live heard_live [OF says] by (auto simp: hear_def Let_def split: if_splits)
    then have "heard_says (evs @ [x]) h" using says BlockStopped live
      by (auto simp: snoc_facts delta_text_def heard_says_def nth_list_update intro!: nth_equalityI)
    then show ?thesis using keep_stop_said [OF h(2,4), of r "said_end evs"] BlockStopped
      by (simp add: said_end_def snoc_facts)
  next
    case (EvDone d)
    then have "h = (fst h0, True)" using h0(2) live by (auto simp: hear_def Let_def split: if_splits)
    then show ?thesis using EvDone says no_done same_parts_said [of evs x]
      by (auto simp: keep_event_def said_end_def snoc_facts delta_text_def heard_says_def done_completion_def)
  qed
  then show ?case by (simp add: keep_all_append kept split: option.split)
qed

section \<open>The reply and its stream\<close>

text \<open>The events that the stream still has to hand out of the payload that it decoded.\<close>

definition coming :: "answer_stream \<Rightarrow> event list" where
  "coming st =
     (let d = reducer_draft (st_reducer st) in map (pending_event d) (drop (st_next_event st) (dd_events d)))"

text \<open>The results that events carry are those of the draft.\<close>

definition true_to :: "response_draft \<Rightarrow> event \<Rightarrow> bool" where
  "true_to d x =
     (case x of
        BlockStopped i r \<Rightarrow>
          i < length (dd_blocks d) \<and> db_state (dd_blocks d ! i) = BlockStopped' \<and>
          r = block_result_of (dd_origin d) (dd_blocks d ! i)
      | EvDone e \<Rightarrow> dd_done d \<and> done_finish_reason e = dd_finish_reason d
      | _ \<Rightarrow> True)"

lemma true_to_grows:
  "true_to d x \<Longrightarrow> grows d d' \<Longrightarrow> \<not> dd_done d \<Longrightarrow> true_to d' x"
  by (auto simp: true_to_def grows_def blocks_grow_def split: event.splits)

lemma live_update_other: "i < length ps \<Longrightarrow> \<not> snd (ps ! i) \<Longrightarrow> \<not> snd (ps[j := (k, False)] ! i)"
  by (cases "i = j") auto

text \<open>A block that was told to stop stays so.\<close>

lemma hear_stays:
  assumes "hear h x = Some h'"
  shows "length (fst h) \<le> length (fst h')" "i < length (fst h) \<Longrightarrow> \<not> snd (fst h ! i) \<Longrightarrow> \<not> snd (fst h' ! i)"
    "x = BlockStopped i r \<Longrightarrow> i < length (fst h') \<and> \<not> snd (fst h' ! i)" "x = EvDone e \<Longrightarrow> snd h'" "\<not> snd h"
  using assms by (auto simp: hear_def Let_def live_def nth_append live_update_other split: event.splits if_splits)

lemma hear_all_stays:
  "hear_all h xs = Some h' \<Longrightarrow> length (fst h) \<le> length (fst h') \<and>
     (i < length (fst h) \<longrightarrow> \<not> snd (fst h ! i) \<longrightarrow> \<not> snd (fst h' ! i)) \<and>
     (BlockStopped i r \<in> set xs \<longrightarrow> i < length (fst h') \<and> \<not> snd (fst h' ! i)) \<and>
     (EvDone e \<in> set xs \<longrightarrow> snd h') \<and> (snd h \<longrightarrow> xs = [])"
proof (induction xs arbitrary: h)
  case (Cons x xs)
  then obtain h1 where h1: "hear h x = Some h1" "hear_all h1 xs = Some h'" by (auto split: option.splits)
  note IH = Cons.IH [OF h1(2)] and here = hear_stays [OF h1(1)]
  have "BlockStopped i r = x \<Longrightarrow> i < length (fst h') \<and> \<not> snd (fst h' ! i)"
    using here(3) [of i r] IH by auto
  moreover have "EvDone e = x \<Longrightarrow> snd h'" using here(4) [of e] IH h1(2) by auto
  ultimately show ?case using IH here(1,2,5) by auto
qed simp

lemma true_to_told:
  assumes "hear_all h (map (pending_event d) xs) = Some (told d)" "x \<in> set (map (pending_event d) xs)"
  shows "true_to d x"
proof (cases x)
  case (BlockStopped i r)
  have "i < length (fst (told d)) \<and> \<not> snd (fst (told d) ! i)"
    using hear_all_stays [OF assms(1), of i r] assms(2) [unfolded BlockStopped] by blast
  then have "i < length (dd_blocks d) \<and> db_state (dd_blocks d ! i) = BlockStopped'" by (auto simp: told_def)
  moreover have "r = block_result_of (dd_origin d) (dd_blocks d ! i)"
    using assms(2) BlockStopped by (auto simp: pending_event_def split: pending.splits block_kind.splits)
  ultimately show ?thesis by (simp add: true_to_def BlockStopped)
next
  case (EvDone e)
  have "dd_done d" using hear_all_stays [OF assms(1), of _ _ e] assms(2) EvDone by (auto simp: told_def)
  moreover have "done_finish_reason e = dd_finish_reason d"
    using assms(2) EvDone by (auto simp: pending_event_def split: pending.splits block_kind.splits)
  ultimately show ?thesis by (simp add: true_to_def EvDone)
qed (simp_all add: true_to_def)

text \<open>What holds of a stream that goes on, after the caller saw \<open>evs\<close>.\<close>

definition stream_told :: "response_limits \<Rightarrow> answer_stream \<Rightarrow> event list \<Rightarrow> bool" where
  "stream_told limits st evs \<longleftrightarrow>
     (let d = reducer_draft (st_reducer st) in
      reducer_inv (st_reducer st) \<and> draft_ok d \<and> dd_limits d = limits \<and> st_next_event st \<le> length (dd_events d) \<and>
      hear_all ([], False) (evs @ coming st) = Some (told d) \<and> (\<forall>x\<in>set (evs @ coming st). true_to d x))"

lemma stream_told_new:
  "stream_told limits (stream_open parse p og limits opened) []"
  by (simp add: stream_told_def stream_open_def Let_def coming_def new_draft_def told_def draft_ok_def any_open_def
      split: sum.split prod.split)

lemma stream_told_fields:
  "st_reducer st' = st_reducer st \<Longrightarrow> st_next_event st' = st_next_event st \<Longrightarrow> stream_told limits st' evs = stream_told limits st evs"
  by (simp add: stream_told_def coming_def)

text \<open>The next payload: what the reducer makes of it goes on from what was told.\<close>

lemma decode_told:
  assumes "stream_told limits st evs" "st_next_event st = draft_pending (reducer_draft (st_reducer st))"
    and "\<not> dd_done (reducer_draft (st_reducer st))"
    and "reducer_decode ps data (reducer_clear (st_reducer st)) = Inr (k, r)"
    and "st_reducer st' = r" "st_next_event st' = 0"
  shows "stream_told limits st' evs"
proof -
  let ?d = "reducer_draft (st_reducer st)" and ?d1 = "reducer_draft r"
  have inv: "reducer_inv (st_reducer st)" and told: "hear_all ([], False) evs = Some (told ?d)"
    and true: "\<forall>x\<in>set evs. true_to ?d x"
    using assms(1,2) by (simp_all add: stream_told_def Let_def coming_def draft_pending_def)
  have heard: "hear_all (told ?d) (map (pending_event ?d1) (dd_events ?d1)) = Some (told ?d1)"
    and facts: "reducer_inv r" "draft_ok ?d1" "dd_limits ?d1 = limits" "blocks_grow (dd_blocks ?d) (dd_blocks ?d1)"
      "dd_origin ?d1 = dd_origin ?d"
    using answers.decode_payload [OF inv assms(3), of ps data] assms(1,4)
    by (auto simp: stream_told_def Let_def)
  have "true_to ?d1 x" if "x \<in> set evs" for x
    using true that facts(4,5) assms(3) by (auto simp: true_to_def blocks_grow_def split: event.splits)
  moreover have "true_to ?d1 x" if "x \<in> set (map (pending_event ?d1) (dd_events ?d1))" for x
    by (rule true_to_told [OF heard that])
  moreover have "hear_all ([], False) (evs @ map (pending_event ?d1) (dd_events ?d1)) = Some (told ?d1)"
    using told heard by (simp add: hear_all_append)
  ultimately show ?thesis using facts assms(5,6) by (auto simp: stream_told_def Let_def coming_def)
qed

lemma fill_told:
  "stream_told limits st evs \<Longrightarrow> fill ps st = (x, st') \<Longrightarrow>
     (case x of
        Inr b \<Rightarrow>
          stream_told limits st' evs \<and>
          (let d = reducer_draft (st_reducer st') in
           if b then st_next_event st' < length (dd_events d)
           else dd_done d \<and> st_next_event st' = length (dd_events d))
      | Inl StopWait \<Rightarrow> stream_told limits st' evs
      | Inl (StopFailure f) \<Rightarrow> (\<exists>h. hear_all ([], False) evs = Some h \<and> \<not> snd h)
      | Inl StopPanic \<Rightarrow> False)"
proof (induction ps st arbitrary: x st' rule: fill.induct)
  case (1 ps st)
  let ?d = "reducer_draft (st_reducer st)"
  show ?case
  proof (cases "st_next_event st \<noteq> draft_pending ?d \<or> dd_done ?d")
    case True
    then show ?thesis using "1.prems"
      by (subst (asm) fill.simps)
        (auto simp: Let_def stream_told_def draft_pending_def coming_def split: if_splits)
  next
    case False
    have quiet: "\<exists>h. hear_all ([], False) evs = Some h \<and> \<not> snd h"
      using "1.prems"(1) False by (simp add: stream_told_def Let_def coming_def draft_pending_def told_def)
    let ?st = "st\<lparr>st_reducer := reducer_clear (st_reducer st), st_next_event := 0\<rparr>"
    have told: "stream_told limits ?st evs"
      using "1.prems"(1) False
      by (auto simp: stream_told_def Let_def coming_def draft_pending_def reducer_clear_draft reducer_clear_inv
          clear_events_def told_def draft_ok_def any_open_def true_to_def split: event.splits)
    obtain y st1 where y: "next_payload ?st = (y, st1)" by fastforce
    note same = next_payload_same(1-5) [OF y, simplified]
    show ?thesis
    proof (cases y)
      case (Inl stop)
      then show ?thesis using "1.prems"(2) False y same(5) quiet told stream_told_fields [of st1 ?st limits evs] same
        by (subst (asm) fill.simps) (auto simp: Let_def split: stop.split)
    next
      case (Inr utf8)
      let ?m = "if utf8 then reducer_decode ps (st_payload st1) (st_reducer st1) else Inl DecodeProtocol"
      show ?thesis
      proof (cases "\<exists>r. ?m = Inr (None, r)")
        case True
        then obtain r where m: "?m = Inr (None, r)" by blast
        then have r: "utf8" "reducer_decode ps (st_payload st1) (reducer_clear (st_reducer st)) = Inr (None, r)"
          using same by (simp_all split: if_splits)
        then have run: "fill ps (st1\<lparr>st_reducer := r\<rparr>) = (x, st')"
          using "1.prems"(2) False y Inr same by (subst (asm) fill.simps) (simp add: Let_def)
        have "stream_told limits (st1\<lparr>st_reducer := r\<rparr>) evs"
          by (rule decode_told [OF "1.prems"(1) _ _ r(2)]) (use False same in auto)
        from "1.IH" [OF refl _ _ y [symmetric] Inr m refl refl this run] show ?thesis using False by simp
      next
        case other: False
        show ?thesis
        proof (cases ?m)
          case (Inl e)
          have "e \<noteq> DecodePanic"
          proof
            assume "e = DecodePanic"
            then have "reducer_decode ps (st_payload st1) (reducer_clear (st_reducer st)) = Inl DecodePanic"
              using Inl same by (simp split: if_splits)
            then show False
              using answers.decode_payload [of "st_reducer st" ps "st_payload st1"] "1.prems"(1) False
              by (simp add: stream_told_def Let_def)
          qed
          then show ?thesis using "1.prems"(2) False y Inr Inl quiet
            by (subst (asm) fill.simps, cases e) (auto simp: Let_def)
        next
          case m: (Inr k)
          then obtain kind r where k: "k = (Some kind, r)" using other by (cases k, cases "fst k") auto
          show ?thesis using "1.prems"(2) False y Inr m quiet by (subst (asm) fill.simps) (auto simp: Let_def k)
        qed
      qed
    qed
  qed
qed

section \<open>A reply ends with what the events said\<close>

definition reply_tells :: "response_limits \<Rightarrow> event list \<Rightarrow> reply \<Rightarrow> bool" where
  "reply_tells limits evs rp \<longleftrightarrow>
     (\<exists>h. hear_all ([], False) evs = Some h \<and> rp_parts rp = said_parts evs \<and>
        (if snd h
         then rp_end rp = said_end evs \<and>
              (\<exists>d. (\<forall>x\<in>set evs. true_to d x) \<and> draft_ok d \<and> dd_limits d = limits \<and> fst h = fst (told d))
         else \<exists>f. rp_end rp = ReplyFailed f))"

lemma drain_failed:
  assumes "reply_next ps rp = (ItemFailure f, rp1)"
  shows "\<exists>rp'. reply_drain ps rp = Some ([], rp') \<and> rp_parts rp' = rp_parts rp \<and> rp_end rp' = ReplyFailed f"
proof -
  have rp1: "rp_parts rp1 = rp_parts rp" "rp_end rp1 = ReplyFailed f" "st_state (rp_stream rp1) = StreamEnded"
    using assms
    by (auto simp: reply_next_def Let_def stream_next_def
        split: prod.splits item.splits option.splits stream_state.splits sum.splits bool.splits stop.splits if_splits)
  then have "reply_drain ps rp1 = Some ([], rp1\<lparr>rp_stream := rp_stream rp1\<rparr>)"
    by (subst reply_drain.simps) (simp add: reply_next_def stream_next_def)
  then show ?thesis using assms rp1 by (subst reply_drain.simps) simp
qed

lemma drain_tells:
  "st_state (rp_stream rp) = Streaming \<Longrightarrow> stream_told limits (rp_stream rp) evs \<Longrightarrow>
     rp_parts rp = said_parts evs \<Longrightarrow> rp_end rp = said_end evs \<Longrightarrow>
     \<exists>new rp'. reply_drain ps rp = Some (new, rp') \<and> reply_tells limits (evs @ new) rp'"
proof (induction ps rp arbitrary: evs rule: reply_drain.induct)
  case (1 ps rp)
  let ?st = "rp_stream rp"
  obtain y st1 where y: "fill ps ?st = (y, st1)" by fastforce
  note told = fill_told [OF "1.prems"(2) y] and state = fill_left_rel [OF y]
  have streaming: "stream_next ps ?st =
      (case fill ps ?st of
         (Inr True, st1) \<Rightarrow>
           (let index = st_next_event st1; d = reducer_draft (st_reducer st1); st2 = st1\<lparr>st_next_event := index + 1\<rparr>
            in if index < length (dd_events d)
               then (ItemEvent (pending_event d (dd_events d ! index)), st2\<lparr>st_info := (st_info st2)\<lparr>output_seen := True\<rparr>\<rparr>)
               else (ItemPanic, st2))
       | (Inr False, st1) \<Rightarrow> (ItemEnd, st1)
       | (Inl (StopFailure f), st1) \<Rightarrow> (ItemFailure f, st1\<lparr>st_state := StreamEnded\<rparr>)
       | (Inl StopWait, st1) \<Rightarrow> (ItemWait, st1)
       | (Inl StopPanic, st1) \<Rightarrow> (ItemPanic, st1))"
    using "1.prems"(1) by (simp add: stream_next_def)
  consider (event) "y = Inr True" | (over) "y = Inr False" | (failure) f where "y = Inl (StopFailure f)"
    | (wait) "y = Inl StopWait" | (panic) "y = Inl StopPanic"
    by (cases y; auto; metis stop.exhaust)
  then show ?case
  proof cases
    case event
    let ?d = "reducer_draft (st_reducer st1)" and ?n = "st_next_event st1"
    let ?ev = "pending_event ?d (dd_events ?d ! ?n)"
    let ?st2 = "st1\<lparr>st_next_event := ?n + 1, st_info := (st_info st1)\<lparr>output_seen := True\<rparr>\<rparr>"
    have n: "?n < length (dd_events ?d)" and told1: "stream_told limits st1 evs" using told event by (auto simp: Let_def)
    then have split: "coming st1 = ?ev # coming ?st2"
      by (simp add: coming_def Let_def Cons_nth_drop_Suc [symmetric])
    have told2: "stream_told limits ?st2 (evs @ [?ev])"
      using told1 n split by (auto simp: stream_told_def Let_def)
    have "\<exists>h. hear_all ([], False) (evs @ [?ev]) = Some h"
      using told2 by (auto simp: stream_told_def Let_def hear_all_append split: option.splits)
    then have "keep_all (evs @ [?ev]) ([], ReplyOpen) = Some (said_parts (evs @ [?ev]), said_end (evs @ [?ev]))"
      "keep_all evs ([], ReplyOpen) = Some (said_parts evs, said_end evs)"
      using keeps_what_is_said by (auto simp: hear_all_append split: option.splits)
    then have keep: "keep_event ?ev (said_parts evs, said_end evs) = Some (said_parts (evs @ [?ev]), said_end (evs @ [?ev]))"
      by (auto simp: keep_all_append split: option.splits)
    let ?rp = "rp\<lparr>rp_stream := ?st2, rp_parts := said_parts (evs @ [?ev]), rp_end := said_end (evs @ [?ev])\<rparr>"
    have step: "reply_next ps rp = (ItemEvent ?ev, ?rp)"
      using "1.prems"(3,4) streaming y event n keep by (simp add: reply_next_def Let_def)
    obtain new rp' where "reply_drain ps ?rp = Some (new, rp')" "reply_tells limits (evs @ [?ev] @ new) rp'"
      using "1.IH"(1) [OF step [symmetric] refl, of "evs @ [?ev]"] told2 state event "1.prems"(1) by auto
    then show ?thesis using step by (subst reply_drain.simps) auto
  next
    case over
    have end1: "stream_told limits st1 evs" "dd_done (reducer_draft (st_reducer st1))"
      "st_next_event st1 = length (dd_events (reducer_draft (st_reducer st1)))"
      using told over by (auto simp: Let_def)
    then have "reply_tells limits evs (rp\<lparr>rp_stream := st1\<rparr>)"
      using "1.prems"(3,4) by (auto simp: reply_tells_def stream_told_def Let_def coming_def told_def)
    then show ?thesis using streaming y over
      by (subst reply_drain.simps) (simp add: reply_next_def)
  next
    case failure
    have "reply_next ps rp = (ItemFailure f, rp\<lparr>rp_stream := st1\<lparr>st_state := StreamEnded\<rparr>, rp_end := ReplyFailed f\<rparr>)"
      using streaming y failure by (simp add: reply_next_def)
    then show ?thesis using drain_failed told failure "1.prems"(3) by (fastforce simp: reply_tells_def)
  next
    case wait
    have step: "reply_next ps rp = (ItemWait, rp\<lparr>rp_stream := st1\<rparr>)"
      using streaming y wait by (simp add: reply_next_def)
    then show ?thesis
      using "1.IH"(3) [OF step [symmetric] refl, of evs] told state wait "1.prems" by (subst reply_drain.simps) simp
  next
    case panic
    then show ?thesis using told by simp
  qed
qed

lemma open_tells:
  "\<exists>evs rp'. reply_drain ps (reply_open parse p og limits opened) = Some (evs, rp') \<and> reply_tells limits evs rp'"
proof (cases "st_state (stream_open parse p og limits opened)")
  case Streaming
  then show ?thesis
    using drain_tells [of "reply_open parse p og limits opened" limits "[]" ps] stream_told_new
    by (simp add: reply_open_def said_parts_def started_kinds_def said_end_def said_done_def)
next
  case (StreamFailed f)
  then have "reply_next ps (reply_open parse p og limits opened) =
      (ItemFailure f, (reply_open parse p og limits opened)\<lparr>rp_stream := (stream_open parse p og limits opened)\<lparr>st_state := StreamEnded\<rparr>,
        rp_end := ReplyFailed f\<rparr>)"
    by (simp add: reply_next_def stream_next_def reply_open_def)
  from drain_failed [OF this] show ?thesis
    by (fastforce simp: reply_tells_def reply_open_def said_parts_def started_kinds_def)
next
  case StreamEnded
  then show ?thesis by (auto simp: stream_open_def Let_def split: sum.splits prod.splits if_splits)
qed

text \<open>The completion that a list of events says.\<close>

definition said_completion :: "event list \<Rightarrow> completion" where
  "said_completion evs = (done_completion (hd (said_done evs)))\<lparr>comp_content := complete_parts (said_parts evs)\<rparr>"

text \<open>
  C30: An attempt never panics and tells one answer. Whatever the transport gives (a fault, any status, any chunks,
  faults and waits at any point) and whatever the payloads hold, the events of the reply are in order: dense block
  ids, deltas and stops of open blocks of their kind only, nothing after the end. \<open>finish\<close> returns a response
  exactly when the end was told, and then its content is what the events said, read as a whole: each stopped block
  in start order with the joined text of its deltas. Otherwise it returns the failure with what was said until then.
\<close>

theorem reply_tells_the_answer:
  "\<exists>evs h rp'. reply_drain ps (reply_open parse p og limits opened) = Some (evs, rp') \<and>
     hear_all ([], False) evs = Some h \<and>
     (case reply_finish ps (reply_open parse p og limits opened) of
        None \<Rightarrow> False
      | Some (Inr r) \<Rightarrow> snd h \<and> resp_completion r = said_completion evs
      | Some (Inl e) \<Rightarrow> \<not> snd h \<and> ae_partial e = map pb_content (partial_parts (said_parts evs)))"
proof -
  obtain evs rp' where drain: "reply_drain ps (reply_open parse p og limits opened) = Some (evs, rp')"
    and tells: "reply_tells limits evs rp'"
    using open_tells by blast
  then obtain h where h: "hear_all ([], False) evs = Some h" by (auto simp: reply_tells_def)
  have "said_done evs \<noteq> []" if "snd h" using keeps_what_is_said [OF h] that by (auto simp: heard_says_def)
  then show ?thesis using drain tells h
    by (cases h) (auto simp: reply_finish_def reply_tells_def said_completion_def said_end_def split: list.splits if_splits)
qed

section \<open>Races\<close>

definition calm_reply :: "reply \<Rightarrow> reply" where
  "calm_reply rp = rp\<lparr>rp_stream := calm (rp_stream rp)\<rparr>"

lemma calm_reply_fields [simp]:
  "rp_stream (calm_reply rp) = calm (rp_stream rp)" "rp_parts (calm_reply rp) = rp_parts rp"
  "rp_end (calm_reply rp) = rp_end rp"
  by (simp_all add: calm_reply_def)

lemma reply_next_calm:
  assumes "reply_next ps rp = (x, rp')"
  shows "reply_next ps (calm_reply rp) = (if x = ItemWait then reply_next ps (calm_reply rp') else (x, calm_reply rp'))"
proof -
  obtain y st where y: "stream_next ps (rp_stream rp) = (y, st)" by fastforce
  note calm = stream_next_calm [OF y]
  show ?thesis
  proof (cases "y = ItemWait")
    case True
    then have "x = ItemWait" "rp' = rp\<lparr>rp_stream := st\<rparr>" using assms y by (simp_all add: reply_next_def)
    then show ?thesis using calm True by (simp add: reply_next_def Let_def calm_reply_def split: prod.split item.split)
  next
    case False
    then show ?thesis using assms y calm
      by (auto simp: reply_next_def Let_def calm_reply_def split: item.splits option.splits)
  qed
qed

lemma drain_calm: "reply_drain ps (calm_reply rp) = map_option (map_prod id calm_reply) (reply_drain ps rp)"
proof (induction ps rp rule: reply_drain.induct)
  case (1 ps rp)
  obtain x rp1 where x: "reply_next ps rp = (x, rp1)" by fastforce
  note calm = reply_next_calm [OF x]
  show ?case
  proof (cases x)
    case (ItemEvent ev)
    then show ?thesis using "1.IH"(1) [OF x [symmetric] ItemEvent] x calm
      by (subst (1 2) reply_drain.simps) (simp add: option.map_comp comp_def case_prod_beta map_prod_def)
  next
    case (ItemFailure f)
    then show ?thesis using "1.IH"(2) [OF x [symmetric] ItemFailure] x calm by (subst (1 2) reply_drain.simps) (simp add: id_def)
  next
    case ItemWait
    then have "reply_drain ps (calm_reply rp) = reply_drain ps (calm_reply rp1)"
      using calm by (subst (1 2) reply_drain.simps) simp
    then show ?thesis using "1.IH"(3) [OF x [symmetric] ItemWait] x ItemWait
      by (subst (2) reply_drain.simps) (simp add: id_def)
  qed (use x calm in \<open>subst (1 2) reply_drain.simps, simp\<close>)+
qed

abbreviation without_waits :: "body_read list \<Rightarrow> body_read list" where
  "without_waits \<equiv> filter (\<lambda>x. x \<noteq> BodyWait)"

lemma read_error_body_calm:
  "read_error_body mx bytes (without_waits body) = map_prod id without_waits (read_error_body mx bytes body)"
proof (induction mx bytes body rule: read_error_body.induct)
  case (2 mx bytes x xs)
  then show ?case by (cases x; cases "without_waits xs") auto
qed simp

lemma open_calm:
  "reply_open parse p og limits (map_sum id (map_prod id without_waits) opened) =
     calm_reply (reply_open parse p og limits opened)"
  by (simp add: reply_open_def stream_open_def Let_def calm_reply_def read_error_body_calm calm_def
      split: sum.split prod.split)

text \<open>
  C31: A read that a race cuts off loses nothing: the future of \<open>next\<close> may drop while it waits for the body, any
  number of times and at any point, also in the middle of a payload or of a line, and the attempt still hands out
  the same events and ends with the same response or error as one that was never interrupted.
\<close>

theorem races_lose_nothing:
  "map_option fst (reply_drain ps (reply_open parse p og limits opened)) =
     map_option fst (reply_drain ps (reply_open parse p og limits (map_sum id (map_prod id without_waits) opened))) \<and>
   reply_finish ps (reply_open parse p og limits opened) =
     reply_finish ps (reply_open parse p og limits (map_sum id (map_prod id without_waits) opened))"
  unfolding open_calm
  by (cases "reply_drain ps (reply_open parse p og limits opened)")
    (auto simp: drain_calm reply_finish_def split: reply_end.split)

section \<open>The limits\<close>

lemma said_stop_in: "block_stop evs i = r # rs \<Longrightarrow> BlockStopped i r \<in> set evs"
  by (induction evs) (auto simp: block_stop_def split: event.splits if_splits)

lemma said_done_in: "d \<in> set (said_done evs) \<Longrightarrow> EvDone d \<in> set evs"
  by (induction evs) (auto simp: said_done_def split: event.splits)

lemma tool_calls_in: "call \<in> set (tool_calls c) \<Longrightarrow> ContentToolCall call \<in> set (comp_content c)"
proof -
  assume "call \<in> set (tool_calls c)"
  then obtain x where "x \<in> set (comp_content c)" "(case x of ContentToolCall t \<Rightarrow> Some t | _ \<Rightarrow> None) = Some call"
    by (auto simp: tool_calls_def set_filter_map)
  moreover from this(2) have "x = ContentToolCall call" by (cases x) auto
  ultimately show ?thesis by simp
qed

lemma stopped_kinds:
  "ContentToolCall c = stopped_content (block_result_of og b) t \<Longrightarrow>
     db_kind b = KToolCall \<and> call_arguments c = (if db_bytes b = [] then ''{}'' else db_bytes b)"
  "ContentRefusal u = stopped_content (block_result_of og b) t \<Longrightarrow> db_kind b = KRefusal"
  by (cases "db_kind b"; auto simp: stopped_content_def block_result_of_def)+

lemma said_content_from:
  assumes "c \<in> set (complete_parts (said_parts evs))"
  obtains i r where "BlockStopped i r \<in> set evs" "c = stopped_content r (block_text evs i)"
proof -
  from assms obtain i where "part_content (said_part evs i) = Some c"
    by (auto simp: complete_parts_def said_parts_def set_filter_map)
  then obtain r rs where "block_stop evs i = r # rs" "c = stopped_content r (block_text evs i)"
    by (auto simp: said_part_def split: list.splits)
  then show ?thesis using that said_stop_in by blast
qed

text \<open>
  C32: A response keeps its limits: it has at most \<open>max_blocks\<close> blocks, the arguments of each of its tool calls
  are at most \<open>max_tool_arg_bytes\<close> long (or the \<open>{}\<close> of a call without any), and a response that holds a
  refusal never ends as \<open>stop\<close> or \<open>tool_calls\<close>, so no caller takes it for an answer.
\<close>

theorem response_keeps_limits:
  "case reply_finish ps (reply_open parse p og limits opened) of
     Some (Inr r) \<Rightarrow>
       (let c = resp_completion r in
        length (comp_content c) \<le> max_blocks limits \<and>
        list_all (\<lambda>call. length (call_arguments call) \<le> max 2 (max_tool_arg_bytes limits)) (tool_calls c) \<and>
        \<not> (comp_finish_reason c \<in> {FinStop, FinToolCalls} \<and> list_ex (\<lambda>x. \<exists>t. x = ContentRefusal t) (comp_content c)))
   | _ \<Rightarrow> True"
proof -
  obtain evs rp' where drain: "reply_drain ps (reply_open parse p og limits opened) = Some (evs, rp')"
    and tells: "reply_tells limits evs rp'"
    using open_tells by blast
  show ?thesis
  proof (cases "rp_end rp'")
    case (ReplyDone c)
    then obtain h d where h: "hear_all ([], False) evs = Some h" "snd h" "rp_end rp' = said_end evs"
      and parts: "rp_parts rp' = said_parts evs"
      and d: "\<forall>x\<in>set evs. true_to d x" "draft_ok d" "dd_limits d = limits" "fst h = fst (told d)"
      using tells by (auto simp: reply_tells_def split: if_splits)
    have "length (complete_parts (said_parts evs)) \<le> length (said_parts evs)"
      using length_filter_map_le unfolding complete_parts_def .
    also have "\<dots> = length (dd_blocks d)"
      using keeps_what_is_said [OF h(1)] d(4) by (auto simp: heard_says_def told_def dest: arg_cong [where f = length])
    also have "\<dots> \<le> max_blocks limits" using d(2,3) by (auto simp: draft_ok_def)
    finally have blocks: "length (complete_parts (said_parts evs)) \<le> max_blocks limits" .
    have content: "\<exists>i<length (dd_blocks d). db_state (dd_blocks d ! i) = BlockStopped' \<and>
        (\<exists>t. x = stopped_content (block_result_of (dd_origin d) (dd_blocks d ! i)) t)"
      if "x \<in> set (complete_parts (said_parts evs))" for x
      using that d(1) by (elim said_content_from) (fastforce simp: true_to_def)
    have calls: "length (call_arguments call) \<le> max 2 (max_tool_arg_bytes limits)"
      if "ContentToolCall call \<in> set (complete_parts (said_parts evs))" for call
    proof -
      note here = content [OF that]
      obtain i where "i < length (dd_blocks d)" "db_kind (dd_blocks d ! i) = KToolCall"
        "call_arguments call = (if db_bytes (dd_blocks d ! i) = [] then ''{}'' else db_bytes (dd_blocks d ! i))"
        using here stopped_kinds(1) by blast
      then show ?thesis using d(2,3) by (force simp: draft_ok_def)
    qed
    obtain e es where "said_done evs = e # es" and c: "c = done_completion e"
      using ReplyDone h(3) by (auto simp: said_end_def split: list.splits)
    then have "EvDone e \<in> set evs" using said_done_in by simp
    then have over: "comp_finish_reason c = dd_finish_reason d" "dd_done d"
      using d(1) c by (auto simp: true_to_def done_completion_def)
    have refusal: "\<not> (comp_finish_reason c \<in> {FinStop, FinToolCalls} \<and> ContentRefusal t \<in> set (complete_parts (said_parts evs)))" for t
    proof
      assume a: "comp_finish_reason c \<in> {FinStop, FinToolCalls} \<and> ContentRefusal t \<in> set (complete_parts (said_parts evs))"
      then obtain i where "i < length (dd_blocks d)" "db_kind (dd_blocks d ! i) = KRefusal"
        "db_state (dd_blocks d ! i) = BlockStopped'"
        using content stopped_kinds(2) by blast
      then show False using d(2) a over
        by (auto simp: draft_ok_def)
    qed
    show ?thesis using drain ReplyDone parts blocks calls refusal
      by (auto simp: reply_finish_def Let_def list_all_iff list_ex_iff dest!: tool_calls_in)
  qed (use drain in \<open>simp_all add: reply_finish_def\<close>)
qed

end
