(* ===== verification/Wire.thy ===== *)
theory Wire
  imports Json_Writer Base64 Tool Failures
begin

text \<open>
  What the three request serializers share: the writers of \<open>crates/ai/src/wire/json.rs\<close> that only they use,
  the errors of \<open>crates/ai/src/encoder.rs\<close>, the blob reads of \<open>crates/ai/src/request.rs\<close>, and two questions
  of \<open>crates/ai/src/wire.rs\<close>.

  A serializer is a list of steps on a writer. A step that can fail returns the error beside the writer, which
  then holds what the step wrote before it failed, as the buffer of the source does. Three notions carry the
  proofs of the serializers: a step only appends (\<open>forward\<close>), it writes an element (\<open>grows\<close>), and it writes
  the same with a blob store that knows more (\<open>within\<close>).
\<close>

section \<open>Errors\<close>

datatype unsupported = DeferredTool | UnsupportedMedia modality | UnnamedDocument | AudioFormat

fun modality_text :: "modality \<Rightarrow> string" where
  "modality_text ModText = ''text''"
| "modality_text ModImage = ''image''"
| "modality_text ModAudio = ''audio''"
| "modality_text ModVideo = ''video''"
| "modality_text ModPdf = ''PDF''"
| "modality_text ModOther = ''other''"

fun unsupported_text :: "unsupported \<Rightarrow> string" where
  "unsupported_text DeferredTool =
     ''the request defers a tool, and the target or its protocol has no native tool search''"
| "unsupported_text (UnsupportedMedia m) = ''the protocol carries no '' @ modality_text m @ '' media''"
| "unsupported_text UnnamedDocument = ''the protocol needs a file name for each document''"
| "unsupported_text AudioFormat = ''the protocol takes only WAV and MP3 audio''"

datatype encode_error =
    Unsupported unsupported
  | UnresolvedBlob digest
  | BlobRead digest dyn_error
  | CredentialMismatch
  | InvalidHeader string
  | InvalidSampling

text \<open>The text of an error. How \<open>Debug\<close> prints a rejected header name is a parameter.\<close>

fun encode_error_text :: "(string \<Rightarrow> string) \<Rightarrow> encode_error \<Rightarrow> string" where
  "encode_error_text debug (Unsupported u) = unsupported_text u"
| "encode_error_text debug (UnresolvedBlob d) = ''the caller could not resolve the attachment blob '' @ hex d"
| "encode_error_text debug (BlobRead d e) = ''the blob store failed to read the attachment blob '' @ hex d"
| "encode_error_text debug CredentialMismatch = ''the credential does not match the route''"
| "encode_error_text debug (InvalidHeader n) = ''the request header '' @ debug n @ '' is invalid''"
| "encode_error_text debug InvalidSampling = ''the sampling values must be finite numbers''"

definition encode_error_source :: "encode_error \<Rightarrow> dyn_error option" where
  "encode_error_source e = (case e of BlobRead _ s \<Rightarrow> Some s | _ \<Rightarrow> None)"

section \<open>Blobs\<close>

definition read_blob :: "blob_store option \<Rightarrow> blob \<Rightarrow> encode_error + u8 list" where
  "read_blob store b =
     (let d = blob_digest b;
          read = (case store of None \<Rightarrow> Inr None
                  | Some s \<Rightarrow> (case s d of Inl e \<Rightarrow> Inl (BlobRead d e) | Inr x \<Rightarrow> Inr x))
      in bind_ok read (\<lambda>bytes.
           case bytes of
             Some x \<Rightarrow> if length x = blob_len b then Inr x else Inl (UnresolvedBlob d)
           | None \<Rightarrow> Inl (UnresolvedBlob d)))"

text \<open>What a store answers, with its failures as missing bytes.\<close>

definition blob_answers :: "blob_store option \<Rightarrow> digest \<rightharpoonup> u8 list" where
  "blob_answers store d =
     (case store of None \<Rightarrow> None | Some s \<Rightarrow> (case s d of Inr (Some x) \<Rightarrow> Some x | _ \<Rightarrow> None))"

lemma read_blob_answers: "read_blob store b = Inr x \<longleftrightarrow> blob_answers store (blob_digest b) = Some x \<and> length x = blob_len b"
  by (auto simp: read_blob_def blob_answers_def split: option.splits sum.splits if_splits)

lemma read_blob_within:
  "blob_answers s \<subseteq>\<^sub>m blob_answers s' \<Longrightarrow> read_blob s b = Inr x \<Longrightarrow> read_blob s' b = Inr x"
  by (auto simp: read_blob_answers map_le_def dom_def)

section \<open>Steps of a writer\<close>

definition steps :: "(json_writer \<Rightarrow> json_writer) list \<Rightarrow> json_writer \<Rightarrow> json_writer" where
  "steps fs w = fold (\<lambda>f. f) fs w"

type_synonym 'a writing = "json_writer \<Rightarrow> (encode_error + 'a) \<times> json_writer"

definition does :: "(json_writer \<Rightarrow> json_writer) \<Rightarrow> unit writing" where
  "does f w = (Inr (), f w)"

definition fails :: "encode_error \<Rightarrow> 'a writing" where
  "fails e w = (Inl e, w)"

text \<open>The steps of a list, up to the first that fails (the operator \<open>?\<close>).\<close>

fun try_all :: "unit writing list \<Rightarrow> unit writing" where
  "try_all [] w = (Inr (), w)"
| "try_all (p # ps) w = (case p w of (Inl e, w') \<Rightarrow> (Inl e, w') | (Inr _, w') \<Rightarrow> try_all ps w')"

text \<open>A value that a step needs: \<open>let x = r?\<close>.\<close>

definition with_ok :: "encode_error + 'b \<Rightarrow> ('b \<Rightarrow> 'a writing) \<Rightarrow> 'a writing" where
  "with_ok r k = (case r of Inl e \<Rightarrow> fails e | Inr x \<Rightarrow> k x)"

text \<open>\<open>p?; Ok(x)\<close>.\<close>

definition giving :: "unit writing \<Rightarrow> 'a \<Rightarrow> 'a writing" where
  "giving p x w = (case p w of (Inl e, w') \<Rightarrow> (Inl e, w') | (Inr _, w') \<Rightarrow> (Inr x, w'))"

section \<open>More writers\<close>

definition jw_string_parts :: "string list \<Rightarrow> json_writer \<Rightarrow> json_writer" where
  "jw_string_parts parts =
     steps ([value_start, jw_push [CHR 0x22]] @ map jw_escape parts @ [jw_push [CHR 0x22], value_done])"

definition jw_tool_text :: "string \<Rightarrow> bool \<Rightarrow> json_writer \<Rightarrow> json_writer" where
  "jw_tool_text t is_error = jw_string_parts [if is_error then ''Error: '' else [], t]"

definition jw_base64 :: "string option \<Rightarrow> u8 list \<Rightarrow> json_writer \<Rightarrow> json_writer" where
  "jw_base64 mime data =
     steps ([value_start, jw_push [CHR 0x22]] @
            (case mime of None \<Rightarrow> [] | Some m \<Rightarrow> [jw_push ''data:'', jw_escape m, jw_push '';base64,'']) @
            [\<lambda>w. w\<lparr>jw_out := encode_base64_into (jw_out w) data\<rparr>, jw_push [CHR 0x22], value_done])"

definition field_float_opt :: "(f64 \<Rightarrow> string) \<Rightarrow> string \<Rightarrow> f64 option \<Rightarrow> json_writer \<Rightarrow> json_writer" where
  "field_float_opt fl name v = steps (case v of Some x \<Rightarrow> [jw_key name, jw_float fl x] | None \<Rightarrow> [])"

text \<open>The arguments of a call: the text itself when it starts with a brace after white space and serde_json
  accepts it, which is a parameter.\<close>

definition starts_object :: "string \<Rightarrow> bool" where
  "starts_object t =
     (case chars_of t of
        None \<Rightarrow> False
      | Some cs \<Rightarrow> (case dropWhile is_whitespace cs of c # _ \<Rightarrow> c = 123 | [] \<Rightarrow> False))"

definition arguments_object :: "(string \<Rightarrow> bool) \<Rightarrow> string \<Rightarrow> string" where
  "arguments_object is_json t = (if starts_object t \<and> is_json t then t else ''{}'')"

text \<open>\<open>String::from_utf8_lossy\<close>: U+FFFD for each maximal invalid part.\<close>

definition from_utf8_lossy :: "u8 list \<Rightarrow> string" where
  "from_utf8_lossy data =
     text_of (utf8_encode (map (\<lambda>i. case i of Scalar c \<Rightarrow> c | InvalidPart _ \<Rightarrow> 65533) (utf8_items (map unat data))))"

section \<open>What a request writes\<close>

definition writes :: "target \<Rightarrow> block \<Rightarrow> bool" where
  "writes t b = (case b of Reasoning r \<Rightarrow> replay_to r t \<noteq> None | _ \<Rightarrow> True)"

definition defers_tools :: "tool_definition list \<Rightarrow> bool" where
  "defers_tools tools = list_ex def_defer_loading tools"

text \<open>The end of the run of blocks from \<open>start\<close> that a predicate does not stop:
  \<open>blocks[start..].iter().position(stop).map_or(blocks.len(), |len| start + len)\<close>.\<close>

definition run_end :: "(block \<Rightarrow> bool) \<Rightarrow> block list \<Rightarrow> nat \<Rightarrow> nat" where
  "run_end stop blocks start =
     (case position stop (drop start blocks) of None \<Rightarrow> length blocks | Some n \<Rightarrow> start + n)"

text \<open>The blocks of a range, with their indices in the context.\<close>

definition indexed :: "block list \<Rightarrow> nat \<Rightarrow> nat \<Rightarrow> (nat \<times> block) list" where
  "indexed blocks start end = drop start (take end (List.enumerate 0 blocks))"

definition range_of :: "block list \<Rightarrow> nat \<Rightarrow> nat \<Rightarrow> block list" where
  "range_of blocks start end = drop start (take end blocks)"

fun role_as_str :: "role \<Rightarrow> string" where
  "role_as_str User = ''user''"
| "role_as_str Assistant = ''assistant''"

section \<open>A step only appends\<close>

text \<open>What a step writes depends on the comma flag alone, and it keeps what the buffer holds.\<close>

definition forward1 :: "(json_writer \<Rightarrow> json_writer) \<Rightarrow> bool" where
  "forward1 f = (\<forall>c. \<exists>t d. \<forall>out. f \<lparr>jw_out = out, jw_comma = c\<rparr> = \<lparr>jw_out = out @ t, jw_comma = d\<rparr>)"

definition forward :: "'a writing \<Rightarrow> bool" where
  "forward p = (\<forall>c. \<exists>r t d. \<forall>out. p \<lparr>jw_out = out, jw_comma = c\<rparr> = (r, \<lparr>jw_out = out @ t, jw_comma = d\<rparr>))"

named_theorems forward_simps \<open>steps that only append\<close>

lemma forward1_primitive [forward_simps]:
  "forward1 value_start" "forward1 value_done" "forward1 (jw_push t)" "forward1 (jw_escape t)"
  "forward1 begin_object" "forward1 end_object" "forward1 begin_array" "forward1 end_array"
  "forward1 (jw_key n)" "forward1 (jw_string t)" "forward1 (jw_uint u)" "forward1 (jw_int i)" "forward1 jw_null"
  "forward1 (jw_boolean b)" "forward1 (jw_float fl x)" "forward1 (jw_raw t)"
  "forward1 (field_str n t)" "forward1 (field_uint n u)" "forward1 (field_bool n b)" "forward1 (field_raw n t)"
  "forward1 (\<lambda>w. w\<lparr>jw_out := encode_base64_into (jw_out w) data\<rparr>)"
  by (simp_all add: forward1_def writer_defs field_str_def field_uint_def field_bool_def field_raw_def
      encode_base64_into_def all_bool_eq ex_bool_eq)

lemma steps_simps [simp]: "steps [] w = w" "steps (f # fs) w = steps fs (f w)" "steps (fs @ gs) w = steps gs (steps fs w)"
  by (simp_all add: steps_def)

lemma forward1_out: "forward1 f \<Longrightarrow> \<exists>t. jw_out (f w) = jw_out w @ t"
proof -
  assume "forward1 f"
  then obtain t d where "\<forall>out. f \<lparr>jw_out = out, jw_comma = jw_comma w\<rparr> = \<lparr>jw_out = out @ t, jw_comma = d\<rparr>"
    unfolding forward1_def by blast
  then show ?thesis by (cases w) simp
qed

lemma forward1_comp: "forward1 f \<Longrightarrow> forward1 g \<Longrightarrow> forward1 (\<lambda>w. g (f w))"
  unfolding forward1_def by (metis append.assoc)

lemma forward1_steps [forward_simps]: "\<forall>f\<in>set fs. forward1 f \<Longrightarrow> forward1 (steps fs)"
proof (induction fs)
  case Nil
  then show ?case by (auto simp: forward1_def)
next
  case (Cons f fs)
  then have "forward1 f" "forward1 (steps fs)" by simp_all
  then have "forward1 (\<lambda>w. steps fs (f w))" by (rule forward1_comp)
  then show ?case unfolding forward1_def steps_simps .
qed

lemma forward_does [forward_simps]: "forward1 f \<Longrightarrow> forward (does f)"
  unfolding forward_def forward1_def does_def by (metis (no_types))

lemma forward_fails [forward_simps]: "forward (fails e)"
  by (simp add: forward_def fails_def)

lemma forward_with_ok [forward_simps]: "(\<And>x. r = Inr x \<Longrightarrow> forward (k x)) \<Longrightarrow> forward (with_ok r k)"
  by (cases r) (simp_all add: with_ok_def forward_fails)

lemma forward_appends: "forward p \<Longrightarrow> p w = (r, w') \<Longrightarrow> \<exists>t. jw_out w' = jw_out w @ t"
  by (cases w) (metis Pair_inject forward_def json_writer.select_convs(1))

lemma forward_bind:
  assumes p: "forward p" and q: "\<And>x. forward (q x)"
  shows "forward (\<lambda>w. case p w of (Inl e, w') \<Rightarrow> (Inl e, w') | (Inr x, w') \<Rightarrow> q x w')"
  unfolding forward_def
proof
  fix c
  obtain r t d where e: "\<forall>out. p \<lparr>jw_out = out, jw_comma = c\<rparr> = (r, \<lparr>jw_out = out @ t, jw_comma = d\<rparr>)"
    using p unfolding forward_def by blast
  show "\<exists>r t d. \<forall>out. (case p \<lparr>jw_out = out, jw_comma = c\<rparr> of (Inl e, w') \<Rightarrow> (Inl e, w') | (Inr x, w') \<Rightarrow> q x w') =
     (r, \<lparr>jw_out = out @ t, jw_comma = d\<rparr>)"
  proof (cases r)
    case (Inl b)
    then show ?thesis using e by auto
  next
    case (Inr x)
    obtain r' t' d' where "\<forall>out. q x \<lparr>jw_out = out, jw_comma = d\<rparr> = (r', \<lparr>jw_out = out @ t', jw_comma = d'\<rparr>)"
      using q unfolding forward_def by blast
    then show ?thesis using e Inr by auto
  qed
qed

lemma forward_try_all [forward_simps]: "\<forall>p\<in>set ps. forward p \<Longrightarrow> forward (try_all ps)"
proof (induction ps)
  case Nil
  then show ?case by (auto simp: forward_def)
next
  case (Cons p ps)
  then have "forward (\<lambda>w. case p w of (Inl e, w') \<Rightarrow> (Inl e, w') | (Inr x, w') \<Rightarrow> try_all ps w')"
    by (intro forward_bind) auto
  then show ?case unfolding forward_def try_all.simps .
qed

lemma forward_giving [forward_simps]: "forward p \<Longrightarrow> forward (giving p x)"
proof -
  assume "forward p"
  then have "forward (\<lambda>w. case p w of (Inl e, w') \<Rightarrow> (Inl e, w') | (Inr _, w') \<Rightarrow> (Inr x, w'))"
    by (rule forward_bind) (simp add: forward_def)
  then show ?thesis unfolding forward_def giving_def .
qed

lemma forward_more [forward_simps]:
  "forward1 (jw_string_parts parts)" "forward1 (jw_tool_text t b)" "forward1 (jw_base64 mime data)"
  "forward1 (field_float_opt fl n v)"
  by (auto simp: jw_string_parts_def jw_tool_text_def jw_base64_def field_float_opt_def
      intro!: forward1_steps forward1_primitive split: option.split)

section \<open>A step writes an element\<close>

definition grows1 :: "(json_writer \<Rightarrow> json_writer) \<Rightarrow> bool" where
  "grows1 f = (\<forall>w. jw_comma (f w) \<and> (\<exists>t. t \<noteq> [] \<and> jw_out (f w) = jw_out w @ t))"

definition grows :: "'a writing \<Rightarrow> bool" where
  "grows p = (\<forall>w x w'. p w = (Inr x, w') \<longrightarrow> jw_comma w' \<and> (\<exists>t. t \<noteq> [] \<and> jw_out w' = jw_out w @ t))"

named_theorems grows_simps \<open>steps that write an element\<close>

lemma grows1_end_object [grows_simps]: "grows1 end_object"
  by (simp add: grows1_def writer_defs)

lemma grows1_steps [grows_simps]:
  "\<forall>f\<in>set fs. forward1 f \<Longrightarrow> fs \<noteq> [] \<Longrightarrow> grows1 (last fs) \<Longrightarrow> grows1 (steps fs)"
proof -
  assume a: "\<forall>f\<in>set fs. forward1 f" "fs \<noteq> []" "grows1 (last fs)"
  obtain gs g where fs: "fs = gs @ [g]" using a(2) by (metis append_butlast_last_id)
  have g: "grows1 g" using a(3) fs by simp
  have gs: "forward1 (steps gs)" using a(1) fs by (intro forward1_steps) simp
  show ?thesis unfolding grows1_def fs
  proof
    fix w
    obtain t where "jw_out (steps gs w) = jw_out w @ t" using forward1_out [OF gs] by blast
    moreover obtain t' where "jw_comma (g (steps gs w))" "t' \<noteq> []" "jw_out (g (steps gs w)) = jw_out (steps gs w) @ t'"
      using g unfolding grows1_def by blast
    ultimately show "jw_comma (steps (gs @ [g]) w) \<and> (\<exists>t. t \<noteq> [] \<and> jw_out (steps (gs @ [g]) w) = jw_out w @ t)"
      by (intro conjI exI [of _ "t @ t'"]) (simp_all only: steps_simps append.assoc append_is_Nil_conv simp_thms)
  qed
qed

lemma grows_does [grows_simps]: "grows1 f \<Longrightarrow> grows (does f)"
  by (simp add: grows_def grows1_def does_def)

lemma grows_giving: "grows p \<Longrightarrow> grows (giving p x)"
  by (auto simp: grows_def giving_def split: prod.splits sum.splits)

lemma try_all_append: "try_all (ps @ qs) w = (case try_all ps w of (Inl e, w') \<Rightarrow> (Inl e, w') | (Inr _, w') \<Rightarrow> try_all qs w')"
  by (induction ps arbitrary: w) (auto split: prod.splits sum.splits)

lemma grows_try_all [grows_simps]:
  "\<forall>p\<in>set ps. forward p \<Longrightarrow> ps \<noteq> [] \<Longrightarrow> grows (last ps) \<Longrightarrow> grows (try_all ps)"
proof -
  assume a: "\<forall>p\<in>set ps. forward p" "ps \<noteq> []" "grows (last ps)"
  obtain qs q where ps: "ps = qs @ [q]" using a(2) by (metis append_butlast_last_id)
  have q: "grows q" using a(3) ps by simp
  have qs: "forward (try_all qs)" using a(1) ps by (intro forward_try_all) simp
  show ?thesis unfolding grows_def ps
  proof (intro allI impI)
    fix w x w'
    assume "try_all (qs @ [q]) w = (Inr x, w')"
    then obtain w1 where w1: "try_all qs w = (Inr (), w1)" and w': "q w1 = (Inr x, w')"
      by (auto simp: try_all_append split: prod.splits sum.splits)
    obtain t where "jw_out w1 = jw_out w @ t" using forward_appends [OF qs w1] by blast
    then show "jw_comma w' \<and> (\<exists>t. t \<noteq> [] \<and> jw_out w' = jw_out w @ t)"
      using q w' by (force simp: grows_def)
  qed
qed

lemma grows_try_all_map:
  "xs \<noteq> [] \<Longrightarrow> (\<And>x. x \<in> set xs \<Longrightarrow> forward (f x)) \<Longrightarrow> (\<And>x. x \<in> set xs \<Longrightarrow> grows (f x)) \<Longrightarrow> grows (try_all (map f xs))"
  by (rule grows_try_all) (auto simp: last_map)

text \<open>A step writes an element or leaves the writer alone.\<close>

definition elements :: "'a writing \<Rightarrow> bool" where
  "elements p = (\<forall>w x w'. p w = (Inr x, w') \<longrightarrow> w' = w \<or> (jw_comma w' \<and> (\<exists>t. t \<noteq> [] \<and> jw_out w' = jw_out w @ t)))"

lemma giving_Inr [simp]: "giving p n w = (Inr e, w') \<longleftrightarrow> e = n \<and> p w = (Inr (), w')"
  by (auto simp: giving_def split: prod.splits sum.splits)

named_theorems elements_intros \<open>steps that write elements\<close>

lemma elements_grows: "grows p \<Longrightarrow> elements p"
  by (auto simp: grows_def elements_def)

lemma elements_nothing [elements_intros]: "elements (try_all [])"
  by (simp add: elements_def)

lemma elements_giving [elements_intros]: "elements p \<Longrightarrow> elements (giving p n)"
  by (simp add: elements_def)

lemma elements_map [elements_intros]:
  "(\<And>x. x \<in> set xs \<Longrightarrow> forward (f x)) \<Longrightarrow> (\<And>x. x \<in> set xs \<Longrightarrow> grows (f x)) \<Longrightarrow> elements (try_all (map f xs))"
  by (cases "xs = []") (auto intro!: elements_nothing intro: elements_grows grows_try_all_map)

section \<open>A step with a store that knows more\<close>

definition within :: "'a writing \<Rightarrow> 'a writing \<Rightarrow> bool" where
  "within p q = (\<forall>w x w'. p w = (Inr x, w') \<longrightarrow> q w = (Inr x, w'))"

named_theorems within_intros \<open>steps with a store that knows more\<close>

lemma within_refl [within_intros]: "within p p"
  by (simp add: within_def)

lemma within_with_ok [within_intros]:
  "(\<And>x. r = Inr x \<Longrightarrow> r' = Inr x) \<Longrightarrow> (\<And>x. within (k x) (k' x)) \<Longrightarrow> within (with_ok r k) (with_ok r' k')"
  by (cases r) (simp_all add: with_ok_def fails_def within_def)

lemma within_try_all_Nil [within_intros]: "within (try_all []) (try_all [])"
  by (simp add: within_def)

lemma within_try_all_Cons [within_intros]:
  "within p q \<Longrightarrow> within (try_all ps) (try_all qs) \<Longrightarrow> within (try_all (p # ps)) (try_all (q # qs))"
  by (auto simp: within_def split: prod.splits sum.splits)

lemma within_try_all_append [within_intros]:
  "within (try_all ps) (try_all qs) \<Longrightarrow> within (try_all ps') (try_all qs') \<Longrightarrow> within (try_all (ps @ ps')) (try_all (qs @ qs'))"
  by (auto simp: within_def try_all_append split: prod.splits sum.splits)

lemma within_try_all_map [within_intros]:
  "(\<And>x. x \<in> set xs \<Longrightarrow> within (f x) (g x)) \<Longrightarrow> within (try_all (map f xs)) (try_all (map g xs))"
  by (induction xs) (auto intro!: within_intros)

lemma within_try_all_concat [within_intros]:
  "(\<And>x. x \<in> set xs \<Longrightarrow> within (try_all (f x)) (try_all (g x))) \<Longrightarrow>
     within (try_all (concat (map f xs))) (try_all (concat (map g xs)))"
  by (induction xs) (auto intro!: within_intros)

lemma within_giving [within_intros]: "within p q \<Longrightarrow> within (giving p x) (giving q x)"
  by (auto simp: within_def giving_def split: prod.splits sum.splits)

section \<open>Requests that start alike\<close>

text \<open>Two requests with their cache markers agree on their first \<open>m\<close> blocks.\<close>

definition same_start :: "nat \<Rightarrow> block list \<Rightarrow> nat option \<Rightarrow> block list \<Rightarrow> nat option \<Rightarrow> bool" where
  "same_start m bs mk bs' mk' \<longleftrightarrow>
     m \<le> length bs \<and> m \<le> length bs' \<and> take m bs = take m bs' \<and> (\<forall>i<m. (mk = Some i) = (mk' = Some i))"

text \<open>A group ends before the blocks that may differ, or no block differs.\<close>

definition ends_alike :: "nat \<Rightarrow> nat \<Rightarrow> block list \<Rightarrow> block list \<Rightarrow> bool" where
  "ends_alike e m bs bs' \<longleftrightarrow> e < m \<or> (m = length bs \<and> m = length bs' \<and> e \<le> m)"

lemma same_start_nth: "same_start m bs mk bs' mk' \<Longrightarrow> i < m \<Longrightarrow> bs ! i = bs' ! i"
  unfolding same_start_def by (metis nth_take)

lemma same_start_take: "same_start m bs mk bs' mk' \<Longrightarrow> i \<le> m \<Longrightarrow> take i bs = take i bs'"
  unfolding same_start_def by (metis min.absorb1 take_take)

lemma same_start_whole: "same_start m bs mk bs' mk' \<Longrightarrow> m = length bs \<Longrightarrow> m = length bs' \<Longrightarrow> bs = bs'"
  by (simp add: same_start_def)

lemma ends_alike_le: "ends_alike e m bs bs' \<Longrightarrow> e \<le> m"
  by (auto simp: ends_alike_def)

lemma same_start_range:
  "same_start m bs mk bs' mk' \<Longrightarrow> e \<le> m \<Longrightarrow> range_of bs s e = range_of bs' s e"
  by (simp add: range_of_def same_start_take)

lemma indexed_alt: "indexed bs s e = map (\<lambda>i. (i, bs ! i)) [s..<min e (length bs)]"
proof (rule nth_equalityI)
  fix i assume "i < length (indexed bs s e)"
  then have "s + i < e" "s + i < length bs" by (auto simp: indexed_def)
  moreover from this have "[s..<min e (length bs)] ! i = s + i" by (intro nth_upt) simp
  ultimately
  show "indexed bs s e ! i = map (\<lambda>i. (i, bs ! i)) [s..<min e (length bs)] ! i"
    by (simp add: indexed_def nth_enumerate_eq nth_upt)
qed (simp add: indexed_def)

lemma same_start_indexed:
  assumes "same_start m bs mk bs' mk'" "e \<le> m"
  shows "map (\<lambda>(i, b). f b (mk = Some i)) (indexed bs s e) = map (\<lambda>(i, b). f b (mk' = Some i)) (indexed bs' s e)"
proof -
  have "min e (length bs) = e" "min e (length bs') = e" using assms by (auto simp: same_start_def)
  then show ?thesis
    using assms same_start_nth [OF assms(1)] by (auto simp: indexed_alt same_start_def)
qed

lemma run_end_le: "s \<le> length bs \<Longrightarrow> run_end P bs s \<le> length bs"
  by (auto simp: run_end_def dest: position_Some split: option.split)

lemma run_end_ge: "s \<le> length bs \<Longrightarrow> s \<le> run_end P bs s"
  by (simp add: run_end_def split: option.split)

lemma run_end_more: "s < length bs \<Longrightarrow> \<not> P (bs ! s) \<Longrightarrow> s < run_end P bs s"
  by (cases "drop s bs") (auto simp: run_end_def Cons_nth_drop_Suc [symmetric] split: option.split)

lemma position_take_drop:
  "position P xs = Some n \<Longrightarrow> n < m \<Longrightarrow> position P (take m xs) = Some n"
  by (induction P xs arbitrary: n m rule: position.induct) (auto simp: take_Cons' split: if_splits)

lemma position_take_Some: "position P (take m xs) = Some n \<Longrightarrow> position P xs = Some n"
  by (induction P xs arbitrary: n m rule: position.induct) (auto simp: take_Cons' split: if_splits)

lemma same_start_run_end:
  assumes "same_start m bs mk bs' mk'" "s \<le> m" "ends_alike (run_end P bs s) m bs bs'"
  shows "run_end P bs' s = run_end P bs s"
proof (cases "bs = bs'")
  case False
  then have lt: "run_end P bs s < m"
    using assms same_start_whole [OF assms(1)] by (auto simp: ends_alike_def)
  then obtain n where n: "position P (drop s bs) = Some n" "s + n < m"
    using assms(1) by (auto simp: run_end_def same_start_def split: option.splits)
  have "position P (take (m - s) (drop s bs)) = Some n"
    using n by (intro position_take_drop) auto
  moreover have "take (m - s) (drop s bs) = take (m - s) (drop s bs')"
    using assms(1) by (simp add: same_start_def take_drop assms(2))
  ultimately have "position P (drop s bs') = Some n" by (metis position_take_Some)
  then show ?thesis using n by (simp add: run_end_def)
qed simp

end
