(* ===== verification/Wire_Anthropic.thy ===== *)
theory Wire_Anthropic
  imports Wire
begin

text \<open>
  The serializer of Anthropic Messages requests, \<open>crates/ai/src/wire/anthropic.rs\<close>: the head up to the open
  array of messages, and the message of each run of blocks of one role. The decimal text of a float and the
  check of a JSON text are parameters. The lemmas are the three laws that the encoder relies on: a group only
  appends, it writes a message or nothing, and it reads no more of the request than its own blocks.
\<close>

section \<open>The head\<close>

definition anthropic_cache_control :: "bool \<Rightarrow> json_writer \<Rightarrow> json_writer" where
  "anthropic_cache_control cache =
     steps (if cache
            then [jw_key ''cache_control'', begin_object, field_str ''type'' ''ephemeral'', end_object]
            else [])"

fun thinking_display_as_str :: "thinking_display \<Rightarrow> string" where
  "thinking_display_as_str Summarized = ''summarized''"
| "thinking_display_as_str Omitted = ''omitted''"

definition anthropic_write_thinking :: "thinking option \<Rightarrow> json_writer \<Rightarrow> json_writer" where
  "anthropic_write_thinking th =
     steps (case th of
       None \<Rightarrow> []
     | Some thinking \<Rightarrow>
         [jw_key ''thinking'', begin_object] @
         (case thinking of
            ThinkingOff \<Rightarrow> [field_str ''type'' ''disabled'']
          | Adaptive display \<Rightarrow>
              field_str ''type'' ''adaptive'' #
              (case display of Some shown \<Rightarrow> [field_str ''display'' (thinking_display_as_str shown)] | None \<Rightarrow> [])
          | Budget tokens \<Rightarrow> [field_str ''type'' ''enabled'', field_uint ''budget_tokens'' (unat tokens)]) @
         [end_object])"

definition anthropic_write_output :: "settings \<Rightarrow> json_writer \<Rightarrow> json_writer" where
  "anthropic_write_output st =
     (let effort = rs_effort (set_reasoning st); output = set_output_schema st in
      steps (if effort \<noteq> None \<or> output \<noteq> None
             then [jw_key ''output_config'', begin_object] @
                  (case effort of Some e \<Rightarrow> [field_str ''effort'' (effort_as_str e)] | None \<Rightarrow> []) @
                  (case output of
                     Some o' \<Rightarrow> [jw_key ''format'', begin_object, field_str ''type'' ''json_schema'',
                                field_raw ''schema'' (schema_text o'), end_object]
                   | None \<Rightarrow> []) @
                  [end_object]
             else []))"

definition anthropic_write_tool :: "tool_definition \<Rightarrow> json_writer \<Rightarrow> json_writer" where
  "anthropic_write_tool tool =
     steps ([begin_object, field_str ''name'' (def_name tool), field_str ''description'' (def_description tool)] @
            (if def_defer_loading tool then [field_bool ''defer_loading'' True] else []) @
            [field_raw ''input_schema'' (def_input_schema tool), end_object])"

definition anthropic_write_head ::
  "(f64 \<Rightarrow> string) \<Rightarrow> target \<Rightarrow> anthropic_wire \<Rightarrow> request \<Rightarrow> json_writer \<Rightarrow> json_writer" where
  "anthropic_write_head fl t wire rq =
     (let st = rq_settings rq in
      steps (
        [begin_object, field_str ''model'' (target_model t),
         field_uint ''max_tokens''
           (unat (case max_output_tokens st of Some n \<Rightarrow> n | None \<Rightarrow> anthropic_max_tokens wire)),
         field_bool ''stream'' True,
         field_float_opt fl ''temperature'' (temperature st),
         field_float_opt fl ''top_p'' (top_p st),
         anthropic_write_thinking (rs_thinking (set_reasoning st)),
         anthropic_write_output st] @
        (if rq_system rq \<noteq> []
         then [jw_key ''system'', begin_array, begin_object, field_str ''type'' ''text'',
               field_str ''text'' (rq_system rq), anthropic_cache_control (anthropic_cache wire),
               end_object, end_array]
         else []) @
        (if rq_tools rq \<noteq> []
         then [jw_key ''tools'', begin_array] @ map anthropic_write_tool (rq_tools rq) @ [end_array] @
              (if set_tool_choice st = ChoiceNone
               then [jw_key ''tool_choice'', begin_object, field_str ''type'' ''none'', end_object]
               else [])
         else []) @
        [jw_key ''messages'', begin_array]))"

section \<open>Messages\<close>

definition anthropic_write_media :: "blob_store option \<Rightarrow> media \<Rightarrow> bool \<Rightarrow> unit writing" where
  "anthropic_write_media blobs m cache =
     (let kind = media_kind m;
          written = (\<lambda>block_type. try_all [
            does (steps [begin_object, field_str ''type'' block_type, jw_key ''source'']),
            with_ok (read_blob blobs (media_blob m)) (\<lambda>data. does (steps (
              [begin_object] @
              (if kind = ModText
               then [field_str ''type'' ''text'', field_str ''media_type'' ''text/plain'', jw_key ''data'',
                     jw_string (from_utf8_lossy data)]
               else [field_str ''type'' ''base64'', field_str ''media_type'' (media_mime m), jw_key ''data'',
                     jw_base64 None data]) @
              [end_object, anthropic_cache_control cache, end_object])))])
      in case kind of
           ModImage \<Rightarrow> written ''image''
         | ModPdf \<Rightarrow> written ''document''
         | ModText \<Rightarrow> written ''document''
         | modality \<Rightarrow> fails (Unsupported (UnsupportedMedia modality)))"

definition anthropic_write_text :: "string \<Rightarrow> bool \<Rightarrow> json_writer \<Rightarrow> json_writer" where
  "anthropic_write_text x cache =
     steps [begin_object, field_str ''type'' ''text'', field_str ''text'' x, anthropic_cache_control cache, end_object]"

definition anthropic_write_reasoning :: "target \<Rightarrow> reasoning \<Rightarrow> json_writer \<Rightarrow> json_writer" where
  "anthropic_write_reasoning t r =
     steps (case replay_to r t of
       Some (AnthropicSignature, signature) \<Rightarrow>
         [begin_object, field_str ''type'' ''thinking'', field_str ''thinking'' (reasoning_text r),
          field_str ''signature'' signature, end_object]
     | Some (_, data) \<Rightarrow>
         [begin_object, field_str ''type'' ''redacted_thinking'', field_str ''data'' data, end_object]
     | None \<Rightarrow> [])"

definition anthropic_write_result :: "request \<Rightarrow> tool_result \<Rightarrow> bool \<Rightarrow> unit writing" where
  "anthropic_write_result rq r cache =
     (let loaded = (if defers_tools (rq_tools rq) then result_loaded r else []) in
      try_all (
        [does (steps [begin_object, field_str ''type'' ''tool_result'', field_str ''tool_use_id'' (result_call_id r),
                      jw_key ''content''])] @
        (if result_media r = [] \<and> loaded = [] then [does (jw_string (result_content r))]
         else [does (steps (begin_array #
                 (if result_content r \<noteq> []
                  then [begin_object, field_str ''type'' ''text'', field_str ''text'' (result_content r), end_object]
                  else [])))] @
              map (\<lambda>m. anthropic_write_media (rq_blobs rq) m False) (result_media r) @
              [does (steps (map (\<lambda>tool. steps
                 [begin_object, field_str ''type'' ''tool_reference'', field_str ''tool_name'' (def_name tool),
                  end_object]) loaded @ [end_array]))]) @
        [does (steps [field_bool ''is_error'' (result_is_error r), anthropic_cache_control cache, end_object])]))"

definition anthropic_write_block ::
  "(string \<Rightarrow> bool) \<Rightarrow> target \<Rightarrow> request \<Rightarrow> block \<Rightarrow> bool \<Rightarrow> unit writing" where
  "anthropic_write_block is_json t rq b cache =
     (case b of
        UserText x \<Rightarrow> does (anthropic_write_text x cache)
      | AssistantText x \<Rightarrow> does (anthropic_write_text x cache)
      | Media m \<Rightarrow> anthropic_write_media (rq_blobs rq) m cache
      | Reasoning r \<Rightarrow> does (anthropic_write_reasoning t r)
      | ToolCall c \<Rightarrow>
          does (steps [begin_object, field_str ''type'' ''tool_use'', field_str ''id'' (call_id c),
                       field_str ''name'' (call_name c),
                       field_raw ''input'' (arguments_object is_json (call_arguments c)),
                       anthropic_cache_control cache, end_object])
      | ToolResult r \<Rightarrow> anthropic_write_result rq r cache)"

definition anthropic_write_group ::
  "(string \<Rightarrow> bool) \<Rightarrow> target \<Rightarrow> request \<Rightarrow> nat \<Rightarrow> nat option \<Rightarrow> nat writing" where
  "anthropic_write_group is_json t rq start marker =
     (let blocks = rq_blocks rq;
          r = block_role (blocks ! start);
          end = run_end (\<lambda>b. block_role b \<noteq> r) blocks start
      in if \<not> list_ex (writes t) (range_of blocks start end) then giving (try_all []) end
         else giving (try_all (
           [does (steps [begin_object, field_str ''role'' (role_as_str r), jw_key ''content'', begin_array])] @
           map (\<lambda>(i, b). anthropic_write_block is_json t rq b (marker = Some i)) (indexed blocks start end) @
           [does (steps [end_array, end_object])])) end)"

definition anthropic_cacheable :: "block \<Rightarrow> bool" where
  "anthropic_cacheable b = (case b of Reasoning _ \<Rightarrow> False | _ \<Rightarrow> True)"

section \<open>The laws of a group\<close>

lemma anthropic_forward1 [forward_simps]:
  "forward1 (anthropic_cache_control c)" "forward1 (anthropic_write_text x c)" "forward1 (anthropic_write_reasoning t r)"
  by (auto simp: anthropic_cache_control_def anthropic_write_text_def anthropic_write_reasoning_def forward_simps
      split: option.split replay_kind.split)

lemma anthropic_media_forward [forward_simps]: "forward (anthropic_write_media bs m c)"
  by (auto simp: anthropic_write_media_def Let_def forward_simps split: modality.split)

lemma anthropic_result_forward [forward_simps]: "forward (anthropic_write_result rq r c)"
  by (auto simp: anthropic_write_result_def Let_def intro!: forward_simps)

lemma anthropic_block_forward [forward_simps]: "forward (anthropic_write_block is_json t rq b c)"
  by (auto simp: anthropic_write_block_def forward_simps split: block.split)

lemma anthropic_group_forward: "forward (anthropic_write_group is_json t rq s mk)"
  by (auto simp: anthropic_write_group_def Let_def forward_simps split: prod.splits)

lemma anthropic_group_end:
  "anthropic_write_group is_json t rq s mk w = (Inr e, w') \<Longrightarrow>
     e = run_end (\<lambda>b. block_role b \<noteq> block_role (rq_blocks rq ! s)) (rq_blocks rq) s"
  by (auto simp: anthropic_write_group_def Let_def split: if_splits)

lemma anthropic_group_bounds:
  "s < length (rq_blocks rq) \<Longrightarrow> anthropic_write_group is_json t rq s mk w = (Inr e, w') \<Longrightarrow>
     s < e \<and> e \<le> length (rq_blocks rq)"
  by (auto dest!: anthropic_group_end intro!: run_end_more run_end_le)

lemma anthropic_group_elements: "elements (anthropic_write_group is_json t rq s mk)"
proof -
  have "grows (try_all (
      does (steps [begin_object, field_str ''role'' r, jw_key ''content'', begin_array]) #
        map (\<lambda>(i, b). anthropic_write_block is_json t rq b (mk = Some i)) xs @ [does (steps [end_array, end_object])]))" for r xs
    by (rule grows_try_all) (auto simp: forward_simps grows_simps)
  then show ?thesis
    by (auto simp: anthropic_write_group_def Let_def intro!: elements_intros intro: elements_grows)
qed

lemma anthropic_media_within [within_intros]:
  "blob_answers bs \<subseteq>\<^sub>m blob_answers bs' \<Longrightarrow> within (anthropic_write_media bs m c) (anthropic_write_media bs' m c)"
  by (auto simp: anthropic_write_media_def Let_def split: modality.split
      intro!: within_intros dest: read_blob_within)

lemma anthropic_block_within:
  assumes b: "blob_answers (rq_blobs rq) \<subseteq>\<^sub>m blob_answers (rq_blobs rq')"
    and d: "defers_tools (rq_tools rq) = defers_tools (rq_tools rq')"
    and t: "origin_of t = origin_of t'" "wire_protocol (target_wire t) = wire_protocol (target_wire t')"
  shows "within (anthropic_write_block is_json t rq b c) (anthropic_write_block is_json t' rq' b c)"
proof -
  have "replay_to r t = replay_to r t'" for r
    using t by (simp add: replay_to_def origin_matches_def split: option.split)
  then show ?thesis
    using b d by (auto simp: anthropic_write_block_def anthropic_write_result_def anthropic_write_reasoning_def Let_def
        intro!: within_intros split: block.split)
qed

lemma anthropic_group_local:
  assumes s: "same_start m (rq_blocks rq) mk (rq_blocks rq') mk'" "s < m"
    and b: "blob_answers (rq_blobs rq) \<subseteq>\<^sub>m blob_answers (rq_blobs rq')"
    and d: "defers_tools (rq_tools rq) = defers_tools (rq_tools rq')"
    and t: "origin_of t = origin_of t'" "wire_protocol (target_wire t) = wire_protocol (target_wire t')"
    and w: "anthropic_write_group is_json t rq s mk w = (Inr e, w')" "ends_alike e m (rq_blocks rq) (rq_blocks rq')"
  shows "anthropic_write_group is_json t' rq' s mk' w = (Inr e, w')"
proof -
  let ?r = "block_role (rq_blocks rq ! s)"
  have e: "e = run_end (\<lambda>b. block_role b \<noteq> ?r) (rq_blocks rq) s" using anthropic_group_end w(1) by blast
  have s_m: "s \<le> m" using s(2) by simp
  have r: "block_role (rq_blocks rq' ! s) = ?r" using same_start_nth [OF s] by simp
  have e': "run_end (\<lambda>b. block_role b \<noteq> ?r) (rq_blocks rq') s = e"
    using same_start_run_end [OF s(1) s_m] w(2) e by blast
  note le = ends_alike_le [OF w(2)]
  have wr: "writes t = writes t'"
    using t by (auto simp: writes_def replay_to_def origin_matches_def fun_eq_iff split: block.split option.split)
  let ?f = "\<lambda>t rq b c. anthropic_write_block is_json t rq b c"
  have i: "map (\<lambda>(i, b). ?f t' rq' b (mk' = Some i)) (indexed (rq_blocks rq') s e) =
      map (\<lambda>(i, b). ?f t' rq' b (mk = Some i)) (indexed (rq_blocks rq) s e)"
    by (rule same_start_indexed [OF s(1) le, symmetric])
  have "within (anthropic_write_group is_json t rq s mk) (anthropic_write_group is_json t' rq' s mk')"
    unfolding anthropic_write_group_def Let_def r e' e [symmetric] wr same_start_range [OF s(1) le] i
    by (auto intro!: within_intros anthropic_block_within [OF b d t])
  then show ?thesis using w(1) by (simp add: within_def)
qed

end
