(* ===== verification/Wire_Chat.thy ===== *)
theory Wire_Chat
  imports Wire
begin

text \<open>
  The serializer of OpenAI Chat Completions requests, \<open>crates/ai/src/wire/openai_chat.rs\<close>: the head up to the
  open array of messages with the system message in it, and the messages of each group of blocks. A group is a
  user run, an assistant run, or tool results with the user blocks that take their attachments, so one group can
  write several messages. The decimal text of a float and the check of a JSON text are parameters. The lemmas
  are the three laws that the encoder relies on.
\<close>

section \<open>The head\<close>

definition chat_write_effort_object :: "string \<Rightarrow> json_writer \<Rightarrow> json_writer" where
  "chat_write_effort_object level = steps [jw_key ''reasoning'', begin_object, field_str ''effort'' level, end_object]"

definition chat_write_reasoning :: "thinking_format \<Rightarrow> reasoning_settings \<Rightarrow> json_writer \<Rightarrow> json_writer" where
  "chat_write_reasoning format reasoning =
     (let on = \<not> reasoning_off reasoning;
          level = (if \<not> on then Some ''none'' else map_option effort_as_str (rs_effort reasoning));
          switch_shape = (if on then ''enabled'' else ''disabled'')
      in steps (case level of
           None \<Rightarrow> []
         | Some level \<Rightarrow>
             (let write_effort = (if on then [field_str ''reasoning_effort'' level] else [])
              in case format of
                   FormatNone \<Rightarrow> []
                 | FormatOpenai \<Rightarrow> [field_str ''reasoning_effort'' level]
                 | FormatOpenrouter \<Rightarrow> [chat_write_effort_object level]
                 | FormatDeepseek \<Rightarrow>
                     [jw_key ''thinking'', begin_object, field_str ''type'' switch_shape, end_object] @ write_effort
                 | FormatZai \<Rightarrow>
                     [jw_key ''thinking'', begin_object, field_str ''type'' switch_shape] @
                     (if on then [field_bool ''clear_thinking'' False] else []) @ [end_object] @ write_effort
                 | FormatQwen \<Rightarrow> field_bool ''enable_thinking'' on # write_effort)))"

definition chat_write_tool :: "tool_definition \<Rightarrow> json_writer \<Rightarrow> json_writer" where
  "chat_write_tool tool =
     steps [begin_object, field_str ''type'' ''function'', jw_key ''function'', begin_object,
            field_str ''name'' (def_name tool), field_str ''description'' (def_description tool),
            field_raw ''parameters'' (def_input_schema tool), end_object, end_object]"

definition chat_write_open :: "(f64 \<Rightarrow> string) \<Rightarrow> target \<Rightarrow> chat_wire \<Rightarrow> request \<Rightarrow> json_writer \<Rightarrow> json_writer" where
  "chat_write_open fl t wire rq =
     (let st = rq_settings rq in
      steps (
        [begin_object, field_str ''model'' (target_model t), field_bool ''stream'' True] @
        (if chat_dialect_of wire = ChatStandard
         then [jw_key ''stream_options'', begin_object, field_bool ''include_usage'' True, end_object]
         else []) @
        (case max_output_tokens st of
           Some limit \<Rightarrow>
             [field_uint (case chat_max_tokens_field wire of MaxTokens \<Rightarrow> ''max_tokens''
                          | MaxCompletionTokens \<Rightarrow> ''max_completion_tokens'') (unat limit)]
         | None \<Rightarrow> []) @
        [field_float_opt fl ''temperature'' (temperature st), field_float_opt fl ''top_p'' (top_p st),
         chat_write_reasoning (chat_thinking_format wire) (set_reasoning st)] @
        (case set_output_schema st of
           Some output \<Rightarrow>
             [jw_key ''response_format'', begin_object, field_str ''type'' ''json_schema'', jw_key ''json_schema'',
              begin_object, field_str ''name'' (schema_name output), field_raw ''schema'' (schema_text output),
              field_bool ''strict'' (schema_strict output), end_object, end_object]
         | None \<Rightarrow> []) @
        (if rq_tools rq \<noteq> []
         then [jw_key ''tools'', begin_array] @ map chat_write_tool (rq_tools rq) @ [end_array] @
              (if set_tool_choice st = ChoiceNone then [field_str ''tool_choice'' ''none''] else [])
         else []) @
        [jw_key ''messages'', begin_array]))"

definition chat_write_head ::
  "(f64 \<Rightarrow> string) \<Rightarrow> target \<Rightarrow> chat_wire \<Rightarrow> request \<Rightarrow> json_writer \<Rightarrow> bool \<times> json_writer" where
  "chat_write_head fl t wire rq w =
     (let opened = chat_write_open fl t wire rq w
      in if rq_system rq = [] then (False, opened)
         else (True, steps [begin_object, field_str ''role'' ''system'', field_str ''content'' (rq_system rq), end_object]
                       opened))"

section \<open>Messages\<close>

definition is_user_part :: "block \<Rightarrow> bool" where
  "is_user_part b = (case b of UserText _ \<Rightarrow> True | Media _ \<Rightarrow> True | _ \<Rightarrow> False)"

definition user_end :: "block list \<Rightarrow> nat \<Rightarrow> nat" where
  "user_end blocks start = run_end (\<lambda>b. \<not> is_user_part b) blocks start"

definition chat_write_attachment_label :: "string \<Rightarrow> json_writer \<Rightarrow> json_writer" where
  "chat_write_attachment_label i =
     steps [begin_object, field_str ''type'' ''text'', jw_key ''text'',
            jw_string_parts [''Attachment from tool call '', i, '':''], end_object]"

definition chat_write_tool_result :: "tool_result \<Rightarrow> json_writer \<Rightarrow> json_writer" where
  "chat_write_tool_result r =
     steps [begin_object, field_str ''role'' ''tool'', field_str ''tool_call_id'' (result_call_id r), jw_key ''content'',
            jw_tool_text (result_content r) (result_is_error r), end_object]"

definition audio_format :: "string \<Rightarrow> encode_error + string" where
  "audio_format mime =
     (if mime = ''audio/wav'' \<or> mime = ''audio/x-wav'' then Inr ''wav''
      else if mime = ''audio/mpeg'' \<or> mime = ''audio/mp3'' then Inr ''mp3''
      else Inl (Unsupported AudioFormat))"

definition chat_write_file :: "blob_store option \<Rightarrow> media \<Rightarrow> unit writing" where
  "chat_write_file blobs m =
     (if media_filename m = [] then fails (Unsupported UnnamedDocument)
      else with_ok (read_blob blobs (media_blob m)) (\<lambda>data. does (steps
        [begin_object, field_str ''type'' ''file'', jw_key ''file'', begin_object, jw_key ''file_data'',
         jw_base64 (Some (media_mime m)) data, field_str ''filename'' (media_filename m), end_object, end_object])))"

definition chat_write_media :: "blob_store option \<Rightarrow> media \<Rightarrow> unit writing" where
  "chat_write_media blobs m =
     (case media_kind m of
        ModImage \<Rightarrow> with_ok (read_blob blobs (media_blob m)) (\<lambda>data. does (steps
          [begin_object, field_str ''type'' ''image_url'', jw_key ''image_url'', begin_object, jw_key ''url'',
           jw_base64 (Some (media_mime m)) data, end_object, end_object]))
      | ModAudio \<Rightarrow> with_ok (read_blob blobs (media_blob m)) (\<lambda>data.
          with_ok (audio_format (media_mime m)) (\<lambda>format. does (steps
          [begin_object, field_str ''type'' ''input_audio'', jw_key ''input_audio'', begin_object, jw_key ''data'',
           jw_base64 None data, field_str ''format'' format, end_object, end_object])))
      | ModPdf \<Rightarrow> chat_write_file blobs m
      | ModText \<Rightarrow> chat_write_file blobs m
      | ModOther \<Rightarrow> chat_write_file blobs m
      | ModVideo \<Rightarrow> fails (Unsupported (UnsupportedMedia ModVideo)))"

definition result_of :: "block \<Rightarrow> tool_result option" where
  "result_of b = (case b of ToolResult r \<Rightarrow> Some r | _ \<Rightarrow> None)"

definition chat_user_part :: "blob_store option \<Rightarrow> block \<Rightarrow> unit writing" where
  "chat_user_part blobs b =
     (case b of
        UserText x \<Rightarrow> does (steps [begin_object, field_str ''type'' ''text'', field_str ''text'' x, end_object])
      | Media m \<Rightarrow> chat_write_media blobs m
      | _ \<Rightarrow> does (steps []))"

definition chat_write_user_message :: "blob_store option \<Rightarrow> block list \<Rightarrow> block list \<Rightarrow> unit writing" where
  "chat_write_user_message blobs results blocks =
     try_all (
       [does (steps [begin_object, field_str ''role'' ''user'', jw_key ''content'', begin_array])] @
       concat (map (\<lambda>r. concat (map (\<lambda>m.
         [does (chat_write_attachment_label (result_call_id r)), chat_write_media blobs m]) (result_media r)))
         (filter_map result_of results)) @
       map (chat_user_part blobs) blocks @
       [does (steps [end_array, end_object])])"

definition is_space_tab_line :: "char \<Rightarrow> bool" where
  "is_space_tab_line c = (c = CHR 0x20 \<or> c = CHR 0x09 \<or> c = CHR 0x0D \<or> c = CHR 0x0A)"

definition array_items :: "string \<Rightarrow> string" where
  "array_items array =
     (let trimmed = trim_matches is_space_tab_line array;
          inner = (case strip_prefix ''['' trimmed of
                     Some rest \<Rightarrow> if ends_with '']'' rest then butlast rest else trimmed
                   | None \<Rightarrow> trimmed)
      in trim_matches is_space_tab_line inner)"

definition chat_write_details :: "target \<Rightarrow> block list \<Rightarrow> json_writer \<Rightarrow> json_writer" where
  "chat_write_details t blocks =
     steps ([jw_key ''reasoning_details'', begin_array] @
       concat (map (\<lambda>b. case b of
         Reasoning r \<Rightarrow>
           (let entries = (case replay_to r t of None \<Rightarrow> [] | Some (_, details) \<Rightarrow> array_items details)
            in if entries \<noteq> [] then [jw_raw entries] else [])
       | _ \<Rightarrow> []) blocks) @
       [end_array])"

definition chat_write_call :: "(string \<Rightarrow> bool) \<Rightarrow> tool_call \<Rightarrow> json_writer \<Rightarrow> json_writer" where
  "chat_write_call is_json c =
     steps [begin_object, field_str ''id'' (call_id c), field_str ''type'' ''function'', jw_key ''function'', begin_object,
            field_str ''name'' (call_name c), field_str ''arguments'' (arguments_object is_json (call_arguments c)),
            end_object, end_object]"

definition assistant_text_of :: "block \<Rightarrow> string option" where
  "assistant_text_of b = (case b of AssistantText x \<Rightarrow> Some x | _ \<Rightarrow> None)"

definition reasoning_of :: "block \<Rightarrow> reasoning option" where
  "reasoning_of b = (case b of Reasoning r \<Rightarrow> Some r | _ \<Rightarrow> None)"

definition chat_write_assistant_message ::
  "(string \<Rightarrow> bool) \<Rightarrow> target \<Rightarrow> reasoning_replay_mode \<Rightarrow> block list \<Rightarrow> json_writer \<Rightarrow> json_writer" where
  "chat_write_assistant_message is_json t replay blocks =
     (let texts = filter_map assistant_text_of blocks;
          calls = filter_map call_of blocks;
          has_details = list_ex (\<lambda>b. case b of Reasoning r \<Rightarrow> replay_to r t \<noteq> None | _ \<Rightarrow> False) blocks
      in steps (
        [begin_object, field_str ''role'' ''assistant'', jw_key ''content'',
         (if texts \<noteq> [] then jw_string_parts texts else jw_null)] @
        (case replay of
           ReplayNone \<Rightarrow> []
         | ReasoningContent \<Rightarrow>
             [jw_key ''reasoning_content'', jw_string_parts (map reasoning_text (filter_map reasoning_of blocks))]
         | ReasoningDetails \<Rightarrow> if has_details then [chat_write_details t blocks] else []) @
        (if calls \<noteq> []
         then [jw_key ''tool_calls'', begin_array] @ map (chat_write_call is_json) calls @ [end_array]
         else []) @
        [end_object]))"

definition chat_write_group ::
  "(string \<Rightarrow> bool) \<Rightarrow> target \<Rightarrow> chat_wire \<Rightarrow> request \<Rightarrow> nat \<Rightarrow> nat writing" where
  "chat_write_group is_json t wire rq start =
     (let blocks = rq_blocks rq in
      case blocks ! start of
        ToolResult _ \<Rightarrow>
          (let results_end = run_end (\<lambda>b. \<not> is_tool_result b) blocks start;
               results = range_of blocks start results_end;
               written = map (\<lambda>r. does (chat_write_tool_result r)) (filter_map result_of results);
               images = list_ex (\<lambda>r. result_media r \<noteq> []) (filter_map result_of results)
           in if \<not> images then giving (try_all written) results_end
              else (let end = user_end blocks results_end
                    in giving (try_all (written @
                         [chat_write_user_message (rq_blobs rq) results (range_of blocks results_end end)])) end))
      | b \<Rightarrow>
          if is_user_part b
          then (let end = user_end blocks start
                in giving (chat_write_user_message (rq_blobs rq) [] (range_of blocks start end)) end)
          else (let end = run_end (\<lambda>b. block_role b \<noteq> Assistant) blocks start;
                    run = range_of blocks start end
                in giving (if list_ex (\<lambda>b. assistant_text_of b \<noteq> None \<or> call_of b \<noteq> None) run
                           then does (chat_write_assistant_message is_json t (chat_reasoning_replay wire) run)
                           else try_all []) end))"

section \<open>The laws of a group\<close>

lemma is_user_part_simps [simp]:
  "is_user_part (UserText x)" "is_user_part (Media m)" "\<not> is_user_part (AssistantText x)" "\<not> is_user_part (ToolResult r)"
  "\<not> is_user_part (Reasoning g)" "\<not> is_user_part (ToolCall c)"
  by (simp_all add: is_user_part_def)

lemma chat_forward1 [forward_simps]:
  "forward1 (chat_write_tool_result r)" "forward1 (chat_write_attachment_label i)" "forward1 (chat_write_call is_json c)"
  by (auto simp: chat_write_tool_result_def chat_write_attachment_label_def chat_write_call_def forward_simps)

lemma chat_details_forward [forward_simps]: "forward1 (chat_write_details t bs)"
  by (auto simp: chat_write_details_def Let_def forward_simps intro!: forward1_steps split: block.splits if_splits)

lemma chat_assistant_forward [forward_simps]: "forward1 (chat_write_assistant_message is_json t m bs)"
  by (auto simp: chat_write_assistant_message_def Let_def forward_simps intro!: forward1_steps
      split: reasoning_replay_mode.split)

lemma chat_media_forward [forward_simps]: "forward (chat_write_media bs m)" "forward (chat_user_part bs b)"
  by (auto simp: chat_write_media_def chat_write_file_def chat_user_part_def forward_simps split: modality.split block.split)

lemma chat_user_forward [forward_simps]: "forward (chat_write_user_message bs rs ps)"
  by (auto simp: chat_write_user_message_def forward_simps intro!: forward_try_all)

lemma chat_group_forward: "forward (chat_write_group is_json t wire rq s)"
  by (auto simp: chat_write_group_def Let_def forward_simps split: block.split)

lemma chat_grows [grows_simps]:
  "grows1 (chat_write_tool_result r)" "grows1 (chat_write_assistant_message is_json t m bs)"
  by (auto simp: chat_write_tool_result_def chat_write_assistant_message_def Let_def forward_simps grows_simps
      intro!: grows1_steps split: reasoning_replay_mode.split)

lemma chat_user_grows [grows_simps]: "grows (chat_write_user_message bs rs ps)"
  by (auto simp: chat_write_user_message_def forward_simps grows_simps intro!: grows_try_all)

lemma chat_group_elements: "elements (chat_write_group is_json t wire rq s)"
proof -
  have "grows (try_all (map (\<lambda>r. does (chat_write_tool_result r)) rs @ [chat_write_user_message b x y]))" for rs b x y
    by (rule grows_try_all) (auto simp: forward_simps grows_simps)
  then show ?thesis
    unfolding chat_write_group_def Let_def
    by (auto simp: forward_simps grows_simps intro!: elements_intros
        intro: elements_grows [OF chat_user_grows] elements_grows [OF grows_does [OF chat_grows(2)]] elements_grows
        split: block.split)
qed

lemma chat_group_bounds:
  assumes s: "s < length (rq_blocks rq)" and w: "chat_write_group is_json t wire rq s w = (Inr e, w')"
  shows "s < e \<and> e \<le> length (rq_blocks rq)"
proof -
  let ?bs = "rq_blocks rq"
  have more: "\<not> P (?bs ! s) \<Longrightarrow> s < run_end P ?bs s" and le: "i \<le> length ?bs \<Longrightarrow> run_end P ?bs i \<le> length ?bs" for P i
    using run_end_more [OF s] run_end_le by blast+
  show ?thesis
  proof (cases "?bs ! s")
    case (ToolResult r)
    let ?n = "run_end (\<lambda>b. \<not> is_tool_result b) ?bs s"
    have "s < ?n" "?n \<le> length ?bs" using ToolResult s by (auto intro: more le)
    then show ?thesis using w ToolResult run_end_ge [of ?n ?bs] le [of ?n]
      by (auto simp: chat_write_group_def user_end_def Let_def split: if_splits intro: less_le_trans)
  qed (use w s more le in \<open>auto simp: chat_write_group_def user_end_def Let_def split: if_splits\<close>)
qed

lemma chat_media_within [within_intros]:
  assumes "blob_answers bs \<subseteq>\<^sub>m blob_answers bs'"
  shows "within (chat_write_media bs m) (chat_write_media bs' m)" "within (chat_user_part bs b) (chat_user_part bs' b)"
    "within (chat_write_user_message bs rs ps) (chat_write_user_message bs' rs ps)"
proof -
  show media: "within (chat_write_media bs m) (chat_write_media bs' m)" for m
    using assms by (auto simp: chat_write_media_def chat_write_file_def split: modality.split
        intro!: within_intros dest: read_blob_within)
  show part: "within (chat_user_part bs b) (chat_user_part bs' b)" for b
    using media by (auto simp: chat_user_part_def split: block.split intro!: within_intros)
  show "within (chat_write_user_message bs rs ps) (chat_write_user_message bs' rs ps)"
    unfolding chat_write_user_message_def using media part by (intro within_intros) auto
qed

lemma chat_messages_replay:
  assumes "origin_of t = origin_of t'" "wire_protocol (target_wire t) = wire_protocol (target_wire t')"
  shows "chat_write_assistant_message is_json t = chat_write_assistant_message is_json t'"
proof -
  have rep: "replay_to r t = replay_to r t'" for r
    using assms by (simp add: replay_to_def origin_matches_def split: option.split)
  show ?thesis
    by (intro ext) (unfold chat_write_assistant_message_def chat_write_details_def rep, rule refl)
qed

lemma chat_group_local:
  assumes s: "same_start m (rq_blocks rq) mk (rq_blocks rq') mk'" "s < m"
    and b: "blob_answers (rq_blobs rq) \<subseteq>\<^sub>m blob_answers (rq_blobs rq')"
    and t: "origin_of t = origin_of t'" "wire_protocol (target_wire t) = wire_protocol (target_wire t')"
    and r: "chat_reasoning_replay wire = chat_reasoning_replay wire'"
    and w: "chat_write_group is_json t wire rq s w = (Inr e, w')" "ends_alike e m (rq_blocks rq) (rq_blocks rq')"
  shows "chat_write_group is_json t' wire' rq' s w = (Inr e, w')"
proof -
  let ?bs = "rq_blocks rq" and ?bs' = "rq_blocks rq'"
  have len: "s < length ?bs" using s by (simp add: same_start_def)
  have nth: "?bs' ! s = ?bs ! s" using same_start_nth [OF s] by simp
  have alike: "run_end P ?bs' i = run_end P ?bs i \<and> range_of ?bs' j (run_end P ?bs i) = range_of ?bs j (run_end P ?bs i)"
    if "i \<le> m" "run_end P ?bs i \<le> e" for P i j
  proof -
    have "ends_alike (run_end P ?bs i) m ?bs ?bs'" using that w(2) by (auto simp: ends_alike_def)
    then show ?thesis
      using same_start_run_end [OF s(1) that(1)] same_start_range [OF s(1) ends_alike_le] by metis
  qed
  note assistant = chat_messages_replay [OF t]
  have s_m: "s \<le> m" using s(2) by simp
  show ?thesis
  proof (cases "?bs ! s")
    case (ToolResult r)
    let ?P = "\<lambda>b. \<not> is_tool_result b" let ?n = "run_end ?P ?bs s"
    let ?rs = "range_of ?bs s ?n"
    have n: "?n \<le> length ?bs" using len by (intro run_end_le) simp
    have n_e: "?n \<le> e" using w(1) ToolResult run_end_ge [OF n]
      by (auto simp: chat_write_group_def user_end_def Let_def split: if_splits)
    have n_m: "?n \<le> m" using n_e ends_alike_le [OF w(2)] by simp
    note n' = alike [OF s_m n_e]
    show ?thesis
    proof (cases "list_ex (\<lambda>r. result_media r \<noteq> []) (filter_map result_of ?rs)")
      case True
      then have e: "e = run_end (\<lambda>b. \<not> is_user_part b) ?bs ?n"
        using w(1) ToolResult by (simp add: chat_write_group_def user_end_def Let_def)
      note e' = alike [OF n_m, of "\<lambda>b. \<not> is_user_part b", folded e, OF order_refl]
      have "within (chat_write_group is_json t wire rq s) (chat_write_group is_json t' wire' rq' s)"
        using True ToolResult by (auto simp: chat_write_group_def user_end_def Let_def nth n' e [symmetric] e'
            intro!: within_intros b)
      then show ?thesis using w(1) by (simp add: within_def)
    next
      case False
      then show ?thesis using w(1) ToolResult by (simp add: chat_write_group_def Let_def nth n')
    qed
  next
    case (UserText x)
    then have e: "e = run_end (\<lambda>b. \<not> is_user_part b) ?bs s"
      using w(1) by (simp add: chat_write_group_def user_end_def Let_def)
    note e' = alike [OF s_m, of "\<lambda>b. \<not> is_user_part b", folded e, OF order_refl]
    have "within (chat_write_group is_json t wire rq s) (chat_write_group is_json t' wire' rq' s)"
      using UserText by (auto simp: chat_write_group_def user_end_def Let_def nth e [symmetric] e' intro!: within_intros b)
    then show ?thesis using w(1) by (simp add: within_def)
  next
    case (Media x)
    then have e: "e = run_end (\<lambda>b. \<not> is_user_part b) ?bs s"
      using w(1) by (simp add: chat_write_group_def user_end_def Let_def)
    note e' = alike [OF s_m, of "\<lambda>b. \<not> is_user_part b", folded e, OF order_refl]
    have "within (chat_write_group is_json t wire rq s) (chat_write_group is_json t' wire' rq' s)"
      using Media by (auto simp: chat_write_group_def user_end_def Let_def nth e [symmetric] e' intro!: within_intros b)
    then show ?thesis using w(1) by (simp add: within_def)
  qed (use w(1) alike [OF s_m, of "\<lambda>b. block_role b \<noteq> Assistant"] in
    \<open>auto simp: chat_write_group_def Let_def nth assistant r split: if_splits\<close>)
qed

end
