(* ===== verification/Wire_Responses.thy ===== *)
theory Wire_Responses
  imports Wire
begin

text \<open>
  The serializer of OpenAI Responses requests, \<open>crates/ai/src/wire/openai_responses.rs\<close>: the head up to the
  open array of input items, and the item of each group. A message holds a run of text and media of one role,
  every other block is an item of its own, and a call of the search tool and its answer have their own items
  when the request defers tools. The decimal text of a float and the check of a JSON text are parameters. The
  lemmas are the three laws that the encoder relies on; the answer of a search looks at the blocks before it.
\<close>

section \<open>The head\<close>

definition responses_write_function_tool :: "tool_definition \<Rightarrow> bool \<Rightarrow> json_writer \<Rightarrow> json_writer" where
  "responses_write_function_tool tool defer_loading =
     steps ([begin_object, field_str ''type'' ''function'', field_str ''name'' (def_name tool),
             field_str ''description'' (def_description tool)] @
            (if defer_loading then [field_bool ''defer_loading'' True] else []) @
            [field_raw ''parameters'' (def_input_schema tool), field_bool ''strict'' False, end_object])"

definition responses_write_reasoning :: "reasoning_settings \<Rightarrow> json_writer \<Rightarrow> json_writer" where
  "responses_write_reasoning reasoning =
     steps (if reasoning_off reasoning
            then [jw_key ''reasoning'', begin_object, field_str ''effort'' ''none'', end_object]
            else (case rs_effort reasoning of
              None \<Rightarrow> []
            | Some effort \<Rightarrow>
                [jw_key ''reasoning'', begin_object, field_str ''effort'' (effort_as_str effort),
                 field_str ''summary'' ''auto'', end_object, jw_key ''include'', begin_array,
                 jw_string ''reasoning.encrypted_content'', end_array]))"

definition responses_write_tool :: "bool \<Rightarrow> tool_definition \<Rightarrow> json_writer \<Rightarrow> json_writer" where
  "responses_write_tool native tool =
     (if native \<and> def_name tool = search_tool_name
      then steps [begin_object, field_str ''type'' ''tool_search'', field_str ''execution'' ''client'',
                  field_str ''description'' (def_description tool), field_raw ''parameters'' (def_input_schema tool),
                  end_object]
      else responses_write_function_tool tool (def_defer_loading tool))"

definition responses_write_head ::
  "(f64 \<Rightarrow> string) \<Rightarrow> target \<Rightarrow> responses_wire \<Rightarrow> request \<Rightarrow> json_writer \<Rightarrow> json_writer" where
  "responses_write_head fl t wire rq =
     (let st = rq_settings rq;
          standard = (responses_dialect_of wire = ResponsesStandard);
          native = defers_tools (rq_tools rq)
      in steps (
        [begin_object, field_str ''model'' (target_model t), field_bool ''stream'' True, field_bool ''store'' False] @
        (case rq_session_id rq of Some i \<Rightarrow> [field_str ''prompt_cache_key'' i] | None \<Rightarrow> []) @
        (if standard
         then (case max_output_tokens st of Some limit \<Rightarrow> [field_uint ''max_output_tokens'' (unat limit)] | None \<Rightarrow> []) @
              [field_float_opt fl ''temperature'' (temperature st), field_float_opt fl ''top_p'' (top_p st)]
         else []) @
        [responses_write_reasoning (set_reasoning st)] @
        (case set_output_schema st of
           Some output \<Rightarrow>
             [jw_key ''text'', begin_object, jw_key ''format'', begin_object, field_str ''type'' ''json_schema'',
              field_str ''name'' (schema_name output), field_raw ''schema'' (schema_text output),
              field_bool ''strict'' (schema_strict output), end_object, end_object]
         | None \<Rightarrow> []) @
        (if rq_system rq \<noteq> [] then [field_str ''instructions'' (rq_system rq)] else []) @
        (if rq_tools rq \<noteq> []
         then [jw_key ''tools'', begin_array] @ map (responses_write_tool native) (rq_tools rq) @
              [end_array,
               field_str ''tool_choice'' (case set_tool_choice st of ChoiceAuto \<Rightarrow> ''auto'' | ChoiceNone \<Rightarrow> ''none'')]
         else []) @
        [jw_key ''input'', begin_array]))"

section \<open>Items\<close>

definition in_message :: "block \<Rightarrow> bool" where
  "in_message b = (case b of UserText _ \<Rightarrow> True | AssistantText _ \<Rightarrow> True | Media _ \<Rightarrow> True | _ \<Rightarrow> False)"

text \<open>The loop of \<open>group_end\<close> goes on while a block joins the message or writes nothing.\<close>

definition group_end :: "target \<Rightarrow> block list \<Rightarrow> nat \<Rightarrow> nat" where
  "group_end t blocks start =
     (if \<not> in_message (blocks ! start) then start + 1
      else let r = block_role (blocks ! start)
           in run_end (\<lambda>b. \<not> ((in_message b \<and> block_role b = r) \<or> \<not> writes t b)) blocks (start + 1))"

definition responses_cacheable :: "block \<Rightarrow> bool" where
  "responses_cacheable b = (case b of UserText _ \<Rightarrow> True | _ \<Rightarrow> False)"

definition responses_write_reasoning_item :: "string \<Rightarrow> string \<Rightarrow> json_writer \<Rightarrow> json_writer" where
  "responses_write_reasoning_item summary encrypted =
     steps [begin_object, field_str ''type'' ''reasoning'', jw_key ''summary'', begin_array, begin_object,
            field_str ''type'' ''summary_text'', field_str ''text'' summary, end_object, end_array,
            field_str ''encrypted_content'' encrypted, end_object]"

definition answers_search :: "block list \<Rightarrow> string \<Rightarrow> bool" where
  "answers_search before i =
     (case find_map (\<lambda>b. case b of
         ToolCall c \<Rightarrow> if call_id c = i then Some (call_name c = search_tool_name) else None
       | _ \<Rightarrow> None) (rev before) of
        Some x \<Rightarrow> x | None \<Rightarrow> False)"

definition responses_write_search_output :: "tool_result \<Rightarrow> json_writer \<Rightarrow> json_writer" where
  "responses_write_search_output r =
     steps ([begin_object, field_str ''type'' ''tool_search_output'', field_str ''execution'' ''client'',
             field_str ''call_id'' (result_call_id r), field_str ''status'' ''completed'', jw_key ''tools'', begin_array] @
            map (\<lambda>tool. responses_write_function_tool tool True) (result_loaded r) @
            [end_array, end_object])"

definition responses_write_file :: "blob_store option \<Rightarrow> media \<Rightarrow> unit writing" where
  "responses_write_file blobs m =
     (if media_filename m = [] then fails (Unsupported UnnamedDocument)
      else with_ok (read_blob blobs (media_blob m)) (\<lambda>data. does (steps
        [begin_object, field_str ''type'' ''input_file'', field_str ''filename'' (media_filename m), jw_key ''file_data'',
         jw_base64 (Some (media_mime m)) data, end_object])))"

definition responses_write_media :: "blob_store option \<Rightarrow> media \<Rightarrow> unit writing" where
  "responses_write_media blobs m =
     (case media_kind m of
        ModImage \<Rightarrow> with_ok (read_blob blobs (media_blob m)) (\<lambda>data. does (steps
          [begin_object, field_str ''type'' ''input_image'', jw_key ''image_url'',
           jw_base64 (Some (media_mime m)) data, field_str ''detail'' ''auto'', end_object]))
      | ModPdf \<Rightarrow> responses_write_file blobs m
      | ModText \<Rightarrow> responses_write_file blobs m
      | ModOther \<Rightarrow> responses_write_file blobs m
      | modality \<Rightarrow> fails (Unsupported (UnsupportedMedia modality)))"

definition responses_message_part :: "blob_store option \<Rightarrow> block \<Rightarrow> bool \<Rightarrow> unit writing" where
  "responses_message_part blobs b marked =
     (case b of
        UserText x \<Rightarrow> does (steps (
          [begin_object, field_str ''type'' ''input_text'', field_str ''text'' x] @
          (if marked
           then [jw_key ''prompt_cache_breakpoint'', begin_object, field_str ''mode'' ''explicit'', end_object]
           else []) @
          [end_object]))
      | AssistantText x \<Rightarrow>
          does (steps [begin_object, field_str ''type'' ''output_text'', field_str ''text'' x, end_object])
      | Media m \<Rightarrow> responses_write_media blobs m
      | _ \<Rightarrow> does (steps []))"

definition responses_write_message :: "blob_store option \<Rightarrow> role \<Rightarrow> (nat \<times> block) list \<Rightarrow> nat option \<Rightarrow> unit writing" where
  "responses_write_message blobs r parts marker =
     try_all (
       [does (steps [begin_object, field_str ''type'' ''message'', field_str ''role'' (role_as_str r),
                     jw_key ''content'', begin_array])] @
       map (\<lambda>(i, b). responses_message_part blobs b (marker = Some i)) parts @
       [does (steps [end_array, end_object])])"

definition responses_write_call :: "(string \<Rightarrow> bool) \<Rightarrow> bool \<Rightarrow> tool_call \<Rightarrow> json_writer \<Rightarrow> json_writer" where
  "responses_write_call is_json native c =
     steps ([begin_object] @
       (if call_name c = search_tool_name \<and> native
        then [field_str ''type'' ''tool_search_call'', field_str ''execution'' ''client'',
              field_str ''call_id'' (call_id c), field_str ''status'' ''completed'',
              field_raw ''arguments'' (arguments_object is_json (call_arguments c))]
        else [field_str ''type'' ''function_call'', field_str ''call_id'' (call_id c),
              field_str ''name'' (call_name c),
              field_str ''arguments'' (arguments_object is_json (call_arguments c))]) @
       [end_object])"

definition responses_write_result :: "blob_store option \<Rightarrow> tool_result \<Rightarrow> unit writing" where
  "responses_write_result blobs r =
     try_all (
       [does (steps [begin_object, field_str ''type'' ''function_call_output'', field_str ''call_id'' (result_call_id r),
                     jw_key ''output''])] @
       (if result_media r = [] then [does (jw_tool_text (result_content r) (result_is_error r))]
        else [does (steps (begin_array #
                (if result_content r \<noteq> [] \<or> result_is_error r
                 then [begin_object, field_str ''type'' ''input_text'', jw_key ''text'',
                       jw_tool_text (result_content r) (result_is_error r), end_object]
                 else [])))] @
             map (responses_write_media blobs) (result_media r) @
             [does end_array]) @
       [does end_object])"

definition responses_write_group ::
  "(string \<Rightarrow> bool) \<Rightarrow> target \<Rightarrow> request \<Rightarrow> nat \<Rightarrow> nat option \<Rightarrow> nat writing" where
  "responses_write_group is_json t rq start marker =
     (let blocks = rq_blocks rq;
          end = group_end t blocks start;
          native = defers_tools (rq_tools rq)
      in giving (
        case blocks ! start of
          Reasoning r \<Rightarrow>
            (case replay_to r t of
               Some (_, encrypted) \<Rightarrow> does (responses_write_reasoning_item (reasoning_text r) encrypted)
             | None \<Rightarrow> try_all [])
        | ToolCall c \<Rightarrow> does (responses_write_call is_json native c)
        | ToolResult r \<Rightarrow>
            if answers_search (take start blocks) (result_call_id r) \<and> native
            then does (responses_write_search_output r)
            else responses_write_result (rq_blobs rq) r
        | first \<Rightarrow>
            responses_write_message (rq_blobs rq) (block_role first) (indexed blocks start end) marker) end)"

section \<open>The laws of a group\<close>

lemma responses_forward1 [forward_simps]:
  "forward1 (responses_write_function_tool tool d)" "forward1 (responses_write_reasoning_item x y)"
  "forward1 (responses_write_call is_json n c)"
  by (auto simp: responses_write_function_tool_def responses_write_reasoning_item_def responses_write_call_def
      forward_simps)

lemma responses_search_forward [forward_simps]: "forward1 (responses_write_search_output r)"
  by (auto simp: responses_write_search_output_def forward_simps)

lemma responses_media_forward [forward_simps]:
  "forward (responses_write_media bs m)" "forward (responses_message_part bs b k)"
  by (auto simp: responses_write_media_def responses_write_file_def responses_message_part_def forward_simps
      split: modality.split block.split)

lemma responses_more_forward [forward_simps]:
  "forward (responses_write_message bs r ps mk)" "forward (responses_write_result bs res)"
  by (auto simp: responses_write_message_def responses_write_result_def forward_simps intro!: forward_try_all)

lemma responses_group_forward: "forward (responses_write_group is_json t rq s mk)"
  by (auto simp: responses_write_group_def Let_def forward_simps split: block.split option.split)

lemma responses_grows [grows_simps]:
  "grows1 (responses_write_reasoning_item x y)" "grows1 (responses_write_call is_json n c)"
  "grows1 (responses_write_search_output r)" "grows (responses_write_message bs ro ps mk)"
  "grows (responses_write_result bs r)"
  by (auto simp: responses_write_reasoning_item_def responses_write_call_def responses_write_search_output_def
      responses_write_message_def responses_write_result_def forward_simps grows_simps
      intro!: grows1_steps grows_try_all)

lemma responses_group_elements: "elements (responses_write_group is_json t rq s mk)"
  unfolding responses_write_group_def Let_def
  by (intro elements_giving)
    (auto simp: grows_simps intro!: elements_nothing intro: elements_grows split: block.split option.split)

lemma responses_group_end: "responses_write_group is_json t rq s mk w = (Inr e, w') \<Longrightarrow> e = group_end t (rq_blocks rq) s"
  by (simp add: responses_write_group_def Let_def)

lemma responses_group_bounds:
  "s < length (rq_blocks rq) \<Longrightarrow> responses_write_group is_json t rq s mk w = (Inr e, w') \<Longrightarrow>
     s < e \<and> e \<le> length (rq_blocks rq)"
  using run_end_ge [of "s + 1"] run_end_le [of "s + 1"]
  by (auto dest!: responses_group_end simp: group_end_def Let_def Suc_le_eq)

lemma responses_media_within [within_intros]:
  assumes "blob_answers bs \<subseteq>\<^sub>m blob_answers bs'"
  shows "within (responses_write_media bs m) (responses_write_media bs' m)"
    "within (responses_message_part bs b k) (responses_message_part bs' b k)"
    "within (responses_write_result bs r) (responses_write_result bs' r)"
proof -
  show media: "within (responses_write_media bs m) (responses_write_media bs' m)" for m
    using assms by (auto simp: responses_write_media_def responses_write_file_def split: modality.split
        intro!: within_intros dest: read_blob_within)
  show "within (responses_message_part bs b k) (responses_message_part bs' b k)"
    using media by (auto simp: responses_message_part_def split: block.split intro!: within_intros)
  show "within (responses_write_result bs r) (responses_write_result bs' r)"
    unfolding responses_write_result_def using media by (auto intro!: within_intros)
qed

lemma responses_group_local:
  assumes s: "same_start m (rq_blocks rq) mk (rq_blocks rq') mk'" "s < m"
    and b: "blob_answers (rq_blobs rq) \<subseteq>\<^sub>m blob_answers (rq_blobs rq')"
    and d: "defers_tools (rq_tools rq) = defers_tools (rq_tools rq')"
    and t: "origin_of t = origin_of t'" "wire_protocol (target_wire t) = wire_protocol (target_wire t')"
    and w: "responses_write_group is_json t rq s mk w = (Inr e, w')" "ends_alike e m (rq_blocks rq) (rq_blocks rq')"
  shows "responses_write_group is_json t' rq' s mk' w = (Inr e, w')"
proof -
  let ?bs = "rq_blocks rq" and ?bs' = "rq_blocks rq'"
  have nth: "?bs' ! s = ?bs ! s" and before: "take s ?bs' = take s ?bs"
    using same_start_nth [OF s] same_start_take [OF s(1), of s] s(2) by simp_all
  have rep: "replay_to r t' = replay_to r t" for r
    using t by (simp add: replay_to_def origin_matches_def split: option.split)
  have wr: "writes t' = writes t" by (simp add: writes_def rep fun_eq_iff split: block.split)
  have e: "e = group_end t ?bs s" using responses_group_end w(1) .
  note le = ends_alike_le [OF w(2)]
  have e': "group_end t' ?bs' s = e"
    using same_start_run_end [OF s(1), of "s + 1"] s(2) w(2) by (auto simp: e group_end_def Let_def nth wr)
  have i: "map (\<lambda>(i, b). responses_message_part x b (mk' = Some i)) (indexed ?bs' s e) =
      map (\<lambda>(i, b). responses_message_part x b (mk = Some i)) (indexed ?bs s e)" for x
    by (rule same_start_indexed [OF s(1) le, symmetric])
  have "within (responses_write_group is_json t rq s mk) (responses_write_group is_json t' rq' s mk')"
    unfolding responses_write_group_def Let_def e' e [symmetric] nth before rep d responses_write_message_def i
    by (auto intro!: within_intros b split: block.split option.split)
  then show ?thesis using w(1) by (simp add: within_def)
qed

end
