(* ===== verification/Wire_Requests.thy ===== *)
theory Wire_Requests
  imports Wire_Anthropic Wire_Chat Wire_Responses
begin

text \<open>
  The three serializers as one, \<open>crates/ai/src/wire.rs\<close>, and the contract that the encoder relies on. The
  contract is the locale \<open>element_writer\<close>: a group only appends to the buffer, it writes elements or nothing, it
  ends after its start, and it reads no more than the blocks up to its end, the settings of the element key, and
  the blobs. The serializers of the model meet it. From the contract alone follows what the encoder needs: how
  far a run of groups of one request is a run of groups of another one.
\<close>

section \<open>The serializer of a target\<close>

definition write_head :: "(f64 \<Rightarrow> string) \<Rightarrow> string \<Rightarrow> target \<Rightarrow> request \<Rightarrow> bool \<times> string" where
  "write_head fl out t rq =
     (case target_wire t of
        WireAnthropic wire \<Rightarrow> (False, jw_out (anthropic_write_head fl t wire rq (new_writer out)))
      | WireChat wire \<Rightarrow> (let (element, w) = chat_write_head fl t wire rq (new_writer out) in (element, jw_out w))
      | WireResponses wire \<Rightarrow> (False, jw_out (responses_write_head fl t wire rq (new_writer out))))"

definition write_group ::
  "(string \<Rightarrow> bool) \<Rightarrow> target \<Rightarrow> request \<Rightarrow> nat option \<Rightarrow> nat \<Rightarrow> nat writing" where
  "write_group is_json t rq marker start =
     (case target_wire t of
        WireAnthropic _ \<Rightarrow> anthropic_write_group is_json t rq start marker
      | WireChat wire \<Rightarrow> chat_write_group is_json t wire rq start
      | WireResponses _ \<Rightarrow> responses_write_group is_json t rq start marker)"

definition cache_index :: "wire \<Rightarrow> block list \<Rightarrow> nat option" where
  "cache_index wire blocks =
     (case wire of
        WireAnthropic facts \<Rightarrow> if anthropic_cache facts then rposition anthropic_cacheable blocks else None
      | WireResponses facts \<Rightarrow> if responses_cache facts then rposition responses_cacheable blocks else None
      | WireChat _ \<Rightarrow> None)"

text \<open>What the element key hashes: the protocol, the origin, the deferral of a tool, and the replay mode of Chat.\<close>

type_synonym key_data = "protocol \<times> origin \<times> bool \<times> reasoning_replay_mode option"

definition element_data :: "target \<Rightarrow> request \<Rightarrow> key_data" where
  "element_data t rq =
     (wire_protocol (target_wire t), origin_of t, defers_tools (rq_tools rq),
      case target_wire t of WireChat chat \<Rightarrow> Some (chat_reasoning_replay chat) | _ \<Rightarrow> None)"

section \<open>The contract\<close>

text \<open>A reached point of the groups of a request: the next block, the writer, and the elements with their first
  blocks and offsets. A group that writes nothing makes no element.\<close>

record element =
  el_block :: nat
  el_offset :: nat

type_synonym group_writer = "target \<Rightarrow> request \<Rightarrow> nat option \<Rightarrow> nat \<Rightarrow> nat writing"

inductive reached ::
  "group_writer \<Rightarrow> target \<Rightarrow> request \<Rightarrow> nat option \<Rightarrow> nat \<Rightarrow> json_writer \<Rightarrow> element list \<Rightarrow> bool"
  for wr t rq mk where
  reached_start: "reached wr t rq mk 0 \<lparr>jw_out = [], jw_comma = False\<rparr> []"
| reached_group: "reached wr t rq mk i w els \<Longrightarrow> i < length (rq_blocks rq) \<Longrightarrow> wr t rq mk i w = (Inr j, w') \<Longrightarrow>
     reached wr t rq mk j w'
       (if jw_out w' = jw_out w then els else els @ [\<lparr>el_block = i, el_offset = length (jw_out w)\<rparr>])"

inductive_cases reached_Cons: "reached wr t rq mk i w (els @ [el])"

definition agrees :: "nat \<Rightarrow> target \<Rightarrow> request \<Rightarrow> nat option \<Rightarrow> target \<Rightarrow> request \<Rightarrow> nat option \<Rightarrow> bool" where
  "agrees m t rq mk t' rq' mk' \<longleftrightarrow>
     same_start m (rq_blocks rq) mk (rq_blocks rq') mk' \<and>
     element_data t rq = element_data t' rq' \<and>
     blob_answers (rq_blobs rq) \<subseteq>\<^sub>m blob_answers (rq_blobs rq')"

locale element_writer =
  fixes wr :: group_writer
  assumes appends: "forward (wr t rq mk i)"
    and writes_elements: "elements (wr t rq mk i)"
    and moves_on: "i < length (rq_blocks rq) \<Longrightarrow> wr t rq mk i w = (Inr j, w') \<Longrightarrow> i < j \<and> j \<le> length (rq_blocks rq)"
    and reads_own: "agrees m t rq mk t' rq' mk' \<Longrightarrow> i < m \<Longrightarrow> wr t rq mk i w = (Inr j, w') \<Longrightarrow>
      ends_alike j m (rq_blocks rq) (rq_blocks rq') \<Longrightarrow> wr t' rq' mk' i w = (Inr j, w')"
begin

lemma reached_bounds: "reached wr t rq mk i w els \<Longrightarrow> i \<le> length (rq_blocks rq)"
  by (induction rule: reached.induct) (auto dest: moves_on)

text \<open>The comma flag tells whether the buffer holds an element.\<close>

lemma reached_comma: "reached wr t rq mk i w els \<Longrightarrow> jw_comma w = (jw_out w \<noteq> [])"
proof (induction rule: reached.induct)
  case (reached_group i w els j w')
  then have "w' = w \<or> (jw_comma w' \<and> (\<exists>t. t \<noteq> [] \<and> jw_out w' = jw_out w @ t))"
    using writes_elements unfolding elements_def by blast
  then show ?case using reached_group by auto
qed simp

lemma reached_writer: "reached wr t rq mk i w els \<Longrightarrow> w = \<lparr>jw_out = jw_out w, jw_comma = (jw_out w \<noteq> [])\<rparr>"
  using reached_comma [of t rq mk i w els] by (cases w) auto

text \<open>Each element starts at a reached point, and the buffer there is the start of the buffer now.\<close>

definition starts_reached ::
  "target \<Rightarrow> request \<Rightarrow> nat option \<Rightarrow> string \<Rightarrow> element list \<Rightarrow> bool" where
  "starts_reached t rq mk out els \<longleftrightarrow>
     (\<forall>k < length els. \<exists>w. reached wr t rq mk (el_block (els ! k)) w (take k els) \<and>
        el_block (els ! k) < length (rq_blocks rq) \<and>
        el_offset (els ! k) = length (jw_out w) \<and> prefix (jw_out w) out)"

lemma starts_reached_mono: "starts_reached t rq mk out els \<Longrightarrow> prefix out out' \<Longrightarrow> starts_reached t rq mk out' els"
  unfolding starts_reached_def by (meson prefix_order.trans)

lemma starts_reached_snoc:
  assumes "starts_reached t rq mk out els" "reached wr t rq mk i w els" "i < length (rq_blocks rq)" "prefix (jw_out w) out"
  shows "starts_reached t rq mk out (els @ [\<lparr>el_block = i, el_offset = length (jw_out w)\<rparr>])"
  using assms unfolding starts_reached_def by (auto simp: nth_append less_Suc_eq)

lemma group_prefix: "wr t rq mk i w = (r, w') \<Longrightarrow> prefix (jw_out w) (jw_out w')"
  using forward_appends [OF appends] by (fastforce simp: prefix_def)

lemma reached_starts: "reached wr t rq mk i w els \<Longrightarrow> starts_reached t rq mk (jw_out w) els"
proof (induction rule: reached.induct)
  case reached_start
  show ?case by (simp add: starts_reached_def)
next
  case (reached_group i w els j w')
  have "prefix (jw_out w) (jw_out w')" using group_prefix reached_group(3) .
  then show ?case
    using starts_reached_mono [OF reached_group.IH] starts_reached_snoc [OF _ reached_group(1,2)] by auto
qed

text \<open>A point that one request reached is a point of every request that agrees with it up to there.\<close>

lemma reached_agrees:
  assumes "reached wr t rq mk i w els" "agrees m t rq mk t' rq' mk'" "ends_alike i m (rq_blocks rq) (rq_blocks rq')"
  shows "reached wr t' rq' mk' i w els"
  using assms(1,3)
proof (induction rule: reached.induct)
  case reached_start
  show ?case by (rule reached.reached_start)
next
  case (reached_group i w els j w')
  have ij: "i < j" "j \<le> length (rq_blocks rq)" using moves_on reached_group(2,3) by blast+
  have j: "j \<le> m" using reached_group.prems ends_alike_le by blast
  then have i: "i < m" "ends_alike i m (rq_blocks rq) (rq_blocks rq')" using ij by (auto simp: ends_alike_def)
  have "i < length (rq_blocks rq')" using i assms(2) by (auto simp: agrees_def same_start_def)
  moreover have "wr t' rq' mk' i w = (Inr j, w')"
    using reads_own [OF assms(2) i(1) reached_group(3) reached_group.prems] .
  ultimately show ?case using reached_group.IH [OF i(2)] by (intro reached.reached_group)
qed

end

lemma element_data_parts:
  assumes "element_data t rq = element_data t' rq'"
  shows "wire_protocol (target_wire t) = wire_protocol (target_wire t')" "origin_of t = origin_of t'"
    "defers_tools (rq_tools rq) = defers_tools (rq_tools rq')"
    "target_wire t = WireChat c \<Longrightarrow> target_wire t' = WireChat c' \<Longrightarrow> chat_reasoning_replay c = chat_reasoning_replay c'"
  using assms by (auto simp: element_data_def)

interpretation requests: element_writer "write_group is_json" for is_json
proof
  fix t rq mk i
  show "forward (write_group is_json t rq mk i)"
    by (simp add: write_group_def anthropic_group_forward chat_group_forward responses_group_forward split: wire.split)
  show "elements (write_group is_json t rq mk i)"
    by (simp add: write_group_def anthropic_group_elements chat_group_elements responses_group_elements split: wire.split)
next
  fix i rq t mk w j w'
  assume "i < length (rq_blocks rq)" "write_group is_json t rq mk i w = (Inr j, w')"
  then show "i < j \<and> j \<le> length (rq_blocks rq)"
    by (cases "target_wire t") (auto simp: write_group_def dest: anthropic_group_bounds chat_group_bounds responses_group_bounds)
next
  fix m t rq mk t' rq' mk' i w j w'
  assume a: "agrees m t rq mk t' rq' mk'" and i: "i < m" and g: "write_group is_json t rq mk i w = (Inr j, w')"
    and e: "ends_alike j m (rq_blocks rq) (rq_blocks rq')"
  have s: "same_start m (rq_blocks rq) mk (rq_blocks rq') mk'" and b: "blob_answers (rq_blobs rq) \<subseteq>\<^sub>m blob_answers (rq_blobs rq')"
    and k: "element_data t rq = element_data t' rq'"
    using a by (simp_all add: agrees_def)
  note parts = element_data_parts [OF k]
  show "write_group is_json t' rq' mk' i w = (Inr j, w')"
  proof (cases "target_wire t")
    case (WireAnthropic c)
    then obtain c' where c': "target_wire t' = WireAnthropic c'" using parts(1) by (cases "target_wire t'") simp_all
    show ?thesis using anthropic_group_local [OF s i b parts(3,2,1) _ e] g WireAnthropic c' by (simp add: write_group_def)
  next
    case (WireChat c)
    then obtain c' where c': "target_wire t' = WireChat c'" using parts(1) by (cases "target_wire t'") simp_all
    show ?thesis using chat_group_local [OF s i b parts(2,1) _ _ e] parts(4) [OF WireChat c'] g WireChat c'
      by (simp add: write_group_def)
  next
    case (WireResponses c)
    then obtain c' where c': "target_wire t' = WireResponses c'" using parts(1) by (cases "target_wire t'") simp_all
    show ?thesis using responses_group_local [OF s i b parts(3,2,1) _ e] g WireResponses c' by (simp add: write_group_def)
  qed
qed

end
