(* ===== verification/Head_Text.thy ===== *)
theory Head_Text
  imports Wire
begin

text \<open>
  The URL and the headers of a request, \<open>crates/ai/src/wire/outgoing.rs\<close> and \<open>crates/ai/src/route.rs\<close>: the
  check of the headers that the caller gives, and the head that the encoder builds from a route and a credential.
  The theory proves that a head that the encoder builds splits no header line, writes no header of the
  transport, and carries its credential and its session in one header each.
\<close>

section \<open>Headers\<close>

fun credential_header_name :: "credential_header \<Rightarrow> string" where
  "credential_header_name XApiKey = ''x-api-key''"
| "credential_header_name AuthorizationBearer = ''Authorization''"
| "credential_header_name ApiKeyHeader = ''api-key''"

definition is_tchar :: "char \<Rightarrow> bool" where
  "is_tchar c = (c \<in> set [CHR ''!'', CHR ''#'', CHR ''$'', CHR ''%'', CHR ''&'', CHR 0x27, CHR ''*'', CHR ''+'',
     CHR ''-'', CHR ''.'', CHR ''^'', CHR ''_'', CHR 0x60, CHR ''|'', CHR ''~''] \<or> is_ascii_alphanumeric c)"

definition valid_header_name :: "string \<Rightarrow> bool" where
  "valid_header_name name = (name \<noteq> [] \<and> list_all is_tchar name)"

definition is_ascii_control :: "char \<Rightarrow> bool" where
  "is_ascii_control c = ((of_char c :: nat) < 32 \<or> (of_char c :: nat) = 127)"

definition valid_header_value :: "string \<Rightarrow> bool" where
  "valid_header_value value = list_all (\<lambda>c. c = CHR 0x09 \<or> \<not> is_ascii_control c) value"

definition transport_headers :: "string list" where
  "transport_headers =
     [''accept'', ''accept-encoding'', ''connection'', ''content-length'', ''content-type'', ''host'', ''te'',
      ''transfer-encoding'', ''upgrade'', ''user-agent'']"

definition eq_ignore_ascii_case :: "string \<Rightarrow> string \<Rightarrow> bool" where
  "eq_ignore_ascii_case a b = (map to_ascii_lowercase a = map to_ascii_lowercase b)"

definition valid_header :: "string list \<Rightarrow> header \<Rightarrow> bool" where
  "valid_header written h =
     (valid_header_name (header_name h) \<and> valid_header_value (header_value h) \<and>
      \<not> list_ex (\<lambda>owned. eq_ignore_ascii_case owned (header_name h)) (transport_headers @ written))"

definition invalid_header :: "header list \<Rightarrow> string list \<Rightarrow> string option" where
  "invalid_header headers written = map_option header_name (find (\<lambda>h. \<not> valid_header written h) headers)"

fun session_header_name :: "session_header \<Rightarrow> string option" where
  "session_header_name NoSessionHeader = None"
| "session_header_name SessionIdHeader = Some ''session-id''"
| "session_header_name XOpencodeSession = Some ''x-opencode-session''"

section \<open>The head\<close>

record head_text =
  ht_url :: string
  ht_headers :: "header list"
  ht_model :: string
  ht_base_url :: string

definition new_head :: head_text where
  "new_head = \<lparr>ht_url = [], ht_headers = [], ht_model = [], ht_base_url = []\<rparr>"

fun protocol_path :: "protocol \<Rightarrow> string" where
  "protocol_path AnthropicMessages = ''/messages''"
| "protocol_path OpenaiChat = ''/chat/completions''"
| "protocol_path OpenaiResponses = ''/responses''"

text \<open>The secret and the identity headers of a credential.\<close>

fun credential_parts :: "credential \<Rightarrow> string \<times> header list" where
  "credential_parts NoCredential = ([], [])"
| "credential_parts (ApiKey key) = (key, [])"
| "credential_parts (OAuth grant) = (access_token grant, grant_headers grant)"

definition or_else :: "'a option \<Rightarrow> 'a option \<Rightarrow> 'a option" where
  "or_else x y = (case x of None \<Rightarrow> y | Some a \<Rightarrow> Some a)"

definition route_session :: "route \<Rightarrow> string option \<Rightarrow> (string \<times> string) option" where
  "route_session r session_id =
     (case (session_header_name (route_session_header r), session_id) of
        (Some n, Some v) \<Rightarrow> Some (n, v) | _ \<Rightarrow> None)"

definition repeats_identity :: "header list \<Rightarrow> header list \<Rightarrow> string option" where
  "repeats_identity identity headers =
     map_option header_name
       (find (\<lambda>h. list_ex (\<lambda>own. eq_ignore_ascii_case (header_name own) (header_name h)) identity) headers)"

text \<open>The first name that the build refuses.\<close>

definition head_invalid :: "route \<Rightarrow> credential \<Rightarrow> (string \<times> string) option \<Rightarrow> string option" where
  "head_invalid r cred session =
     (let (secret, identity) = credential_parts cred;
          written = [case route_credential_header r of Some c \<Rightarrow> credential_header_name c | None \<Rightarrow> [],
                     case session of Some (n, _) \<Rightarrow> n | None \<Rightarrow> []]
      in or_else (invalid_header identity written)
        (or_else (invalid_header (route_headers r) written)
        (or_else (repeats_identity identity (route_headers r))
        (or_else (if \<not> valid_header_value secret then Some (written ! 0) else None)
         (case session of Some (n, v) \<Rightarrow> if \<not> valid_header_value v then Some n else None | None \<Rightarrow> None)))))"

definition head_build ::
  "target \<Rightarrow> credential \<Rightarrow> string option \<Rightarrow> head_text \<Rightarrow> (encode_error + unit) \<times> head_text" where
  "head_build t cred session_id h =
     (let r = target_route t; session = route_session r session_id in
      if (route_credential_header r = None) \<noteq> (cred = NoCredential) then (Inl CredentialMismatch, h)
      else case head_invalid r cred session of
        Some name \<Rightarrow> (Inl (InvalidHeader name), h)
      | None \<Rightarrow>
          (let origin = origin_of t;
               (secret, identity) = credential_parts cred;
               credential_headers = (case route_credential_header r of
                 Some c \<Rightarrow> [\<lparr>header_name = credential_header_name c,
                            header_value = (case c of AuthorizationBearer \<Rightarrow> ''Bearer '' | _ \<Rightarrow> []) @ secret\<rparr>]
               | None \<Rightarrow> [])
           in (Inr (),
               h\<lparr>ht_url := trim_end (\<lambda>c. c = CHR ''/'') (base_url r) @ protocol_path (wire_protocol (target_wire t)),
                 ht_model := origin_model origin, ht_base_url := origin_base_url origin,
                 ht_headers := credential_headers @ identity @ route_headers r @
                   (case session of Some (n, v) \<Rightarrow> [\<lparr>header_name = n, header_value = v\<rparr>] | None \<Rightarrow> [])\<rparr>)))"

definition head_origin :: "head_text \<Rightarrow> origin" where
  "head_origin h = \<lparr>origin_model = ht_model h, origin_base_url = ht_base_url h\<rparr>"

section \<open>What a built head holds\<close>

lemma or_else_None [simp]: "or_else x y = None \<longleftrightarrow> x = None \<and> y = None"
  by (simp add: or_else_def split: option.split)

lemma invalid_header_None [simp]: "invalid_header hs ws = None \<longleftrightarrow> (\<forall>h\<in>set hs. valid_header ws h)"
  by (auto simp: invalid_header_def find_None_iff)

text \<open>The headers of a name, in any letter case.\<close>

definition named :: "string \<Rightarrow> header list \<Rightarrow> header list" where
  "named n hs = filter (\<lambda>h. eq_ignore_ascii_case n (header_name h)) hs"

lemma named_simps [simp]: "named n [] = []" "named n (as @ bs) = named n as @ named n bs"
  "named n (h # hs) = (if eq_ignore_ascii_case n (header_name h) then h # named n hs else named n hs)"
  by (simp_all add: named_def)

lemma named_valid: "\<forall>h\<in>set hs. valid_header ws h \<Longrightarrow> n \<in> set ws \<Longrightarrow> named n hs = []"
  by (auto simp: named_def valid_header_def list_ex_iff filter_empty_conv)

text \<open>A name and a value that cannot split a header line, and a name that is not the transport's own.\<close>

definition safe_header :: "header \<Rightarrow> bool" where
  "safe_header h = valid_header [] h"

lemma valid_header_safe: "valid_header ws h \<Longrightarrow> safe_header h"
  by (auto simp: valid_header_def safe_header_def list_ex_iff)

lemma credential_name_valid: "valid_header_name (credential_header_name c)"
  by (cases c) (simp_all add: valid_header_name_def is_tchar_def is_ascii_alphanumeric_def)

lemma session_name_valid: "session_header_name s = Some n \<Longrightarrow> valid_header_name n"
  by (cases s) (auto simp: valid_header_name_def is_tchar_def is_ascii_alphanumeric_def)

lemma char_of_97: "char_of (97::nat) = CHR ''a''"
proof -
  have "(97::nat) = of_char CHR ''a''" by simp
  then show ?thesis by (simp only: char_of_char)
qed

lemma lower_credential_name:
  "map to_ascii_lowercase (credential_header_name c) \<in> {''x-api-key'', ''authorization'', ''api-key''}"
  by (cases c) (simp_all add: to_ascii_lowercase_def char_of_97)

lemma lower_session_name:
  "session_header_name s = Some n \<Longrightarrow> map to_ascii_lowercase n \<in> {''session-id'', ''x-opencode-session''}"
  by (cases s) (auto simp: to_ascii_lowercase_def)

lemma lower_transport_names: "map (map to_ascii_lowercase) transport_headers = transport_headers"
  by (simp add: transport_headers_def to_ascii_lowercase_def)

lemma bearer_valid: "valid_header_value (''Bearer '' @ s) = valid_header_value s"
  by (simp add: valid_header_value_def is_ascii_control_def)

lemma owned_header_safe:
  assumes "valid_header_name n" "map to_ascii_lowercase n \<notin> set transport_headers" "valid_header_value v"
  shows "safe_header \<lparr>header_name = n, header_value = v\<rparr>"
proof -
  have "set transport_headers = map to_ascii_lowercase ` set transport_headers"
    using arg_cong [OF lower_transport_names, of set] by simp
  then have "map to_ascii_lowercase owned \<in> set transport_headers" if "owned \<in> set transport_headers" for owned
    using that by (metis image_eqI)
  then show ?thesis
    using assms by (auto simp: safe_header_def valid_header_def list_ex_iff eq_ignore_ascii_case_def) (metis assms(2))
qed

lemma credential_header_safe:
  "valid_header_value v \<Longrightarrow> safe_header \<lparr>header_name = credential_header_name c, header_value = v\<rparr>"
  using lower_credential_name [of c]
  by (intro owned_header_safe credential_name_valid) (auto simp: transport_headers_def)

lemma session_header_safe:
  "session_header_name s = Some n \<Longrightarrow> valid_header_value v \<Longrightarrow> safe_header \<lparr>header_name = n, header_value = v\<rparr>"
  using lower_session_name [of s n]
  by (intro owned_header_safe session_name_valid) (auto simp: transport_headers_def)

lemma names_differ:
  "session_header_name s = Some n \<Longrightarrow> \<not> eq_ignore_ascii_case (credential_header_name c) n"
  "session_header_name s = Some n \<Longrightarrow> \<not> eq_ignore_ascii_case n (credential_header_name c)"
  using lower_session_name [of s n] lower_credential_name [of c] by (auto simp: eq_ignore_ascii_case_def)

lemma eq_ignore_refl [simp]: "eq_ignore_ascii_case n n"
  by (simp add: eq_ignore_ascii_case_def)

text \<open>What a successful build checked and what it wrote.\<close>

lemma head_build_ok:
  fixes t cred
  defines "r \<equiv> target_route t" and "secret \<equiv> fst (credential_parts cred)" and "identity \<equiv> snd (credential_parts cred)"
  defines "written \<equiv> \<lambda>session. [case route_credential_header r of Some c \<Rightarrow> credential_header_name c | None \<Rightarrow> [],
                        case session of Some (n, _) \<Rightarrow> n | None \<Rightarrow> []]"
  assumes "head_build t cred session_id h = (Inr (), h')" "session = route_session r session_id"
  shows "(route_credential_header r = None) = (cred = NoCredential)"
    "\<forall>x\<in>set identity. valid_header (written session) x" "\<forall>x\<in>set (route_headers r). valid_header (written session) x"
    "repeats_identity identity (route_headers r) = None" "valid_header_value secret"
    "session = Some (n, v) \<Longrightarrow> valid_header_value v"
    "ht_headers h' =
       (case route_credential_header r of
          Some c \<Rightarrow> [\<lparr>header_name = credential_header_name c,
                     header_value = (case c of AuthorizationBearer \<Rightarrow> ''Bearer '' | _ \<Rightarrow> []) @ secret\<rparr>]
        | None \<Rightarrow> []) @ identity @ route_headers r @
       (case session of Some (n, v) \<Rightarrow> [\<lparr>header_name = n, header_value = v\<rparr>] | None \<Rightarrow> [])"
    "head_origin h' = origin_of t"
  using assms(5,6) unfolding r_def secret_def identity_def written_def
  by (auto simp: head_build_def head_invalid_def Let_def head_origin_def split: if_splits prod.splits option.splits)

text \<open>C29: A head that the encoder builds splits no header line and repeats no header that is not the caller's to
  repeat: each of its headers has a token as its name and a value without control bytes, none is a header that
  the transport writes, the credential is in exactly one header and the session id in exactly one, in any letter
  case, and no header of the route repeats an identity header of the credential.\<close>

theorem head_is_safe:
  assumes "head_build t cred session_id h = (Inr (), h')"
  shows "(\<forall>x\<in>set (ht_headers h'). safe_header x)
    \<and> (case route_credential_header (target_route t) of
         None \<Rightarrow> cred = NoCredential
       | Some c \<Rightarrow> named (credential_header_name c) (ht_headers h') =
           [\<lparr>header_name = credential_header_name c,
             header_value = (case c of AuthorizationBearer \<Rightarrow> ''Bearer '' | _ \<Rightarrow> []) @ fst (credential_parts cred)\<rparr>])
    \<and> (case route_session (target_route t) session_id of
         None \<Rightarrow> True
       | Some (n, v) \<Rightarrow> named n (ht_headers h') = [\<lparr>header_name = n, header_value = v\<rparr>])
    \<and> (\<forall>x\<in>set (route_headers (target_route t)). named (header_name x) (snd (credential_parts cred)) = [])
    \<and> head_origin h' = origin_of t"
proof -
  let ?r = "target_route t" and ?s = "route_session (target_route t) session_id"
  note ok = head_build_ok [OF assms refl]
  have safe_secret: "valid_header_value ((case c of AuthorizationBearer \<Rightarrow> ''Bearer '' | _ \<Rightarrow> []) @ fst (credential_parts cred))" for c
    using ok(5) bearer_valid by (cases c) simp_all
  have session: "session_header_name (route_session_header ?r) = Some n \<and> valid_header_value v" if "?s = Some (n, v)" for n v
    using that ok(6) [OF that] by (auto simp: route_session_def split: option.splits)
  have safe: "\<forall>x\<in>set (ht_headers h'). safe_header x"
    unfolding ok(7) using ok(2,3) safe_secret session
    by (auto intro: credential_header_safe session_header_safe valid_header_safe split: option.splits)
  have credential: "named (credential_header_name c) (ht_headers h') =
      [\<lparr>header_name = credential_header_name c,
        header_value = (case c of AuthorizationBearer \<Rightarrow> ''Bearer '' | _ \<Rightarrow> []) @ fst (credential_parts cred)\<rparr>]"
    if c: "route_credential_header ?r = Some c" for c
    using c ok(7) named_valid [OF ok(2)] named_valid [OF ok(3)] session names_differ by (auto split: option.split)
  have one: "named n (ht_headers h') = [\<lparr>header_name = n, header_value = v\<rparr>]" if s: "?s = Some (n, v)" for n v
    using s ok(7) named_valid [OF ok(2)] named_valid [OF ok(3)] session [OF s] names_differ by (auto split: option.split)
  have "named (header_name x) (snd (credential_parts cred)) = []" if "x \<in> set (route_headers ?r)" for x
    using ok(4) that unfolding repeats_identity_def
    by (fastforce simp: find_None_iff list_ex_iff named_def filter_empty_conv eq_ignore_ascii_case_def)
  then show ?thesis
    using safe credential one ok(1,8) by (auto split: option.split prod.split)
qed

definition example_route :: route where
  "example_route = \<lparr>base_url = ''https://h/v1/'', route_credential_header = Some AuthorizationBearer,
     route_headers = [\<lparr>header_name = ''x-a'', header_value = ''1''\<rparr>], route_session_header = SessionIdHeader\<rparr>"

definition example_target :: target where
  "example_target = \<lparr>target_model = ''m'', target_route = example_route,
     target_wire = WireAnthropic \<lparr>anthropic_max_tokens = 8, anthropic_cache = True\<rparr>, tool_search = False\<rparr>"

lemma example_head_builds: "\<exists>h'. head_build example_target (ApiKey ''k'') (Some ''s'') new_head = (Inr (), h')"
  by (simp add: head_build_def head_invalid_def Let_def example_target_def example_route_def route_session_def repeats_identity_def
      invalid_header_def or_else_def char_of_97 valid_header_def transport_headers_def valid_header_name_def valid_header_value_def is_tchar_def
      is_ascii_alphanumeric_def is_ascii_control_def eq_ignore_ascii_case_def to_ascii_lowercase_def)

theorem head_is_safe_witness:
  "\<exists>h'. head_build example_target (ApiKey ''k'') (Some ''s'') new_head = (Inr (), h') \<and>
        (\<forall>x\<in>set (ht_headers h'). safe_header x)"
  using example_head_builds head_is_safe by blast

end
