(* ===== verification/Encoder.thy ===== *)
theory Encoder
  imports Wire_Requests Head_Text
begin

text \<open>
  The encoder of requests, \<open>crates/ai/src/encoder.rs\<close>. It keeps the encoded elements of the last request in one
  buffer with the head behind them, a hash of each block, the offset of each element, and a hash of the settings
  that the elements read. The next request writes only what changed, the last element, and the head.

  The two hashes are parameters (\<open>wyhash.rs\<close> on the bytes that the derived \<open>Hash\<close> feeds it), as are the decimal
  text of a float and the check of a JSON text. The spare buffer that a dropped encoder leaves to the next one is
  empty, so it has no model: only its capacity is reused.

  The theory proves that an encoder with any history, failed calls included, gives what a new encoder gives.
\<close>

section \<open>The encoder\<close>

record encoder_env =
  en_float :: "f64 \<Rightarrow> string"
  en_is_json :: "string \<Rightarrow> bool"
  en_hash_block :: "block \<times> bool \<Rightarrow> u64"
  en_hash_key :: "key_data \<Rightarrow> u64"

record encoder =
  enc_items :: string
  enc_hashes :: "u64 list"
  enc_elements :: "element list"
  enc_key :: u64
  enc_elements_end :: "nat option"
  enc_head :: head_text

record outgoing =
  og_url :: string
  og_headers :: "header list"
  og_body :: "string list"

record encoded =
  encd_http :: outgoing
  encd_protocol :: protocol
  encd_origin :: origin

definition new_encoder :: encoder where
  "new_encoder = \<lparr>enc_items = [], enc_hashes = [], enc_elements = [], enc_key = 0, enc_elements_end = None,
                  enc_head = new_head\<rparr>"

definition element_key :: "encoder_env \<Rightarrow> target \<Rightarrow> request \<Rightarrow> u64" where
  "element_key env t rq = en_hash_key env (element_data t rq)"

definition hash_block :: "encoder_env \<Rightarrow> block \<Rightarrow> bool \<Rightarrow> u64" where
  "hash_block env b marked = en_hash_block env (b, marked)"

definition keep :: "encoder_env \<Rightarrow> u64 \<Rightarrow> block list \<Rightarrow> nat option \<Rightarrow> encoder \<Rightarrow> nat \<times> encoder" where
  "keep env key blocks marker e0 =
     (let complete = enc_elements_end e0; e = e0\<lparr>enc_elements_end := None, enc_key := key\<rparr> in
      if enc_key e0 \<noteq> key then (0, e\<lparr>enc_items := [], enc_hashes := [], enc_elements := []\<rparr>)
      else
        (let same = length (takeWhile (\<lambda>(i, h, b). h = hash_block env b (marker = Some i))
                       (List.enumerate 0 (zip (enc_hashes e) blocks))) in
         case (if same = length blocks \<and> same = length (enc_hashes e) then complete else None) of
           Some end \<Rightarrow> (same, e\<lparr>enc_items := take end (enc_items e)\<rparr>)
         | None \<Rightarrow>
             (let e = e\<lparr>enc_hashes := take same (enc_hashes e)\<rparr> in
              case dropWhile (\<lambda>el. \<not> el_block el < same) (rev (enc_elements e)) of
                el # rest \<Rightarrow>
                  (el_block el, e\<lparr>enc_elements := rev rest, enc_items := take (el_offset el) (enc_items e)\<rparr>)
              | [] \<Rightarrow> (0, e\<lparr>enc_elements := [], enc_items := []\<rparr>))))"

text \<open>The loop of \<open>serialize\<close>. Its groups move on, so it ends.\<close>

function write_groups ::
  "(string \<Rightarrow> bool) \<Rightarrow> target \<Rightarrow> request \<Rightarrow> nat option \<Rightarrow> nat \<Rightarrow> json_writer \<Rightarrow> element list \<Rightarrow>
     (encode_error + unit) \<times> json_writer \<times> element list" where
  "write_groups is_json t rq marker start w els =
     (if start < length (rq_blocks rq) then
        (let offset = length (jw_out w); els1 = els @ [\<lparr>el_block = start, el_offset = offset\<rparr>] in
         case write_group is_json t rq marker start w of
           (Inl err, w') \<Rightarrow> (Inl err, w', els1)
         | (Inr end, w') \<Rightarrow>
             write_groups is_json t rq marker end w' (if length (jw_out w') = offset then butlast els1 else els1))
      else (Inr (), w, els))"
  by pat_completeness auto
termination
  by (relation "measure (\<lambda>(is_json, t, rq, marker, start, w, els). length (rq_blocks rq) - start)")
    (auto dest!: requests.moves_on [OF _ sym])

declare write_groups.simps [simp del]

definition marker_of :: "target \<Rightarrow> request \<Rightarrow> nat option" where
  "marker_of t rq = cache_index (target_wire t) (cacheable_blocks rq)"

definition serialize :: "encoder_env \<Rightarrow> target \<Rightarrow> request \<Rightarrow> encoder \<Rightarrow> (encode_error + nat) \<times> encoder" where
  "serialize env t rq e0 =
     (let blocks = rq_blocks rq;
          key = element_key env t rq;
          marker = marker_of t rq;
          (from, e1) = keep env key blocks marker e0;
          hashed = length (enc_hashes e1);
          e2 = e1\<lparr>enc_hashes := enc_hashes e1 @
                  map (\<lambda>(i, b). hash_block env b (marker = Some i)) (drop hashed (List.enumerate 0 blocks))\<rparr>;
          jw = \<lparr>jw_out = enc_items e2, jw_comma = (enc_items e2 \<noteq> [])\<rparr>;
          (r, jw', els) = write_groups (en_is_json env) t rq marker from jw (enc_elements e2);
          e3 = e2\<lparr>enc_items := jw_out jw', enc_elements := els\<rparr>
      in case r of
           Inl err \<Rightarrow> (Inl err, e3)
         | Inr _ \<Rightarrow>
             (let elements_end = length (enc_items e3);
                  (head_element, items) = write_head (en_float env) (enc_items e3) t rq
              in (Inr elements_end,
                  e3\<lparr>enc_elements_end := Some elements_end,
                     enc_items := (if head_element \<and> elements_end \<noteq> 0 then items @ '','' else items)\<rparr>)))"

definition f64_is_finite :: "f64 \<Rightarrow> bool" where
  "f64_is_finite x = (and (drop_bit 52 x) 0x7FF \<noteq> 0x7FF)"

definition encode ::
  "encoder_env \<Rightarrow> target \<Rightarrow> credential \<Rightarrow> request \<Rightarrow> encoder \<Rightarrow> (encode_error + encoded) \<times> encoder" where
  "encode env t cred rq e =
     (let st = rq_settings rq;
          searches = (tool_search t \<and> wire_protocol (target_wire t) \<noteq> OpenaiChat)
      in if \<not> list_all f64_is_finite (filter_map id [temperature st, top_p st]) then (Inl InvalidSampling, e)
         else if \<not> searches \<and> defers_tools (rq_tools rq) then (Inl (Unsupported DeferredTool), e)
         else
           (case head_build t cred (rq_session_id rq) (enc_head e) of
              (Inl err, h) \<Rightarrow> (Inl err, e\<lparr>enc_head := h\<rparr>)
            | (Inr _, h) \<Rightarrow>
                (case serialize env t rq (e\<lparr>enc_head := h\<rparr>) of
                   (Inl err, e') \<Rightarrow> (Inl err, e')
                 | (Inr elements_end, e') \<Rightarrow>
                     (Inr \<lparr>encd_http = \<lparr>og_url = ht_url (enc_head e'), og_headers = ht_headers (enc_head e'),
                             og_body = [drop elements_end (enc_items e'), take elements_end (enc_items e'), '']}'']\<rparr>,
                           encd_protocol = wire_protocol (target_wire t),
                           encd_origin = head_origin (enc_head e')\<rparr>,
                      e'))))"

section \<open>The loop and the reached points\<close>

abbreviation reach :: "(string \<Rightarrow> bool) \<Rightarrow> target \<Rightarrow> request \<Rightarrow> nat option \<Rightarrow> nat \<Rightarrow> json_writer \<Rightarrow> element list \<Rightarrow> bool" where
  "reach is_json \<equiv> reached (write_group is_json)"

lemma prefix_same_length: "prefix xs ys \<Longrightarrow> (length ys = length xs) = (ys = xs)"
  by (auto simp: prefix_def)

lemma same_length_same_out:
  "write_group is_json t rq mk i w = (r, w') \<Longrightarrow> (length (jw_out w') = length (jw_out w)) = (jw_out w' = jw_out w)"
  using requests.group_prefix by (metis prefix_same_length)

text \<open>The loop from a reached point is the loop from the start.\<close>

lemma loop_from_reached:
  "reach is_json t rq mk i w els \<Longrightarrow>
     write_groups is_json t rq mk i w els = write_groups is_json t rq mk 0 \<lparr>jw_out = [], jw_comma = False\<rparr> []"
proof (induction rule: reached.induct)
  case (reached_group i w els j w')
  then show ?case
    using same_length_same_out [OF reached_group(3)]
    by (subst (asm) (1) write_groups.simps) (auto simp: Let_def split: if_splits)
qed simp

text \<open>A request with a store that holds every blob that any store of the encoder gave.\<close>

definition ideal :: "blob_store \<Rightarrow> request \<Rightarrow> request" where
  "ideal S rq = rq\<lparr>rq_blobs := Some S\<rparr>"

lemma ideal_simps [simp]:
  "rq_blocks (ideal S rq) = rq_blocks rq" "rq_tools (ideal S rq) = rq_tools rq" "rq_settings (ideal S rq) = rq_settings rq"
  "rq_session_id (ideal S rq) = rq_session_id rq" "rq_blobs (ideal S rq) = Some S"
  "marker_of t (ideal S rq) = marker_of t rq" "element_data t (ideal S rq) = element_data t rq"
  "rq_system (ideal S rq) = rq_system rq" "ideal S (ideal S rq) = ideal S rq"
  by (simp_all add: ideal_def marker_of_def cacheable_blocks_def element_data_def split: option.split)

lemma group_ideal:
  assumes "blob_answers (rq_blobs rq) \<subseteq>\<^sub>m blob_answers (Some S)" "i < length (rq_blocks rq)"
    and "write_group is_json t rq mk i w = (Inr j, w')"
  shows "write_group is_json t (ideal S rq) mk i w = (Inr j, w')"
proof -
  have "agrees (length (rq_blocks rq)) t rq mk t (ideal S rq) mk"
    using assms(1) by (simp add: agrees_def same_start_def)
  moreover have "ends_alike j (length (rq_blocks rq)) (rq_blocks rq) (rq_blocks (ideal S rq))"
    using requests.moves_on [OF assms(2,3)] by (simp add: ends_alike_def)
  ultimately show ?thesis using requests.reads_own assms(2,3) by blast
qed

text \<open>What the loop gives when it starts at a reached point: the end of the request, or a failed element that
  starts at a reached point.\<close>

lemma loop_step:
  assumes "i < length (rq_blocks rq)" "write_group is_json t rq mk i w = (Inr j, v)"
  shows "write_groups is_json t rq mk i w els =
    write_groups is_json t rq mk j v
      (if jw_out v = jw_out w then els else els @ [\<lparr>el_block = i, el_offset = length (jw_out w)\<rparr>])"
  using assms same_length_same_out [OF assms(2)] by (subst write_groups.simps) (simp add: Let_def)

lemma loop_fails_here:
  assumes "i < length (rq_blocks rq)" "write_group is_json t rq mk i w = (Inl err, v)"
  shows "write_groups is_json t rq mk i w els = (Inl err, v, els @ [\<lparr>el_block = i, el_offset = length (jw_out w)\<rparr>])"
  using assms by (subst write_groups.simps) (simp add: Let_def)

lemma loop_reaches:
  assumes "blob_answers (rq_blobs rq) \<subseteq>\<^sub>m blob_answers (Some S)"
    and "reach is_json t (ideal S rq) mk i w els" "write_groups is_json t rq mk i w els = (r, w', els')"
  shows "case r of
     Inr _ \<Rightarrow> reach is_json t (ideal S rq) mk (length (rq_blocks rq)) w' els'
   | Inl _ \<Rightarrow> requests.starts_reached is_json t (ideal S rq) mk (jw_out w') els'"
  using assms(2,3)
proof (induction "length (rq_blocks rq) - i" arbitrary: i w els rule: less_induct)
  case less
  have le: "i \<le> length (rq_blocks rq)" using requests.reached_bounds [OF less(2)] by simp
  show ?case
  proof (cases "i < length (rq_blocks rq)")
    case False
    then have "write_groups is_json t rq mk i w els = (Inr (), w, els)" by (subst write_groups.simps) simp
    then show ?thesis using less(2,3) le False by auto
  next
    case True
    obtain g v where g: "write_group is_json t rq mk i w = (g, v)" by fastforce
    show ?thesis
    proof (cases g)
      case (Inl err)
      then have "(r, w', els') = (Inl err, v, els @ [\<lparr>el_block = i, el_offset = length (jw_out w)\<rparr>])"
        using less(3) loop_fails_here [OF True g [unfolded Inl]] by simp
      moreover have "prefix (jw_out w) (jw_out v)" by (rule requests.group_prefix [OF g])
      ultimately show ?thesis
        using requests.starts_reached_snoc [OF requests.starts_reached_mono [OF requests.reached_starts [OF less(2)]] less(2)]
          True by auto
    next
      case (Inr j)
      note step = g [unfolded Inr]
      have shrinks: "length (rq_blocks rq) - j < length (rq_blocks rq) - i" using requests.moves_on [OF True step] True by (auto intro: diff_less_mono2)
      have there: "reach is_json t (ideal S rq) mk j v
          (if jw_out v = jw_out w then els else els @ [\<lparr>el_block = i, el_offset = length (jw_out w)\<rparr>])"
        using reached_group [OF less(2) _ group_ideal [OF assms(1) True step]] True by simp
      show ?thesis by (rule less(1) [OF shrinks there]) (use less(3) loop_step [OF True step] in simp)
    qed
  qed
qed

text \<open>When the loop from the start succeeds without the ideal store, it goes through every point that a run with
  the ideal store reaches.\<close>

lemma reached_by_success:
  assumes b: "blob_answers (rq_blobs rq) \<subseteq>\<^sub>m blob_answers (Some S)"
    and full: "write_groups is_json t rq mk 0 \<lparr>jw_out = [], jw_comma = False\<rparr> [] = (Inr x, w', els')"
    and "reach is_json t (ideal S rq) mk i w els"
  shows "reach is_json t rq mk i w els"
  using assms(3)
proof (induction rule: reached.induct)
  case reached_start
  show ?case by (rule reached.reached_start)
next
  case (reached_group i w els j v)
  have i: "i < length (rq_blocks rq)" using reached_group(2) by simp
  have "write_groups is_json t rq mk i w els = (Inr x, w', els')"
    using loop_from_reached [OF reached_group.IH] full by simp
  then obtain j' v' where g: "write_group is_json t rq mk i w = (Inr j', v')"
    using loop_fails_here [OF i] by (cases "write_group is_json t rq mk i w"; cases "fst (write_group is_json t rq mk i w)") auto
  then have "j' = j" "v' = v" using group_ideal [OF b i g] reached_group(3) by simp_all
  then show ?case using reached.reached_group [OF reached_group.IH i] g by simp
qed

section \<open>What an encoder holds\<close>

definition marked_blocks :: "block list \<Rightarrow> nat option \<Rightarrow> (block \<times> bool) list" where
  "marked_blocks bs mk = map (\<lambda>(i, b). (b, mk = Some i)) (List.enumerate 0 bs)"

lemma marked_blocks_nth [simp]: "i < length bs \<Longrightarrow> marked_blocks bs mk ! i = (bs ! i, mk = Some i)"
  by (simp add: marked_blocks_def nth_enumerate_eq)

lemma length_marked_blocks [simp]: "length (marked_blocks bs mk) = length bs"
  by (simp add: marked_blocks_def)

text \<open>The hashes of the requests that an encoder has seen tell apart what they hash.\<close>

definition collision_free :: "encoder_env \<Rightarrow> (target \<times> request) set \<Rightarrow> bool" where
  "collision_free env seen \<longleftrightarrow>
     inj_on (en_hash_block env) (\<Union>(t, rq)\<in>seen. set (marked_blocks (rq_blocks rq) (marker_of t rq))) \<and>
     inj_on (en_hash_key env) ((\<lambda>(t, rq). element_data t rq) ` seen)"

text \<open>The encoder holds the elements of one request: all of them after a success, and some from the start after a
  failure, the last of them perhaps cut off.\<close>

definition holds :: "encoder_env \<Rightarrow> blob_store \<Rightarrow> target \<Rightarrow> request \<Rightarrow> encoder \<Rightarrow> bool" where
  "holds env S t rq e \<longleftrightarrow>
     (let at = reach (en_is_json env) t (ideal S rq) (marker_of t rq) in
      enc_key e = element_key env t rq \<and>
      enc_hashes e = map (en_hash_block env) (marked_blocks (rq_blocks rq) (marker_of t rq)) \<and>
      requests.starts_reached (en_is_json env) t (ideal S rq) (marker_of t rq) (enc_items e) (enc_elements e) \<and>
      (\<forall>n. enc_elements_end e = Some n \<longrightarrow>
         (\<exists>w. at (length (rq_blocks rq)) w (enc_elements e) \<and> jw_out w = take n (enc_items e))))"

definition holds_nothing :: "encoder \<Rightarrow> bool" where
  "holds_nothing e \<longleftrightarrow> enc_hashes e = [] \<and> enc_elements e = [] \<and> enc_elements_end e = None"

definition encoder_ok :: "encoder_env \<Rightarrow> blob_store \<Rightarrow> (target \<times> request) set \<Rightarrow> encoder \<Rightarrow> bool" where
  "encoder_ok env S seen e \<longleftrightarrow> holds_nothing e \<or> (\<exists>(t, rq)\<in>seen. holds env S t rq e)"

section \<open>What stays\<close>

text \<open>The count of equal hashes is a count of equal blocks with equal markers.\<close>

definition same_count :: "encoder_env \<Rightarrow> u64 list \<Rightarrow> block list \<Rightarrow> nat option \<Rightarrow> nat" where
  "same_count env hashes bs mk =
     length (takeWhile (\<lambda>(i, h, b). h = hash_block env b (mk = Some i)) (List.enumerate 0 (zip hashes bs)))"

lemma same_count_le: "same_count env hs bs mk \<le> length hs" "same_count env hs bs mk \<le> length bs"
  using length_takeWhile_le [of "\<lambda>(i, h, b). h = hash_block env b (mk = Some i)" "List.enumerate 0 (zip hs bs)"]
  by (simp_all add: same_count_def)

lemma same_count_nth:
  assumes "i < same_count env hs bs mk"
  shows "hs ! i = en_hash_block env (bs ! i, mk = Some i)"
proof -
  let ?P = "\<lambda>(i, h, b). h = hash_block env b (mk = Some i)" and ?xs = "List.enumerate 0 (zip hs bs)"
  have len: "i < length hs" "i < length bs" using assms same_count_le [of env hs bs mk] by simp_all
  have "takeWhile ?P ?xs ! i = ?xs ! i" using assms by (simp add: same_count_def takeWhile_nth)
  moreover have "?P (takeWhile ?P ?xs ! i)"
    using assms by (metis (no_types, lifting) nth_mem same_count_def set_takeWhileD)
  ultimately show ?thesis using len by (simp add: nth_enumerate_eq hash_block_def)
qed

lemma same_count_start:
  assumes c: "collision_free env seen" and seen: "(t, rq) \<in> seen" "(t', rq') \<in> seen"
    and hs: "hs = map (en_hash_block env) (marked_blocks (rq_blocks rq) (marker_of t rq))"
    and m: "m = same_count env hs (rq_blocks rq') (marker_of t' rq')"
  shows "same_start m (rq_blocks rq) (marker_of t rq) (rq_blocks rq') (marker_of t' rq')"
proof -
  let ?bs = "rq_blocks rq" and ?bs' = "rq_blocks rq'"
  have len: "m \<le> length ?bs" "m \<le> length ?bs'" using same_count_le m hs by (metis length_map length_marked_blocks)+
  have same: "?bs ! i = ?bs' ! i \<and> (marker_of t rq = Some i) = (marker_of t' rq' = Some i)" if i: "i < m" for i
  proof -
    have l: "i < length ?bs" "i < length ?bs'" using i len by simp_all
    have h: "en_hash_block env (?bs ! i, marker_of t rq = Some i) = en_hash_block env (?bs' ! i, marker_of t' rq' = Some i)"
      using same_count_nth [of i env hs ?bs'] i m hs l by simp
    have "(?bs ! i, marker_of t rq = Some i) \<in> set (marked_blocks ?bs (marker_of t rq))"
      "(?bs' ! i, marker_of t' rq' = Some i) \<in> set (marked_blocks ?bs' (marker_of t' rq'))"
      using l by (metis length_marked_blocks marked_blocks_nth nth_mem)+
    then have "(?bs ! i, marker_of t rq = Some i) = (?bs' ! i, marker_of t' rq' = Some i)"
      using c h seen unfolding collision_free_def by (blast dest: inj_onD)
    then show ?thesis by simp
  qed
  then show ?thesis
    using len by (auto simp: same_start_def intro!: nth_equalityI)
qed

lemma same_count_hashes:
  assumes "m = same_count env hs bs mk"
  shows "take m hs = take m (map (en_hash_block env) (marked_blocks bs mk))"
  using same_count_le [of env hs bs mk] same_count_nth [of _ env hs bs mk] assms
  by (intro nth_equalityI) auto

lemma ideal_agrees:
  assumes c: "collision_free env seen" and seen: "(t, rq) \<in> seen" "(t', rq') \<in> seen"
    and k: "element_key env t rq = element_key env t' rq'"
    and hs: "hs = map (en_hash_block env) (marked_blocks (rq_blocks rq) (marker_of t rq))"
  shows "agrees (same_count env hs (rq_blocks rq') (marker_of t' rq')) t (ideal S rq) (marker_of t rq)
           t' (ideal S rq') (marker_of t' rq')"
proof -
  have "element_data t rq = element_data t' rq'"
    using c k seen unfolding collision_free_def element_key_def inj_on_def by fastforce
  then show ?thesis using same_count_start [OF c seen hs refl] by (simp add: agrees_def)
qed

lemma keep_alt:
  "keep env key bs mk e0 =
     (let m = same_count env (enc_hashes e0) bs mk; e = e0\<lparr>enc_elements_end := None, enc_key := key\<rparr> in
      if enc_key e0 \<noteq> key then (0, e\<lparr>enc_items := [], enc_hashes := [], enc_elements := []\<rparr>)
      else case (if m = length bs \<and> m = length (enc_hashes e0) then enc_elements_end e0 else None) of
        Some n \<Rightarrow> (m, e\<lparr>enc_items := take n (enc_items e0)\<rparr>)
      | None \<Rightarrow>
          (case dropWhile (\<lambda>el. \<not> el_block el < m) (rev (enc_elements e0)) of
             el # rest \<Rightarrow> (el_block el, e\<lparr>enc_hashes := take m (enc_hashes e0), enc_elements := rev rest,
                                         enc_items := take (el_offset el) (enc_items e0)\<rparr>)
           | [] \<Rightarrow> (0, e\<lparr>enc_hashes := take m (enc_hashes e0), enc_elements := [], enc_items := []\<rparr>)))"
  by (cases e0) (simp add: keep_def same_count_def [symmetric] Let_def cong: option.case_cong list.case_cong)

lemma dropWhile_rev_nth:
  assumes "dropWhile P (rev xs) = y # ys"
  shows "\<exists>k < length xs. xs ! k = y \<and> rev ys = take k xs \<and> \<not> P y"
proof -
  have "rev xs = takeWhile P (rev xs) @ y # ys" using assms by (metis takeWhile_dropWhile_id)
  then have "xs = rev (y # ys) @ rev (takeWhile P (rev xs))" by (metis rev_append rev_rev_ident)
  then have xs: "xs = rev ys @ [y] @ rev (takeWhile P (rev xs))" by simp
  moreover have "\<not> P y" using assms by (metis dropWhile_eq_Cons_conv)
  ultimately show ?thesis
    by (intro exI [of _ "length ys"]) (metis append_Cons append_eq_conv_conj length_append length_rev less_add_Suc1
        list.size(4) nth_append_length add.assoc add_Suc_right plus_1_eq_Suc One_nat_def)
qed

text \<open>What \<open>keep\<close> leaves is what a new run of the groups gives up to the block that it names.\<close>

definition kept :: "encoder_env \<Rightarrow> blob_store \<Rightarrow> target \<Rightarrow> request \<Rightarrow> nat \<Rightarrow> encoder \<Rightarrow> bool" where
  "kept env S t rq from e \<longleftrightarrow>
     (\<exists>w. reach (en_is_json env) t (ideal S rq) (marker_of t rq) from w (enc_elements e) \<and> jw_out w = enc_items e) \<and>
     enc_elements_end e = None \<and> enc_key e = element_key env t rq \<and>
     enc_hashes e = take (length (enc_hashes e)) (map (en_hash_block env) (marked_blocks (rq_blocks rq) (marker_of t rq)))"

lemma kept_nothing:
  "enc_elements e = [] \<Longrightarrow> enc_items e = [] \<Longrightarrow> enc_hashes e = [] \<Longrightarrow> enc_elements_end e = None \<Longrightarrow>
     enc_key e = element_key env t rq \<Longrightarrow> kept env S t rq 0 e"
  unfolding kept_def by (auto intro!: exI [of _ "\<lparr>jw_out = [], jw_comma = False\<rparr>"] reached_start)

lemma keep_holds:
  assumes c: "collision_free env seen" and seen: "(t0, rq0) \<in> seen" "(t, rq) \<in> seen"
    and h: "holds env S t0 rq0 e0" and same_key: "enc_key e0 = element_key env t rq"
    and k: "keep env (element_key env t rq) (rq_blocks rq) (marker_of t rq) e0 = (from, e1)"
  shows "kept env S t rq from e1"
proof -
  define m where "m = same_count env (enc_hashes e0) (rq_blocks rq) (marker_of t rq)"
  have hs: "enc_hashes e0 = map (en_hash_block env) (marked_blocks (rq_blocks rq0) (marker_of t0 rq0))"
    and key: "element_key env t0 rq0 = element_key env t rq"
    and starts: "requests.starts_reached (en_is_json env) t0 (ideal S rq0) (marker_of t0 rq0) (enc_items e0) (enc_elements e0)"
    using h same_key by (simp_all add: holds_def Let_def)
  have agree: "agrees m t0 (ideal S rq0) (marker_of t0 rq0) t (ideal S rq) (marker_of t rq)"
    using ideal_agrees [OF c seen key hs] by (simp add: m_def)
  note transfer = requests.reached_agrees [OF _ agree, of "en_is_json env"]
  have hashes: "take m (enc_hashes e0) = take m (map (en_hash_block env) (marked_blocks (rq_blocks rq) (marker_of t rq)))"
    using same_count_hashes [OF m_def] .
  have m_le: "m \<le> length (enc_hashes e0)" "m \<le> length (rq_blocks rq)" using same_count_le m_def by blast+
  show ?thesis
  proof (cases "if m = length (rq_blocks rq) \<and> m = length (enc_hashes e0) then enc_elements_end e0 else None")
    case (Some n)
    then have whole: "m = length (rq_blocks rq)" "m = length (enc_hashes e0)" "enc_elements_end e0 = Some n"
      by (auto split: if_splits)
    then have e1: "from = m" "e1 = e0\<lparr>enc_elements_end := None, enc_key := element_key env t rq, enc_items := take n (enc_items e0)\<rparr>"
      using k same_key by (simp_all add: keep_alt m_def [symmetric] Let_def)
    obtain w where "reach (en_is_json env) t0 (ideal S rq0) (marker_of t0 rq0) (length (rq_blocks rq0)) w (enc_elements e0)"
      and w: "jw_out w = take n (enc_items e0)"
      using h whole(3) by (auto simp: holds_def Let_def)
    moreover have "length (rq_blocks rq0) = m" using hs whole(2) by simp
    ultimately have "reach (en_is_json env) t (ideal S rq) (marker_of t rq) m w (enc_elements e0)"
      using transfer whole(1) by (auto simp: ends_alike_def)
    then show ?thesis using w e1 hashes whole(2) by (auto simp: kept_def)
  next
    case None
    note k' = k [unfolded keep_alt, folded m_def, unfolded Let_def None]
    show ?thesis
    proof (cases "dropWhile (\<lambda>el. \<not> el_block el < m) (rev (enc_elements e0))")
      case Nil
      then have "from = 0" "enc_elements e1 = []" "enc_items e1 = []" "enc_elements_end e1 = None"
        "enc_key e1 = element_key env t rq" "enc_hashes e1 = take m (enc_hashes e0)"
        using k' [unfolded Nil] same_key by auto
      moreover have "\<exists>w. reach (en_is_json env) t (ideal S rq) (marker_of t rq) 0 w [] \<and> jw_out w = []"
        by (intro exI conjI, rule reached_start) simp
      ultimately show ?thesis using hashes m_le by (simp add: kept_def min_absorb2)
    next
      case (Cons el rest)
      then have e1: "from = el_block el" "enc_elements e1 = rev rest" "enc_items e1 = take (el_offset el) (enc_items e0)"
        "enc_elements_end e1 = None" "enc_key e1 = element_key env t rq" "enc_hashes e1 = take m (enc_hashes e0)"
        using k' [unfolded Cons] same_key by auto
      obtain i where i: "i < length (enc_elements e0)" "enc_elements e0 ! i = el" "rev rest = take i (enc_elements e0)"
        "el_block el < m"
        using dropWhile_rev_nth [OF Cons] by auto
      obtain w where "reach (en_is_json env) t0 (ideal S rq0) (marker_of t0 rq0) (el_block el) w (rev rest)"
        "el_offset el = length (jw_out w)" "prefix (jw_out w) (enc_items e0)"
        using starts i unfolding requests.starts_reached_def by metis
      moreover have "ends_alike (el_block el) m (rq_blocks (ideal S rq0)) (rq_blocks (ideal S rq))"
        using i(4) by (simp add: ends_alike_def)
      ultimately have "reach (en_is_json env) t (ideal S rq) (marker_of t rq) (el_block el) w (rev rest)"
        "jw_out w = take (el_offset el) (enc_items e0)"
        using transfer by (auto simp: prefix_def)
      then show ?thesis using e1 hashes m_le by (auto simp: kept_def min_absorb2)
    qed
  qed
qed

lemma keep_kept:
  assumes c: "collision_free env seen" and seen: "(t, rq) \<in> seen" and ok: "encoder_ok env S seen e0"
    and k: "keep env (element_key env t rq) (rq_blocks rq) (marker_of t rq) e0 = (from, e1)"
  shows "kept env S t rq from e1"
proof (cases "enc_key e0 = element_key env t rq")
  case False
  then show ?thesis using k by (auto simp: keep_def Let_def intro!: kept_nothing)
next
  case True
  show ?thesis
  proof (cases "holds_nothing e0")
    case True
    then show ?thesis using k \<open>enc_key e0 = element_key env t rq\<close>
      by (auto simp: keep_def Let_def holds_nothing_def intro!: kept_nothing split: if_splits)
  next
    case False
    then obtain t0 rq0 where "(t0, rq0) \<in> seen" "holds env S t0 rq0 e0" using ok by (auto simp: encoder_ok_def)
    then show ?thesis using keep_holds [OF c _ seen _ True k] by blast
  qed
qed

lemma keep_head: "keep env key bs mk e0 = (from, e1) \<Longrightarrow> enc_head e1 = enc_head e0"
  by (auto simp: keep_alt Let_def split: if_splits option.splits list.splits)

section \<open>An encoder with a history\<close>

text \<open>The text of the elements that a new encoder writes.\<close>

definition fresh_groups :: "encoder_env \<Rightarrow> target \<Rightarrow> request \<Rightarrow> (encode_error + unit) \<times> json_writer \<times> element list" where
  "fresh_groups env t rq = write_groups (en_is_json env) t rq (marker_of t rq) 0 \<lparr>jw_out = [], jw_comma = False\<rparr> []"

text \<open>The buffer after a success: the elements and the head behind them.\<close>

definition with_head :: "encoder_env \<Rightarrow> target \<Rightarrow> request \<Rightarrow> string \<Rightarrow> string" where
  "with_head env t rq out =
     (let (head_element, items) = write_head (en_float env) out t rq
      in if head_element \<and> length out \<noteq> 0 then items @ '','' else items)"

lemma forward1_prefix: "forward1 f \<Longrightarrow> prefix (jw_out w) (jw_out (f w))"
  using forward1_out by (metis prefixI)

lemma heads_forward [forward_simps]:
  "forward1 (anthropic_write_thinking th)" "forward1 (anthropic_write_output st)" "forward1 (anthropic_write_tool tool)"
  "forward1 (chat_write_effort_object l)" "forward1 (chat_write_reasoning f rs)" "forward1 (chat_write_tool tool)"
  "forward1 (responses_write_reasoning rs)" "forward1 (responses_write_tool n tool)"
  by (auto simp: anthropic_write_thinking_def anthropic_write_output_def anthropic_write_tool_def Let_def
      chat_write_effort_object_def chat_write_reasoning_def chat_write_tool_def responses_write_reasoning_def
      responses_write_tool_def forward_simps
      intro!: forward1_steps split: option.splits thinking.splits thinking_format.splits if_splits)

text \<open>The parts of a list of steps, one by one.\<close>

lemma forward1_append: "forward1 (steps fs) \<Longrightarrow> forward1 (steps gs) \<Longrightarrow> forward1 (steps (fs @ gs))"
proof -
  assume "forward1 (steps fs)" "forward1 (steps gs)"
  then have "forward1 (\<lambda>w. steps gs (steps fs w))" by (rule forward1_comp)
  then show ?thesis unfolding forward1_def steps_simps .
qed

lemma anthropic_head_forward: "forward1 (anthropic_write_head fl t wire rq)"
  unfolding anthropic_write_head_def Let_def
  by (intro forward1_append) (auto simp: forward_simps intro!: forward1_steps)

lemma responses_head_forward: "forward1 (responses_write_head fl t wire rq)"
  unfolding responses_write_head_def Let_def
  by (intro forward1_append) (auto simp: forward_simps intro!: forward1_steps split: option.splits)

lemma chat_open_forward: "forward1 (chat_write_open fl t wire rq)"
  unfolding chat_write_open_def Let_def
  by (intro forward1_append) (auto simp: forward_simps intro!: forward1_steps split: option.splits)

lemma chat_head_forward: "prefix (jw_out w) (jw_out (snd (chat_write_head fl t wire rq w)))"
proof -
  have "forward1 (steps [begin_object, field_str ''role'' ''system'', field_str ''content'' (rq_system rq), end_object])"
    by (rule forward1_steps) (simp add: forward_simps)
  note system = forward1_prefix [OF this, of "chat_write_open fl t wire rq w"]
  have "prefix (jw_out w) (jw_out (chat_write_open fl t wire rq w))" by (rule forward1_prefix [OF chat_open_forward])
  then show ?thesis using prefix_order.trans [OF _ system] by (simp add: chat_write_head_def Let_def)
qed

lemma with_head_prefix: "prefix out (with_head env t rq out)"
proof -
  have "prefix out (snd (write_head (en_float env) out t rq))"
  proof (cases "target_wire t")
    case (WireAnthropic c)
    then show ?thesis using forward1_prefix [OF anthropic_head_forward, of "new_writer out"]
      by (simp add: write_head_def new_writer_def)
  next
    case (WireChat c)
    then show ?thesis using chat_head_forward [of "new_writer out" "en_float env" t c rq]
      by (simp add: write_head_def new_writer_def Let_def case_prod_unfold)
  next
    case (WireResponses c)
    then show ?thesis using forward1_prefix [OF responses_head_forward, of "new_writer out"]
      by (simp add: write_head_def new_writer_def)
  qed
  then show ?thesis by (auto simp: with_head_def Let_def split: prod.splits)
qed

lemma enumerate_hashes:
  "map (\<lambda>(i, b). hash_block env b (mk = Some i)) (drop k (List.enumerate 0 bs)) =
     drop k (map (en_hash_block env) (marked_blocks bs mk))"
  by (simp add: marked_blocks_def hash_block_def drop_map comp_def case_prod_unfold)

text \<open>What \<open>serialize\<close> gives after any history, in terms of a run of the groups from the start.\<close>

lemma serialize_run:
  assumes c: "collision_free env seen" and seen: "(t, rq) \<in> seen" and ok: "encoder_ok env S seen e0"
    and b: "blob_answers (rq_blobs rq) \<subseteq>\<^sub>m blob_answers (Some S)"
    and s: "serialize env t rq e0 = (r, e')"
  shows "encoder_ok env S seen e' \<and> enc_head e' = enc_head e0 \<and>
    (\<forall>n. r = Inr n \<longrightarrow> (\<exists>w els. fresh_groups env t (ideal S rq) = (Inr (), w, els) \<and>
       n = length (jw_out w) \<and> enc_items e' = with_head env t rq (jw_out w))) \<and>
    (\<forall>w els. fresh_groups env t rq = (Inr (), w, els) \<longrightarrow> (\<exists>n. r = Inr n))"
proof -
  let ?mk = "marker_of t rq" and ?is = "en_is_json env"
  obtain i e1 where k: "keep env (element_key env t rq) (rq_blocks rq) ?mk e0 = (i, e1)" by fastforce
  have kept: "kept env S t rq i e1" using keep_kept [OF c seen ok k] .
  then obtain w1 where reach1: "reach ?is t (ideal S rq) ?mk i w1 (enc_elements e1)" and w1: "jw_out w1 = enc_items e1"
    by (auto simp: kept_def)
  have jw: "\<lparr>jw_out = enc_items e1, jw_comma = (enc_items e1 \<noteq> [])\<rparr> = w1"
    using requests.reached_writer [OF reach1] w1 by simp
  obtain g w els where g: "write_groups ?is t rq ?mk i w1 (enc_elements e1) = (g, w, els)" by (metis prod_cases3)
  let ?hs = "map (en_hash_block env) (marked_blocks (rq_blocks rq) ?mk)"
  let ?e3 = "e1\<lparr>enc_hashes := ?hs, enc_items := jw_out w, enc_elements := els\<rparr>"
  have hs: "enc_hashes e1 @ drop (length (enc_hashes e1)) ?hs = ?hs"
    using kept unfolding kept_def by (metis append_take_drop_id)
  have hashed: "enc_hashes e1 @ map (\<lambda>p. hash_block env (snd p) (?mk = Some (fst p)))
      (drop (length (enc_hashes e1)) (List.enumerate 0 (rq_blocks rq))) = ?hs"
    using hs by (simp add: case_prod_unfold flip: enumerate_hashes)
  have r: "(r, e') = (case g of Inl err \<Rightarrow> (Inl err, ?e3)
      | Inr _ \<Rightarrow> (Inr (length (jw_out w)),
          ?e3\<lparr>enc_elements_end := Some (length (jw_out w)), enc_items := with_head env t rq (jw_out w)\<rparr>))"
    using s unfolding serialize_def k Let_def
    by (cases g) (auto simp: jw g hashed with_head_def Let_def case_prod_unfold)
  have key: "enc_key e1 = element_key env t rq" "enc_elements_end e1 = None" using kept by (auto simp: kept_def)
  note run = loop_reaches [OF b reach1 g]
  show ?thesis
  proof (cases g)
    case (Inl err)
    have "holds env S t rq e'" using r run key Inl by (simp add: holds_def Let_def)
    moreover have "fresh_groups env t rq \<noteq> (Inr (), v, vs)" for v vs
    proof
      assume full: "fresh_groups env t rq = (Inr (), v, vs)"
      have "reach ?is t rq ?mk i w1 (enc_elements e1)"
        using reached_by_success [OF b full [unfolded fresh_groups_def] reach1] .
      then show False using loop_from_reached full g Inl by (fastforce simp: fresh_groups_def)
    qed
    ultimately show ?thesis using r Inl seen keep_head [OF k] by (auto simp: encoder_ok_def)
  next
    case (Inr u)
    then have reach: "reach ?is t (ideal S rq) ?mk (length (rq_blocks rq)) w els" using run by simp
    have "write_groups ?is t (ideal S rq) ?mk (length (rq_blocks rq)) w els = (Inr (), w, els)"
      by (subst write_groups.simps) simp
    then have full: "fresh_groups env t (ideal S rq) = (Inr (), w, els)"
      using loop_from_reached [OF reach] by (simp add: fresh_groups_def)
    have "take (length (jw_out w)) (with_head env t rq (jw_out w)) = jw_out w"
      using with_head_prefix by (metis append_eq_conv_conj prefix_def)
    then have "holds env S t rq e'"
      using r key Inr reach requests.starts_reached_mono [OF requests.reached_starts [OF reach] with_head_prefix]
      by (auto simp: holds_def Let_def)
    then show ?thesis using r Inr seen full keep_head [OF k] by (auto simp: encoder_ok_def)
  qed
qed

lemma ok_ignores_head [simp]: "encoder_ok env S seen (e\<lparr>enc_head := h\<rparr>) = encoder_ok env S seen e"
  by (simp add: encoder_ok_def holds_def holds_nothing_def Let_def)

lemma new_encoder_ok: "encoder_ok env S seen (new_encoder\<lparr>enc_head := h\<rparr>)" "encoder_ok env S seen new_encoder"
  by (simp_all add: encoder_ok_def holds_nothing_def new_encoder_def)

lemma encoder_ok_mono: "encoder_ok env S seen e \<Longrightarrow> seen \<subseteq> seen' \<Longrightarrow> encoder_ok env S seen' e"
  by (auto simp: encoder_ok_def)

lemma collision_free_mono: "collision_free env seen' \<Longrightarrow> seen \<subseteq> seen' \<Longrightarrow> collision_free env seen"
  unfolding collision_free_def by (blast intro: inj_on_subset)

text \<open>A new encoder keeps nothing, so it runs the groups from the start.\<close>

lemma serialize_new:
  "serialize env t rq (new_encoder\<lparr>enc_head := h\<rparr>) = (Inr n, e') \<Longrightarrow> \<exists>w els. fresh_groups env t rq = (Inr (), w, els)"
proof -
  assume s: "serialize env t rq (new_encoder\<lparr>enc_head := h\<rparr>) = (Inr n, e')"
  have "\<exists>e1. keep env (element_key env t rq) (rq_blocks rq) (marker_of t rq) (new_encoder\<lparr>enc_head := h\<rparr>) = (0, e1)
      \<and> enc_items e1 = [] \<and> enc_elements e1 = []"
    by (cases "element_key env t rq = 0") (auto simp: keep_alt new_encoder_def same_count_def Let_def)
  then obtain e1 where k: "keep env (element_key env t rq) (rq_blocks rq) (marker_of t rq) (new_encoder\<lparr>enc_head := h\<rparr>) = (0, e1)"
    "enc_items e1 = []" "enc_elements e1 = []"
    by blast
  obtain g w els where g: "fresh_groups env t rq = (g, w, els)" by (metis prod_cases3)
  show ?thesis
    using s g unfolding serialize_def Let_def k
    by (cases g) (auto simp: k fresh_groups_def case_prod_unfold)
qed

lemma head_build_any: "head_build t cred i h = (Inr (), h1) \<Longrightarrow> head_build t cred i h' = (Inr (), h1)"
  by (cases h; cases h') (auto simp: head_build_def Let_def case_prod_unfold split: if_splits option.splits)

lemma head_build_error: "head_build t cred i h = (Inl err, h1) \<Longrightarrow> head_build t cred i h' = (Inl err, h') \<and> h1 = h"
  by (auto simp: head_build_def Let_def case_prod_unfold split: if_splits option.splits)

text \<open>What one \<open>encode\<close> answers when the checks before the serializer pass.\<close>

definition encode_answer :: "target \<Rightarrow> head_text \<Rightarrow> nat \<Rightarrow> string \<Rightarrow> encoded" where
  "encode_answer t h n items =
     \<lparr>encd_http = \<lparr>og_url = ht_url h, og_headers = ht_headers h, og_body = [drop n items, take n items, '']}'']\<rparr>,
      encd_protocol = wire_protocol (target_wire t), encd_origin = head_origin h\<rparr>"

definition passes :: "target \<Rightarrow> request \<Rightarrow> bool" where
  "passes t rq \<longleftrightarrow> list_all f64_is_finite (filter_map id [temperature (rq_settings rq), top_p (rq_settings rq)]) \<and>
     ((tool_search t \<and> wire_protocol (target_wire t) \<noteq> OpenaiChat) \<or> \<not> defers_tools (rq_tools rq))"

lemma encode_Inr:
  "fst (encode env t cred rq e) = Inr b \<longleftrightarrow>
     passes t rq \<and>
     (\<exists>h n e'. head_build t cred (rq_session_id rq) (enc_head e) = (Inr (), h) \<and>
        serialize env t rq (e\<lparr>enc_head := h\<rparr>) = (Inr n, e') \<and> b = encode_answer t (enc_head e') n (enc_items e'))"
  unfolding encode_def passes_def Let_def encode_answer_def by (auto split: prod.splits sum.splits if_splits)

lemma encode_state:
  assumes "encode env t cred rq e = (r, e')"
  shows "(\<exists>h. e' = e\<lparr>enc_head := h\<rparr>) \<or> e' = e \<or> (\<exists>h r'. serialize env t rq (e\<lparr>enc_head := h\<rparr>) = (r', e'))"
  using assms unfolding encode_def Let_def by (auto split: if_splits prod.splits sum.splits)

type_synonym encode_call = "target \<times> credential \<times> request"

fun encode_all :: "encoder_env \<Rightarrow> encode_call list \<Rightarrow> encoder \<Rightarrow> encoder" where
  "encode_all env [] e = e"
| "encode_all env ((t, cred, rq) # calls) e = encode_all env calls (snd (encode env t cred rq e))"

definition seen_by :: "encode_call list \<Rightarrow> (target \<times> request) set" where
  "seen_by calls = (\<lambda>(t, cred, rq). (t, rq)) ` set calls"

text \<open>Every blob that a store of the calls answers is the blob of the ideal store: equal digests name equal bytes.\<close>

definition honest :: "blob_store \<Rightarrow> encode_call list \<Rightarrow> bool" where
  "honest S calls \<longleftrightarrow> (\<forall>(t, cred, rq)\<in>set calls. blob_answers (rq_blobs rq) \<subseteq>\<^sub>m blob_answers (Some S))"

lemma encode_all_ok:
  "collision_free env seen \<Longrightarrow> seen_by calls \<subseteq> seen \<Longrightarrow> honest S calls \<Longrightarrow> encoder_ok env S seen e \<Longrightarrow>
     encoder_ok env S seen (encode_all env calls e)"
proof (induction env calls e rule: encode_all.induct)
  case (2 env t cred rq calls e)
  obtain r e' where e': "encode env t cred rq e = (r, e')" by fastforce
  have "(t, rq) \<in> seen" "blob_answers (rq_blobs rq) \<subseteq>\<^sub>m blob_answers (Some S)"
    using 2(3,4) by (auto simp: seen_by_def honest_def)
  then have "encoder_ok env S seen e'"
    using encode_state [OF e'] serialize_run [OF 2(2), of t rq S "e\<lparr>enc_head := _\<rparr>"] 2(5) by fastforce
  then show ?case using 2 e' by (auto simp: seen_by_def honest_def)
qed simp

text \<open>C19: An encoder with any history of calls, the failed ones included, answers what a new encoder answers. When
  it succeeds, its URL, headers and body are those of a new encoder that can read every blob that the stores of
  the history hold; and it succeeds whenever a new encoder with the same store does. The hashes tell apart the
  blocks and the settings of the calls, and equal digests name equal bytes.\<close>

theorem encoder_like_new:
  assumes hashes: "collision_free env (seen_by (history @ [(t, cred, rq)]))"
    and stores: "honest S (history @ [(t, cred, rq)])"
  defines "r \<equiv> fst (encode env t cred rq (encode_all env history new_encoder))"
  shows "(\<forall>b. r = Inr b \<longrightarrow> fst (encode env t cred (ideal S rq) new_encoder) = Inr b) \<and>
         (\<forall>b. fst (encode env t cred rq new_encoder) = Inr b \<longrightarrow> r = Inr b)"
proof -
  let ?seen = "seen_by (history @ [(t, cred, rq)])" and ?e = "encode_all env history new_encoder"
  have b: "blob_answers (rq_blobs rq) \<subseteq>\<^sub>m blob_answers (Some S)" and h: "honest S history"
    using stores by (auto simp: honest_def)
  have seen: "(t, rq) \<in> ?seen" "seen_by history \<subseteq> ?seen" unfolding seen_by_def by force+
  have ok: "encoder_ok env S ?seen ?e"
    using encode_all_ok [OF hashes seen(2) h new_encoder_ok(2)] .
  have ideal: "collision_free env {(t, ideal S rq)}"
    using hashes collision_free_mono [of env ?seen "{(t, rq)}"] seen(1) by (simp add: collision_free_def)
  have passes: "passes t (ideal S rq) = passes t rq" by (simp add: passes_def)
  have head: "with_head env t (ideal S rq) = with_head env t rq"
    by (simp add: with_head_def write_head_def anthropic_write_head_def chat_write_head_def chat_write_open_def
        responses_write_head_def fun_eq_iff Let_def cong: wire.case_cong)
  note run = serialize_run [OF hashes seen(1) _ b]
  note run_ideal = serialize_run [OF ideal, of t "ideal S rq" S, simplified]
  show ?thesis
  proof (intro conjI allI impI)
    fix a
    assume "r = Inr a"
    then obtain ht n e' where a: "passes t rq" "head_build t cred (rq_session_id rq) (enc_head ?e) = (Inr (), ht)"
      "serialize env t rq (?e\<lparr>enc_head := ht\<rparr>) = (Inr n, e')" "a = encode_answer t (enc_head e') n (enc_items e')"
      by (auto simp: r_def encode_Inr)
    obtain w els where w: "fresh_groups env t (ideal S rq) = (Inr (), w, els)" "n = length (jw_out w)"
      "enc_items e' = with_head env t rq (jw_out w)" "enc_head e' = ht"
      using run [OF _ a(3)] ok by auto
    obtain r' e2 where s: "serialize env t (ideal S rq) (new_encoder\<lparr>enc_head := ht\<rparr>) = (r', e2)" by fastforce
    note new = run_ideal [OF new_encoder_ok(1) s]
    then have "r' = Inr n" "enc_items e2 = enc_items e'" "enc_head e2 = ht" using w by (auto simp: head)
    then show "fst (encode env t cred (ideal S rq) new_encoder) = Inr a"
      using a s w(4) head_build_any [OF a(2), of "enc_head new_encoder"] passes by (auto simp: encode_Inr)
  next
    fix a
    assume "fst (encode env t cred rq new_encoder) = Inr a"
    then obtain ht n e' where a: "passes t rq" "head_build t cred (rq_session_id rq) (enc_head new_encoder) = (Inr (), ht)"
      "serialize env t rq (new_encoder\<lparr>enc_head := ht\<rparr>) = (Inr n, e')" "a = encode_answer t (enc_head e') n (enc_items e')"
      by (auto simp: encode_Inr)
    obtain w els where w: "fresh_groups env t (ideal S rq) = (Inr (), w, els)" "n = length (jw_out w)"
      "enc_items e' = with_head env t rq (jw_out w)" "enc_head e' = ht"
      using run [OF new_encoder_ok(1) a(3)] by auto
    obtain r' e2 where s: "serialize env t rq (?e\<lparr>enc_head := ht\<rparr>) = (r', e2)" by fastforce
    have "\<exists>n. r' = Inr n" using run [OF _ s] serialize_new [OF a(3)] ok by auto
    then have "r' = Inr n" "enc_items e2 = enc_items e'" "enc_head e2 = ht" using run [OF _ s] ok w by auto
    then show "r = Inr a"
      using a s w(4) head_build_any [OF a(2), of "enc_head ?e"] by (auto simp: r_def encode_Inr)
  qed
qed

section \<open>A retry\<close>

text \<open>What any successful \<open>serialize\<close> leaves, whatever the encoder held and however its hashes collide.\<close>

lemma serialize_leaves:
  assumes s: "serialize env t rq e0 = (Inr n, e')"
  shows "enc_key e' = element_key env t rq"
    "enc_hashes e' = map (en_hash_block env) (marked_blocks (rq_blocks rq) (marker_of t rq))"
    "enc_elements_end e' = Some n" "\<exists>out. n = length out \<and> enc_items e' = with_head env t rq out"
proof -
  let ?mk = "marker_of t rq" let ?hs = "map (en_hash_block env) (marked_blocks (rq_blocks rq) ?mk)"
  obtain i e1 where k: "keep env (element_key env t rq) (rq_blocks rq) ?mk e0 = (i, e1)" by fastforce
  let ?m = "same_count env (enc_hashes e0) (rq_blocks rq) ?mk"
  have m: "take ?m (enc_hashes e0) = take ?m ?hs" "?m \<le> length (enc_hashes e0)" "?m \<le> length ?hs"
    using same_count_hashes [OF refl] same_count_le [of env "enc_hashes e0" "rq_blocks rq" ?mk] by simp_all
  have "enc_hashes e1 = [] \<or> enc_hashes e1 = take ?m (enc_hashes e0)"
    using k by (auto simp: keep_alt Let_def split: if_splits option.splits list.splits)
  then have "enc_hashes e1 = take (length (enc_hashes e1)) ?hs" using m by (auto simp: min_absorb2)
  then have hs: "enc_hashes e1 @ drop (length (enc_hashes e1)) ?hs = ?hs" by (metis append_take_drop_id)
  have hashed: "enc_hashes e1 @ map (\<lambda>p. hash_block env (snd p) (?mk = Some (fst p)))
      (drop (length (enc_hashes e1)) (List.enumerate 0 (rq_blocks rq))) = ?hs"
    using hs by (simp add: case_prod_unfold flip: enumerate_hashes)
  have key: "enc_key e1 = element_key env t rq"
    using k by (auto simp: keep_alt Let_def split: if_splits option.splits list.splits)
  obtain g w els where g: "write_groups (en_is_json env) t rq ?mk i
      \<lparr>jw_out = enc_items e1, jw_comma = (enc_items e1 \<noteq> [])\<rparr> (enc_elements e1) = (g, w, els)" by (metis prod_cases3)
  have "n = length (jw_out w) \<and> e' = e1\<lparr>enc_hashes := ?hs, enc_elements := els,
      enc_elements_end := Some n, enc_items := with_head env t rq (jw_out w)\<rparr>"
    using s unfolding serialize_def k Let_def
    by (cases g) (auto simp: g hashed with_head_def Let_def case_prod_unfold)
  then show "enc_key e' = element_key env t rq" "enc_hashes e' = ?hs" "enc_elements_end e' = Some n"
    "\<exists>out. n = length out \<and> enc_items e' = with_head env t rq out"
    using key by auto
qed

lemma same_count_whole:
  assumes "hs = map (en_hash_block env) (marked_blocks bs mk)"
  shows "same_count env hs bs mk = length bs"
proof -
  have all: "takeWhile (\<lambda>(i, h, b). h = hash_block env b (mk = Some i)) (List.enumerate 0 (zip hs bs)) = List.enumerate 0 (zip hs bs)"
  proof (rule takeWhile_eq_all_conv [THEN iffD2], rule ballI)
    fix x assume "x \<in> set (List.enumerate 0 (zip hs bs))"
    then obtain i where i: "i < length bs" "x = (i, hs ! i, bs ! i)"
      using assms by (auto simp: in_set_conv_nth nth_enumerate_eq)
    then show "case x of (i, h, b) \<Rightarrow> h = hash_block env b (mk = Some i)" using assms by (simp add: hash_block_def)
  qed
  show ?thesis unfolding same_count_def all using assms by simp
qed

text \<open>C20: After a success, the same context encodes again to the same body with any blob store, also with none, and
  with any other credential: a retry reads no blob. This holds for every state of the encoder.\<close>

theorem retry_reads_no_blob:
  assumes "encode env t cred rq e = (Inr b, e')"
    and "head_build t cred' (rq_session_id rq) new_head = (Inr (), h)"
  shows "\<exists>b'. fst (encode env t cred' (rq\<lparr>rq_blobs := store\<rparr>) e') = Inr b' \<and>
           og_body (encd_http b') = og_body (encd_http b) \<and> og_headers (encd_http b') = ht_headers h"
proof -
  let ?rq = "rq\<lparr>rq_blobs := store\<rparr>"
  have same: "rq_blocks ?rq = rq_blocks rq" "marker_of t ?rq = marker_of t rq" "element_key env t ?rq = element_key env t rq"
    "passes t ?rq = passes t rq"
    by (simp_all add: marker_of_def cacheable_blocks_def element_key_def element_data_def passes_def split: option.split)
  have head: "write_head (en_float env) out t ?rq = write_head (en_float env) out t rq" for out
    by (simp add: write_head_def anthropic_write_head_def chat_write_head_def chat_write_open_def
        responses_write_head_def Let_def cong: wire.case_cong)
  have "fst (encode env t cred rq e) = Inr b" using assms(1) by simp
  then obtain h0 n e1 where ok: "passes t rq" and s: "serialize env t rq (e\<lparr>enc_head := h0\<rparr>) = (Inr n, e1)"
    and b: "b = encode_answer t (enc_head e1) n (enc_items e1)"
    and h0: "head_build t cred (rq_session_id rq) (enc_head e) = (Inr (), h0)"
    by (auto simp: encode_Inr)
  have e1: "e' = e1" using assms(1) ok s h0 unfolding encode_def Let_def
    by (auto simp: passes_def split: if_splits prod.splits sum.splits)
  obtain out where out: "n = length out" "enc_items e1 = with_head env t rq out" using serialize_leaves(4) [OF s] by blast
  note left = serialize_leaves(1-3) [OF s]
  let ?e2 = "e1\<lparr>enc_head := h\<rparr>"
  have "take n (enc_items e1) = out" using out with_head_prefix by (metis append_eq_conv_conj prefix_def)
  then have k: "keep env (element_key env t rq) (rq_blocks rq) (marker_of t rq) ?e2 =
      (length (rq_blocks rq), ?e2\<lparr>enc_elements_end := None, enc_items := out\<rparr>)"
    using left by (cases e1) (simp add: keep_alt same_count_whole Let_def)
  have "write_groups (en_is_json env) t ?rq (marker_of t rq) (length (rq_blocks rq)) w els = (Inr (), w, els)" for w els
    by (subst write_groups.simps) simp
  then obtain e3 where "serialize env t ?rq ?e2 = (Inr n, e3)" "enc_items e3 = with_head env t rq out" "enc_head e3 = h"
    using out(1) left(2)
    by (auto simp: serialize_def same k Let_def with_head_def head case_prod_unfold)
  then have "fst (encode env t cred' ?rq e') = Inr (encode_answer t h n (with_head env t rq out))"
    using ok same(4) head_build_any [OF assms(2), of "enc_head e'"] e1 by (fastforce simp: encode_Inr)
  then show ?thesis using b out(2) by (auto simp: encode_answer_def)
qed

definition example_env :: encoder_env where
  "example_env =
     \<lparr>en_float = (\<lambda>_. ''0''), en_is_json = (\<lambda>_. True),
      en_hash_block = (\<lambda>(b, m). (case b of UserText _ \<Rightarrow> 1 | _ \<Rightarrow> 3) + (if m then 1 else 0)),
      en_hash_key = (\<lambda>_. 7)\<rparr>"

definition example_ask :: request where
  "example_ask = (new_request [UserText ''a''])\<lparr>rq_session_id := Some ''s''\<rparr>"

definition example_more :: request where
  "example_more = (new_request [UserText ''a'', AssistantText ''b''])\<lparr>rq_session_id := Some ''s''\<rparr>"

definition example_calls :: "encode_call list" where
  "example_calls = [(example_target, ApiKey ''k'', example_ask)]"

lemma example_hashes: "collision_free example_env (seen_by (example_calls @ [(example_target, ApiKey ''k'', example_more)]))"
  by (simp add: collision_free_def seen_by_def example_calls_def example_env_def example_ask_def example_more_def
      new_request_def marker_of_def cacheable_blocks_def cache_index_def example_target_def example_route_def
      anthropic_cacheable_def marked_blocks_def element_data_def inj_on_def)

lemma example_stores: "honest S (example_calls @ [(example_target, ApiKey ''k'', example_more)])"
  by (simp add: honest_def example_calls_def example_ask_def example_more_def new_request_def blob_answers_def [abs_def])

lemma try_all_does: "\<forall>p\<in>set ps. \<exists>f. p = does f \<Longrightarrow> \<exists>w'. try_all ps w = (Inr (), w')"
  by (induction ps arbitrary: w) (auto simp: does_def)

lemma loop_succeeds:
  "(\<And>i w. i < length (rq_blocks rq) \<Longrightarrow> \<exists>j w'. write_group is_json t rq mk i w = (Inr j, w')) \<Longrightarrow>
     \<exists>w' els'. write_groups is_json t rq mk i w els = (Inr (), w', els')"
proof (induction "length (rq_blocks rq) - i" arbitrary: i w els rule: less_induct)
  case less
  show ?case
  proof (cases "i < length (rq_blocks rq)")
    case True
    then obtain j v where g: "write_group is_json t rq mk i w = (Inr j, v)" using less(2) by blast
    have "length (rq_blocks rq) - j < length (rq_blocks rq) - i"
      using requests.moves_on [OF True g] True by (auto intro: diff_less_mono2)
    then show ?thesis using less(1) [of j] less(2) loop_step [OF True g] by simp
  next
    case False
    then show ?thesis by (subst write_groups.simps) simp
  qed
qed

lemma anthropic_text_group:
  assumes "target_wire t = WireAnthropic c" "\<forall>b\<in>set (rq_blocks rq). \<exists>x. b = UserText x \<or> b = AssistantText x"
  shows "\<exists>j w'. write_group is_json t rq mk i w = (Inr j, w')"
proof -
  let ?ps = "\<lambda>e r. [does (steps [begin_object, field_str ''role'' r, jw_key ''content'', begin_array])] @
      map (\<lambda>(i, b). anthropic_write_block is_json t rq b (mk = Some i)) (indexed (rq_blocks rq) i e) @
      [does (steps [end_array, end_object])]"
  have block: "\<exists>f. anthropic_write_block is_json t rq b k = does f" if "b \<in> set (rq_blocks rq)" for b k
    using bspec [OF assms(2) that] by (cases b) (auto simp: anthropic_write_block_def)
  have "b \<in> set (rq_blocks rq)" if "(n, b) \<in> set (indexed (rq_blocks rq) i e)" for n b e
    using that by (auto simp: indexed_alt)
  then have "\<exists>f. p = does f" if "p \<in> set (?ps e r)" for p e r
    using that block by (auto simp del: ex_simps)
  then have "\<exists>w'. try_all (?ps e r) w = (Inr (), w')" for e r by (intro try_all_does) blast
  then show ?thesis by (auto simp: write_group_def assms(1) anthropic_write_group_def Let_def)
qed

lemma example_fresh: "\<exists>b. fst (encode example_env example_target (ApiKey ''k'') example_more new_encoder) = Inr b"
proof -
  let ?t = example_target and ?rq = example_more and ?S = "\<lambda>_. Inr None"
  obtain h where h: "head_build ?t (ApiKey ''k'') (rq_session_id ?rq) new_head = (Inr (), h)"
    using example_head_builds by (auto simp: example_more_def)
  obtain w els where w: "fresh_groups example_env ?t ?rq = (Inr (), w, els)"
    using loop_succeeds [OF anthropic_text_group [of ?t _ ?rq]]
    by (fastforce simp: fresh_groups_def example_target_def example_more_def new_request_def)
  obtain r e' where s: "serialize example_env ?t ?rq (new_encoder\<lparr>enc_head := h\<rparr>) = (r, e')" by fastforce
  have "\<exists>n. r = Inr n"
    using serialize_run [OF _ _ new_encoder_ok(1) _ s, of "{(?t, ?rq)}" ?S] w example_hashes example_stores [of ?S]
      collision_free_mono [OF example_hashes, of "{(?t, ?rq)}"] by (auto simp: seen_by_def honest_def)
  then show ?thesis using h s
    by (auto simp: encode_Inr passes_def example_more_def new_request_def new_settings_def defers_tools_def new_encoder_def)
qed

theorem encoder_like_new_witness:
  "\<exists>b. fst (encode example_env example_target (ApiKey ''k'') example_more
        (encode_all example_env example_calls new_encoder)) = Inr b"
  using example_fresh encoder_like_new [OF example_hashes example_stores] by blast

theorem retry_reads_no_blob_witness:
  "\<exists>b e' b'. encode example_env example_target (ApiKey ''k'') example_more new_encoder = (Inr b, e') \<and>
     fst (encode example_env example_target (ApiKey ''k'') (example_more\<lparr>rq_blobs := None\<rparr>) e') = Inr b' \<and>
     og_body (encd_http b') = og_body (encd_http b)"
proof -
  obtain b e' where "encode example_env example_target (ApiKey ''k'') example_more new_encoder = (Inr b, e')"
    using example_fresh by (metis prod.collapse)
  moreover obtain h where "head_build example_target (ApiKey ''k'') (rq_session_id example_more) new_head = (Inr (), h)"
    using example_head_builds by (auto simp: example_more_def)
  ultimately show ?thesis using retry_reads_no_blob [of example_env example_target "ApiKey ''k''" example_more new_encoder b e'
      "ApiKey ''k''" h None] by blast
qed

end
