(* ===== verification/Wyhash.thy ===== *)
theory Wyhash
  imports Prelude
begin

text \<open>
  The streaming Wyhash of \<open>crates/ai/src/wyhash.rs\<close>, with which the encoder hashes its blocks. The state keeps
  the last full block in its buffer, and a short buffer reads the bytes before it from the end of the buffer.
  The theory proves that this reading is right: the hash of a text does not depend on how writes cut it.

  The count of bytes is a natural number: a \<open>usize\<close> holds the length of everything that is in memory.
\<close>

section \<open>The arithmetic\<close>

definition wy_secret :: "u64 list" where
  "wy_secret = [0xa0761d6478bd642f, 0xe7037ed1a0b428db, 0x8ebc6af09c88c6e3, 0x589965cc75374cc3]"

definition mum :: "u64 \<Rightarrow> u64 \<Rightarrow> u64 \<times> u64" where
  "mum a b = (let product = (ucast a * ucast b :: 128 word) in (ucast product, ucast (drop_bit 64 product)))"

definition mix :: "u64 \<Rightarrow> u64 \<Rightarrow> u64" where
  "mix a b = (let (low, high) = mum a b in xor low high)"

text \<open>The little-endian number of some bytes.\<close>

fun le_number :: "u8 list \<Rightarrow> u64" where
  "le_number [] = 0"
| "le_number (b # bs) = ucast b + push_bit 8 (le_number bs)"

definition read8 :: "u8 list \<Rightarrow> u64" where
  "read8 bytes = le_number (take 8 bytes)"

definition read4 :: "u8 list \<Rightarrow> u64" where
  "read4 bytes = le_number (take 4 bytes)"

section \<open>The hasher\<close>

record wyhash =
  wy_state :: "u64 list"
  wy_total :: nat
  wy_buf :: "u8 list"
  wy_len :: nat

definition new_wyhash :: "u64 \<Rightarrow> wyhash" where
  "new_wyhash seed =
     (let first = xor seed (mix (xor seed (wy_secret ! 0)) (wy_secret ! 1))
      in \<lparr>wy_state = replicate 3 first, wy_total = 0, wy_buf = replicate 48 0, wy_len = 0\<rparr>)"

definition wy_round :: "u64 list \<Rightarrow> u8 list \<Rightarrow> u64 list" where
  "wy_round st input =
     map (\<lambda>i. let a = read8 (drop (16 * i) input); b = read8 (drop (16 * i + 8) input)
              in mix (xor a (wy_secret ! (i + 1))) (xor b (st ! i))) [0..<3]"

text \<open>\<open>buf[at..at + bytes.len()].copy_from_slice(bytes)\<close>\<close>

definition copy_at :: "u8 list \<Rightarrow> nat \<Rightarrow> u8 list \<Rightarrow> u8 list" where
  "copy_at buf at bytes = take at buf @ bytes @ drop (at + length bytes) buf"

text \<open>The loop over the full blocks that are not the last bytes.\<close>

function wy_blocks :: "u8 list \<Rightarrow> nat \<Rightarrow> u64 list \<Rightarrow> nat \<times> u64 list" where
  "wy_blocks input i st =
     (if i + 48 < length input then wy_blocks input (i + 48) (wy_round st (take 48 (drop i input))) else (i, st))"
  by pat_completeness auto
termination by (relation "measure (\<lambda>(input, i, st). length input - i)") auto

declare wy_blocks.simps [simp del]

text \<open>The buffer that the last bytes of \<open>input\<close> go into: a short rest leaves the bytes before it at the end.\<close>

definition wy_tail :: "u8 list \<Rightarrow> u8 list \<Rightarrow> nat \<Rightarrow> u8 list" where
  "wy_tail buf input i =
     (let rest = drop i input in
      if length rest < 16 \<and> i \<ge> 48
      then (let missing = 16 - length rest in copy_at buf (48 - missing) (take missing (drop (i - missing) input)))
      else buf)"

definition wy_write :: "u8 list \<Rightarrow> wyhash \<Rightarrow> wyhash" where
  "wy_write input h0 =
     (let h = h0\<lparr>wy_total := wy_total h0 + length input\<rparr> in
      if length input \<le> 48 - wy_len h
      then h\<lparr>wy_buf := copy_at (wy_buf h) (wy_len h) input, wy_len := wy_len h + length input\<rparr>
      else
        (let (i, h1) = (if wy_len h > 0
               then (let i = 48 - wy_len h; block = copy_at (wy_buf h) (wy_len h) (take i input)
                     in (i, h\<lparr>wy_buf := block, wy_state := wy_round (wy_state h) block, wy_len := 0\<rparr>))
               else (0, h));
             (i, st) = wy_blocks input i (wy_state h1);
             rest = drop i input
         in h1\<lparr>wy_state := st, wy_buf := copy_at (wy_tail (wy_buf h1) input i) 0 rest, wy_len := length rest\<rparr>))"

definition small_key :: "u8 list \<Rightarrow> u64 \<times> u64" where
  "small_key input =
     (let len = length input in
      if len \<ge> 4 then
        (let end = len - 4; quarter = len div 8 * 4
         in (or (push_bit 32 (read4 input)) (read4 (drop quarter input)),
             or (push_bit 32 (read4 (drop end input))) (read4 (drop (end - quarter) input))))
      else if len > 0 then
        (or (or (push_bit 16 (ucast (input ! 0))) (push_bit 8 (ucast (input ! (len div 2))))) (ucast (input ! (len - 1))), 0)
      else (0, 0))"

text \<open>The loop of \<open>finish\<close> over the buffered bytes but the last 16.\<close>

function wy_body :: "u8 list \<Rightarrow> u64 \<Rightarrow> u64" where
  "wy_body body s =
     (if 16 < length body
      then wy_body (drop 16 body) (mix (xor (read8 body) (wy_secret ! 1)) (xor (read8 (drop 8 body)) s))
      else s)"
  by pat_completeness auto
termination by (relation "measure (\<lambda>(body, s). length body)") auto

declare wy_body.simps [simp del]

definition wy_finish :: "wyhash \<Rightarrow> u64" where
  "wy_finish h =
     (let st = wy_state h;
          (a, b, s0) =
            (if wy_total h \<le> 16
             then (let (a, b) = small_key (take (wy_len h) (wy_buf h)) in (a, b, st ! 0))
             else
               (let missing = (if wy_len h < 16 then 16 - wy_len h else 0);
                    input = (if wy_len h < 16 then drop (48 - missing) (wy_buf h) @ take (wy_len h) (wy_buf h)
                             else take (wy_len h) (wy_buf h));
                    s0 = wy_body (drop missing input) (xor (st ! 0) (xor (st ! 1) (st ! 2)))
                in (read8 (drop (length input - 16) input), read8 (drop (length input - 8) input), s0)));
          (a, b) = mum (xor a (wy_secret ! 1)) (xor b s0)
      in mix (xor (xor a (wy_secret ! 0)) (of_nat (wy_total h))) (xor b (wy_secret ! 1)))"

section \<open>What the state says of the bytes\<close>

text \<open>The rounds over the full blocks of some bytes.\<close>

function wy_rounds :: "u64 list \<Rightarrow> u8 list \<Rightarrow> u64 list" where
  "wy_rounds st bs = (if length bs < 48 then st else wy_rounds (wy_round st (take 48 bs)) (drop 48 bs))"
  by pat_completeness auto
termination by (relation "measure (\<lambda>(st, bs). length bs)") auto

declare wy_rounds.simps [simp del]

lemma wy_rounds_short: "length bs < 48 \<Longrightarrow> wy_rounds st bs = st"
  by (simp add: wy_rounds.simps)

lemma wy_rounds_block: "length b = 48 \<Longrightarrow> wy_rounds st (b @ bs) = wy_rounds (wy_round st b) bs"
  by (subst wy_rounds.simps) simp

lemma wy_rounds_one: "length b = 48 \<Longrightarrow> wy_rounds st b = wy_round st b"
  using wy_rounds_block [of b st "[]"] by (simp add: wy_rounds_short)

lemma wy_rounds_append: "length xs = 48 * k \<Longrightarrow> wy_rounds st (xs @ ys) = wy_rounds (wy_rounds st xs) ys"
proof (induction k arbitrary: xs st)
  case (Suc k)
  let ?b = "take 48 xs" and ?r = "drop 48 xs"
  have "length ?b = 48" "length ?r = 48 * k" "xs = ?b @ ?r" using Suc.prems by auto
  then show ?case by (metis Suc.IH append.assoc wy_rounds_block)
qed (simp add: wy_rounds_short)

lemma wy_blocks_spec:
  assumes "wy_blocks input i st = (j, st')" "i < length input"
  shows "\<exists>n. j = i + 48 * n \<and> j < length input \<and> length input \<le> j + 48 \<and>
           st' = wy_rounds st (take (48 * n) (drop i input))"
  using assms
proof (induction input i st rule: wy_blocks.induct)
  case (1 input i st)
  show ?case
  proof (cases "i + 48 < length input")
    case True
    have "wy_blocks input (i + 48) (wy_round st (take 48 (drop i input))) = (j, st')"
      using 1(2) True by (subst (asm) wy_blocks.simps) simp
    then obtain n where n: "j = i + 48 + 48 * n" "j < length input" "length input \<le> j + 48"
      "st' = wy_rounds (wy_round st (take 48 (drop i input))) (take (48 * n) (drop (i + 48) input))"
      using 1(1) [OF True] True by auto
    have "take (48 * Suc n) (drop i input) = take 48 (drop i input) @ take (48 * n) (drop (i + 48) input)"
      by (simp add: take_add add.commute)
    then have "st' = wy_rounds st (take (48 * Suc n) (drop i input))"
      using n(4) True by (simp add: wy_rounds_block)
    then show ?thesis using n by (intro exI [of _ "Suc n"]) simp
  next
    case False
    then have "j = i" "st' = st" using 1(2) by (subst (asm) wy_blocks.simps, simp)+
    then show ?thesis using False 1(3) by (intro exI [of _ 0]) (simp add: wy_rounds_short)
  qed
qed

text \<open>The last bytes of a list.\<close>

definition last_bytes :: "nat \<Rightarrow> u8 list \<Rightarrow> u8 list" where
  "last_bytes n bs = drop (length bs - n) bs"

lemma last_bytes_append: "n \<le> length ys \<Longrightarrow> last_bytes n (xs @ ys) = last_bytes n ys"
  by (simp add: last_bytes_def)

lemma drop_last_bytes: "m \<le> n \<Longrightarrow> n \<le> length bs \<Longrightarrow> drop (n - m) (last_bytes n bs) = last_bytes m bs"
  by (simp add: last_bytes_def)

text \<open>The state after the bytes \<open>data\<close>: \<open>k\<close> full blocks went into the rounds, the rest is in the buffer, and
  a short buffer has the bytes before it at its end.\<close>

definition wy_holds :: "u64 list \<Rightarrow> u8 list \<Rightarrow> wyhash \<Rightarrow> bool" where
  "wy_holds st0 data h \<longleftrightarrow>
     (\<exists>k. let used = take (48 * k) data in
        wy_total h = length data \<and> length (wy_buf h) = 48 \<and>
        48 * k \<le> length data \<and> wy_len h = length data - 48 * k \<and> wy_len h \<le> 48 \<and> (k > 0 \<longrightarrow> wy_len h > 0) \<and>
        take (wy_len h) (wy_buf h) = drop (48 * k) data \<and>
        wy_state h = wy_rounds st0 used \<and>
        (k > 0 \<and> wy_len h < 16 \<longrightarrow> drop (32 + wy_len h) (wy_buf h) = last_bytes (16 - wy_len h) used))"

lemma wy_holdsI:
  assumes "used = take (48 * k) data" "rest = drop (48 * k) data" "48 * k \<le> length data"
    and "length buf = 48" "len = length rest" "length rest \<le> 48" "0 < length rest" "take (length rest) buf = rest"
    and "st = wy_rounds st0 used" "length rest < 16 \<Longrightarrow> drop (32 + length rest) buf = last_bytes (16 - length rest) used"
  shows "wy_holds st0 data \<lparr>wy_state = st, wy_total = length data, wy_buf = buf, wy_len = len\<rparr>"
proof -
  have "length rest = length data - 48 * k" using assms(2) by simp
  then show ?thesis unfolding wy_holds_def Let_def wyhash.simps
    using assms by (intro exI [of _ k] conjI impI refl) (simp_all only: simp_thms)
qed

text \<open>So the hash is a function of the bytes.\<close>

lemma blocks_unique:
  fixes k n :: nat
  assumes "48 * k \<le> n" "n - 48 * k \<le> 48" "k > 0 \<longrightarrow> n - 48 * k > 0"
  shows "k = (n - 1) div 48"
proof (cases "n = 0")
  case False
  have "48 * k \<le> n - 1" "n - 1 < 48 * k + 48" using assms False by (cases k; auto)+
  then have "(n - 1) div 48 = k" by (intro div_nat_eqI) auto
  then show ?thesis ..
qed (use assms in simp)

lemma wy_holds_finish:
  assumes "wy_holds st0 data h" "wy_holds st0 data h'"
  shows "wy_finish h = wy_finish h'"
proof -
  let ?k = "(length data - 1) div 48" let ?n = "length data - 48 * ?k"
  have len: "wy_len g = ?n \<and> wy_total g = length data \<and> take ?n (wy_buf g) = drop (48 * ?k) data \<and>
      wy_state g = wy_rounds st0 (take (48 * ?k) data) \<and>
      (?k > 0 \<and> ?n < 16 \<longrightarrow> drop (32 + ?n) (wy_buf g) = last_bytes (16 - ?n) (take (48 * ?k) data))"
    if g: "wy_holds st0 data g" for g
  proof -
    obtain k where k: "48 * k \<le> length data" "wy_len g = length data - 48 * k" "wy_len g \<le> 48" "k > 0 \<longrightarrow> wy_len g > 0"
      and rest: "wy_total g = length data" "take (wy_len g) (wy_buf g) = drop (48 * k) data"
        "wy_state g = wy_rounds st0 (take (48 * k) data)"
        "k > 0 \<and> wy_len g < 16 \<longrightarrow> drop (32 + wy_len g) (wy_buf g) = last_bytes (16 - wy_len g) (take (48 * k) data)"
      using g unfolding wy_holds_def Let_def by blast
    have "k = (length data - 1) div 48" using blocks_unique [of k "length data"] k by simp
    then have k': "(length data - 1) div 48 = k" ..
    show ?thesis unfolding k' k(2) [symmetric] by (intro conjI refl rest)
  qed
  note a = len [OF assms(1)] and b = len [OF assms(2)]
  have eqs: "wy_len h' = wy_len h" "wy_total h' = wy_total h" "wy_state h' = wy_state h"
    "take (wy_len h) (wy_buf h') = take (wy_len h) (wy_buf h)"
    using a b by (elim conjE; simp only:)+
  have tail: "drop (48 - (16 - wy_len h)) (wy_buf h') = drop (48 - (16 - wy_len h)) (wy_buf h)"
    if "\<not> wy_total h \<le> 16" "wy_len h < 16"
  proof -
    have n: "wy_len h = ?n" "wy_total h = length data" using a by (elim conjE; simp only:)+
    have "?k > 0" using that n by (cases "?k") auto
    moreover have "48 - (16 - wy_len h) = 32 + wy_len h" using that(2) by arith
    ultimately show ?thesis using a b that(2) unfolding n(1) by (elim conjE) (simp only: simp_thms)
  qed
  show ?thesis
  proof (cases "wy_total h \<le> 16")
    case True
    then show ?thesis by (simp add: wy_finish_def eqs Let_def)
  next
    case False
    show ?thesis
    proof (cases "wy_len h < 16")
      case True
      show ?thesis unfolding wy_finish_def Let_def eqs if_P [OF True] if_not_P [OF False] tail [OF False True] ..
    next
      case short: False
      show ?thesis unfolding wy_finish_def Let_def eqs if_not_P [OF short] if_not_P [OF False] ..
    qed
  qed
qed

section \<open>A write adds its bytes\<close>

lemma length_copy_at [simp]: "at + length bs \<le> length buf \<Longrightarrow> length (copy_at buf at bs) = length buf"
  by (simp add: copy_at_def)

lemma take_copy_at: "at \<le> length buf \<Longrightarrow> take (at + length bs) (copy_at buf at bs) = take at buf @ bs"
  by (simp add: copy_at_def)

lemma drop_copy_at: "at + length bs \<le> n \<Longrightarrow> at \<le> length buf \<Longrightarrow> drop n (copy_at buf at bs) = drop n buf"
  by (simp add: copy_at_def)

lemma drop_copy_at_here: "at + length bs = length buf \<Longrightarrow> drop at (copy_at buf at bs) = bs"
  by (simp add: copy_at_def)

lemma wy_holds_short:
  assumes h: "wy_holds st0 data h" and len: "length input \<le> 48 - wy_len h"
  shows "wy_holds st0 (data @ input) (wy_write input h)"
proof -
  obtain k where k: "wy_total h = length data" "length (wy_buf h) = 48" "48 * k \<le> length data" "wy_len h = length data - 48 * k"
    "wy_len h \<le> 48" "k > 0 \<longrightarrow> wy_len h > 0" "take (wy_len h) (wy_buf h) = drop (48 * k) data"
    "wy_state h = wy_rounds st0 (take (48 * k) data)"
    "k > 0 \<and> wy_len h < 16 \<longrightarrow> drop (32 + wy_len h) (wy_buf h) = last_bytes (16 - wy_len h) (take (48 * k) data)"
    using h unfolding wy_holds_def Let_def by blast
  let ?n = "wy_len h" and ?m = "wy_len h + length input" and ?used = "take (48 * k) data"
  have tail: "drop (32 + ?m) (copy_at (wy_buf h) ?n input) = last_bytes (16 - ?m) ?used" if "k > 0" "?m < 16"
  proof -
    have used: "length ?used = 48 * k" using k(3) by simp
    have "drop (32 + ?m) (copy_at (wy_buf h) ?n input) = drop (32 + ?m) (wy_buf h)"
      using that k(2) by (intro drop_copy_at) auto
    also have "\<dots> = drop (length input) (drop (32 + ?n) (wy_buf h))" by (simp add: ac_simps)
    also have "\<dots> = drop (length input) (last_bytes (16 - ?n) ?used)" using that k(9) by simp
    also have "\<dots> = last_bytes (16 - ?m) ?used"
    proof -
      have eq: "(16 - ?n) - (16 - ?m) = length input" using that(2) by arith
      have "16 - ?n \<le> length ?used" using used that(1) by (cases k) auto
      then show ?thesis using drop_last_bytes [of "16 - ?m" "16 - ?n" ?used, unfolded eq] by simp
    qed
    finally show ?thesis .
  qed
  have "take ?m (copy_at (wy_buf h) ?n input) = drop (48 * k) (data @ input)"
    using take_copy_at [of ?n "wy_buf h" input] k by simp
  then show ?thesis
    using k len tail by (auto simp: wy_holds_def wy_write_def Let_def intro!: exI [of _ k])
qed

text \<open>A write that fills the buffer: the bytes that the rounds used, the bytes that stay, and the bytes before them
  at the end of the buffer.\<close>

lemma wy_holds_blocks:
  assumes i: "i \<le> length input" "length (data @ take i input) = 48 * k" "0 < k \<or> i = 0" "i < length input"
    and st: "st = wy_rounds st0 (data @ take i input)"
    and buf: "length buf = 48" "k > 0 \<longrightarrow> (\<forall>m \<le> 16. drop (48 - m) buf = last_bytes m (data @ take i input))"
    and more: "0 < k \<or> 48 < length input - i" and i48: "i < 48"
    and b: "wy_blocks input i st = (j, st')"
    and tailed: "buf' = wy_tail buf input j"
  shows "wy_holds st0 (data @ input)
     \<lparr>wy_state = st', wy_total = length (data @ input), wy_buf = copy_at buf' 0 (drop j input), wy_len = length (drop j input)\<rparr>"
proof -
  obtain n where n: "j = i + 48 * n" "j < length input" "length input \<le> j + 48"
    and st': "st' = wy_rounds st (take (48 * n) (drop i input))"
    using wy_blocks_spec [OF b i(4)] by blast
  let ?rest = "drop j input" and ?used = "data @ take j input"
  have buf': "buf' = (if length (drop j input) < 16 \<and> j \<ge> 48
       then copy_at buf (48 - (16 - length (drop j input)))
              (take (16 - length (drop j input)) (drop (j - (16 - length (drop j input))) input)) else buf)"
    using tailed by (simp only: wy_tail_def Let_def)
  have used: "?used = (data @ take i input) @ take (48 * n) (drop i input)"
    using n(1) by (simp add: take_add)
  have len: "length ?used = 48 * (k + n)" using used i(2) n by simp
  then have take_used: "take (48 * (k + n)) (data @ input) = ?used"
    by (metis append.assoc append_eq_conv_conj append_take_drop_id)
  have drop_used: "drop (48 * (k + n)) (data @ input) = ?rest"
    using len by (metis append.assoc append_eq_conv_conj append_take_drop_id)
  have state: "st' = wy_rounds st0 ?used" unfolding st' st used using wy_rounds_append [OF i(2)] by simp
  have rest: "length ?rest \<le> 48" "0 < length ?rest" using n by simp_all
  have tail: "drop (32 + length ?rest) (copy_at buf' 0 ?rest) = last_bytes (16 - length ?rest) ?used"
    if short: "length ?rest < 16"
  proof -
    let ?m = "16 - length ?rest"
    have m: "32 + length ?rest = 48 - ?m" using short by simp
    have len_buf': "length buf' = 48" using buf(1) n short unfolding buf' by (auto simp: length_copy_at)
    have "drop (48 - ?m) (copy_at buf' 0 ?rest) = drop (48 - ?m) buf'"
      using short by (intro drop_copy_at) auto
    also have "\<dots> = last_bytes ?m ?used"
    proof (cases "j \<ge> 48")
      case True
      have slice: "take ?m (drop (j - ?m) input) = last_bytes ?m (take j input)"
        using True n by (simp add: last_bytes_def take_drop min_absorb2)
      have "buf' = copy_at buf (48 - ?m) (take ?m (drop (j - ?m) input))" using True short by (simp add: buf')
      moreover have "length (take ?m (drop (j - ?m) input)) = ?m" using True n by simp
      ultimately have "drop (48 - ?m) buf' = take ?m (drop (j - ?m) input)"
        using buf(1) drop_copy_at_here [of "48 - ?m" "take ?m (drop (j - ?m) input)" buf] by (simp only:)
      also have "\<dots> = last_bytes ?m ?used" using slice True n by (simp add: last_bytes_append min_absorb2)
      finally show ?thesis .
    next
      case False
      then have n0: "n = 0" "j = i" using n(1) by (cases n, auto)+
      have "k > 0" using more n(3) n0 by auto
      then show ?thesis using buf(2) n0 False by (auto simp: buf')
    qed
    finally show ?thesis unfolding m .
  qed
  have len_buf': "length buf' = 48" using buf(1) n unfolding buf' by (auto simp: length_copy_at)
  have fits: "48 * (k + n) \<le> length (data @ input)" using len n(2) by simp
  have taken: "take (length ?rest) (copy_at buf' 0 ?rest) = ?rest" by (simp add: copy_at_def)
  have full: "length (copy_at buf' 0 ?rest) = 48" using rest len_buf' by simp
  show ?thesis by (rule wy_holdsI [OF take_used [symmetric] drop_used [symmetric] fits full refl rest taken state tail])
qed

text \<open>The parts of a write that fills the buffer.\<close>

lemma wy_write_full:
  assumes "\<not> length input \<le> 48 - wy_len h" "0 < wy_len h" "i = 48 - wy_len h"
    and "block = copy_at (wy_buf h) (wy_len h) (take i input)"
    and "wy_blocks input i (wy_round (wy_state h) block) = (j, st')"
    and "buf' = wy_tail block input j"
  shows "wy_write input h =
     \<lparr>wy_state = st', wy_total = wy_total h + length input, wy_buf = copy_at buf' 0 (drop j input), wy_len = length (drop j input)\<rparr>"
  using assms by (cases h) (simp add: wy_write_def Let_def)

lemma wy_write_empty:
  assumes "\<not> length input \<le> 48" "wy_len h = 0" "wy_blocks input 0 (wy_state h) = (j, st')"
    and "buf' = wy_tail (wy_buf h) input j"
  shows "wy_write input h =
     \<lparr>wy_state = st', wy_total = wy_total h + length input, wy_buf = copy_at buf' 0 (drop j input), wy_len = length (drop j input)\<rparr>"
  using assms by (cases h) (simp add: wy_write_def Let_def)

lemma wy_holds_write:
  assumes h: "wy_holds st0 data h"
  shows "wy_holds st0 (data @ input) (wy_write input h)"
proof (cases "length input \<le> 48 - wy_len h")
  case True
  then show ?thesis using wy_holds_short h by blast
next
  case False
  obtain k where k: "wy_total h = length data" "length (wy_buf h) = 48" "48 * k \<le> length data" "wy_len h = length data - 48 * k"
    "wy_len h \<le> 48" "k > 0 \<longrightarrow> wy_len h > 0" "take (wy_len h) (wy_buf h) = drop (48 * k) data"
    "wy_state h = wy_rounds st0 (take (48 * k) data)"
    using h unfolding wy_holds_def Let_def by blast
  show ?thesis
  proof (cases "wy_len h > 0")
    case True
    let ?i = "48 - wy_len h" let ?block = "copy_at (wy_buf h) (wy_len h) (take ?i input)"
    have i: "?i \<le> length input" "?i < length input" "?i < 48" using False True by simp_all
    have block: "?block = drop (48 * k) data @ take ?i input"
      using k(2,5) i by (simp add: copy_at_def k(7) [symmetric])
    have len: "length ?block = 48" using k(2,5) i by (simp add: copy_at_def)
    have all: "data @ take ?i input = take (48 * k) data @ ?block"
      unfolding block by (metis append.assoc append_take_drop_id)
    have state: "wy_round (wy_state h) ?block = wy_rounds st0 (data @ take ?i input)"
      unfolding all using wy_rounds_append [of "take (48 * k) data" k] k(3,8) len by (simp add: wy_rounds_one)
    have tail: "\<forall>m \<le> 16. drop (48 - m) ?block = last_bytes m (data @ take ?i input)"
      unfolding all using len by (simp add: last_bytes_append last_bytes_def)
    have total: "length (data @ take ?i input) = 48 * (k + 1)" unfolding all using len k(3) by simp
    obtain j st' where b: "wy_blocks input ?i (wy_round (wy_state h) ?block) = (j, st')" by fastforce
    have "wy_holds st0 (data @ input) (wy_write input h)"
      unfolding wy_write_full [OF False True refl refl b refl]
      using wy_holds_blocks [OF i(1) total _ i(2) state len _ _ i(3) b refl] tail k(1) by simp
    then show ?thesis .
  next
    case empty: False
    then have data: "data = []" using k by (cases k) auto
    obtain j st' where b: "wy_blocks input 0 (wy_state h) = (j, st')" by fastforce
    have st: "wy_state h = wy_rounds st0 (data @ take 0 input)" using k(8) data by simp
    have long: "\<not> length input \<le> 48" "wy_len h = 0" using False empty by simp_all
    then have "input \<noteq> []" by auto
    show ?thesis
      unfolding wy_write_empty [OF long b refl]
      using wy_holds_blocks [of 0 input data 0 "wy_state h" st0 "wy_buf h" j st', OF _ _ _ _ st k(2) _ _ _ b refl]
        data long k(1) \<open>input \<noteq> []\<close> by simp
  qed
qed

lemma wy_holds_new: "wy_holds (wy_state (new_wyhash seed)) [] (new_wyhash seed)"
  by (auto simp: wy_holds_def new_wyhash_def Let_def wy_rounds_short intro!: exI [of _ 0])

lemma wy_holds_writes: "wy_holds st0 data h \<Longrightarrow> wy_holds st0 (data @ concat chunks) (fold wy_write chunks h)"
proof (induction chunks arbitrary: data h)
  case (Cons c chunks)
  then show ?case using Cons.IH [OF wy_holds_write [OF Cons.prems]] by simp
qed simp

text \<open>C28: The hash of a text does not depend on how the writes cut it: any chunks hash as one write of them all.\<close>

theorem wyhash_chunks_do_not_matter:
  "wy_finish (fold wy_write chunks (new_wyhash seed)) = wy_finish (wy_write (concat chunks) (new_wyhash seed))"
  using wy_holds_finish [OF wy_holds_writes [OF wy_holds_new, of seed chunks]
      wy_holds_write [OF wy_holds_new, of seed "concat chunks"]] .

end
