(* ===== verification/Term_Event.thy ===== *)
theory Term_Event
  imports Utf8
begin

text \<open>
  The events of \<open>crates/term/src/event.rs\<close>, which the terminal parser gives. A \<open>char\<close> is its Unicode scalar
  value, a text is the list of its characters, and a set of modifiers is its byte. A Rust \<open>None\<close> of
  \<open>Button\<close> is \<open>NoButton\<close>.
\<close>

datatype code =
    KChar nat | KEnter | KTab | KBackspace | KEscape | KInsert | KDelete | KLeft | KRight | KUp | KDown
  | KPageUp | KPageDown | KHome | KEnd | KMenu | KF nat

type_synonym modifiers = u8

definition mod_none :: modifiers where "mod_none = 0"
definition mod_shift :: modifiers where "mod_shift = 1"
definition mod_alt :: modifiers where "mod_alt = push_bit 1 1"
definition mod_ctrl :: modifiers where "mod_ctrl = push_bit 2 1"
definition mod_caps_lock :: modifiers where "mod_caps_lock = push_bit 6 1"
definition mod_num_lock :: modifiers where "mod_num_lock = push_bit 7 1"

definition mod_without :: "modifiers \<Rightarrow> modifiers \<Rightarrow> modifiers" where
  "mod_without m other = and m (not other)"

record key =
  k_code :: code
  k_modifiers :: modifiers
  k_text :: "nat list"
  k_shifted :: "nat option"
  k_base_layout :: "nat option"

definition new_key :: "code \<Rightarrow> key" where
  "new_key c = \<lparr>k_code = c, k_modifiers = mod_none, k_text = [], k_shifted = None, k_base_layout = None\<rparr>"

datatype button =
    LeftButton | MiddleButton | RightButton | NoButton | WheelUp | WheelDown | WheelLeft | WheelRight | ExtraButton nat

datatype mouse_kind = MousePress | MouseRelease | MouseMotion | MouseDrag

record mouse =
  m_column :: nat
  m_row :: nat
  m_button :: button
  m_kind :: mouse_kind
  m_modifiers :: modifiers

record rgb =
  red :: u8
  green :: u8
  blue :: u8

datatype term_event =
    KeyEvent key | MouseEvent mouse | FocusGained | FocusLost | Paste "nat list" | Background rgb | SchemeChanged

end
