(* ===== verification/Term_Parser.thy ===== *)
theory Term_Parser
  imports Term_Event
begin

text \<open>
  The parser of the terminal input, \<open>crates/term/src/parser.rs\<close>: bytes to events. Bytes are natural numbers
  below 256, as in \<open>Utf8\<close>. A slice of the input is a list, and a step says how many of its first bytes it took.
  A \<open>u32\<close> parameter is a natural number whose bound \<open>number\<close> writes out.

  The facts: a read that the terminal cuts anywhere gives the same events; each step takes at least one byte of the
  input, so the read ends; after a flush nothing waits; a paste is one event of clean text; typed text reads as one
  key for each character.
\<close>

section \<open>Bytes\<close>

definition esc :: nat where "esc = 0x1b"
definition bel :: nat where "bel = 0x07"

text \<open>\<open>ESC [ 201 ~\<close> and \<open>ESC ] 11 ;\<close>\<close>

definition paste_end :: "nat list" where "paste_end = [esc, 91, 50, 48, 49, 126]"
definition background_answer :: "nat list" where "background_answer = [esc, 93, 49, 49, 59]"

text \<open>The standard library: \<open>split\<close> on a byte, \<open>char::to_digit\<close>, \<open>char::from_u32\<close>.\<close>

fun split_on :: "'a \<Rightarrow> 'a list \<Rightarrow> 'a list list" where
  "split_on c [] = [[]]"
| "split_on c (x # xs) =
     (if x = c then [] # split_on c xs
      else (case split_on c xs of [] \<Rightarrow> [[x]] | p # ps \<Rightarrow> (x # p) # ps))"

definition to_digit :: "nat \<Rightarrow> nat \<Rightarrow> nat option" where
  "to_digit radix c =
     (let d = (if 48 \<le> c \<and> c \<le> 57 then Some (c - 48) else if 97 \<le> c \<and> c \<le> 122 then Some (c - 87)
               else if 65 \<le> c \<and> c \<le> 90 then Some (c - 55) else None)
      in (case d of Some n \<Rightarrow> if n < radix then Some n else None | None \<Rightarrow> None))"

definition from_u32 :: "nat \<Rightarrow> nat option" where
  "from_u32 n = (if is_scalar n then Some n else None)"

fun head_option :: "'a list \<Rightarrow> 'a option" where
  "head_option [] = None"
| "head_option (x # _) = Some x"

definition param_fields :: "nat list \<Rightarrow> nat list list" where
  "param_fields params = split_on 59 params"

fun number_from :: "nat \<Rightarrow> nat list \<Rightarrow> nat option" where
  "number_from value [] = Some value"
| "number_from value (d # ds) =
     (case to_digit 10 d of
        None \<Rightarrow> None
      | Some n \<Rightarrow> if value * 10 < 2 ^ 32 \<and> value * 10 + n < 2 ^ 32 then number_from (value * 10 + n) ds else None)"

definition number :: "nat list \<Rightarrow> nat option" where
  "number digits = (if digits = [] then None else number_from 0 digits)"

fun find_bytes :: "nat list \<Rightarrow> nat list \<Rightarrow> nat option" where
  "find_bytes needle [] = None"
| "find_bytes needle (b # bs) =
     (if starts_with needle (b # bs) then Some 0 else map_option Suc (find_bytes needle bs))"

text \<open>\<open>u8::try_from(number).unwrap_or(u8::MAX)\<close>\<close>

definition to_u8 :: "nat \<Rightarrow> nat" where
  "to_u8 n = (if n \<le> 255 then n else 255)"

section \<open>The results\<close>

datatype answer = KittyKeyboard nat | DeviceAttributes

datatype parsed = PEvent term_event | PAnswer answer

datatype step =
    StIncomplete | StSkip nat | StEvent term_event nat | StAnswer answer nat | StPasteStart nat

section \<open>Ground keys\<close>

definition ctrl_key :: "nat \<Rightarrow> key" where
  "ctrl_key c = (new_key (KChar c))\<lparr>k_modifiers := mod_ctrl\<rparr>"

definition with_alt :: "key \<Rightarrow> key" where
  "with_alt k = k\<lparr>k_modifiers := or (k_modifiers k) mod_alt, k_text := []\<rparr>"

text \<open>\<open>str::from_utf8\<close>: the text, or how many bytes are valid and the length of the invalid part, \<open>None\<close> when
  the end cuts it.\<close>

definition cut_sequence :: "nat list \<Rightarrow> bool" where
  "cut_sequence bs =
     (case utf8_next bs of
        (Some _, _) \<Rightarrow> False
      | (None, n) \<Rightarrow> n = length bs \<and> n < seq_len (hd bs))"

text \<open>One typed code point: the first character of the first four bytes.\<close>

definition parse_text :: "nat list \<Rightarrow> step" where
  "parse_text input =
     (let head = take 4 input in
      case utf8_next head of
        (Some c, n) \<Rightarrow> StEvent (KeyEvent ((new_key (KChar c))\<lparr>k_text := [c]\<rparr>)) (length (encode_char c))
      | (None, n) \<Rightarrow> if cut_sequence head then StIncomplete else StSkip n)"

definition parse_ground :: "nat list \<Rightarrow> step" where
  "parse_ground input =
     (let byte = hd input in
      if byte = 0 then StEvent (KeyEvent (ctrl_key 32)) 1
      else if byte = 8 \<or> byte = 0x7f then StEvent (KeyEvent (new_key KBackspace)) 1
      else if byte = 9 then StEvent (KeyEvent (new_key KTab)) 1
      else if byte = 0x0d then StEvent (KeyEvent (new_key KEnter)) 1
      else if 1 \<le> byte \<and> byte \<le> 0x1a then StEvent (KeyEvent (ctrl_key (byte + 0x60))) 1
      else if byte = esc then StEvent (KeyEvent (new_key KEscape)) 1
      else if 0x1c \<le> byte \<and> byte \<le> 0x1f then StEvent (KeyEvent (ctrl_key (byte + 0x40))) 1
      else parse_text input)"

section \<open>SS3 keys and string sequences\<close>

definition letter_code :: "nat \<Rightarrow> code option" where
  "letter_code byte =
     (if byte = 65 then Some KUp else if byte = 66 then Some KDown else if byte = 67 then Some KRight
      else if byte = 68 then Some KLeft else if byte = 70 then Some KEnd else if byte = 72 then Some KHome
      else if byte = 80 then Some (KF 1) else if byte = 81 then Some (KF 2) else if byte = 82 then Some (KF 3)
      else if byte = 83 then Some (KF 4) else None)"

definition parse_ss3 :: "nat list \<Rightarrow> step" where
  "parse_ss3 input =
     (case drop 2 input of
        [] \<Rightarrow> StIncomplete
      | byte # _ \<Rightarrow>
          if byte = esc then StSkip 2
          else (case letter_code byte of
                  None \<Rightarrow> StSkip 3
                | Some c \<Rightarrow> StEvent (KeyEvent (new_key c)) 3))"

text \<open>The loop of \<open>parse_string\<close>: the ends of the payload and of the sequence, or where the string breaks.\<close>

datatype string_end = StringCut | StringEnd nat nat | StringBroken nat

fun string_scan :: "bool \<Rightarrow> nat list \<Rightarrow> nat \<Rightarrow> string_end" where
  "string_scan osc [] at = StringCut"
| "string_scan osc (byte # bytes) at =
     (if byte = bel \<and> osc then StringEnd at (at + 1)
      else if byte = esc then
        (case bytes of
           [] \<Rightarrow> StringCut
         | b # _ \<Rightarrow> if b = 92 then StringEnd at (at + 2) else StringBroken at)
      else string_scan osc bytes (at + 1))"

text \<open>The loops of \<open>parse_color\<close> over the digits of a channel and over the channels.\<close>

fun hex_value :: "nat \<Rightarrow> nat list \<Rightarrow> nat option" where
  "hex_value value [] = Some value"
| "hex_value value (d # ds) =
     (case to_digit 16 d of None \<Rightarrow> None | Some n \<Rightarrow> hex_value (value * 16 + n) ds)"

fun read_channels :: "nat \<Rightarrow> nat \<Rightarrow> nat list list \<Rightarrow> u8 list \<Rightarrow> (u8 list \<times> nat list list) option" where
  "read_channels index 0 parts channels = Some (channels, parts)"
| "read_channels index (Suc n) [] channels = None"
| "read_channels index (Suc n) (digits # parts) channels =
     (if digits = [] \<or> length digits > 4 then None
      else (case hex_value 0 digits of
              None \<Rightarrow> None
            | Some value \<Rightarrow>
                if index < length channels then
                  (let full = 2 ^ (4 * length digits) - 1; c = value * 255 div full
                   in if c \<le> 255 then read_channels (index + 1) n parts (channels[index := of_nat c]) else None)
                else read_channels (index + 1) n parts channels))"

definition parse_color :: "nat list \<Rightarrow> rgb option" where
  "parse_color spec =
     (case (case strip_prefix [114, 103, 98, 58] spec of
              Some body \<Rightarrow> Some (3, body)
            | None \<Rightarrow> (case strip_prefix [114, 103, 98, 97, 58] spec of
                        Some body \<Rightarrow> Some (4, body) | None \<Rightarrow> None)) of
        None \<Rightarrow> None
      | Some (channels, body) \<Rightarrow>
          (case read_channels 0 channels (split_on 47 body) (replicate 3 0) of
             None \<Rightarrow> None
           | Some (c, parts) \<Rightarrow>
               if parts \<noteq> [] then None
               else Some \<lparr>red = c ! 0, green = c ! 1, blue = c ! 2\<rparr>))"

definition parse_string :: "nat list \<Rightarrow> step" where
  "parse_string input =
     (let osc = (input ! 1 = 93) in
      case string_scan osc (drop 2 input) 2 of
        StringCut \<Rightarrow> StIncomplete
      | StringBroken at \<Rightarrow> StSkip at
      | StringEnd payload_end end' \<Rightarrow>
          if \<not> osc then StSkip end'
          else (case Option.bind (strip_prefix [49, 49, 59] (drop 2 (take payload_end input))) parse_color of
                  Some color \<Rightarrow> StEvent (Background color) end'
                | None \<Rightarrow> StSkip end'))"

section \<open>The parameters of a control sequence\<close>

definition parse_modifiers :: "nat list \<Rightarrow> modifiers option" where
  "parse_modifiers field =
     (let parts = split_on 58 field in
      case (case parts of [] \<Rightarrow> Some 1 | [] # _ \<Rightarrow> Some 1 | digits # _ \<Rightarrow> number digits) of
        None \<Rightarrow> None
      | Some msk \<Rightarrow>
          if msk - 1 > 255 then None
          else (case head_option (tl parts) of
                  None \<Rightarrow> Some (of_nat (msk - 1))
                | Some event \<Rightarrow> if event = [49] \<or> event = [50] then Some (of_nat (msk - 1)) else None))"

text \<open>The key takes the modifiers of the next field.\<close>

definition finish_key :: "key \<Rightarrow> nat list list \<Rightarrow> nat \<Rightarrow> step" where
  "finish_key k fs n =
     (case fs of
        [] \<Rightarrow> StEvent (KeyEvent k) n
      | field # _ \<Rightarrow>
          (case parse_modifiers field of
             None \<Rightarrow> StSkip n
           | Some m \<Rightarrow> StEvent (KeyEvent (k\<lparr>k_modifiers := m\<rparr>)) n))"

definition to_ascii_uppercase :: "nat \<Rightarrow> nat" where
  "to_ascii_uppercase c = (if 97 \<le> c \<and> c \<le> 122 then c - 32 else c)"

definition typed_text :: "key \<Rightarrow> key" where
  "typed_text k =
     (case k_code k of
        KChar character \<Rightarrow>
          if k_text k \<noteq> [] \<or> \<not> (33 \<le> character \<and> character \<le> 126 \<or> character = 32) then k
          else
            (let m = mod_without (k_modifiers k) (or mod_caps_lock mod_num_lock) in
             if m = mod_none then k\<lparr>k_text := k_text k @ [character]\<rparr>
             else if m = mod_shift then
               (let upper = to_ascii_uppercase character
                in k\<lparr>k_text := k_text k @ [upper],
                     k_shifted := (case k_shifted k of Some s \<Rightarrow> Some s | None \<Rightarrow> Some upper)\<rparr>)
             else k)
      | _ \<Rightarrow> k)"

definition kitty_code :: "nat \<Rightarrow> code option" where
  "kitty_code n =
     (if n = 0 \<or> (57358 \<le> n \<and> n \<le> 57362) \<or> (57427 \<le> n \<and> n \<le> 57454) then None
      else if n = 8 \<or> n = 127 then Some KBackspace
      else if n = 9 then Some KTab
      else if n = 13 \<or> n = 57414 then Some KEnter
      else if n = 27 then Some KEscape
      else if n = 57348 \<or> n = 57425 then Some KInsert
      else if n = 57349 \<or> n = 57426 then Some KDelete
      else if n = 57350 \<or> n = 57417 then Some KLeft
      else if n = 57351 \<or> n = 57418 then Some KRight
      else if n = 57352 \<or> n = 57419 then Some KUp
      else if n = 57353 \<or> n = 57420 then Some KDown
      else if n = 57354 \<or> n = 57421 then Some KPageUp
      else if n = 57355 \<or> n = 57422 then Some KPageDown
      else if n = 57356 \<or> n = 57423 then Some KHome
      else if n = 57357 \<or> n = 57424 then Some KEnd
      else if n = 57363 then Some KMenu
      else if 57364 \<le> n \<and> n \<le> 57398 then Some (KF (to_u8 (n - 57363)))
      else if 57399 \<le> n \<and> n \<le> 57408 then Some (KChar (48 + (n - 57399)))
      else if n = 57409 then Some (KChar 46)
      else if n = 57410 then Some (KChar 47)
      else if n = 57411 then Some (KChar 42)
      else if n = 57412 then Some (KChar 45)
      else if n = 57413 then Some (KChar 43)
      else if n = 57415 then Some (KChar 61)
      else if n = 57416 then Some (KChar 44)
      else map_option KChar (from_u32 n))"

section \<open>The keys of a control sequence\<close>

definition legacy_key :: "code \<Rightarrow> nat list \<Rightarrow> nat \<Rightarrow> step" where
  "legacy_key c params n = finish_key (new_key c) (tl (param_fields params)) n"

definition modify_other_keys :: "nat list list \<Rightarrow> nat \<Rightarrow> step" where
  "modify_other_keys fs n =
     (case fs of
        m # c # _ \<Rightarrow>
          (case (parse_modifiers m, Option.bind (number c) kitty_code) of
             (Some modifiers, Some code) \<Rightarrow>
               StEvent (KeyEvent (typed_text ((new_key code)\<lparr>k_modifiers := modifiers\<rparr>))) n
           | _ \<Rightarrow> StSkip n)
      | _ \<Rightarrow> StSkip n)"

definition tilde_key :: "nat list \<Rightarrow> nat \<Rightarrow> step" where
  "tilde_key params n =
     (let fs = param_fields params in
      case Option.bind (head_option fs) number of
        None \<Rightarrow> StSkip n
      | Some first \<Rightarrow>
          (let code =
             (if first = 1 \<or> first = 7 then Some KHome
              else if first = 2 then Some KInsert
              else if first = 3 then Some KDelete
              else if first = 4 \<or> first = 8 then Some KEnd
              else if first = 5 then Some KPageUp
              else if first = 6 then Some KPageDown
              else if 11 \<le> first \<and> first \<le> 15 then Some (KF (to_u8 (first - 10)))
              else if 17 \<le> first \<and> first \<le> 21 then Some (KF (to_u8 (first - 11)))
              else if 23 \<le> first \<and> first \<le> 26 then Some (KF (to_u8 (first - 12)))
              else None)
           in if first = 27 then modify_other_keys (tl fs) n
              else if first = 200 then StPasteStart n
              else (case code of None \<Rightarrow> StSkip n | Some c \<Rightarrow> finish_key (new_key c) (tl fs) n)))"

definition kitty_key :: "nat list \<Rightarrow> nat \<Rightarrow> step" where
  "kitty_key params n =
     (let fs = param_fields params;
          codes = split_on 58 (case head_option fs of Some f \<Rightarrow> f | None \<Rightarrow> []);
          char_of_part = (\<lambda>p. Option.bind (Option.bind p number) from_u32)
      in case Option.bind (Option.bind (head_option codes) number) kitty_code of
           None \<Rightarrow> StSkip n
         | Some c \<Rightarrow>
             (let k = (new_key c)\<lparr>k_shifted := char_of_part (head_option (drop 1 codes)),
                                  k_base_layout := char_of_part (head_option (drop 2 codes))\<rparr>
              in case finish_key k (tl fs) n of
                   StEvent (KeyEvent k') n' \<Rightarrow> StEvent (KeyEvent (typed_text k')) n'
                 | s \<Rightarrow> s))"

section \<open>The mouse\<close>

definition place :: "nat \<Rightarrow> nat" where
  "place value = (if value - 1 \<le> 65535 then value - 1 else 65535)"

definition mouse_of :: "nat \<Rightarrow> nat \<Rightarrow> nat \<Rightarrow> bool option \<Rightarrow> mouse option" where
  "mouse_of msk column row release =
     (if and msk 0x100 \<noteq> 0 then None
      else
        (let bits = and msk 0xC3;
             button =
              (if bits = 0 then Some LeftButton
               else if bits = 1 then Some MiddleButton
               else if bits = 2 then Some RightButton
               else if bits = 3 then Some NoButton
               else if bits = 64 then Some WheelUp
               else if bits = 65 then Some WheelDown
               else if bits = 66 then Some WheelRight
               else if bits = 67 then Some WheelLeft
               else if 128 \<le> bits \<and> bits \<le> 131 then Some (ExtraButton (to_u8 (bits - 120)))
               else None)
         in case button of
              None \<Rightarrow> None
            | Some b \<Rightarrow>
                (let motion = (and msk 32 \<noteq> 0);
                     kind = (if motion \<and> b = NoButton then MouseMotion
                             else if motion then MouseDrag
                             else if release = Some True \<or> (b = NoButton \<and> release = None) then MouseRelease
                             else MousePress)
                 in Some \<lparr>m_column = place column, m_row = place row, m_button = b, m_kind = kind,
                          m_modifiers = of_nat (to_u8 (and (drop_bit 2 msk) 7))\<rparr>)))"

definition sgr_mouse :: "nat list \<Rightarrow> bool \<Rightarrow> nat \<Rightarrow> step" where
  "sgr_mouse body release n =
     (case param_fields body of
        m # c # r # _ \<Rightarrow>
          (case number m of
             None \<Rightarrow> StSkip n
           | Some msk \<Rightarrow>
               (let or_one = (\<lambda>f. case number f of Some x \<Rightarrow> x | None \<Rightarrow> 1) in
                case mouse_of msk (or_one c) (or_one r) (Some release) of
                  None \<Rightarrow> StSkip n
                | Some x \<Rightarrow> StEvent (MouseEvent x) n))
      | _ \<Rightarrow> StSkip n)"

definition parse_x10_mouse :: "nat list \<Rightarrow> step" where
  "parse_x10_mouse input =
     (case drop 3 input of
        msk # column # row # _ \<Rightarrow>
          (case mouse_of (msk - 32) (column - 32) (row - 32) None of
             None \<Rightarrow> StSkip 6
           | Some m \<Rightarrow> StEvent (MouseEvent m) 6)
      | _ \<Rightarrow> StIncomplete)"

section \<open>Control sequences\<close>

text \<open>The loop of \<open>parse_csi\<close>: the final byte of the sequence, or where the sequence breaks.\<close>

datatype csi_end = CsiCut | CsiLast nat | CsiBroken nat

fun csi_scan :: "nat list \<Rightarrow> nat \<Rightarrow> csi_end" where
  "csi_scan [] at = CsiCut"
| "csi_scan (byte # bytes) at =
     (if 0x40 \<le> byte \<and> byte \<le> 0x7e then CsiLast at
      else if 0x20 \<le> byte \<and> byte \<le> 0x3f then csi_scan bytes (at + 1)
      else CsiBroken at)"

definition csi_final :: "nat list \<Rightarrow> nat list \<Rightarrow> nat \<Rightarrow> nat \<Rightarrow> step" where
  "csi_final input params byte n =
     (case letter_code byte of
        Some c \<Rightarrow> legacy_key c params n
      | None \<Rightarrow>
          if byte = 77 \<and> params = [] then parse_x10_mouse input
          else if byte = 90 then StEvent (KeyEvent ((new_key KTab)\<lparr>k_modifiers := mod_shift\<rparr>)) n
          else if byte = 126 then tilde_key params n
          else if byte = 73 then StEvent FocusGained n
          else if byte = 79 then StEvent FocusLost n
          else if byte = 77 \<or> byte = 109 then
            (case strip_prefix [60] params of
               Some body \<Rightarrow> sgr_mouse body (byte = 109) n
             | None \<Rightarrow> StSkip n)
          else if byte = 99 \<and> starts_with [63] params then StAnswer DeviceAttributes n
          else if byte = 110 then
            (if params = [63, 57, 57, 55, 59, 49] \<or> params = [63, 57, 57, 55, 59, 50] then StEvent SchemeChanged n
             else StSkip n)
          else if byte = 117 \<and> starts_with [63] params then
            (case number (drop 1 params) of
               Some flags \<Rightarrow> if flags \<le> 255 then StAnswer (KittyKeyboard flags) n else StSkip n
             | None \<Rightarrow> StSkip n)
          else if byte = 117 then kitty_key params n
          else StSkip n)"

definition parse_csi :: "nat list \<Rightarrow> step" where
  "parse_csi input =
     (case csi_scan (drop 2 input) 2 of
        CsiCut \<Rightarrow> StIncomplete
      | CsiBroken at \<Rightarrow> StSkip at
      | CsiLast at \<Rightarrow> csi_final input (drop 2 (take at input)) (input ! at) (at + 1))"

section \<open>A step of the parser\<close>

definition parse :: "nat list \<Rightarrow> step" where
  "parse input =
     (if hd input \<noteq> esc then parse_ground input
      else
        (case tl input of
           [] \<Rightarrow> StIncomplete
         | b # rest \<Rightarrow>
             if b = 79 then parse_ss3 input
             else if b = 91 then parse_csi input
             else if b = 93 \<or> b = 80 \<or> b = 88 \<or> b = 94 \<or> b = 95 then parse_string input
             else if b = esc then StEvent (KeyEvent (with_alt (new_key KEscape))) 2
             else (case parse_ground (b # rest) of
                     StEvent (KeyEvent k) n \<Rightarrow> StEvent (KeyEvent (with_alt k)) (n + 1)
                   | StIncomplete \<Rightarrow> StIncomplete
                   | _ \<Rightarrow> StSkip 1)))"

definition cut_step :: "nat list \<Rightarrow> step" where
  "cut_step input =
     (if hd input = esc then
        (case tl input of
           [] \<Rightarrow> StEvent (KeyEvent (new_key KEscape)) 1
         | b # _ \<Rightarrow>
             (case parse_ground [b] of
                StEvent (KeyEvent k) _ \<Rightarrow> StEvent (KeyEvent (with_alt k)) 2
              | _ \<Rightarrow> StSkip 1))
      else StSkip 1)"

section \<open>A paste\<close>

definition control_key :: "nat list \<Rightarrow> (nat \<times> nat) option" where
  "control_key input =
     (case strip_prefix [esc, 91] input of
        None \<Rightarrow> None
      | Some body \<Rightarrow>
          (case position (\<lambda>b. \<not> (48 \<le> b \<and> b \<le> 57)) body of
             None \<Rightarrow> None
           | Some digits \<Rightarrow>
               if \<not> starts_with [59, 53, 117] (drop digits body) then None
               else
                 (case number (take digits body) of
                    None \<Rightarrow> None
                  | Some code \<Rightarrow>
                      map_option (\<lambda>byte. (to_u8 byte, 2 + digits + 3))
                        (if code \<le> 31 then Some code
                         else if code = 32 then Some 0
                         else if code = 63 then Some 127
                         else if 64 \<le> code \<and> code \<le> 95 then Some (code - 64)
                         else if 97 \<le> code \<and> code \<le> 122 then Some (code - 96)
                         else None))))"

function decode_control_keys :: "nat list \<Rightarrow> nat list" where
  "decode_control_keys bytes =
     (case bytes of
        [] \<Rightarrow> []
      | b # bs \<Rightarrow>
          (case control_key bytes of
             Some (byte, n) \<Rightarrow> byte # decode_control_keys (drop n bytes)
           | None \<Rightarrow> b # decode_control_keys bs))"
  by pat_completeness auto
termination
  by (relation "measure length")
    (auto simp: control_key_def split: option.splits if_splits)

declare decode_control_keys.simps [simp del]

text \<open>\<open>String::from_utf8_lossy\<close>\<close>

definition lossy_chars :: "nat list \<Rightarrow> nat list" where
  "lossy_chars bytes = map (\<lambda>i. case i of Scalar c \<Rightarrow> c | InvalidPart _ \<Rightarrow> 65533) (utf8_items bytes)"

text \<open>The loop of \<open>clean_paste\<close> over the characters.\<close>

fun clean_chars :: "nat list \<Rightarrow> nat list" where
  "clean_chars [] = []"
| "clean_chars (c # cs) =
     (if c = 13 then 10 # (if head_option cs = Some 10 then clean_chars (tl cs) else clean_chars cs)
      else if c = 10 \<or> c = 9 then c # clean_chars cs
      else if is_control c then clean_chars cs
      else c # clean_chars cs)"

definition clean_paste :: "nat list \<Rightarrow> nat list" where
  "clean_paste bytes = clean_chars (lossy_chars (if esc \<in> set bytes then decode_control_keys bytes else bytes))"

section \<open>The parser\<close>

record parser =
  pending :: "nat list"
  open_paste :: "nat list option"

definition new_parser :: parser where
  "new_parser = \<lparr>pending = [], open_paste = None\<rparr>"

definition waits :: "parser \<Rightarrow> bool" where
  "waits p = (open_paste p = None \<and> pending p \<noteq> [] \<and> \<not> starts_with background_answer (pending p))"

definition kept :: "parser \<Rightarrow> nat" where
  "kept p = length (pending p)"

definition next_step :: "bool \<Rightarrow> nat list \<Rightarrow> step" where
  "next_step flush rest =
     (case parse rest of
        StIncomplete \<Rightarrow> if flush then cut_step rest else StIncomplete
      | s \<Rightarrow> s)"

section \<open>Each step takes bytes of the input\<close>

definition step_size :: "step \<Rightarrow> nat" where
  "step_size s =
     (case s of StIncomplete \<Rightarrow> 0 | StSkip n \<Rightarrow> n | StEvent _ n \<Rightarrow> n | StAnswer _ n \<Rightarrow> n | StPasteStart n \<Rightarrow> n)"

lemma step_size_simps [simp]:
  "step_size StIncomplete = 0" "step_size (StSkip n) = n" "step_size (StEvent e n) = n"
  "step_size (StAnswer a n) = n" "step_size (StPasteStart n) = n"
  by (simp_all add: step_size_def)

definition advances :: "nat list \<Rightarrow> step \<Rightarrow> bool" where
  "advances input s \<longleftrightarrow> s = StIncomplete \<or> (0 < step_size s \<and> step_size s \<le> length input)"

lemma advances_Incomplete [simp]: "advances input StIncomplete"
  by (simp add: advances_def)

lemma advances_step: "s \<noteq> StIncomplete \<Longrightarrow> advances input s \<longleftrightarrow> 0 < step_size s \<and> step_size s \<le> length input"
  by (simp add: advances_def)

text \<open>What a step of size \<open>n\<close> is at most.\<close>

definition of_size :: "nat \<Rightarrow> step \<Rightarrow> bool" where
  "of_size n s \<longleftrightarrow> s \<noteq> StIncomplete \<and> step_size s = n"

lemma of_size_simps [simp]:
  "of_size n (StSkip m) \<longleftrightarrow> m = n" "of_size n (StEvent e m) \<longleftrightarrow> m = n" "of_size n (StAnswer a m) \<longleftrightarrow> m = n"
  "of_size n (StPasteStart m) \<longleftrightarrow> m = n" "\<not> of_size n StIncomplete"
  by (simp_all add: of_size_def)

lemma finish_key_size [simp]: "of_size n (finish_key k fs n)"
  by (simp add: finish_key_def split: list.splits option.splits)

lemma legacy_key_size [simp]: "of_size n (legacy_key c params n)"
  by (simp add: legacy_key_def)

lemma modify_other_keys_size [simp]: "of_size n (modify_other_keys fs n)"
  by (simp add: modify_other_keys_def split: list.splits option.splits)

lemma tilde_key_size [simp]: "of_size n (tilde_key params n)"
  by (simp add: tilde_key_def Let_def split: option.splits)

lemma typed_step_size:
  "of_size n s \<Longrightarrow>
   of_size n (case s of StEvent (KeyEvent k) m \<Rightarrow> StEvent (KeyEvent (f k)) m | s \<Rightarrow> s)"
  by (cases s) (simp_all split: term_event.splits)

lemma kitty_key_size [simp]: "of_size n (kitty_key params n)"
  by (simp add: kitty_key_def Let_def typed_step_size split: option.splits)

lemma sgr_mouse_size [simp]: "of_size n (sgr_mouse body release n)"
  by (simp add: sgr_mouse_def Let_def split: list.splits option.splits)

lemma of_size_if: "(c \<Longrightarrow> of_size n s) \<Longrightarrow> (\<not> c \<Longrightarrow> of_size n t) \<Longrightarrow> of_size n (if c then s else t)"
  by simp

lemma of_size_option:
  "(v = None \<Longrightarrow> of_size n s) \<Longrightarrow> (\<And>x. v = Some x \<Longrightarrow> of_size n (f x)) \<Longrightarrow>
   of_size n (case v of None \<Rightarrow> s | Some x \<Rightarrow> f x)"
  by (cases v) simp_all

lemma csi_final_x10: "csi_final input [] 77 n = parse_x10_mouse input"
  by (simp add: csi_final_def letter_code_def)

lemma csi_final_size: "\<not> (byte = 77 \<and> params = []) \<Longrightarrow> of_size n (csi_final input params byte n)"
  unfolding csi_final_def
  by (intro of_size_if of_size_option)
    (simp_all only: of_size_simps legacy_key_size tilde_key_size sgr_mouse_size kitty_key_size simp_thms)

lemma string_scan_Cons:
  "string_scan osc (byte # bytes) at =
     (if byte = bel \<and> osc then StringEnd at (at + 1)
      else if byte = esc then
        (if bytes = [] then StringCut else if hd bytes = 92 then StringEnd at (at + 2) else StringBroken at)
      else string_scan osc bytes (at + 1))"
  by (cases bytes) simp_all

declare string_scan.simps(2) [simp del]

lemma string_scan_bounds:
  assumes "at + length bytes = len"
  shows "string_scan osc bytes at = StringEnd p e \<Longrightarrow> at \<le> p \<and> p < e \<and> e \<le> len"
    and "string_scan osc bytes at = StringBroken e \<Longrightarrow> at \<le> e \<and> e < len"
  using assms by (induction bytes arbitrary: at) (auto simp: string_scan_Cons Suc_le_eq split: if_splits)

lemma csi_scan_bounds:
  assumes "at + length bytes = len"
  shows "csi_scan bytes at = CsiLast e \<Longrightarrow> at \<le> e \<and> e < len"
    and "csi_scan bytes at = CsiBroken e \<Longrightarrow> at \<le> e \<and> e < len"
  using assms by (induction bytes arbitrary: at) (fastforce split: if_splits)+

lemma char_size_2:
  assumes "seq_len a = 2" "second_ok a b"
  shows "length (encode_char ((a - 192) * 64 + (b - 128))) = 2"
proof -
  obtain i j where ij: "a = 192 + i" "b = 128 + j"
    using assms by (auto simp: seq_len_def second_ok_def is_cont_def le_iff_add split: if_splits)
  have "2 \<le> i" "i < 32" "j < 64"
    using assms ij by (auto simp: seq_len_def second_ok_def is_cont_def split: if_splits)
  then show ?thesis by (simp add: ij encode_char_def)
qed

lemma char_size_3:
  assumes "seq_len a = 3" "second_ok a b" "is_cont c"
  shows "length (encode_char ((a - 224) * 4096 + (b - 128) * 64 + (c - 128))) = 3"
proof -
  obtain i j k where ijk: "a = 224 + i" "b = 128 + j" "c = 128 + k"
    using assms by (auto simp: seq_len_def second_ok_def is_cont_def le_iff_add split: if_splits)
  have b: "i < 16" "j < 64" "k < 64" "i = 0 \<Longrightarrow> 32 \<le> j"
    using assms ijk by (auto simp: seq_len_def second_ok_def is_cont_def split: if_splits)
  have "2048 \<le> i * 4096 + j * 64 + k" using b(4) by (cases "i = 0") auto
  moreover have "i * 4096 + j * 64 + k < 65536" using b(1-3) by linarith
  ultimately show ?thesis by (simp add: ijk encode_char_def)
qed

lemma char_size_4:
  assumes "seq_len a \<notin> {0, 1, 2, 3}" "second_ok a b" "is_cont c" "is_cont d"
  shows "length (encode_char ((a - 240) * 262144 + (b - 128) * 4096 + (c - 128) * 64 + (d - 128))) = 4"
proof -
  obtain i j where ij: "a = 240 + i" "b = 128 + j"
    using assms by (auto simp: seq_len_def second_ok_def is_cont_def le_iff_add split: if_splits)
  have "i = 0 \<Longrightarrow> 16 \<le> j"
    using assms ij by (auto simp: seq_len_def second_ok_def is_cont_def split: if_splits)
  then have "65536 \<le> i * 262144 + j * 4096 + (c - 128) * 64 + (d - 128)" by (cases "i = 0") auto
  then show ?thesis by (simp add: ij encode_char_def)
qed

lemma char_size_1: "seq_len a = 1 \<Longrightarrow> length (encode_char a) = 1"
  by (simp add: seq_len_def encode_char_def split: if_splits)

lemma utf8_next_size: "utf8_next bs = (Some c, n) \<Longrightarrow> length (encode_char c) = n"
  by (cases bs rule: utf8_next.cases)
    (auto simp: char_size_1 split: if_splits intro!: char_size_2 char_size_3 char_size_4)

lemma parse_text_advances:
  assumes "input \<noteq> []"
  shows "advances input (parse_text input)"
proof -
  obtain c n where char: "utf8_next (take 4 input) = (c, n)" by fastforce
  then have "0 < n" "n \<le> length input"
    using utf8_next_bounds [of "take 4 input"] assms by simp_all
  then show ?thesis using char utf8_next_size [of "take 4 input"]
    by (auto simp: parse_text_def advances_def split: option.splits)
qed

lemma parse_ground_advances: "input \<noteq> [] \<Longrightarrow> advances input (parse_ground input)"
  using parse_text_advances [of input] by (cases input) (auto simp: parse_ground_def Let_def advances_def)

lemma x10_advances: "advances input (parse_x10_mouse input)"
  by (auto simp: parse_x10_mouse_def advances_def split: list.splits option.splits dest!: arg_cong [where f = length])

lemma parse_csi_advances:
  assumes "length input > 1"
  shows "advances input (parse_csi input)"
proof (cases "csi_scan (drop 2 input) 2")
  case (CsiLast e)
  then have "2 \<le> e" "e < length input" using csi_scan_bounds(1) [of 2 "drop 2 input" "length input"] assms by auto
  then show ?thesis
    using csi_final_size [of "input ! e" "drop 2 (take e input)" "e + 1" input] x10_advances [of input] CsiLast
    unfolding parse_csi_def CsiLast csi_end.case advances_def of_size_def
    by (metis csi_final_x10 add_gr_0 less_one Suc_eq_plus1 Suc_leI)
next
  case (CsiBroken e)
  then have "2 \<le> e" "e < length input" using csi_scan_bounds(2) [of 2 "drop 2 input" "length input"] assms by auto
  then show ?thesis using CsiBroken by (simp add: parse_csi_def advances_def)
qed (simp add: parse_csi_def)

lemma parse_string_advances:
  assumes "length input > 1"
  shows "advances input (parse_string input)"
proof -
  have "2 + length (drop 2 input) = length input" using assms by simp
  from string_scan_bounds [OF this, of "input ! 1 = 93"] show ?thesis
    by (fastforce simp: parse_string_def Let_def advances_def split: string_end.splits option.splits)
qed

lemma parse_ss3_advances: "length input > 1 \<Longrightarrow> advances input (parse_ss3 input)"
  by (auto simp: parse_ss3_def Let_def advances_def split: list.splits option.splits dest!: arg_cong [where f = length])

lemma parse_cases:
  obtains (ground) b rest where "input = b # rest" "b \<noteq> esc" "parse input = parse_ground input"
  | (alone) "input = [esc]" "parse input = StIncomplete"
  | (ss3) rest where "input = esc # 79 # rest" "parse input = parse_ss3 input"
  | (csi) rest where "input = esc # 91 # rest" "parse input = parse_csi input"
  | (str) b rest where "input = esc # b # rest" "b \<in> {93, 80, 88, 94, 95}" "parse input = parse_string input"
  | (escape) rest where "input = esc # esc # rest" "parse input = StEvent (KeyEvent (with_alt (new_key KEscape))) 2"
  | (alt) b rest where "input = esc # b # rest" "b \<notin> {79, 91, 93, 80, 88, 94, 95, esc}"
      "parse input = (case parse_ground (b # rest) of
         StEvent (KeyEvent k) n \<Rightarrow> StEvent (KeyEvent (with_alt k)) (n + 1)
       | StIncomplete \<Rightarrow> StIncomplete | _ \<Rightarrow> StSkip 1)"
  | (empty) "input = []"
proof (cases "tl input")
  case Nil
  then show ?thesis using that(1,2,8) by (cases input) (auto simp: parse_def)
next
  case (Cons b rest)
  then have input: "input = hd input # b # rest" by (cases input) auto
  show ?thesis
  proof (cases "hd input = esc")
    case True
    consider "b = 79" | "b = 91" | "b \<in> {93, 80, 88, 94, 95}" | "b = esc" | "b \<notin> {79, 91, 93, 80, 88, 94, 95, esc}"
      by blast
    then show ?thesis
      using that(3) [of rest] that(4) [of rest] that(6) [of rest] that(5) [of b rest] that(7) [of b rest] True input Cons
      by cases (auto simp: parse_def esc_def)
  next
    case False
    then show ?thesis using that(1) [of "hd input" "b # rest"] input by (simp add: parse_def)
  qed
qed

lemma parse_advances:
  assumes "input \<noteq> []"
  shows "advances input (parse input)"
proof (cases rule: parse_cases [of input])
  case (alt b rest)
  have "advances (b # rest) (parse_ground (b # rest))" by (rule parse_ground_advances) simp
  then show ?thesis unfolding alt(3) by (auto simp: advances_def alt(1) split: step.splits term_event.splits)
qed (use assms parse_ground_advances [of input] parse_ss3_advances [of input] parse_csi_advances [of input]
      parse_string_advances [of input] in \<open>simp_all add: advances_def\<close>)

lemma cut_step_advances: "input \<noteq> [] \<Longrightarrow> advances input (cut_step input) \<and> cut_step input \<noteq> StIncomplete"
  by (cases input; cases "tl input") (auto simp: cut_step_def advances_def split: step.splits term_event.splits)

lemma next_step_advances: "input \<noteq> [] \<Longrightarrow> advances input (next_step flush input)"
  using parse_advances [of input] cut_step_advances [of input] by (auto simp: next_step_def split: step.splits)

lemma next_step_size:
  "input \<noteq> [] \<Longrightarrow> next_step flush input = s \<Longrightarrow> s \<noteq> StIncomplete \<Longrightarrow> 0 < step_size s \<and> step_size s \<le> length input"
  using next_step_advances [of input flush] by (simp add: advances_def)

section \<open>Reading\<close>

text \<open>The loop of \<open>read\<close>: the events, the bytes that stay, and the open paste.\<close>

function read_loop :: "bool \<Rightarrow> nat list \<Rightarrow> nat list option \<Rightarrow> parsed list \<times> nat list \<times> nat list option" where
  "read_loop flush rest paste =
     (if rest = [] then ([], [], paste)
      else
        (case paste of
           Some text \<Rightarrow>
             (case find_bytes paste_end rest of
                Some end' \<Rightarrow>
                  (let (events, p) = read_loop flush (drop (end' + length paste_end) rest) None
                   in (PEvent (Paste (clean_paste (text @ take end' rest))) # events, p))
              | None \<Rightarrow>
                  (let n = length rest - min (length rest) (length paste_end - 1)
                   in ([], drop n rest, Some (text @ take n rest))))
         | None \<Rightarrow>
             (case next_step flush rest of
                StIncomplete \<Rightarrow> ([], rest, None)
              | StSkip n \<Rightarrow> read_loop flush (drop n rest) None
              | StEvent event n \<Rightarrow>
                  (let (events, p) = read_loop flush (drop n rest) None in (PEvent event # events, p))
              | StAnswer answer n \<Rightarrow>
                  (let (events, p) = read_loop flush (drop n rest) None in (PAnswer answer # events, p))
              | StPasteStart n \<Rightarrow> read_loop flush (drop n rest) (Some []))))"
  by pat_completeness auto
termination
  by (relation "measure (\<lambda>(flush, rest, paste). length rest)")
    (auto simp: paste_end_def dest!: next_step_size [rotated])

declare read_loop.simps [simp del]

definition parser_read :: "bool \<Rightarrow> parser \<Rightarrow> parsed list \<times> parser" where
  "parser_read flush p =
     (let (events, rest, paste) = read_loop flush (pending p) (open_paste p)
      in (events, p\<lparr>pending := rest, open_paste := paste\<rparr>))"

definition feed :: "nat list \<Rightarrow> parser \<Rightarrow> parsed list \<times> parser" where
  "feed bytes p = parser_read False (p\<lparr>pending := pending p @ bytes\<rparr>)"

definition flush_parser :: "parser \<Rightarrow> parsed list \<times> parser" where
  "flush_parser p = (if \<not> waits p then ([], p) else parser_read True p)"

section \<open>More input does not change a complete step\<close>

lemma utf8_next_take: "utf8_next (take 4 bs) = utf8_next bs"
  by (cases bs rule: utf8_next.cases) (simp_all add: numeral_eq_Suc)

lemma utf8_next_None_short: "utf8_next bs = (None, n) \<Longrightarrow> n \<le> 3"
  by (cases bs rule: utf8_next.cases) (auto split: if_splits)

lemma utf8_next_more:
  assumes "bs \<noteq> []" "\<not> cut_sequence bs"
  shows "utf8_next (bs @ later) = utf8_next bs"
proof (cases bs rule: utf8_next.cases)
  case (2 a)
  with assms show ?thesis
    by (cases later rule: utf8_next.cases) (auto simp: cut_sequence_def seq_len_def split: if_splits)
next
  case (3 a b)
  with assms show ?thesis
    by (cases later rule: utf8_next.cases) (auto simp: cut_sequence_def seq_len_def split: if_splits)
next
  case (4 a b c)
  with assms show ?thesis
    by (cases later) (auto simp: cut_sequence_def seq_len_def split: if_splits)
qed (use assms in simp_all)

lemma cut_sequence_more:
  assumes "bs \<noteq> []" "\<not> cut_sequence bs"
  shows "\<not> cut_sequence (bs @ later)"
proof -
  obtain c n where n: "utf8_next bs = (c, n)" by fastforce
  then show ?thesis using utf8_next_more [OF assms, of later] utf8_next_bounds [OF assms(1)] assms
    by (cases later) (auto simp: cut_sequence_def split: option.splits)
qed

lemma cut_sequence_take: "bs \<noteq> [] \<Longrightarrow> cut_sequence (take 4 bs) = cut_sequence bs"
proof (cases "length bs \<le> 4")
  case False
  obtain c n where n: "utf8_next bs = (c, n)" by fastforce
  then show ?thesis using utf8_next_None_short [of bs n] False
    by (cases c) (auto simp: cut_sequence_def utf8_next_take)
qed simp

lemma parse_text_more:
  assumes "input \<noteq> []" "parse_text input \<noteq> StIncomplete"
  shows "parse_text (input @ later) = parse_text input"
proof -
  have whole: "parse_text bs =
      (case utf8_next bs of
         (Some c, n) \<Rightarrow> StEvent (KeyEvent ((new_key (KChar c))\<lparr>k_text := [c]\<rparr>)) (length (encode_char c))
       | (None, n) \<Rightarrow> if cut_sequence bs then StIncomplete else StSkip n)" if "bs \<noteq> []" for bs
    unfolding parse_text_def Let_def utf8_next_take cut_sequence_take [OF that] ..
  have "\<not> cut_sequence input" using assms by (auto simp: whole cut_sequence_def split: option.splits prod.splits)
  then show ?thesis using assms(1) cut_sequence_more [OF assms(1), of later]
    by (simp add: whole utf8_next_more split: option.splits prod.splits)
qed

lemma parse_ground_more:
  assumes "input \<noteq> []" "parse_ground input \<noteq> StIncomplete"
  shows "parse_ground (input @ later) = parse_ground input"
  using assms parse_text_more [of input later] by (auto simp: parse_ground_def Let_def split: if_splits)

lemma parse_ss3_more: "parse_ss3 input \<noteq> StIncomplete \<Longrightarrow> parse_ss3 (input @ later) = parse_ss3 input"
  by (cases "drop 2 input") (auto simp: parse_ss3_def dest!: arg_cong [where f = length])

lemma string_scan_more:
  "string_scan osc bytes at \<noteq> StringCut \<Longrightarrow> string_scan osc (bytes @ later) at = string_scan osc bytes at"
  by (induction bytes arbitrary: at) (auto simp: string_scan_Cons split: if_splits)

lemma csi_scan_more: "csi_scan bytes at \<noteq> CsiCut \<Longrightarrow> csi_scan (bytes @ later) at = csi_scan bytes at"
  by (induction bytes at rule: csi_scan.induct) (auto split: if_splits)

lemma parse_string_more:
  assumes "length input > 1" "parse_string input \<noteq> StIncomplete"
  shows "parse_string (input @ later) = parse_string input"
proof -
  have len: "2 + length (drop 2 input) = length input" using assms by simp
  have osc: "(input @ later) ! 1 = input ! 1" using assms(1) by (simp add: nth_append)
  have "string_scan (input ! 1 = 93) (drop 2 input) 2 \<noteq> StringCut"
    using assms(2) by (auto simp: parse_string_def)
  from string_scan_more [OF this, of later] assms(1)
  have same: "string_scan (input ! 1 = 93) (drop 2 (input @ later)) 2 = string_scan (input ! 1 = 93) (drop 2 input) 2"
    by simp
  have "take e (input @ later) = take e input" if "string_scan (input ! 1 = 93) (drop 2 input) 2 = StringEnd e f" for e f
    using string_scan_bounds(1) [OF len that] by simp
  then show ?thesis unfolding parse_string_def osc same Let_def
    by (auto split: string_end.splits)
qed

lemma x10_more: "parse_x10_mouse input \<noteq> StIncomplete \<Longrightarrow> parse_x10_mouse (input @ later) = parse_x10_mouse input"
  by (auto simp: parse_x10_mouse_def split: list.splits)

lemma csi_final_input:
  "\<not> (byte = 77 \<and> params = []) \<Longrightarrow> csi_final input params byte n = csi_final input' params byte n"
  by (simp only: csi_final_def if_False)

lemma parse_csi_more:
  assumes "length input > 1" "parse_csi input \<noteq> StIncomplete"
  shows "parse_csi (input @ later) = parse_csi input"
proof -
  have len: "2 + length (drop 2 input) = length input" using assms by simp
  have "csi_scan (drop 2 input) 2 \<noteq> CsiCut" using assms(2) by (auto simp: parse_csi_def)
  from csi_scan_more [OF this, of later] assms(1)
  have same: "csi_scan (drop 2 (input @ later)) 2 = csi_scan (drop 2 input) 2" by simp
  show ?thesis
  proof (cases "csi_scan (drop 2 input) 2")
    case (CsiLast e)
    have e: "e < length input" using csi_scan_bounds(1) [OF len CsiLast] by simp
    then have slices: "take e (input @ later) = take e input" "(input @ later) ! e = input ! e" by (simp_all add: nth_append)
    have "csi_final (input @ later) (drop 2 (take e input)) (input ! e) (e + 1) =
        csi_final input (drop 2 (take e input)) (input ! e) (e + 1)"
    proof (cases "input ! e = 77 \<and> drop 2 (take e input) = []")
      case True
      then have "parse_x10_mouse input \<noteq> StIncomplete" using assms(2) CsiLast by (simp add: parse_csi_def csi_final_x10)
      then show ?thesis unfolding conjunct1 [OF True] conjunct2 [OF True] csi_final_x10 by (rule x10_more)
    qed (rule csi_final_input)
    then show ?thesis unfolding parse_csi_def same CsiLast csi_end.case slices .
  qed (simp_all only: parse_csi_def same csi_end.case)
qed

lemma parse_more:
  assumes "input \<noteq> []" "parse input \<noteq> StIncomplete"
  shows "parse (input @ later) = parse input"
proof (cases rule: parse_cases [of input])
  case (ground b rest)
  then show ?thesis using assms parse_ground_more [of input later] by (simp add: parse_def)
next
  case (ss3 rest)
  then show ?thesis using assms parse_ss3_more [of input later] by (simp add: parse_def)
next
  case (csi rest)
  then show ?thesis using assms parse_csi_more [of input later] by (simp add: parse_def)
next
  case (str b rest)
  then show ?thesis using assms parse_string_more [of input later] by (auto simp: parse_def)
next
  case (alt b rest)
  have "parse_ground (b # rest) \<noteq> StIncomplete" using assms alt(3) by auto
  then show ?thesis using alt parse_ground_more [of "b # rest" later] by (simp add: parse_def)
qed (use assms in \<open>simp_all add: parse_def esc_def\<close>)

lemma find_bytes_Some:
  "find_bytes needle xs = Some e \<longleftrightarrow>
     e < length xs \<and> prefix needle (drop e xs) \<and> (\<forall>i < e. \<not> prefix needle (drop i xs))"
proof (induction xs arbitrary: e)
  case (Cons b bs)
  show ?case
  proof (cases e)
    case (Suc i)
    show ?thesis unfolding Suc find_bytes.simps using Cons.IH [of i] by (auto simp: All_less_Suc2)
  qed auto
qed simp

lemma find_bytes_None: "find_bytes needle xs = None \<longleftrightarrow> (\<forall>i < length xs. \<not> prefix needle (drop i xs))"
  by (induction xs) (auto simp: All_less_Suc2)

lemma prefix_fits: "prefix needle (drop e xs) \<Longrightarrow> e < length xs \<Longrightarrow> e + length needle \<le> length xs"
  using prefix_length_le [of needle "drop e xs"] by simp

lemma prefix_short: "prefix needle (xs @ ys) \<Longrightarrow> length needle \<le> length xs \<Longrightarrow> prefix needle xs"
  using prefix_length_prefix [of needle "xs @ ys" xs] by simp

lemma find_bytes_more:
  assumes "find_bytes needle xs = Some e"
  shows "find_bytes needle (xs @ ys) = Some e"
proof -
  have "prefix needle (drop e xs @ ys)" using assms by (simp add: find_bytes_Some)
  moreover have "\<not> prefix needle (drop i xs @ ys)" if "i < e" for i
  proof
    assume p: "prefix needle (drop i xs @ ys)"
    have "length needle \<le> length (drop i xs)"
      using assms that prefix_fits [of needle e xs] by (simp add: find_bytes_Some)
    then have "prefix needle (drop i xs)" using prefix_short p by blast
    then show False using assms that by (simp add: find_bytes_Some)
  qed
  ultimately show ?thesis using assms by (auto simp: find_bytes_Some)
qed

lemma find_bytes_skip:
  assumes "\<forall>i < k. \<not> prefix needle (drop i xs)" "k \<le> length xs"
  shows "find_bytes needle xs = map_option ((+) k) (find_bytes needle (drop k xs))"
  using assms
proof (induction k)
  case (Suc k)
  then have "find_bytes needle xs = map_option ((+) k) (find_bytes needle (drop k xs))" by simp
  moreover have "drop k xs = xs ! k # drop (Suc k) xs" using Suc.prems(2) by (simp add: Cons_nth_drop_Suc)
  ultimately show ?case using Suc.prems(1) by (auto simp: option.map_comp comp_def)
qed (cases "find_bytes needle xs"; simp)

lemma find_bytes_later:
  assumes "find_bytes needle xs = None" "k = length xs - min (length xs) (length needle - 1)" "needle \<noteq> []"
  shows "find_bytes needle (xs @ ys) = map_option ((+) k) (find_bytes needle (drop k xs @ ys))"
proof -
  have "\<not> prefix needle (drop i (xs @ ys))" if "i < k" for i
  proof
    assume p: "prefix needle (drop i (xs @ ys))"
    have len: "length needle \<le> length (drop i xs)" "i < length xs" using that assms(2,3) by (cases needle; auto)+
    then have "prefix needle (drop i xs)" using prefix_short [of needle "drop i xs"] p len(2) by simp
    then show False using assms(1) len(2) by (simp add: find_bytes_None)
  qed
  then show ?thesis using find_bytes_skip [of k needle "xs @ ys"] assms(2) by simp
qed

text \<open>A paste whose end does not come yet.\<close>

lemma tail_size:
  fixes k r l m :: nat
  assumes "k = r - min r 5" "r + l - min (r + l) 5 = k + m"
  shows "r - k + l - min (r - k + l) 5 = m"
proof (cases "r \<le> 5")
  case False
  then have "k = r - 5" "r - k = 5" using assms(1) by simp_all
  then show ?thesis using assms(2) False by simp
qed (use assms in simp)

lemma five: "length paste_end - 1 = 5"
  by (simp add: paste_end_def)

lemma read_open_paste:
  assumes "find_bytes paste_end rest = None" "n = length rest - min (length rest) (length paste_end - 1)"
  shows "read_loop flush (rest @ later) (Some text) = read_loop flush (drop n rest @ later) (Some (text @ take n rest))"
proof (cases "rest = []")
  case False
  have later: "find_bytes paste_end (rest @ later) = map_option ((+) n) (find_bytes paste_end (drop n rest @ later))"
    using find_bytes_later [OF assms] by (simp add: paste_end_def)
  have n: "n \<le> length rest" "drop n rest \<noteq> []" using assms(2) False by (cases rest; simp add: paste_end_def)+
  have parts: "drop (n + m) (rest @ later) = drop m (drop n rest @ later)"
      "take (n + m) (rest @ later) = take n rest @ take m (drop n rest @ later)" for m
    using n(1) take_add [of n m "rest @ later"]
    by (simp_all only: drop_drop [symmetric] drop_append take_append) (simp_all add: add.commute)
  show ?thesis
  proof (cases "find_bytes paste_end (drop n rest @ later)")
    case None
    have "n \<le> length (rest @ later) - min (length (rest @ later)) (length paste_end - 1)"
      using assms(2) by (simp add: paste_end_def)
    then obtain m where m: "length (rest @ later) - min (length (rest @ later)) (length paste_end - 1) = n + m"
      using le_Suc_ex by blast
    then have m': "length (drop n rest @ later) - min (length (drop n rest @ later)) (length paste_end - 1) = m"
      using tail_size [of n "length rest" "length later" m] assms(2) unfolding length_append length_drop five by blast
    show ?thesis
      by (subst (1 2) read_loop.simps)
        (simp only: append_is_Nil_conv False n(2) later None option.case option.map Let_def m m' parts append.assoc
          simp_thms if_False)
  next
    case (Some e)
    show ?thesis
      by (subst (1 2) read_loop.simps)
        (simp only: append_is_Nil_conv False n(2) later Some option.case option.map Let_def add.assoc parts append.assoc
          simp_thms if_False)
  qed
qed (use assms in simp)

text \<open>A read in two parts.\<close>

lemma read_loop_append:
  "read_loop False (a @ b) paste =
     (let (events, rest, paste') = read_loop False a paste; (later, p) = read_loop False (rest @ b) paste'
      in (events @ later, p))"
proof (induction "length a" arbitrary: a paste rule: less_induct)
  case less
  show ?case
  proof (cases "a = []")
    case True
    then show ?thesis by (simp add: read_loop.simps [of False "[]"] split_beta)
  next
    case nonempty: False
    show ?thesis
    proof (cases paste)
      case (Some bytes)
      show ?thesis
      proof (cases "find_bytes paste_end a")
        case None
        show ?thesis unfolding Some read_open_paste [OF None refl]
          by (subst read_loop.simps [of False a]) (use None nonempty in \<open>simp add: Let_def\<close>)
      next
        case (Some e)
        then have e: "e + 6 \<le> length a" "e < length a"
          using prefix_fits [of paste_end e a] by (auto simp: find_bytes_Some paste_end_def)
        have ih: "read_loop False (drop (e + length paste_end) a @ b) None =
            (let (events, rest, paste') = read_loop False (drop (e + length paste_end) a) None;
                 (later, p) = read_loop False (rest @ b) paste' in (events @ later, p))"
          by (rule less) (use e in \<open>simp add: paste_end_def\<close>)
        have parts: "drop (e + length paste_end) (a @ b) = drop (e + length paste_end) a @ b"
            "take e (a @ b) = take e a"
          using e by (simp_all add: paste_end_def)
        show ?thesis unfolding \<open>paste = Some bytes\<close>
          by (subst (1 2) read_loop.simps)
            (simp only: option.case Some find_bytes_more [OF Some] parts ih nonempty append_is_Nil_conv if_False simp_thms
              split_beta Let_def append_Cons fst_conv snd_conv)
      qed
    next
      case None
      show ?thesis
      proof (cases "parse a = StIncomplete")
        case True
        have "read_loop False a None = ([], a, None)"
          by (subst read_loop.simps) (simp add: nonempty next_step_def True)
        then show ?thesis unfolding None by (simp add: split_beta)
      next
        case False
        have step: "next_step False (a @ b) = next_step False a" "next_step False a \<noteq> StIncomplete"
          using parse_more [OF nonempty False, of b] False by (simp_all add: next_step_def split: step.splits)
        from next_step_size [OF nonempty refl step(2)]
        have n: "0 < step_size (next_step False a)" "step_size (next_step False a) \<le> length a" by simp_all
        then have parts: "drop (step_size (next_step False a)) (a @ b) = drop (step_size (next_step False a)) a @ b" by simp
        have ih: "read_loop False (drop (step_size (next_step False a)) a @ b) q =
            (let (events, rest, paste') = read_loop False (drop (step_size (next_step False a)) a) q;
                 (later, p) = read_loop False (rest @ b) paste' in (events @ later, p))" for q
          by (rule less) (use n nonempty in simp)
        show ?thesis unfolding None
        proof (subst (1 2) read_loop.simps, cases "next_step False a")
        qed (use step(2) ih parts in \<open>simp_all add: nonempty step(1) split_beta Let_def\<close>)
      qed
    qed
  qed
qed

section \<open>Reads of a terminal\<close>

text \<open>The reads of a terminal, one after the other.\<close>

fun feeds :: "nat list list \<Rightarrow> parser \<Rightarrow> parsed list \<times> parser" where
  "feeds [] p = ([], p)"
| "feeds (c # cs) p = (let (events, p1) = feed c p; (later, p2) = feeds cs p1 in (events @ later, p2))"

lemma feed_append:
  "feed (a @ b) p = (let (events, p1) = feed a p; (later, p2) = feed b p1 in (events @ later, p2))"
  using read_loop_append [of "pending p @ a" b "open_paste p"]
  by (cases p) (simp add: feed_def parser_read_def split_beta)

lemma feeds_concat: "feeds (c # cs) p = feed (c @ concat cs) p"
proof (induction cs arbitrary: c p)
  case (Cons d ds)
  show ?case using Cons.IH [of d] feed_append [of c "d @ concat ds" p] by (simp add: split_beta)
qed (simp add: split_beta)

text \<open>C21: The events of the terminal do not depend on where its reads cut the bytes, and neither does the parser after
  them: reads of any size from any state do what one read of all the bytes does.\<close>

theorem reads_do_not_matter: "feeds (c # cs) p = feed (c @ concat cs) p"
  by (rule feeds_concat)

text \<open>Each event takes bytes of its own.\<close>

lemma read_loop_step:
  assumes "rest \<noteq> []" "next_step flush rest \<noteq> StIncomplete"
  obtains events q where "length events \<le> 1"
    "read_loop flush rest None =
       (let (later, p) = read_loop flush (drop (step_size (next_step flush rest)) rest) q in (events @ later, p))"
proof -
  have "\<exists>events q. length events \<le> 1 \<and> read_loop flush rest None =
      (let (later, p) = read_loop flush (drop (step_size (next_step flush rest)) rest) q in (events @ later, p))"
  proof (cases "next_step flush rest")
    case (StSkip n)
    then show ?thesis using assms by (intro exI [of _ "[]"] exI [of _ None]) (simp add: read_loop.simps [of flush rest])
  next
    case (StEvent e n)
    then show ?thesis using assms
      by (intro exI [of _ "[PEvent e]"] exI [of _ None]) (simp add: read_loop.simps [of flush rest] split_beta)
  next
    case (StAnswer a n)
    then show ?thesis using assms
      by (intro exI [of _ "[PAnswer a]"] exI [of _ None]) (simp add: read_loop.simps [of flush rest] split_beta)
  next
    case (StPasteStart n)
    then show ?thesis using assms
      by (intro exI [of _ "[]"] exI [of _ "Some []"]) (simp add: read_loop.simps [of flush rest])
  qed (use assms in simp)
  then show ?thesis using that by blast
qed

lemma read_loop_paste:
  assumes "find_bytes paste_end rest = Some e"
  shows "e + 6 \<le> length rest" "read_loop flush rest (Some bytes) =
    (let (later, p) = read_loop flush (drop (e + 6) rest) None in (PEvent (Paste (clean_paste (bytes @ take e rest))) # later, p))"
proof -
  show "e + 6 \<le> length rest"
    using assms prefix_fits [of paste_end e rest] by (auto simp: find_bytes_Some paste_end_def)
  then have "rest \<noteq> []" by auto
  moreover have "length paste_end = 6" by (simp add: paste_end_def)
  ultimately show "read_loop flush rest (Some bytes) =
    (let (later, p) = read_loop flush (drop (e + 6) rest) None in (PEvent (Paste (clean_paste (bytes @ take e rest))) # later, p))"
    using assms by (subst read_loop.simps) simp
qed

lemma read_loop_bounds:
  "length (fst (read_loop flush rest paste)) + length (fst (snd (read_loop flush rest paste))) \<le> length rest"
proof (induction "length rest" arbitrary: rest paste rule: less_induct)
  case less
  show ?case
  proof (cases "rest = []")
    case nonempty: False
    show ?thesis
    proof (cases paste)
      case (Some bytes)
      show ?thesis
      proof (cases "find_bytes paste_end rest")
        case None
        then show ?thesis unfolding Some by (subst (1 2) read_loop.simps) (simp add: nonempty Let_def)
      next
        case (Some e)
        note paste = read_loop_paste(1) [OF Some] read_loop_paste(2) [OF Some, of flush bytes]
        have "length (drop (e + 6) rest) < length rest" using paste(1) by simp
        from less [OF this, of None] show ?thesis
          unfolding \<open>paste = Some bytes\<close> paste(2) split_beta Let_def using paste(1) by simp
      qed
    next
      case None
      show ?thesis
      proof (cases "next_step flush rest = StIncomplete")
        case True
        then show ?thesis unfolding None by (subst (1 2) read_loop.simps) (simp add: nonempty)
      next
        case False
        note size = next_step_size [OF nonempty refl False]
        obtain events q where q: "length events \<le> 1" "read_loop flush rest None =
            (let (later, p) = read_loop flush (drop (step_size (next_step flush rest)) rest) q in (events @ later, p))"
          using read_loop_step [OF nonempty False] by blast
        have "length (drop (step_size (next_step flush rest)) rest) < length rest" using size nonempty by simp
        from less [OF this, of q] show ?thesis
          unfolding None q(2) split_beta Let_def using q(1) size by (simp, linarith)
      qed
    qed
  qed (simp add: read_loop.simps)
qed

text \<open>C24: A read ends, with at most one event for each byte: the events and the bytes that the parser keeps are together
  no more than the bytes that it had and the bytes of the read.\<close>

theorem read_takes_bytes:
  "length (fst (feed bytes p)) + kept (snd (feed bytes p)) \<le> kept p + length bytes"
  using read_loop_bounds [of False "pending p @ bytes" "open_paste p"]
  by (simp add: feed_def parser_read_def kept_def split_beta)

text \<open>After a flush no key waits.\<close>

lemma flush_step: "rest \<noteq> [] \<Longrightarrow> next_step True rest \<noteq> StIncomplete"
  using cut_step_advances [of rest] by (simp add: next_step_def split: step.splits)

lemma flush_reads_all:
  "fst (snd (read_loop True rest paste)) = [] \<or> snd (snd (read_loop True rest paste)) \<noteq> None"
proof (induction "length rest" arbitrary: rest paste rule: less_induct)
  case less
  show ?case
  proof (cases "rest = []")
    case nonempty: False
    show ?thesis
    proof (cases paste)
      case (Some bytes)
      show ?thesis
      proof (cases "find_bytes paste_end rest")
        case None
        then show ?thesis unfolding Some by (subst (1 2) read_loop.simps) (simp add: nonempty Let_def)
      next
        case (Some e)
        note paste = read_loop_paste(1) [OF Some] read_loop_paste(2) [OF Some, of True bytes]
        have "length (drop (e + 6) rest) < length rest" using paste(1) by simp
        from less [OF this, of None] show ?thesis
          unfolding \<open>paste = Some bytes\<close> paste(2) split_beta Let_def by simp
      qed
    next
      case None
      note step = flush_step [OF nonempty]
      obtain events q where q: "read_loop True rest None =
          (let (later, p) = read_loop True (drop (step_size (next_step True rest)) rest) q in (events @ later, p))"
        using read_loop_step [OF nonempty step] by blast
      have "length (drop (step_size (next_step True rest)) rest) < length rest"
        using next_step_size [OF nonempty refl step] nonempty by simp
      from less [OF this, of q] show ?thesis unfolding None q split_beta Let_def by simp
    qed
  qed (simp add: read_loop.simps)
qed

text \<open>A flush leaves nothing that waits, so a key is never stuck behind a cut sequence.\<close>

theorem flush_leaves_nothing: "\<not> waits (snd (flush_parser p))"
  using flush_reads_all [of "pending p" "open_paste p"]
  by (auto simp: flush_parser_def parser_read_def waits_def split_beta)

text \<open>A paste between its two markers.\<close>

definition paste_start :: "nat list" where "paste_start = [esc, 91, 50, 48, 48, 126]"

lemma parse_paste_start: "parse (paste_start @ rest) = StPasteStart 6"
  by (simp add: parse_def paste_start_def esc_def parse_csi_def csi_final_def letter_code_def tilde_key_def param_fields_def
      number_def to_digit_def)

lemma find_paste_end:
  assumes "\<not> sublist paste_end body"
  shows "find_bytes paste_end (body @ paste_end) = Some (length body)"
proof -
  have "\<not> prefix paste_end (drop i body @ paste_end)" if "i < length body" for i
  proof
    assume p: "prefix paste_end (drop i body @ paste_end)"
    show False
    proof (cases "6 \<le> length (drop i body)")
      case True
      then have "prefix paste_end (drop i body)" by (intro prefix_short [OF p]) (simp add: paste_end_def)
      then have "sublist paste_end (drop i body)" by (rule prefix_imp_sublist)
      then show False using assms sublist_order.order_trans [OF _ suffix_imp_sublist [OF suffix_drop]] by blast
    next
      case False
      let ?n = "length (drop i body)"
      obtain zs where "drop i body @ paste_end = paste_end @ zs" using p by (auto simp: prefix_def)
      then have "(drop i body @ paste_end) ! ?n = (paste_end @ zs) ! ?n" by (rule arg_cong)
      moreover have "?n < length paste_end" using False by (simp add: paste_end_def)
      ultimately have "paste_end ! ?n = paste_end ! 0" by (simp only: nth_append less_irrefl if_False if_True diff_self_eq_0)
      moreover have "?n \<in> {1, 2, 3, 4, 5}" using that False by auto
      ultimately show False by (auto simp: paste_end_def esc_def)
    qed
  qed
  then show ?thesis by (simp add: find_bytes_Some) (simp add: paste_end_def)
qed

lemma clean_chars_clean: "c \<in> set (clean_chars cs) \<Longrightarrow> c = 10 \<or> c = 9 \<or> \<not> is_control c"
  by (induction cs rule: clean_chars.induct) (auto split: if_splits)

text \<open>C22: A paste that has no end marker in it is one event, however the reads cut it: none of its bytes reads as a key,
  and its text has no control character but line feeds and tabs.\<close>

theorem paste_is_one_clean_event:
  assumes "concat chunks = paste_start @ body @ paste_end" "\<not> sublist paste_end body"
  shows "feeds chunks new_parser = ([PEvent (Paste (clean_paste body))], new_parser) \<and>
    (\<forall>c \<in> set (clean_paste body). c = 10 \<or> c = 9 \<or> \<not> is_control c)"
proof
  have whole: "feeds chunks new_parser = feed (concat chunks) new_parser"
  proof (cases chunks)
    case Nil
    then show ?thesis using assms(1) by (simp add: paste_start_def)
  next
    case (Cons c cs)
    then show ?thesis using feeds_concat [of c cs new_parser] by simp
  qed
  have step: "next_step False (paste_start @ body @ paste_end) = StPasteStart 6"
    by (simp add: next_step_def parse_paste_start)
  have "drop 6 (paste_start @ body @ paste_end) = body @ paste_end" by (simp add: paste_start_def)
  moreover have "paste_start @ body @ paste_end \<noteq> []" by (simp add: paste_start_def)
  moreover have "body @ paste_end \<noteq> []" "length paste_end = 6" by (simp_all add: paste_end_def)
  ultimately have "read_loop False (paste_start @ body @ paste_end) None =
      ([PEvent (Paste (clean_paste body))], [], None)"
    using step find_paste_end [OF assms(2)]
    by (simp add: read_loop.simps [of False "paste_start @ body @ paste_end"] read_loop.simps [of False "body @ paste_end"]
        read_loop.simps [of False "[]"])
  then show "feeds chunks new_parser = ([PEvent (Paste (clean_paste body))], new_parser)"
    unfolding whole assms(1) by (simp add: feed_def parser_read_def new_parser_def)
  show "\<forall>c \<in> set (clean_paste body). c = 10 \<or> c = 9 \<or> \<not> is_control c"
    using clean_chars_clean by (auto simp: clean_paste_def)
qed

theorem paste_is_one_clean_event_witness:
  "feeds [[27, 91, 50], [48, 48, 126, 104], [13, 10, 7, 27, 91, 50, 48], [49, 126]] new_parser =
     ([PEvent (Paste [104, 10])], new_parser) \<and> \<not> is_control 104"
proof -
  have end': "\<not> sublist paste_end [104, 13, 10, 7]"
    using sublist_length_le [of paste_end "[104, 13, 10, 7]"] by (auto simp: paste_end_def)
  have "concat [[27, 91, 50], [48, 48, 126, 104], [13, 10, 7, 27, 91, 50, 48], [49, 126]] =
      paste_start @ [104, 13, 10, 7] @ paste_end"
    by (simp add: paste_start_def paste_end_def esc_def)
  from paste_is_one_clean_event [OF this end'] show ?thesis
    by (simp add: clean_paste_def lossy_chars_def esc_def is_control_def seq_len_def)
qed

text \<open>Typed text.\<close>

definition typed_key :: "nat \<Rightarrow> key" where
  "typed_key c = (new_key (KChar c))\<lparr>k_text := [c]\<rparr>"

lemma encode_char_head:
  assumes "is_scalar c" "32 \<le> c" "c \<noteq> 127"
  shows "32 \<le> hd (encode_char c) \<and> hd (encode_char c) \<noteq> 127"
  using assms by (auto simp: encode_char_def)

lemma cut_encoded: "is_scalar c \<Longrightarrow> \<not> cut_sequence (encode_char c @ rest)"
  by (simp add: cut_sequence_def utf8_next_encode)

lemma parse_typed:
  assumes "is_scalar c" "32 \<le> c" "c \<noteq> 127"
  shows "parse (encode_char c @ rest) = StEvent (KeyEvent (typed_key c)) (length (encode_char c))"
proof -
  have "hd (encode_char c @ rest) = hd (encode_char c)" by simp
  with encode_char_head [OF assms] have "parse (encode_char c @ rest) = parse_text (encode_char c @ rest)"
    by (auto simp: parse_def parse_ground_def Let_def esc_def)
  also have "\<dots> = StEvent (KeyEvent (typed_key c)) (length (encode_char c))"
    unfolding parse_text_def Let_def utf8_next_take utf8_next_encode [OF assms(1)] by (simp add: typed_key_def)
  finally show ?thesis .
qed

text \<open>C23: Typed text reads as one key for each of its characters, with the character as its text, and nothing stays
  back, however the reads cut it.\<close>

theorem typed_text_reads_back:
  assumes "concat (c # cs) = utf8_encode text" "\<forall>x \<in> set text. is_scalar x \<and> 32 \<le> x \<and> x \<noteq> 127"
  shows "feeds (c # cs) new_parser = (map (\<lambda>x. PEvent (KeyEvent (typed_key x))) text, new_parser)"
proof -
  have "read_loop False (utf8_encode text) None = (map (\<lambda>x. PEvent (KeyEvent (typed_key x))) text, [], None)"
    using assms(2)
  proof (induction "text")
    case (Cons x xs)
    then have x: "is_scalar x" "32 \<le> x" "x \<noteq> 127" by simp_all
    have enc: "utf8_encode (x # xs) = encode_char x @ utf8_encode xs" by (simp add: utf8_encode_def)
    have "next_step False (encode_char x @ utf8_encode xs) = StEvent (KeyEvent (typed_key x)) (length (encode_char x))"
      by (simp add: next_step_def parse_typed [OF x])
    then show ?case using Cons unfolding enc by (subst read_loop.simps) simp
  qed (simp add: utf8_encode_def read_loop.simps)
  then show ?thesis unfolding feeds_concat using assms(1)
    by (simp add: feed_def parser_read_def new_parser_def)
qed

theorem typed_text_reads_back_witness:
  "feeds [[104, 195], [169, 240, 159], [153, 130]] new_parser =
     (map (\<lambda>x. PEvent (KeyEvent (typed_key x))) [104, 233, 128578], new_parser)"
  by (rule typed_text_reads_back) (simp_all add: utf8_encode_def encode_char_def is_scalar_def)

end
