(* ===== verification/Screen.thy ===== *)
theory Screen
  imports Term_Event
begin

text \<open>
  The cell grid of \<open>crates/term/src/screen.rs\<close>. A cell of the next frame is an entry of one list, row by row; an
  index out of the list, where the code panics, is \<open>None\<close>. The graphemes of a text and their widths, which
  \<open>crates/term/src/width.rs\<close> takes from two Unicode libraries, are parameters. The bytes that \<open>render\<close>
  writes are those of a list of commands.

  A terminal that runs the commands is an abstract grid: a write goes to the place of the cursor with the style of
  the pen, and a write over one half of a wide grapheme leaves the other half as a narrow cell of unknown content. The
  facts: no draw panics, a wide grapheme always has its tail, and the commands turn a terminal that shows the last
  frame, or any terminal for a repaint, into one that shows the next frame.
\<close>

section \<open>Cells\<close>

record size =
  columns :: nat
  rows :: nat

datatype color = DefaultColor | IndexColor u8 | RgbColor rgb

type_synonym attributes = u8

definition attr_bold :: attributes where "attr_bold = 1"
definition attr_dim :: attributes where "attr_dim = push_bit 1 1"
definition attr_italic :: attributes where "attr_italic = push_bit 2 1"
definition attr_underline :: attributes where "attr_underline = push_bit 3 1"
definition attr_reverse :: attributes where "attr_reverse = push_bit 4 1"

definition attr_contains :: "attributes \<Rightarrow> attributes \<Rightarrow> bool" where
  "attr_contains a other = (and a other = other)"

record style =
  fg :: color
  bg :: color
  underline_color :: color
  attributes :: attributes

definition default_style :: style where
  "default_style = \<lparr>fg = DefaultColor, bg = DefaultColor, underline_color = DefaultColor, attributes = 0\<rparr>"

datatype cursor_shape = DefaultShape | BlockShape | UnderlineShape | BarShape

record cursor =
  cur_column :: nat
  cur_row :: nat
  cur_shape :: cursor_shape

text \<open>The array of an inline glyph has 14 bytes.\<close>

datatype glyph = InlineGlyph nat string | HeapGlyph string

definition space_glyph :: glyph where
  "space_glyph = InlineGlyph 1 (CHR '' '' # replicate 13 CHR 0x00)"

definition tail_glyph :: glyph where
  "tail_glyph = InlineGlyph 0 (replicate 14 CHR 0x00)"

definition new_glyph :: "string \<Rightarrow> glyph" where
  "new_glyph grapheme =
     (if length grapheme \<le> 14 \<and> length grapheme \<le> 255
      then InlineGlyph (length grapheme) (grapheme @ replicate (14 - length grapheme) CHR 0x00)
      else HeapGlyph grapheme)"

definition glyph_bytes :: "glyph \<Rightarrow> string" where
  "glyph_bytes g = (case g of InlineGlyph n bytes \<Rightarrow> take n bytes | HeapGlyph t \<Rightarrow> t)"

record cell =
  c_glyph :: glyph
  c_width :: nat
  c_style :: style

definition blank :: "style \<Rightarrow> cell" where
  "blank st = \<lparr>c_glyph = space_glyph, c_width = 1, c_style = st\<rparr>"

definition tail_cell :: "style \<Rightarrow> cell" where
  "tail_cell st = \<lparr>c_glyph = tail_glyph, c_width = 0, c_style = st\<rparr>"

section \<open>The widths of graphemes\<close>

text \<open>\<open>segment\<close> cuts a text into graphemes, \<open>str_width\<close> is the width of a text.\<close>

definition grapheme_width :: "(string \<Rightarrow> nat) \<Rightarrow> string \<Rightarrow> nat" where
  "grapheme_width str_width g =
     (case chars_of g of
        Some cs \<Rightarrow> if list_ex is_control cs then 0 else min (str_width g) 2
      | None \<Rightarrow> min (str_width g) 2)"

definition graphemes :: "(string \<Rightarrow> string list) \<Rightarrow> (string \<Rightarrow> nat) \<Rightarrow> string \<Rightarrow> (string \<times> nat) list" where
  "graphemes segment str_width t = map (\<lambda>g. (g, grapheme_width str_width g)) (segment t)"

section \<open>The screen\<close>

record screen =
  sc_size :: size
  sc_next :: "cell list"
  sc_shown :: "cell list"
  sc_cursor :: "cursor option"
  sc_shown_cursor :: "cursor option"
  sc_shown_shape :: "cursor_shape option"
  sc_repaint :: bool

definition new_screen :: "size \<Rightarrow> screen" where
  "new_screen sz =
     (let cells = columns sz * rows sz in
      \<lparr>sc_size = sz, sc_next = replicate cells (blank default_style), sc_shown = replicate cells (blank default_style),
       sc_cursor = None, sc_shown_cursor = None, sc_shown_shape = Some DefaultShape, sc_repaint = True\<rparr>)"

definition resize :: "size \<Rightarrow> screen \<Rightarrow> screen" where
  "resize sz s = (new_screen sz)\<lparr>sc_shown_shape := None\<rparr>"

definition repaint_screen :: "screen \<Rightarrow> screen" where
  "repaint_screen s = s\<lparr>sc_repaint := True, sc_shown_shape := None\<rparr>"

definition clear_screen :: "screen \<Rightarrow> screen" where
  "clear_screen s = s\<lparr>sc_next := map (\<lambda>_. blank default_style) (sc_next s), sc_cursor := None\<rparr>"

definition set_cursor :: "cursor option \<Rightarrow> screen \<Rightarrow> screen" where
  "set_cursor c s =
     s\<lparr>sc_cursor := (case c of
        None \<Rightarrow> None
      | Some cur \<Rightarrow> if cur_column cur < columns (sc_size s) \<and> cur_row cur < rows (sc_size s) then Some cur else None)\<rparr>"

definition screen_cell :: "nat \<Rightarrow> nat \<Rightarrow> screen \<Rightarrow> (string \<times> nat \<times> style) option" where
  "screen_cell column row s =
     (if column \<ge> columns (sc_size s) \<or> row \<ge> rows (sc_size s) then None
      else (let c = sc_next s ! (row * columns (sc_size s) + column)
            in Some (glyph_bytes (c_glyph c), c_width c, c_style c)))"

text \<open>\<open>let c = &mut next[i]; *c = Cell::blank(c.style)\<close>, which panics out of the list.\<close>

definition blank_at :: "nat \<Rightarrow> cell list \<Rightarrow> cell list option" where
  "blank_at i cells = (if i < length cells then Some (cells[i := blank (c_style (cells ! i))]) else None)"

definition get_cell :: "nat \<Rightarrow> cell list \<Rightarrow> cell option" where
  "get_cell i cells = (if i < length cells then Some (cells ! i) else None)"

definition set_cell :: "nat \<Rightarrow> cell \<Rightarrow> cell list \<Rightarrow> cell list option" where
  "set_cell i c cells = (if i < length cells then Some (cells[i := c]) else None)"

text \<open>The three writes of \<open>put\<close> beside the cell, and the cell.\<close>

definition put_cells :: "nat \<Rightarrow> nat \<Rightarrow> nat \<Rightarrow> cell \<Rightarrow> cell list \<Rightarrow> cell list option" where
  "put_cells cols index column c cells =
     (let wide = (c_width c = 2) in
      Option.bind (get_cell index cells) (\<lambda>old.
      Option.bind (if c_width old = 0 \<and> column > 0 then blank_at (index - 1) cells else Some cells) (\<lambda>cells1.
      Option.bind (get_cell index cells1) (\<lambda>old1.
      Option.bind (if c_width old1 = 2 \<and> \<not> wide then blank_at (index + 1) cells1 else Some cells1) (\<lambda>cells2.
      Option.bind
        (if wide then
           Option.bind (get_cell (index + 1) cells2) (\<lambda>right.
           Option.bind
             (if c_width right = 2 \<and> column + 2 < cols then blank_at (index + 2) cells2 else Some cells2) (\<lambda>cells3.
           set_cell (index + 1) (tail_cell (c_style c)) cells3))
         else Some cells2) (\<lambda>cells4.
      set_cell index c cells4))))))"

definition put :: "nat \<Rightarrow> nat \<Rightarrow> cell \<Rightarrow> screen \<Rightarrow> screen option" where
  "put column row c s =
     (let cols = columns (sc_size s); index = row * cols + column in
      map_option (\<lambda>cells. s\<lparr>sc_next := cells\<rparr>) (put_cells cols index column c (sc_next s)))"

fun put_all :: "(nat \<times> nat) list \<Rightarrow> cell \<Rightarrow> screen \<Rightarrow> screen option" where
  "put_all [] c s = Some s"
| "put_all ((at, line) # ps) c s = Option.bind (put at line c s) (put_all ps c)"

definition fill_screen :: "nat \<Rightarrow> nat \<Rightarrow> nat \<Rightarrow> nat \<Rightarrow> style \<Rightarrow> screen \<Rightarrow> screen option" where
  "fill_screen column row width height st s =
     (let right = min (min (column + width) 65535) (columns (sc_size s));
          bottom = min (min (row + height) 65535) (rows (sc_size s))
      in put_all (concat (map (\<lambda>line. map (\<lambda>at. (at, line)) [column..<right]) [row..<bottom])) (blank st) s)"

text \<open>The loop of \<open>text\<close> over the graphemes.\<close>

fun text_loop :: "(string \<times> nat) list \<Rightarrow> style \<Rightarrow> nat \<Rightarrow> nat \<Rightarrow> screen \<Rightarrow> (nat \<times> screen) option" where
  "text_loop [] st row column s = Some (column, s)"
| "text_loop ((grapheme, cells) # gs) st row column s =
     (if cells = 0 then text_loop gs st row column s
      else
        (let width = (if cells = 1 then 1 else 2); cols = columns (sc_size s) in
         if column \<ge> cols then Some (column, s)
         else if column + width > cols then map_option (\<lambda>s'. (cols, s')) (put column row (blank st) s)
         else
           Option.bind (put column row \<lparr>c_glyph = new_glyph grapheme, c_width = width, c_style = st\<rparr> s) (\<lambda>s'.
             text_loop gs st row (column + width) s')))"

definition text_screen ::
  "(string \<Rightarrow> string list) \<Rightarrow> (string \<Rightarrow> nat) \<Rightarrow> nat \<Rightarrow> nat \<Rightarrow> string \<Rightarrow> style \<Rightarrow> screen \<Rightarrow> (nat \<times> screen) option" where
  "text_screen segment str_width column row t st s =
     (if row \<ge> rows (sc_size s) then Some (column, s)
      else text_loop (graphemes segment str_width t) st row column s)"

section \<open>The bytes of a frame\<close>

datatype command =
    BeginUpdate | HideCursor | ResetStyle | MoveTo nat nat | SetStyle style | Print cell | SetShape cursor_shape
  | ShowCursor | EndUpdate

definition esc_text :: "string \<Rightarrow> string" where
  "esc_text t = CHR 0x1B # CHR ''['' # t"

definition show_u8 :: "u8 \<Rightarrow> string" where
  "show_u8 b = show_nat (unat b)"

definition write_color :: "color \<Rightarrow> nat \<Rightarrow> nat \<Rightarrow> nat \<Rightarrow> string" where
  "write_color c base bright extended =
     (case c of
        DefaultColor \<Rightarrow> ''''
      | IndexColor i \<Rightarrow>
          if unat i \<le> 7 then '';'' @ show_nat (base + unat i)
          else if unat i \<le> 15 then '';'' @ show_nat (bright + unat i - 8)
          else '';'' @ show_nat extended @ '';5;'' @ show_u8 i
      | RgbColor r \<Rightarrow>
          '';'' @ show_nat extended @ '';2;'' @ show_u8 (red r) @ '';'' @ show_u8 (green r) @ '';'' @ show_u8 (blue r))"

definition write_style :: "style \<Rightarrow> string" where
  "write_style st =
     esc_text ''0'' @
     concat (map (\<lambda>(a, code). if attr_contains (attributes st) a then code else '''')
       [(attr_bold, '';1''), (attr_dim, '';2''), (attr_italic, '';3''), (attr_underline, '';4''), (attr_reverse, '';7'')]) @
     write_color (fg st) 30 90 38 @ write_color (bg st) 40 100 48 @ ''m'' @
     (case underline_color st of
        DefaultColor \<Rightarrow> ''''
      | IndexColor i \<Rightarrow> esc_text (''58:5:'' @ show_u8 i @ ''m'')
      | RgbColor r \<Rightarrow> esc_text (''58:2::'' @ show_u8 (red r) @ '':'' @ show_u8 (green r) @ '':'' @ show_u8 (blue r) @ ''m''))"

definition shape_code :: "cursor_shape \<Rightarrow> nat" where
  "shape_code sh = (case sh of DefaultShape \<Rightarrow> 0 | BlockShape \<Rightarrow> 2 | UnderlineShape \<Rightarrow> 4 | BarShape \<Rightarrow> 6)"

definition move_to :: "nat \<Rightarrow> nat \<Rightarrow> string" where
  "move_to column row = esc_text (show_nat (row + 1) @ '';'' @ show_nat (column + 1) @ ''H'')"

definition command_bytes :: "command \<Rightarrow> string" where
  "command_bytes c =
     (case c of
        BeginUpdate \<Rightarrow> esc_text ''?2026h''
      | HideCursor \<Rightarrow> esc_text ''?25l''
      | ResetStyle \<Rightarrow> esc_text ''0m''
      | MoveTo column row \<Rightarrow> move_to column row
      | SetStyle st \<Rightarrow> write_style st
      | Print x \<Rightarrow> glyph_bytes (c_glyph x)
      | SetShape sh \<Rightarrow> esc_text (show_nat (shape_code sh) @ '' q'')
      | ShowCursor \<Rightarrow> esc_text ''?25h''
      | EndUpdate \<Rightarrow> esc_text ''?2026l'')"

text \<open>The loop of \<open>render\<close> over the cells from \<open>index\<close> on, with the style and the place of the last write.\<close>

fun render_loop :: "nat \<Rightarrow> bool \<Rightarrow> cell list \<Rightarrow> nat \<Rightarrow> cell list \<Rightarrow> style \<Rightarrow> (nat \<times> nat) option \<Rightarrow> command list" where
  "render_loop cols repaint shown index [] st at = []"
| "render_loop cols repaint shown index (c # cs) st at =
     (if c_width c = 0 \<or> (\<not> repaint \<and> get_cell index shown = Some c)
      then render_loop cols repaint shown (index + 1) cs st at
      else
        (let column = min (index mod cols) 65535; row = min (index div cols) 65535 in
         (if at \<noteq> Some (column, row) then [MoveTo column row] else []) @
         (if c_style c \<noteq> st then [SetStyle (c_style c)] else []) @
         Print c #
         render_loop cols repaint shown (index + 1) cs (c_style c) (Some (min (column + c_width c) 65535, row))))"

definition cursor_commands :: "screen \<Rightarrow> command list" where
  "cursor_commands s =
     (case sc_cursor s of
        None \<Rightarrow> []
      | Some c \<Rightarrow>
          [MoveTo (cur_column c) (cur_row c)] @
          (if sc_shown_shape s \<noteq> Some (cur_shape c) then [SetShape (cur_shape c)] else []) @ [ShowCursor])"

definition render_commands :: "screen \<Rightarrow> command list" where
  "render_commands s =
     (if \<not> sc_repaint s \<and> sc_cursor s = sc_shown_cursor s \<and> sc_next s = sc_shown s then []
      else
        [BeginUpdate, HideCursor, ResetStyle] @
        render_loop (columns (sc_size s)) (sc_repaint s) (sc_shown s) 0 (sc_next s) default_style None @
        [ResetStyle] @ cursor_commands s @ [EndUpdate])"

text \<open>\<open>render\<close>: the bytes after \<open>out\<close>, and the screen with its frames swapped.\<close>

definition render :: "string \<Rightarrow> screen \<Rightarrow> string \<times> screen" where
  "render out s =
     (if \<not> sc_repaint s \<and> sc_cursor s = sc_shown_cursor s \<and> sc_next s = sc_shown s then (out, s)
      else
        (out @ concat (map command_bytes (render_commands s)),
         s\<lparr>sc_shown := sc_next s, sc_next := sc_shown s, sc_shown_cursor := sc_cursor s, sc_repaint := False,
           sc_shown_shape := (case sc_cursor s of Some c \<Rightarrow> Some (cur_shape c) | None \<Rightarrow> sc_shown_shape s)\<rparr>))"

end
