(* ===== verification/Screen_Facts.thy ===== *)
theory Screen_Facts
  imports Screen
begin

text \<open>
  The facts on the cell grid. A frame is well formed when each wide cell has its tail in the same row and each tail has
  its wide cell (\<open>frame_ok\<close>); no draw on a screen panics and each keeps its frames well formed
  (\<open>run_ops\<close>). An abstract terminal (\<open>grid_term\<close>) runs the commands of a frame.
\<close>

section \<open>Well-formed frames\<close>

definition cell_ok :: "nat \<Rightarrow> cell list \<Rightarrow> nat \<Rightarrow> bool" where
  "cell_ok cols cells i \<longleftrightarrow>
     c_width (cells ! i) \<le> 2 \<and>
     (c_width (cells ! i) = 2 \<longrightarrow>
        Suc i mod cols \<noteq> 0 \<and> Suc i < length cells \<and> cells ! Suc i = tail_cell (c_style (cells ! i))) \<and>
     (c_width (cells ! i) = 0 \<longrightarrow> i mod cols \<noteq> 0 \<and> c_width (cells ! (i - 1)) = 2)"

definition frame_ok :: "nat \<Rightarrow> cell list \<Rightarrow> bool" where
  "frame_ok cols cells \<longleftrightarrow> (\<forall>i < length cells. cell_ok cols cells i)"

lemma tail_cell_simps [simp]: "c_width (tail_cell st) = 0" "c_style (tail_cell st) = st"
  by (simp_all add: tail_cell_def)

lemma blank_simps [simp]: "c_width (blank st) = 1" "c_style (blank st) = st"
  by (simp_all add: blank_def)

lemma frame_okD:
  assumes "frame_ok cols cells" "i < length cells"
  shows "c_width (cells ! i) \<le> 2"
    and "c_width (cells ! i) = 2 \<Longrightarrow>
      Suc i mod cols \<noteq> 0 \<and> Suc i < length cells \<and> cells ! Suc i = tail_cell (c_style (cells ! i))"
    and "c_width (cells ! i) = 0 \<Longrightarrow> i mod cols \<noteq> 0 \<and> c_width (cells ! (i - 1)) = 2"
  using assms by (simp_all add: frame_ok_def cell_ok_def)

lemma frame_width: "frame_ok cols cells \<Longrightarrow> i < length cells \<Longrightarrow> c_width (cells ! i) \<in> {0, 1, 2}"
  using frame_okD(1) [of cols cells i] by auto

text \<open>The three changes of a frame: a wide grapheme becomes two blanks, a narrow cell another narrow cell, two narrow
  cells of a row a wide grapheme.\<close>

lemma blank_grapheme:
  assumes ok: "frame_ok cols cells" and k: "k < length cells" "c_width (cells ! k) = 2"
  shows "frame_ok cols (cells[k := blank a, Suc k := blank b])"
  unfolding frame_ok_def
proof (intro allI impI)
  fix i assume "i < length (cells[k := blank a, Suc k := blank b])"
  then have i: "i < length cells" by simp
  note D = frame_okD [OF ok i] and K = frame_okD(2) [OF ok k]
  show "cell_ok cols (cells[k := blank a, Suc k := blank b]) i"
  proof (cases "i = k \<or> i = Suc k")
    case True
    then show ?thesis using i by (auto simp: cell_ok_def nth_list_update)
  next
    case False
    have "Suc i \<noteq> k \<or> c_width (cells ! i) \<noteq> 2" using D(2) k(2) by auto
    moreover have "c_width (cells ! i) = 0 \<longrightarrow> i - 1 \<noteq> k" using False D(3) by (cases i) auto
    moreover have "c_width (cells ! i) = 0 \<longrightarrow> i - 1 \<noteq> Suc k" using K D(3) k(2) by auto
    moreover have "i - 1 < length cells" using i by simp
    ultimately show ?thesis using D False by (auto simp: cell_ok_def nth_list_update)
  qed
qed

lemma narrow_cell:
  assumes ok: "frame_ok cols cells" and k: "k < length cells" "c_width (cells ! k) = 1" "c_width c = 1"
  shows "frame_ok cols (cells[k := c])"
  unfolding frame_ok_def
proof (intro allI impI)
  fix i assume "i < length (cells[k := c])"
  then have i: "i < length cells" by simp
  note D = frame_okD [OF ok i]
  have "c_width (cells ! i) = 0 \<longrightarrow> i - 1 \<noteq> k" "c_width (cells ! i) = 2 \<longrightarrow> Suc i \<noteq> k" "i - 1 < length cells"
    using D k i by auto
  then show "cell_ok cols (cells[k := c]) i"
    using D k i by (cases "i = k") (auto simp: cell_ok_def nth_list_update)
qed

lemma wide_cell:
  assumes ok: "frame_ok cols cells" and k: "Suc k < length cells" "c_width (cells ! k) = 1" "c_width (cells ! Suc k) = 1"
    and c: "c_width c = 2" "Suc k mod cols \<noteq> 0"
  shows "frame_ok cols (cells[Suc k := tail_cell (c_style c), k := c])"
  unfolding frame_ok_def
proof (intro allI impI)
  fix i assume "i < length (cells[Suc k := tail_cell (c_style c), k := c])"
  then have i: "i < length cells" by simp
  note D = frame_okD [OF ok i]
  show "cell_ok cols (cells[Suc k := tail_cell (c_style c), k := c]) i"
  proof (cases "i = k \<or> i = Suc k")
    case True
    then show ?thesis using k c i by (auto simp: cell_ok_def nth_list_update)
  next
    case False
    have "Suc i \<noteq> k \<or> c_width (cells ! i) \<noteq> 2" using D(2) k(2) by auto
    moreover have "c_width (cells ! i) = 0 \<longrightarrow> i - 1 \<noteq> k \<and> i - 1 \<noteq> Suc k" "i - 1 < length cells"
      using D(3) k i by auto
    moreover have "Suc i \<noteq> Suc k" using False by simp
    ultimately show ?thesis using D False by (auto simp: cell_ok_def nth_list_update)
  qed
qed

section \<open>A put\<close>

lemma put_narrow:
  assumes "index < length cells" "c_width (cells ! index) = 1" "c_width c \<noteq> 2"
  shows "put_cells cols index column c cells = Some (cells[index := c])"
  using assms by (simp add: put_cells_def get_cell_def set_cell_def)

lemma put_wide:
  assumes "Suc index < length cells" "c_width (cells ! index) = 1" "c_width (cells ! Suc index) = 1" "c_width c = 2"
  shows "put_cells cols index column c cells = Some (cells[Suc index := tail_cell (c_style c), index := c])"
  using assms by (simp add: put_cells_def get_cell_def set_cell_def)

text \<open>A put on a half of a wide grapheme is a put on its blanks.\<close>

lemma put_on_tail:
  assumes "index < length cells" "c_width (cells ! index) = 0" "column > 0" "0 < index"
    and "c_width c = 2 \<longrightarrow> Suc index < length cells"
  shows "put_cells cols index column c cells =
    put_cells cols index column c (cells[index - 1 := blank (c_style (cells ! (index - 1))), index := blank default_style])"
proof -
  have i: "index - 1 \<noteq> index" "index \<noteq> index - 1" "Suc index \<noteq> index - 1" "index - 1 < length cells"
    using assms(1,4) by auto
  show ?thesis
  proof (cases "c_width c = 2")
    case True
    then show ?thesis using assms i
      by (auto simp: put_cells_def get_cell_def set_cell_def blank_at_def nth_list_update list_update_swap)
  next
    case False
    then show ?thesis using assms i
      by (simp add: put_cells_def get_cell_def set_cell_def blank_at_def nth_list_update)
  qed
qed

lemma put_on_head:
  assumes "Suc index < length cells" "c_width (cells ! index) = 2" "cells ! Suc index = tail_cell st"
  shows "put_cells cols index column c cells =
    put_cells cols index column c (cells[index := blank default_style, Suc index := blank st])"
proof (cases "c_width c = 2")
  case True
  then show ?thesis using assms
    by (simp add: put_cells_def get_cell_def set_cell_def blank_at_def nth_list_update
        list_update_swap [of index "Suc index"])
next
  case False
  then show ?thesis using assms
    by (simp add: put_cells_def get_cell_def set_cell_def blank_at_def nth_list_update
        list_update_swap [of index "Suc index"])
qed

lemma put_before_head:
  assumes "Suc (Suc index) < length cells" "c_width (cells ! index) = 1" "c_width (cells ! Suc index) = 2"
    and "c_width c = 2" "Suc (Suc column) < cols"
  shows "put_cells cols index column c cells =
    put_cells cols index column c
      (cells[Suc index := blank default_style, Suc (Suc index) := blank (c_style (cells ! Suc (Suc index)))])"
  using assms
  by (simp add: put_cells_def get_cell_def set_cell_def blank_at_def nth_list_update
      list_update_swap [of "Suc index" "Suc (Suc index)"])

lemma Suc_mod: "i mod n = k \<Longrightarrow> Suc k < n \<Longrightarrow> Suc i mod n = Suc k"
  by (metis mod_Suc nat_neq_iff)

definition puts_ok :: "nat \<Rightarrow> nat \<Rightarrow> nat \<Rightarrow> cell \<Rightarrow> cell list \<Rightarrow> bool" where
  "puts_ok cols index column c cells \<longleftrightarrow>
     (\<exists>cells'. put_cells cols index column c cells = Some cells' \<and> frame_ok cols cells' \<and> length cells' = length cells)"

lemma put_ok_narrow:
  assumes ok: "frame_ok cols cells" and i: "index < length cells" "index mod cols = column" "c_width (cells ! index) = 1"
    and c: "c_width c = 1 \<or> (c_width c = 2 \<and> Suc column < cols \<and> Suc index < length cells)"
  shows "puts_ok cols index column c cells"
proof (cases "c_width c = 2")
  case False
  then show ?thesis using put_narrow [OF i(1,3)] narrow_cell [OF ok i(1,3)] c by (auto simp: puts_ok_def)
next
  case wide: True
  then have fits: "Suc column < cols" "Suc index < length cells" using c by auto
  have next_col: "Suc index mod cols = Suc column" using Suc_mod [OF i(2) fits(1)] .
  consider "c_width (cells ! Suc index) = 1" | "c_width (cells ! Suc index) = 2"
    using frame_width [OF ok fits(2)] frame_okD(3) [OF ok fits(2)] i(3) by auto
  then show ?thesis
  proof cases
    case 1
    then show ?thesis
      using put_wide [OF fits(2) i(3) 1 wide] wide_cell [OF ok fits(2) i(3) 1 wide] next_col by (auto simp: puts_ok_def)
  next
    case 2
    note tail = frame_okD(2) [OF ok fits(2) 2]
    have col: "Suc (Suc column) < cols"
    proof (rule ccontr)
      assume "\<not> ?thesis"
      then have "Suc (Suc column) = cols" using fits(1) by simp
      then show False using tail next_col by (simp add: mod_Suc)
    qed
    let ?B = "cells[Suc index := blank default_style, Suc (Suc index) := blank (c_style (cells ! Suc (Suc index)))]"
    have B: "frame_ok cols ?B" by (rule blank_grapheme [OF ok fits(2) 2])
    have "?B ! index = cells ! index" "?B ! Suc index = blank default_style" "length ?B = length cells"
      using fits(2) by simp_all
    then show ?thesis
      using put_before_head [of index cells c column cols] tail i(3) 2 wide col fits(2)
        put_wide [of index ?B c cols column] wide_cell [OF B, of index c] next_col
      by (simp add: puts_ok_def)
  qed
qed

lemma put_cells_ok:
  assumes ok: "frame_ok cols cells" and i: "index < length cells" "index mod cols = column"
    and c: "c_width c = 1 \<or> (c_width c = 2 \<and> Suc column < cols \<and> Suc index < length cells)"
  shows "puts_ok cols index column c cells"
proof -
  consider (one) "c_width (cells ! index) = 1" | (head) "c_width (cells ! index) = 2" | (tail) "c_width (cells ! index) = 0"
    using frame_width [OF ok i(1)] by auto
  then show ?thesis
  proof cases
    case one
    show ?thesis by (rule put_ok_narrow [OF ok i one c])
  next
    case head
    note t = frame_okD(2) [OF ok i(1) head]
    let ?B = "cells[index := blank default_style, Suc index := blank (c_style (cells ! index))]"
    have B: "frame_ok cols ?B" by (rule blank_grapheme [OF ok i(1) head])
    have "puts_ok cols index column c ?B" by (rule put_ok_narrow [OF B]) (use i c in simp_all)
    then show ?thesis using put_on_head [of index cells "c_style (cells ! index)" cols column c] t head
      by (simp add: puts_ok_def)
  next
    case tail
    note t = frame_okD(3) [OF ok i(1) tail]
    then have pos: "0 < column" "0 < index" "index - 1 < length cells" "Suc (index - 1) = index" using i by (cases index; auto)+
    let ?B = "cells[index - 1 := blank (c_style (cells ! (index - 1))), index := blank default_style]"
    have B: "frame_ok cols ?B"
      using blank_grapheme [OF ok pos(3)] t pos(4) by metis
    have "puts_ok cols index column c ?B" by (rule put_ok_narrow [OF B]) (use i c in simp_all)
    then show ?thesis using put_on_tail [OF i(1) tail pos(1,2), of c cols] c by (auto simp: puts_ok_def)
  qed
qed

section \<open>The operations of a screen\<close>

definition screen_ok :: "screen \<Rightarrow> bool" where
  "screen_ok s \<longleftrightarrow>
     (let cols = columns (sc_size s); rws = rows (sc_size s) in
      cols \<le> 65535 \<and> rws \<le> 65535 \<and>
      length (sc_next s) = cols * rws \<and> length (sc_shown s) = cols * rws \<and>
      frame_ok cols (sc_next s) \<and> frame_ok cols (sc_shown s) \<and>
      (\<forall>c. sc_cursor s = Some c \<longrightarrow> cur_column c < cols \<and> cur_row c < rws))"

lemma index_less: "row < rws \<Longrightarrow> column < cols \<Longrightarrow> row * cols + column < cols * (rws :: nat)"
proof -
  assume "row < rws" "column < cols"
  then have "row * cols + column < (row + 1) * cols" by simp
  also have "\<dots> \<le> rws * cols" using \<open>row < rws\<close> by (intro mult_right_mono) auto
  finally show ?thesis by (simp add: mult.commute)
qed

lemma put_ok:
  assumes ok: "screen_ok s" and at: "column < columns (sc_size s)" "row < rows (sc_size s)"
    and c: "c_width c = 1 \<or> (c_width c = 2 \<and> Suc column < columns (sc_size s))"
  obtains s' where "put column row c s = Some s'" "screen_ok s'" "sc_size s' = sc_size s"
proof -
  let ?cols = "columns (sc_size s)" and ?i = "row * columns (sc_size s) + column"
  have len: "?i < length (sc_next s)" "Suc column < ?cols \<Longrightarrow> Suc ?i < length (sc_next s)"
    using ok index_less [OF at(2,1)] index_less [OF at(2), of "Suc column" ?cols] by (simp_all add: screen_ok_def Let_def)
  have "?i mod ?cols = column" using at(1) by simp
  moreover have "frame_ok ?cols (sc_next s)" using ok by (simp add: screen_ok_def Let_def)
  ultimately have "puts_ok ?cols ?i column c (sc_next s)" using put_cells_ok [of ?cols "sc_next s" ?i column c] len c by blast
  then obtain cells where p: "put_cells ?cols ?i column c (sc_next s) = Some cells" "frame_ok ?cols cells"
    "length cells = length (sc_next s)" by (auto simp: puts_ok_def)
  show ?thesis
    by (rule that [of "s\<lparr>sc_next := cells\<rparr>"]) (use p ok in \<open>auto simp: put_def Let_def screen_ok_def\<close>)
qed

lemma put_all_ok:
  assumes "screen_ok s" "\<forall>(at, line) \<in> set ps. at < columns (sc_size s) \<and> line < rows (sc_size s)" "c_width c = 1"
  shows "\<exists>s'. put_all ps c s = Some s' \<and> screen_ok s' \<and> sc_size s' = sc_size s"
  using assms
proof (induction ps arbitrary: s)
  case (Cons p ps)
  obtain at line where p: "p = (at, line)" by fastforce
  then obtain s1 where s1: "put at line c s = Some s1" "screen_ok s1" "sc_size s1 = sc_size s"
    using put_ok [of s at line c] Cons.prems by auto
  show ?case using Cons.IH [OF s1(2)] Cons.prems s1 by (auto simp: p)
qed simp

lemma text_loop_ok:
  assumes "screen_ok s" "row < rows (sc_size s)"
  shows "\<exists>column' s'. text_loop gs st row column s = Some (column', s') \<and> screen_ok s' \<and> sc_size s' = sc_size s"
  using assms
proof (induction gs arbitrary: column s)
  case (Cons g gs)
  obtain grapheme cells where g: "g = (grapheme, cells)" by fastforce
  define width :: nat where "width = (if cells = 1 then 1 else 2)"
  show ?case
  proof (cases "cells = 0 \<or> column \<ge> columns (sc_size s)")
    case True
    then show ?thesis using Cons by (auto simp: g Let_def)
  next
    case False
    show ?thesis
    proof (cases "column + width > columns (sc_size s)")
      case True
      obtain s' where "put column row (blank st) s = Some s'" "screen_ok s'" "sc_size s' = sc_size s"
        using put_ok [OF Cons.prems(1) _ Cons.prems(2), of column "blank st"] False by auto
      then show ?thesis using True False by (simp add: g Let_def width_def)
    next
      case fits: False
      let ?c = "\<lparr>c_glyph = new_glyph grapheme, c_width = width, c_style = st\<rparr>"
      have "c_width ?c = 1 \<or> (c_width ?c = 2 \<and> Suc column < columns (sc_size s))" using fits by (auto simp: width_def)
      then obtain s' where s': "put column row ?c s = Some s'" "screen_ok s'" "sc_size s' = sc_size s"
        using put_ok [OF Cons.prems(1) _ Cons.prems(2), of column ?c] False by auto
      then show ?thesis using Cons.IH [of s' "column + width"] Cons.prems(2) False fits by (simp add: g Let_def width_def)
    qed
  qed
qed simp

lemma blank_frame: "frame_ok cols (replicate n (blank st))"
  by (simp add: frame_ok_def cell_ok_def)

lemma new_screen_ok: "columns sz \<le> 65535 \<Longrightarrow> rows sz \<le> 65535 \<Longrightarrow> screen_ok (new_screen sz)"
  by (simp add: screen_ok_def new_screen_def Let_def blank_frame)

text \<open>The calls on a screen.\<close>

datatype screen_op =
    Resize size | Repaint | Clear | Fill nat nat nat nat style | Draw nat nat string style | PutCursor "cursor option" | Render

definition run_op ::
  "(string \<Rightarrow> string list) \<Rightarrow> (string \<Rightarrow> nat) \<Rightarrow> screen_op \<Rightarrow> string \<times> screen \<Rightarrow> (string \<times> screen) option" where
  "run_op segment str_width op p =
     (case p of (out, s) \<Rightarrow>
        (case op of
           Resize sz \<Rightarrow> Some (out, resize sz s)
         | Repaint \<Rightarrow> Some (out, repaint_screen s)
         | Clear \<Rightarrow> Some (out, clear_screen s)
         | Fill column row width height st \<Rightarrow> map_option (\<lambda>s'. (out, s')) (fill_screen column row width height st s)
         | Draw column row t st \<Rightarrow> map_option (\<lambda>(_, s'). (out, s')) (text_screen segment str_width column row t st s)
         | PutCursor c \<Rightarrow> Some (out, set_cursor c s)
         | Render \<Rightarrow> Some (render out s)))"

fun run_ops ::
  "(string \<Rightarrow> string list) \<Rightarrow> (string \<Rightarrow> nat) \<Rightarrow> screen_op list \<Rightarrow> string \<times> screen \<Rightarrow> (string \<times> screen) option" where
  "run_ops segment str_width [] p = Some p"
| "run_ops segment str_width (op # ops) p = Option.bind (run_op segment str_width op p) (run_ops segment str_width ops)"

text \<open>The sizes of a call are \<open>u16\<close>.\<close>

definition op_u16 :: "screen_op \<Rightarrow> bool" where
  "op_u16 op = (case op of Resize sz \<Rightarrow> columns sz \<le> 65535 \<and> rows sz \<le> 65535 | _ \<Rightarrow> True)"

lemma fill_ok:
  assumes "screen_ok s"
  shows "\<exists>s'. fill_screen column row width height st s = Some s' \<and> screen_ok s'"
proof -
  let ?ps = "concat (map (\<lambda>line. map (\<lambda>at. (at, line)) [column..<min (min (column + width) 65535) (columns (sc_size s))])
    [row..<min (min (row + height) 65535) (rows (sc_size s))])"
  have "\<forall>(at, line) \<in> set ?ps. at < columns (sc_size s) \<and> line < rows (sc_size s)" by auto
  from put_all_ok [OF assms this, of "blank st"] show ?thesis by (auto simp: fill_screen_def Let_def)
qed

lemma run_op_ok:
  assumes "screen_ok s" "op_u16 op"
  shows "\<exists>out' s'. run_op segment str_width op (out, s) = Some (out', s') \<and> screen_ok s'"
proof (cases op)
  case (Fill column row width height st)
  then show ?thesis using fill_ok [OF assms(1), of column row width height st] by (auto simp: run_op_def)
next
  case (Draw column row t st)
  show ?thesis
  proof (cases "row \<ge> rows (sc_size s)")
    case False
    then show ?thesis using text_loop_ok [OF assms(1), of row "graphemes segment str_width t" st column] Draw
      by (auto simp: run_op_def text_screen_def)
  qed (use assms Draw in \<open>simp add: run_op_def text_screen_def\<close>)
next
  case Render
  then show ?thesis using assms by (auto simp: run_op_def render_def screen_ok_def Let_def)
next
  case Clear
  have "map (\<lambda>_. blank default_style) cells = replicate (length cells) (blank default_style)" for cells :: "cell list"
    by (rule map_replicate_const)
  then show ?thesis using Clear assms by (simp add: run_op_def clear_screen_def screen_ok_def Let_def blank_frame)
next
  case (PutCursor c)
  then show ?thesis using assms by (auto simp: run_op_def set_cursor_def screen_ok_def Let_def split: option.splits)
qed (use assms new_screen_ok in \<open>simp_all add: run_op_def resize_def repaint_screen_def screen_ok_def Let_def op_u16_def\<close>)

lemma run_ops_ok:
  "screen_ok s \<Longrightarrow> \<forall>op \<in> set ops. op_u16 op \<Longrightarrow>
   \<exists>out' s'. run_ops segment str_width ops (out, s) = Some (out', s') \<and> screen_ok s'"
proof (induction ops arbitrary: out s)
  case (Cons op ops)
  then obtain out1 s1 where "run_op segment str_width op (out, s) = Some (out1, s1)" "screen_ok s1"
    using run_op_ok [of s op segment str_width out] by auto
  then show ?case using Cons.IH [of s1 out1] Cons.prems(2) by simp
qed simp

section \<open>A terminal\<close>

text \<open>A cell of the terminal is known, or narrow with unknown content.\<close>

datatype term_cell = Known cell | Garbled

record grid_term =
  t_cols :: nat
  t_rows :: nat
  t_cells :: "nat \<Rightarrow> term_cell"
  t_at :: "(nat \<times> nat) option"
  t_pen :: style
  t_visible :: bool
  t_shape :: cursor_shape

definition known_width :: "(nat \<Rightarrow> term_cell) \<Rightarrow> nat \<Rightarrow> nat" where
  "known_width T i = (case T i of Known c \<Rightarrow> c_width c | Garbled \<Rightarrow> 1)"

text \<open>A write at \<open>i\<close>: the other halves of what it covers are garbled.\<close>

definition write_cell :: "nat \<Rightarrow> cell \<Rightarrow> (nat \<Rightarrow> term_cell) \<Rightarrow> nat \<Rightarrow> term_cell" where
  "write_cell i c T =
     (let T1 = (if known_width T i = 0 then T(i - 1 := Garbled) else T);
          T2 = (if known_width T i = 2 then T1(Suc i := Garbled) else T1);
          T3 = (if c_width c = 2 \<and> known_width T (Suc i) = 2 then T2(Suc (Suc i) := Garbled) else T2);
          T4 = T3(i := Known c)
      in if c_width c = 2 then T4(Suc i := Known (tail_cell (c_style c))) else T4)"

text \<open>A command: \<open>None\<close> where the behaviour is not specified, such as a write with the cursor at no known place.\<close>

definition exec :: "command \<Rightarrow> grid_term \<Rightarrow> grid_term option" where
  "exec c t =
     (case c of
        BeginUpdate \<Rightarrow> Some t
      | EndUpdate \<Rightarrow> Some t
      | HideCursor \<Rightarrow> Some (t\<lparr>t_visible := False\<rparr>)
      | ShowCursor \<Rightarrow> Some (t\<lparr>t_visible := True\<rparr>)
      | ResetStyle \<Rightarrow> Some (t\<lparr>t_pen := default_style\<rparr>)
      | SetStyle st \<Rightarrow> Some (t\<lparr>t_pen := st\<rparr>)
      | SetShape sh \<Rightarrow> Some (t\<lparr>t_shape := sh\<rparr>)
      | MoveTo column row \<Rightarrow>
          if column < t_cols t \<and> row < t_rows t then Some (t\<lparr>t_at := Some (column, row)\<rparr>) else None
      | Print g \<Rightarrow>
          (case t_at t of
             None \<Rightarrow> None
           | Some (column, row) \<Rightarrow>
               if column + c_width g > t_cols t then None
               else Some (t\<lparr>t_cells := write_cell (row * t_cols t + column) (g\<lparr>c_style := t_pen t\<rparr>) (t_cells t),
                            t_at := (if column + c_width g < t_cols t then Some (column + c_width g, row) else None)\<rparr>)))"

fun exec_all :: "command list \<Rightarrow> grid_term \<Rightarrow> grid_term option" where
  "exec_all [] t = Some t"
| "exec_all (c # cs) t = Option.bind (exec c t) (exec_all cs)"

lemma exec_all_append [simp]: "exec_all (cs @ ds) t = Option.bind (exec_all cs t) (exec_all ds)"
  by (induction cs arbitrary: t) (simp_all add: bind_assoc split: bind_splits)

text \<open>Each half of a wide grapheme has its other half.\<close>

definition cells_ok :: "nat \<Rightarrow> nat \<Rightarrow> (nat \<Rightarrow> term_cell) \<Rightarrow> bool" where
  "cells_ok cols len T \<longleftrightarrow>
     (\<forall>i < len.
        (known_width T i = 2 \<longrightarrow> Suc i mod cols \<noteq> 0 \<and> Suc i < len \<and> known_width T (Suc i) = 0) \<and>
        (known_width T i = 0 \<longrightarrow> 0 < i \<and> known_width T (i - 1) = 2))"

lemma cells_okD:
  assumes "cells_ok cols len T" "i < len"
  shows "known_width T i = 2 \<Longrightarrow> Suc i mod cols \<noteq> 0 \<and> Suc i < len \<and> known_width T (Suc i) = 0"
    and "known_width T i = 0 \<Longrightarrow> 0 < i \<and> known_width T (i - 1) = 2"
  using assms by (simp_all add: cells_ok_def)

lemma cells_ok_at:
  "cells_ok cols len T \<Longrightarrow> i < len \<Longrightarrow>
     (known_width T i = 2 \<longrightarrow> Suc i mod cols \<noteq> 0 \<and> Suc i < len \<and> known_width T (Suc i) = 0) \<and>
     (known_width T i = 0 \<longrightarrow> 0 < i \<and> known_width T (i - 1) = 2)"
  by (simp add: cells_ok_def)

lemma known_width_upd: "known_width (T(i := v)) j = (if j = i then (case v of Known c \<Rightarrow> c_width c | Garbled \<Rightarrow> 1) else known_width T j)"
  by (simp add: known_width_def)

lemma write_narrow_width:
  "known_width T i \<noteq> 0 \<Longrightarrow> c_width c = 1 \<Longrightarrow>
   known_width (write_cell i c T) j = (if j = i \<or> (j = Suc i \<and> known_width T i = 2) then 1 else known_width T j)"
  by (simp add: write_cell_def Let_def known_width_upd)

lemma write_wide_width:
  "known_width T i \<noteq> 0 \<Longrightarrow> c_width c = 2 \<Longrightarrow>
   known_width (write_cell i c T) j =
     (if j = i then 2 else if j = Suc i then 0 else if j = Suc (Suc i) \<and> known_width T (Suc i) = 2 then 1
      else known_width T j)"
  by (simp add: write_cell_def Let_def known_width_upd)

lemma write_narrow_ok:
  assumes ok: "cells_ok cols len T" and i: "i < len" "known_width T i \<noteq> 0" and c: "c_width c = 1"
  shows "cells_ok cols len (write_cell i c T)"
proof -
  have "(known_width (write_cell i c T) j = 2 \<longrightarrow>
        Suc j mod cols \<noteq> 0 \<and> Suc j < len \<and> known_width (write_cell i c T) (Suc j) = 0) \<and>
      (known_width (write_cell i c T) j = 0 \<longrightarrow> 0 < j \<and> known_width (write_cell i c T) (j - 1) = 2)" if j: "j < len" for j
    using cells_ok_at [OF ok j] cells_ok_at [OF ok i(1)] i(2) unfolding write_narrow_width [OF i(2) c]
    by (cases j) auto
  then show ?thesis unfolding cells_ok_def by blast
qed

lemma write_wide_ok:
  assumes ok: "cells_ok cols len T" and i: "Suc i < len" "known_width T i \<noteq> 0" "Suc i mod cols \<noteq> 0" and c: "c_width c = 2"
  shows "cells_ok cols len (write_cell i c T)"
proof -
  have "(known_width (write_cell i c T) j = 2 \<longrightarrow>
        Suc j mod cols \<noteq> 0 \<and> Suc j < len \<and> known_width (write_cell i c T) (Suc j) = 0) \<and>
      (known_width (write_cell i c T) j = 0 \<longrightarrow> 0 < j \<and> known_width (write_cell i c T) (j - 1) = 2)" if j: "j < len" for j
    using cells_ok_at [OF ok j] cells_ok_at [OF ok i(1)] i unfolding write_wide_width [OF i(2) c]
    by (cases j) auto
  then show ?thesis unfolding cells_ok_def by blast
qed

section \<open>A frame on the terminal\<close>

text \<open>The terminal while \<open>render\<close> is at the cell \<open>i\<close>: the cells before it show the next frame, and the cells from it
  on show the last frame, or are garbled and will be written. A repaint knows nothing of them.\<close>

definition frame_inv :: "nat \<Rightarrow> bool \<Rightarrow> cell list \<Rightarrow> cell list \<Rightarrow> nat \<Rightarrow> (nat \<Rightarrow> term_cell) \<Rightarrow> bool" where
  "frame_inv cols repaint N S i T \<longleftrightarrow>
     cells_ok cols (length N) T \<and>
     (\<forall>j < i. T j = Known (N ! j)) \<and>
     (i < length N \<longrightarrow> c_width (N ! i) = 0 \<longrightarrow> T i = Known (N ! i)) \<and>
     (\<not> repaint \<longrightarrow>
        (\<forall>j. i \<le> j \<longrightarrow> j < length N \<longrightarrow>
           T j = Known (S ! j) \<or> (T j = Garbled \<and> N ! j \<noteq> S ! j \<and> c_width (N ! j) \<noteq> 0) \<or> (j = i \<and> c_width (N ! i) = 0)))"

lemma frame_invD:
  assumes "frame_inv cols repaint N S i T"
  shows "cells_ok cols (length N) T" "j < i \<Longrightarrow> T j = Known (N ! j)"
    and "i < length N \<Longrightarrow> c_width (N ! i) = 0 \<Longrightarrow> T i = Known (N ! i)"
    and "\<not> repaint \<Longrightarrow> i \<le> j \<Longrightarrow> j < length N \<Longrightarrow>
      T j = Known (S ! j) \<or> (T j = Garbled \<and> N ! j \<noteq> S ! j \<and> c_width (N ! j) \<noteq> 0) \<or> (j = i \<and> c_width (N ! i) = 0)"
  using assms by (simp_all add: frame_inv_def)

lemma known_width_Known [simp]: "T i = Known c \<Longrightarrow> known_width T i = c_width c"
  by (simp add: known_width_def)

lemma known_width_Garbled [simp]: "T i = Garbled \<Longrightarrow> known_width T i = 1"
  by (simp add: known_width_def)

lemma inv_tail:
  assumes inv: "frame_inv cols repaint N S i T" and N: "frame_ok cols N" "i < length N" "c_width (N ! i) = 0"
  shows "frame_inv cols repaint N S (Suc i) T"
proof -
  note I = frame_invD [OF inv]
  have "c_width (N ! Suc i) \<noteq> 0" if "Suc i < length N"
    using frame_okD(3) [OF N(1) that] N(3) by auto
  moreover have "T j = Known (N ! j)" if "j < Suc i" for j
    using that I(2) I(3) [OF N(2,3)] by (cases "j = i") auto
  moreover have "T j = Known (S ! j) \<or> (T j = Garbled \<and> N ! j \<noteq> S ! j \<and> c_width (N ! j) \<noteq> 0)"
    if "\<not> repaint" "Suc i \<le> j" "j < length N" for j
    using I(4) [OF that(1) _ that(3)] that(2) by auto
  ultimately show ?thesis unfolding frame_inv_def using I(1) by blast
qed

lemma inv_same:
  assumes inv: "frame_inv cols False N S i T" and N: "frame_ok cols N" "i < length N" "c_width (N ! i) \<noteq> 0"
    and S: "frame_ok cols S" "length S = length N" "S ! i = N ! i"
  shows "frame_inv cols False N S (Suc i) T"
proof -
  note I = frame_invD [OF inv]
  have here: "T i = Known (N ! i)" using I(4) [of i] N S by auto
  have later: "T j = Known (S ! j) \<or> (T j = Garbled \<and> N ! j \<noteq> S ! j \<and> c_width (N ! j) \<noteq> 0)"
    if "Suc i \<le> j" "j < length N" for j
    using I(4) [of j] that by auto
  have "T (Suc i) = Known (N ! Suc i)" if "Suc i < length N" "c_width (N ! Suc i) = 0"
  proof -
    have "c_width (N ! i) = 2" using frame_okD(3) [OF N(1) that] by simp
    then have "N ! Suc i = S ! Suc i" using frame_okD(2) [OF N(1,2)] frame_okD(2) [OF S(1), of i] N(2) S by simp
    then show ?thesis using later [of "Suc i"] that by auto
  qed
  moreover have "T j = Known (N ! j)" if "j < Suc i" for j
    using that I(2) here by (cases "j = i") auto
  ultimately show ?thesis unfolding frame_inv_def using I(1) later by blast
qed

lemma inv_write:
  assumes inv: "frame_inv cols repaint N S i T" and N: "frame_ok cols N" "i < length N" "c_width (N ! i) \<noteq> 0"
    and S: "frame_ok cols S" "length S = length N"
  shows "frame_inv cols repaint N S (Suc i) (write_cell i (N ! i) T)"
proof -
  note I = frame_invD [OF inv]
  have head: "known_width T i \<noteq> 0"
  proof
    assume "known_width T i = 0"
    then have prev: "0 < i" "known_width T (i - 1) = 2" using cells_okD(2) [OF I(1) N(2)] by simp_all
    then have "c_width (N ! (i - 1)) = 2" using I(2) [of "i - 1"] by simp
    then have "c_width (N ! i) = 0" using frame_okD(2) [OF N(1), of "i - 1"] prev(1) N(2) by simp
    then show False using N(3) by simp
  qed
  let ?T = "write_cell i (N ! i) T"
  consider (narrow) "c_width (N ! i) = 1" | (wide) "c_width (N ! i) = 2" using frame_width [OF N(1,2)] N(3) by auto
  then show ?thesis
  proof cases
    case narrow
    have T: "?T j = (if j = i then Known (N ! i) else if j = Suc i \<and> known_width T i = 2 then Garbled else T j)" for j
      using narrow head by (simp add: write_cell_def Let_def)
    have next_head: "c_width (N ! Suc i) \<noteq> 0" if "Suc i < length N"
      using frame_okD(3) [OF N(1) that] narrow by auto
    have "?T j = Known (S ! j) \<or> (?T j = Garbled \<and> N ! j \<noteq> S ! j \<and> c_width (N ! j) \<noteq> 0)"
      if j: "\<not> repaint" "Suc i \<le> j" "j < length N" for j
    proof (cases "j = Suc i \<and> known_width T i = 2")
      case True
      then have "T i = Known (S ! i)" "c_width (S ! i) = 2" using I(4) [OF j(1), of i] N(2,3) by auto
      then have "c_width (S ! Suc i) = 0" using frame_okD(2) [OF S(1), of i] N(2) S(2) by simp
      then have "N ! Suc i \<noteq> S ! Suc i" using next_head True j by auto
      then show ?thesis using True next_head j T by simp
    next
      case False
      then show ?thesis using I(4) [OF j(1), of j] j T [of j] by auto
    qed
    moreover have "cells_ok cols (length N) ?T" by (rule write_narrow_ok [OF I(1) N(2) head narrow])
    moreover have "?T j = Known (N ! j)" if "j < Suc i" for j using that I(2) T [of j] by auto
    ultimately show ?thesis unfolding frame_inv_def using next_head by blast
  next
    case wide
    note tail = frame_okD(2) [OF N(1,2) wide]
    have T: "?T j = (if j = i then Known (N ! i) else if j = Suc i then Known (N ! Suc i)
        else if j = Suc (Suc i) \<and> known_width T (Suc i) = 2 then Garbled else T j)" for j
      using wide head tail by (simp add: write_cell_def Let_def)
    have "?T j = Known (S ! j) \<or> (?T j = Garbled \<and> N ! j \<noteq> S ! j \<and> c_width (N ! j) \<noteq> 0) \<or>
        (j = Suc i \<and> c_width (N ! Suc i) = 0)"
      if j: "\<not> repaint" "Suc i \<le> j" "j < length N" for j
    proof (cases "j = Suc (Suc i) \<and> known_width T (Suc i) = 2")
      case True
      then have "T (Suc i) = Known (S ! Suc i)" "c_width (S ! Suc i) = 2" using I(4) [OF j(1), of "Suc i"] j by auto
      then have "c_width (S ! j) = 0" using frame_okD(2) [OF S(1), of "Suc i"] True j S(2) by simp
      moreover have "c_width (N ! j) \<noteq> 0" using frame_okD(3) [OF N(1) j(3)] tail True by auto
      ultimately have "N ! j \<noteq> S ! j" by auto
      then show ?thesis using True \<open>c_width (N ! j) \<noteq> 0\<close> T by simp
    next
      case False
      then show ?thesis using I(4) [OF j(1), of j] j T [of j] tail by auto
    qed
    moreover have "cells_ok cols (length N) ?T"
      by (rule write_wide_ok [OF I(1) _ head _ wide]) (use tail in simp_all)
    moreover have "?T j = Known (N ! j)" if "j < Suc i" for j using that I(2) T [of j] by auto
    moreover have "?T (Suc i) = Known (N ! Suc i)" using T by simp
    ultimately show ?thesis unfolding frame_inv_def by blast
  qed
qed

text \<open>What the terminal keeps besides its cells, its cursor place and its pen.\<close>

definition same_frame :: "grid_term \<Rightarrow> grid_term \<Rightarrow> bool" where
  "same_frame t t' \<longleftrightarrow>
     t_cols t' = t_cols t \<and> t_rows t' = t_rows t \<and> t_visible t' = t_visible t \<and> t_shape t' = t_shape t"

definition knows_place :: "nat \<Rightarrow> (nat \<times> nat) option \<Rightarrow> grid_term \<Rightarrow> bool" where
  "knows_place cols at t \<longleftrightarrow> (\<forall>column row. at = Some (column, row) \<longrightarrow> column < cols \<longrightarrow> t_at t = Some (column, row))"

lemma exec_moves:
  assumes "knows_place (t_cols t) at t" "column < t_cols t" "row < t_rows t"
  shows "exec_all (if at \<noteq> Some (column, row) then [MoveTo column row] else []) t = Some (t\<lparr>t_at := Some (column, row)\<rparr>)"
  using assms by (auto simp: knows_place_def exec_def)

lemma exec_pen:
  "t_pen t = st \<Longrightarrow> exec_all (if c_style c \<noteq> st then [SetStyle (c_style c)] else []) t = Some (t\<lparr>t_pen := c_style c\<rparr>)"
  by (auto simp: exec_def)

lemma exec_print:
  assumes "t_at t = Some (column, row)" "column + c_width c \<le> t_cols t" "t_pen t = c_style c"
  shows "exec (Print c) t =
    Some (t\<lparr>t_cells := write_cell (row * t_cols t + column) c (t_cells t),
            t_at := (if column + c_width c < t_cols t then Some (column + c_width c, row) else None)\<rparr>)"
  using assms by (simp add: exec_def)

lemma exec_loop:
  assumes frames: "frame_ok (t_cols t) N" "frame_ok (t_cols t) S" "length S = length N" "length N = t_cols t * t_rows t"
    and sizes: "t_cols t \<le> 65535" "t_rows t \<le> 65535"
    and inv: "frame_inv (t_cols t) repaint N S i (t_cells t)" "i \<le> length N" "t_pen t = st" "knows_place (t_cols t) at t"
  shows "\<exists>t'. exec_all (render_loop (t_cols t) repaint S i (drop i N) st at) t = Some t' \<and> same_frame t t' \<and>
    frame_inv (t_cols t) repaint N S (length N) (t_cells t')"
  using assms
proof (induction "length N - i" arbitrary: i t st at)
  case 0
  then show ?case by (auto simp: same_frame_def)
next
  case (Suc n)
  let ?cols = "t_cols t"
  have i: "i < length N" using Suc.hyps(2) by simp
  then have cell: "drop i N = N ! i # drop (Suc i) N" by (simp add: Cons_nth_drop_Suc)
  have left: "n = length N - Suc i" "Suc i \<le> length N" using Suc.hyps(2) by simp_all
  note frames = Suc.prems(1-6)
  show ?case
  proof (cases "c_width (N ! i) = 0 \<or> (\<not> repaint \<and> get_cell i S = Some (N ! i))")
    case True
    have "frame_inv ?cols repaint N S (Suc i) (t_cells t)"
    proof (cases "c_width (N ! i) = 0")
      case True
      then show ?thesis by (rule inv_tail [OF Suc.prems(7) frames(1) i])
    next
      case False
      then have "\<not> repaint" "S ! i = N ! i" using True frames(3) i by (simp_all add: get_cell_def)
      then show ?thesis using inv_same [of ?cols N S i "t_cells t"] Suc.prems(7) frames(1-3) i False by simp
    qed
    from Suc.hyps(1) [OF left(1) frames this left(2) Suc.prems(9,10)] show ?thesis using True by (simp add: cell)
  next
    case False
    define column where "column = i mod ?cols"
    define row where "row = i div ?cols"
    have pos: "0 < ?cols" using i frames(4) by (cases ?cols) auto
    have place: "column < ?cols" "row < t_rows t" "row * ?cols + column = i"
      using pos i frames(4) by (simp_all add: column_def row_def less_mult_imp_div_less mult.commute)
    have mins: "min (i mod ?cols) 65535 = column" "min (i div ?cols) 65535 = row"
      using place frames(5,6) by (simp_all add: column_def [symmetric] row_def [symmetric])
    have width: "0 < c_width (N ! i)" "column + c_width (N ! i) \<le> ?cols"
    proof -
      show "0 < c_width (N ! i)" using False by simp
      show "column + c_width (N ! i) \<le> ?cols"
      proof (cases "c_width (N ! i) = 2")
        case True
        then have "Suc i mod ?cols \<noteq> 0" using frame_okD(2) [OF frames(1) i] by simp
        then have "Suc column \<noteq> ?cols" by (metis column_def mod_Suc)
        then show ?thesis using True place(1) by simp
      qed (use frame_width [OF frames(1) i] place(1) in auto)
    qed
    have min_next: "min (column + c_width (N ! i)) 65535 = column + c_width (N ! i)" using width(2) frames(5) by simp
    define t3 where "t3 = t\<lparr>t_pen := c_style (N ! i), t_cells := write_cell i (N ! i) (t_cells t),
      t_at := (if column + c_width (N ! i) < ?cols then Some (column + c_width (N ! i), row) else None)\<rparr>"
    have run: "exec_all ((if at \<noteq> Some (column, row) then [MoveTo column row] else []) @
        (if c_style (N ! i) \<noteq> st then [SetStyle (c_style (N ! i))] else []) @ Print (N ! i) # cs) t = exec_all cs t3" for cs
      using exec_moves [OF Suc.prems(10) place(1,2)] exec_pen [of "t\<lparr>t_at := Some (column, row)\<rparr>" st "N ! i"] Suc.prems(9)
        exec_print [of "t\<lparr>t_at := Some (column, row), t_pen := c_style (N ! i)\<rparr>" column row "N ! i"] width place(3)
      by (simp add: t3_def)
    have "frame_inv (t_cols t3) repaint N S (Suc i) (t_cells t3)"
      using inv_write [OF Suc.prems(7) frames(1) i _ frames(2,3)] width(1) by (simp add: t3_def)
    moreover have "knows_place (t_cols t3) (Some (column + c_width (N ! i), row)) t3"
      by (simp add: knows_place_def t3_def)
    moreover have "t_cols t3 = ?cols" "t_rows t3 = t_rows t" "t_pen t3 = c_style (N ! i)" by (simp_all add: t3_def)
    ultimately obtain t' where
      "exec_all (render_loop ?cols repaint S (Suc i) (drop (Suc i) N) (c_style (N ! i)) (Some (column + c_width (N ! i), row))) t3 = Some t'"
      "same_frame t3 t'" "frame_inv ?cols repaint N S (length N) (t_cells t')"
      using Suc.hyps(1) [of "Suc i" t3 "c_style (N ! i)" "Some (column + c_width (N ! i), row)"] left frames by auto
    moreover have "same_frame t t3" by (simp add: same_frame_def t3_def)
    moreover have "render_loop ?cols repaint S i (N ! i # drop (Suc i) N) st at =
        (if at \<noteq> Some (column, row) then [MoveTo column row] else []) @
        (if c_style (N ! i) \<noteq> st then [SetStyle (c_style (N ! i))] else []) @ Print (N ! i) #
        render_loop ?cols repaint S (Suc i) (drop (Suc i) N) (c_style (N ! i)) (Some (column + c_width (N ! i), row))"
      unfolding render_loop.simps if_not_P [OF False] Let_def mins min_next by simp
    ultimately show ?thesis unfolding cell by (auto simp only: run same_frame_def)
  qed
qed

section \<open>The frames of a run\<close>

definition shows_cells :: "grid_term \<Rightarrow> cell list \<Rightarrow> bool" where
  "shows_cells t cells \<longleftrightarrow> (\<forall>j < length cells. t_cells t j = Known (cells ! j))"

definition shows_cursor :: "grid_term \<Rightarrow> cursor option \<Rightarrow> bool" where
  "shows_cursor t c \<longleftrightarrow>
     t_visible t = (c \<noteq> None) \<and>
     (\<forall>cur. c = Some cur \<longrightarrow> t_at t = Some (cur_column cur, cur_row cur) \<and> t_shape t = cur_shape cur)"

text \<open>The terminal is as the screen remembers it; of a terminal to repaint it remembers at most the shape.\<close>

definition agrees :: "grid_term \<Rightarrow> screen \<Rightarrow> bool" where
  "agrees t s \<longleftrightarrow>
     t_cols t = columns (sc_size s) \<and> t_rows t = rows (sc_size s) \<and>
     cells_ok (t_cols t) (t_cols t * t_rows t) (t_cells t) \<and>
     (\<forall>sh. sc_shown_shape s = Some sh \<longrightarrow> t_shape t = sh) \<and>
     (\<not> sc_repaint s \<longrightarrow> shows_cells t (sc_shown s) \<and> shows_cursor t (sc_shown_cursor s))"

lemma exec_cursor:
  assumes "screen_ok s" "t_cols t = columns (sc_size s)" "t_rows t = rows (sc_size s)" "\<not> t_visible t"
    and "\<forall>sh. sc_shown_shape s = Some sh \<longrightarrow> t_shape t = sh"
  shows "\<exists>t'. exec_all (cursor_commands s) t = Some t' \<and> shows_cursor t' (sc_cursor s) \<and> t_cells t' = t_cells t \<and>
    t_cols t' = t_cols t \<and> t_rows t' = t_rows t \<and> (sc_cursor s = None \<longrightarrow> t_shape t' = t_shape t)"
proof (cases "sc_cursor s")
  case (Some c)
  then have "cur_column c < t_cols t" "cur_row c < t_rows t" using assms by (auto simp: screen_ok_def Let_def)
  then show ?thesis using Some assms(5)
    by (cases "sc_shown_shape s = Some (cur_shape c)") (auto simp: cursor_commands_def exec_def shows_cursor_def)
qed (use assms(4) in \<open>simp add: cursor_commands_def shows_cursor_def\<close>)

lemma frame_inv_start:
  assumes ok: "screen_ok s" and t: "agrees t s"
  shows "frame_inv (t_cols t) (sc_repaint s) (sc_next s) (sc_shown s) 0 (t_cells t)"
proof -
  have N: "length (sc_next s) = t_cols t * t_rows t" "length (sc_shown s) = length (sc_next s)" "frame_ok (t_cols t) (sc_next s)"
    using ok t by (simp_all add: screen_ok_def agrees_def Let_def)
  have "c_width (sc_next s ! 0) \<noteq> 0" if "0 < length (sc_next s)" using frame_okD(3) [OF N(3) that] by auto
  then show ?thesis using t N by (auto simp: frame_inv_def agrees_def shows_cells_def)
qed

lemma frame_inv_end:
  "frame_inv cols repaint N S (length N) T \<Longrightarrow> cells_ok cols (length N) T \<and> (\<forall>j < length N. T j = Known (N ! j))"
  by (simp add: frame_inv_def)

lemma render_step:
  assumes ok: "screen_ok s" and t: "agrees t s"
  shows "\<exists>t'. exec_all (render_commands s) t = Some t' \<and> shows_cells t' (sc_next s) \<and> shows_cursor t' (sc_cursor s) \<and>
    agrees t' (snd (render out s))"
proof (cases "\<not> sc_repaint s \<and> sc_cursor s = sc_shown_cursor s \<and> sc_next s = sc_shown s")
  case True
  then show ?thesis using t by (auto simp: render_commands_def render_def agrees_def)
next
  case False
  define t1 where "t1 = t\<lparr>t_visible := False, t_pen := default_style\<rparr>"
  have cells1: "t_cols t1 = t_cols t" "t_rows t1 = t_rows t" "t_cells t1 = t_cells t" "t_pen t1 = default_style"
    by (simp_all add: t1_def)
  have N: "frame_ok (t_cols t1) (sc_next s)" "frame_ok (t_cols t1) (sc_shown s)" "length (sc_shown s) = length (sc_next s)"
      "length (sc_next s) = t_cols t1 * t_rows t1" "t_cols t1 \<le> 65535" "t_rows t1 \<le> 65535"
    using ok t by (simp_all add: screen_ok_def agrees_def Let_def t1_def)
  have inv: "frame_inv (t_cols t1) (sc_repaint s) (sc_next s) (sc_shown s) 0 (t_cells t1)"
    using frame_inv_start [OF assms] cells1 by simp
  obtain t2 where t2: "exec_all (render_loop (t_cols t1) (sc_repaint s) (sc_shown s) 0 (sc_next s) default_style None) t1 = Some t2"
      "same_frame t1 t2" "frame_inv (t_cols t1) (sc_repaint s) (sc_next s) (sc_shown s) (length (sc_next s)) (t_cells t2)"
    using exec_loop [OF N inv le0 cells1(4), of None] by (auto simp: knows_place_def)
  define t3 where "t3 = t2\<lparr>t_pen := default_style\<rparr>"
  have cells3: "t_cols t3 = columns (sc_size s)" "t_rows t3 = rows (sc_size s)" "\<not> t_visible t3" "t_cells t3 = t_cells t2"
      "\<forall>sh. sc_shown_shape s = Some sh \<longrightarrow> t_shape t3 = sh"
  proof -
    have same: "t_cols t2 = t_cols t" "t_rows t2 = t_rows t" "\<not> t_visible t2" "t_shape t2 = t_shape t"
      using t2(2) by (simp_all add: same_frame_def t1_def)
    have "t_cols t = columns (sc_size s)" "t_rows t = rows (sc_size s)" using t by (simp_all add: agrees_def)
    then show "t_cols t3 = columns (sc_size s)" "t_rows t3 = rows (sc_size s)" "\<not> t_visible t3" "t_cells t3 = t_cells t2"
      using same(1-3) by (simp_all add: t3_def)
    have "t_shape t3 = t_shape t" using same(4) by (simp add: t3_def)
    then show "\<forall>sh. sc_shown_shape s = Some sh \<longrightarrow> t_shape t3 = sh" using t unfolding agrees_def by metis
  qed
  obtain t4 where t4: "exec_all (cursor_commands s) t3 = Some t4" "shows_cursor t4 (sc_cursor s)" "t_cells t4 = t_cells t3"
      "t_cols t4 = t_cols t3" "t_rows t4 = t_rows t3" "sc_cursor s = None \<longrightarrow> t_shape t4 = t_shape t3"
    using exec_cursor [OF ok cells3(1-3,5)] by (elim exE conjE) (rule that; assumption)
  have run: "exec_all (render_commands s) t = Some t4"
  proof -
    have "columns (sc_size s) = t_cols t1" using t by (simp add: agrees_def t1_def)
    moreover have "exec_all [BeginUpdate, HideCursor, ResetStyle] t = Some t1" by (simp add: exec_def t1_def)
    moreover have "exec_all [ResetStyle] t2 = Some t3" by (simp add: exec_def t3_def)
    moreover have "exec_all [EndUpdate] t4 = Some t4" by (simp add: exec_def)
    moreover have "exec_all (a @ b @ c @ d @ e) t = Some t4"
      if "exec_all a t = Some t1" "exec_all b t1 = Some t2" "exec_all c t2 = Some t3" "exec_all d t3 = Some t4"
        "exec_all e t4 = Some t4" for a b c d e
      using that by simp
    ultimately show ?thesis using t2(1) t4(1) unfolding render_commands_def if_not_P [OF False] by presburger
  qed
  have shown: "shows_cells t4 (sc_next s)" "cells_ok (t_cols t4) (t_cols t4 * t_rows t4) (t_cells t4)"
    using frame_inv_end [OF t2(3)] N(4) t4(3-5) cells3 t t2(2)
    by (simp_all add: shows_cells_def t3_def same_frame_def)
  have "agrees t4 (snd (render out s))"
    unfolding render_def if_not_P [OF False] agrees_def
    using shown t4 cells3 by (auto simp: shows_cursor_def split: option.splits)
  then show ?thesis using run shown(1) t4(2) by blast
qed

text \<open>C26: No draw on a screen panics: whatever is drawn, at any place, with any text and any size of the terminal,
  all indices are in the grid, and in both frames each wide grapheme has its tail beside it in its row.\<close>

theorem draws_never_panic:
  assumes "columns sz \<le> 65535" "rows sz \<le> 65535" "\<forall>op \<in> set ops. op_u16 op"
  shows "\<exists>out s. run_ops segment str_width ops ('''', new_screen sz) = Some (out, s) \<and>
    frame_ok (columns (sc_size s)) (sc_next s) \<and> frame_ok (columns (sc_size s)) (sc_shown s) \<and>
    length (sc_next s) = columns (sc_size s) * rows (sc_size s)"
proof -
  from run_ops_ok [OF new_screen_ok [OF assms(1,2)] assms(3), of segment str_width "''''"]
  show ?thesis by (fastforce simp: screen_ok_def Let_def)
qed

text \<open>C25: A render turns a terminal that shows the last frame into one that shows the next frame with its cursor, though
  it writes only the changes, and after a resize or a repaint it does so for a terminal with any content. The screen
  remembers the terminal rightly for the render after it.\<close>

theorem render_draws_frame:
  assumes "run_ops segment str_width ops ('''', new_screen sz) = Some (out, s)"
    and "columns sz \<le> 65535" "rows sz \<le> 65535" "\<forall>op \<in> set ops. op_u16 op" "agrees t s"
  shows "\<exists>t'. exec_all (render_commands s) t = Some t' \<and> shows_cells t' (sc_next s) \<and> shows_cursor t' (sc_cursor s) \<and>
    agrees t' (snd (render out s)) \<and> fst (render out s) = out @ concat (map command_bytes (render_commands s))"
proof -
  have "screen_ok s" using run_ops_ok [OF new_screen_ok [OF assms(2,3)] assms(4), of segment str_width "''''"] assms(1) by auto
  from render_step [OF this assms(5), of out] show ?thesis by (auto simp: render_def render_commands_def)
qed

definition small_size :: size where "small_size = \<lparr>columns = 2, rows = 1\<rparr>"

definition small_screen :: screen where
  "small_screen = (new_screen small_size)\<lparr>sc_next :=
     [\<lparr>c_glyph = new_glyph ''x'', c_width = 1, c_style = default_style\<rparr>, blank default_style]\<rparr>"

definition small_term :: grid_term where
  "small_term = \<lparr>t_cols = 2, t_rows = 1, t_cells = (\<lambda>_. Garbled), t_at = None, t_pen = default_style, t_visible = True,
     t_shape = DefaultShape\<rparr>"

lemma small_run:
  "run_ops (map (\<lambda>c. [c])) length [Draw 0 0 ''x'' default_style] ('''', new_screen small_size) = Some ('''', small_screen)"
  by (simp add: run_op_def text_screen_def graphemes_def grapheme_width_def chars_of_def utf8_chars_def bytes_of_def
      seq_len_def is_control_def small_size_def small_screen_def new_screen_def put_def put_cells_def get_cell_def
      set_cell_def Let_def numeral_2_eq_2)

theorem draws_never_panic_witness:
  "\<exists>out s. run_ops (map (\<lambda>c. [c])) length [Draw 1 0 ''xyz'' default_style, Fill 0 0 9 9 default_style, Render]
     ('''', new_screen small_size) = Some (out, s) \<and>
    frame_ok (columns (sc_size s)) (sc_next s) \<and> frame_ok (columns (sc_size s)) (sc_shown s) \<and>
    length (sc_next s) = columns (sc_size s) * rows (sc_size s)"
  by (rule draws_never_panic) (simp_all add: small_size_def op_u16_def)

theorem render_draws_frame_witness:
  "\<exists>t'. exec_all (render_commands small_screen) small_term = Some t' \<and> shows_cells t' (sc_next small_screen) \<and>
    shows_cursor t' (sc_cursor small_screen) \<and> agrees t' (snd (render '''' small_screen)) \<and>
    fst (render '''' small_screen) = '''' @ concat (map command_bytes (render_commands small_screen))"
  by (rule render_draws_frame [OF small_run])
    (simp_all add: small_size_def small_screen_def small_term_def new_screen_def op_u16_def agrees_def cells_ok_def
      known_width_def)

section \<open>What the terminal reads as text\<close>

text \<open>The text of a cell has no control character, so it cannot start a sequence of its own.\<close>

definition plain_text :: "string \<Rightarrow> bool" where
  "plain_text g \<longleftrightarrow> (\<forall>cs. chars_of g = Some cs \<longrightarrow> (\<forall>c \<in> set cs. \<not> is_control c))"

definition plain_cell :: "cell \<Rightarrow> bool" where
  "plain_cell c \<longleftrightarrow> plain_text (glyph_bytes (c_glyph c))"

lemma glyph_bytes_new [simp]: "glyph_bytes (new_glyph g) = g"
  by (simp add: new_glyph_def glyph_bytes_def)

lemma plain_blank [simp]: "plain_cell (blank st)"
  by (simp add: plain_cell_def plain_text_def blank_def space_glyph_def glyph_bytes_def chars_of_def utf8_chars_def
      bytes_of_def seq_len_def is_control_def)

lemma plain_tail [simp]: "plain_cell (tail_cell st)"
  by (simp add: plain_cell_def plain_text_def tail_cell_def tail_glyph_def glyph_bytes_def chars_of_def utf8_chars_def
      bytes_of_def)

lemma plain_grapheme:
  "grapheme_width str_width g \<noteq> 0 \<Longrightarrow> plain_cell \<lparr>c_glyph = new_glyph g, c_width = w, c_style = st\<rparr>"
  by (auto simp: plain_cell_def plain_text_def grapheme_width_def list_ex_iff split: option.splits if_splits)

definition plain_cells :: "cell list \<Rightarrow> bool" where
  "plain_cells cells \<longleftrightarrow> (\<forall>c \<in> set cells. plain_cell c)"

lemma plain_update: "plain_cells cells \<Longrightarrow> plain_cell c \<Longrightarrow> plain_cells (cells[i := c])"
  using set_update_subset_insert [of cells i c] by (auto simp: plain_cells_def)

definition plain_result :: "cell list option \<Rightarrow> bool" where
  "plain_result r \<longleftrightarrow> (\<forall>cells. r = Some cells \<longrightarrow> plain_cells cells)"

lemma plain_Some: "plain_cells cells \<Longrightarrow> plain_result (Some cells)"
  by (simp add: plain_result_def)

lemma plain_blank_at: "plain_cells cells \<Longrightarrow> plain_result (blank_at i cells)"
  by (simp add: plain_result_def blank_at_def plain_update)

lemma plain_set_cell: "plain_cells cells \<Longrightarrow> plain_cell c \<Longrightarrow> plain_result (set_cell i c cells)"
  by (simp add: plain_result_def set_cell_def plain_update)

lemma plain_if: "plain_result r \<Longrightarrow> plain_result r' \<Longrightarrow> plain_result (if b then r else r')"
  by simp

lemma plain_bind:
  "plain_result r \<Longrightarrow> (\<And>cells. plain_cells cells \<Longrightarrow> plain_result (f cells)) \<Longrightarrow> plain_result (Option.bind r f)"
  by (auto simp: plain_result_def bind_eq_Some_conv)

lemma plain_get: "(\<And>old. plain_result (f old)) \<Longrightarrow> plain_result (Option.bind (get_cell i cells) f)"
  by (auto simp: plain_result_def bind_eq_Some_conv)

lemmas plain_intros = plain_if plain_get plain_bind plain_blank_at plain_set_cell plain_Some plain_tail

lemma plain_put_result: "plain_cells cells \<Longrightarrow> plain_cell c \<Longrightarrow> plain_result (put_cells cols index column c cells)"
  unfolding put_cells_def Let_def by (assumption | rule plain_intros)+

lemma plain_put_cells:
  "plain_cells cells \<Longrightarrow> plain_cell c \<Longrightarrow> put_cells cols index column c cells = Some cells' \<Longrightarrow> plain_cells cells'"
  using plain_put_result by (simp add: plain_result_def)

definition plain_screen :: "screen \<Rightarrow> bool" where
  "plain_screen s \<longleftrightarrow> plain_cells (sc_next s) \<and> plain_cells (sc_shown s)"

lemma plain_put: "plain_screen s \<Longrightarrow> plain_cell c \<Longrightarrow> put column row c s = Some s' \<Longrightarrow> plain_screen s'"
  by (auto simp: put_def Let_def plain_screen_def dest: plain_put_cells)

lemma plain_put_all: "plain_screen s \<Longrightarrow> plain_cell c \<Longrightarrow> put_all ps c s = Some s' \<Longrightarrow> plain_screen s'"
  by (induction ps c s rule: put_all.induct) (auto simp: bind_eq_Some_conv dest: plain_put)

lemma plain_text_loop:
  "plain_screen s \<Longrightarrow> \<forall>(g, n) \<in> set gs. n = grapheme_width str_width g \<Longrightarrow>
   text_loop gs st row column s = Some (column', s') \<Longrightarrow> plain_screen s'"
proof (induction gs arbitrary: column s)
  case (Cons g gs)
  obtain grapheme cells where g: "g = (grapheme, cells)" by fastforce
  define width :: nat where "width = (if cells = 1 then 1 else 2)"
  have plain: "cells \<noteq> 0 \<Longrightarrow> plain_cell \<lparr>c_glyph = new_glyph grapheme, c_width = width, c_style = st\<rparr>"
    using Cons.prems(2) plain_grapheme by (auto simp: g)
  consider "cells = 0" | "cells \<noteq> 0" "column \<ge> columns (sc_size s)"
    | "cells \<noteq> 0" "column < columns (sc_size s)" "column + width > columns (sc_size s)"
    | "cells \<noteq> 0" "column < columns (sc_size s)" "column + width \<le> columns (sc_size s)" by linarith
  then show ?case
  proof cases
    case 3
    then have "put column row (blank st) s = Some s'"
      using Cons.prems(3) unfolding width_def g by (auto simp: Let_def split: if_splits)
    then show ?thesis using plain_put [OF Cons.prems(1) plain_blank] by blast
  next
    case 4
    then obtain s1 where "put column row \<lparr>c_glyph = new_glyph grapheme, c_width = width, c_style = st\<rparr> s = Some s1"
      "text_loop gs st row (column + width) s1 = Some (column', s')"
      using Cons.prems(3) unfolding width_def g by (auto simp: Let_def bind_eq_Some_conv split: if_splits)
    moreover have "\<forall>(g, n) \<in> set gs. n = grapheme_width str_width g" using Cons.prems(2) by simp
    ultimately show ?thesis using Cons.IH [OF plain_put [OF Cons.prems(1) plain [OF 4(1)]]] by blast
  next
    case 1
    have "\<forall>(g, n) \<in> set gs. n = grapheme_width str_width g" using Cons.prems(2) by simp
    from Cons.IH [OF Cons.prems(1) this] show ?thesis using Cons.prems(3) 1 by (simp add: g)
  next
    case 2
    then show ?thesis using Cons.prems(1,3) by (simp add: g Let_def)
  qed
qed simp

lemma plain_new: "plain_screen (new_screen sz)"
  by (simp add: plain_screen_def plain_cells_def new_screen_def Let_def)

lemma plain_op:
  assumes "plain_screen s" "run_op segment str_width op (out, s) = Some (out', s')"
  shows "plain_screen s'"
proof (cases op)
  case (Fill column row width height st)
  then show ?thesis using assms plain_put_all [OF assms(1) plain_blank]
    by (auto simp: run_op_def fill_screen_def Let_def)
next
  case (Draw column row t st)
  have "\<forall>(g, n) \<in> set (graphemes segment str_width t). n = grapheme_width str_width g" by (auto simp: graphemes_def)
  from plain_text_loop [OF assms(1) this] show ?thesis
    using assms Draw by (auto simp: run_op_def text_screen_def split: if_splits)
next
  case Resize
  then show ?thesis using assms(2) plain_new by (auto simp: run_op_def resize_def plain_screen_def)
qed (use assms in \<open>auto simp: run_op_def plain_screen_def repaint_screen_def clear_screen_def set_cursor_def render_def
      plain_cells_def Let_def split: if_splits\<close>)

lemma plain_ops: "plain_screen s \<Longrightarrow> run_ops segment str_width ops (out, s) = Some (out', s') \<Longrightarrow> plain_screen s'"
proof (induction ops arbitrary: out s)
  case (Cons op ops)
  then show ?case using plain_op by (fastforce simp: bind_eq_Some_conv)
qed simp

lemma loop_prints: "Print c \<in> set (render_loop cols repaint shown i cs st at) \<Longrightarrow> c \<in> set cs"
  by (induction cols repaint shown i cs st at rule: render_loop.induct) (auto simp: Let_def split: if_splits)

text \<open>C27: No drawn text sends the terminal a sequence: each grapheme that a frame prints is free of control characters,
  the escape character among them, whatever text was drawn.\<close>

theorem text_sends_no_sequence:
  assumes "run_ops segment str_width ops ('''', new_screen sz) = Some (out, s)"
    and "Print c \<in> set (render_commands s)" "chars_of (command_bytes (Print c)) = Some cs"
  shows "\<forall>x \<in> set cs. \<not> is_control x"
proof -
  have "plain_screen s" using plain_ops [OF plain_new assms(1)] .
  moreover have "c \<in> set (sc_next s)"
    using assms(2) by (auto simp: render_commands_def cursor_commands_def split: if_splits option.splits dest: loop_prints)
  ultimately show ?thesis
    using assms(3) by (auto simp: plain_screen_def plain_cells_def plain_cell_def plain_text_def command_bytes_def)
qed

theorem text_sends_no_sequence_witness:
  "\<not> is_control 120 \<and>
   Print \<lparr>c_glyph = new_glyph ''x'', c_width = 1, c_style = default_style\<rparr> \<in> set (render_commands small_screen)"
proof -
  have p: "Print \<lparr>c_glyph = new_glyph ''x'', c_width = 1, c_style = default_style\<rparr> \<in> set (render_commands small_screen)"
    by (simp add: render_commands_def small_screen_def small_size_def new_screen_def Let_def)
  moreover have "chars_of (command_bytes (Print \<lparr>c_glyph = new_glyph ''x'', c_width = 1, c_style = default_style\<rparr>)) = Some [120]"
    by (simp add: command_bytes_def chars_of_def utf8_chars_def bytes_of_def seq_len_def)
  ultimately show ?thesis using text_sends_no_sequence [OF small_run p] by fastforce
qed

end
