(* ===== verification/Spec2Isabelle.thy ===== *)
theory Spec2Isabelle
  imports Drive_Facts Protocol Store Store_Facts Memory_Facts Journal Session_Facts Failing_Store Session_Store
    Session_Inputs Session_Updates Sse Json_Writer Base64 Reply Encoder Wyhash Term_Parser Screen_Facts
begin

text \<open>
  This development models the core of yuke, a coding agent in Rust: one turn of a conversation with a model,
  from the bytes of a provider request to the commits in a session store, and the terminal that shows it. Paths
  are relative to \<open>src/crates/\<close>.

  \<^bold>\<open>The parts and how they work together\<close>

  \<^item> A session (\<open>agent/src/session.rs\<close>) owns a context, which is a list of blocks, and a lease on its stored
    session. A turn takes the pending inputs of the store, runs the driver on the context, and saves each commit
    of the driver in the store. A failed save makes the session stale, and \<open>recover\<close> reads the store again.
  \<^item> The store (\<open>agent/src/store.rs\<close>, \<open>agent/src/memory.rs\<close>) keeps the events, the pending inputs and the
    blobs of each session, and gives one write lease for each.
  \<^item> The driver (\<open>engine/src/drive.rs\<close>) loops over rounds: it sends the context to the model, repeats failed
    attempts (\<open>ai/src/retry.rs\<close>), runs the tools of an answer (\<open>engine/src/tool.rs\<close>, \<open>engine/src/search.rs\<close>),
    and asks the hooks. What each result means for the context is decided in \<open>engine/src/turn_state.rs\<close>, which
    gives the next action with the commit to save before it.
  \<^item> A request is encoded by \<open>ai/src/encoder.rs\<close> over three serializers (\<open>ai/src/wire/\<close>) and a JSON writer, and
    each block is hashed (\<open>ai/src/wyhash.rs\<close>) so that the next request writes only what changed.
  \<^item> An answer streams through the parser of server-sent events and one of three reducers (\<open>ai/src/stream/\<close>) to
    the reply of the attempt (\<open>ai/src/reply.rs\<close>).
  \<^item> An observer follows the turn by updates (\<open>agent/src/updates.rs\<close>).
  \<^item> The terminal (\<open>term/src/\<close>) parses input bytes to events, and draws a grid of cells by its differences.

  \<^bold>\<open>The theories\<close>

  \<^item> \<open>Prelude\<close>: machine types, lists, maps and results that all parts share. \<open>Utf8\<close>: text as Rust reads it.
  \<^item> \<open>Ai_Types\<close>, \<open>Tool\<close>, \<open>Protocol\<close>: the data of a model call, of tools and of a session. A struct is a record,
    an enum is a datatype, an error is the left side of a sum.
  \<^item> \<open>Commit\<close>, \<open>Turn_State\<close>: the commits of a turn with their replay, and one function for each method of
    \<open>TurnState\<close>. The locale \<open>ledger\<close> is the contract of a state that saves itself by commits; \<open>turn_ledger\<close>
    interprets it. \<open>turn_trans\<close> is the protocol that the driver follows. \<open>Pairing\<close> says which contexts a
    provider accepts: each call gets its result, in call order, right after its answer.
  \<^item> \<open>Retry\<close>, \<open>Failures\<close>, \<open>Search\<close>: when an attempt repeats, what a failed answer means, the search of tools.
  \<^item> \<open>Drive\<close>, \<open>Drive_Facts\<close>, \<open>Turn_Log\<close>, \<open>Journal\<close>: the driver in an environment, that a cancel ends it, that
    its journal replays to its context, the order of what an observer sees, and what a journal holds at any moment.
  \<^item> \<open>Store\<close>, \<open>Memory\<close>, \<open>Memory_Facts\<close>, \<open>Store_Facts\<close>: the contract \<open>session_store\<close>, the store in memory, its
    invariant over every reachable state, and commits, reopening, forks, leases and pages.
  \<^item> \<open>Session\<close>, \<open>Session_Facts\<close>, \<open>Failing_Store\<close>, \<open>Session_Store\<close>, \<open>Session_Inputs\<close>: a session on any store, its
    invariant under the contract \<open>durable_store\<close>, the store whose calls fail, and the life of a session on the
    store in memory. \<open>memory_sessions\<close> and \<open>failing_sessions\<close> interpret the contract on the store in memory, as it
    is and when any of its calls fail.
  \<^item> \<open>Updates\<close>, \<open>Session_Updates\<close>: what an observer hears, and a client that follows its documentation.
  \<^item> \<open>Json\<close>, \<open>Json_Writer\<close>, \<open>Base64\<close>, \<open>Wire\<close>, \<open>Wire_Anthropic\<close>, \<open>Wire_Chat\<close>, \<open>Wire_Responses\<close>,
    \<open>Wire_Requests\<close>, \<open>Head_Text\<close>, \<open>Wyhash\<close>, \<open>Encoder\<close>: a request down to its bytes. The locale
    \<open>element_writer\<close> is what the encoder needs of the serializers; \<open>requests\<close> interprets it.
  \<^item> \<open>Sse\<close>, \<open>Stream_Draft\<close>, \<open>Reducer\<close>, \<open>Anthropic\<close>, \<open>Chat\<close>, \<open>Responses\<close>, \<open>Answer_Stream\<close>, \<open>Reply\<close>: an answer from
    its bytes. The locale \<open>reducer\<close> is what the stream needs of a reducer; \<open>messages\<close>, \<open>chunks\<close> and \<open>items\<close>
    interpret it on the three protocols, and \<open>answers\<close> on the choice between them.
  \<^item> \<open>Term_Event\<close>, \<open>Term_Parser\<close>, \<open>Screen\<close>, \<open>Screen_Facts\<close>: the terminal.

  \<^bold>\<open>What the lemmas show\<close>

  \<^item> A turn: its commits replay to its context, every call is answered in order, and a cancel ends it.
  \<^item> A store: no \<open>expect\<close> fails, a commit is atomic, a fork copies completed turns, one writer holds a session
    whatever calls arrive, and the pages of a list miss nothing.
  \<^item> A session: one that is not stale is what its store holds; a stale one recovers, and each call that a failed
    write or a dropped turn left open gets one error result; a crash after any commit is repairable.
  \<^item> A request: an encoder with any history writes what a new one writes; its head splits no header line.
  \<^item> An answer: the cuts of the body do not matter, nothing panics, the response is what the events said and
    keeps the limits. The typed read path of a protocol does what its tree path does, except where a nested
    struct is given by position.
  \<^item> A terminal: the cuts of the input do not matter, a paste is one clean event, no draw panics, and the bytes
    of a render bring an abstract terminal to the frame that was drawn.

  \<^bold>\<open>Loops, bounds and integers\<close>

  Hooks may send a round again without end, and a model may call tools without end, so \<open>run_turn\<close> takes fuel, the
  number of passes; \<open>None\<close> is only that the fuel ended. A cancel at the moment \<open>c\<close> needs \<open>2 * (c - now) + 2\<close>
  passes at most, which is proved with no bound on anything else. The properties that start from a result of
  \<open>run_turn\<close> hold for any fuel. Every other loop is total: the attempts of a request by the attempts that are
  left, the parsers and the writers by the bytes that are left, the reads of a body by the reads that are left.
  The reader of JSON in \<open>Json_Writer\<close>, which is a specification, takes the length of its text as fuel.
  Lengths and counts that only grow with memory are natural numbers; token counts, colours, hashes and numeric
  parameters that the code bounds or wraps keep their width.

  \<^bold>\<open>Parameters\<close>

  Code that is not in the repository is an argument of the definitions that use it: \<open>serde_json\<close> and its derived
  reads (a parser of texts, with the documented laws as hypotheses where a property needs them), the decimal text
  of a float, SHA-256, the hash of a block (free of collisions where the encoder needs it), the tables of
  Unicode, the graphemes of a text and their widths, and float arithmetic of the search. The world is an argument too: the clock, new ids,
  random numbers, the wait of each step, the transport (a list of what its reads give), the handlers of tools,
  the hooks, the moves of other clients on the store, and the failures of a store (\<open>up\<close>, which says for each call
  whether it arrives). A blob store is honest where a property needs it: a digest names one content.
  The abstract terminal of \<open>Screen_Facts\<close> and the lists that \<open>Sse\<close> compares with are specifications.

  \<^bold>\<open>What modelling showed\<close>

  \<^item> A failed input hook in the middle of a turn can cost the session the saved end of the turn (\<open>session.rs\<close>).
  \<^item> A nested struct that a provider gives by position passes the typed read path, though a comment says that
    the tree path gets it and refuses it (\<open>stream/anthropic.rs\<close>; the Chat path has the same gap).
  \<^item> A page of sessions with the limit 0 has no next, even when older sessions exist (\<open>memory.rs\<close>).

  \<^bold>\<open>What is not modelled\<close>

  I/O and glue: the HTTP client, the terminal device and its reader thread, the OAuth flows, the application and
  its files, the JSON-RPC messages. Bindings to engines that are not in the repository: the JavaScript runtime, the
  MCP client, and the SQLite store with its generated queries, of which \<open>durable_store\<close> states what a session
  needs. Generated tables: the provider catalog. Test support. Futures are functions whose waits end at a moment;
  a drop of one is modelled where the code promises something about it: a cancel, a read of an answer that loses a
  race, and a turn of a session. A life of a session starts with \<open>create\<close>; \<open>fork\<close> is modelled and its result is a
  property of the store, but the life of a forked session is not followed.
\<close>

end
